(* ===== verification/Kernel_Prelude.thy ===== *)
theory Kernel_Prelude
  imports Main "HOL-Library.Word"
begin

text \<open>
  Shared vocabulary of the development: the C integer types of the kernel as words, byte
  lists and their big-endian readings, list facts that several components use, and the fact
  collections that the component theories extend.
\<close>

unbundle bit_operations_syntax

section \<open>Machine types\<close>

type_synonym u8 = "8 word"
type_synonym u16 = "16 word"
type_synonym u32 = "32 word"

section \<open>Fact collections\<close>

named_theorems bpf_defs \<open>definitions of the packet-filter steps\<close>
named_theorems wf_intros \<open>well-formedness of results\<close>

section \<open>Big-endian readings of byte lists\<close>

definition be16 :: "u8 \<Rightarrow> u8 \<Rightarrow> u32" where
  "be16 b0 b1 = push_bit 8 (ucast b0) OR ucast b1"

definition be32 :: "u8 \<Rightarrow> u8 \<Rightarrow> u8 \<Rightarrow> u8 \<Rightarrow> u32" where
  "be32 b0 b1 b2 b3 =
     push_bit 24 (ucast b0) OR push_bit 16 (ucast b1) OR push_bit 8 (ucast b2) OR ucast b3"

text \<open>The two and the four bytes at an offset of a byte list, as the network reads them.\<close>

definition half_of :: "u8 list \<Rightarrow> nat \<Rightarrow> u32" where
  "half_of d k = be16 (d ! k) (d ! (k + 1))"

definition word_of_bytes :: "u8 list \<Rightarrow> nat \<Rightarrow> u32" where
  "word_of_bytes d k = be32 (d ! k) (d ! (k + 1)) (d ! (k + 2)) (d ! (k + 3))"

section \<open>Lists\<close>

lemma nth_append_right_add [simp]: "(xs @ ys) ! (length xs + i) = ys ! i"
  by simp

lemma find_Some_holds: "List.find P xs = Some x \<Longrightarrow> P x \<and> x \<in> set xs"
  by (auto simp: find_Some_iff)

section \<open>Words of 32 bits as natural numbers\<close>

lemma unat_of_nat_u32: "n < 2 ^ 32 \<Longrightarrow> unat (of_nat n :: u32) = n"
  by (simp add: unat_of_nat take_bit_nat_eq_self)

lemma unat_sub_u32: "(b :: u32) \<le> a \<Longrightarrow> unat (a - b) = unat a - unat b"
  by (rule unat_sub)

lemma unat_add_u32: "unat (a :: u32) + unat b < 2 ^ 32 \<Longrightarrow> unat (a + b) = unat a + unat b"
  by (simp add: unat_word_ariths)

end
