(* ===== verification/Bpf_Insn.thy ===== *)
theory Bpf_Insn
  imports Kernel_Prelude
begin

text \<open>
  The instructions of the packet filter: \<open>struct bpf_insn\<close> and the encoding macros of
  \<open>bsd/net/bpf.h\<close>, and the dispatch of the interpreter's switch in
  \<open>bsd/net/bpf_filter.c\<close> as a function from a code to a label.
\<close>

section \<open>Instruction encoding\<close>

record bpf_insn =
  bi_code :: u16
  bi_jt :: u8
  bi_jf :: u8
  bi_k :: u32

abbreviation "BPF_LD \<equiv> (0x00 :: u16)"
abbreviation "BPF_LDX \<equiv> (0x01 :: u16)"
abbreviation "BPF_ST \<equiv> (0x02 :: u16)"
abbreviation "BPF_STX \<equiv> (0x03 :: u16)"
abbreviation "BPF_ALU \<equiv> (0x04 :: u16)"
abbreviation "BPF_JMP \<equiv> (0x05 :: u16)"
abbreviation "BPF_RET \<equiv> (0x06 :: u16)"
abbreviation "BPF_MISC \<equiv> (0x07 :: u16)"
abbreviation "BPF_W \<equiv> (0x00 :: u16)"
abbreviation "BPF_H \<equiv> (0x08 :: u16)"
abbreviation "BPF_B \<equiv> (0x10 :: u16)"
abbreviation "BPF_IMM \<equiv> (0x00 :: u16)"
abbreviation "BPF_ABS \<equiv> (0x20 :: u16)"
abbreviation "BPF_IND \<equiv> (0x40 :: u16)"
abbreviation "BPF_MEM \<equiv> (0x60 :: u16)"
abbreviation "BPF_LEN \<equiv> (0x80 :: u16)"
abbreviation "BPF_MSH \<equiv> (0xa0 :: u16)"
abbreviation "BPF_ADD \<equiv> (0x00 :: u16)"
abbreviation "BPF_SUB \<equiv> (0x10 :: u16)"
abbreviation "BPF_MUL \<equiv> (0x20 :: u16)"
abbreviation "BPF_DIV \<equiv> (0x30 :: u16)"
abbreviation "BPF_OR \<equiv> (0x40 :: u16)"
abbreviation "BPF_AND \<equiv> (0x50 :: u16)"
abbreviation "BPF_LSH \<equiv> (0x60 :: u16)"
abbreviation "BPF_RSH \<equiv> (0x70 :: u16)"
abbreviation "BPF_NEG \<equiv> (0x80 :: u16)"
abbreviation "BPF_JA \<equiv> (0x00 :: u16)"
abbreviation "BPF_JEQ \<equiv> (0x10 :: u16)"
abbreviation "BPF_JGT \<equiv> (0x20 :: u16)"
abbreviation "BPF_JGE \<equiv> (0x30 :: u16)"
abbreviation "BPF_JSET \<equiv> (0x40 :: u16)"
abbreviation "BPF_K \<equiv> (0x00 :: u16)"
abbreviation "BPF_X \<equiv> (0x08 :: u16)"
abbreviation "BPF_A \<equiv> (0x10 :: u16)"
abbreviation "BPF_TAX \<equiv> (0x00 :: u16)"
abbreviation "BPF_TXA \<equiv> (0x80 :: u16)"
abbreviation "BPF_MEMWORDS \<equiv> (16 :: nat)"

definition BPF_CLASS :: "u16 \<Rightarrow> u16" where
  "BPF_CLASS c = c AND 0x07"

definition BPF_MODE :: "u16 \<Rightarrow> u16" where
  "BPF_MODE c = c AND 0xe0"

definition BPF_OP :: "u16 \<Rightarrow> u16" where
  "BPF_OP c = c AND 0xf0"

text \<open>
  One constructor per \<open>case\<close> label of the interpreter's switch, in its order, grouped as the
  switch groups them: returns, packet loads, scratch memory, jumps, arithmetic.
\<close>

datatype ret_op = RET_K | RET_A

datatype load_op =
    LD_W_ABS | LD_H_ABS | LD_B_ABS | LD_W_LEN | LDX_W_LEN
  | LD_W_IND | LD_H_IND | LD_B_IND | LDX_MSH_B

datatype mem_op = LD_IMM | LDX_IMM | LD_MEM | LDX_MEM | ST_MEM | STX_MEM

datatype jump_op =
    JMP_JA | JMP_JGT_K | JMP_JGE_K | JMP_JEQ_K | JMP_JSET_K
  | JMP_JGT_X | JMP_JGE_X | JMP_JEQ_X | JMP_JSET_X

datatype alu_op =
    ALU_ADD_X | ALU_SUB_X | ALU_MUL_X | ALU_DIV_X | ALU_AND_X | ALU_OR_X
  | ALU_LSH_X | ALU_RSH_X
  | ALU_ADD_K | ALU_SUB_K | ALU_MUL_K | ALU_DIV_K | ALU_AND_K | ALU_OR_K
  | ALU_LSH_K | ALU_RSH_K | ALU_NEG_A | MISC_TAX_OP | MISC_TXA_OP

datatype bpf_label =
    Ret_op ret_op | Load_op load_op | Mem_op mem_op | Jump_op jump_op | Alu_op alu_op

fun label_code :: "bpf_label \<Rightarrow> u16" where
  "label_code (Ret_op RET_K) = BPF_RET OR BPF_K"
| "label_code (Ret_op RET_A) = BPF_RET OR BPF_A"
| "label_code (Load_op LD_W_ABS) = BPF_LD OR BPF_W OR BPF_ABS"
| "label_code (Load_op LD_H_ABS) = BPF_LD OR BPF_H OR BPF_ABS"
| "label_code (Load_op LD_B_ABS) = BPF_LD OR BPF_B OR BPF_ABS"
| "label_code (Load_op LD_W_LEN) = BPF_LD OR BPF_W OR BPF_LEN"
| "label_code (Load_op LDX_W_LEN) = BPF_LDX OR BPF_W OR BPF_LEN"
| "label_code (Load_op LD_W_IND) = BPF_LD OR BPF_W OR BPF_IND"
| "label_code (Load_op LD_H_IND) = BPF_LD OR BPF_H OR BPF_IND"
| "label_code (Load_op LD_B_IND) = BPF_LD OR BPF_B OR BPF_IND"
| "label_code (Load_op LDX_MSH_B) = BPF_LDX OR BPF_MSH OR BPF_B"
| "label_code (Mem_op LD_IMM) = BPF_LD OR BPF_IMM"
| "label_code (Mem_op LDX_IMM) = BPF_LDX OR BPF_IMM"
| "label_code (Mem_op LD_MEM) = BPF_LD OR BPF_MEM"
| "label_code (Mem_op LDX_MEM) = BPF_LDX OR BPF_MEM"
| "label_code (Mem_op ST_MEM) = BPF_ST"
| "label_code (Mem_op STX_MEM) = BPF_STX"
| "label_code (Jump_op JMP_JA) = BPF_JMP OR BPF_JA"
| "label_code (Jump_op JMP_JGT_K) = BPF_JMP OR BPF_JGT OR BPF_K"
| "label_code (Jump_op JMP_JGE_K) = BPF_JMP OR BPF_JGE OR BPF_K"
| "label_code (Jump_op JMP_JEQ_K) = BPF_JMP OR BPF_JEQ OR BPF_K"
| "label_code (Jump_op JMP_JSET_K) = BPF_JMP OR BPF_JSET OR BPF_K"
| "label_code (Jump_op JMP_JGT_X) = BPF_JMP OR BPF_JGT OR BPF_X"
| "label_code (Jump_op JMP_JGE_X) = BPF_JMP OR BPF_JGE OR BPF_X"
| "label_code (Jump_op JMP_JEQ_X) = BPF_JMP OR BPF_JEQ OR BPF_X"
| "label_code (Jump_op JMP_JSET_X) = BPF_JMP OR BPF_JSET OR BPF_X"
| "label_code (Alu_op ALU_ADD_X) = BPF_ALU OR BPF_ADD OR BPF_X"
| "label_code (Alu_op ALU_SUB_X) = BPF_ALU OR BPF_SUB OR BPF_X"
| "label_code (Alu_op ALU_MUL_X) = BPF_ALU OR BPF_MUL OR BPF_X"
| "label_code (Alu_op ALU_DIV_X) = BPF_ALU OR BPF_DIV OR BPF_X"
| "label_code (Alu_op ALU_AND_X) = BPF_ALU OR BPF_AND OR BPF_X"
| "label_code (Alu_op ALU_OR_X) = BPF_ALU OR BPF_OR OR BPF_X"
| "label_code (Alu_op ALU_LSH_X) = BPF_ALU OR BPF_LSH OR BPF_X"
| "label_code (Alu_op ALU_RSH_X) = BPF_ALU OR BPF_RSH OR BPF_X"
| "label_code (Alu_op ALU_ADD_K) = BPF_ALU OR BPF_ADD OR BPF_K"
| "label_code (Alu_op ALU_SUB_K) = BPF_ALU OR BPF_SUB OR BPF_K"
| "label_code (Alu_op ALU_MUL_K) = BPF_ALU OR BPF_MUL OR BPF_K"
| "label_code (Alu_op ALU_DIV_K) = BPF_ALU OR BPF_DIV OR BPF_K"
| "label_code (Alu_op ALU_AND_K) = BPF_ALU OR BPF_AND OR BPF_K"
| "label_code (Alu_op ALU_OR_K) = BPF_ALU OR BPF_OR OR BPF_K"
| "label_code (Alu_op ALU_LSH_K) = BPF_ALU OR BPF_LSH OR BPF_K"
| "label_code (Alu_op ALU_RSH_K) = BPF_ALU OR BPF_RSH OR BPF_K"
| "label_code (Alu_op ALU_NEG_A) = BPF_ALU OR BPF_NEG"
| "label_code (Alu_op MISC_TAX_OP) = BPF_MISC OR BPF_TAX"
| "label_code (Alu_op MISC_TXA_OP) = BPF_MISC OR BPF_TXA"

definition bpf_labels :: "bpf_label list" where
  "bpf_labels =
    map Ret_op [RET_K, RET_A] @
    map Load_op [LD_W_ABS, LD_H_ABS, LD_B_ABS, LD_W_LEN, LDX_W_LEN,
      LD_W_IND, LD_H_IND, LD_B_IND, LDX_MSH_B] @
    map Mem_op [LD_IMM, LDX_IMM, LD_MEM, LDX_MEM, ST_MEM, STX_MEM] @
    map Jump_op [JMP_JA, JMP_JGT_K, JMP_JGE_K, JMP_JEQ_K, JMP_JSET_K,
      JMP_JGT_X, JMP_JGE_X, JMP_JEQ_X, JMP_JSET_X] @
    map Alu_op [ALU_ADD_X, ALU_SUB_X, ALU_MUL_X, ALU_DIV_X, ALU_AND_X, ALU_OR_X,
      ALU_LSH_X, ALU_RSH_X,
      ALU_ADD_K, ALU_SUB_K, ALU_MUL_K, ALU_DIV_K, ALU_AND_K, ALU_OR_K, ALU_LSH_K, ALU_RSH_K,
      ALU_NEG_A, MISC_TAX_OP, MISC_TXA_OP]"

text \<open>The dispatch \<open>switch (pc->code)\<close>: the label with this value, or \<open>default\<close>.\<close>

definition bpf_switch :: "u16 \<Rightarrow> bpf_label option" where
  "bpf_switch c = List.find (\<lambda>l. label_code l = c) bpf_labels"

lemma bpf_switch_code: "bpf_switch c = Some l \<Longrightarrow> c = label_code l"
  by (auto simp: bpf_switch_def dest: find_Some_holds)

lemma bpf_switch_label: "bpf_switch (label_code l) = Some l"
proof (cases l)
  case (Ret_op r)
  then show ?thesis by (cases r) (simp_all add: bpf_switch_def bpf_labels_def)
next
  case (Load_op r)
  then show ?thesis by (cases r) (simp_all add: bpf_switch_def bpf_labels_def)
next
  case (Mem_op r)
  then show ?thesis by (cases r) (simp_all add: bpf_switch_def bpf_labels_def)
next
  case (Jump_op r)
  then show ?thesis by (cases r) (simp_all add: bpf_switch_def bpf_labels_def)
next
  case (Alu_op r)
  then show ?thesis by (cases r) (simp_all add: bpf_switch_def bpf_labels_def)
qed

end
