(* ===== verification/Bpf_Packet.thy ===== *)
theory Bpf_Packet
  imports Kernel_Prelude
begin

text \<open>
  How the packet filter reads a packet (\<open>bsd/net/bpf_filter.c\<close>): directly out of one buffer,
  or through \<open>m_xword\<close>, \<open>m_xhalf\<close> and \<open>MINDEX\<close> out of a chain of mbufs. A chain is the list
  of the byte ranges of its mbufs; the packet is their concatenation. The contract of a reader
  is the locale \<open>packet_reader\<close>: what it returns is what the packet holds at that offset.
\<close>

type_synonym mbuf_chain = "u8 list list"

text \<open>
  A read gives a value, or the error return (\<open>*err = 1\<close>, the filter's \<open>return 0\<close>), or it
  touches bytes outside the packet.
\<close>

datatype 'a mread = MOk 'a | MErr | MFault

section \<open>Chains\<close>

text \<open>
  The loop shared by \<open>MINDEX\<close>, \<open>m_xword\<close> and \<open>m_xhalf\<close>: skip whole mbufs until the offset
  lies inside one. It returns that mbuf, the mbufs after it and the offset in it.
\<close>

fun m_seek :: "mbuf_chain \<Rightarrow> nat \<Rightarrow> (u8 list \<times> mbuf_chain \<times> nat) option" where
  "m_seek [] k = None"
| "m_seek (m # ms) k = (if length m \<le> k then m_seek ms (k - length m) else Some (m, ms, k))"

definition m_xword :: "mbuf_chain \<Rightarrow> u32 \<Rightarrow> u32 mread" where
  "m_xword m k =
     (case m_seek m (unat k) of
        None \<Rightarrow> MErr
      | Some (cp, next, i) \<Rightarrow>
          if 4 \<le> length cp - i then MOk (word_of_bytes cp i)
          else (case next of
                  [] \<Rightarrow> MErr
                | np # _ \<Rightarrow>
                    if length np + length cp - i < 4 then MErr
                    else if length cp - i = 1 then MOk (be32 (cp ! i) (np ! 0) (np ! 1) (np ! 2))
                    else if length cp - i = 2
                      then MOk (be32 (cp ! i) (cp ! (i + 1)) (np ! 0) (np ! 1))
                    else MOk (be32 (cp ! i) (cp ! (i + 1)) (cp ! (i + 2)) (np ! 0))))"

text \<open>
  \<open>m_xhalf\<close> does not look at the length of the second mbuf: reading an empty one is outside
  the packet.
\<close>

definition m_xhalf :: "mbuf_chain \<Rightarrow> u32 \<Rightarrow> u32 mread" where
  "m_xhalf m k =
     (case m_seek m (unat k) of
        None \<Rightarrow> MErr
      | Some (cp, next, i) \<Rightarrow>
          if 2 \<le> length cp - i then MOk (half_of cp i)
          else (case next of
                  [] \<Rightarrow> MErr
                | np # _ \<Rightarrow> if np = [] then MFault else MOk (be16 (cp ! i) (np ! 0))))"

text \<open>\<open>MINDEX(m, k)\<close> and the byte it leaves at \<open>mtod(m, u_char *)[k]\<close>.\<close>

definition m_xbyte :: "mbuf_chain \<Rightarrow> u32 \<Rightarrow> u8 mread" where
  "m_xbyte m k = (case m_seek m (unat k) of None \<Rightarrow> MErr | Some (cp, _, i) \<Rightarrow> MOk (cp ! i))"

lemma m_seek_None: "m_seek ms k = None \<longleftrightarrow> length (concat ms) \<le> k"
  by (induction ms k rule: m_seek.induct) auto

lemma m_seek_Some:
  "m_seek ms k = Some (cp, next, i) \<Longrightarrow>
     i < length cp \<and> (\<exists>pre. concat ms = pre @ cp @ concat next \<and> k = length pre + i)"
proof (induction ms k rule: m_seek.induct)
  case (1 k)
  then show ?case by simp
next
  case (2 m ms k)
  show ?case
  proof (cases "length m \<le> k")
    case True
    with 2 obtain pre where "i < length cp" "concat ms = pre @ cp @ concat next"
      "k - length m = length pre + i" by auto
    with True show ?thesis by (intro conjI exI [of _ "m @ pre"]) auto
  next
    case False
    with "2.prems" show ?thesis by (intro conjI exI [of _ "[]"]) auto
  qed
qed

text \<open>Where the bytes after a found position are: the rest of its mbuf, then the next ones.\<close>

lemma m_seek_nth:
  assumes "m_seek ms k = Some (cp, next, i)"
  shows "i + j < length cp \<Longrightarrow> concat ms ! (k + j) = cp ! (i + j)"
    and "concat ms ! (k + (length cp - i) + j) = concat next ! j"
    and "length (concat ms) = k - i + length cp + length (concat next)"
    and "i < length cp" and "i \<le> k"
proof -
  obtain pre where c: "concat ms = pre @ cp @ concat next" and k: "k = length pre + i"
    and i: "i < length cp"
    using m_seek_Some [OF assms] by blast
  show "i < length cp" "i \<le> k" using i k by simp_all
  show "length (concat ms) = k - i + length cp + length (concat next)"
    unfolding c using k by simp
  show "i + j < length cp \<Longrightarrow> concat ms ! (k + j) = cp ! (i + j)"
    unfolding c k by (simp add: nth_append)
  have "k + (length cp - i) + j = length pre + (length cp + j)" using k i by simp
  then show "concat ms ! (k + (length cp - i) + j) = concat next ! j"
    unfolding c by (simp only: nth_append_right_add)
qed

lemma m_seek_next:
  assumes "m_seek ms k = Some (cp, np # nx, i)" and "length cp - i \<le> j"
    and "j - (length cp - i) < length np"
  shows "concat ms ! (k + j) = np ! (j - (length cp - i))"
proof -
  have "k + (length cp - i) + (j - (length cp - i)) = k + j" using assms(2) by simp
  then show ?thesis
    using m_seek_nth(2) [OF assms(1), of "j - (length cp - i)"] assms(3) by (simp add: nth_append)
qed

lemma m_xword_ok:
  assumes "m_xword ms k = MOk v"
  shows "unat k + 4 \<le> length (concat ms) \<and> v = word_of_bytes (concat ms) (unat k)"
proof -
  obtain cp nx i where s: "m_seek ms (unat k) = Some (cp, nx, i)"
    using assms by (auto simp: m_xword_def split: option.splits)
  note n1 = m_seek_nth(1) [OF s]
  note len = m_seek_nth(3) [OF s] and i = m_seek_nth(4,5) [OF s]
  show ?thesis
  proof (cases "4 \<le> length cp - i")
    case True
    then have "v = word_of_bytes cp i" using assms s by (simp add: m_xword_def)
    then show ?thesis
      using True len i n1 [of 0] n1 [of 1] n1 [of 2] n1 [of 3] by (simp add: word_of_bytes_def)
  next
    case False
    then obtain np nx' where nx: "nx = np # nx'" and l: "4 \<le> length np + length cp - i"
      using assms s by (auto simp: m_xword_def split: list.splits if_splits)
    note n2 = m_seek_next [OF s [unfolded nx]]
    have np: "np \<noteq> []" using l False i by (cases np) auto
    have inside: "unat k + 4 \<le> length (concat ms)" using l len i nx by simp
    from False i have "length cp - i = 1 \<or> length cp - i = 2 \<or> length cp - i = 3" by linarith
    then have "v = word_of_bytes (concat ms) (unat k)"
      using assms s nx np l i n1 [of 0] n1 [of 1] n1 [of 2] n2 [of 1] n2 [of 2] n2 [of 3]
      by (elim disjE) (simp_all add: m_xword_def word_of_bytes_def)
    with inside show ?thesis by simp
  qed
qed

lemma m_xhalf_ok:
  assumes "m_xhalf ms k = MOk v"
  shows "unat k + 2 \<le> length (concat ms) \<and> v = half_of (concat ms) (unat k)"
proof -
  obtain cp nx i where s: "m_seek ms (unat k) = Some (cp, nx, i)"
    using assms by (auto simp: m_xhalf_def split: option.splits)
  note n1 = m_seek_nth(1) [OF s]
  note len = m_seek_nth(3) [OF s] and i = m_seek_nth(4,5) [OF s]
  show ?thesis
  proof (cases "2 \<le> length cp - i")
    case True
    then show ?thesis
      using assms s len i n1 [of 0] n1 [of 1] by (simp add: m_xhalf_def half_of_def)
  next
    case False
    then obtain np nx' where nx: "nx = np # nx'" and np: "np \<noteq> []"
      using assms s by (auto simp: m_xhalf_def split: list.splits if_splits)
    moreover from False i have "length cp - i = 1" by linarith
    moreover from np have "0 < length np" by simp
    ultimately show ?thesis
      using assms s len i n1 [of 0] m_seek_next [OF s [unfolded nx], of 1]
      by (cases np) (auto simp: m_xhalf_def half_of_def)
  qed
qed

lemma m_xbyte_iff:
  "m_xbyte ms k = (if unat k < length (concat ms) then MOk (concat ms ! unat k) else MErr)"
proof (cases "m_seek ms (unat k)")
  case None
  then show ?thesis
    using m_seek_None [of ms "unat k"] by (simp add: m_xbyte_def del: length_concat)
next
  case (Some s)
  then obtain cp nx i where s: "m_seek ms (unat k) = Some (cp, nx, i)" by (cases s) auto
  then have "unat k < length (concat ms)"
    using m_seek_None [of ms "unat k"] by (simp del: length_concat)
  moreover have "concat ms ! unat k = cp ! i"
    using m_seek_nth(1) [OF s, of 0] m_seek_nth(4) [OF s] by simp
  ultimately show ?thesis using s by (simp add: m_xbyte_def)
qed

lemma m_seek_set: "m_seek ms k = Some (cp, nx, i) \<Longrightarrow> set nx \<subseteq> set ms"
  by (induction ms k rule: m_seek.induct) (auto split: if_splits)

text \<open>
  A two-byte field is found whenever it lies in the packet and the next mbuf is not empty; a
  four-byte field whenever it does not reach beyond the mbuf after the one it starts in.
\<close>

lemma m_xhalf_found:
  assumes "[] \<notin> set ms" and "unat k + 2 \<le> length (concat ms)"
  shows "m_xhalf ms k = MOk (half_of (concat ms) (unat k))"
proof -
  have "m_seek ms (unat k) \<noteq> None" using assms(2) by (simp add: m_seek_None del: length_concat)
  then obtain cp nx i where s: "m_seek ms (unat k) = Some (cp, nx, i)" by auto
  then have "set nx \<subseteq> set ms" by (rule m_seek_set)
  moreover have "nx \<noteq> [] \<or> 2 \<le> length cp - i"
    using m_seek_nth(3-5) [OF s] assms(2) by (cases nx) auto
  ultimately have "\<exists>v. m_xhalf ms k = MOk v"
    using s assms(1) by (auto simp: m_xhalf_def split: list.splits)
  then show ?thesis using m_xhalf_ok by blast
qed

lemma m_xword_found:
  assumes "m_seek ms (unat k) = Some (cp, nx, i)"
    and "i + 4 \<le> length cp + length (case nx of [] \<Rightarrow> [] | np # _ \<Rightarrow> np)"
  shows "m_xword ms k = MOk (word_of_bytes (concat ms) (unat k))"
proof -
  have "\<exists>v. m_xword ms k = MOk v"
    using assms m_seek_nth(4) [OF assms(1)] by (auto simp: m_xword_def split: list.splits)
  then show ?thesis using m_xword_ok by blast
qed

section \<open>One buffer\<close>

text \<open>
  The reads \<open>EXTRACT_LONG(&p[k])\<close>, \<open>EXTRACT_SHORT(&p[k])\<close> and \<open>p[k]\<close> by themselves: they touch
  the bytes at \<open>k\<close> whatever \<open>k\<close> is.
\<close>

definition raw_word :: "u8 list \<Rightarrow> u32 \<Rightarrow> u32 mread" where
  "raw_word d k = (if unat k + 4 \<le> length d then MOk (word_of_bytes d (unat k)) else MFault)"

definition raw_half :: "u8 list \<Rightarrow> u32 \<Rightarrow> u32 mread" where
  "raw_half d k = (if unat k + 2 \<le> length d then MOk (half_of d (unat k)) else MFault)"

definition raw_byte :: "u8 list \<Rightarrow> u32 \<Rightarrow> u8 mread" where
  "raw_byte d k = (if unat k < length d then MOk (d ! unat k) else MFault)"

text \<open>
  The tests of the absolute loads, on unsigned words: \<open>k > buflen || sizeof(int32_t) > buflen - k\<close>
  and \<open>k >= buflen\<close>. A buffer shorter than \<open>2 ^ 32\<close> bytes makes them exact.
\<close>

definition abs_outside :: "u32 \<Rightarrow> u32 \<Rightarrow> u32 \<Rightarrow> bool" where
  "abs_outside n buflen k \<longleftrightarrow> buflen < k \<or> buflen - k < n"

lemma abs_outside_iff:
  assumes "length d < 2 ^ 32"
  shows "abs_outside n (of_nat (length d)) k \<longleftrightarrow> length d < unat k + unat n"
proof -
  have l: "unat (of_nat (length d) :: u32) = length d" using assms by (rule unat_of_nat_u32)
  show ?thesis
  proof (cases "(of_nat (length d) :: u32) < k")
    case True
    then show ?thesis using l by (simp add: abs_outside_def word_less_nat_alt)
  next
    case False
    then have "unat (of_nat (length d) - k) = length d - unat k"
      using l by (simp add: unat_sub_u32 not_less)
    then show ?thesis
      using False l by (auto simp: abs_outside_def word_less_nat_alt)
  qed
qed

definition buf_word :: "u8 list \<Rightarrow> u32 \<Rightarrow> u32 mread" where
  "buf_word d k = (if abs_outside 4 (of_nat (length d)) k then MErr else raw_word d k)"

definition buf_half :: "u8 list \<Rightarrow> u32 \<Rightarrow> u32 mread" where
  "buf_half d k = (if abs_outside 2 (of_nat (length d)) k then MErr else raw_half d k)"

definition buf_byte :: "u8 list \<Rightarrow> u32 \<Rightarrow> u8 mread" where
  "buf_byte d k = (if of_nat (length d) \<le> k then MErr else raw_byte d k)"

lemma buf_word_iff:
  "length d < 2 ^ 32 \<Longrightarrow>
     buf_word d k = (if unat k + 4 \<le> length d then MOk (word_of_bytes d (unat k)) else MErr)"
  by (auto simp: buf_word_def raw_word_def abs_outside_iff)

lemma buf_half_iff:
  "length d < 2 ^ 32 \<Longrightarrow>
     buf_half d k = (if unat k + 2 \<le> length d then MOk (half_of d (unat k)) else MErr)"
  by (auto simp: buf_half_def raw_half_def abs_outside_iff)

lemma buf_byte_iff:
  "length d < 2 ^ 32 \<Longrightarrow>
     buf_byte d k = (if unat k < length d then MOk (d ! unat k) else MErr)"
  by (auto simp: buf_byte_def raw_byte_def word_le_nat_alt unat_of_nat_u32)

section \<open>The contract of a packet reader\<close>

text \<open>
  \<open>bytes p\<close> is the packet, \<open>wf p\<close> what a reader needs of its representation. A read that
  succeeds returns the bytes at its offset in network order; a byte that is there is read.
\<close>

locale packet_reader =
  fixes rd32 rd16 :: "'p \<Rightarrow> u32 \<Rightarrow> u32 mread" and rd8 :: "'p \<Rightarrow> u32 \<Rightarrow> u8 mread"
    and bytes :: "'p \<Rightarrow> u8 list" and wf :: "'p \<Rightarrow> bool"
  assumes rd32_ok: "wf p \<Longrightarrow> rd32 p k = MOk v \<Longrightarrow>
        unat k + 4 \<le> length (bytes p) \<and> v = word_of_bytes (bytes p) (unat k)"
    and rd16_ok: "wf p \<Longrightarrow> rd16 p k = MOk v \<Longrightarrow>
        unat k + 2 \<le> length (bytes p) \<and> v = half_of (bytes p) (unat k)"
    and rd8_iff: "wf p \<Longrightarrow>
        rd8 p k = (if unat k < length (bytes p) then MOk (bytes p ! unat k) else MErr)"
    and short: "wf p \<Longrightarrow> length (bytes p) < 2 ^ 32"
begin

lemma rd8_no_fault: "wf p \<Longrightarrow> rd8 p k \<noteq> MFault"
  by (simp add: rd8_iff)

lemma rd32_functional:
  "wf p \<Longrightarrow> wf q \<Longrightarrow> bytes p = bytes q \<Longrightarrow> rd32 p k = MOk v \<Longrightarrow> rd32 q k = MOk w \<Longrightarrow> v = w"
  using rd32_ok by metis

text \<open>A word that is read is made of the bytes that are read at its four offsets.\<close>

lemma rd32_by_bytes:
  assumes "wf p" and "rd32 p k = MOk v"
  obtains b0 b1 b2 b3 where "rd8 p k = MOk b0" and "rd8 p (k + 1) = MOk b1"
    and "rd8 p (k + 2) = MOk b2" and "rd8 p (k + 3) = MOk b3" and "v = be32 b0 b1 b2 b3"
proof -
  have l: "unat k + 4 \<le> length (bytes p)" and v: "v = word_of_bytes (bytes p) (unat k)"
    using rd32_ok [OF assms] by simp_all
  then have "unat (k + 1) = unat k + 1" "unat (k + 2) = unat k + 2" "unat (k + 3) = unat k + 3"
    using short [OF assms(1)] by (simp_all add: unat_add_u32)
  then show ?thesis
    using that [of "bytes p ! unat k" "bytes p ! (unat k + 1)" "bytes p ! (unat k + 2)"
        "bytes p ! (unat k + 3)"] l v assms(1)
    by (simp add: rd8_iff word_of_bytes_def)
qed

end

text \<open>Two readers over representations of the same packet agree wherever both succeed.\<close>

locale packet_reader_pair =
  a: packet_reader rd32a rd16a rd8a bytesa wfa + b: packet_reader rd32b rd16b rd8b bytesb wfb
  for rd32a rd16a rd8a and bytesa :: "'p \<Rightarrow> u8 list" and wfa
    and rd32b rd16b rd8b and bytesb :: "'q \<Rightarrow> u8 list" and wfb
begin

lemma words_agree:
  "wfa p \<Longrightarrow> wfb q \<Longrightarrow> bytesa p = bytesb q \<Longrightarrow>
     rd32a p k = MOk v \<Longrightarrow> rd32b q k = MOk w \<Longrightarrow> v = w"
  using a.rd32_ok b.rd32_ok by metis

lemma halves_agree:
  "wfa p \<Longrightarrow> wfb q \<Longrightarrow> bytesa p = bytesb q \<Longrightarrow>
     rd16a p k = MOk v \<Longrightarrow> rd16b q k = MOk w \<Longrightarrow> v = w"
  using a.rd16_ok b.rd16_ok by metis

lemma bytes_agree: "wfa p \<Longrightarrow> wfb q \<Longrightarrow> bytesa p = bytesb q \<Longrightarrow> rd8a p k = rd8b q k"
  by (simp add: a.rd8_iff b.rd8_iff)

end

definition chain_ok :: "mbuf_chain \<Rightarrow> bool" where
  "chain_ok ms \<longleftrightarrow> length (concat ms) < 2 ^ 32"

definition buf_ok :: "u8 list \<Rightarrow> bool" where
  "buf_ok d \<longleftrightarrow> length d < 2 ^ 32"

interpretation chain: packet_reader m_xword m_xhalf m_xbyte concat chain_ok
  by unfold_locales
    (auto simp: m_xword_ok m_xhalf_ok m_xbyte_iff chain_ok_def simp del: length_concat
      dest: m_xword_ok m_xhalf_ok)

interpretation buf: packet_reader buf_word buf_half buf_byte "\<lambda>d. d" buf_ok
  by unfold_locales
    (auto simp: buf_word_iff buf_half_iff buf_byte_iff buf_ok_def split: if_splits)

interpretation chain_buf: packet_reader_pair m_xword m_xhalf m_xbyte concat chain_ok
    buf_word buf_half buf_byte "\<lambda>d. d" buf_ok ..

end
