(* ===== verification/Bpf_Filter.thy ===== *)
theory Bpf_Filter
  imports Bpf_Insn Bpf_Packet
begin

text \<open>
  The packet-filter interpreter \<open>bpf_filter\<close> of \<open>bsd/net/bpf_filter.c\<close>. One instruction is a
  step on the accumulator, the index register, the scratch memory and the program counter.
  What C leaves undefined or the hardware traps is a fault value: fetching outside the program,
  indexing outside the scratch memory, reading outside the packet, dividing by a zero constant.
  A shift by 32 or more has a value that depends on the machine, a parameter of the model.
\<close>

section \<open>State and results\<close>

record bpf_state =
  bA :: u32
  bX :: u32
  bmem :: "u32 list"
  bpc :: nat

datatype bpf_fault = BadFetch | BadMem | BadPacket | DivTrap

datatype bpf_out = Next bpf_state | Ret u32 | Fault bpf_fault

text \<open>
  The argument \<open>p\<close> of the interpreter is a buffer of \<open>buflen\<close> bytes or, when \<open>buflen\<close> is
  zero, an mbuf chain.
\<close>

datatype packet = Buf "u8 list" | Mbuf mbuf_chain

fun buflen :: "packet \<Rightarrow> u32" where
  "buflen (Buf d) = of_nat (length d)"
| "buflen (Mbuf c) = 0"

text \<open>
  The two ways a load continues after its bounds test: inside, it reads the buffer; outside, it
  returns 0 for a buffer and reads the chain when \<open>buflen\<close> is 0.
\<close>

fun read_in :: "packet \<Rightarrow> (u8 list \<Rightarrow> 'a mread) \<Rightarrow> 'a mread" where
  "read_in (Buf d) rd = rd d"
| "read_in (Mbuf c) rd = MFault"

definition read_out :: "packet \<Rightarrow> (mbuf_chain \<Rightarrow> 'a mread) \<Rightarrow> 'a mread" where
  "read_out p rd =
     (if buflen p \<noteq> 0 then MErr else (case p of Mbuf c \<Rightarrow> rd c | Buf d \<Rightarrow> MFault))"

definition loaded :: "'a mread \<Rightarrow> ('a \<Rightarrow> bpf_state) \<Rightarrow> bpf_out" where
  "loaded r f = (case r of MOk v \<Rightarrow> Next (f v) | MErr \<Rightarrow> Ret 0 | MFault \<Rightarrow> Fault BadPacket)"

text \<open>\<open>continue\<close>, after \<open>pc += d\<close>: the next instruction.\<close>

definition advance :: "nat \<Rightarrow> bpf_state \<Rightarrow> bpf_state" where
  "advance d s = s\<lparr>bpc := bpc s + d + 1\<rparr>"

definition set_A :: "bpf_state \<Rightarrow> u32 \<Rightarrow> bpf_state" where
  "set_A s v = advance 0 (s\<lparr>bA := v\<rparr>)"

definition set_X :: "bpf_state \<Rightarrow> u32 \<Rightarrow> bpf_state" where
  "set_X s v = advance 0 (s\<lparr>bX := v\<rparr>)"

section \<open>Instructions\<close>

fun bpf_ret :: "ret_op \<Rightarrow> bpf_insn \<Rightarrow> bpf_state \<Rightarrow> bpf_out" where
  "bpf_ret RET_K i s = Ret (bi_k i)"
| "bpf_ret RET_A i s = Ret (bA s)"

text \<open>
  The packet loads. The half-word load at an absolute offset ignores the error of \<open>m_xhalf\<close>
  and keeps its 0; the half-word load at an indexed offset tests \<open>buflen - pc->k\<close>, not
  \<open>buflen - k\<close>; the byte load at an indexed offset reads a chain through \<open>char *\<close>, which is
  signed.
\<close>

fun bpf_load :: "packet \<Rightarrow> u32 \<Rightarrow> load_op \<Rightarrow> bpf_insn \<Rightarrow> bpf_state \<Rightarrow> bpf_out" where
  "bpf_load p wirelen LD_W_ABS i s =
     loaded (if bi_k i > buflen p \<or> 4 > buflen p - bi_k i
             then read_out p (\<lambda>m. m_xword m (bi_k i))
             else read_in p (\<lambda>d. raw_word d (bi_k i))) (set_A s)"
| "bpf_load p wirelen LD_H_ABS i s =
     loaded (if bi_k i > buflen p \<or> 2 > buflen p - bi_k i
             then read_out p (\<lambda>m. case m_xhalf m (bi_k i) of MErr \<Rightarrow> MOk 0 | r \<Rightarrow> r)
             else read_in p (\<lambda>d. raw_half d (bi_k i))) (set_A s)"
| "bpf_load p wirelen LD_B_ABS i s =
     loaded (if bi_k i \<ge> buflen p
             then read_out p (\<lambda>m. m_xbyte m (bi_k i))
             else read_in p (\<lambda>d. raw_byte d (bi_k i))) (\<lambda>b. set_A s (ucast b))"
| "bpf_load p wirelen LD_W_LEN i s = Next (set_A s wirelen)"
| "bpf_load p wirelen LDX_W_LEN i s = Next (set_X s wirelen)"
| "bpf_load p wirelen LD_W_IND i s =
     (let kk = bX s + bi_k i in
      loaded (if bi_k i > buflen p \<or> bX s > buflen p - bi_k i \<or> 4 > buflen p - kk
              then read_out p (\<lambda>m. m_xword m kk)
              else read_in p (\<lambda>d. raw_word d kk)) (set_A s))"
| "bpf_load p wirelen LD_H_IND i s =
     (let kk = bX s + bi_k i in
      loaded (if bX s > buflen p \<or> bi_k i > buflen p - bX s \<or> 2 > buflen p - bi_k i
              then read_out p (\<lambda>m. m_xhalf m kk)
              else read_in p (\<lambda>d. raw_half d kk)) (set_A s))"
| "bpf_load p wirelen LD_B_IND i s =
     (let kk = bX s + bi_k i in
      if bi_k i \<ge> buflen p \<or> bX s \<ge> buflen p - bi_k i
      then loaded (read_out p (\<lambda>m. m_xbyte m kk)) (\<lambda>b. set_A s (scast b))
      else loaded (read_in p (\<lambda>d. raw_byte d kk)) (\<lambda>b. set_A s (ucast b)))"
| "bpf_load p wirelen LDX_MSH_B i s =
     loaded (if bi_k i \<ge> buflen p
             then read_out p (\<lambda>m. m_xbyte m (bi_k i))
             else read_in p (\<lambda>d. raw_byte d (bi_k i)))
       (\<lambda>b. set_X s (push_bit 2 (ucast (b AND 0xf))))"

text \<open>The scratch memory \<open>mem\<close> of \<open>BPF_MEMWORDS\<close> words.\<close>

fun bpf_mem :: "mem_op \<Rightarrow> bpf_insn \<Rightarrow> bpf_state \<Rightarrow> bpf_out" where
  "bpf_mem LD_IMM i s = Next (set_A s (bi_k i))"
| "bpf_mem LDX_IMM i s = Next (set_X s (bi_k i))"
| "bpf_mem LD_MEM i s =
     (if unat (bi_k i) < length (bmem s) then Next (set_A s (bmem s ! unat (bi_k i))) else Fault BadMem)"
| "bpf_mem LDX_MEM i s =
     (if unat (bi_k i) < length (bmem s) then Next (set_X s (bmem s ! unat (bi_k i))) else Fault BadMem)"
| "bpf_mem ST_MEM i s =
     (if unat (bi_k i) < length (bmem s)
      then Next (advance 0 (s\<lparr>bmem := (bmem s)[unat (bi_k i) := bA s]\<rparr>)) else Fault BadMem)"
| "bpf_mem STX_MEM i s =
     (if unat (bi_k i) < length (bmem s)
      then Next (advance 0 (s\<lparr>bmem := (bmem s)[unat (bi_k i) := bX s]\<rparr>)) else Fault BadMem)"

definition branch :: "bool \<Rightarrow> bpf_insn \<Rightarrow> bpf_state \<Rightarrow> bpf_out" where
  "branch c i s = Next (advance (if c then unat (bi_jt i) else unat (bi_jf i)) s)"

fun bpf_jump :: "jump_op \<Rightarrow> bpf_insn \<Rightarrow> bpf_state \<Rightarrow> bpf_out" where
  "bpf_jump JMP_JA i s = Next (advance (unat (bi_k i)) s)"
| "bpf_jump JMP_JGT_K i s = branch (bA s > bi_k i) i s"
| "bpf_jump JMP_JGE_K i s = branch (bA s \<ge> bi_k i) i s"
| "bpf_jump JMP_JEQ_K i s = branch (bA s = bi_k i) i s"
| "bpf_jump JMP_JSET_K i s = branch (bA s AND bi_k i \<noteq> 0) i s"
| "bpf_jump JMP_JGT_X i s = branch (bA s > bX s) i s"
| "bpf_jump JMP_JGE_X i s = branch (bA s \<ge> bX s) i s"
| "bpf_jump JMP_JEQ_X i s = branch (bA s = bX s) i s"
| "bpf_jump JMP_JSET_X i s = branch (bA s AND bX s \<noteq> 0) i s"

text \<open>
  \<open>oversh left a n\<close> is what the machine's shift gives for \<open>n \<ge> 32\<close>, which C leaves
  undefined.
\<close>

type_synonym oversh = "bool \<Rightarrow> u32 \<Rightarrow> u32 \<Rightarrow> u32"

definition shl :: "oversh \<Rightarrow> u32 \<Rightarrow> u32 \<Rightarrow> u32" where
  "shl os a n = (if n < 32 then push_bit (unat n) a else os True a n)"

definition shr :: "oversh \<Rightarrow> u32 \<Rightarrow> u32 \<Rightarrow> u32" where
  "shr os a n = (if n < 32 then drop_bit (unat n) a else os False a n)"

fun bpf_alu :: "oversh \<Rightarrow> alu_op \<Rightarrow> bpf_insn \<Rightarrow> bpf_state \<Rightarrow> bpf_out" where
  "bpf_alu os ALU_ADD_X i s = Next (set_A s (bA s + bX s))"
| "bpf_alu os ALU_SUB_X i s = Next (set_A s (bA s - bX s))"
| "bpf_alu os ALU_MUL_X i s = Next (set_A s (bA s * bX s))"
| "bpf_alu os ALU_DIV_X i s = (if bX s = 0 then Ret 0 else Next (set_A s (bA s div bX s)))"
| "bpf_alu os ALU_AND_X i s = Next (set_A s (bA s AND bX s))"
| "bpf_alu os ALU_OR_X i s = Next (set_A s (bA s OR bX s))"
| "bpf_alu os ALU_LSH_X i s = Next (set_A s (shl os (bA s) (bX s)))"
| "bpf_alu os ALU_RSH_X i s = Next (set_A s (shr os (bA s) (bX s)))"
| "bpf_alu os ALU_ADD_K i s = Next (set_A s (bA s + bi_k i))"
| "bpf_alu os ALU_SUB_K i s = Next (set_A s (bA s - bi_k i))"
| "bpf_alu os ALU_MUL_K i s = Next (set_A s (bA s * bi_k i))"
| "bpf_alu os ALU_DIV_K i s = (if bi_k i = 0 then Fault DivTrap else Next (set_A s (bA s div bi_k i)))"
| "bpf_alu os ALU_AND_K i s = Next (set_A s (bA s AND bi_k i))"
| "bpf_alu os ALU_OR_K i s = Next (set_A s (bA s OR bi_k i))"
| "bpf_alu os ALU_LSH_K i s = Next (set_A s (shl os (bA s) (bi_k i)))"
| "bpf_alu os ALU_RSH_K i s = Next (set_A s (shr os (bA s) (bi_k i)))"
| "bpf_alu os ALU_NEG_A i s = Next (set_A s (- bA s))"
| "bpf_alu os MISC_TAX_OP i s = Next (set_X s (bA s))"
| "bpf_alu os MISC_TXA_OP i s = Next (set_A s (bX s))"

section \<open>The interpreter\<close>

fun bpf_exec ::
  "oversh \<Rightarrow> packet \<Rightarrow> u32 \<Rightarrow> bpf_label \<Rightarrow> bpf_insn \<Rightarrow> bpf_state \<Rightarrow> bpf_out" where
  "bpf_exec os p wirelen (Ret_op l) i s = bpf_ret l i s"
| "bpf_exec os p wirelen (Load_op l) i s = bpf_load p wirelen l i s"
| "bpf_exec os p wirelen (Mem_op l) i s = bpf_mem l i s"
| "bpf_exec os p wirelen (Jump_op l) i s = bpf_jump l i s"
| "bpf_exec os p wirelen (Alu_op l) i s = bpf_alu os l i s"

definition bpf_step :: "oversh \<Rightarrow> packet \<Rightarrow> u32 \<Rightarrow> bpf_insn list \<Rightarrow> bpf_state \<Rightarrow> bpf_out" where
  "bpf_step os p wirelen f s =
     (if bpc s < length f
      then (case bpf_switch (bi_code (f ! bpc s)) of
              None \<Rightarrow> Ret 0
            | Some l \<Rightarrow> bpf_exec os p wirelen l (f ! bpc s) s)
      else Fault BadFetch)"

text \<open>The loop, with a bound on the number of instructions executed; \<open>None\<close>: bound reached.\<close>

fun bpf_run ::
  "nat \<Rightarrow> oversh \<Rightarrow> packet \<Rightarrow> u32 \<Rightarrow> bpf_insn list \<Rightarrow> bpf_state \<Rightarrow> (bpf_fault + u32) option" where
  "bpf_run 0 os p wirelen f s = None"
| "bpf_run (Suc n) os p wirelen f s =
     (case bpf_step os p wirelen f s of
        Next s' \<Rightarrow> bpf_run n os p wirelen f s'
      | Ret r \<Rightarrow> Some (Inr r)
      | Fault e \<Rightarrow> Some (Inl e))"

lemma bpf_run_numeral [simp]:
  "bpf_run (numeral n) os p wirelen f s =
     (case bpf_step os p wirelen f s of
        Next s' \<Rightarrow> bpf_run (pred_numeral n) os p wirelen f s'
      | Ret r \<Rightarrow> Some (Inr r)
      | Fault e \<Rightarrow> Some (Inl e))"
  by (simp add: numeral_eq_Suc)

definition bpf_start :: "u32 list \<Rightarrow> bpf_state" where
  "bpf_start m = \<lparr>bA = 0, bX = 0, bmem = m, bpc = 0\<rparr>"

text \<open>
  \<open>bpf_filter\<close>: no program accepts everything; the scratch memory starts with whatever is on
  the stack (\<open>m\<close>).
\<close>

definition bpf_filter ::
  "nat \<Rightarrow> oversh \<Rightarrow> u32 list \<Rightarrow> bpf_insn list option \<Rightarrow> packet \<Rightarrow> u32 \<Rightarrow>
     (bpf_fault + u32) option" where
  "bpf_filter n os m prog p wirelen =
     (case prog of None \<Rightarrow> Some (Inr (- 1)) | Some f \<Rightarrow> bpf_run n os p wirelen f (bpf_start m))"

end
