(* ===== verification/Bpf_Validate.thy ===== *)
theory Bpf_Validate
  imports Bpf_Filter
begin

text \<open>
  The program checker \<open>bpf_validate\<close> of \<open>bsd/net/bpf_filter.c\<close> and its use when a program is
  installed, \<open>bpf_setf\<close> of \<open>bsd/net/bpf.c\<close>; what the checker guarantees of the interpreter.
\<close>

section \<open>The checker\<close>

text \<open>
  The body of the loop at index \<open>i\<close>, true when it does not return 0. Unsigned operands are
  compared as unsigned; \<open>len - from\<close> is reached only when \<open>from < len\<close>.
\<close>

definition insn_ok :: "bpf_insn list \<Rightarrow> nat \<Rightarrow> bool" where
  "insn_ok f i =
     (let p = f ! i; len = length f; from = i + 1 in
      \<not> (BPF_CLASS (bi_code p) = BPF_JMP \<and>
         (if BPF_OP (bi_code p) = BPF_JA
          then from \<ge> len \<or> unat (bi_k p) \<ge> len - from
          else from \<ge> len \<or> unat (bi_jt p) \<ge> len - from \<or> unat (bi_jf p) \<ge> len - from)) \<and>
      \<not> ((BPF_CLASS (bi_code p) = BPF_ST \<or>
          (BPF_CLASS (bi_code p) = BPF_LD \<and> bi_code p AND 0xe0 = BPF_MEM)) \<and>
         unat (bi_k p) \<ge> BPF_MEMWORDS) \<and>
      \<not> (bi_code p = BPF_ALU OR BPF_DIV OR BPF_K \<and> bi_k p = 0))"

text \<open>For an empty program the last test reads \<open>f[-1]\<close>: \<open>None\<close>.\<close>

definition bpf_validate :: "bpf_insn list \<Rightarrow> bool option" where
  "bpf_validate f =
     (if \<not> list_all (insn_ok f) [0..<length f] then Some False
      else if f = [] then None
      else Some (BPF_CLASS (bi_code (f ! (length f - 1))) = BPF_RET))"

text \<open>
  \<open>bpf_setf\<close>: the filter of a descriptor is replaced by a checked copy of the user's program,
  or removed, or kept with \<open>EINVAL\<close>. \<open>null\<close> is \<open>fp->bf_insns == 0\<close>; \<open>copied\<close> is the copy
  that \<open>copyin\<close> makes of the \<open>bf_len\<close> instructions, \<open>None\<close> when it fails.
\<close>

definition BPF_MAXINSNS :: nat where
  "BPF_MAXINSNS = 512"

datatype setf_result = SetfOk "bpf_insn list option" | SetfEinval | SetfBadRead

definition bpf_setf :: "nat \<Rightarrow> bool \<Rightarrow> bpf_insn list option \<Rightarrow> setf_result" where
  "bpf_setf bf_len null copied =
     (if null then (if bf_len \<noteq> 0 then SetfEinval else SetfOk None)
      else if bf_len > BPF_MAXINSNS then SetfEinval
      else (case copied of
              None \<Rightarrow> SetfEinval
            | Some fcode \<Rightarrow>
                (case bpf_validate fcode of
                   None \<Rightarrow> SetfBadRead
                 | Some ok \<Rightarrow> if ok then SetfOk (Some fcode) else SetfEinval)))"

lemma bpf_validateD:
  assumes "bpf_validate f = Some True"
  shows "f \<noteq> []" and "i < length f \<Longrightarrow> insn_ok f i"
    and "BPF_CLASS (bi_code (f ! (length f - 1))) = BPF_RET"
  using assms by (auto simp: bpf_validate_def list_all_iff split: if_splits)

section \<open>Classes of the labels\<close>

lemma class_ret: "BPF_CLASS (label_code l) = BPF_RET \<Longrightarrow> \<exists>r. l = Ret_op r"
proof (cases l)
  case (Load_op r)
  then show "BPF_CLASS (label_code l) = BPF_RET \<Longrightarrow> ?thesis"
    by (cases r) (simp_all add: BPF_CLASS_def)
next
  case (Mem_op r)
  then show "BPF_CLASS (label_code l) = BPF_RET \<Longrightarrow> ?thesis"
    by (cases r) (simp_all add: BPF_CLASS_def)
next
  case (Jump_op r)
  then show "BPF_CLASS (label_code l) = BPF_RET \<Longrightarrow> ?thesis"
    by (cases r) (simp_all add: BPF_CLASS_def)
next
  case (Alu_op r)
  then show "BPF_CLASS (label_code l) = BPF_RET \<Longrightarrow> ?thesis"
    by (cases r) (simp_all add: BPF_CLASS_def)
qed simp

lemma class_jump: "BPF_CLASS (label_code (Jump_op j)) = BPF_JMP"
  by (cases j) (simp_all add: BPF_CLASS_def)

lemma op_ja: "BPF_OP (label_code (Jump_op j)) = BPF_JA \<longleftrightarrow> j = JMP_JA"
  by (cases j) (simp_all add: BPF_OP_def)

section \<open>One step of a checked program\<close>

text \<open>Only jumps and the end of the program move the counter other than by one.\<close>

lemma load_next: "bpf_load p w l i s = Next s' \<Longrightarrow> bpc s' = bpc s + 1 \<and> bmem s' = bmem s"
  by (cases l)
    (auto simp: loaded_def set_A_def set_X_def advance_def Let_def split: mread.splits if_splits)

lemma mem_next: "bpf_mem l i s = Next s' \<Longrightarrow> bpc s' = bpc s + 1 \<and> length (bmem s') = length (bmem s)"
  by (cases l) (auto simp: set_A_def set_X_def advance_def split: if_splits)

lemma alu_next: "bpf_alu os l i s = Next s' \<Longrightarrow> bpc s' = bpc s + 1 \<and> bmem s' = bmem s"
  by (cases l) (auto simp: set_A_def set_X_def advance_def split: if_splits)

lemma jump_next:
  "bpf_jump l i s = Next s' \<Longrightarrow> bmem s' = bmem s \<and>
     (if l = JMP_JA then bpc s' = bpc s + unat (bi_k i) + 1
      else bpc s' = bpc s + unat (bi_jt i) + 1 \<or> bpc s' = bpc s + unat (bi_jf i) + 1)"
  by (cases l) (auto simp: advance_def branch_def split: if_splits)

lemma jump_no_fault: "\<exists>s'. bpf_jump l i s = Next s'"
  by (cases l) (simp_all add: branch_def)

lemma checked_jump:
  assumes "insn_ok f i" and "bpf_switch (bi_code (f ! i)) = Some (Jump_op j)"
    and "bpf_jump j (f ! i) s = Next s'" and "bpc s = i"
  shows "bpc s' < length f \<and> i < bpc s'"
proof -
  have c: "bi_code (f ! i) = label_code (Jump_op j)"
    using bpf_switch_code [OF assms(2)] by simp
  show ?thesis
  proof (cases "j = JMP_JA")
    case True
    then show ?thesis
      using assms(1) jump_next [OF assms(3)] assms(4) c class_jump [of j] op_ja [of j]
      by (auto simp: insn_ok_def Let_def)
  next
    case False
    then show ?thesis
      using assms(1) jump_next [OF assms(3)] assms(4) c class_jump [of j] op_ja [of j]
      by (auto simp: insn_ok_def Let_def)
  qed
qed

lemma checked_step:
  assumes v: "bpf_validate f = Some True" and pc: "bpc s < length f"
    and st: "bpf_step os p w f s = Next s'"
  shows "bpc s' < length f \<and> bpc s < bpc s' \<and> length (bmem s') = length (bmem s)"
proof -
  let ?i = "f ! bpc s"
  obtain l where l: "bpf_switch (bi_code ?i) = Some l" and ex: "bpf_exec os p w l ?i s = Next s'"
    using st pc by (auto simp: bpf_step_def split: option.splits)
  have last: "bpc s \<noteq> length f - 1" if "\<not> (\<exists>r. l = Ret_op r)"
    using that bpf_validateD(3) [OF v] bpf_switch_code [OF l] class_ret by metis
  have ok: "insn_ok f (bpc s)" using bpf_validateD(2) [OF v pc] .
  show ?thesis
  proof (cases l)
    case (Ret_op r)
    with ex show ?thesis by (cases r) simp_all
  next
    case (Jump_op j)
    with ex l have "bpf_switch (bi_code ?i) = Some (Jump_op j)" "bpf_jump j ?i s = Next s'"
      by simp_all
    then show ?thesis using checked_jump [OF ok] jump_next by auto
  next
    case (Load_op r)
    then show ?thesis using ex load_next [of p w r ?i s s'] last pc by auto
  next
    case (Mem_op r)
    then show ?thesis using ex mem_next [of r ?i s s'] last pc by auto
  next
    case (Alu_op r)
    then show ?thesis using ex alu_next [of os r ?i s s'] last pc by auto
  qed
qed

lemma checked_run_aux:
  assumes v: "bpf_validate f = Some True"
  shows "bpc s < length f \<Longrightarrow> length f - bpc s \<le> n \<Longrightarrow> \<exists>r. bpf_run n os p w f s = Some r"
proof (induction n arbitrary: s)
  case 0
  then show ?case by simp
next
  case (Suc n)
  show ?case
  proof (cases "bpf_step os p w f s")
    case (Next s')
    then have "bpc s' < length f \<and> bpc s < bpc s'" using checked_step [OF v Suc.prems(1)] by blast
    then have "\<exists>r. bpf_run n os p w f s' = Some r" using Suc.prems by (intro Suc.IH) auto
    with Next show ?thesis by simp
  qed simp_all
qed

text \<open>Faults of one step: what each of them needs.\<close>

lemma load_fault: "bpf_load p w l i s = Fault e \<Longrightarrow> e = BadPacket"
  by (cases l) (auto simp: loaded_def Let_def split: mread.splits if_splits)

lemma mem_fault:
  "bpf_mem l i s = Fault e \<Longrightarrow>
     e = BadMem \<and> l \<in> {LD_MEM, LDX_MEM, ST_MEM, STX_MEM} \<and> length (bmem s) \<le> unat (bi_k i)"
  by (cases l) (auto split: if_splits)

lemma alu_fault: "bpf_alu os l i s = Fault e \<Longrightarrow> e = DivTrap \<and> l = ALU_DIV_K \<and> bi_k i = 0"
  by (cases l) (auto split: if_splits)

lemma ret_no_fault: "\<exists>r. bpf_ret l i s = Ret r"
  by (cases l) auto

lemma checked_step_fault:
  assumes v: "bpf_validate f = Some True" and pc: "bpc s < length f"
    and m: "length (bmem s) = BPF_MEMWORDS" and st: "bpf_step os p w f s = Fault e"
  obtains "e = BadPacket"
  | "e = BadMem" and "bi_code (f ! bpc s) \<in> {label_code (Mem_op LDX_MEM), label_code (Mem_op STX_MEM)}"
      and "BPF_MEMWORDS \<le> unat (bi_k (f ! bpc s))"
proof -
  let ?i = "f ! bpc s"
  obtain l where l: "bpf_switch (bi_code ?i) = Some l" and ex: "bpf_exec os p w l ?i s = Fault e"
    using st pc by (auto simp: bpf_step_def split: option.splits)
  note c = bpf_switch_code [OF l]
  have ok: "insn_ok f (bpc s)" using bpf_validateD(2) [OF v pc] .
  show ?thesis
  proof (cases l)
    case (Ret_op r)
    then show ?thesis using ex ret_no_fault [of r ?i s] by auto
  next
    case (Load_op r)
    then show ?thesis using ex load_fault that(1) by auto
  next
    case (Jump_op j)
    then show ?thesis using ex jump_no_fault [of j ?i s] by auto
  next
    case (Mem_op r)
    then have f: "e = BadMem" "r \<in> {LD_MEM, LDX_MEM, ST_MEM, STX_MEM}" "BPF_MEMWORDS \<le> unat (bi_k ?i)"
      using ex mem_fault [of r ?i s e] m by auto
    moreover have "r \<noteq> LD_MEM" "r \<noteq> ST_MEM"
      using ok c f(3) Mem_op by (auto simp: insn_ok_def Let_def BPF_CLASS_def)
    ultimately show ?thesis using that(2) c Mem_op by auto
  next
    case (Alu_op r)
    then have "r = ALU_DIV_K" "bi_k ?i = 0" using ex alu_fault by auto
    then show ?thesis using ok c Alu_op by (simp add: insn_ok_def Let_def)
  qed
qed

lemma checked_run_faults:
  assumes v: "bpf_validate f = Some True"
  shows "bpc s < length f \<Longrightarrow> length (bmem s) = BPF_MEMWORDS \<Longrightarrow>
     bpf_run n os p w f s = Some (Inl e) \<Longrightarrow> e = BadPacket \<or> e = BadMem"
proof (induction n arbitrary: s)
  case (Suc n)
  show ?case
  proof (cases "bpf_step os p w f s")
    case (Next s')
    then show ?thesis using checked_step [OF v Suc.prems(1) Next] Suc.IH [of s'] Suc.prems(2,3) by simp
  next
    case (Fault e')
    then show ?thesis using checked_step_fault [OF v Suc.prems(1,2) Fault] Suc.prems(3) by auto
  qed (use Suc.prems in simp)
qed simp

text \<open>A larger bound does not change a result.\<close>

lemma bpf_run_more: "bpf_run n os p w f s = Some r \<Longrightarrow> n \<le> n' \<Longrightarrow> bpf_run n' os p w f s = Some r"
proof (induction n arbitrary: n' s)
  case (Suc n)
  then obtain n'' where "n' = Suc n''" "n \<le> n''" by (cases n') auto
  then show ?case using Suc by (cases "bpf_step os p w f s") auto
qed simp

text \<open>Scratch accesses through the index register are inside the scratch memory.\<close>

definition scratch_ok :: "bpf_insn list \<Rightarrow> bool" where
  "scratch_ok f \<longleftrightarrow>
     list_all (\<lambda>i. bi_code i \<in> {label_code (Mem_op LDX_MEM), label_code (Mem_op STX_MEM)} \<longrightarrow>
       unat (bi_k i) < BPF_MEMWORDS) f"

lemma checked_run_fault_aux:
  assumes v: "bpf_validate f = Some True" and sc: "scratch_ok f"
  shows "bpc s < length f \<Longrightarrow> length (bmem s) = BPF_MEMWORDS \<Longrightarrow>
     bpf_run n os p w f s = Some (Inl e) \<Longrightarrow> e = BadPacket"
proof (induction n arbitrary: s)
  case (Suc n)
  show ?case
  proof (cases "bpf_step os p w f s")
    case (Next s')
    then have "bpc s' < length f" "length (bmem s') = length (bmem s)"
      using checked_step [OF v Suc.prems(1)] by blast+
    then show ?thesis using Suc.IH [of s'] Suc.prems Next by simp
  next
    case (Fault e')
    then have "e' = e" using Suc.prems(3) by simp
    moreover have "\<not> (bi_code (f ! bpc s) \<in>
        {label_code (Mem_op LDX_MEM), label_code (Mem_op STX_MEM)} \<and>
        BPF_MEMWORDS \<le> unat (bi_k (f ! bpc s)))"
      using sc nth_mem [OF Suc.prems(1)] unfolding scratch_ok_def list_all_iff by fastforce
    ultimately show ?thesis
      using checked_step_fault [OF v Suc.prems(1,2) Fault] by metis
  qed (use Suc.prems in simp)
qed simp

text \<open>Packet loads on one buffer stay inside it, but for the indexed half-word load.\<close>

lemma loaded_out:
  assumes "d \<noteq> []" and "length d < 2 ^ 32"
  shows "loaded (read_out (Buf d) ro) g \<noteq> Fault e"
proof -
  have "(of_nat (length d) :: u32) \<noteq> 0"
    using assms(1,2) unat_of_nat_u32 [of "length d"] by (metis length_0_conv unat_0)
  then show ?thesis by (simp add: loaded_def read_out_def)
qed

lemma loaded_in: "rd d \<noteq> MFault \<Longrightarrow> loaded (read_in (Buf d) rd) g \<noteq> Fault e"
  by (auto simp: loaded_def split: mread.splits)

lemma loaded_buf:
  assumes "d \<noteq> []" and "length d < 2 ^ 32" and "\<not> c \<Longrightarrow> rd d \<noteq> MFault"
  shows "loaded (if c then read_out (Buf d) ro else read_in (Buf d) rd) g \<noteq> Fault e"
proof (cases c)
  case True
  then show ?thesis using loaded_out [OF assms(1,2)] by simp
next
  case False
  then show ?thesis using loaded_in [of rd d] assms(3) by (simp del: read_in.simps)
qed

lemma sum_inside:
  assumes "length d < 2 ^ 32" and "y \<le> of_nat (length d)" and "x \<le> of_nat (length d) - y"
  shows "unat (x + y :: u32) = unat x + unat y" and "unat x + unat y \<le> length d"
proof -
  have n: "unat (of_nat (length d) :: u32) = length d" using assms(1) by (rule unat_of_nat_u32)
  show le: "unat x + unat y \<le> length d"
    using assms(2,3) n by (simp add: word_le_nat_alt unat_sub_u32)
  then show "unat (x + y) = unat x + unat y" using assms(1) by (intro unat_add_u32) simp
qed

lemma load_buf_inside:
  assumes "l \<noteq> LD_H_IND" and d: "d \<noteq> []" "length d < 2 ^ 32"
  shows "bpf_load (Buf d) w l i s \<noteq> Fault e"
proof (cases l)
  case LD_W_ABS
  then show ?thesis
    using abs_outside_iff [OF d(2), of 4 "bi_k i"]
    by (simp add: abs_outside_def raw_word_def loaded_buf [OF d])
next
  case LD_H_ABS
  then show ?thesis
    using abs_outside_iff [OF d(2), of 2 "bi_k i"]
    by (simp add: abs_outside_def raw_half_def loaded_buf [OF d])
next
  case LD_B_ABS
  then show ?thesis
    by (simp add: raw_byte_def loaded_buf [OF d] word_le_nat_alt unat_of_nat_u32 [OF d(2)])
next
  case LDX_MSH_B
  then show ?thesis
    by (simp add: raw_byte_def loaded_buf [OF d] word_le_nat_alt unat_of_nat_u32 [OF d(2)])
next
  case LD_W_IND
  have inside: "raw_word d (bX s + bi_k i) \<noteq> MFault"
    if c: "\<not> (bi_k i > of_nat (length d) \<or> bX s > of_nat (length d) - bi_k i \<or>
        4 > of_nat (length d) - (bX s + bi_k i))"
  proof -
    have "unat (bX s + bi_k i) \<le> length d"
      using c sum_inside [OF d(2), of "bi_k i" "bX s"] by (simp add: not_less)
    then have "bX s + bi_k i \<le> of_nat (length d)"
      by (simp add: word_le_nat_alt unat_of_nat_u32 [OF d(2)])
    then have "\<not> abs_outside 4 (of_nat (length d)) (bX s + bi_k i)"
      using c by (simp add: abs_outside_def not_less)
    then show ?thesis by (simp add: abs_outside_iff [OF d(2)] raw_word_def)
  qed
  then show ?thesis
    unfolding LD_W_IND bpf_load.simps Let_def buflen.simps by (rule loaded_buf [OF d])
next
  case LD_B_IND
  show ?thesis
  proof (cases "bi_k i \<ge> of_nat (length d) \<or> bX s \<ge> of_nat (length d) - bi_k i")
    case True
    then show ?thesis by (simp add: LD_B_IND Let_def loaded_out [OF d])
  next
    case False
    have "unat (bX s) + unat (bi_k i) < length d"
      using False unat_sub_u32 [of "bi_k i" "of_nat (length d)"]
      by (auto simp: not_le word_less_nat_alt word_le_nat_alt unat_of_nat_u32 [OF d(2)])
    then have "raw_byte d (bX s + bi_k i) \<noteq> MFault"
      using False sum_inside(1) [OF d(2), of "bi_k i" "bX s"]
      by (simp add: raw_byte_def not_le less_imp_le)
    then show ?thesis
      using loaded_in [of "\<lambda>d. raw_byte d (bX s + bi_k i)" d] False
      by (simp add: LD_B_IND Let_def)
  qed
qed (use assms in simp_all)

text \<open>Programs without the indexed half-word load.\<close>

definition no_half_ind :: "bpf_insn list \<Rightarrow> bool" where
  "no_half_ind f \<longleftrightarrow> list_all (\<lambda>i. bi_code i \<noteq> label_code (Load_op LD_H_IND)) f"

lemma buf_run_no_packet_fault_aux:
  assumes nh: "no_half_ind f" and d: "d \<noteq> []" "length d < 2 ^ 32"
  shows "bpf_run n os (Buf d) w f s \<noteq> Some (Inl BadPacket)"
proof (induction n arbitrary: s)
  case (Suc n)
  have "bpf_step os (Buf d) w f s \<noteq> Fault BadPacket"
  proof
    assume st: "bpf_step os (Buf d) w f s = Fault BadPacket"
    then obtain l where pc: "bpc s < length f" and l: "bpf_switch (bi_code (f ! bpc s)) = Some l"
      and ex: "bpf_exec os (Buf d) w l (f ! bpc s) s = Fault BadPacket"
      by (auto simp: bpf_step_def split: option.splits if_splits)
    show False
    proof (cases l)
      case (Load_op r)
      have "bi_code (f ! bpc s) \<noteq> label_code (Load_op LD_H_IND)"
        using nh nth_mem [OF pc] unfolding no_half_ind_def list_all_iff by blast
      then have "r \<noteq> LD_H_IND" using bpf_switch_code [OF l] Load_op by metis
      then show False using load_buf_inside [OF _ d] ex Load_op by simp
    next
      case (Ret_op r) then show False using ex ret_no_fault [of r "f ! bpc s" s] by auto
    next
      case (Jump_op r) then show False using ex jump_no_fault [of r "f ! bpc s" s] by auto
    next
      case (Mem_op r) then show False using ex by (auto dest: mem_fault)
    next
      case (Alu_op r) then show False using ex by (auto dest: alu_fault)
    qed
  qed
  then show ?case using Suc by (auto split: bpf_out.splits)
qed simp

text \<open>Packet loads on a chain without empty mbufs stay inside it.\<close>

lemma chain_reads:
  assumes "[] \<notin> set c"
  shows "m_xword c k \<noteq> MFault" and "m_xhalf c k \<noteq> MFault" and "m_xbyte c k \<noteq> MFault"
proof -
  show "m_xword c k \<noteq> MFault" "m_xbyte c k \<noteq> MFault"
    by (auto simp: m_xword_def m_xbyte_def split: option.split list.split)
  show "m_xhalf c k \<noteq> MFault"
  proof (cases "m_seek c (unat k)")
    case (Some seek)
    obtain cp nx i where s: "seek = (cp, nx, i)" by (metis prod_cases3)
    then have "[] \<notin> set nx" using m_seek_set [of c "unat k"] Some assms by blast
    then show ?thesis using Some s by (cases nx) (auto simp: m_xhalf_def)
  qed (simp add: m_xhalf_def)
qed

lemma loaded_chain:
  "cond \<Longrightarrow> rd c \<noteq> MFault \<Longrightarrow> loaded (if cond then read_out (Mbuf c) rd else r) g \<noteq> Fault e"
  by (auto simp: loaded_def read_out_def split: mread.splits)

lemma load_chain_inside:
  assumes "[] \<notin> set c"
  shows "bpf_load (Mbuf c) w l i s \<noteq> Fault e"
proof -
  note R = chain_reads [OF assms]
  have half: "(case m_xhalf c k of MErr \<Rightarrow> MOk 0 | r \<Rightarrow> r) \<noteq> MFault" for k
    using R(2) [of k] by (cases "m_xhalf c k") simp_all
  have small: "bi_k i > 0 \<or> bX s > 0 - bi_k i \<or> 4 > 0 - (bX s + bi_k i)"
    "bX s > 0 \<or> bi_k i > 0 - bX s \<or> 2 > 0 - bi_k i" "bi_k i > 0 \<or> 4 > 0 - bi_k i" "bi_k i > 0 \<or> 2 > 0 - bi_k i"
    by (cases "bi_k i = 0"; cases "bX s = 0"; simp add: word_gt_0)+
  show ?thesis
  proof (cases l)
    case LD_W_IND
    show ?thesis
      unfolding LD_W_IND bpf_load.simps Let_def buflen.simps by (rule loaded_chain [where rd = "\<lambda>m. m_xword m (bX s + bi_k i)", OF small(1) R(1)])
  next
    case LD_H_IND
    show ?thesis
      unfolding LD_H_IND bpf_load.simps Let_def buflen.simps by (rule loaded_chain [where rd = "\<lambda>m. m_xhalf m (bX s + bi_k i)", OF small(2) R(2)])
  next
    case LD_W_ABS
    show ?thesis
      unfolding LD_W_ABS bpf_load.simps buflen.simps by (rule loaded_chain [where rd = "\<lambda>m. m_xword m (bi_k i)", OF small(3) R(1)])
  next
    case LD_H_ABS
    show ?thesis
      unfolding LD_H_ABS bpf_load.simps buflen.simps by (rule loaded_chain [where rd = "\<lambda>m. case m_xhalf m (bi_k i) of MErr \<Rightarrow> MOk 0 | r \<Rightarrow> r", OF small(4) half])
  qed (use R(3) in \<open>auto simp: Let_def read_out_def loaded_def split: mread.splits\<close>)
qed

lemma chain_run_no_packet_fault_aux:
  assumes "[] \<notin> set c"
  shows "bpf_run n os (Mbuf c) w f s \<noteq> Some (Inl BadPacket)"
proof (induction n arbitrary: s)
  case (Suc n)
  have "bpf_exec os (Mbuf c) w l i s \<noteq> Fault BadPacket" for l i
  proof (cases l)
    case (Ret_op r) then show ?thesis using ret_no_fault [of r i s] by auto
  next
    case (Jump_op r) then show ?thesis using jump_no_fault [of r i s] by auto
  qed (use load_chain_inside [OF assms] in \<open>auto dest: mem_fault alu_fault\<close>)
  then have "bpf_step os (Mbuf c) w f s \<noteq> Fault BadPacket"
    by (auto simp: bpf_step_def split: option.splits)
  then show ?case using Suc by (auto split: bpf_out.splits)
qed simp

section \<open>Programs over one buffer and over a chain\<close>

text \<open>
  Programs whose packet loads are at constant offsets and check every error: no indexed load,
  no absolute half-word load.
\<close>

definition plain_program :: "bpf_insn list \<Rightarrow> bool" where
  "plain_program f \<longleftrightarrow>
     list_all (\<lambda>i. bi_code i \<notin>
       {label_code (Load_op LD_H_ABS), label_code (Load_op LD_W_IND),
        label_code (Load_op LD_H_IND), label_code (Load_op LD_B_IND)}) f"

lemma load_chain_buf:
  assumes l: "l \<notin> {LD_H_ABS, LD_W_IND, LD_H_IND, LD_B_IND}"
    and c: "chain_ok c" and ne: "concat c \<noteq> []"
    and st: "bpf_load (Mbuf c) w l i s = Next s'"
  shows "bpf_load (Buf (concat c)) w l i s = Next s'"
proof -
  let ?d = "concat c"
  have d: "length ?d < 2 ^ 32" using c by (simp add: chain_ok_def)
  have bw: "m_xword c k = MOk v \<Longrightarrow> buf_word ?d k = MOk v" for k v
    using m_xword_ok [of c k v] by (simp add: buf_word_iff [OF d] del: length_concat)
  have bb: "m_xbyte c k = MOk v \<Longrightarrow> buf_byte ?d k = MOk v" for k v
    by (simp add: buf_byte_iff [OF d] m_xbyte_iff del: length_concat split: if_splits)
  show ?thesis
  proof (cases l)
    case LD_W_ABS
    then obtain v where "m_xword c (bi_k i) = MOk v" "s' = set_A s v"
      using st by (auto simp: loaded_def read_out_def split: mread.splits if_splits)
    then show ?thesis using bw [of "bi_k i" v] LD_W_ABS
      by (auto simp: loaded_def buf_word_def abs_outside_def simp del: length_concat
          split: if_splits)
  next
    case LD_B_ABS
    then obtain v where "m_xbyte c (bi_k i) = MOk v" "s' = set_A s (ucast v)"
      using st by (auto simp: loaded_def read_out_def split: mread.splits if_splits)
    then show ?thesis using bb [of "bi_k i" v] LD_B_ABS
      by (auto simp: loaded_def buf_byte_def simp del: length_concat split: if_splits)
  next
    case LDX_MSH_B
    then obtain v where "m_xbyte c (bi_k i) = MOk v"
      "s' = set_X s (push_bit 2 (ucast (v AND 0xf)))"
      using st by (auto simp: loaded_def read_out_def split: mread.splits if_splits)
    then show ?thesis using bb [of "bi_k i" v] LDX_MSH_B
      by (auto simp: loaded_def buf_byte_def simp del: length_concat split: if_splits)
  qed (use l st in simp_all)
qed

lemma step_chain_buf:
  assumes pl: "plain_program f" and c: "chain_ok c" and ne: "concat c \<noteq> []"
  shows "bpf_step os (Mbuf c) w f s = Next s' \<Longrightarrow> bpf_step os (Buf (concat c)) w f s = Next s'"
    and "bpf_step os (Mbuf c) w f s = Ret r \<Longrightarrow> r \<noteq> 0 \<Longrightarrow> bpf_step os (Buf (concat c)) w f s = Ret r"
proof -
  have same: "bpf_step os (Buf (concat c)) w f s = o2" if "bpf_step os (Mbuf c) w f s = o2"
    and "\<And>l. bpf_switch (bi_code (f ! bpc s)) = Some (Load_op l) \<Longrightarrow> bpc s < length f \<Longrightarrow>
       bpf_load (Mbuf c) w l (f ! bpc s) s = o2 \<Longrightarrow>
       bpf_load (Buf (concat c)) w l (f ! bpc s) s = o2" for o2
    using that by (auto simp: bpf_step_def split: option.splits bpf_label.splits)
      (metis bpf_exec.simps bpf_label.exhaust)
  have plain: "l \<notin> {LD_H_ABS, LD_W_IND, LD_H_IND, LD_B_IND}"
    if "bpf_switch (bi_code (f ! bpc s)) = Some (Load_op l)" "bpc s < length f" for l
    using pl nth_mem [OF that(2)] bpf_switch_code [OF that(1)]
    unfolding plain_program_def list_all_iff by (cases l) fastforce+
  show "bpf_step os (Mbuf c) w f s = Next s' \<Longrightarrow> bpf_step os (Buf (concat c)) w f s = Next s'"
    by (rule same) (auto intro!: load_chain_buf [OF plain c ne])
  have ret: "bpf_load p w l i s = Ret r \<Longrightarrow> r = 0" for p l i
    by (cases l) (auto simp: loaded_def Let_def split: mread.splits if_splits)
  show "bpf_step os (Mbuf c) w f s = Ret r \<Longrightarrow> r \<noteq> 0 \<Longrightarrow> bpf_step os (Buf (concat c)) w f s = Ret r"
    by (rule same) (auto dest: ret)
qed

lemma run_chain_buf_aux:
  assumes "plain_program f" and "chain_ok c" and "concat c \<noteq> []"
  shows "bpf_run n os (Mbuf c) w f s = Some (Inr r) \<Longrightarrow> r \<noteq> 0 \<Longrightarrow>
     bpf_run n os (Buf (concat c)) w f s = Some (Inr r)"
proof (induction n arbitrary: s)
  case (Suc n)
  then show ?case
    using step_chain_buf(1) [OF assms, of os w s] step_chain_buf(2) [OF assms, of os w s r]
    by (cases "bpf_step os (Mbuf c) w f s") simp_all
qed simp

section \<open>Example programs\<close>

abbreviation insn :: "bpf_label \<Rightarrow> u8 \<Rightarrow> u8 \<Rightarrow> u32 \<Rightarrow> bpf_insn" where
  "insn l t e n \<equiv> \<lparr>bi_code = label_code l, bi_jt = t, bi_jf = e, bi_k = n\<rparr>"

text \<open>\<open>ether proto ip\<close>: the type field of an Ethernet header is \<open>0x800\<close>.\<close>

definition ip_program :: "bpf_insn list" where
  "ip_program =
    [insn (Load_op LD_H_ABS) 0 0 12,
     insn (Jump_op JMP_JEQ_K) 0 1 0x800,
     insn (Ret_op RET_K) 0 0 96,
     insn (Ret_op RET_K) 0 0 0]"

text \<open>The version nibble of an IP header at offset 0 is 4.\<close>

definition version_program :: "bpf_insn list" where
  "version_program =
    [insn (Load_op LD_B_ABS) 0 0 0,
     insn (Alu_op ALU_RSH_K) 0 0 4,
     insn (Jump_op JMP_JEQ_K) 0 1 4,
     insn (Ret_op RET_K) 0 0 68,
     insn (Ret_op RET_K) 0 0 0]"

text \<open>The half word at \<open>x + k\<close>.\<close>

definition half_ind_at :: "u32 \<Rightarrow> u32 \<Rightarrow> bpf_insn list" where
  "half_ind_at x k =
    [insn (Mem_op LDX_IMM) 0 0 x, insn (Load_op LD_H_IND) 0 0 k, insn (Ret_op RET_A) 0 0 0]"

text \<open>The byte at \<open>0 + 0\<close>.\<close>

definition byte_ind_program :: "bpf_insn list" where
  "byte_ind_program = [insn (Load_op LD_B_IND) 0 0 0, insn (Ret_op RET_A) 0 0 0]"

lemmas programs = ip_program_def version_program_def half_ind_at_def byte_ind_program_def

lemma switch_examples:
  "bpf_switch 0x28 = Some (Load_op LD_H_ABS)" "bpf_switch 0x15 = Some (Jump_op JMP_JEQ_K)"
  "bpf_switch 6 = Some (Ret_op RET_K)" "bpf_switch 0x16 = Some (Ret_op RET_A)"
  "bpf_switch 0x30 = Some (Load_op LD_B_ABS)" "bpf_switch 0x74 = Some (Alu_op ALU_RSH_K)"
  "bpf_switch 3 = Some (Mem_op STX_MEM)" "bpf_switch 1 = Some (Mem_op LDX_IMM)"
  "bpf_switch 0x48 = Some (Load_op LD_H_IND)" "bpf_switch 0x50 = Some (Load_op LD_B_IND)"
  by (simp_all add: bpf_switch_def bpf_labels_def)

lemma validate_examples:
  "bpf_validate ip_program = Some True" "bpf_validate version_program = Some True"
  "bpf_validate (half_ind_at x k) = Some True" "bpf_validate byte_ind_program = Some True"
  by (simp_all add: bpf_validate_def programs insn_ok_def Let_def BPF_CLASS_def BPF_OP_def)

lemmas bpf_eval = bpf_filter_def programs bpf_start_def bpf_step_def switch_examples
  loaded_def set_A_def set_X_def advance_def branch_def read_out_def Let_def
  raw_half_def raw_byte_def half_of_def be16_def m_xbyte_def

text \<open>The bounds test of the indexed half-word load, over the natural numbers, and the load.\<close>

lemma half_ind_test:
  assumes "length d < 2 ^ 32"
  shows "(x > of_nat (length d) \<or> k > of_nat (length d) - x \<or> 2 > of_nat (length d) - (k :: u32)) \<longleftrightarrow>
    \<not> (unat x + unat k \<le> length d \<and> unat k + 2 \<le> length d)"
proof -
  let ?l = "of_nat (length d) :: u32"
  have l: "unat ?l = length d" using assms by (rule unat_of_nat_u32)
  have sub: "unat (?l - y) = length d - unat y" if "unat y \<le> length d" for y
    using that l by (simp add: unat_sub_u32 word_le_nat_alt)
  show ?thesis
  proof (cases "unat x + unat k \<le> length d")
    case True
    then show ?thesis using sub [of x] sub [of k] l by (auto simp: word_less_nat_alt)
  next
    case False
    then show ?thesis using sub [of x] l by (cases "unat x \<le> length d") (auto simp: word_less_nat_alt)
  qed
qed

lemma half_ind_load:
  assumes "d \<noteq> []" and "length d < 2 ^ 32"
  shows "bpf_load (Buf d) w LD_H_IND i s =
    (if unat (bX s) + unat (bi_k i) + 2 \<le> length d then Next (set_A s (half_of d (unat (bX s) + unat (bi_k i))))
     else if unat (bX s) + unat (bi_k i) \<le> length d \<and> unat (bi_k i) + 2 \<le> length d then Fault BadPacket
     else Ret 0)"
proof -
  have nz: "(of_nat (length d) :: u32) \<noteq> 0"
    using assms unat_of_nat_u32 [of "length d"] by (metis length_0_conv unat_0)
  have sum: "unat (bX s + bi_k i) = unat (bX s) + unat (bi_k i)" if "unat (bX s) + unat (bi_k i) \<le> length d"
    using that assms(2) by (intro unat_add_u32) simp
  show ?thesis
    using half_ind_test [OF assms(2), of "bX s" "bi_k i"] nz sum
    by (auto simp: Let_def loaded_def read_out_def raw_half_def)
qed

section \<open>Properties\<close>

text \<open>
  C1. On a packet in a chain without empty mbufs, a program that \<open>bpf_validate\<close> accepts ends within
  as many steps as it has instructions, with a result that no larger bound changes: it never fetches
  outside the program, reads outside the packet or divides by a zero constant; it returns a value
  unless an index of \<open>LDX|MEM\<close> or \<open>STX\<close>, which the checker does not test, is outside the scratch memory.
\<close>

theorem bpf_validate_terminates:
  assumes v: "bpf_validate f = Some True" and c: "[] \<notin> set c" and m: "length m = BPF_MEMWORDS"
  shows "\<exists>r. (\<forall>n \<ge> length f. bpf_filter n os m (Some f) (Mbuf c) w = Some r) \<and>
    (r = Inl BadMem \<and> \<not> scratch_ok f \<or> (\<exists>value. r = Inr value))"
proof -
  let ?run = "\<lambda>n. bpf_run n os (Mbuf c) w f (bpf_start m)"
  have s: "bpc (bpf_start m) < length f" "length (bmem (bpf_start m)) = BPF_MEMWORDS"
    using bpf_validateD(1) [OF v] m by (simp_all add: bpf_start_def)
  then obtain r where r: "?run (length f) = Some r"
    using checked_run_aux [OF v s(1), of "length f" os "Mbuf c" w] by auto
  then have "\<forall>n \<ge> length f. bpf_filter n os m (Some f) (Mbuf c) w = Some r"
    by (auto simp: bpf_filter_def intro: bpf_run_more)
  moreover have "e = BadMem \<and> \<not> scratch_ok f" if "r = Inl e" for e
    using checked_run_faults [OF v s] checked_run_fault_aux [OF v _ s] r that
      chain_run_no_packet_fault_aux [OF c] by metis
  ultimately show ?thesis by (cases r) auto
qed

text \<open>
  C2. Safety of checked programs on a contiguous packet: with the scratch indices of
  \<open>LDX_MEM\<close>/\<open>STX\<close> in range and no indexed half-word load (the two things the checker and the
  bounds tests let through), the run returns a value: no fetch outside the program, no access
  outside the scratch memory or the packet, no division trap.
\<close>

theorem bpf_checked_safe:
  assumes v: "bpf_validate f = Some True" and sc: "scratch_ok f" and nh: "no_half_ind f"
    and d: "d \<noteq> []" "length d < 2 ^ 32" and m: "length m = BPF_MEMWORDS"
  shows "\<exists>r. bpf_filter (length f) os m (Some f) (Buf d) w = Some (Inr r)"
proof -
  have l: "0 < length f" using bpf_validateD(1) [OF v] by simp
  then obtain r where r: "bpf_run (length f) os (Buf d) w f (bpf_start m) = Some r"
    using checked_run_aux [OF v, of "bpf_start m" "length f" os "Buf d" w]
    by (auto simp: bpf_start_def)
  show ?thesis
  proof (cases r)
    case (Inl e)
    then have "e = BadPacket"
      using checked_run_fault_aux [OF v sc, of "bpf_start m"] r l m by (simp add: bpf_start_def)
    then show ?thesis using buf_run_no_packet_fault_aux [OF nh d] r Inl by metis
  qed (use r in \<open>simp add: bpf_filter_def\<close>)
qed

text \<open>
  C3. The checker compares the index of \<open>ST\<close> and \<open>LD|MEM\<close> with \<open>BPF_MEMWORDS\<close>, but not that of
  \<open>STX\<close> and \<open>LDX|MEM\<close>: at any place but the last of any accepted program, an instruction of the first
  two kinds with an index outside the scratch memory is refused and one of the last two is accepted;
  executed it accesses memory outside the scratch memory, and in the first place it does on every packet.
\<close>

theorem bpf_validate_misses_stx:
  assumes v: "bpf_validate f = Some True" and i: "i + 1 < length f" and k: "BPF_MEMWORDS \<le> unat k"
    and op: "op \<in> {LDX_MEM, STX_MEM}" and tested: "op' \<in> {LD_MEM, ST_MEM}"
  shows "bpf_validate (f[i := insn (Mem_op op') t e k]) = Some False \<and>
    bpf_validate (f[i := insn (Mem_op op) t e k]) = Some True \<and>
    (\<forall>s. bpc s = i \<and> length (bmem s) = BPF_MEMWORDS \<longrightarrow>
       bpf_step os p w (f[i := insn (Mem_op op) t e k]) s = Fault BadMem) \<and>
    (i = 0 \<and> 0 < n \<and> length m = BPF_MEMWORDS \<longrightarrow>
       bpf_filter n os m (Some (f[i := insn (Mem_op op) t e k])) p w = Some (Inl BadMem))"
proof -
  let ?g = "f[i := insn (Mem_op op) t e k]" and ?h = "f[i := insn (Mem_op op') t e k]"
  have "insn_ok ?g j" if "j < length f" for j
  proof (cases "j = i")
    case True
    then show ?thesis using op i by (auto simp: insn_ok_def Let_def BPF_CLASS_def)
  next
    case False
    then show ?thesis using bpf_validateD(2) [OF v that] by (simp add: insn_ok_def)
  qed
  moreover have "?g ! (length f - 1) = f ! (length f - 1)" using i by simp
  ultimately have "bpf_validate ?g = Some True"
    using bpf_validateD(1,3) [OF v] by (simp add: bpf_validate_def list_all_iff)
  moreover have "\<not> insn_ok ?h i"
    using tested k i by (auto simp: insn_ok_def Let_def BPF_CLASS_def)
  then have "bpf_validate ?h = Some False" using i by (auto simp: bpf_validate_def list_all_iff)
  moreover have step: "bpf_step os p w ?g s = Fault BadMem" if "bpc s = i" "length (bmem s) = BPF_MEMWORDS" for s
    using that op i k by (auto simp: bpf_step_def bpf_switch_label simp del: label_code.simps)
  moreover have "bpf_filter n os m (Some ?g) p w = Some (Inl BadMem)" if "i = 0" "0 < n" "length m = BPF_MEMWORDS"
    using step [of "bpf_start m"] that by (cases n) (simp_all add: bpf_filter_def bpf_start_def)
  ultimately show ?thesis by blast
qed

text \<open>
  C4. The bounds test of the indexed half-word load on a buffer subtracts the wrong offset. The
  checked program that loads the half word at \<open>x + k\<close> of a non-empty packet and returns it does so when it lies in the packet;
  when it does not, the program reads outside the packet if \<open>x + k\<close> is not past the end and two
  bytes at \<open>k\<close> would be in the packet, and only otherwise returns 0, as the test is meant to.
\<close>

theorem bpf_half_ind_reads_outside:
  assumes "d \<noteq> []" and "length d < 2 ^ 32"
  shows "bpf_validate (half_ind_at x k) = Some True \<and>
    bpf_filter 3 os m (Some (half_ind_at x k)) (Buf d) w =
      Some (if unat x + unat k + 2 \<le> length d then Inr (half_of d (unat x + unat k))
            else if unat x + unat k \<le> length d \<and> unat k + 2 \<le> length d then Inl BadPacket
            else Inr 0)"
proof -
  let ?s = "set_X (bpf_start m) x" and ?i = "insn (Load_op LD_H_IND) 0 0 k"
  have "bpf_filter 3 os m (Some (half_ind_at x k)) (Buf d) w =
      (case bpf_load (Buf d) w LD_H_IND ?i ?s of
         Next s \<Rightarrow> (if bpc s = 2 then Some (Inr (bA s)) else None)
       | Ret r \<Rightarrow> Some (Inr r) | Fault e \<Rightarrow> Some (Inl e))"
    by (simp add: half_ind_at_def bpf_filter_def bpf_start_def bpf_step_def switch_examples set_X_def advance_def
        loaded_def set_A_def Let_def split: mread.split)
  then show ?thesis
    using half_ind_load [OF assms, where s = ?s and i = ?i and w = w] validate_examples(3)
    by (simp add: set_X_def set_A_def advance_def bpf_start_def)
qed

text \<open>
  C5. A program whose loads are at constant offsets (and not half words) that accepts a packet
  in an mbuf chain accepts the same packet in one buffer, with the same snapshot length.
\<close>

theorem bpf_chain_accept_buffer:
  assumes "plain_program f" and "chain_ok c" and "concat c \<noteq> []"
    and "bpf_filter n os m (Some f) (Mbuf c) w = Some (Inr r)" and "r \<noteq> 0"
  shows "bpf_filter n os m (Some f) (Buf (concat c)) w = Some (Inr r)"
  using run_chain_buf_aux [OF assms(1-3)] assms(4,5) by (simp add: bpf_filter_def)

text \<open>
  The indexed byte load gives another accumulator on a chain than on a buffer with the same
  bytes: the chain is read through a signed \<open>char\<close>.
\<close>

theorem bpf_byte_ind_sign:
  "bpf_filter 2 os m (Some byte_ind_program) (Buf [0x80]) 1 = Some (Inr 0x80) \<and>
   bpf_filter 2 os m (Some byte_ind_program) (Mbuf [[0x80]]) 1 = Some (Inr 0xffffff80)"
  by (simp add: bpf_eval)

text \<open>
  C6. \<open>m_xword\<close> and \<open>m_xhalf\<close>, which splice a field out of at most two mbufs, return the bytes
  that the concatenated packet holds at the offset, and a half word that is there is found when
  no mbuf is empty.
\<close>

theorem bpf_chain_readers:
  assumes "chain_ok c"
  shows "(m_xword c k = MOk v \<longrightarrow>
            unat k + 4 \<le> length (concat c) \<and> v = word_of_bytes (concat c) (unat k)) \<and>
         (m_xhalf c k = MOk h \<longrightarrow>
            unat k + 2 \<le> length (concat c) \<and> h = half_of (concat c) (unat k)) \<and>
         ([] \<notin> set c \<longrightarrow> unat k + 2 \<le> length (concat c) \<longrightarrow>
            m_xhalf c k = MOk (half_of (concat c) (unat k))) \<and>
         (m_xbyte c k = MOk b \<longleftrightarrow> unat k < length (concat c) \<and> b = concat c ! unat k)"
proof (intro conjI)
  show "m_xbyte c k = MOk b \<longleftrightarrow> unat k < length (concat c) \<and> b = concat c ! unat k"
    by (auto simp: chain.rd8_iff [OF assms] simp del: length_concat)
qed (use chain.rd32_ok [OF assms] chain.rd16_ok [OF assms] m_xhalf_found in blast)+

section \<open>Witnesses\<close>

theorem bpf_validate_terminates_witness:
  "\<exists>r. (\<forall>n \<ge> length ip_program. bpf_filter n (\<lambda>_ _ _. 0) (replicate 16 0) (Some ip_program) (Mbuf [[1, 2]]) 2 = Some r) \<and>
     (r = Inl BadMem \<and> \<not> scratch_ok ip_program \<or> (\<exists>value. r = Inr value))"
  by (rule bpf_validate_terminates [OF validate_examples(1)]) simp_all

theorem bpf_validate_misses_stx_witness:
  "bpf_validate (ip_program[1 := insn (Mem_op ST_MEM) 0 0 16]) = Some False \<and>
   bpf_validate (ip_program[1 := insn (Mem_op STX_MEM) 0 0 16]) = Some True \<and>
   bpf_validate (ip_program[0 := insn (Mem_op LDX_MEM) 0 0 99]) = Some True \<and>
   bpf_filter 4 (\<lambda>_ _ _. 0) (replicate 16 0) (Some (ip_program[0 := insn (Mem_op LDX_MEM) 0 0 99])) (Buf [1]) 1 =
     Some (Inl BadMem)"
  using bpf_validate_misses_stx [OF validate_examples(1), of 1 16 STX_MEM ST_MEM]
    bpf_validate_misses_stx [OF validate_examples(1), of 0 99 LDX_MEM LD_MEM]
  by (simp add: ip_program_def)

theorem bpf_half_ind_reads_outside_witness:
  "bpf_filter 3 (\<lambda>_ _ _. 0) [] (Some (half_ind_at 9 1)) (Buf (replicate 10 0)) 10 = Some (Inl BadPacket)"
  using bpf_half_ind_reads_outside [of "replicate 10 0" 9 1] by simp

theorem bpf_checked_safe_witness:
  "\<exists>r. bpf_filter (length ip_program) (\<lambda>_ _ _. 0) (replicate BPF_MEMWORDS 7) (Some ip_program)
      (Buf (replicate 14 8)) 14 = Some (Inr r)"
proof (rule bpf_checked_safe [OF validate_examples(1)])
  show "scratch_ok ip_program" by (simp add: scratch_ok_def programs)
  show "no_half_ind ip_program" by (simp add: no_half_ind_def programs)
qed simp_all

theorem bpf_chain_accept_buffer_witness:
  "bpf_filter 5 (\<lambda>_ _ _. 0) [] (Some version_program) (Buf (concat [[0x45], [0]])) 2 =
     Some (Inr 68)"
proof (rule bpf_chain_accept_buffer)
  show "bpf_filter 5 (\<lambda>_ _ _. 0) [] (Some version_program) (Mbuf [[0x45], [0]]) 2 = Some (Inr 68)"
    by (simp add: bpf_eval shr_def)
qed (simp_all add: plain_program_def chain_ok_def programs)

theorem bpf_chain_readers_witness:
  "chain_ok [[1], [2, 3, 4]] \<and> m_xword [[1], [2, 3, 4]] 0 = MOk 0x01020304 \<and>
   unat (0 :: u32) + 4 \<le> length (concat [[1 :: u8], [2, 3, 4]])"
proof -
  have c: "chain_ok [[1], [2, 3, 4]]" by (simp add: chain_ok_def)
  have "m_xword [[1], [2, 3, 4]] 0 = MOk 0x01020304" by (simp add: m_xword_def be32_def)
  then show ?thesis using bpf_chain_readers [OF c, of 0 "0x01020304"] c by simp
qed

end
