(* ===== verification/Utf_Conv.thy ===== *)
theory Utf_Conv
  imports Kernel_Prelude
begin

text \<open>
  File-name conversion between UCS-2 and UTF-8, \<open>bsd/vfs/vfs_utfconv.c\<close>:
  \<open>utf8_encodelen\<close>, \<open>utf8_encodestr\<close>, \<open>utf8_decodestr\<close> and \<open>ucs_decompose\<close> with its tables.
  Buffers are given by their sizes; the encoder's result is what it stores, the decoder reads
  memory that may go on after the string (running off that memory is a fault value), with its
  length counter a 32-bit \<open>size_t\<close> that wraps.
\<close>

section \<open>Units\<close>

datatype utf_err = UOk | ENAMETOOLONG | EINVAL

definition NXSwapShort :: "u16 \<Rightarrow> u16" where
  "NXSwapShort w = push_bit 8 w OR drop_bit 8 w"

definition swap_if :: "bool \<Rightarrow> u16 \<Rightarrow> u16" where
  "swap_if swapbytes c = (if swapbytes then NXSwapShort c else c)"

lemma NXSwapShort_inverse [simp]: "NXSwapShort (NXSwapShort w) = w"
  by (rule bit_word_eqI) (auto simp: NXSwapShort_def bit_simps)

lemma swap_if_inverse [simp]: "swap_if s (swap_if s c) = c"
  by (simp add: swap_if_def)

definition slash :: u16 where
  "slash = 0x2f"

section \<open>Encoding\<close>

definition UCS_TO_UTF_LEN :: "u16 \<Rightarrow> nat" where
  "UCS_TO_UTF_LEN c = (if c < 0x0080 then 1 else if c < 0x0800 then 2 else 3)"

text \<open>The substitution of a slash, on a unit already in host order.\<close>

definition alt_out :: "u16 \<Rightarrow> u16 \<Rightarrow> u16" where
  "alt_out altslash c = (if altslash \<noteq> 0 \<and> c = slash then altslash else c)"

text \<open>\<open>utf8_encodelen\<close>: the loop over \<open>ucslen / 2\<close> units.\<close>

fun encodelen_loop :: "bool \<Rightarrow> u16 \<Rightarrow> u16 list \<Rightarrow> nat \<Rightarrow> nat" where
  "encodelen_loop swapbytes altslash [] len = len"
| "encodelen_loop swapbytes altslash (u # us) len =
     (let c = alt_out altslash (swap_if swapbytes u);
          c = (if c = 0 then 0xc080 else c)
      in encodelen_loop swapbytes altslash us (len + UCS_TO_UTF_LEN c))"

definition utf8_encodelen :: "u16 list \<Rightarrow> nat \<Rightarrow> u16 \<Rightarrow> bool \<Rightarrow> nat" where
  "utf8_encodelen ucsp ucslen altslash swapbytes =
     encodelen_loop swapbytes altslash (take (ucslen div 2) ucsp) 0"

text \<open>
  \<open>utf8_encodestr\<close>. \<open>out\<close> is what has been stored from \<open>bufstart\<close> on, so \<open>utf8p\<close> is
  \<open>bufstart + length out\<close>; \<open>bufend\<close> is an offset and may be \<open>-1\<close>.
\<close>

fun encodestr_loop ::
  "int \<Rightarrow> bool \<Rightarrow> u16 \<Rightarrow> u16 list \<Rightarrow> u8 list \<Rightarrow> utf_err \<times> u8 list" where
  "encodestr_loop bufend swapbytes altslash [] out = (UOk, out)"
| "encodestr_loop bufend swapbytes altslash (u # us) out =
     (let c = alt_out altslash (swap_if swapbytes u) in
      if c < 0x0080 \<and> c \<noteq> 0 then
        (if int (length out) \<ge> bufend then (ENAMETOOLONG, out)
         else encodestr_loop bufend swapbytes altslash us (out @ [ucast c]))
      else if c < 0x800 then
        (if int (length out) + 1 \<ge> bufend then (ENAMETOOLONG, out)
         else encodestr_loop bufend swapbytes altslash us
                (out @ [ucast (drop_bit 6 c OR 0xc0), ucast ((c AND 0x3f) OR 0x80)]))
      else
        (if int (length out) + 2 \<ge> bufend then (ENAMETOOLONG, out)
         else encodestr_loop bufend swapbytes altslash us
                (out @ [ucast (drop_bit 12 c OR 0xe0),
                        ucast ((drop_bit 6 c AND 0x3f) OR 0x80),
                        ucast ((c AND 0x3f) OR 0x80)])))"

text \<open>The result, the value of \<open>*utf8len\<close> and everything stored, with the terminator.\<close>

definition utf8_encodestr ::
  "u16 list \<Rightarrow> nat \<Rightarrow> nat \<Rightarrow> u16 \<Rightarrow> bool \<Rightarrow> bool \<Rightarrow> utf_err \<times> nat \<times> u8 list" where
  "utf8_encodestr ucsp ucslen buflen altslash swapbytes nullterm =
     (let bufend = (if nullterm then int buflen - 1 else int buflen);
          (result, out) = encodestr_loop bufend swapbytes altslash (take (ucslen div 2) ucsp) []
      in (result, length out, if nullterm then out @ [0] else out))"

section \<open>Decomposition\<close>

definition primary_char :: "nat list" where
  "primary_char =
    [0x41, 0x41, 0x41, 0x41, 0x41, 0x41, 0xC6, 0x43,
     0x45, 0x45, 0x45, 0x45, 0x49, 0x49, 0x49, 0x49,
     0xD0, 0x4E, 0x4F, 0x4F, 0x4F, 0x4F, 0x4F, 0xD7,
     0xD8, 0x55, 0x55, 0x55, 0x55, 0x59, 0xDE, 0xDF,
     0x61, 0x61, 0x61, 0x61, 0x61, 0x61, 0xE6, 0x63,
     0x65, 0x65, 0x65, 0x65, 0x69, 0x69, 0x69, 0x69,
     0xF0, 0x6E, 0x6F, 0x6F, 0x6F, 0x6F, 0x6F, 0xF7,
     0xF8, 0x75, 0x75, 0x75, 0x75, 0x79, 0xFE, 0x79]"

definition combining_char :: "nat list" where
  "combining_char =
    [0x00, 0x01, 0x02, 0x03, 0x08, 0x0A, 0xFF, 0x27,
     0x00, 0x01, 0x02, 0x08, 0x00, 0x01, 0x02, 0x08,
     0xFF, 0x03, 0x00, 0x01, 0x02, 0x03, 0x08, 0xFF,
     0xFF, 0x00, 0x01, 0x02, 0x08, 0x01, 0xFF, 0xFF,
     0x00, 0x01, 0x02, 0x03, 0x08, 0x0A, 0xFF, 0x27,
     0x00, 0x01, 0x02, 0x08, 0x00, 0x01, 0x02, 0x08,
     0xFF, 0x03, 0x00, 0x01, 0x02, 0x03, 0x08, 0xFF,
     0xFF, 0x00, 0x01, 0x02, 0x08, 0x01, 0xFF, 0x08]"

definition CJKDecompBitmap :: "u32 list" where
  "CJKDecompBitmap =
    [0x00000000, 0x00000000, 0x000AAAAA, 0xA540DB6C,
     0x00000802, 0x000AAAAA, 0xA540DB6C, 0x000009E2]"

definition IS_DECOMPOSABLE :: "u32 list \<Rightarrow> nat \<Rightarrow> bool" where
  "IS_DECOMPOSABLE table v = bit (table ! (v div 32)) (31 - v mod 32)"

text \<open>The letters with an irregular base, from the switch; the others have base \<open>ch - 1\<close>.\<close>

definition cjk_special :: "(u16 \<times> u16 \<times> u16) list" where
  "cjk_special =
    [(0x3071, 0x306F, 0x309A), (0x3074, 0x3072, 0x309A), (0x3077, 0x3075, 0x309A),
     (0x307A, 0x3078, 0x309A), (0x307D, 0x307B, 0x309A), (0x3094, 0x3046, 0x3099),
     (0x30D1, 0x30CF, 0x309A), (0x30D4, 0x30D2, 0x309A), (0x30D7, 0x30D5, 0x309A),
     (0x30DA, 0x30D8, 0x309A), (0x30DD, 0x30DB, 0x309A), (0x30F4, 0x30A6, 0x3099),
     (0x30F7, 0x30EF, 0x3099), (0x30F8, 0x30F0, 0x3099), (0x30F9, 0x30F1, 0x3099),
     (0x30FA, 0x30F2, 0x3099)]"

text \<open>The base character and the combining one (0: none).\<close>

definition ucs_decompose :: "u16 \<Rightarrow> u16 \<times> u16" where
  "ucs_decompose ch =
     (if ch \<le> 0x00FF \<and> ch \<ge> 0x00C0 then
        (let i = unat (ch - 0x00C0); base = (of_nat (primary_char ! i) :: u16)
         in (base, if base \<le> 0x7a then 0x0300 + of_nat (combining_char ! i) else 0))
      else if ch > 0x3000 \<and> ch < 0x3100 \<and>
              IS_DECOMPOSABLE CJKDecompBitmap (unat (ch - 0x3000)) then
        (case map_of cjk_special ch of Some bc \<Rightarrow> bc | None \<Rightarrow> (ch - 1, 0x3099))
      else (ch, 0))"

section \<open>Decoding\<close>

text \<open>
  One character after its first byte has been taken: \<open>m\<close> is the memory from \<open>utf8p\<close> on and
  \<open>n\<close> the counter \<open>utf8len\<close>, decremented for each continuation byte without a test.
\<close>

datatype dec_char = CChar u16 "u8 list" u32 | CInval | CFault

definition final_byte :: "u16 \<Rightarrow> u8 list \<Rightarrow> u32 \<Rightarrow> dec_char" where
  "final_byte ucs m n =
     (case m of
        [] \<Rightarrow> CFault
      | b # m' \<Rightarrow> if b AND 0xc0 \<noteq> 0x80 then CInval else CChar (ucs + ucast (b AND 0x3F)) m' (n - 1))"

definition decode_multi :: "u8 \<Rightarrow> u8 list \<Rightarrow> u32 \<Rightarrow> dec_char" where
  "decode_multi byte m n =
     (if byte AND 0xf0 = 0xc0 \<or> byte AND 0xf0 = 0xd0 then
        (let ucs = push_bit 6 (ucast (byte AND 0x1F)) in
         if ucs < 0x0080 then
           (case m of
              [] \<Rightarrow> CFault
            | b # _ \<Rightarrow> if b \<noteq> 0x80 then CInval else final_byte ucs m n)
         else final_byte ucs m n)
      else if byte AND 0xf0 = 0xe0 then
        (case m of
           [] \<Rightarrow> CFault
         | b # m' \<Rightarrow>
             if b AND 0xc0 \<noteq> 0x80 then CInval
             else (let ucs = push_bit 6 (push_bit 6 (ucast (byte AND 0x0F)) + ucast (b AND 0x3F)) in
                   if ucs < 0x0800 then CInval else final_byte ucs m' (n - 1)))
      else CInval)"

text \<open>
  Storing a character: \<open>out\<close> are the units stored so far, so \<open>ucsp >= bufend\<close> is
  \<open>buflen \<le> 2 * length out\<close>. A decomposed character is stored as two units, with a test
  between them.
\<close>

definition put_char :: "u16 \<Rightarrow> bool \<Rightarrow> u16 \<Rightarrow> u16 list \<Rightarrow> u16 list" where
  "put_char altslash swapbytes c out =
     out @ [swap_if swapbytes (if c = altslash then slash else c)]"

definition store_char ::
  "nat \<Rightarrow> u16 \<Rightarrow> bool \<Rightarrow> bool \<Rightarrow> u16 \<Rightarrow> u16 list \<Rightarrow> utf_err \<times> u16 list" where
  "store_char buflen altslash decompose swapbytes c out =
     (if decompose then
        (let (base, comb) = ucs_decompose c in
         if comb \<noteq> 0 then
           (let out' = out @ [swap_if swapbytes base] in
            if buflen \<le> 2 * length out' then (ENAMETOOLONG, out')
            else (UOk, put_char altslash swapbytes comb out'))
         else (UOk, put_char altslash swapbytes base out))
      else (UOk, put_char altslash swapbytes c out))"

datatype dec_result = DFault | DResult utf_err "u16 list"

lemma final_byte_shorter: "final_byte ucs m n = CChar c m' n' \<Longrightarrow> length m' < length m"
  by (auto simp: final_byte_def split: list.splits if_splits)

lemma decode_multi_shorter: "decode_multi b m n = CChar c m' n' \<Longrightarrow> length m' < length m"
  by (auto simp: decode_multi_def Let_def split: list.splits if_splits
      dest!: final_byte_shorter)

text \<open>The loop of \<open>utf8_decodestr\<close>: \<open>while (utf8len-- > 0 && (byte = *utf8p++) != 0)\<close>.\<close>

function decode_loop ::
  "nat \<Rightarrow> u16 \<Rightarrow> bool \<Rightarrow> bool \<Rightarrow> u8 list \<Rightarrow> u32 \<Rightarrow> u16 list \<Rightarrow> dec_result" where
  "decode_loop buflen altslash decompose swapbytes m n out =
     (if n = 0 then DResult UOk out
      else case m of
        [] \<Rightarrow> DFault
      | byte # m1 \<Rightarrow>
          if byte = 0 then DResult UOk out
          else if buflen \<le> 2 * length out then DResult ENAMETOOLONG out
          else if byte < 0x80 then
            decode_loop buflen altslash decompose swapbytes m1 (n - 1)
              (put_char altslash swapbytes (ucast byte) out)
          else (case decode_multi byte m1 (n - 1) of
                  CFault \<Rightarrow> DFault
                | CInval \<Rightarrow> DResult EINVAL out
                | CChar c m2 n2 \<Rightarrow>
                    (case store_char buflen altslash decompose swapbytes c out of
                       (UOk, out') \<Rightarrow> decode_loop buflen altslash decompose swapbytes m2 n2 out'
                     | (err, out') \<Rightarrow> DResult err out')))"
  by pat_completeness auto
termination
  by (relation "measure (\<lambda>(_, _, _, _, m, _, _). length m)") (auto dest!: decode_multi_shorter)

declare decode_loop.simps [simp del]

text \<open>
  \<open>utf8_decodestr\<close>: the result and the units stored (\<open>*ucslen\<close> is twice their number).
  \<open>m\<close> is the memory at \<open>utf8p\<close>.
\<close>

definition utf8_decodestr ::
  "u8 list \<Rightarrow> u32 \<Rightarrow> nat \<Rightarrow> u16 \<Rightarrow> bool \<Rightarrow> bool \<Rightarrow> dec_result" where
  "utf8_decodestr m utf8len buflen altslash decompose swapbytes =
     decode_loop buflen altslash decompose swapbytes m utf8len []"

section \<open>Bytes of an encoded unit\<close>

lemma word_between:
  assumes "list_all P (map of_nat [a..<m])" and "a \<le> unat h" and "unat (h :: 'a::len word) < m"
  shows "P h"
proof -
  have "h \<in> set (map of_nat [a..<m])" using assms by (auto intro!: image_eqI [of _ _ "unat h"])
  then show ?thesis using assms(1) unfolding list_all_iff by blast
qed

lemmas word_below = word_between [where a = 0, OF _ le0]

lemma cont_byte:
  assumes "unat (l :: u16) < 64"
  shows "(ucast (l OR 0x80) :: u8) AND 0xc0 = 0x80 \<and>
     ucast ((ucast (l OR 0x80) :: u8) AND 0x3F) = l"
  by (rule word_below [OF _ assms]) code_simp

lemma lead2_byte:
  assumes "unat (h :: u16) < 32"
  shows "\<not> (ucast (h OR 0xc0) :: u8) < 0x80 \<and>
     ((ucast (h OR 0xc0) :: u8) AND 0xf0 = 0xc0 \<or> (ucast (h OR 0xc0) :: u8) AND 0xf0 = 0xd0) \<and>
     ucast ((ucast (h OR 0xc0) :: u8) AND 0x1F) = h"
  by (rule word_below [OF _ assms]) code_simp

lemma lead3_byte:
  assumes "unat (h :: u16) < 16"
  shows "\<not> (ucast (h OR 0xe0) :: u8) < 0x80 \<and> (ucast (h OR 0xe0) :: u8) AND 0xf0 = 0xe0 \<and>
     ucast ((ucast (h OR 0xe0) :: u8) AND 0x0F) = h"
  by (rule word_below [OF _ assms]) code_simp

lemma ascii_byte:
  assumes "unat (h :: u16) < 128"
  shows "(ucast h :: u8) < 0x80 \<and> ucast (ucast h :: u8) = h \<and> ((ucast h :: u8) = 0 \<longleftrightarrow> h = 0)"
  by (rule word_below [OF _ assms]) code_simp

lemma unat_u16_less: "unat (c :: u16) < 65536"
  using unsigned_less [of c, where ?'a = nat] by simp

lemma unat_low6: "unat ((c :: u16) AND 0x3f) = unat c mod 64"
proof -
  have "c AND 0x3f = take_bit 6 c" by (simp add: take_bit_eq_mask mask_eq_exp_minus_1)
  moreover have "unat (take_bit 6 c) = take_bit 6 (unat c)" by (rule unsigned_take_bit_eq)
  ultimately show ?thesis by (simp only: take_bit_eq_mod) simp
qed

lemma unat_shift: "unat (drop_bit n (c :: u16)) = unat c div 2 ^ n"
proof -
  have "unat (drop_bit n c) = drop_bit n (take_bit LENGTH(16) (unat c))"
    by (rule unsigned_drop_bit_eq)
  also have "take_bit LENGTH(16) (unat c) = unat c"
    using unat_u16_less [of c] by (intro take_bit_nat_eq_self) simp
  finally show ?thesis by (simp only: drop_bit_eq_div)
qed

lemma split6: "push_bit 6 (drop_bit 6 c) + (c AND 0x3f) = (c :: u16)"
proof -
  have c: "unat c < 65536" by (rule unat_u16_less)
  have p: "push_bit 6 x = x * 64" for x :: u16 by (simp add: push_bit_eq_mult)
  have "unat (push_bit 6 (drop_bit 6 c)) = unat c div 64 * 64"
    using c by (simp only: p unat_word_ariths unat_shift) simp
  then have "unat (push_bit 6 (drop_bit 6 c) + (c AND 0x3f)) =
      (unat c div 64 * 64 + unat c mod 64) mod 65536"
    by (simp only: unat_word_ariths unat_low6) simp
  also have "\<dots> = unat c" using c by simp
  finally show ?thesis by (simp add: word_unat_eq_iff)
qed

lemma decode_two:
  assumes "c < 0x800" and "\<not> (c < 0x80 \<and> c \<noteq> 0)"
  shows "decode_multi (ucast (drop_bit 6 c OR 0xc0)) (ucast ((c AND 0x3f) OR 0x80) # m) n =
     CChar c m (n - 1)"
proof -
  have c: "unat c < 2048" using assms(1) by (simp add: word_less_nat_alt)
  have h: "unat (drop_bit 6 c) < 32" using c by (simp add: unat_shift)
  have l: "unat (c AND 0x3f) < 64" by (simp add: unat_low6)
  have "c = 0" if "push_bit 6 (drop_bit 6 c) < (0x80 :: u16)"
  proof -
    have "unat (push_bit 6 (drop_bit 6 c)) = unat c div 64 * 64"
      using c by (simp add: push_bit_eq_mult unat_word_ariths unat_shift)
    then have "unat c div 64 * 64 < 128" using that by (simp add: word_less_nat_alt)
    then show ?thesis using assms(2) by (simp add: word_less_nat_alt)
  qed
  then show ?thesis
    using lead2_byte [OF h] cont_byte [OF l] split6 [of c]
    by (auto simp: decode_multi_def final_byte_def Let_def)
qed

lemma decode_three:
  assumes "\<not> c < 0x800"
  shows "decode_multi (ucast (drop_bit 12 c OR 0xe0))
      (ucast ((drop_bit 6 c AND 0x3f) OR 0x80) # ucast ((c AND 0x3f) OR 0x80) # m) n =
     CChar c m (n - 1 - 1)"
proof -
  have c: "unat c < 65536" by (rule unat_u16_less)
  have h: "unat (drop_bit 12 c) < 16" using c by (simp add: unat_shift)
  have mid: "unat (drop_bit 6 c AND 0x3f) < 64" by (simp add: unat_low6)
  have l: "unat (c AND 0x3f) < 64" by (simp add: unat_low6)
  have two: "push_bit 6 (drop_bit 12 c) + (drop_bit 6 c AND 0x3f) = drop_bit 6 c"
    using split6 [of "drop_bit 6 c"] by (simp add: drop_bit_drop_bit)
  have big: "\<not> push_bit 6 (drop_bit 6 c) < (0x800 :: u16)"
  proof -
    have "unat (push_bit 6 (drop_bit 6 c)) = unat c div 64 * 64"
      using c by (simp add: push_bit_eq_mult unat_word_ariths unat_shift)
    then show ?thesis using assms by (simp add: word_less_nat_alt)
  qed
  show ?thesis
    using lead3_byte [OF h] cont_byte [OF mid] cont_byte [OF l] split6 [of c] two big
    by (simp add: decode_multi_def final_byte_def Let_def)
qed

section \<open>The encoder as a map over units\<close>

text \<open>The bytes of one unit, by the three branches of the loop.\<close>

definition enc_unit :: "u16 \<Rightarrow> u8 list" where
  "enc_unit c =
     (if c < 0x0080 \<and> c \<noteq> 0 then [ucast c]
      else if c < 0x800 then [ucast (drop_bit 6 c OR 0xc0), ucast ((c AND 0x3f) OR 0x80)]
      else [ucast (drop_bit 12 c OR 0xe0), ucast ((drop_bit 6 c AND 0x3f) OR 0x80),
            ucast ((c AND 0x3f) OR 0x80)])"

lemma encodestr_loop_step:
  "encodestr_loop bufend sw a (u # us) out =
     (let bs = enc_unit (alt_out a (swap_if sw u)) in
      if int (length out) + int (length bs) - 1 \<ge> bufend then (ENAMETOOLONG, out)
      else encodestr_loop bufend sw a us (out @ bs))"
  by (simp add: enc_unit_def Let_def)

declare encodestr_loop.simps(2) [simp del]

lemma encodestr_loop_ok:
  "encodestr_loop bufend sw a us out = (UOk, out') \<Longrightarrow>
     out' = out @ concat (map (\<lambda>u. enc_unit (alt_out a (swap_if sw u))) us)"
  by (induction us arbitrary: out) (fastforce simp: encodestr_loop_step Let_def split: if_splits)+

lemma encodestr_loop_bound:
  "encodestr_loop bufend sw a us out = (r, out') \<Longrightarrow>
     int (length out) \<le> max 0 bufend \<Longrightarrow> int (length out') \<le> max 0 bufend"
proof (induction us arbitrary: out)
  case (Cons u us)
  let ?bs = "enc_unit (alt_out a (swap_if sw u))"
  show ?case
  proof (cases "int (length out) + int (length ?bs) - 1 \<ge> bufend")
    case True
    then show ?thesis using Cons.prems by (simp add: encodestr_loop_step Let_def)
  next
    case False
    then show ?thesis
      using Cons.prems(1) by (intro Cons.IH [of "out @ ?bs"]) (simp_all add: encodestr_loop_step Let_def)
  qed
qed simp

lemma encodestr_loop_fits:
  "int (length out) + int (length (concat (map (\<lambda>u. enc_unit (alt_out a (swap_if sw u))) us))) \<le> bufend \<Longrightarrow>
     encodestr_loop bufend sw a us out =
       (UOk, out @ concat (map (\<lambda>u. enc_unit (alt_out a (swap_if sw u))) us))"
  by (induction us arbitrary: out) (simp_all add: encodestr_loop_step Let_def)

lemma length_enc_unit:
  "length (enc_unit c) = (if c = 0 then 2 else UCS_TO_UTF_LEN c)"
  by (simp add: enc_unit_def UCS_TO_UTF_LEN_def)

lemma encodelen_loop_sum:
  "encodelen_loop sw a us len =
     len + (\<Sum>u\<leftarrow>us. let c = alt_out a (swap_if sw u) in UCS_TO_UTF_LEN (if c = 0 then 0xc080 else c))"
  by (induction us arbitrary: len) (simp_all add: Let_def)

section \<open>Decoding what the encoder stores\<close>

lemma decode_loop_char:
  assumes n: "n \<noteq> 0" and room: "2 * length out < buflen"
  shows "decode_loop buflen a False sw (enc_unit c @ m) n out =
     decode_loop buflen a False sw m (n - of_nat (length (enc_unit c))) (put_char a sw c out)"
proof -
  consider (one) "c < 0x80 \<and> c \<noteq> 0" | (two) "\<not> (c < 0x80 \<and> c \<noteq> 0)" "c < 0x800"
    | (three) "\<not> (c < 0x80 \<and> c \<noteq> 0)" "\<not> c < 0x800" by blast
  then show ?thesis
  proof cases
    case one
    then have e: "enc_unit c = [ucast c]" by (simp add: enc_unit_def)
    have "unat c < 128" using one by (simp add: word_less_nat_alt)
    note b = ascii_byte [OF this]
    show ?thesis
      using b one room n unfolding e by (subst decode_loop.simps) simp
  next
    case two
    then have e: "enc_unit c = [ucast (drop_bit 6 c OR 0xc0), ucast ((c AND 0x3f) OR 0x80)]"
      by (simp add: enc_unit_def)
    have h: "unat (drop_bit 6 c) < 32" using two(2) by (simp add: unat_shift word_less_nat_alt)
    show ?thesis
      using lead2_byte [OF h] decode_two [OF two(2,1), of m "n - 1"] room n unfolding e
      by (subst decode_loop.simps) (auto simp: store_char_def)
  next
    case three
    then have e: "enc_unit c = [ucast (drop_bit 12 c OR 0xe0),
        ucast ((drop_bit 6 c AND 0x3f) OR 0x80), ucast ((c AND 0x3f) OR 0x80)]"
      by (simp add: enc_unit_def)
    have h: "unat (drop_bit 12 c) < 16" using unat_u16_less [of c] by (simp add: unat_shift)
    show ?thesis
      using lead3_byte [OF h] decode_three [OF three(2), of m "n - 1"] room n unfolding e
      by (subst decode_loop.simps) (auto simp: store_char_def)
  qed
qed

lemma decode_loop_chars:
  "2 * (length out + length cs) \<le> buflen \<Longrightarrow> length (concat (map enc_unit cs)) \<le> unat n \<Longrightarrow>
     decode_loop buflen a False sw (concat (map enc_unit cs) @ m) n out =
     decode_loop buflen a False sw m (n - of_nat (length (concat (map enc_unit cs))))
       (out @ map (\<lambda>c. swap_if sw (if c = a then slash else c)) cs)"
proof (induction cs arbitrary: out n)
  case (Cons c cs)
  let ?k = "length (concat (map enc_unit cs))" and ?c = "length (enc_unit c)"
  have pos: "0 < ?c" by (simp add: enc_unit_def)
  then have n: "n \<noteq> 0" using Cons.prems(2) by auto
  have "?c \<le> unat n" "?c < 2 ^ 32"
    using Cons.prems(2) unsigned_less [of n, where ?'a = nat] by simp_all
  then have "unat (n - of_nat ?c) = unat n - ?c"
    by (subst unat_sub_u32) (simp_all add: word_le_nat_alt unat_of_nat_u32)
  then have "?k \<le> unat (n - of_nat ?c)" using Cons.prems(2) by simp
  then show ?case
    using decode_loop_char [OF n, of out buflen a sw c "concat (map enc_unit cs) @ m"] Cons.prems(1)
      Cons.IH [of "put_char a sw c out" "n - of_nat ?c"]
    by (simp add: put_char_def algebra_simps)
qed simp

text \<open>A character cut short at the end of the memory.\<close>

lemma decode_loop_cut:
  assumes k: "0 < k" "k < length (enc_unit c)" and n: "n \<noteq> 0" and room: "2 * length out < buflen"
  shows "decode_loop buflen a False sw (take k (enc_unit c)) n out = DFault"
proof (cases "c < 0x800")
  case True
  then have e: "enc_unit c = [ucast (drop_bit 6 c OR 0xc0), ucast ((c AND 0x3f) OR 0x80)]" and "k = 1"
    using k by (auto simp: enc_unit_def split: if_splits)
  have h: "unat (drop_bit 6 c) < 32" using True by (simp add: unat_shift word_less_nat_alt)
  show ?thesis
    using lead2_byte [OF h] room n \<open>k = 1\<close> unfolding e
    by (subst decode_loop.simps) (auto simp: decode_multi_def final_byte_def Let_def)
next
  case False
  then have e: "enc_unit c = [ucast (drop_bit 12 c OR 0xe0),
      ucast ((drop_bit 6 c AND 0x3f) OR 0x80), ucast ((c AND 0x3f) OR 0x80)]"
    by (auto simp: enc_unit_def word_less_nat_alt)
  then have "k = 1 \<or> k = 2" using k by auto
  have h: "unat (drop_bit 12 c) < 16" using unat_u16_less [of c] by (simp add: unat_shift)
  have mid: "unat (drop_bit 6 c AND 0x3f) < 64" by (simp add: unat_low6)
  have two: "push_bit 6 (drop_bit 12 c) + (drop_bit 6 c AND 0x3f) = drop_bit 6 c"
    using split6 [of "drop_bit 6 c"] by (simp add: drop_bit_drop_bit)
  have "unat (push_bit 6 (drop_bit 6 c)) = unat c div 64 * 64"
    using unat_u16_less [of c] by (simp add: push_bit_eq_mult unat_word_ariths unat_shift)
  then have big: "\<not> push_bit 6 (drop_bit 6 c) < (0x800 :: u16)"
    using False by (simp add: word_less_nat_alt)
  show ?thesis
    using \<open>k = 1 \<or> k = 2\<close> lead3_byte [OF h] cont_byte [OF mid] two big room n unfolding e
    by (subst decode_loop.simps) (auto simp: decode_multi_def final_byte_def Let_def)
qed

lemma decode_loop_units:
  assumes "2 * (length out + length cs) \<le> buflen" and "length (concat (map enc_unit cs)) < 2 ^ 32"
  shows "decode_loop buflen a False sw (concat (map enc_unit cs) @ m)
       (of_nat (length (concat (map enc_unit cs)))) out =
     DResult UOk (out @ map (\<lambda>c. swap_if sw (if c = a then slash else c)) cs)"
  using decode_loop_chars [OF assms(1), of "of_nat (length (concat (map enc_unit cs)))" a sw m]
    unat_of_nat_u32 [OF assms(2)] by (simp add: decode_loop.simps [of _ _ _ _ m 0] del: length_concat)

section \<open>Invariants of the decoder's output\<close>

text \<open>What every stored character keeps of the output holds of the final output.\<close>

lemma decode_loop_inv:
  assumes ascii: "\<And>b out. Q out \<Longrightarrow> b < 0x80 \<Longrightarrow> 2 * length out < buflen \<Longrightarrow>
      Q (put_char a sw (ucast (b :: u8)) out)"
    and multi: "\<And>c out r out'. Q out \<Longrightarrow> 2 * length out < buflen \<Longrightarrow>
      store_char buflen a de sw c out = (r, out') \<Longrightarrow> Q out'"
  shows "decode_loop buflen a de sw m n out = DResult r out' \<Longrightarrow> Q out \<Longrightarrow> Q out'"
proof (induction m arbitrary: n out rule: measure_induct_rule [of length])
  case (less m)
  note res = less.prems(1) and Q = less.prems(2)
  show ?case
  proof (cases "n = 0 \<or> m = [] \<or> hd m = 0 \<or> buflen \<le> 2 * length out")
    case True
    then show ?thesis using res Q
      by (subst (asm) decode_loop.simps) (auto split: list.splits if_splits)
  next
    case False
    then obtain b m1 where m: "m = b # m1" and go: "n \<noteq> 0" "b \<noteq> 0" "2 * length out < buflen"
      by (cases m) auto
    show ?thesis
    proof (cases "b < 0x80")
      case True
      have "decode_loop buflen a de sw m1 (n - 1) (put_char a sw (ucast b) out) = DResult r out'"
        using res m go True by (subst (asm) decode_loop.simps) simp
      then show ?thesis using less.IH [of m1] ascii [OF Q True go(3)] m by simp
    next
      case high: False
      show ?thesis
      proof (cases "decode_multi b m1 (n - 1)")
        case (CChar c m2 n2)
        obtain err out1 where st: "store_char buflen a de sw c out = (err, out1)" by fastforce
        note Q1 = multi [OF Q go(3) st]
        have "length m2 < length m" using decode_multi_shorter [OF CChar] m by simp
        moreover have "if err = UOk then decode_loop buflen a de sw m2 n2 out1 = DResult r out'
            else out' = out1"
          using res m go high CChar st
          by (subst (asm) decode_loop.simps) (cases err; simp)
        ultimately show ?thesis using less.IH [of m2 n2 out1] Q1 by (auto split: if_splits)
      next
        case CInval
        then show ?thesis using res m go high Q by (subst (asm) decode_loop.simps) simp
      next
        case CFault
        then show ?thesis using res m go high by (subst (asm) decode_loop.simps) simp
      qed
    qed
  qed
qed

end
