(* ===== verification/Utf_Props.thy ===== *)
theory Utf_Props
  imports Utf_Conv
begin

text \<open>
  Properties of the file-name conversion: round trip, sizes of what is stored, full
  decomposition, and what the decoder does with truncated and overlong input.
\<close>

section \<open>Decomposition reaches indecomposable characters\<close>

text \<open>The offsets from \<open>0x3000\<close> whose bit is set in the bitmap.\<close>

definition cjk_offsets :: "u16 list" where
  "cjk_offsets =
    [76, 78, 80, 82, 84, 86, 88, 90, 92, 94, 96, 98, 101, 103, 105, 112, 113, 115, 116, 118,
     119, 121, 122, 124, 125, 148, 158, 172, 174, 176, 178, 180, 182, 184, 186, 188, 190, 192,
     194, 197, 199, 201, 208, 209, 211, 212, 214, 215, 217, 218, 220, 221, 244, 247, 248, 249,
     250, 254]"

lemma cjk_bitmap:
  "filter (IS_DECOMPOSABLE CJKDecompBitmap) [0..<256] = map unat cjk_offsets"
  by code_simp

definition settled :: "u16 \<Rightarrow> bool" where
  "settled c \<longleftrightarrow> snd (ucs_decompose c) = 0"

lemma latin_settled:
  "list_all (\<lambda>c. let (b, m) = ucs_decompose c in settled b \<and> settled m) (map of_nat [0xC0..<0x100])"
  unfolding settled_def by code_simp

lemma cjk_settled:
  "list_all (\<lambda>v. let (b, m) = ucs_decompose (0x3000 + v) in settled b \<and> settled m) cjk_offsets"
  by (simp add: settled_def cjk_offsets_def ucs_decompose_def IS_DECOMPOSABLE_def
      CJKDecompBitmap_def cjk_special_def bit_numeral_rec)

lemma settled_0: "settled 0"
  by (simp add: settled_def ucs_decompose_def)

lemma settled_ascii: "c < 0x80 \<Longrightarrow> settled c"
  by (auto simp: settled_def ucs_decompose_def word_less_nat_alt word_le_nat_alt)

lemma cjk_member:
  assumes "ch > 0x3000" and "ch < 0x3100" and "IS_DECOMPOSABLE CJKDecompBitmap (unat (ch - 0x3000))"
  shows "ch - 0x3000 \<in> set cjk_offsets"
proof -
  have "unat (ch - 0x3000) < 256"
    using assms(1,2) unat_sub [of "0x3000" ch] by (simp add: word_less_nat_alt word_le_nat_alt)
  then have "unat (ch - 0x3000) \<in> set (map unat cjk_offsets)"
    using assms(3) unfolding cjk_bitmap [symmetric] by simp
  then show ?thesis by (auto simp: word_unat_eq_iff [symmetric])
qed

lemma decompose_settled:
  assumes "ucs_decompose c = (b, m)"
  shows "settled b \<and> settled m"
proof (cases "c \<le> 0x00FF \<and> c \<ge> 0x00C0")
  case True
  then have "0xC0 \<le> unat c" "unat c < 0x100" by (simp_all add: word_le_nat_alt)
  from word_between [OF latin_settled this] show ?thesis using assms by simp
next
  case False
  show ?thesis
  proof (cases "c > 0x3000 \<and> c < 0x3100 \<and> IS_DECOMPOSABLE CJKDecompBitmap (unat (c - 0x3000))")
    case True
    then have "c - 0x3000 \<in> set cjk_offsets" by (intro cjk_member) auto
    then show ?thesis using cjk_settled assms unfolding list_all_iff by fastforce
  next
    case no: False
    with False have "ucs_decompose c = (c, 0)" unfolding ucs_decompose_def by auto
    then show ?thesis using assms settled_0 by (auto simp: settled_def)
  qed
qed

lemma put_char_settled:
  "settled c \<Longrightarrow> list_all (\<lambda>u. settled (swap_if sw u)) out \<Longrightarrow>
     list_all (\<lambda>u. settled (swap_if sw u)) (put_char a sw c out)"
  using settled_ascii [of slash] by (simp add: put_char_def slash_def)

lemma store_char_settled:
  "store_char bl a True sw c out = (r, out') \<Longrightarrow> list_all (\<lambda>u. settled (swap_if sw u)) out \<Longrightarrow>
     list_all (\<lambda>u. settled (swap_if sw u)) out'"
  using decompose_settled [of c] put_char_settled
  by (auto simp: store_char_def Let_def split: prod.splits if_splits)

lemma store_char_bound:
  assumes "store_char bl a de sw c out = (r, out')" and "even bl" and "2 * length out < bl"
  shows "2 * length out' \<le> bl"
proof -
  obtain h where "bl = 2 * h" using assms(2) by (elim evenE)
  then show ?thesis
    using assms by (auto simp: store_char_def Let_def put_char_def split: prod.splits if_splits)
qed

lemma put_ascii_settled:
  "(b :: u8) < 0x80 \<Longrightarrow> list_all (\<lambda>u. settled (swap_if sw u)) out \<Longrightarrow>
     list_all (\<lambda>u. settled (swap_if sw u)) (put_char a sw (ucast b) out)"
  by (intro put_char_settled settled_ascii)
    (simp_all add: word_less_nat_alt unsigned_ucast_eq take_bit_nat_eq_self)

section \<open>Properties\<close>

text \<open>What a complete encoding stores.\<close>

lemma encodestr_ok:
  assumes "utf8_encodestr us (2 * length us) buflen a sw nullterm = (UOk, n, bytes)"
  shows "take n bytes = concat (map enc_unit (map (\<lambda>u. alt_out a (swap_if sw u)) us))"
    and "n = length (concat (map enc_unit (map (\<lambda>u. alt_out a (swap_if sw u)) us)))"
    and "\<not> nullterm \<Longrightarrow> bytes = concat (map enc_unit (map (\<lambda>u. alt_out a (swap_if sw u)) us))"
proof -
  obtain bufend where "encodestr_loop bufend sw a us [] = (UOk, take n bytes)" "n \<le> length bytes"
    "\<not> nullterm \<Longrightarrow> n = length bytes"
    using assms by (auto simp: utf8_encodestr_def Let_def split: prod.splits if_splits)
  then show t: "take n bytes = concat (map enc_unit (map (\<lambda>u. alt_out a (swap_if sw u)) us))"
    and "n = length (concat (map enc_unit (map (\<lambda>u. alt_out a (swap_if sw u)) us)))"
    and "\<not> nullterm \<Longrightarrow> bytes = concat (map enc_unit (map (\<lambda>u. alt_out a (swap_if sw u)) us))"
    by (auto dest!: encodestr_loop_ok simp: comp_def) (metis length_concat length_take min_absorb2)
qed

lemma substitute_undone:
  assumes "a \<notin> set (map (swap_if sw) us)"
  shows "map (\<lambda>c. swap_if sw (if c = a then slash else c)) (map (\<lambda>u. alt_out a (swap_if sw u)) us) = us"
  using assms by (auto simp: alt_out_def intro!: map_idI) (metis swap_if_inverse)+

text \<open>
  C7. Round trip: a UCS-2 name that does not contain the slash substitute (with the substitute 0: no NUL) and
  that the encoder stores completely is what the decoder gives back, in the same byte order, with the same substitute
  and without decomposition, when its buffer has room for the name; the encoder's length has to fit a \<open>size_t\<close>.
\<close>

theorem utf8_roundtrip:
  assumes enc: "utf8_encodestr us (2 * length us) buflen a sw nullterm = (UOk, n, bytes)"
    and sub: "a \<notin> set (map (swap_if sw) us)" and n: "n < 2 ^ 32"
    and room: "2 * length us \<le> obuf"
  shows "utf8_decodestr bytes (of_nat n) obuf a False sw = DResult UOk us"
proof -
  let ?cs = "map (\<lambda>u. alt_out a (swap_if sw u)) us"
  note E = encodestr_ok(1,2) [OF enc]
  have bytes: "bytes = concat (map enc_unit ?cs) @ drop n bytes" using E(1) by (metis append_take_drop_id)
  show ?thesis
    unfolding utf8_decodestr_def E(2)
    by (subst bytes) (use n room E(2) decode_loop_units [of "[]" ?cs obuf a sw] substitute_undone [OF sub] in simp)
qed

text \<open>
  C8. The encoder never stores past its buffer, terminator included, unless it is asked for a
  terminator in a buffer of size 0.
\<close>

theorem utf8_encode_bounds:
  assumes "utf8_encodestr us ucslen buflen a sw nullterm = (r, n, bytes)"
    and "\<not> nullterm \<or> 0 < buflen"
  shows "length bytes \<le> buflen \<and> n = length bytes - (if nullterm then 1 else 0)"
  using assms encodestr_loop_bound [of _ sw a "take (ucslen div 2) us" "[]"]
  by (fastforce simp: utf8_encodestr_def Let_def split: prod.splits if_splits)

text \<open>C9. The decoder never stores past a buffer of an even size, whatever it reads.\<close>

theorem utf8_decode_bounds:
  assumes "utf8_decodestr m len buflen a de sw = DResult r out" and "even buflen"
  shows "2 * length out \<le> buflen"
proof (rule decode_loop_inv [where Q = "\<lambda>out. 2 * length out \<le> buflen"])
  show "decode_loop buflen a de sw m len [] = DResult r out"
    using assms(1) by (simp add: utf8_decodestr_def)
next
  fix b :: u8 and o1 :: "u16 list"
  assume "2 * length o1 < buflen"
  with assms(2) obtain h where "buflen = 2 * h" "length o1 < h" by (elim evenE) auto
  then show "2 * length (put_char a sw (ucast b) o1) \<le> buflen" by (simp add: put_char_def)
qed (use store_char_bound assms(2) in simp_all)

text \<open>
  With \<open>UTF_DECOMPOSED\<close>, every stored unit is a character that \<open>ucs_decompose\<close> leaves alone,
  also when the decoder stops with an error.
\<close>

theorem utf8_decode_decomposed:
  assumes "utf8_decodestr m len buflen a True sw = DResult r out"
  shows "list_all (\<lambda>u. settled (swap_if sw u)) out"
  using assms decode_loop_inv [where Q = "list_all (\<lambda>u. settled (swap_if sw u))" and out = "[]",
      OF put_ascii_settled store_char_settled]
  unfolding utf8_decodestr_def by simp

text \<open>
  \<open>utf8_encodelen\<close> is the number of bytes the encoder stores for a name without NUL; for a
  NUL it counts three bytes where the encoder stores two.
\<close>

theorem utf8_encodelen_exact:
  assumes "utf8_encodestr us ucslen buflen a sw nullterm = (UOk, n, bytes)"
    and "0 \<notin> set (map (swap_if sw) (take (ucslen div 2) us))"
  shows "utf8_encodelen us ucslen a sw = n \<and>
    utf8_encodelen [0] 2 a False = 3 \<and> utf8_encodestr [0] 2 9 a False False = (UOk, 2, [0xc0, 0x80])"
proof -
  have "\<forall>u \<in> set (take (ucslen div 2) us). alt_out a (swap_if sw u) \<noteq> 0"
    using assms(2) by (auto simp: alt_out_def)
  then have "utf8_encodelen us ucslen a sw =
      length (concat (map (\<lambda>u. enc_unit (alt_out a (swap_if sw u))) (take (ucslen div 2) us)))"
    by (simp add: utf8_encodelen_def encodelen_loop_sum length_concat length_enc_unit Let_def comp_def
        cong: map_cong)
  moreover have "n = length (concat (map (\<lambda>u. enc_unit (alt_out a (swap_if sw u))) (take (ucslen div 2) us)))"
    using assms(1) by (auto simp: utf8_encodestr_def Let_def dest!: encodestr_loop_ok
        split: prod.splits)
  ultimately show ?thesis
    by (simp add: utf8_encodelen_def utf8_encodestr_def encodestr_loop_step enc_unit_def Let_def
        alt_out_def swap_if_def slash_def UCS_TO_UTF_LEN_def word_less_nat_alt)
qed

text \<open>
  C10. The decoder does not stop at the length it is given when that length ends inside a character: for any
  name without the slash substitute whose encoding is cut inside the bytes of a unit, the decoder, given the
  length up to the cut, reads past memory that ends there, and in memory where the encoding goes on it decodes the
  whole name up to the next NUL, since the length counter has wrapped.
\<close>

theorem utf8_decode_overrun:
  assumes enc: "utf8_encodestr (us @ u # vs) (2 * length (us @ u # vs)) buflen a sw False = (UOk, n, bytes)"
    and before: "utf8_encodestr us (2 * length us) buflen a sw False = (UOk, n1, bytes1)"
    and after: "utf8_encodestr (us @ [u]) (2 * length (us @ [u])) buflen a sw False = (UOk, n2, bytes2)"
    and cut: "n1 < m" "m < n2" and sub: "a \<notin> set (map (swap_if sw) (us @ u # vs))"
    and n: "n + 2 < 2 ^ 32" and room: "2 * length (us @ u # vs) \<le> obuf"
  shows "utf8_decodestr (take m bytes) (of_nat m) obuf a False sw = DFault \<and>
    utf8_decodestr (bytes @ 0 # rest) (of_nat m) obuf a False sw = DResult UOk (us @ u # vs)"
proof -
  let ?e = "\<lambda>us. concat (map enc_unit (map (\<lambda>u. alt_out a (swap_if sw u)) us))" and ?c = "alt_out a (swap_if sw u)"
  let ?out = "map (\<lambda>c. swap_if sw (if c = a then slash else c)) (map (\<lambda>u. alt_out a (swap_if sw u)) us)"
  define k where "k = m - n1"
  have lens: "n1 = length (?e us)" "n2 = n1 + length (enc_unit ?c)" "n = n2 + length (?e vs)"
    and bytes: "bytes = ?e us @ enc_unit ?c @ ?e vs"
    using encodestr_ok(2) [OF before] encodestr_ok(2) [OF after] encodestr_ok(2,3) [OF enc] by simp_all
  have k: "0 < k" "k < length (enc_unit ?c)" "m = n1 + k" "length (enc_unit ?c) \<le> 3"
    using cut lens by (simp_all add: k_def enc_unit_def)
  have m: "unat (of_nat m :: u32) = n1 + k" and k32: "unat (of_nat k :: u32) = k"
    using n lens k by (simp_all add: unat_of_nat_u32 del: of_nat_add)
  have left: "of_nat m - of_nat n1 = (of_nat k :: u32)" and k0: "(of_nat k :: u32) \<noteq> 0"
    using k(1) k32 by (auto simp: k(3))
  have us: "decode_loop obuf a False sw (?e us @ w) (of_nat m) [] = decode_loop obuf a False sw w (of_nat k) ?out" for w
    using decode_loop_chars [of "[]" "map (\<lambda>u. alt_out a (swap_if sw u)) us" obuf "of_nat m" a sw w] room m left
    unfolding lens(1) by simp
  have "take m bytes = ?e us @ take k (enc_unit ?c)" using k lens(1) bytes by simp
  then have "utf8_decodestr (take m bytes) (of_nat m) obuf a False sw = DFault"
    using us decode_loop_cut [OF k(1,2) k0, of ?out obuf a sw] room by (simp add: utf8_decodestr_def)
  moreover define wrapped where "wrapped = (of_nat k - of_nat (length (enc_unit ?c)) :: u32)"
  have "unat wrapped = 2 ^ 32 - (length (enc_unit ?c) - k)"
  proof -
    have "wrapped = of_nat (2 ^ 32) - of_nat (length (enc_unit ?c) - k)" using k(2) by (simp add: wrapped_def of_nat_diff)
    also have "\<dots> = of_nat (2 ^ 32 - (length (enc_unit ?c) - k))" using k(4) by (subst of_nat_diff) simp_all
    finally have "wrapped = of_nat (2 ^ 32 - (length (enc_unit ?c) - k))" .
    moreover have "2 ^ 32 - (length (enc_unit ?c) - k) < (2 ^ 32 :: nat)" using k(2) by simp
    ultimately show ?thesis by (simp only: unat_of_nat_u32)
  qed
  then have rest: "length (?e vs) < unat wrapped" using n lens(3) k by simp
  define stop where "stop = wrapped - of_nat (length (?e vs))"
  have "stop \<noteq> 0"
  proof
    assume "stop = 0"
    then have "unat wrapped = unat (of_nat (length (?e vs)) :: u32)" by (simp add: stop_def)
    then show False using rest n lens(3) by (simp add: unat_of_nat_u32)
  qed
  then have ends: "decode_loop obuf a False sw (0 # rest') stop out = DResult UOk out" for rest' out
    by (subst decode_loop.simps) simp
  have "utf8_decodestr (bytes @ 0 # rest) (of_nat m) obuf a False sw = DResult UOk (us @ u # vs)"
    using us decode_loop_char [OF k0, of ?out obuf a sw ?c] room substitute_undone [OF sub] less_imp_le [OF rest]
      decode_loop_chars [of "put_char a sw ?c ?out" "map (\<lambda>u. alt_out a (swap_if sw u)) vs" obuf wrapped a sw] ends [unfolded stop_def]
    by (simp add: utf8_decodestr_def bytes put_char_def flip: wrapped_def)
  ultimately show ?thesis by blast
qed

text \<open>
  The overlong form \<open>C1 80\<close> is accepted for \<open>@\<close>, and without a slash substitute the form \<open>C0 80\<close> of NUL decodes
  to a slash.
\<close>

theorem utf8_decode_overlong:
  "utf8_decodestr [0xC1, 0x80, 0] 2 100 0 False False = DResult UOk [0x40] \<and>
   utf8_decodestr [0xC0, 0x80, 0] 2 100 0 False False = DResult UOk [slash]"
  by code_simp

section \<open>Witnesses\<close>

theorem utf8_roundtrip_witness:
  "utf8_decodestr [0x61, 0xC3, 0xA9, 0xE3, 0x81, 0x82, 0x3A, 0] 7 8 0x3A False False =
     DResult UOk [0x61, 0xE9, 0x3042, 0x2F]"
proof -
  have "utf8_encodestr [0x61, 0xE9, 0x3042, 0x2F] (2 * length [0x61 :: u16, 0xE9, 0x3042, 0x2F]) 20
      0x3A False True = (UOk, 7, [0x61, 0xC3, 0xA9, 0xE3, 0x81, 0x82, 0x3A, 0])"
    by code_simp
  from utf8_roundtrip [OF this, of 8] show ?thesis by (simp add: swap_if_def)
qed

theorem utf8_encode_bounds_witness:
  "length [0x61 :: u8, 0] \<le> 3 \<and> (1 :: nat) = length [0x61 :: u8, 0] - 1"
proof -
  have "utf8_encodestr [0x61, 0xE9] 4 3 0 False True = (ENAMETOOLONG, 1, [0x61, 0])" by code_simp
  from utf8_encode_bounds [OF this] show ?thesis by simp
qed

theorem utf8_decode_bounds_witness: "2 * length [0x61 :: u16] \<le> 2"
proof -
  have "utf8_decodestr [0x61, 0x62, 0] 2 2 0 False False = DResult ENAMETOOLONG [0x61]"
    by code_simp
  from utf8_decode_bounds [OF this] show ?thesis by simp
qed

theorem utf8_decode_overrun_witness:
  "utf8_decodestr [0x61, 0xE3] 2 8 0x3A False False = DFault \<and>
   utf8_decodestr [0x61, 0xE3, 0x81, 0x82, 0x62, 0, 7] 2 8 0x3A False False = DResult UOk [0x61, 0x3042, 0x62]"
proof -
  have "utf8_encodestr ([0x61] @ 0x3042 # [0x62]) (2 * length ([0x61] @ 0x3042 # [0x62 :: u16])) 9 0x3A False False =
      (UOk, 5, [0x61, 0xE3, 0x81, 0x82, 0x62])"
    and "utf8_encodestr [0x61] (2 * length [0x61 :: u16]) 9 0x3A False False = (UOk, 1, [0x61])"
    and "utf8_encodestr ([0x61] @ [0x3042]) (2 * length ([0x61] @ [0x3042 :: u16])) 9 0x3A False False =
      (UOk, 4, [0x61, 0xE3, 0x81, 0x82])"
    by code_simp+
  from utf8_decode_overrun [OF this, of 2 8 "[7]"] show ?thesis by (simp add: swap_if_def)
qed

theorem utf8_decode_decomposed_witness: "list_all (\<lambda>u. settled (swap_if False u)) [0x65, 0x301]"
proof -
  have "utf8_decodestr [0xC3, 0xA9, 0] 2 8 0 True False = DResult UOk [0x65, 0x301]" by code_simp
  from utf8_decode_decomposed [OF this] show ?thesis .
qed

theorem utf8_encodelen_exact_witness: "utf8_encodelen [0x61, 0xE9] 4 0 False = 3"
proof -
  have "utf8_encodestr [0x61, 0xE9] 4 9 0 False True = (UOk, 3, [0x61, 0xC3, 0xA9, 0])" by code_simp
  from utf8_encodelen_exact [OF this] show ?thesis by (simp add: swap_if_def)
qed

end
