(* ===== verification/Name_Map.thy ===== *)
theory Name_Map
  imports Kernel_Prelude
begin

text \<open>
  Port names (osfmk/mach/port.h) and the contract that osfmk/ipc/ipc_entry.c relies on for the
  structure holding the names that overflow a space's table: a map from names to entries
  (\<open>name_map\<close>), and the map with the neighbours of a name (\<open>ordered_name_map\<close>).
\<close>

type_synonym mach_port_name = u32

abbreviation (input) MACH_PORT_SMALLEST :: mach_port_name where "MACH_PORT_SMALLEST \<equiv> 0"
abbreviation (input) MACH_PORT_LARGEST :: mach_port_name where "MACH_PORT_LARGEST \<equiv> 0xffffffff"

text \<open>What a space expects of the structure that holds its overflowing names: a map whose lookups
  may reorganise the representation.\<close>

locale name_map =
  fixes inv :: "'s \<Rightarrow> bool"
    and content :: "'s \<Rightarrow> mach_port_name \<Rightarrow> 'e option"
    and look :: "'s \<Rightarrow> mach_port_name \<Rightarrow> 's \<times> 'e option"
    and ins :: "'s \<Rightarrow> mach_port_name \<Rightarrow> 'e \<Rightarrow> 's option"
    and del :: "'s \<Rightarrow> mach_port_name \<Rightarrow> 's option"
  assumes look_law: "inv s \<Longrightarrow> look s n = (s', r) \<Longrightarrow>
      inv s' \<and> content s' = content s \<and> r = content s n"
    and ins_law: "inv s \<Longrightarrow> content s n = None \<Longrightarrow>
      \<exists>s'. ins s n e = Some s' \<and> inv s' \<and> content s' = (content s)(n \<mapsto> e)"
    and del_law: "inv s \<Longrightarrow> content s n \<noteq> None \<Longrightarrow>
      \<exists>s'. del s n = Some s' \<and> inv s' \<and> content s' = (content s)(n := None)"
begin

lemma look_content: "inv s \<Longrightarrow> snd (look s n) = content s n"
  using look_law by (metis prod.collapse)

lemma look_keeps: "inv s \<Longrightarrow> inv (fst (look s n)) \<and> content (fst (look s n)) = content s"
  using look_law by (metis prod.collapse)

lemma look_look: "inv s \<Longrightarrow> snd (look (fst (look s m)) n) = snd (look s n)"
  using look_content look_keeps by simp

lemma insert_look:
  assumes "inv s" and "snd (look s n) = None"
  shows "\<exists>s'. ins (fst (look s n)) n e = Some s' \<and> inv s' \<and>
    snd (look s' n) = Some e \<and> (\<forall>m. m \<noteq> n \<longrightarrow> snd (look s' m) = snd (look s m))"
proof -
  have "content s n = None" "inv (fst (look s n))" "content (fst (look s n)) = content s"
    using assms look_content look_keeps by simp_all
  then show ?thesis
    using ins_law [of "fst (look s n)" n e] assms(1) look_content by fastforce
qed

lemma delete_look:
  assumes "inv s" and "snd (look s n) \<noteq> None"
  shows "\<exists>s'. del s n = Some s' \<and> inv s' \<and>
    snd (look s' n) = None \<and> (\<forall>m. m \<noteq> n \<longrightarrow> snd (look s' m) = snd (look s m))"
  using del_law [of s n] assms look_content by fastforce

lemma insert_delete:
  assumes "inv s" and "content s n = None"
  shows "\<exists>s' s''. ins s n e = Some s' \<and> del s' n = Some s'' \<and> inv s'' \<and> content s'' = content s"
proof -
  obtain s' where s': "ins s n e = Some s'" "inv s'" "content s' = (content s)(n \<mapsto> e)"
    using ins_law [OF assms] by blast
  then obtain s'' where "del s' n = Some s''" "inv s''" "content s'' = (content s')(n := None)"
    using del_law [of s' n] by auto
  moreover have "((content s)(n \<mapsto> e))(n := None) = content s"
    using assms(2) by auto
  ultimately show ?thesis
    using s' by auto
qed

end

text \<open>The ordered map adds the neighbours of a name, with the two boundary names for ``none''.\<close>

locale ordered_name_map = name_map +
  fixes bnd :: "'s \<Rightarrow> mach_port_name \<Rightarrow> 's \<times> mach_port_name \<times> mach_port_name"
  assumes bnd_law: "inv s \<Longrightarrow> bnd s n = (s', lo, hi) \<Longrightarrow>
      inv s' \<and> content s' = content s \<and>
      (if \<exists>m \<in> dom (content s). m \<le> n
       then lo \<in> dom (content s) \<and> lo \<le> n \<and> (\<forall>m \<in> dom (content s). m \<le> n \<longrightarrow> m \<le> lo)
       else lo = MACH_PORT_LARGEST) \<and>
      (if \<exists>m \<in> dom (content s). n \<le> m
       then hi \<in> dom (content s) \<and> n \<le> hi \<and> (\<forall>m \<in> dom (content s). n \<le> m \<longrightarrow> hi \<le> m)
       else hi = MACH_PORT_SMALLEST)"
begin

lemma bounds_equal:
  assumes "inv s" and "MACH_PORT_SMALLEST \<notin> dom (content s)" "MACH_PORT_LARGEST \<notin> dom (content s)"
    and "bnd s n = (s', lo, hi)"
  shows "lo = hi \<longleftrightarrow> n \<in> dom (content s)"
    and "n \<in> dom (content s) \<Longrightarrow> lo = n \<and> hi = n"
proof -
  note law = bnd_law [OF assms(1,4)]
  have ne: "(0 :: mach_port_name) \<noteq> 0xffffffff"
    by simp
  show "lo = hi \<longleftrightarrow> n \<in> dom (content s)"
  proof
    assume eq: "lo = hi"
    show "n \<in> dom (content s)"
    proof (cases "\<exists>m \<in> dom (content s). m \<le> n")
      case True
      then have lo: "lo \<in> dom (content s)" "lo \<le> n"
        using law by auto
      then have "hi \<noteq> MACH_PORT_SMALLEST"
        using eq assms(2) by blast
      then have "n \<le> hi"
        using law by metis
      then show ?thesis
        using lo eq by (metis order_antisym)
    next
      case False
      then have "hi = MACH_PORT_LARGEST"
        using law eq by auto
      then show ?thesis
        using law assms(3) ne by metis
    qed
  next
    assume "n \<in> dom (content s)"
    then show "lo = hi"
      using law by (metis order_antisym order_refl)
  qed
  show "n \<in> dom (content s) \<Longrightarrow> lo = n \<and> hi = n"
    using law by (metis order_antisym order_refl)
qed

end

end
