(* ===== verification/Ipc_Splay.thy ===== *)
theory Ipc_Splay
  imports Name_Map
begin

text \<open>
  The splay trees of osfmk/ipc/ipc_splay.c, which hold the port names of a space that do
  not fit its table.  A tree is stored unassembled: \<open>ist_root\<close> is the middle tree of the last
  top-down splay, and \<open>ist_ltree\<close> / \<open>ist_rtree\<close> are trees whose rightmost (leftmost) child field is
  a hole that \<open>ist_ltreep\<close> (\<open>ist_rtreep\<close>) points to.  The model keeps such a tree with a hole as
  its \<^emph>\<open>spine\<close>: the entries on the way from the hole up to the root, the entry whose
  field is the hole first; the empty spine is the pointer to the field of the splay structure
  itself.  Storing through the pointer is \<open>fill_left\<close> / \<open>fill_right\<close>.
\<close>

section \<open>Entries, spines and the splay structure\<close>

datatype 'e ite = is_null: ITE_NULL
  | ITE (ite_lchild: "'e ite") (ite_name: mach_port_name) (ite_entry: 'e) (ite_rchild: "'e ite")
  where
    "ite_lchild ITE_NULL = ITE_NULL"
  | "ite_name ITE_NULL = 0"
  | "ite_rchild ITE_NULL = ITE_NULL"

type_synonym 'e lspine = "('e ite \<times> mach_port_name \<times> 'e) list"
type_synonym 'e rspine = "(mach_port_name \<times> 'e \<times> 'e ite) list"

record 'e splay =
  ist_name :: mach_port_name
  ist_root :: "'e ite"
  ist_left :: "'e lspine"
  ist_right :: "'e rspine"

text \<open>\<open>*ltreep = t\<close> and \<open>*rtreep = t\<close>: the whole left (right) tree once its hole holds \<open>t\<close>.\<close>

fun fill_left :: "'e lspine \<Rightarrow> 'e ite \<Rightarrow> 'e ite" where
  "fill_left [] t = t"
| "fill_left ((l, n, e) # L) t = fill_left L (ITE l n e t)"

fun fill_right :: "'e rspine \<Rightarrow> 'e ite \<Rightarrow> 'e ite" where
  "fill_right [] t = t"
| "fill_right ((n, e, r) # R) t = fill_right R (ITE t n e r)"

section \<open>The top-down splay\<close>

text \<open>The four macros of \<open>ipc_splay_prim_lookup\<close>, on the tree and the two spines.\<close>

fun rotate_right :: "'e ite \<Rightarrow> 'e ite" where
  "rotate_right (ITE (ITE ll ln le lr) n e r) = ITE ll ln le (ITE lr n e r)"
| "rotate_right t = t"

fun rotate_left :: "'e ite \<Rightarrow> 'e ite" where
  "rotate_left (ITE l n e (ITE rl rn re rr)) = ITE (ITE l n e rl) rn re rr"
| "rotate_left t = t"

fun link_right :: "'e ite \<times> 'e lspine \<times> 'e rspine \<Rightarrow> 'e ite \<times> 'e lspine \<times> 'e rspine" where
  "link_right (ITE l n e r, L, R) = (l, L, (n, e, r) # R)"
| "link_right (ITE_NULL, L, R) = (ITE_NULL, L, R)"

fun link_left :: "'e ite \<times> 'e lspine \<times> 'e rspine \<Rightarrow> 'e ite \<times> 'e lspine \<times> 'e rspine" where
  "link_left (ITE l n e r, L, R) = (r, (l, n, e) # L, R)"
| "link_left (ITE_NULL, L, R) = (ITE_NULL, L, R)"

text \<open>One round of the loop, going left and going right.\<close>

definition descend_left ::
  "mach_port_name \<Rightarrow> 'e ite \<times> 'e lspine \<times> 'e rspine \<Rightarrow> 'e ite \<times> 'e lspine \<times> 'e rspine" where
  "descend_left name s =
     (let (tree, L, R) = s;
          lchild = ite_lchild tree;
          tname = ite_name lchild;
          tree' = (if name < tname \<and> \<not> is_null (ite_lchild lchild) then rotate_right tree else tree);
          s' = link_right (tree', L, R)
      in if tname < name \<and> \<not> is_null (ite_rchild lchild) then link_left s' else s')"

definition descend_right ::
  "mach_port_name \<Rightarrow> 'e ite \<times> 'e lspine \<times> 'e rspine \<Rightarrow> 'e ite \<times> 'e lspine \<times> 'e rspine" where
  "descend_right name s =
     (let (tree, L, R) = s;
          rchild = ite_rchild tree;
          tname = ite_name rchild;
          tree' = (if tname < name \<and> \<not> is_null (ite_rchild rchild) then rotate_left tree else tree);
          s' = link_left (tree', L, R)
      in if name < tname \<and> \<not> is_null (ite_lchild rchild) then link_right s' else s')"

lemma not_null_ITE: "\<not> is_null t \<longleftrightarrow> (\<exists>l n e r. t = ITE l n e r)"
  by (cases t) auto

lemma descend_left_ITE:
  "descend_left name (ITE (ITE ll ln le lr) n e r, L, R) =
     (if name < ln \<and> \<not> is_null ll then (ll, L, (ln, le, ITE lr n e r) # R)
      else if ln < name \<and> \<not> is_null lr then (lr, (ll, ln, le) # L, (n, e, r) # R)
      else (ITE ll ln le lr, L, (n, e, r) # R))"
  by (auto simp: descend_left_def Let_def dest: less_asym)

lemma descend_right_ITE:
  "descend_right name (ITE l n e (ITE rl rn re rr), L, R) =
     (if rn < name \<and> \<not> is_null rr then (rr, (ITE l n e rl, rn, re) # L, R)
      else if name < rn \<and> \<not> is_null rl then (rl, (l, n, e) # L, (rn, re, rr) # R)
      else (ITE rl rn re rr, (l, n, e) # L, R))"
  by (auto simp: descend_right_def Let_def dest: less_asym)

lemma descend_left_size:
  "\<not> is_null (ite_lchild (fst s)) \<Longrightarrow> size (fst (descend_left name s)) < size (fst s)"
proof (cases s)
  case (fields t L R)
  assume "\<not> is_null (ite_lchild (fst s))"
  then obtain ll ln le lr where l: "ite_lchild t = ITE ll ln le lr"
    using fields by (auto simp: not_null_ITE)
  then obtain n e r where "t = ITE (ITE ll ln le lr) n e r"
    by (cases t) auto
  then show ?thesis
    using fields by (simp add: descend_left_ITE)
qed

lemma descend_right_size:
  "\<not> is_null (ite_rchild (fst s)) \<Longrightarrow> size (fst (descend_right name s)) < size (fst s)"
proof (cases s)
  case (fields t L R)
  assume "\<not> is_null (ite_rchild (fst s))"
  then obtain rl rn re rr where "ite_rchild t = ITE rl rn re rr"
    using fields by (auto simp: not_null_ITE)
  then obtain l n e where "t = ITE l n e (ITE rl rn re rr)"
    by (cases t) auto
  then show ?thesis
    using fields by (simp add: descend_right_ITE)
qed

function prim_lookup ::
  "mach_port_name \<Rightarrow> 'e ite \<times> 'e lspine \<times> 'e rspine \<Rightarrow> 'e ite \<times> 'e lspine \<times> 'e rspine" where
  "prim_lookup name s =
     (let tree = fst s; tname = ite_name tree in
      if name = tname then s
      else if name < tname then
        (if is_null (ite_lchild tree) then s else prim_lookup name (descend_left name s))
      else
        (if is_null (ite_rchild tree) then s else prim_lookup name (descend_right name s)))"
  by pat_completeness auto
termination
  by (relation "measure (\<lambda>(name, s). size (fst s))")
     (auto simp: descend_left_size descend_right_size)

declare prim_lookup.simps [simp del]

text \<open>\<open>ipc_splay_prim_assemble\<close>: the two holes take the children of the middle tree, which becomes
  the root of the whole tree.\<close>

fun prim_assemble :: "'e ite \<Rightarrow> 'e lspine \<Rightarrow> 'e rspine \<Rightarrow> 'e ite" where
  "prim_assemble (ITE l n e r) L R = ITE (fill_left L l) n e (fill_right R r)"
| "prim_assemble ITE_NULL L R = ITE_NULL"

section \<open>The operations\<close>

text \<open>Each operation is the code's, with the spines in the place of the tree and pointer pairs.
  The lookup that most of them begin with: unless the last lookup was for the same name, the tree is
  assembled and splayed again.\<close>

definition splay_to :: "mach_port_name \<Rightarrow> 'e splay \<Rightarrow> 'e ite \<times> 'e lspine \<times> 'e rspine" where
  "splay_to name s =
     (if ist_name s \<noteq> name
      then prim_lookup name (prim_assemble (ist_root s) (ist_left s) (ist_right s), [], [])
      else (ist_root s, ist_left s, ist_right s))"

definition ipc_splay_tree_init :: "'e splay \<Rightarrow> 'e splay" where
  "ipc_splay_tree_init s = s\<lparr>ist_root := ITE_NULL\<rparr>"

definition ipc_splay_tree_pick :: "'e splay \<Rightarrow> (mach_port_name \<times> 'e) option" where
  "ipc_splay_tree_pick s =
     (case ist_root s of ITE_NULL \<Rightarrow> None | ITE l n e r \<Rightarrow> Some (n, e))"

definition ipc_splay_tree_lookup :: "'e splay \<Rightarrow> mach_port_name \<Rightarrow> 'e splay \<times> 'e option" where
  "ipc_splay_tree_lookup s name =
     (if is_null (ist_root s) then (s, None)
      else let (root, L, R) = splay_to name s in
        (\<lparr>ist_name = name, ist_root = root, ist_left = L, ist_right = R\<rparr>,
         if name \<noteq> ite_name root then None else Some (ite_entry root)))"

text \<open>The insertion's assertions: the name is not there, and the child the name would be under
  is empty.\<close>

definition ipc_splay_tree_insert :: "'e splay \<Rightarrow> mach_port_name \<Rightarrow> 'e \<Rightarrow> 'e splay option" where
  "ipc_splay_tree_insert s name entry =
     (let mk = (\<lambda>l r. Some \<lparr>ist_name = name, ist_root = ITE l name entry r,
                          ist_left = [], ist_right = []\<rparr>)
      in if is_null (ist_root s) then mk ITE_NULL ITE_NULL
         else let (root, L, R) = splay_to name s in
           if ite_name root = name then None
           else if name < ite_name root then
             (if \<not> is_null (ite_lchild root) then None
              else mk (fill_left L ITE_NULL) (fill_right R root))
           else
             (if \<not> is_null (ite_rchild root) then None
              else mk (fill_left L root) (fill_right R ITE_NULL)))"

text \<open>The deletion's assertions: the tree is not empty, the name is there, and the largest entry of
  the left tree has no right child.\<close>

definition set_rchild :: "'e ite \<Rightarrow> 'e ite \<Rightarrow> 'e ite" where
  "set_rchild t r = ITE (ite_lchild t) (ite_name t) (ite_entry t) r"

definition set_lchild :: "'e ite \<Rightarrow> 'e ite \<Rightarrow> 'e ite" where
  "set_lchild t l = ITE l (ite_name t) (ite_entry t) (ite_rchild t)"

definition largest_to_root :: "'e ite \<Rightarrow> 'e ite" where
  "largest_to_root t =
     (let (root, L, R) = prim_lookup MACH_PORT_LARGEST (t, [], []) in prim_assemble root L R)"

definition assembled :: "'e splay \<Rightarrow> 'e ite \<Rightarrow> 'e splay" where
  "assembled s root =
     (if is_null root then s\<lparr>ist_root := ITE_NULL\<rparr>
      else \<lparr>ist_name = ite_name root, ist_root = root, ist_left = [], ist_right = []\<rparr>)"

definition ipc_splay_tree_delete :: "'e splay \<Rightarrow> mach_port_name \<Rightarrow> 'e splay option" where
  "ipc_splay_tree_delete s name =
     (if is_null (ist_root s) then None
      else let (root, L, R) = splay_to name s in
        if ite_name root \<noteq> name then None
        else
          let ltree = fill_left L (ite_lchild root);
              saved = fill_right R (ite_rchild root)
          in if is_null ltree then Some (assembled s saved)
             else if is_null saved then Some (assembled s ltree)
             else
               let t = largest_to_root ltree in
               if \<not> is_null (ite_rchild t) then None
               else Some (assembled s (set_rchild t saved)))"

text \<open>\<open>ipc_splay_tree_split\<close> returns the shrunk tree and the new tree \<open>small\<close>, which is initialised
  from a raw structure.\<close>

definition ipc_splay_tree_split ::
  "'e splay \<Rightarrow> mach_port_name \<Rightarrow> 'e splay \<Rightarrow> ('e splay \<times> 'e splay) option" where
  "ipc_splay_tree_split s name raw =
     (let small = ipc_splay_tree_init raw in
      if is_null (ist_root s) then Some (s, small)
      else let (root, L, R) = splay_to name s in
        if ite_name root < name then
          (if \<not> is_null (ite_rchild root) then None
           else
             let rtree = fill_right R ITE_NULL;
                 root' = set_lchild root (fill_left L (ite_lchild root))
             in Some (assembled s rtree, assembled small root'))
        else
          let ltree = fill_left L (ite_lchild root)
          in Some (\<lparr>ist_name = name, ist_root = set_lchild root ITE_NULL,
                     ist_left = [], ist_right = R\<rparr>,
                   assembled small ltree))"

text \<open>\<open>ipc_splay_tree_join\<close> returns the grown tree and the emptied \<open>small\<close>.\<close>

definition ipc_splay_tree_join :: "'e splay \<Rightarrow> 'e splay \<Rightarrow> ('e splay \<times> 'e splay) option" where
  "ipc_splay_tree_join s small =
     (if is_null (ist_root small) then Some (s, small)
      else
        let sroot = prim_assemble (ist_root small) (ist_left small) (ist_right small);
            small' = small\<lparr>ist_root := ITE_NULL\<rparr>
        in if is_null (ist_root s) then Some (assembled s sroot, small')
           else
             let (root, L, R) = splay_to MACH_PORT_SMALLEST s;
                 root' = prim_assemble root L R
             in if \<not> is_null (ite_lchild root') \<or> \<not> ite_name sroot < ite_name root' then None
                else Some (assembled s (set_lchild root' sroot), small'))"

text \<open>\<open>ipc_splay_tree_bounds\<close> reads the neighbouring names off the entries that hold the holes.\<close>

definition ipc_splay_tree_bounds ::
  "'e splay \<Rightarrow> mach_port_name \<Rightarrow> 'e splay \<times> mach_port_name \<times> mach_port_name" where
  "ipc_splay_tree_bounds s name =
     (if is_null (ist_root s) then (s, MACH_PORT_LARGEST, MACH_PORT_SMALLEST)
      else
        let (root, L, R) = splay_to name s;
            rname = ite_name root;
            lower = (if rname \<le> name then rname
                     else case L of [] \<Rightarrow> MACH_PORT_LARGEST | (l, n, e) # _ \<Rightarrow> n);
            upper = (if name \<le> rname then rname
                     else case R of [] \<Rightarrow> MACH_PORT_SMALLEST | (n, e, r) # _ \<Rightarrow> n)
        in (\<lparr>ist_name = name, ist_root = root, ist_left = L, ist_right = R\<rparr>, lower, upper))"

end
