(* ===== verification/Ipc_Splay_Map.thy ===== *)
theory Ipc_Splay_Map
  imports Ipc_Splay
begin

text \<open>
  The splay tree as an ordered map: the entries in the order of their names, the invariant of
  the unassembled form, the effect of every operation of Ipc_Splay on the entries, and the
  interpretation of the name-map contracts.
\<close>

section \<open>What a tree holds\<close>

text \<open>The entries from the smallest name to the largest, of a tree, of the spines and of the
  structure.\<close>

fun ite_entries :: "'e ite \<Rightarrow> (mach_port_name \<times> 'e) list" where
  "ite_entries ITE_NULL = []"
| "ite_entries (ITE l n e r) = ite_entries l @ (n, e) # ite_entries r"

fun left_entries :: "'e lspine \<Rightarrow> (mach_port_name \<times> 'e) list" where
  "left_entries [] = []"
| "left_entries ((l, n, e) # L) = left_entries L @ ite_entries l @ [(n, e)]"

fun right_entries :: "'e rspine \<Rightarrow> (mach_port_name \<times> 'e) list" where
  "right_entries [] = []"
| "right_entries ((n, e, r) # R) = (n, e) # ite_entries r @ right_entries R"

fun parts_entries :: "'e ite \<times> 'e lspine \<times> 'e rspine \<Rightarrow> (mach_port_name \<times> 'e) list" where
  "parts_entries (t, L, R) = left_entries L @ ite_entries t @ right_entries R"

definition splay_entries :: "'e splay \<Rightarrow> (mach_port_name \<times> 'e) list" where
  "splay_entries s =
     (if is_null (ist_root s) then []
      else parts_entries (ist_root s, ist_left s, ist_right s))"

abbreviation ascending :: "(mach_port_name \<times> 'e) list \<Rightarrow> bool" where
  "ascending xs \<equiv> sorted_wrt (<) (map fst xs)"

text \<open>\<open>parts_at name\<close>: the three trees are what a lookup of \<open>name\<close> leaves.\<close>

fun parts_at :: "mach_port_name \<Rightarrow> 'e ite \<times> 'e lspine \<times> 'e rspine \<Rightarrow> bool" where
  "parts_at name (t, L, R) \<longleftrightarrow>
     (\<forall>n \<in> fst ` set (left_entries L). n < name) \<and>
     (\<forall>n \<in> fst ` set (right_entries R). name < n)"

definition at_end :: "mach_port_name \<Rightarrow> 'e ite \<Rightarrow> bool" where
  "at_end name t \<longleftrightarrow>
     \<not> is_null t \<and> (name < ite_name t \<longrightarrow> is_null (ite_lchild t)) \<and>
     (ite_name t < name \<longrightarrow> is_null (ite_rchild t))"

definition splay_ok :: "'e splay \<Rightarrow> bool" where
  "splay_ok s \<longleftrightarrow>
     is_null (ist_root s) \<or>
     (ascending (splay_entries s) \<and> at_end (ist_name s) (ist_root s) \<and>
      parts_at (ist_name s) (ist_root s, ist_left s, ist_right s))"

lemma is_null_entries: "is_null t \<longleftrightarrow> ite_entries t = []"
  by (cases t) auto

lemma fill_left_entries [simp]: "ite_entries (fill_left L t) = left_entries L @ ite_entries t"
  by (induction L t rule: fill_left.induct) auto

lemma fill_right_entries [simp]: "ite_entries (fill_right R t) = ite_entries t @ right_entries R"
  by (induction R t rule: fill_right.induct) auto

lemma prim_assemble_entries:
  "\<not> is_null t \<Longrightarrow> ite_entries (prim_assemble t L R) = parts_entries (t, L, R)"
  by (cases t) auto

lemma prim_assemble_null [simp]: "is_null (prim_assemble t L R) = is_null t"
  by (cases t) auto

lemma descend_left_entries:
  "\<not> is_null (ite_lchild (fst s)) \<Longrightarrow> parts_entries (descend_left name s) = parts_entries s"
  by (cases s; cases "fst s") (auto simp: not_null_ITE descend_left_ITE)

lemma descend_right_entries:
  "\<not> is_null (ite_rchild (fst s)) \<Longrightarrow> parts_entries (descend_right name s) = parts_entries s"
  by (cases s; cases "fst s") (auto simp: not_null_ITE descend_right_ITE)

lemma prim_lookup_entries [simp]: "parts_entries (prim_lookup name s) = parts_entries s"
proof (induction name s rule: prim_lookup.induct)
  case (1 name s)
  then show ?case
    by (subst prim_lookup.simps)
       (auto simp: Let_def descend_left_entries descend_right_entries simp del: parts_entries.simps)
qed

lemma prim_lookup_not_null:
  "\<not> is_null (fst s) \<Longrightarrow> at_end name (fst (prim_lookup name s))"
proof (induction name s rule: prim_lookup.induct)
  case (1 name s)
  have "\<not> is_null (fst (descend_left name s))" if "\<not> is_null (ite_lchild (fst s))"
    using that by (cases s; cases "fst s") (auto simp: not_null_ITE descend_left_ITE)
  moreover have "\<not> is_null (fst (descend_right name s))" if "\<not> is_null (ite_rchild (fst s))"
    using that by (cases s; cases "fst s") (auto simp: not_null_ITE descend_right_ITE)
  ultimately show ?case
    using 1 by (subst prim_lookup.simps) (auto simp: Let_def at_end_def)
qed

lemma left_shape:
  assumes "\<not> is_null (ite_lchild (fst s))"
  obtains ll ln le lr n e r L R where "s = (ITE (ITE ll ln le lr) n e r, L, R)"
  using assms by (cases s; cases "fst s") (auto simp: not_null_ITE)

lemma right_shape:
  assumes "\<not> is_null (ite_rchild (fst s))"
  obtains l n e rl rn re rr L R where "s = (ITE l n e (ITE rl rn re rr), L, R)"
  using assms by (cases s; cases "fst s") (auto simp: not_null_ITE)

lemma ascending_mid:
  "ascending (xs @ (n, e) # ys) \<longleftrightarrow>
     ascending xs \<and> ascending ys \<and> (\<forall>m \<in> fst ` set xs. m < n) \<and> (\<forall>m \<in> fst ` set ys. n < m)"
  by (auto simp: sorted_wrt_append intro: less_trans)

lemma below_trans: "(\<forall>m \<in> A. m < (n :: mach_port_name)) \<Longrightarrow> n < k \<Longrightarrow> \<forall>m \<in> A. m < k"
  by (meson less_trans)

lemma above_trans: "(\<forall>m \<in> A. (n :: mach_port_name) < m) \<Longrightarrow> k < n \<Longrightarrow> \<forall>m \<in> A. k < m"
  by (meson less_trans)

lemma descend_left_at:
  assumes "ascending (parts_entries s)" and "parts_at name s"
    and "\<not> is_null (ite_lchild (fst s))" and "name < ite_name (fst s)"
  shows "parts_at name (descend_left name s)"
  using assms(3)
proof (rule left_shape)
  fix ll ln le lr n e r L R
  assume s: "s = (ITE (ITE ll ln le lr) n e r, L, R)"
  have asc: "ascending (ite_entries ll @ (ln, le) # ite_entries lr @ (n, e) # ite_entries r)"
    using assms(1) s by (simp add: sorted_wrt_append ball_Un)
  then have "\<forall>m \<in> fst ` set (ite_entries r). n < m" "\<forall>m \<in> fst ` set (ite_entries ll). m < ln"
    "\<forall>m \<in> fst ` set (ite_entries lr). ln < m"
    by (simp_all add: sorted_wrt_append ball_Un)
  note ord = above_trans [OF this(1) , of name] below_trans [OF this(2), of name]
    above_trans [OF this(3), of name]
  have nn: "name < n"
    using assms(4) s by simp
  from s assms(2) nn ord(1) [OF nn] ord(2,3) show ?thesis
    by (simp add: descend_left_ITE ball_Un)
qed

lemma descend_right_at:
  assumes "ascending (parts_entries s)" and "parts_at name s"
    and "\<not> is_null (ite_rchild (fst s))" and "ite_name (fst s) < name"
  shows "parts_at name (descend_right name s)"
  using assms(3)
proof (rule right_shape)
  fix l n e rl rn re rr L R
  assume s: "s = (ITE l n e (ITE rl rn re rr), L, R)"
  have asc: "ascending (ite_entries l @ (n, e) # ite_entries rl @ (rn, re) # ite_entries rr)"
    using assms(1) s by (simp add: sorted_wrt_append ball_Un)
  then have "\<forall>m \<in> fst ` set (ite_entries l). m < n" "\<forall>m \<in> fst ` set (ite_entries rl). m < rn"
    "\<forall>m \<in> fst ` set (ite_entries rr). rn < m"
    by (simp_all add: sorted_wrt_append ball_Un)
  note ord = below_trans [OF this(1) , of name] below_trans [OF this(2), of name]
    above_trans [OF this(3), of name]
  have nn: "n < name"
    using assms(4) s by simp
  from s assms(2) nn ord(1) [OF nn] ord(2,3) show ?thesis
    by (simp add: descend_right_ITE ball_Un)
qed

lemma prim_lookup_at:
  "ascending (parts_entries s) \<Longrightarrow> parts_at name s \<Longrightarrow> parts_at name (prim_lookup name s)"
proof (induction name s rule: prim_lookup.induct)
  case (1 name s)
  then show ?case
    by (subst prim_lookup.simps)
       (auto simp: Let_def descend_left_entries descend_right_entries descend_left_at
          descend_right_at simp del: parts_entries.simps parts_at.simps)
qed

section \<open>What each operation does to the entries\<close>

text \<open>The parts of an ascending list on either side of a name.\<close>

definition below :: "mach_port_name \<Rightarrow> (mach_port_name \<times> 'e) list \<Rightarrow> (mach_port_name \<times> 'e) list"
  where "below name xs = filter (\<lambda>p. fst p < name) xs"

definition above :: "mach_port_name \<Rightarrow> (mach_port_name \<times> 'e) list \<Rightarrow> (mach_port_name \<times> 'e) list"
  where "above name xs = filter (\<lambda>p. name < fst p) xs"

lemma below_append [simp]: "below name (xs @ ys) = below name xs @ below name ys"
  by (simp add: below_def)

lemma above_append [simp]: "above name (xs @ ys) = above name xs @ above name ys"
  by (simp add: above_def)

lemma below_Cons: "below name (p # xs) = (if fst p < name then p # below name xs else below name xs)"
  by (simp add: below_def)

lemma above_Cons: "above name (p # xs) = (if name < fst p then p # above name xs else above name xs)"
  by (simp add: above_def)

lemma below_Nil [simp]: "below name [] = []"
  by (simp add: below_def)

lemma above_Nil [simp]: "above name [] = []"
  by (simp add: above_def)

lemma below_all: "(\<forall>m \<in> fst ` set xs. m < name) \<Longrightarrow> below name xs = xs \<and> above name xs = []"
  by (auto simp: below_def above_def filter_id_conv filter_empty_conv dest: less_asym)

lemma above_all: "(\<forall>m \<in> fst ` set xs. name < m) \<Longrightarrow> above name xs = xs \<and> below name xs = []"
  by (auto simp: below_def above_def filter_id_conv filter_empty_conv dest: less_asym)

lemma map_of_split:
  assumes "ascending xs"
  shows "map_of xs k =
     (if k < name then map_of (below name xs) k
      else if k = name then map_of xs name else map_of (above name xs) k)"
  using assms by (induction xs) (auto simp: below_Cons above_Cons)

lemma splay_to_spec:
  assumes "splay_ok s" and "\<not> is_null (ist_root s)"
  obtains l n e r L R where "splay_to name s = (ITE l n e r, L, R)"
    and "splay_entries s = parts_entries (ITE l n e r, L, R)"
    and "ascending (parts_entries (ITE l n e r, L, R))"
    and "at_end name (ITE l n e r)" and "parts_at name (ITE l n e r, L, R)"
proof -
  obtain t L R where t: "splay_to name s = (t, L, R)"
    by (cases "splay_to name s") auto
  have asc: "ascending (splay_entries s)"
    using assms by (auto simp: splay_ok_def)
  have "parts_entries (t, L, R) = splay_entries s \<and> at_end name t \<and> parts_at name (t, L, R)"
  proof (cases "ist_name s = name")
    case True
    then show ?thesis
      using t assms by (auto simp: splay_to_def splay_ok_def splay_entries_def simp del: parts_at.simps)
  next
    case False
    let ?a = "(prim_assemble (ist_root s) (ist_left s) (ist_right s), [], [])"
    have "parts_entries ?a = splay_entries s"
      using assms(2) by (simp add: prim_assemble_entries splay_entries_def)
    then show ?thesis
      using t False assms(2) prim_lookup_entries [of name ?a] prim_lookup_not_null [of ?a name]
        prim_lookup_at [of ?a name] asc
      by (simp add: splay_to_def del: parts_entries.simps)
  qed
  moreover from this obtain l n e r where "t = ITE l n e r"
    by (auto simp: at_end_def not_null_ITE)
  ultimately show thesis
    using that t asc by metis
qed

text \<open>Where the name is, or would be: the shape of the parts in the three cases.\<close>

lemma parts_cases:
  assumes "ascending (parts_entries (ITE l n e r, L, R))" and "at_end name (ITE l n e r)"
    and "parts_at name (ITE l n e r, L, R)"
  shows "n = name \<Longrightarrow>
      below name (parts_entries (ITE l n e r, L, R)) = left_entries L @ ite_entries l \<and>
      above name (parts_entries (ITE l n e r, L, R)) = ite_entries r @ right_entries R"
    and "n < name \<Longrightarrow> r = ITE_NULL \<and>
      below name (parts_entries (ITE l n e r, L, R)) = left_entries L @ ite_entries l @ [(n, e)] \<and>
      above name (parts_entries (ITE l n e r, L, R)) = right_entries R"
    and "name < n \<Longrightarrow> l = ITE_NULL \<and>
      below name (parts_entries (ITE l n e r, L, R)) = left_entries L \<and>
      above name (parts_entries (ITE l n e r, L, R)) = (n, e) # ite_entries r @ right_entries R"
proof -
  have l: "\<forall>m \<in> fst ` set (ite_entries l). m < n" and r: "\<forall>m \<in> fst ` set (ite_entries r). n < m"
    using assms(1) by (simp_all add: sorted_wrt_append ball_Un)
  have L: "\<forall>m \<in> fst ` set (left_entries L). m < name"
    and R: "\<forall>m \<in> fst ` set (right_entries R). name < m"
    using assms(3) by simp_all
  note LR = below_all [OF L] above_all [OF R]
  have end_r: "n < name \<Longrightarrow> r = ITE_NULL" and end_l: "name < n \<Longrightarrow> l = ITE_NULL"
    using assms(2) by (auto simp: at_end_def is_null_def)
  show "n = name \<Longrightarrow>
      below name (parts_entries (ITE l n e r, L, R)) = left_entries L @ ite_entries l \<and>
      above name (parts_entries (ITE l n e r, L, R)) = ite_entries r @ right_entries R"
    using below_all [OF l] above_all [OF r] LR by (simp add: below_Cons above_Cons)
  show "r = ITE_NULL \<and>
      below name (parts_entries (ITE l n e r, L, R)) = left_entries L @ ite_entries l @ [(n, e)] \<and>
      above name (parts_entries (ITE l n e r, L, R)) = right_entries R" if "n < name"
  proof -
    have "\<forall>m \<in> fst ` set (ite_entries l). m < name"
      using l that by (rule below_trans)
    then have "below name (ite_entries l) = ite_entries l \<and> above name (ite_entries l) = []"
      by (rule below_all)
    then show ?thesis
      using LR end_r that less_not_sym [OF that] by (simp add: below_Cons above_Cons)
  qed
  show "l = ITE_NULL \<and>
      below name (parts_entries (ITE l n e r, L, R)) = left_entries L \<and>
      above name (parts_entries (ITE l n e r, L, R)) = (n, e) # ite_entries r @ right_entries R"
    if "name < n"
  proof -
    have "\<forall>m \<in> fst ` set (ite_entries r). name < m"
      using r that by (rule above_trans)
    then have "above name (ite_entries r) = ite_entries r \<and> below name (ite_entries r) = []"
      by (rule above_all)
    then show ?thesis
      using LR end_l that less_not_sym [OF that] by (simp add: below_Cons above_Cons)
  qed
qed

lemma below_above_ascending:
  assumes "ascending xs"
  shows "ascending (below name xs @ above name xs)"
    and "ascending (below name xs @ (name, e) # above name xs)"
proof -
  have "ascending (below name xs)" "ascending (above name xs)"
    using assms by (simp_all add: below_def above_def sorted_wrt_map sorted_wrt_filter)
  moreover have "\<forall>m \<in> fst ` set (below name xs). m < name" "\<forall>m \<in> fst ` set (above name xs). name < m"
    by (auto simp: below_def above_def)
  ultimately show "ascending (below name xs @ (name, e) # above name xs)"
    by (simp only: ascending_mid simp_thms)
  then show "ascending (below name xs @ above name xs)"
    by (simp add: sorted_wrt_append)
qed

lemma map_of_below_above [simp]:
  "map_of (below name xs) name = None" "map_of (above name xs) name = None"
  by (auto simp: below_def above_def map_of_eq_None_iff)

lemma map_of_mid: "map_of (below name xs @ (name, e) # ys) name = Some e"
  by (simp add: map_add_def)

text \<open>What a splay to a name leaves of a well-formed tree, in terms of its entries.\<close>

lemma splay_to_cases:
  assumes "splay_ok s" and "\<not> is_null (ist_root s)"
  obtains l n e r L R where "splay_to name s = (ITE l n e r, L, R)"
    and "splay_ok \<lparr>ist_name = name, ist_root = ITE l n e r, ist_left = L, ist_right = R\<rparr>"
    and "splay_entries s = parts_entries (ITE l n e r, L, R)"
    and "map_of (splay_entries s) name = (if n = name then Some e else None)"
    and "n = name \<Longrightarrow> below name (splay_entries s) = left_entries L @ ite_entries l \<and>
      above name (splay_entries s) = ite_entries r @ right_entries R"
    and "n < name \<Longrightarrow> r = ITE_NULL \<and>
      below name (splay_entries s) = left_entries L @ ite_entries l @ [(n, e)] \<and>
      above name (splay_entries s) = right_entries R"
    and "name < n \<Longrightarrow> l = ITE_NULL \<and> below name (splay_entries s) = left_entries L \<and>
      above name (splay_entries s) = (n, e) # ite_entries r @ right_entries R"
proof -
  obtain l n e r L R where p: "splay_to name s = (ITE l n e r, L, R)"
    "splay_entries s = parts_entries (ITE l n e r, L, R)"
    "ascending (parts_entries (ITE l n e r, L, R))" "at_end name (ITE l n e r)"
    "parts_at name (ITE l n e r, L, R)"
    using splay_to_spec [OF assms] by metis
  define es where "es = splay_entries s"
  note c = parts_cases [OF p(3,4,5), folded p(2), folded es_def]
  have es_parts: "left_entries L @ ite_entries l @ (n, e) # ite_entries r @ right_entries R = es"
    using p(2) es_def by simp
  have "map_of es name = (if n = name then Some e else None)"
  proof (cases n name rule: linorder_cases)
    case less
    then have "below name es @ above name es = es"
      using c(2) [OF less] es_parts by simp
    then have "map_of es name = None"
      by (metis map_add_None map_of_append map_of_below_above)
    then show ?thesis
      using less by simp
  next
    case equal
    then have "below name es @ (name, e) # above name es = es"
      using c(1) [OF equal] es_parts by simp
    then have "map_of es name = Some e"
      using map_of_mid [of name es e "above name es"] by simp
    then show ?thesis
      using equal by simp
  next
    case greater
    then have "below name es @ above name es = es"
      using c(3) [OF greater] es_parts by simp
    then have "map_of es name = None"
      by (metis map_add_None map_of_append map_of_below_above)
    then show ?thesis
      using greater by simp
  qed
  moreover have "splay_ok \<lparr>ist_name = name, ist_root = ITE l n e r, ist_left = L, ist_right = R\<rparr>"
    using p(3,4,5) by (simp add: splay_ok_def splay_entries_def)
  ultimately show thesis
    using that [OF p(1) _ p(2)] c unfolding es_def by blast
qed

lemma splay_ok_ascending: "splay_ok s \<Longrightarrow> ascending (splay_entries s)"
  by (auto simp: splay_ok_def splay_entries_def)

lemma assembled_entries [simp]: "splay_entries (assembled s t) = ite_entries t"
  by (cases t) (simp_all add: assembled_def splay_entries_def)

lemma assembled_ok: "ascending (ite_entries t) \<Longrightarrow> splay_ok (assembled s t)"
  by (cases t) (simp_all add: assembled_def splay_ok_def splay_entries_def at_end_def)

lemma lookup_spec:
  assumes "splay_ok s" and "ipc_splay_tree_lookup s name = (s', res)"
  shows "splay_ok s'" and "splay_entries s' = splay_entries s"
    and "res = map_of (splay_entries s) name"
proof -
  have "splay_ok s' \<and> splay_entries s' = splay_entries s \<and> res = map_of (splay_entries s) name"
  proof (cases "is_null (ist_root s)")
    case True
    then show ?thesis
      using assms by (simp add: ipc_splay_tree_lookup_def splay_entries_def)
  next
    case False
    with assms(1) show ?thesis
    proof (cases rule: splay_to_cases [where name = name])
      case (1 l n e r L R)
      then have "s' = \<lparr>ist_name = name, ist_root = ITE l n e r, ist_left = L, ist_right = R\<rparr>"
        and "res = map_of (splay_entries s) name"
        using assms(2) False by (auto simp: ipc_splay_tree_lookup_def)
      then show ?thesis
        using 1(2,3) by (simp add: splay_entries_def)
    qed
  qed
  then show "splay_ok s'" and "splay_entries s' = splay_entries s"
    and "res = map_of (splay_entries s) name"
    by simp_all
qed

text \<open>A structure whose tree is assembled around a new root.\<close>

lemma single_root_ok:
  assumes "ite_entries l = below name es" and "ite_entries r = above name es" and "ascending es"
  shows "splay_ok \<lparr>ist_name = name, ist_root = ITE l name e r, ist_left = [], ist_right = []\<rparr>"
  using assms below_above_ascending(2) [of es name e]
  by (simp add: splay_ok_def splay_entries_def at_end_def)

lemma insert_spec:
  assumes "splay_ok s" and "map_of (splay_entries s) name = None"
  obtains s' where "ipc_splay_tree_insert s name entry = Some s'" and "splay_ok s'"
    and "splay_entries s' =
      below name (splay_entries s) @ (name, entry) # above name (splay_entries s)"
proof -
  let ?es = "splay_entries s"
  have "\<exists>lt rt. ipc_splay_tree_insert s name entry =
      Some \<lparr>ist_name = name, ist_root = ITE lt name entry rt, ist_left = [], ist_right = []\<rparr> \<and>
      ite_entries lt = below name ?es \<and> ite_entries rt = above name ?es"
  proof (cases "is_null (ist_root s)")
    case True
    then show ?thesis
      by (auto simp: ipc_splay_tree_insert_def splay_entries_def)
  next
    case False
    with assms(1) show ?thesis
    proof (cases rule: splay_to_cases [where name = name])
      case (1 l n e r L R)
      then have "n \<noteq> name"
        using assms(2) by auto
      then consider "n < name" | "name < n"
        using linorder_less_linear by blast
      then show ?thesis
      proof cases
        case a: 1
        then show ?thesis
          using 1(1) 1(6) [OF a] False less_not_sym [OF a]
          by (auto simp: ipc_splay_tree_insert_def Let_def)
      next
        case b: 2
        then show ?thesis
          using 1(1) 1(7) [OF b] False less_not_sym [OF b]
          by (auto simp: ipc_splay_tree_insert_def Let_def)
      qed
    qed
  qed
  then obtain lt rt where i: "ipc_splay_tree_insert s name entry =
      Some \<lparr>ist_name = name, ist_root = ITE lt name entry rt, ist_left = [], ist_right = []\<rparr>"
    and "ite_entries lt = below name ?es" "ite_entries rt = above name ?es"
    by blast
  then show thesis
    using that [OF i] single_root_ok [of lt name ?es rt entry] splay_ok_ascending [OF assms(1)]
    by (simp add: splay_entries_def)
qed

lemma no_larger [simp]: "\<not> MACH_PORT_LARGEST < n"
proof -
  have "MACH_PORT_LARGEST = - 1"
    by simp
  then show ?thesis
    using word_order.extremum [of n] by (simp only: not_less)
qed

lemma largest_to_root_spec:
  assumes "ascending (ite_entries t)" and "\<not> is_null t"
  shows "is_null (ite_rchild (largest_to_root t))"
    and "ite_entries (largest_to_root t) = ite_entries t"
    and "\<not> is_null (largest_to_root t)"
proof -
  let ?p = "(t, [], [])"
  obtain u L R where u: "prim_lookup MACH_PORT_LARGEST ?p = (u, L, R)"
    by (cases "prim_lookup MACH_PORT_LARGEST ?p") auto
  have ok: "at_end MACH_PORT_LARGEST u" and at: "parts_at MACH_PORT_LARGEST (u, L, R)"
    and es: "parts_entries (u, L, R) = ite_entries t"
    using assms u prim_lookup_not_null [of ?p MACH_PORT_LARGEST] prim_lookup_at [of ?p MACH_PORT_LARGEST]
      prim_lookup_entries [of MACH_PORT_LARGEST ?p] by simp_all
  have R: "right_entries R = []"
    using at by (cases "right_entries R") auto
  obtain l n e r where n: "u = ITE l n e r"
    using ok by (auto simp: at_end_def not_null_ITE)
  have "is_null r"
  proof (cases "n < MACH_PORT_LARGEST")
    case True
    then show ?thesis
      using ok n by (simp add: at_end_def)
  next
    case False
    have "\<forall>m \<in> fst ` set (ite_entries r). n < m"
      using assms(1) es n by (simp add: sorted_wrt_append flip: es)
    then show ?thesis
      using False no_larger above_trans [of _ n] by (cases r) (auto simp: not_less dest: le_less_trans)
  qed
  then show "is_null (ite_rchild (largest_to_root t))"
    using R by (simp add: largest_to_root_def u n is_null_entries)
  show "ite_entries (largest_to_root t) = ite_entries t"
    using es by (simp add: largest_to_root_def u n)
  show "\<not> is_null (largest_to_root t)"
    by (simp add: largest_to_root_def u n)
qed

lemma set_rchild_entries [simp]:
  "\<not> is_null t \<Longrightarrow> is_null (ite_rchild t) \<Longrightarrow> ite_entries (set_rchild t r) = ite_entries t @ ite_entries r"
  by (cases t) (simp_all add: set_rchild_def is_null_def)

lemma set_lchild_entries [simp]:
  "\<not> is_null t \<Longrightarrow> is_null (ite_lchild t) \<Longrightarrow> ite_entries (set_lchild t l) = ite_entries l @ ite_entries t"
  by (cases t) (simp_all add: set_lchild_def is_null_def)

lemma delete_spec:
  assumes "splay_ok s" and "map_of (splay_entries s) name \<noteq> None"
  obtains s' where "ipc_splay_tree_delete s name = Some s'" and "splay_ok s'"
    and "splay_entries s' = below name (splay_entries s) @ above name (splay_entries s)"
proof -
  let ?es = "splay_entries s"
  have nn: "\<not> is_null (ist_root s)"
    using assms(2) by (auto simp: splay_entries_def)
  have asc: "ascending (below name ?es @ above name ?es)"
    using below_above_ascending(1) splay_ok_ascending [OF assms(1)] .
  have "\<exists>t. ipc_splay_tree_delete s name = Some (assembled s t) \<and>
      ite_entries t = below name ?es @ above name ?es"
    using assms(1) nn
  proof (cases rule: splay_to_cases [where name = name])
    case (1 l n e r L R)
    then have n: "n = name"
      using assms(2) by (auto split: if_splits)
    let ?lt = "fill_left L l" and ?rt = "fill_right R r"
    have lt: "ite_entries ?lt = below name ?es" and rt: "ite_entries ?rt = above name ?es"
      using 1(5) [OF n] by simp_all
    have "ascending (ite_entries ?lt)"
      using asc lt by (simp add: sorted_wrt_append del: fill_left_entries)
    note big = largest_to_root_spec [OF this]
    have del: "ipc_splay_tree_delete s name =
       (if is_null ?lt then Some (assembled s ?rt)
        else if is_null ?rt then Some (assembled s ?lt)
        else Some (assembled s (set_rchild (largest_to_root ?lt) ?rt)))"
      using nn n big(1) by (simp add: ipc_splay_tree_delete_def 1(1) Let_def)
    show ?thesis
      using lt rt big unfolding del
      by (auto simp: is_null_entries simp del: fill_left_entries fill_right_entries)
  qed
  then obtain t where "ipc_splay_tree_delete s name = Some (assembled s t)"
    and "ite_entries t = below name ?es @ above name ?es"
    by blast
  then show thesis
    using that assembled_ok [of t s] asc by simp
qed

lemma entries_split_at:
  assumes "ascending es"
  shows "below name es @ (case map_of es name of None \<Rightarrow> [] | Some e \<Rightarrow> [(name, e)]) @ above name es = es"
  using assms
proof (induction es)
  case (Cons p es)
  obtain m e where p: "p = (m, e)"
    by fastforce
  have gt: "\<forall>k \<in> fst ` set es. m < k" and asc: "ascending es"
    using Cons.prems p by simp_all
  show ?case
  proof (cases m name rule: linorder_cases)
    case less
    then show ?thesis
      using Cons.IH [OF asc] p less less_imp_neq [OF less] less_not_sym [OF less] by (simp add: below_Cons above_Cons)
  next
    case equal
    then have "above name es = es \<and> below name es = []"
      using above_all gt by simp
    then show ?thesis
      using p equal by (simp add: below_Cons above_Cons)
  next
    case greater
    then have "\<forall>k \<in> fst ` set es. name < k"
      using gt above_trans by blast
    then have "above name es = es \<and> below name es = []" and "map_of es name = None"
      using above_all by (auto simp: map_of_eq_None_iff)
    then show ?thesis
      using p greater less_not_sym [OF greater] by (simp add: below_Cons above_Cons)
  qed
qed simp

lemma split_spec:
  assumes "splay_ok s"
  obtains s' small where "ipc_splay_tree_split s name raw = Some (s', small)"
    and "splay_ok s'" and "splay_ok small"
    and "splay_entries small = below name (splay_entries s)"
    and "splay_entries small @ splay_entries s' = splay_entries s"
proof (cases "is_null (ist_root s)")
  case True
  then show thesis
    using assms
    by (intro that [of s "ipc_splay_tree_init raw"])
       (simp_all add: ipc_splay_tree_split_def ipc_splay_tree_init_def splay_ok_def splay_entries_def)
next
  case nn: False
  let ?es = "splay_entries s"
  note asc = splay_ok_ascending [OF assms]
  note es = entries_split_at [OF asc, of name]
  have ascs: "ascending (below name ?es)" "ascending (above name ?es)"
    using below_above_ascending(1) [OF asc, of name] by (simp_all add: sorted_wrt_append)
  from assms nn show thesis
  proof (cases rule: splay_to_cases [where name = name])
    case (1 l n e r L R)
    show thesis
    proof (cases "n < name")
      case True
      let ?root = "set_lchild (ITE l n e r) (fill_left L l)"
      have root: "ite_entries ?root = below name ?es"
        using 1(6) [OF True] by (simp add: set_lchild_def)
      have rest: "right_entries R = above name ?es" "map_of ?es name = None"
        using 1(6) [OF True] 1(4) True by auto
      show thesis
        using True nn 1(1) 1(6) [OF True] es ascs rest
        by (intro that [of "assembled s (fill_right R ITE_NULL)"
              "assembled (ipc_splay_tree_init raw) ?root"])
           (simp_all add: ipc_splay_tree_split_def Let_def assembled_ok set_lchild_def)
    next
      case False
      let ?root = "set_lchild (ITE l n e r) ITE_NULL"
      let ?s = "\<lparr>ist_name = name, ist_root = ?root, ist_left = [], ist_right = R\<rparr>"
      have parts: "below name ?es = left_entries L @ ite_entries l"
        and tail: "splay_entries ?s = (case map_of ?es name of None \<Rightarrow> [] | Some e \<Rightarrow> [(name, e)]) @ above name ?es"
        using False 1(4,5,7) by (cases "n = name"; simp add: set_lchild_def splay_entries_def)+
      have "ascending (splay_entries ?s)"
        using asc es tail by (metis sorted_wrt_append map_append)
      moreover have "at_end name ?root \<and> parts_at name (?root, [], R)"
        using 1(2) False by (auto simp: splay_ok_def at_end_def set_lchild_def)
      ultimately have "splay_ok ?s"
        by (simp add: splay_ok_def)
      then show thesis
        using False nn 1(1) es tail ascs parts
        by (intro that [of ?s "assembled (ipc_splay_tree_init raw) (fill_left L l)"])
           (simp_all add: ipc_splay_tree_split_def Let_def assembled_ok)
    qed
  qed
qed

lemma root_entry_mem: "\<not> is_null t \<Longrightarrow> ite_name t \<in> fst ` set (ite_entries t)"
  by (cases t) auto

lemma join_spec:
  assumes "splay_ok s" and "splay_ok small"
    and "ascending (splay_entries small @ splay_entries s)"
  obtains s' small' where "ipc_splay_tree_join s small = Some (s', small')"
    and "splay_ok s'" and "splay_entries s' = splay_entries small @ splay_entries s"
    and "splay_entries small' = []"
proof (cases "is_null (ist_root small)")
  case True
  then show thesis
    using assms by (intro that [of s small]) (simp_all add: ipc_splay_tree_join_def splay_entries_def)
next
  case nn: False
  let ?sroot = "prim_assemble (ist_root small) (ist_left small) (ist_right small)"
  have sroot: "ite_entries ?sroot = splay_entries small" "\<not> is_null ?sroot"
    using nn by (simp_all add: prim_assemble_entries splay_entries_def)
  have gone: "splay_entries (small\<lparr>ist_root := ITE_NULL\<rparr>) = []"
    by (simp add: splay_entries_def)
  have "\<exists>t. ipc_splay_tree_join s small = Some (assembled s t, small\<lparr>ist_root := ITE_NULL\<rparr>) \<and>
      ite_entries t = splay_entries small @ splay_entries s"
  proof (cases "is_null (ist_root s)")
    case True
    then show ?thesis
      using nn sroot by (intro exI [of _ ?sroot])
        (simp add: ipc_splay_tree_join_def splay_entries_def [of s])
  next
    case False
    with assms(1) show ?thesis
    proof (cases rule: splay_to_cases [where name = MACH_PORT_SMALLEST])
      case (1 l n e r L R)
      have none: "below MACH_PORT_SMALLEST (splay_entries s) = []"
        by (simp add: below_def)
      have left: "left_entries L = [] \<and> ite_entries l = []"
      proof (cases "n = 0")
        case True
        then show ?thesis
          using 1(5) none by simp
      next
        case False
        then have "0 < n"
          by (simp add: word_gt_0)
        then show ?thesis
          using 1(7) none by simp
      qed
      let ?root = "ITE (fill_left L l) n e (fill_right R r)"
      have root: "is_null (ite_lchild ?root)" "ite_entries ?root = splay_entries s"
        using left 1(3) by (simp_all add: is_null_entries)
      have "\<forall>m \<in> fst ` set (splay_entries small). \<forall>k \<in> fst ` set (splay_entries s). m < k"
        using assms(3) by (simp add: sorted_wrt_append)
      moreover have "n \<in> fst ` set (splay_entries s)"
        using 1(3) by simp
      ultimately have "ite_name ?sroot < n"
        using root_entry_mem [OF sroot(2), unfolded sroot(1)] by blast
      then have "ipc_splay_tree_join s small =
          Some (assembled s (set_lchild ?root ?sroot), small\<lparr>ist_root := ITE_NULL\<rparr>)"
        using nn False 1(1) root(1) by (simp add: ipc_splay_tree_join_def Let_def)
      then show ?thesis
        using root sroot(1) by auto
    qed
  qed
  then show thesis
    using that assms(3) gone by (metis assembled_entries assembled_ok)
qed

lemma filter_upto:
  assumes "ascending es"
  shows "filter (\<lambda>p. fst p \<le> name) es =
      below name es @ (case map_of es name of None \<Rightarrow> [] | Some e \<Rightarrow> [(name, e)])"
    and "filter (\<lambda>p. name \<le> fst p) es =
      (case map_of es name of None \<Rightarrow> [] | Some e \<Rightarrow> [(name, e)]) @ above name es"
proof -
  define mid where "mid = (case map_of es name of None \<Rightarrow> [] | Some e \<Rightarrow> [(name, e)])"
  have es: "es = below name es @ mid @ above name es"
    using entries_split_at [OF assms, of name] by (simp add: mid_def)
  have mid: "filter (\<lambda>p. fst p \<le> name) mid = mid" "filter (\<lambda>p. name \<le> fst p) mid = mid"
    by (simp_all add: mid_def split: option.splits)
  have "\<forall>p \<in> set (below name es). fst p < name" "\<forall>p \<in> set (above name es). name < fst p"
    by (simp_all add: below_def above_def)
  then have b: "filter (\<lambda>p. fst p \<le> name) (below name es) = below name es"
    "filter (\<lambda>p. name \<le> fst p) (below name es) = []"
    and a: "filter (\<lambda>p. fst p \<le> name) (above name es) = []"
    "filter (\<lambda>p. name \<le> fst p) (above name es) = above name es"
    by (fastforce intro: filter_True filter_False)+
  show "filter (\<lambda>p. fst p \<le> name) es =
      below name es @ (case map_of es name of None \<Rightarrow> [] | Some e \<Rightarrow> [(name, e)])"
    unfolding mid_def [symmetric] by (subst es) (simp add: mid a b)
  show "filter (\<lambda>p. name \<le> fst p) es =
      (case map_of es name of None \<Rightarrow> [] | Some e \<Rightarrow> [(name, e)]) @ above name es"
    unfolding mid_def [symmetric] by (subst es) (simp add: mid a b)
qed

definition lower_name :: "(mach_port_name \<times> 'e) list \<Rightarrow> mach_port_name" where
  "lower_name xs = (if xs = [] then MACH_PORT_LARGEST else fst (last xs))"

definition upper_name :: "(mach_port_name \<times> 'e) list \<Rightarrow> mach_port_name" where
  "upper_name xs = (if xs = [] then MACH_PORT_SMALLEST else fst (hd xs))"

lemma lower_left_entries:
  "lower_name (left_entries L) = (case L of [] \<Rightarrow> MACH_PORT_LARGEST | (l, n, e) # _ \<Rightarrow> n)"
  by (cases L rule: left_entries.cases) (simp_all add: lower_name_def)

lemma upper_right_entries:
  "upper_name (right_entries R) = (case R of [] \<Rightarrow> MACH_PORT_SMALLEST | (n, e, r) # _ \<Rightarrow> n)"
  by (cases R rule: right_entries.cases) (simp_all add: upper_name_def)

lemma bounds_spec:
  assumes "splay_ok s" and "ipc_splay_tree_bounds s name = (s', lower, upper)"
  shows "splay_ok s'" and "splay_entries s' = splay_entries s"
    and "lower = lower_name (filter (\<lambda>p. fst p \<le> name) (splay_entries s))"
    and "upper = upper_name (filter (\<lambda>p. name \<le> fst p) (splay_entries s))"
proof -
  let ?es = "splay_entries s"
  have "splay_ok s' \<and> splay_entries s' = ?es \<and>
    lower = lower_name (filter (\<lambda>p. fst p \<le> name) ?es) \<and>
    upper = upper_name (filter (\<lambda>p. name \<le> fst p) ?es)"
  proof (cases "is_null (ist_root s)")
    case True
    then show ?thesis
      using assms
      by (simp add: ipc_splay_tree_bounds_def splay_entries_def lower_name_def upper_name_def)
  next
    case False
    with assms(1) show ?thesis
    proof (cases rule: splay_to_cases [where name = name])
      case (1 l n e r L R)
      have s': "s' = \<lparr>ist_name = name, ist_root = ITE l n e r, ist_left = L, ist_right = R\<rparr>"
        and low: "lower = (if n \<le> name then n else lower_name (left_entries L))"
        and upp: "upper = (if name \<le> n then n else upper_name (right_entries R))"
        using assms(2) False
        by (auto simp: ipc_splay_tree_bounds_def 1(1) lower_left_entries upper_right_entries)
      note up = filter_upto [OF splay_ok_ascending [OF assms(1)], of name]
      have "lower = lower_name (filter (\<lambda>p. fst p \<le> name) ?es) \<and>
          upper = upper_name (filter (\<lambda>p. name \<le> fst p) ?es)"
      proof (cases n name rule: linorder_cases)
        case less
        then show ?thesis
          using 1(6) [OF less] 1(4) low upp up less_not_sym [OF less]
          by (auto simp: lower_name_def)
      next
        case equal
        then show ?thesis
          using 1(4) low upp up by (simp add: lower_name_def upper_name_def)
      next
        case greater
        then show ?thesis
          using 1(7) [OF greater] 1(4) low upp up less_not_sym [OF greater]
          by (auto simp: upper_name_def)
      qed
      then show ?thesis
        using 1(2,3) s' by (simp add: splay_entries_def)
    qed
  qed
  then show "splay_ok s'" and "splay_entries s' = splay_entries s"
    and "lower = lower_name (filter (\<lambda>p. fst p \<le> name) (splay_entries s))"
    and "upper = upper_name (filter (\<lambda>p. name \<le> fst p) (splay_entries s))"
    by simp_all
qed

section \<open>The contract of a name map\<close>

lemma map_of_below_ne: "k \<noteq> name \<Longrightarrow>
    map_of (below name es @ above name es) k =
      (if k < name then map_of (below name es) k else map_of (above name es) k)"
proof -
  assume "k \<noteq> name"
  have "map_of (below name es) k = None" if "\<not> k < name"
    using that by (auto simp: below_def map_of_eq_None_iff)
  moreover have "map_of (above name es) k = None" if "k < name"
    using that by (auto simp: above_def map_of_eq_None_iff)
  ultimately show ?thesis
    by (auto simp: map_add_def split: option.splits)
qed

lemma map_of_delete:
  assumes "ascending es"
  shows "map_of (below name es @ above name es) = (map_of es)(name := None)"
proof
  fix k
  show "map_of (below name es @ above name es) k = ((map_of es)(name := None)) k"
    using map_of_split [OF assms, of k name] map_of_below_ne [of k name es]
    by (cases "k = name") (auto simp: map_add_def)
qed

lemma map_of_insert:
  assumes "ascending es"
  shows "map_of (below name es @ (name, e) # above name es) = (map_of es)(name \<mapsto> e)"
proof
  fix k
  show "map_of (below name es @ (name, e) # above name es) k = ((map_of es)(name \<mapsto> e)) k"
    using map_of_split [OF assms, of k name] map_of_below_ne [of k name es]
    by (cases "k = name") (auto simp: map_add_def split: option.splits)
qed

abbreviation splay_content :: "'e splay \<Rightarrow> mach_port_name \<Rightarrow> 'e option" where
  "splay_content s \<equiv> map_of (splay_entries s)"

lemma ascending_last:
  "ascending xs \<Longrightarrow> xs \<noteq> [] \<Longrightarrow> fst (last xs) \<in> fst ` set xs \<and> (\<forall>m \<in> fst ` set xs. m \<le> fst (last xs))"
proof (induction xs)
  case (Cons p xs)
  show ?case
  proof (cases "xs = []")
    case False
    then have IH: "fst (last xs) \<in> fst ` set xs" "\<forall>m \<in> fst ` set xs. m \<le> fst (last xs)"
      using Cons by simp_all
    moreover from IH(1) have "fst p < fst (last xs)"
      using Cons.prems(1) by auto
    ultimately show ?thesis
      using False by auto
  qed simp
qed simp

lemma ascending_hd:
  "ascending xs \<Longrightarrow> xs \<noteq> [] \<Longrightarrow> fst (hd xs) \<in> fst ` set xs \<and> (\<forall>m \<in> fst ` set xs. fst (hd xs) \<le> m)"
  by (cases xs) (auto simp: less_imp_le)

lemma ascending_filter: "ascending xs \<Longrightarrow> ascending (filter P xs)"
  by (simp add: sorted_wrt_map sorted_wrt_filter)

lemma lower_name_law:
  assumes "ascending es" and "lo = lower_name (filter (\<lambda>p. fst p \<le> n) es)"
  shows "if \<exists>m \<in> dom (map_of es). m \<le> n
       then lo \<in> dom (map_of es) \<and> lo \<le> n \<and> (\<forall>m \<in> dom (map_of es). m \<le> n \<longrightarrow> m \<le> lo)
       else lo = MACH_PORT_LARGEST"
proof -
  let ?f = "filter (\<lambda>p. fst p \<le> n) es"
  have mem: "m \<in> dom (map_of es) \<and> m \<le> n \<longleftrightarrow> m \<in> fst ` set ?f" for m
    by (auto simp: dom_map_of_conv_image_fst)
  show ?thesis
  proof (cases "?f = []")
    case True
    then have "\<not> (\<exists>m \<in> dom (map_of es). m \<le> n)"
      using mem by (metis image_empty list.set(1) empty_iff)
    then show ?thesis
      using assms(2) True by (simp add: lower_name_def)
  next
    case False
    then have "lo = fst (last ?f)"
      using assms(2) by (simp add: lower_name_def)
    then have "lo \<in> fst ` set ?f" "\<forall>m \<in> fst ` set ?f. m \<le> lo"
      using ascending_last [OF ascending_filter [OF assms(1)] False] by simp_all
    then show ?thesis
      using mem by metis
  qed
qed

lemma upper_name_law:
  assumes "ascending es" and "hi = upper_name (filter (\<lambda>p. n \<le> fst p) es)"
  shows "if \<exists>m \<in> dom (map_of es). n \<le> m
       then hi \<in> dom (map_of es) \<and> n \<le> hi \<and> (\<forall>m \<in> dom (map_of es). n \<le> m \<longrightarrow> hi \<le> m)
       else hi = MACH_PORT_SMALLEST"
proof -
  let ?f = "filter (\<lambda>p. n \<le> fst p) es"
  have mem: "m \<in> dom (map_of es) \<and> n \<le> m \<longleftrightarrow> m \<in> fst ` set ?f" for m
    by (auto simp: dom_map_of_conv_image_fst)
  show ?thesis
  proof (cases "?f = []")
    case True
    then have "\<not> (\<exists>m \<in> dom (map_of es). n \<le> m)"
      using mem by (metis image_empty list.set(1) empty_iff)
    then show ?thesis
      using assms(2) True by (simp add: upper_name_def)
  next
    case False
    then have "hi = fst (hd ?f)"
      using assms(2) by (simp add: upper_name_def)
    then have "hi \<in> fst ` set ?f" "\<forall>m \<in> fst ` set ?f. hi \<le> m"
      using ascending_hd [OF ascending_filter [OF assms(1)] False] by simp_all
    then show ?thesis
      using mem by metis
  qed
qed

interpretation splay_map: ordered_name_map "splay_ok :: 'e splay \<Rightarrow> bool" splay_content
  ipc_splay_tree_lookup ipc_splay_tree_insert ipc_splay_tree_delete ipc_splay_tree_bounds
proof unfold_locales
  fix s s' :: "'e splay" and n r
  assume "splay_ok s" "ipc_splay_tree_lookup s n = (s', r)"
  from lookup_spec [OF this] show "splay_ok s' \<and> splay_content s' = splay_content s \<and> r = splay_content s n"
    by simp
next
  fix s :: "'e splay" and n e
  assume s: "splay_ok s" "splay_content s n = None"
  from s(1) show "\<exists>s'. ipc_splay_tree_insert s n e = Some s' \<and> splay_ok s' \<and>
      splay_content s' = (splay_content s)(n \<mapsto> e)"
    using map_of_insert [OF splay_ok_ascending [OF s(1)]] by (metis insert_spec [OF s])
next
  fix s :: "'e splay" and n
  assume s: "splay_ok s" "splay_content s n \<noteq> None"
  show "\<exists>s'. ipc_splay_tree_delete s n = Some s' \<and> splay_ok s' \<and>
      splay_content s' = (splay_content s)(n := None)"
    using map_of_delete [OF splay_ok_ascending [OF s(1)]] by (metis delete_spec [OF s])
next
  fix s s' :: "'e splay" and n lo hi
  assume s: "splay_ok s" and b: "ipc_splay_tree_bounds s n = (s', lo, hi)"
  note spec = bounds_spec [OF s b]
  note laws = lower_name_law [OF splay_ok_ascending [OF s] spec(3)]
    upper_name_law [OF splay_ok_ascending [OF s] spec(4)]
  show "splay_ok s' \<and> splay_content s' = splay_content s \<and>
      (if \<exists>m \<in> dom (splay_content s). m \<le> n
       then lo \<in> dom (splay_content s) \<and> lo \<le> n \<and> (\<forall>m \<in> dom (splay_content s). m \<le> n \<longrightarrow> m \<le> lo)
       else lo = MACH_PORT_LARGEST) \<and>
      (if \<exists>m \<in> dom (splay_content s). n \<le> m
       then hi \<in> dom (splay_content s) \<and> n \<le> hi \<and> (\<forall>m \<in> dom (splay_content s). n \<le> m \<longrightarrow> hi \<le> m)
       else hi = MACH_PORT_SMALLEST)"
    using spec(2) by (intro conjI spec(1) laws) simp
qed

section \<open>Properties\<close>

text \<open>A small tree, as three insertions leave it: the last splay put 0x30b at the root.\<close>

definition sample_tree :: "nat splay" where
  "sample_tree =
    \<lparr>ist_name = 0x30b, ist_root = ITE (ITE ITE_NULL 0x107 2 ITE_NULL) 0x30b 4 (ITE ITE_NULL 0x503 1 ITE_NULL),
     ist_left = [], ist_right = []\<rparr>"

lemma sample_tree_ok: "splay_ok sample_tree"
  by (simp add: sample_tree_def splay_ok_def splay_entries_def at_end_def)

lemma sample_tree_entries: "splay_entries sample_tree = [(0x107, 2), (0x30b, 4), (0x503, 1)]"
  by (simp add: sample_tree_def splay_entries_def)

text \<open>C11. A name that a lookup did not find can be inserted into the tree that lookup left: none
  of the assertions of \<open>ipc_splay_tree_insert\<close> fails, the name is then found with its entry, and
  every other name is found exactly as before.\<close>

theorem splay_insert_lookup:
  assumes "splay_ok s" and "snd (ipc_splay_tree_lookup s n) = None"
  shows "\<exists>s'. ipc_splay_tree_insert (fst (ipc_splay_tree_lookup s n)) n e = Some s' \<and> splay_ok s' \<and>
    snd (ipc_splay_tree_lookup s' n) = Some e \<and>
    (\<forall>m. m \<noteq> n \<longrightarrow> snd (ipc_splay_tree_lookup s' m) = snd (ipc_splay_tree_lookup s m))"
  by (rule splay_map.insert_look [OF assms])

theorem splay_insert_lookup_witness:
  "\<exists>s'. ipc_splay_tree_insert (fst (ipc_splay_tree_lookup sample_tree 0x40f)) 0x40f 9 = Some s' \<and>
    splay_ok s' \<and> snd (ipc_splay_tree_lookup s' 0x40f) = Some 9 \<and>
    (\<forall>m. m \<noteq> 0x40f \<longrightarrow> snd (ipc_splay_tree_lookup s' m) = snd (ipc_splay_tree_lookup sample_tree m))"
  by (rule splay_insert_lookup [OF sample_tree_ok]) code_simp

text \<open>C12. A name that is in the tree can be deleted: no assertion of \<open>ipc_splay_tree_delete\<close> fails,
  also where the left tree's largest entry is splayed to its root, the name is gone and every other
  name is found as before.\<close>

theorem splay_delete_lookup:
  assumes "splay_ok s" and "snd (ipc_splay_tree_lookup s n) \<noteq> None"
  shows "\<exists>s'. ipc_splay_tree_delete s n = Some s' \<and> splay_ok s' \<and>
    snd (ipc_splay_tree_lookup s' n) = None \<and>
    (\<forall>m. m \<noteq> n \<longrightarrow> snd (ipc_splay_tree_lookup s' m) = snd (ipc_splay_tree_lookup s m))"
  by (rule splay_map.delete_look [OF assms])

theorem splay_delete_lookup_witness:
  "\<exists>s'. ipc_splay_tree_delete sample_tree 0x30b = Some s' \<and> splay_ok s' \<and>
    snd (ipc_splay_tree_lookup s' 0x30b) = None \<and>
    (\<forall>m. m \<noteq> 0x30b \<longrightarrow> snd (ipc_splay_tree_lookup s' m) = snd (ipc_splay_tree_lookup sample_tree m))"
  by (rule splay_delete_lookup [OF sample_tree_ok]) code_simp

text \<open>Splitting a tree at a name puts exactly the entries below the name, in order, into the new
  tree, and joining the two parts again gives back all the entries; the assertions of both operations
  hold.\<close>

theorem splay_split_join:
  assumes "splay_ok s"
  shows "\<exists>s1 small s2 small2.
    ipc_splay_tree_split s name raw = Some (s1, small) \<and>
    splay_entries small = filter (\<lambda>p. fst p < name) (splay_entries s) \<and>
    ipc_splay_tree_join s1 small = Some (s2, small2) \<and> splay_ok s2 \<and>
    splay_entries s2 = splay_entries s \<and> splay_entries small2 = []"
proof -
  obtain s1 small where sp: "ipc_splay_tree_split s name raw = Some (s1, small)" "splay_ok s1"
    "splay_ok small" "splay_entries small = below name (splay_entries s)"
    "splay_entries small @ splay_entries s1 = splay_entries s"
    by (rule split_spec [OF assms])
  have "ascending (splay_entries small @ splay_entries s1)"
    using sp(5) splay_ok_ascending [OF assms] by simp
  then obtain s2 small2 where "ipc_splay_tree_join s1 small = Some (s2, small2)" "splay_ok s2"
    "splay_entries s2 = splay_entries small @ splay_entries s1" "splay_entries small2 = []"
    by (rule join_spec [OF sp(2,3)])
  then show ?thesis
    using sp(1,4,5) by (auto simp: below_def)
qed

theorem splay_split_join_witness:
  "\<exists>s1 small s2 small2.
    ipc_splay_tree_split sample_tree 0x400 sample_tree = Some (s1, small) \<and>
    splay_entries small = filter (\<lambda>p. fst p < 0x400) (splay_entries sample_tree) \<and>
    ipc_splay_tree_join s1 small = Some (s2, small2) \<and> splay_ok s2 \<and>
    splay_entries s2 = splay_entries sample_tree \<and> splay_entries small2 = []"
  by (rule splay_split_join [OF sample_tree_ok])

text \<open>The bounds of a name are the neighbours that the comment promises, as long as neither
  reserved name is in the tree: equal bounds mean that the name is present (and they are the name);
  otherwise each is the nearest present name on its side, or the reserved name for none.\<close>

theorem splay_bounds_neighbours:
  assumes "splay_ok s" and "ipc_splay_tree_bounds s n = (s', lo, hi)"
    and "snd (ipc_splay_tree_lookup s MACH_PORT_SMALLEST) = None"
    and "snd (ipc_splay_tree_lookup s MACH_PORT_LARGEST) = None"
  shows "(lo = hi \<longleftrightarrow> snd (ipc_splay_tree_lookup s n) \<noteq> None) \<and> (lo = hi \<longrightarrow> lo = n) \<and>
    (lo \<noteq> MACH_PORT_LARGEST \<longrightarrow> lo \<le> n \<and> snd (ipc_splay_tree_lookup s lo) \<noteq> None) \<and>
    (hi \<noteq> MACH_PORT_SMALLEST \<longrightarrow> n \<le> hi \<and> snd (ipc_splay_tree_lookup s hi) \<noteq> None) \<and>
    (\<forall>m. snd (ipc_splay_tree_lookup s m) \<noteq> None \<longrightarrow> m \<noteq> n \<longrightarrow>
       (lo \<noteq> MACH_PORT_LARGEST \<and> m \<le> lo) \<or> (hi \<noteq> MACH_PORT_SMALLEST \<and> hi \<le> m))"
proof -
  note look = splay_map.look_content [OF assms(1)]
  have nin: "MACH_PORT_SMALLEST \<notin> dom (splay_content s)" "MACH_PORT_LARGEST \<notin> dom (splay_content s)"
    using assms(3,4) look by (auto simp: domIff)
  note eq = splay_map.bounds_equal [OF assms(1) nin assms(2)]
  note law = splay_map.bnd_law [OF assms(1,2)]
  have lo: "lo \<noteq> MACH_PORT_LARGEST \<longrightarrow> lo \<in> dom (splay_content s) \<and> lo \<le> n"
    and hi: "hi \<noteq> MACH_PORT_SMALLEST \<longrightarrow> hi \<in> dom (splay_content s) \<and> n \<le> hi"
    using law by presburger+
  have "(lo \<noteq> MACH_PORT_LARGEST \<and> m \<le> lo) \<or> (hi \<noteq> MACH_PORT_SMALLEST \<and> hi \<le> m)"
    if m: "m \<in> dom (splay_content s)" for m
  proof (cases "m \<le> n")
    case True
    then have "lo \<in> dom (splay_content s) \<and> m \<le> lo"
      using law m by metis
    then show ?thesis
      using nin(2) by metis
  next
    case False
    then have "n \<le> m"
      by simp
    then have "hi \<in> dom (splay_content s) \<and> hi \<le> m"
      using law m by metis
    then show ?thesis
      using nin(1) by metis
  qed
  then show ?thesis
    using eq lo hi by (simp add: look domIff)
qed

theorem splay_bounds_neighbours_witness:
  "snd (ipc_splay_tree_bounds sample_tree 0x200) = (0x107, 0x30b) \<and>
   snd (ipc_splay_tree_lookup sample_tree 0x200) = None \<and>
   snd (ipc_splay_tree_lookup sample_tree 0x107) \<noteq> None"
proof -
  have b: "ipc_splay_tree_bounds sample_tree 0x200 =
    (fst (ipc_splay_tree_bounds sample_tree 0x200), 0x107, 0x30b)"
    by code_simp
  have "snd (ipc_splay_tree_lookup sample_tree MACH_PORT_SMALLEST) = None"
    "snd (ipc_splay_tree_lookup sample_tree MACH_PORT_LARGEST) = None"
    by code_simp+
  note s = splay_bounds_neighbours [OF sample_tree_ok b this]
  have "(0x107 :: u32) \<noteq> 0x30b" "(0x107 :: u32) \<noteq> MACH_PORT_LARGEST"
    by simp_all
  with s show ?thesis
    using b by (metis snd_conv)
qed

end
