(* ===== verification/Ipc_Splay_Walk.thy ===== *)
theory Ipc_Splay_Walk
  imports Ipc_Splay_Map
begin

text \<open>
  The symmetric-order traversal of osfmk/ipc/ipc_splay.c by pointer inversion.  While the
  tree is walked, the child pointer that was followed holds the parent: \<open>InvL\<close> is an entry
  whose left child field is inverted, \<open>InvR\<close> one whose right child field is.  The code finds out
  which by comparing names; where the comparison picks the field that is not inverted, the code
  would take a child for the parent, and the model has no result (\<open>None\<close>).
\<close>

section \<open>The walk\<close>

datatype 'e frame =
    InvL mach_port_name 'e "'e ite"
  | InvR "'e ite" mach_port_name 'e

text \<open>\<open>Walk_At\<close>: \<open>ist_ltree\<close> is the current entry and \<open>ist_rtree\<close> the chain of parents.
  \<open>Walk_End\<close>: the walk returned no entry and left the tree in \<open>ist_root\<close>.\<close>

datatype 'e walk =
    Walk_At "'e ite" "'e frame list"
  | Walk_End "'e ite"

fun traverse_left :: "'e ite \<Rightarrow> 'e frame list \<Rightarrow> 'e ite \<times> 'e frame list" where
  "traverse_left (ITE l n e r) ps =
     (if is_null l then (ITE l n e r, ps) else traverse_left l (InvL n e r # ps))"
| "traverse_left ITE_NULL ps = (ITE_NULL, ps)"

fun traverse_back :: "'e ite \<Rightarrow> 'e frame list \<Rightarrow> 'e walk option" where
  "traverse_back cur [] = Some (Walk_End cur)"
| "traverse_back cur (InvL n e r # ps) =
     (if ite_name cur < n then Some (Walk_At (ITE cur n e r) ps) else None)"
| "traverse_back cur (InvR l n e # ps) =
     (if ite_name cur < n then None else traverse_back (ITE l n e cur) ps)"

fun traverse_entry :: "'e ite \<times> 'e frame list \<Rightarrow> 'e walk" where
  "traverse_entry (cur, ps) = Walk_At cur ps"

fun traverse_right :: "'e ite \<Rightarrow> 'e frame list \<Rightarrow> 'e walk option" where
  "traverse_right (ITE l n e r) ps =
     (if \<not> is_null r then Some (traverse_entry (traverse_left r (InvR l n e # ps)))
      else traverse_back (ITE l n e r) ps)"
| "traverse_right ITE_NULL ps = None"

text \<open>A childless entry named \<open>name\<close> is freed: like \<open>traverse_back\<close>, with the parent's field
  cleared.\<close>

fun traverse_leaf_freed :: "mach_port_name \<Rightarrow> 'e frame list \<Rightarrow> 'e walk option" where
  "traverse_leaf_freed name [] = Some (Walk_End ITE_NULL)"
| "traverse_leaf_freed name (InvL n e r # ps) =
     (if name < n then Some (Walk_At (ITE ITE_NULL n e r) ps) else None)"
| "traverse_leaf_freed name (InvR l n e # ps) =
     (if name < n then None else traverse_back (ITE l n e ITE_NULL) ps)"

definition ipc_splay_traverse_start :: "'e splay \<Rightarrow> 'e walk" where
  "ipc_splay_traverse_start s =
     (if is_null (ist_root s) then Walk_End ITE_NULL
      else traverse_entry
        (traverse_left (prim_assemble (ist_root s) (ist_left s) (ist_right s)) []))"

definition traverse_free :: "'e ite \<Rightarrow> 'e frame list \<Rightarrow> 'e walk option" where
  "traverse_free cur ps =
     (let l = ite_lchild cur; r = ite_rchild cur in
      if is_null l then
        (if is_null r then traverse_leaf_freed (ite_name cur) ps
         else Some (traverse_entry (traverse_left r ps)))
      else if is_null r then traverse_back l ps
      else
        let t = largest_to_root l in
        if \<not> is_null (ite_rchild t) then None
        else traverse_right (set_rchild t r) ps)"

fun ipc_splay_traverse_next :: "'e walk \<Rightarrow> bool \<Rightarrow> 'e walk option" where
  "ipc_splay_traverse_next (Walk_At cur ps) delete =
     (if is_null cur then None
      else if delete then traverse_free cur ps
      else traverse_right cur ps)"
| "ipc_splay_traverse_next (Walk_End t) delete = None"

fun ipc_splay_traverse_finish :: "'e splay \<Rightarrow> 'e walk \<Rightarrow> 'e splay option" where
  "ipc_splay_traverse_finish s (Walk_End t) = Some (assembled s t)"
| "ipc_splay_traverse_finish s (Walk_At cur ps) = None"

text \<open>The loop of the usage comment: the body \<open>visit\<close> handles one entry, with a state of its own, and
  says whether the entry is to be deleted; \<open>fuel\<close> bounds the iterations.\<close>

fun traverse_loop ::
  "nat \<Rightarrow> (mach_port_name \<Rightarrow> 'e \<Rightarrow> 's \<Rightarrow> 's \<times> bool) \<Rightarrow> 's \<Rightarrow> 'e walk \<Rightarrow> ('s \<times> 'e walk) option" where
  "traverse_loop fuel visit st (Walk_End t) = Some (st, Walk_End t)"
| "traverse_loop 0 visit st (Walk_At cur ps) = None"
| "traverse_loop (Suc fuel) visit st (Walk_At cur ps) =
     (let (st', d) = visit (ite_name cur) (ite_entry cur) st in
      Option.bind (ipc_splay_traverse_next (Walk_At cur ps) d) (traverse_loop fuel visit st'))"

definition splay_traverse ::
  "nat \<Rightarrow> (mach_port_name \<Rightarrow> 'e \<Rightarrow> 's \<Rightarrow> 's \<times> bool) \<Rightarrow> 's \<Rightarrow> 'e splay \<Rightarrow> ('s \<times> 'e splay) option" where
  "splay_traverse fuel visit st s =
     Option.bind (traverse_loop fuel visit st (ipc_splay_traverse_start s))
       (\<lambda>(st', w). map_option (Pair st') (ipc_splay_traverse_finish s w))"

section \<open>Where a walk stands\<close>

fun before_entries :: "'e frame list \<Rightarrow> (mach_port_name \<times> 'e) list" where
  "before_entries [] = []"
| "before_entries (InvL n e r # ps) = before_entries ps"
| "before_entries (InvR l n e # ps) = before_entries ps @ ite_entries l @ [(n, e)]"

fun after_entries :: "'e frame list \<Rightarrow> (mach_port_name \<times> 'e) list" where
  "after_entries [] = []"
| "after_entries (InvL n e r # ps) = (n, e) # ite_entries r @ after_entries ps"
| "after_entries (InvR l n e # ps) = after_entries ps"

text \<open>The entries that were kept so far, and those still to be visited, the current one first.\<close>

fun walk_done :: "'e walk \<Rightarrow> (mach_port_name \<times> 'e) list" where
  "walk_done (Walk_At cur ps) = before_entries ps @ ite_entries (ite_lchild cur)"
| "walk_done (Walk_End t) = ite_entries t"

fun walk_todo :: "'e walk \<Rightarrow> (mach_port_name \<times> 'e) list" where
  "walk_todo (Walk_At cur ps) =
     (ite_name cur, ite_entry cur) # ite_entries (ite_rchild cur) @ after_entries ps"
| "walk_todo (Walk_End t) = []"

fun walk_ok :: "'e walk \<Rightarrow> bool" where
  "walk_ok (Walk_At cur ps) \<longleftrightarrow> \<not> is_null cur"
| "walk_ok (Walk_End t) \<longleftrightarrow> True"

lemma traverse_left_spec:
  assumes "\<not> is_null t"
  shows "walk_ok (traverse_entry (traverse_left t ps))"
    and "walk_done (traverse_entry (traverse_left t ps)) = before_entries ps"
    and "walk_todo (traverse_entry (traverse_left t ps)) = ite_entries t @ after_entries ps"
  using assms by (induction t ps rule: traverse_left.induct) (auto simp: is_null_entries)

lemma traverse_back_spec:
  assumes "\<not> is_null t" and "ascending (before_entries ps @ ite_entries t @ after_entries ps)"
  shows "\<exists>w. traverse_back t ps = Some w \<and> walk_ok w \<and>
    walk_done w = before_entries ps @ ite_entries t \<and> walk_todo w = after_entries ps"
  using assms
proof (induction t ps rule: traverse_back.induct)
  case (2 cur n e r ps)
  have "\<forall>m \<in> fst ` set (ite_entries cur). m < n"
    using 2(2) by (simp add: sorted_wrt_append)
  then have "ite_name cur < n"
    using root_entry_mem [OF 2(1)] by blast
  then show ?case
    by simp
next
  case (3 cur l n e ps)
  have "\<forall>m \<in> fst ` set (ite_entries cur). n < m"
    using 3(3) by (simp add: sorted_wrt_append)
  then have "n < ite_name cur"
    using root_entry_mem [OF 3(2)] by blast
  then show ?case
    using 3(1) 3(3) by (simp add: less_not_sym)
qed simp

lemma traverse_right_spec:
  assumes "\<not> is_null t" and "ascending (before_entries ps @ ite_entries t @ after_entries ps)"
  shows "\<exists>w. traverse_right t ps = Some w \<and> walk_ok w \<and>
    walk_done w = before_entries ps @ ite_entries (ite_lchild t) @ [(ite_name t, ite_entry t)] \<and>
    walk_todo w = ite_entries (ite_rchild t) @ after_entries ps"
proof (cases t)
  case (ITE l n e r)
  show ?thesis
  proof (cases "is_null r")
    case True
    then show ?thesis
      using traverse_back_spec [OF assms] ITE by (simp add: is_null_entries)
  next
    case False
    then show ?thesis
      using traverse_left_spec [OF False, of "InvR l n e # ps"] ITE by simp
  qed
qed (use assms in simp)

lemma traverse_leaf_freed_spec:
  assumes "ascending (before_entries ps @ (n, e) # after_entries ps)"
  shows "\<exists>w. traverse_leaf_freed n ps = Some w \<and> walk_ok w \<and>
    walk_done w = before_entries ps \<and> walk_todo w = after_entries ps"
proof (cases "(n, ps)" rule: traverse_leaf_freed.cases)
  case (2 name m f r qs)
  then show ?thesis
    using assms by (simp add: sorted_wrt_append)
next
  case (3 name l m f qs)
  then have "m < n" and "ascending (before_entries qs @ ite_entries (ITE l m f ITE_NULL) @ after_entries qs)"
    using assms by (simp_all add: sorted_wrt_append ball_Un)
  then show ?thesis
    using traverse_back_spec [of "ITE l m f ITE_NULL" qs] 3 by (simp add: less_not_sym)
qed simp

text \<open>One call of \<open>ipc_splay_traverse_next\<close>.\<close>

lemma ascending_drop_mid: "ascending (xs @ p # ys) \<Longrightarrow> ascending (xs @ ys)"
  by (simp add: sorted_wrt_append)

lemma traverse_next_spec:
  assumes "\<not> is_null cur" and "ascending (walk_done (Walk_At cur ps) @ walk_todo (Walk_At cur ps))"
  shows "\<exists>w. ipc_splay_traverse_next (Walk_At cur ps) d = Some w \<and> walk_ok w \<and>
    walk_done w = walk_done (Walk_At cur ps) @ (if d then [] else [(ite_name cur, ite_entry cur)]) \<and>
    walk_todo w = tl (walk_todo (Walk_At cur ps))"
proof (cases cur)
  case (ITE l n e r)
  have asc: "ascending (before_entries ps @ ite_entries cur @ after_entries ps)"
    using assms(2) ITE by simp
  have cut: "ascending (before_entries ps @ ite_entries l @ ite_entries r @ after_entries ps)"
    using ascending_drop_mid [of "before_entries ps @ ite_entries l" "(n, e)" "ite_entries r @ after_entries ps"]
      assms(2) ITE by simp
  show ?thesis
  proof (cases d)
    case False
    then show ?thesis
      using traverse_right_spec [OF assms(1) asc] ITE by simp
  next
    case True
    consider (leaf) "l = ITE_NULL" "r = ITE_NULL" | (right) "l = ITE_NULL" "\<not> is_null r"
      | (left) "\<not> is_null l" "r = ITE_NULL" | (both) "\<not> is_null l" "\<not> is_null r"
      by (auto simp: is_null_def)
    then show ?thesis
    proof cases
      case leaf
      then show ?thesis
        using True ITE asc traverse_leaf_freed_spec [of ps n e] by (simp add: traverse_free_def)
    next
      case right
      then show ?thesis
        using True ITE traverse_left_spec [OF right(2), of ps] by (simp add: traverse_free_def)
    next
      case left
      then show ?thesis
        using True ITE cut traverse_back_spec [OF left(1), of ps] by (simp add: traverse_free_def)
    next
      case both
      let ?t = "set_rchild (largest_to_root l) r"
      have "ascending (ite_entries l)"
        using cut by (simp add: sorted_wrt_append)
      note big = largest_to_root_spec [OF this both(1)]
      have t: "\<not> is_null ?t" "ite_entries ?t = ite_entries l @ ite_entries r" "ite_rchild ?t = r"
        using big by simp_all (simp_all add: set_rchild_def)
      have big_last: "ite_entries (ite_lchild ?t) @ [(ite_name ?t, ite_entry ?t)] = ite_entries l"
        using big by (cases "largest_to_root l") (simp_all add: set_rchild_def is_null_entries)
      have "ascending (before_entries ps @ ite_entries ?t @ after_entries ps)"
        using cut t(2) by simp
      from traverse_right_spec [OF t(1) this] show ?thesis
        using True ITE both big t(3) big_last by (simp add: traverse_free_def Let_def)
    qed
  qed
qed (use assms in simp)

text \<open>The same loop over a plain list of entries: the final state and the entries kept.\<close>

fun visit_all ::
  "(mach_port_name \<Rightarrow> 'e \<Rightarrow> 's \<Rightarrow> 's \<times> bool) \<Rightarrow> 's \<Rightarrow> (mach_port_name \<times> 'e) list \<Rightarrow>
   's \<times> (mach_port_name \<times> 'e) list" where
  "visit_all visit st [] = (st, [])"
| "visit_all visit st ((n, e) # xs) =
     (let (st1, d) = visit n e st; (st2, ks) = visit_all visit st1 xs
      in (st2, if d then ks else (n, e) # ks))"

lemma visit_all_subset: "set (snd (visit_all visit st xs)) \<subseteq> set xs"
proof (induction xs arbitrary: st)
  case (Cons p xs)
  obtain n e where "p = (n, e)"
    by fastforce
  then show ?case
    using Cons.IH [of "fst (visit n e st)"] by (auto simp: split_beta)
qed simp

lemma visit_all_ascending: "ascending xs \<Longrightarrow> ascending (snd (visit_all visit st xs))"
proof (induction xs arbitrary: st)
  case (Cons p xs)
  then show ?case
    using visit_all_subset [of visit "fst (visit (fst p) (snd p) st)" xs]
    by (cases p) (auto simp: split_beta)
qed simp

lemma traverse_loop_spec:
  assumes "walk_ok w" and "ascending (walk_done w @ walk_todo w)" and "length (walk_todo w) \<le> fuel"
  shows "\<exists>t. traverse_loop fuel visit st w = Some (fst (visit_all visit st (walk_todo w)), Walk_End t) \<and>
    ite_entries t = walk_done w @ snd (visit_all visit st (walk_todo w))"
  using assms
proof (induction fuel visit st w rule: traverse_loop.induct)
  case (3 fuel visit st cur ps)
  let ?w = "Walk_At cur ps"
  obtain st' d where v: "visit (ite_name cur) (ite_entry cur) st = (st', d)"
    by fastforce
  obtain w where w: "ipc_splay_traverse_next ?w d = Some w" "walk_ok w"
    "walk_done w = walk_done ?w @ (if d then [] else [(ite_name cur, ite_entry cur)])"
    "walk_todo w = tl (walk_todo ?w)"
    using traverse_next_spec [of cur ps d] 3(2,3) by auto
  have todo: "walk_todo ?w = (ite_name cur, ite_entry cur) # walk_todo w"
    using w(4) by simp
  have "ascending (walk_done w @ walk_todo w)"
    using 3(3) ascending_drop_mid [of "walk_done ?w" "(ite_name cur, ite_entry cur)" "walk_todo w"]
    unfolding w(3) todo by (simp split: if_splits)
  moreover have "length (walk_todo w) \<le> fuel"
    using 3(4) unfolding todo by simp
  ultimately obtain t where
    "traverse_loop fuel visit st' w = Some (fst (visit_all visit st' (walk_todo w)), Walk_End t)"
    and "ite_entries t = walk_done w @ snd (visit_all visit st' (walk_todo w))"
    using 3(1) [OF refl v [symmetric] w(1,2)] by blast
  then show ?case
    using w(1,3) v unfolding todo by (auto simp: split_beta)
qed simp_all

lemma traverse_start_spec:
  assumes "splay_ok s"
  shows "walk_ok (ipc_splay_traverse_start s)" and "walk_done (ipc_splay_traverse_start s) = []"
    and "walk_todo (ipc_splay_traverse_start s) = splay_entries s"
proof -
  let ?t = "prim_assemble (ist_root s) (ist_left s) (ist_right s)"
  have "\<not> is_null (ist_root s) \<Longrightarrow> ite_entries ?t = splay_entries s"
    by (simp add: prim_assemble_entries splay_entries_def)
  then show "walk_ok (ipc_splay_traverse_start s)" and "walk_done (ipc_splay_traverse_start s) = []"
    and "walk_todo (ipc_splay_traverse_start s) = splay_entries s"
    using traverse_left_spec [of ?t "[]"]
    by (simp_all add: ipc_splay_traverse_start_def splay_entries_def)
qed

section \<open>Properties\<close>

definition space_tree :: "nat splay" where
  "space_tree = the (ipc_splay_tree_insert (the (ipc_splay_tree_insert (the (ipc_splay_tree_insert
     (the (ipc_splay_tree_insert (ipc_splay_tree_init
        \<lparr>ist_name = 7, ist_root = ITE_NULL, ist_left = [], ist_right = []\<rparr>)
      0x503 1)) 0x107 2)) 0x907 3)) 0x30b 4)"

lemma space_tree_is:
  "space_tree =
    \<lparr>ist_name = 0x30b,
     ist_root = ITE (ITE ITE_NULL 0x107 2 ITE_NULL) 0x30b 4 (ITE (ITE ITE_NULL 0x503 1 ITE_NULL) 0x907 3 ITE_NULL),
     ist_left = [], ist_right = []\<rparr>"
  by code_simp

lemma space_tree_ok: "splay_ok space_tree"
  by (simp add: space_tree_is splay_ok_def splay_entries_def at_end_def)

lemma space_tree_entries:
  "splay_entries space_tree = [(0x107, 2), (0x30b, 4), (0x503, 1), (0x907, 3)]"
  by (simp add: space_tree_is splay_entries_def)

lemma splay_traverse_spec:
  assumes "splay_ok s" and "length (splay_entries s) \<le> fuel"
  obtains s' where "splay_traverse fuel visit st s = Some (fst (visit_all visit st (splay_entries s)), s')"
    and "splay_ok s'" and "splay_entries s' = snd (visit_all visit st (splay_entries s))"
proof -
  let ?w = "ipc_splay_traverse_start s"
  note start = traverse_start_spec [OF assms(1)]
  obtain t where t: "traverse_loop fuel visit st ?w = Some (fst (visit_all visit st (splay_entries s)), Walk_End t)"
    "ite_entries t = snd (visit_all visit st (splay_entries s))"
    using traverse_loop_spec [OF start(1), of fuel visit st] start(2,3) assms(2)
      splay_ok_ascending [OF assms(1)] by auto
  have "ascending (ite_entries t)"
    using t(2) splay_ok_ascending [OF assms(1)] by (simp add: visit_all_ascending)
  then show thesis
    using that t assembled_ok [of t s] by (simp add: splay_traverse_def)
qed

definition collect ::
  "(mach_port_name \<Rightarrow> 'e \<Rightarrow> bool) \<Rightarrow> mach_port_name \<Rightarrow> 'e \<Rightarrow> (mach_port_name \<times> 'e) list \<Rightarrow>
   (mach_port_name \<times> 'e) list \<times> bool" where
  "collect delete n e acc = (acc @ [(n, e)], delete n e)"

lemma visit_all_collect:
  "visit_all (collect delete) acc xs = (acc @ xs, filter (\<lambda>(n, e). \<not> delete n e) xs)"
  by (induction xs arbitrary: acc) (auto simp: collect_def)

text \<open>C13. The traversal visits every entry once, in the order of the names, whatever the shape of the
  tree: with a body that collects what it visits and frees some entries, it collects exactly the entries
  in order and leaves a well-formed tree of those that were not freed; as many rounds as there are
  entries are enough.\<close>

theorem splay_traverse_complete:
  assumes "splay_ok s" and "length (splay_entries s) \<le> fuel"
  shows "\<exists>s'. splay_traverse fuel (collect delete) [] s = Some (splay_entries s, s') \<and> splay_ok s' \<and>
    splay_entries s' = filter (\<lambda>(n, e). \<not> delete n e) (splay_entries s)"
  by (rule splay_traverse_spec [OF assms, of "collect delete" "[]"]) (simp add: visit_all_collect)

theorem splay_traverse_complete_witness:
  "\<exists>s'. splay_traverse 4 (collect (\<lambda>n e. e = 2 \<or> e = 4)) [] space_tree =
      Some ([(0x107, 2), (0x30b, 4), (0x503, 1), (0x907, 3)], s') \<and>
    splay_ok s' \<and> splay_entries s' = [(0x503, 1), (0x907, 3)]"
  using splay_traverse_complete [OF space_tree_ok, of 4 "\<lambda>n e. e = 2 \<or> e = 4"]
  by (simp add: space_tree_entries)

end
