(* ===== verification/Lock_Manager.thy ===== *)
theory Lock_Manager
  imports Kernel_Prelude
begin

text \<open>
  The shared/exclusive sleep locks of bsd/kern/kern_lock.c and bsd/sys/lock.h.  A call of
  \<open>lockmgr\<close> holds the interlock except while it sleeps, so it is a sequence of atomic sections:
  \<open>lockmgr\<close> runs the section from the entry to the return, a panic or the first sleep, and
  \<open>lockmgr_resume\<close> the one from a return of \<open>tsleep\<close> (with its error) to the next of these.  The BSD part
  of the kernel is built for one processor (\<open>NCPUS=1\<close>), where \<open>PAUSE\<close> is empty.  The sections
  report the channels they wake.
\<close>

section \<open>The lock\<close>

text \<open>\<open>int\<close> and \<open>short\<close> arithmetic.\<close>

definition cint :: "int \<Rightarrow> int" where "cint n = signed_take_bit 31 n"
definition cshort :: "int \<Rightarrow> int" where "cshort n = signed_take_bit 15 n"

record lock =
  lk_flags :: u32
  lk_sharecount :: int
  lk_waitcount :: int
  lk_exclusivecount :: int
  lk_prio :: int
  lk_wmesg :: string
  lk_timo :: int
  lk_lockholder :: int
  lk_lockthread :: nat

abbreviation LK_TYPE_MASK :: u32 where "LK_TYPE_MASK \<equiv> 0xf"
abbreviation LK_SHARED :: u32 where "LK_SHARED \<equiv> 1"
abbreviation LK_EXCLUSIVE :: u32 where "LK_EXCLUSIVE \<equiv> 2"
abbreviation LK_UPGRADE :: u32 where "LK_UPGRADE \<equiv> 3"
abbreviation LK_EXCLUPGRADE :: u32 where "LK_EXCLUPGRADE \<equiv> 4"
abbreviation LK_DOWNGRADE :: u32 where "LK_DOWNGRADE \<equiv> 5"
abbreviation LK_RELEASE :: u32 where "LK_RELEASE \<equiv> 6"
abbreviation LK_DRAIN :: u32 where "LK_DRAIN \<equiv> 7"
abbreviation LK_EXTFLG_MASK :: u32 where "LK_EXTFLG_MASK \<equiv> 0x70"
abbreviation LK_NOWAIT :: u32 where "LK_NOWAIT \<equiv> 0x10"
abbreviation LK_SLEEPFAIL :: u32 where "LK_SLEEPFAIL \<equiv> 0x20"
abbreviation LK_CANRECURSE :: u32 where "LK_CANRECURSE \<equiv> 0x40"
abbreviation LK_WANT_UPGRADE :: u32 where "LK_WANT_UPGRADE \<equiv> 0x100"
abbreviation LK_WANT_EXCL :: u32 where "LK_WANT_EXCL \<equiv> 0x200"
abbreviation LK_HAVE_EXCL :: u32 where "LK_HAVE_EXCL \<equiv> 0x400"
abbreviation LK_WAITDRAIN :: u32 where "LK_WAITDRAIN \<equiv> 0x800"
abbreviation LK_DRAINING :: u32 where "LK_DRAINING \<equiv> 0x4000"
abbreviation LK_NOPROC :: int where "LK_NOPROC \<equiv> -1"
abbreviation LK_KERNPROC :: int where "LK_KERNPROC \<equiv> -2"
abbreviation EBUSY :: int where "EBUSY \<equiv> 16"
abbreviation EWOULDBLOCK :: int where "EWOULDBLOCK \<equiv> 35"
abbreviation ENOLCK :: int where "ENOLCK \<equiv> 77"

definition lk_has :: "u32 \<Rightarrow> u32 \<Rightarrow> bool" where
  "lk_has f m \<longleftrightarrow> f AND m \<noteq> 0"

definition lockinit :: "int \<Rightarrow> string \<Rightarrow> int \<Rightarrow> u32 \<Rightarrow> lock" where
  "lockinit prio wmesg timo flags =
     \<lparr>lk_flags = flags AND LK_EXTFLG_MASK, lk_sharecount = 0, lk_waitcount = 0,
      lk_exclusivecount = 0, lk_prio = cshort prio, lk_wmesg = wmesg, lk_timo = timo,
      lk_lockholder = LK_NOPROC, lk_lockthread = 0\<rparr>"

definition lockstatus :: "lock \<Rightarrow> u32" where
  "lockstatus lkp =
     (if lk_exclusivecount lkp \<noteq> 0 then LK_EXCLUSIVE
      else if lk_sharecount lkp \<noteq> 0 then LK_SHARED else 0)"

section \<open>Atomic sections\<close>

text \<open>Where a call sleeps: the four \<open>ACQUIRE\<close> loops and the loop of \<open>LK_DRAIN\<close>.  The caller of a
  request is the pair of the process id and the thread.\<close>

datatype lk_phase = ShareWait | UpgradeWait | ExclWait1 | ExclWait2 | DrainWait

datatype lk_chan = OnLock | OnFlags

datatype lk_result =
    LkRet int lock "lk_chan list"
  | LkSleep lk_phase lock "lk_chan list"
  | LkPanic string

type_synonym who = "int \<times> nat"

definition lk_owns :: "lock \<Rightarrow> who \<Rightarrow> bool" where
  "lk_owns l w \<longleftrightarrow> lk_lockholder l = fst w \<and> lk_lockthread l = snd w"

definition share_blocked :: "lock \<Rightarrow> bool" where
  "share_blocked l \<longleftrightarrow> lk_has (lk_flags l) (LK_HAVE_EXCL OR LK_WANT_EXCL OR LK_WANT_UPGRADE)"

definition drain_blocked :: "lock \<Rightarrow> bool" where
  "drain_blocked l \<longleftrightarrow> share_blocked l \<or> lk_sharecount l \<noteq> 0 \<or> lk_waitcount l \<noteq> 0"

text \<open>The end of every call: wake a drainer that waits for an idle lock.\<close>

definition lk_finish :: "int \<Rightarrow> lock \<Rightarrow> lk_chan list \<Rightarrow> lk_result" where
  "lk_finish err l ws =
     (if lk_has (lk_flags l) LK_WAITDRAIN \<and> \<not> drain_blocked l
      then LkRet err (l\<lparr>lk_flags := lk_flags l AND NOT LK_WAITDRAIN\<rparr>) (ws @ [OnFlags])
      else LkRet err l ws)"

text \<open>\<open>ACQUIRE\<close>: the test of its loop, with the sleep, and the return from the sleep.\<close>

definition lk_acquire ::
  "lk_phase \<Rightarrow> (lock \<Rightarrow> bool) \<Rightarrow> (int \<Rightarrow> lock \<Rightarrow> lk_chan list \<Rightarrow> lk_result) \<Rightarrow>
   lock \<Rightarrow> lk_chan list \<Rightarrow> lk_result" where
  "lk_acquire ph wanted k l ws =
     (if wanted l then LkSleep ph (l\<lparr>lk_waitcount := cint (lk_waitcount l + 1)\<rparr>) ws
      else k 0 l ws)"

definition lk_awake ::
  "lk_phase \<Rightarrow> (lock \<Rightarrow> bool) \<Rightarrow> (int \<Rightarrow> lock \<Rightarrow> lk_chan list \<Rightarrow> lk_result) \<Rightarrow>
   u32 \<Rightarrow> int \<Rightarrow> lock \<Rightarrow> lk_result" where
  "lk_awake ph wanted k extflags terr l =
     (let l = l\<lparr>lk_waitcount := cint (lk_waitcount l - 1)\<rparr> in
      if terr \<noteq> 0 then k terr l []
      else if lk_has extflags LK_SLEEPFAIL then k ENOLCK l []
      else lk_acquire ph wanted k l [])"

definition grant_excl :: "who \<Rightarrow> lock \<Rightarrow> lk_chan list \<Rightarrow> lk_result" where
  "grant_excl w l ws =
     (if lk_exclusivecount l \<noteq> 0 then LkPanic ''lockmgr: non-zero exclusive count''
      else lk_finish 0
        (l\<lparr>lk_flags := lk_flags l OR LK_HAVE_EXCL, lk_lockholder := fst w, lk_lockthread := snd w,
           lk_exclusivecount := 1\<rparr>) ws)"

section \<open>The requests\<close>

definition shared_done :: "int \<Rightarrow> lock \<Rightarrow> lk_chan list \<Rightarrow> lk_result" where
  "shared_done err l ws =
     (if err \<noteq> 0 then lk_finish err l ws
      else lk_finish 0 (l\<lparr>lk_sharecount := cint (lk_sharecount l + 1)\<rparr>) ws)"

definition lockmgr_downgrade :: "who \<Rightarrow> lock \<Rightarrow> lk_result" where
  "lockmgr_downgrade w l =
     (if \<not> lk_owns l w \<or> lk_exclusivecount l = 0
      then LkPanic ''lockmgr: not holding exclusive lock''
      else
        let l' = l\<lparr>lk_sharecount := cint (lk_sharecount l + lk_exclusivecount l),
                   lk_exclusivecount := 0, lk_flags := lk_flags l AND NOT LK_HAVE_EXCL,
                   lk_lockholder := LK_NOPROC, lk_lockthread := 0\<rparr>
        in lk_finish 0 l' (if lk_waitcount l' \<noteq> 0 then [OnLock] else []))"

definition lockmgr_shared :: "who \<Rightarrow> u32 \<Rightarrow> lock \<Rightarrow> lk_result" where
  "lockmgr_shared w extflags l =
     (if \<not> lk_owns l w then
        (if lk_has extflags LK_NOWAIT \<and> share_blocked l then lk_finish EBUSY l []
         else lk_acquire ShareWait share_blocked shared_done l [])
      else lockmgr_downgrade w (l\<lparr>lk_sharecount := cint (lk_sharecount l + 1)\<rparr>))"

text \<open>\<open>LK_EXCLUSIVE\<close>: the two waits, for the \<open>LK_WANT_EXCL\<close> flag and for the sharers and upgrades.\<close>

definition excl_taken :: "lock \<Rightarrow> bool" where
  "excl_taken l \<longleftrightarrow> lk_has (lk_flags l) (LK_HAVE_EXCL OR LK_WANT_EXCL)"

definition shares_left :: "lock \<Rightarrow> bool" where
  "shares_left l \<longleftrightarrow> lk_sharecount l \<noteq> 0 \<or> lk_has (lk_flags l) LK_WANT_UPGRADE"

definition excl2_done :: "who \<Rightarrow> int \<Rightarrow> lock \<Rightarrow> lk_chan list \<Rightarrow> lk_result" where
  "excl2_done w err l ws =
     (let l = l\<lparr>lk_flags := lk_flags l AND NOT LK_WANT_EXCL\<rparr> in
      if err \<noteq> 0 then lk_finish err l ws else grant_excl w l ws)"

definition excl1_done :: "who \<Rightarrow> int \<Rightarrow> lock \<Rightarrow> lk_chan list \<Rightarrow> lk_result" where
  "excl1_done w err l ws =
     (if err \<noteq> 0 then lk_finish err l ws
      else lk_acquire ExclWait2 shares_left (excl2_done w)
        (l\<lparr>lk_flags := lk_flags l OR LK_WANT_EXCL\<rparr>) ws)"

definition lockmgr_exclusive :: "who \<Rightarrow> u32 \<Rightarrow> lock \<Rightarrow> lk_chan list \<Rightarrow> lk_result" where
  "lockmgr_exclusive w extflags l ws =
     (if lk_owns l w then
        (if \<not> lk_has extflags LK_CANRECURSE then LkPanic ''lockmgr: locking against myself''
         else lk_finish 0 (l\<lparr>lk_exclusivecount := cshort (lk_exclusivecount l + 1)\<rparr>) ws)
      else if lk_has extflags LK_NOWAIT \<and> (share_blocked l \<or> lk_sharecount l \<noteq> 0)
      then lk_finish EBUSY l ws
      else lk_acquire ExclWait1 excl_taken (excl1_done w) l ws)"

text \<open>\<open>LK_UPGRADE\<close> and \<open>LK_EXCLUPGRADE\<close>.\<close>

definition upgrade_done :: "who \<Rightarrow> int \<Rightarrow> lock \<Rightarrow> lk_chan list \<Rightarrow> lk_result" where
  "upgrade_done w err l ws =
     (let l = l\<lparr>lk_flags := lk_flags l AND NOT LK_WANT_UPGRADE\<rparr> in
      if err \<noteq> 0 then lk_finish err l ws else grant_excl w l ws)"

definition lockmgr_upgrade :: "who \<Rightarrow> u32 \<Rightarrow> lock \<Rightarrow> lk_result" where
  "lockmgr_upgrade w extflags l =
     (if lk_owns l w \<or> lk_sharecount l \<le> 0 then LkPanic ''lockmgr: upgrade exclusive lock''
      else
        let l = l\<lparr>lk_sharecount := cint (lk_sharecount l - 1)\<rparr> in
        if lk_has extflags LK_NOWAIT \<and> (lk_has (lk_flags l) LK_WANT_UPGRADE \<or> lk_sharecount l > 1)
        then lk_finish EBUSY l []
        else if \<not> lk_has (lk_flags l) LK_WANT_UPGRADE
        then lk_acquire UpgradeWait (\<lambda>l. lk_sharecount l \<noteq> 0) (upgrade_done w)
               (l\<lparr>lk_flags := lk_flags l OR LK_WANT_UPGRADE\<rparr>) []
        else lockmgr_exclusive w extflags l
               (if lk_sharecount l = 0 \<and> lk_waitcount l \<noteq> 0 then [OnLock] else []))"

definition lockmgr_exclupgrade :: "who \<Rightarrow> u32 \<Rightarrow> lock \<Rightarrow> lk_result" where
  "lockmgr_exclupgrade w extflags l =
     (if lk_has (lk_flags l) LK_WANT_UPGRADE
      then lk_finish EBUSY (l\<lparr>lk_sharecount := cint (lk_sharecount l - 1)\<rparr>) []
      else lockmgr_upgrade w extflags l)"

definition lockmgr_release :: "who \<Rightarrow> lock \<Rightarrow> lk_result" where
  "lockmgr_release w l =
     (let wake = (\<lambda>l. lk_finish 0 l (if lk_waitcount l \<noteq> 0 then [OnLock] else [])) in
      if lk_exclusivecount l \<noteq> 0 then
        (if \<not> lk_owns l w then LkPanic ''lockmgr: not exclusive lock holder unlocking''
         else
           let l = l\<lparr>lk_exclusivecount := cshort (lk_exclusivecount l - 1)\<rparr> in
           if lk_exclusivecount l = 0
           then wake (l\<lparr>lk_flags := lk_flags l AND NOT LK_HAVE_EXCL,
                        lk_lockholder := LK_NOPROC, lk_lockthread := 0\<rparr>)
           else wake l)
      else if lk_sharecount l \<noteq> 0
      then wake (l\<lparr>lk_sharecount := cint (lk_sharecount l - 1)\<rparr>)
      else wake l)"

definition drain_loop :: "who \<Rightarrow> lock \<Rightarrow> lk_result" where
  "drain_loop w l =
     (if drain_blocked l then LkSleep DrainWait (l\<lparr>lk_flags := lk_flags l OR LK_WAITDRAIN\<rparr>) []
      else lk_finish 0
        (l\<lparr>lk_flags := lk_flags l OR (LK_DRAINING OR LK_HAVE_EXCL), lk_lockholder := fst w,
           lk_lockthread := snd w, lk_exclusivecount := 1\<rparr>) [])"

definition lockmgr_drain :: "who \<Rightarrow> u32 \<Rightarrow> lock \<Rightarrow> lk_result" where
  "lockmgr_drain w extflags l =
     (if lk_owns l w then LkPanic ''lockmgr: draining against myself''
      else if lk_has extflags LK_NOWAIT \<and> drain_blocked l then lk_finish EBUSY l []
      else drain_loop w l)"

text \<open>\<open>p\<close> is the process id that \<open>lockmgr\<close> takes from its argument, \<open>LK_KERNPROC\<close> for none.\<close>

definition lk_extflags :: "u32 \<Rightarrow> lock \<Rightarrow> u32" where
  "lk_extflags flags l = (flags OR lk_flags l) AND LK_EXTFLG_MASK"

definition lk_caller :: "int option \<Rightarrow> nat \<Rightarrow> who" where
  "lk_caller p self = (case p of Some pid \<Rightarrow> pid | None \<Rightarrow> LK_KERNPROC, self)"

definition lockmgr :: "lock \<Rightarrow> u32 \<Rightarrow> who \<Rightarrow> lk_result" where
  "lockmgr l flags w =
     (let extflags = lk_extflags flags l; type = flags AND LK_TYPE_MASK in
      if type = LK_SHARED then lockmgr_shared w extflags l
      else if type = LK_DOWNGRADE then lockmgr_downgrade w l
      else if type = LK_EXCLUPGRADE then lockmgr_exclupgrade w extflags l
      else if type = LK_UPGRADE then lockmgr_upgrade w extflags l
      else if type = LK_EXCLUSIVE then lockmgr_exclusive w extflags l []
      else if type = LK_RELEASE then lockmgr_release w l
      else if type = LK_DRAIN then lockmgr_drain w extflags l
      else LkPanic ''lockmgr: unknown locktype request'')"

text \<open>A sleep of \<open>LK_DRAIN\<close> that fails returns at once, without the final test.\<close>

definition lockmgr_resume :: "lock \<Rightarrow> who \<Rightarrow> lk_phase \<Rightarrow> u32 \<Rightarrow> int \<Rightarrow> lk_result" where
  "lockmgr_resume l w ph extflags terr =
     (case ph of
        ShareWait \<Rightarrow> lk_awake ShareWait share_blocked shared_done extflags terr l
      | UpgradeWait \<Rightarrow>
          lk_awake UpgradeWait (\<lambda>l. lk_sharecount l \<noteq> 0) (upgrade_done w) extflags terr l
      | ExclWait1 \<Rightarrow> lk_awake ExclWait1 excl_taken (excl1_done w) extflags terr l
      | ExclWait2 \<Rightarrow> lk_awake ExclWait2 shares_left (excl2_done w) extflags terr l
      | DrainWait \<Rightarrow>
          if terr \<noteq> 0 then LkRet terr l []
          else if lk_has extflags LK_SLEEPFAIL then LkRet ENOLCK l []
          else drain_loop w l)"

end
