(* ===== verification/Lock_System.thy ===== *)
theory Lock_System
  imports Lock_Manager
begin

text \<open>
  Threads that use one lock of Lock_Manager: the state of every caller between the atomic
  sections of its calls, the steps that the interlock lets interleave, and the invariant that all of
  them keep.  What a caller holds is counted beside the lock, from the requests it made and the
  results it got.
\<close>

section \<open>Flags as bits\<close>

lemma lk_has_OR: "lk_has f (a OR b) \<longleftrightarrow> lk_has f a \<or> lk_has f b"
  by (auto simp: lk_has_def bit_eq_iff bit_simps)

lemma lk_has_bit: "lk_has f (push_bit n 1) \<longleftrightarrow> bit f n"
  by (simp add: lk_has_def bit_iff_and_push_bit_not_eq_0)

lemma lk_has_flags [simp]:
  "lk_has f 0x100 \<longleftrightarrow> bit f 8" "lk_has f 0x200 \<longleftrightarrow> bit f 9" "lk_has f 0x400 \<longleftrightarrow> bit f 10"
  "lk_has f 0x800 \<longleftrightarrow> bit f 11" "lk_has f 0x10 \<longleftrightarrow> bit f 4" "lk_has f 0x20 \<longleftrightarrow> bit f 5"
  "lk_has f 0x40 \<longleftrightarrow> bit f 6"
  using lk_has_bit [of f 8] lk_has_bit [of f 9] lk_has_bit [of f 10] lk_has_bit [of f 11]
    lk_has_bit [of f 4] lk_has_bit [of f 5] lk_has_bit [of f 6]
  by (simp_all add: push_bit_eq_mult)

lemma lk_has_masks [simp]:
  "lk_has f 0x700 \<longleftrightarrow> bit f 8 \<or> bit f 9 \<or> bit f 10"
  "lk_has f 0x600 \<longleftrightarrow> bit f 9 \<or> bit f 10"
  using lk_has_OR [of f "0x400" "0x300"] lk_has_OR [of f "0x100" "0x200"]
    lk_has_OR [of f "0x400" "0x200"]
  by auto

lemma cint_id: "- (2 ^ 31) \<le> n \<Longrightarrow> n < 2 ^ 31 \<Longrightarrow> cint n = n"
  by (simp add: cint_def signed_take_bit_int_eq_self)

lemma cshort_id: "- (2 ^ 15) \<le> n \<Longrightarrow> n < 2 ^ 15 \<Longrightarrow> cshort n = n"
  by (simp add: cshort_def signed_take_bit_int_eq_self)

section \<open>Callers and steps\<close>

record lk_sys =
  lkp :: lock
  phase :: "who \<Rightarrow> lk_phase option"
  sleep_ext :: "who \<Rightarrow> u32"
  woken :: "who \<Rightarrow> bool"
  shares :: "who \<Rightarrow> int"
  excls :: "who \<Rightarrow> int"

text \<open>A wakeup makes the sleepers of its channel runnable: the \<open>ACQUIRE\<close> loops sleep on the
  lock, \<open>LK_DRAIN\<close> on its flags.\<close>

definition lk_deliver :: "lk_chan list \<Rightarrow> lk_sys \<Rightarrow> lk_sys" where
  "lk_deliver ws s =
     (let awake = woken s; ph = phase s in
      s\<lparr>woken := (\<lambda>t. awake t \<or>
        (case ph t of None \<Rightarrow> False
         | Some p \<Rightarrow> (if p = DrainWait then OnFlags else OnLock) \<in> set ws))\<rparr>)"

text \<open>What a caller holds after a request that succeeded.\<close>

definition lk_gain :: "u32 \<Rightarrow> int \<times> int \<Rightarrow> int \<times> int" where
  "lk_gain type h =
     (let (a, b) = h in
      if type = LK_SHARED then (a + 1 + b, 0)
      else if type = LK_DOWNGRADE then (a + b, 0)
      else if type = LK_RELEASE then (if b > 0 then (a, b - 1) else if a > 0 then (a - 1, b) else (a, b))
      else (a, b + 1))"

text \<open>An upgrade gives up its shared lock at once, whatever comes of it.\<close>

definition lk_give_up :: "u32 \<Rightarrow> int \<times> int \<Rightarrow> int \<times> int" where
  "lk_give_up type h =
     (if type = LK_UPGRADE \<or> type = LK_EXCLUPGRADE then (fst h - 1, snd h) else h)"

definition lk_settle ::
  "who \<Rightarrow> u32 \<Rightarrow> int \<times> int \<Rightarrow> int \<times> int \<Rightarrow> lk_sys \<Rightarrow> lk_result \<Rightarrow> lk_sys option" where
  "lk_settle w extflags h0 h1 s r =
     (let hold = (\<lambda>h s. s\<lparr>shares := (shares s)(w := fst h), excls := (excls s)(w := snd h)\<rparr>);
          s' = (\<lambda>l ws. lk_deliver ws (s\<lparr>lkp := l, phase := (phase s)(w := None)\<rparr>))
      in case r of
        LkPanic m \<Rightarrow> None
      | LkRet err l ws \<Rightarrow> Some (hold (if err = 0 then h1 else h0) (s' l ws))
      | LkSleep ph l ws \<Rightarrow>
          Some (hold h0 ((s' l ws)\<lparr>phase := (phase s)(w := Some ph),
            sleep_ext := (sleep_ext s)(w := extflags), woken := (woken (s' l ws))(w := False)\<rparr>)))"

definition lk_request :: "who \<Rightarrow> u32 \<Rightarrow> lk_sys \<Rightarrow> lk_sys option" where
  "lk_request w flags s =
     (let type = flags AND LK_TYPE_MASK; h0 = lk_give_up type (shares s w, excls s w) in
      lk_settle w (lk_extflags flags (lkp s)) h0 (lk_gain type h0) s (lockmgr (lkp s) flags w))"

definition lk_resume :: "who \<Rightarrow> int \<Rightarrow> lk_sys \<Rightarrow> lk_sys option" where
  "lk_resume w terr s =
     (case phase s w of
        None \<Rightarrow> Some s
      | Some ph \<Rightarrow>
          let h0 = (shares s w, excls s w);
              h1 = lk_gain (if ph = ShareWait then LK_SHARED else LK_EXCLUSIVE) h0
          in lk_settle w (sleep_ext s w) h0 h1 s (lockmgr_resume (lkp s) w ph (sleep_ext s w) terr))"

text \<open>What \<open>lockmgr\<close> asks of its callers (it panics or goes wrong otherwise), and room in the
  counters: fewer than \<open>2 ^ 30\<close> shared locks and sleepers, and nesting within a \<open>short\<close>.\<close>

definition lk_legal :: "who set \<Rightarrow> who \<Rightarrow> u32 \<Rightarrow> lk_sys \<Rightarrow> bool" where
  "lk_legal T w flags s \<longleftrightarrow>
     (let type = flags AND LK_TYPE_MASK; ext = lk_extflags flags (lkp s) in
      (\<Sum>t \<in> T. shares s t) + int (card T) < 2 ^ 30 \<and> excls s w < 32767 \<and>
      (type = LK_SHARED \<or> (type = LK_DOWNGRADE \<and> excls s w > 0) \<or>
       ((type = LK_UPGRADE \<or> type = LK_EXCLUPGRADE) \<and> shares s w > 0) \<or>
       (type = LK_EXCLUSIVE \<and> (excls s w = 0 \<or> lk_has ext LK_CANRECURSE)) \<or>
       (type = LK_RELEASE \<and> shares s w + excls s w > 0) \<or>
       (type = LK_DRAIN \<and> excls s w = 0)))"

text \<open>A step: a caller that is not asleep makes a request, or a sleeper returns from \<open>tsleep\<close>, without
  error when it was woken, with an error (a signal or a timeout) at any time.  \<open>None\<close> is a panic.\<close>

inductive lk_step :: "who set \<Rightarrow> lk_sys \<Rightarrow> lk_sys option \<Rightarrow> bool" for T where
  request: "w \<in> T \<Longrightarrow> phase s w = None \<Longrightarrow> lk_legal T w flags s \<Longrightarrow>
    lk_step T s (lk_request w flags s)"
| woken: "w \<in> T \<Longrightarrow> phase s w \<noteq> None \<Longrightarrow> woken s w \<Longrightarrow> lk_step T s (lk_resume w 0 s)"
| interrupted: "w \<in> T \<Longrightarrow> phase s w \<noteq> None \<Longrightarrow> terr \<noteq> 0 \<Longrightarrow> lk_step T s (lk_resume w terr s)"

definition lk_start :: "lock \<Rightarrow> lk_sys" where
  "lk_start l = \<lparr>lkp = l, phase = (\<lambda>_. None), sleep_ext = (\<lambda>_. 0), woken = (\<lambda>_. False),
     shares = (\<lambda>_. 0), excls = (\<lambda>_. 0)\<rparr>"

inductive lk_reach :: "who set \<Rightarrow> lock \<Rightarrow> lk_sys option \<Rightarrow> bool" for T l where
  start: "lk_reach T l (Some (lk_start l))"
| step: "lk_reach T l (Some s) \<Longrightarrow> lk_step T s r \<Longrightarrow> lk_reach T l r"

section \<open>The lock and one caller\<close>

text \<open>The totals of all callers but one, and how the lock fits them and that one: in phase
  \<open>p\<close>, counted as a sleeper when \<open>z\<close>, holding \<open>a\<close> shared and \<open>b\<close> exclusive locks.\<close>

record lk_others =
  oshares :: int
  oexcls :: int
  owaits :: int
  oupgrades :: int
  owants :: int
  oshwaits :: int

definition lk_fits :: "lk_others \<Rightarrow> who \<Rightarrow> lock \<Rightarrow> lk_phase option \<Rightarrow> bool \<Rightarrow> int \<Rightarrow> int \<Rightarrow> bool" where
  "lk_fits Q w l p z a b \<longleftrightarrow>
     lk_sharecount l = oshares Q + a \<and> lk_exclusivecount l = oexcls Q + b \<and>
     lk_waitcount l = owaits Q + (if z \<and> p \<noteq> None \<and> p \<noteq> Some DrainWait then 1 else 0) \<and>
     (if bit (lk_flags l) 8 then 1 else 0) = oupgrades Q + (if p = Some UpgradeWait then 1 else 0) \<and>
     (if bit (lk_flags l) 9 then 1 else 0) = owants Q + (if p = Some ExclWait2 then 1 else 0) \<and>
     (bit (lk_flags l) 10 \<longleftrightarrow> oexcls Q + b \<noteq> 0) \<and>
     (oexcls Q + b = 0 \<longrightarrow> lk_lockholder l = LK_NOPROC) \<and>
     (oexcls Q + b \<noteq> 0 \<longrightarrow> oshares Q + a = 0 \<and> \<not> bit (lk_flags l) 8) \<and>
     (b > 0 \<longrightarrow> lk_owns l w \<and> oexcls Q = 0) \<and> (oexcls Q > 0 \<longrightarrow> \<not> lk_owns l w) \<and>
     (p \<noteq> None \<longrightarrow> b = 0) \<and> 0 \<le> a \<and> 0 \<le> b \<and> b \<le> 32767 \<and>
     0 \<le> oshares Q \<and> 0 \<le> oexcls Q \<and> 0 \<le> owaits Q \<and> 0 \<le> oupgrades Q \<and> 0 \<le> owants Q \<and>
     0 \<le> oshwaits Q \<and> oshwaits Q \<le> owaits Q \<and> owaits Q < 2 ^ 30 \<and>
     oshares Q + a + oshwaits Q + (if p = Some ShareWait then 1 else 0) \<le> 2 ^ 30 + 40000"

definition owner_kept :: "lk_others \<Rightarrow> lock \<Rightarrow> lock \<Rightarrow> bool" where
  "owner_kept Q l l' \<longleftrightarrow>
     (oexcls Q > 0 \<longrightarrow> lk_lockholder l' = lk_lockholder l \<and> lk_lockthread l' = lk_lockthread l)"

definition lk_post ::
  "lk_others \<Rightarrow> who \<Rightarrow> lock \<Rightarrow> lk_result \<Rightarrow> int \<times> int \<Rightarrow> int \<times> int \<Rightarrow> bool" where
  "lk_post Q w l0 r h0 h1 \<longleftrightarrow>
     (case r of
        LkPanic m \<Rightarrow> True
      | LkRet err l ws \<Rightarrow>
          owner_kept Q l0 l \<and>
          (if err = 0 then lk_fits Q w l None False (fst h1) (snd h1)
           else lk_fits Q w l None False (fst h0) (snd h0))
      | LkSleep ph l ws \<Rightarrow> owner_kept Q l0 l \<and> lk_fits Q w l (Some ph) True (fst h0) (snd h0))"

lemma finish_post:
  assumes "owner_kept Q l0 l" and "err = 0 \<Longrightarrow> lk_fits Q w l None False (fst h1) (snd h1)"
    and "err \<noteq> 0 \<Longrightarrow> lk_fits Q w l None False (fst h0) (snd h0)"
  shows "lk_post Q w l0 (lk_finish err l ws) h0 h1"
proof -
  have "lk_fits Q w (l\<lparr>lk_flags := lk_flags l AND NOT LK_WAITDRAIN\<rparr>) p z a b = lk_fits Q w l p z a b" for p z a b
    by (simp add: lk_fits_def lk_owns_def bit_simps)
  moreover have "owner_kept Q l0 (l\<lparr>lk_flags := lk_flags l AND NOT LK_WAITDRAIN\<rparr>)"
    using assms(1) by (simp add: owner_kept_def)
  ultimately show ?thesis
    using assms by (simp add: lk_post_def lk_finish_def)
qed

lemmas lk_fits_simps = lk_fits_def lk_owns_def owner_kept_def cint_id bit_simps

lemma acquire_post:
  assumes "lk_fits Q w l (Some ph) False a b" and "ph \<noteq> DrainWait" and "owner_kept Q l0 l"
    and "\<not> wanted l \<Longrightarrow> lk_post Q w l0 (k 0 l ws) (a, b) h1"
  shows "lk_post Q w l0 (lk_acquire ph wanted k l ws) (a, b) h1"
proof (cases "wanted l")
  case True
  have "cint (lk_waitcount l + 1) = owaits Q + 1"
    using assms(1) by (simp add: lk_fits_def cint_id)
  then show ?thesis
    using assms True by (simp add: lk_post_def lk_acquire_def lk_fits_def lk_owns_def owner_kept_def)
qed (use assms in \<open>simp add: lk_acquire_def\<close>)

lemma awake_post:
  assumes "lk_fits Q w l (Some ph) True a b" and "ph \<noteq> DrainWait"
    and "\<And>err l'. lk_fits Q w l' (Some ph) False a b \<Longrightarrow> owner_kept Q l l' \<Longrightarrow>
      (err = 0 \<Longrightarrow> \<not> wanted l') \<Longrightarrow> lk_post Q w l (k err l' []) (a, b) h1"
  shows "lk_post Q w l (lk_awake ph wanted k extflags terr l) (a, b) h1"
proof -
  let ?l = "l\<lparr>lk_waitcount := cint (lk_waitcount l - 1)\<rparr>"
  have "cint (lk_waitcount l - 1) = owaits Q"
    using assms(1,2) by (simp add: lk_fits_def cint_id)
  then have fits: "lk_fits Q w ?l (Some ph) False a b" and own: "owner_kept Q l ?l"
    using assms(1,2) by (simp_all add: lk_fits_def lk_owns_def owner_kept_def)
  show ?thesis
    using assms(3) [OF fits own] acquire_post [OF fits assms(2) own, of wanted k "[]" h1]
    by (simp add: lk_awake_def Let_def)
qed

lemma shared_done_post:
  assumes "lk_fits Q w l (Some ShareWait) False a b" and "owner_kept Q l0 l"
    and "err = 0 \<Longrightarrow> \<not> share_blocked l"
  shows "lk_post Q w l0 (shared_done err l ws) (a, b) (a + 1 + b, 0)"
proof (cases "err = 0")
  case True
  let ?l = "l\<lparr>lk_sharecount := cint (lk_sharecount l + 1)\<rparr>"
  have "cint (lk_sharecount l + 1) = lk_sharecount l + 1"
    using assms(1) by (simp add: lk_fits_def cint_id)
  moreover have "\<not> bit (lk_flags l) 10" "b = 0" "oexcls Q = 0"
    using assms True by (auto simp: share_blocked_def lk_fits_def)
  ultimately have "lk_fits Q w ?l None False (a + 1 + b) 0" "owner_kept Q l0 ?l"
    using assms(1,2) by (simp_all add: lk_fits_def lk_owns_def owner_kept_def)
  then show ?thesis
    using True finish_post [of Q l0 ?l 0 w "(a + 1 + b, 0)"] by (simp add: shared_done_def)
next
  case False
  have "lk_fits Q w l None False a b"
    using assms(1) by (simp add: lk_fits_def)
  then show ?thesis
    using False finish_post [of Q l0 l err w "(a + 1 + b, 0)" "(a, b)"] assms(2)
    by (simp add: shared_done_def)
qed

lemma grant_post:
  assumes "lk_fits Q w l None False a b" and "owner_kept Q l0 l" and "lk_sharecount l = 0"
    and "\<not> bit (lk_flags l) 8"
  shows "lk_post Q w l0 (grant_excl w l ws) h0 (a, b + 1)"
proof (cases "lk_exclusivecount l = 0")
  case True
  let ?l = "l\<lparr>lk_flags := lk_flags l OR LK_HAVE_EXCL, lk_lockholder := fst w,
      lk_lockthread := snd w, lk_exclusivecount := 1\<rparr>"
  have none: "oexcls Q = 0" "b = 0"
    using assms(1) True by (simp_all add: lk_fits_def)
  then have "lk_fits Q w ?l None False a (b + 1)" "owner_kept Q l0 ?l"
    using assms by (simp_all add: lk_fits_def lk_owns_def owner_kept_def bit_simps)
  then show ?thesis
    using True finish_post [of Q l0 ?l 0 w "(a, b + 1)" h0 ws] by (simp add: grant_excl_def)
qed (simp add: grant_excl_def lk_post_def)

lemma excl2_done_post:
  assumes "lk_fits Q w l (Some ExclWait2) False a b" and "owner_kept Q l0 l"
    and "err = 0 \<Longrightarrow> \<not> shares_left l"
  shows "lk_post Q w l0 (excl2_done w err l ws) (a, b) (a, b + 1)"
proof -
  let ?l = "l\<lparr>lk_flags := lk_flags l AND NOT LK_WANT_EXCL\<rparr>"
  have "lk_fits Q w ?l None False a b" "owner_kept Q l0 ?l"
    using assms(1,2) by (auto simp: lk_fits_def lk_owns_def owner_kept_def bit_simps split: if_splits)
  then show ?thesis
    using assms(3) grant_post [of Q w ?l a b l0 ws] finish_post [of Q l0 ?l err w "(a, b + 1)" "(a, b)" ws]
    by (auto simp: excl2_done_def Let_def shares_left_def bit_simps)
qed

lemma excl1_done_post:
  assumes "lk_fits Q w l (Some ExclWait1) False a b" and "owner_kept Q l0 l"
    and "err = 0 \<Longrightarrow> \<not> excl_taken l"
  shows "lk_post Q w l0 (excl1_done w err l ws) (a, b) (a, b + 1)"
proof (cases "err = 0")
  case True
  let ?l = "l\<lparr>lk_flags := lk_flags l OR LK_WANT_EXCL\<rparr>"
  have fits: "lk_fits Q w ?l (Some ExclWait2) False a b" and own: "owner_kept Q l0 ?l"
    using assms True
    by (auto simp: lk_fits_def lk_owns_def owner_kept_def bit_simps excl_taken_def split: if_splits)
  show ?thesis
    using True acquire_post [OF fits _ own] excl2_done_post [OF fits own] by (simp add: excl1_done_def)
next
  case False
  have "lk_fits Q w l None False a b"
    using assms(1) by (simp add: lk_fits_def)
  then show ?thesis
    using False finish_post [of Q l0 l err w "(a, b + 1)" "(a, b)"] assms(2)
    by (simp add: excl1_done_def)
qed

lemma upgrade_done_post:
  assumes "lk_fits Q w l (Some UpgradeWait) False a b" and "owner_kept Q l0 l"
    and "err = 0 \<Longrightarrow> \<not> lk_sharecount l \<noteq> 0"
  shows "lk_post Q w l0 (upgrade_done w err l ws) (a, b) (a, b + 1)"
proof -
  let ?l = "l\<lparr>lk_flags := lk_flags l AND NOT LK_WANT_UPGRADE\<rparr>"
  have "lk_fits Q w ?l None False a b" "owner_kept Q l0 ?l"
    using assms(1,2) by (auto simp: lk_fits_def lk_owns_def owner_kept_def bit_simps split: if_splits)
  then show ?thesis
    using assms(3) grant_post [of Q w ?l a b l0 ws] finish_post [of Q l0 ?l err w "(a, b + 1)" "(a, b)" ws]
    by (auto simp: upgrade_done_def Let_def bit_simps)
qed

lemma downgrade_post:
  assumes "lk_fits Q w l None False a b" and "c = 0 \<or> c = 1" and "0 < b"
  shows "lk_post Q w l (lockmgr_downgrade w (l\<lparr>lk_sharecount := cint (lk_sharecount l + c)\<rparr>))
    h0 (a + c + b, 0)"
proof -
  have own: "lk_owns l w" and z: "oexcls Q = 0" "lk_sharecount l = 0" "lk_exclusivecount l = b" "b \<le> 32767"
    "oshares Q = 0" "a = 0"
    using assms(1,3) by (auto simp: lk_fits_def)
  have c: "cint c = c" "cint (c + b) = c + b"
    using assms(2,3) z(4) by (auto intro!: cint_id)
  let ?l = "l\<lparr>lk_sharecount := c + b, lk_exclusivecount := 0, lk_flags := lk_flags l AND NOT LK_HAVE_EXCL,
       lk_lockholder := LK_NOPROC, lk_lockthread := 0\<rparr>"
  have "lk_fits Q w ?l None False (a + c + b) 0"
    using assms z unfolding lk_fits_def by (auto simp: bit_simps)
  moreover have "owner_kept Q l ?l"
    using z by (simp add: owner_kept_def)
  moreover have "lockmgr_downgrade w (l\<lparr>lk_sharecount := cint (lk_sharecount l + c)\<rparr>) =
      lk_finish 0 ?l (if lk_waitcount ?l \<noteq> 0 then [OnLock] else [])"
    using own z(2,3) c assms(3) by (simp add: lockmgr_downgrade_def lk_owns_def)
  ultimately show ?thesis
    using finish_post [of Q l ?l 0 w "(a + c + b, 0)"] by simp
qed

lemma shared_post:
  assumes "lk_fits Q w l None False a b" and "oshares Q + a + oshwaits Q < 2 ^ 30" and "fst w \<noteq> LK_NOPROC"
  shows "lk_post Q w l (lockmgr_shared w extflags l) (a, b) (a + 1 + b, 0)"
proof (cases "lk_owns l w")
  case True
  then have "0 < b"
    using assms(1,3) by (auto simp: lk_fits_def lk_owns_def)
  then show ?thesis
    using True downgrade_post [OF assms(1), of 1] by (simp add: lockmgr_shared_def)
next
  case False
  then have b: "b = 0"
    using assms(1) by (auto simp: lk_fits_def)
  then have fits: "lk_fits Q w l (Some ShareWait) False a b"
    using assms(1,2) by (simp add: lk_fits_def)
  have own: "owner_kept Q l l"
    by (simp add: owner_kept_def)
  show ?thesis
    using False acquire_post [OF fits _ own] shared_done_post [OF fits own]
      finish_post [OF own, of EBUSY w "(a + 1 + b, 0)" "(a, b)" "[]"] assms(1)
    by (simp add: lockmgr_shared_def)
qed

lemma exclusive_post:
  assumes "lk_fits Q w l None False a b" and "owner_kept Q l0 l" and "b < 32767"
    and "fst w \<noteq> LK_NOPROC"
  shows "lk_post Q w l0 (lockmgr_exclusive w extflags l ws) (a, b) (a, b + 1)"
proof (cases "lk_owns l w")
  case True
  then have b: "0 < b"
    using assms(1,4) by (auto simp: lk_fits_def lk_owns_def)
  let ?l = "l\<lparr>lk_exclusivecount := cshort (lk_exclusivecount l + 1)\<rparr>"
  have "lk_exclusivecount l = b"
    using assms(1) b by (simp add: lk_fits_def)
  then have "cshort (lk_exclusivecount l + 1) = b + 1"
    using b assms(3) by (simp add: cshort_id)
  moreover have "\<not> bit (lk_flags l) 8" "oupgrades Q = 0" "oexcls Q = 0"
    using assms b by (auto simp: lk_fits_def)
  ultimately have "lk_fits Q w ?l None False a (b + 1)" "owner_kept Q l0 ?l"
    using assms b by (simp_all add: lk_fits_def lk_owns_def owner_kept_def)
  then show ?thesis
    using True finish_post [of Q l0 ?l 0 w "(a, b + 1)"]
    by (auto simp: lockmgr_exclusive_def lk_post_def [of Q w l0 "LkPanic m" for m])
next
  case False
  then have b: "b = 0"
    using assms(1) by (auto simp: lk_fits_def)
  then have fits: "lk_fits Q w l (Some ExclWait1) False a b"
    using assms(1) by (simp add: lk_fits_def)
  show ?thesis
    using False acquire_post [OF fits _ assms(2)] excl1_done_post [OF fits assms(2)]
      finish_post [OF assms(2), of EBUSY w "(a, b + 1)" "(a, b)" ws] assms(1)
    by (simp add: lockmgr_exclusive_def)
qed

lemma upgrade_post:
  assumes "lk_fits Q w l None False a b" and "0 < a" and "fst w \<noteq> LK_NOPROC"
  shows "lk_post Q w l (lockmgr_upgrade w extflags l) (a - 1, b) (a - 1, b + 1)"
proof -
  have b: "b = 0" and e: "oexcls Q = 0"
    using assms(1,2) by (auto simp: lk_fits_def)
  let ?l = "l\<lparr>lk_sharecount := cint (lk_sharecount l - 1)\<rparr>"
  have "cint (lk_sharecount l - 1) = lk_sharecount l - 1"
    using assms(1,2) by (simp add: lk_fits_def cint_id)
  then have fits: "lk_fits Q w ?l None False (a - 1) b" and own: "owner_kept Q l ?l"
    using assms(1,2) b e by (simp_all add: lk_fits_def lk_owns_def owner_kept_def)
  let ?u = "?l\<lparr>lk_flags := lk_flags l OR LK_WANT_UPGRADE\<rparr>"
  have up: "lk_fits Q w ?u (Some UpgradeWait) False (a - 1) b \<and> owner_kept Q l ?u"
    if "\<not> bit (lk_flags l) 8"
    using fits own that b e by (simp add: lk_fits_def lk_owns_def owner_kept_def bit_simps)
  have acq: "lk_post Q w l (lk_acquire UpgradeWait (\<lambda>l. lk_sharecount l \<noteq> 0) (upgrade_done w) ?u [])
      (a - 1, b) (a - 1, b + 1)" if "\<not> bit (lk_flags l) 8"
    using up [OF that] by (auto intro!: acquire_post upgrade_done_post)
  show ?thesis
    using acq exclusive_post [OF fits own _ assms(3)] b
      finish_post [OF own, of EBUSY w "(a - 1, b + 1)" "(a - 1, b)" "[]"] fits
    by (simp add: lockmgr_upgrade_def Let_def lk_post_def [of Q w l "LkPanic m" for m])
qed

lemma exclupgrade_post:
  assumes "lk_fits Q w l None False a b" and "0 < a" and "fst w \<noteq> LK_NOPROC"
  shows "lk_post Q w l (lockmgr_exclupgrade w extflags l) (a - 1, b) (a - 1, b + 1)"
proof -
  let ?l = "l\<lparr>lk_sharecount := cint (lk_sharecount l - 1)\<rparr>"
  have "cint (lk_sharecount l - 1) = lk_sharecount l - 1"
    using assms(1,2) by (simp add: lk_fits_def cint_id)
  then have "lk_fits Q w ?l None False (a - 1) b" "owner_kept Q l ?l"
    using assms(1,2) by (auto simp: lk_fits_def lk_owns_def owner_kept_def)
  then show ?thesis
    using upgrade_post [OF assms] finish_post [of Q l ?l EBUSY w "(a - 1, b + 1)" "(a - 1, b)" "[]"]
    by (simp add: lockmgr_exclupgrade_def)
qed

lemma release_post:
  assumes "lk_fits Q w l None False a b" and "0 < a + b"
  shows "lk_post Q w l (lockmgr_release w l) h0 (lk_gain LK_RELEASE (a, b))"
proof (cases "lk_exclusivecount l = 0")
  case True
  then have b: "b = 0" "oexcls Q = 0" and a: "0 < a"
    using assms by (simp_all add: lk_fits_def)
  let ?l = "l\<lparr>lk_sharecount := cint (lk_sharecount l - 1)\<rparr>"
  have "cint (lk_sharecount l - 1) = lk_sharecount l - 1" and nz: "lk_sharecount l \<noteq> 0"
    using assms(1) a by (simp_all add: lk_fits_def cint_id)
  then have "lk_fits Q w ?l None False (a - 1) b" "owner_kept Q l ?l"
    using assms(1) a b by (simp_all add: lk_fits_def lk_owns_def owner_kept_def)
  then show ?thesis
    using True nz a b finish_post [of Q l ?l 0 w "(a - 1, b)"]
    by (simp add: lockmgr_release_def Let_def lk_gain_def)
next
  case False
  show ?thesis
  proof (cases "lk_owns l w")
    case own: True
    then have z: "oexcls Q = 0" "lk_exclusivecount l = b" "0 < b" "\<not> bit (lk_flags l) 8"
      "oshares Q = 0" "a = 0" "b \<le> 32767" "lk_waitcount l = owaits Q"
      using assms(1) False by (auto simp: lk_fits_def)
    have c: "cshort (b - 1) = b - 1"
      using z(3,7) by (simp add: cshort_id)
    let ?l = "l\<lparr>lk_exclusivecount := b - 1\<rparr>"
    let ?f = "?l\<lparr>lk_flags := lk_flags l AND NOT LK_HAVE_EXCL, lk_lockholder := LK_NOPROC, lk_lockthread := 0\<rparr>"
    have "owner_kept Q l ?l" "owner_kept Q l ?f"
      using z(1) by (simp_all add: owner_kept_def)
    moreover have "b \<noteq> 1 \<Longrightarrow> lk_fits Q w ?l None False a (b - 1)"
      using assms(1) own z by (simp add: lk_fits_def lk_owns_def)
    moreover have "b = 1 \<Longrightarrow> lk_fits Q w ?f None False a (b - 1)"
      using assms(1) z by (simp add: lk_fits_def lk_owns_def bit_simps)
    ultimately show ?thesis
      using False own z(2,3) c finish_post [of Q l ?l 0 w "(a, b - 1)"] finish_post [of Q l ?f 0 w "(a, b - 1)"]
      by (cases "b = 1") (simp_all add: lockmgr_release_def Let_def lk_gain_def lk_owns_def)
  qed (use False in \<open>simp add: lockmgr_release_def lk_post_def\<close>)
qed

lemma drain_loop_post:
  assumes "lk_fits Q w l p z a b" and "p = None \<or> p = Some DrainWait" and "b = 0"
  shows "lk_post Q w l (drain_loop w l) (a, b) (a, b + 1)"
proof (cases "drain_blocked l")
  case True
  then show ?thesis
    using assms by (auto simp: drain_loop_def lk_post_def lk_fits_def lk_owns_def owner_kept_def bit_simps)
next
  case False
  let ?l = "l\<lparr>lk_flags := lk_flags l OR (LK_DRAINING OR LK_HAVE_EXCL), lk_lockholder := fst w,
      lk_lockthread := snd w, lk_exclusivecount := 1\<rparr>"
  have z: "\<not> bit (lk_flags l) 8" "\<not> bit (lk_flags l) 9" "\<not> bit (lk_flags l) 10"
    "lk_sharecount l = 0" "lk_waitcount l = 0"
    using False by (simp_all add: drain_blocked_def share_blocked_def)
  then have "oexcls Q = 0"
    using assms(1,3) by (simp add: lk_fits_def)
  then have "lk_fits Q w ?l None False a (b + 1)" "owner_kept Q l ?l"
    using assms z by (auto simp: lk_fits_def lk_owns_def owner_kept_def bit_simps)
  then show ?thesis
    using False finish_post [of Q l ?l 0 w "(a, b + 1)"] by (simp add: drain_loop_def)
qed

text \<open>A whole request and a whole return from a sleep.\<close>

lemma lockmgr_post:
  assumes "lk_fits Q w l None False a b" and "oshares Q + a + oshwaits Q < 2 ^ 30" and "b < 32767"
    and "fst w \<noteq> LK_NOPROC" and "type = flags AND LK_TYPE_MASK"
    and "type = LK_UPGRADE \<or> type = LK_EXCLUPGRADE \<Longrightarrow> 0 < a"
    and "type = LK_DOWNGRADE \<Longrightarrow> 0 < b" and "type = LK_RELEASE \<Longrightarrow> 0 < a + b"
    and "type = LK_DRAIN \<Longrightarrow> b = 0"
  shows "lk_post Q w l (lockmgr l flags w) (lk_give_up type (a, b)) (lk_gain type (lk_give_up type (a, b)))"
proof -
  have own: "owner_kept Q l l"
    by (simp add: owner_kept_def)
  have drain: "lk_post Q w l (lockmgr_drain w ext l) (a, b) (a, b + 1)" if "b = 0" for ext
    using drain_loop_post [OF assms(1) _ that] finish_post [OF own, of EBUSY w "(a, b + 1)" "(a, b)" "[]"] assms(1)
    by (simp add: lockmgr_drain_def lk_post_def [of Q w l "LkPanic m" for m])
  have down: "lk_post Q w l (lockmgr_downgrade w l) (a, b) (a + b, 0)" if "0 < b"
  proof -
    have "cint (lk_sharecount l) = lk_sharecount l"
      using assms(1,2) by (simp add: lk_fits_def cint_id)
    then show ?thesis
      using downgrade_post [OF assms(1) _ that, of 0] by simp
  qed
  note posts = shared_post [OF assms(1,2,4)] exclusive_post [OF assms(1) own assms(3,4)]
    upgrade_post [OF assms(1) _ assms(4)] exclupgrade_post [OF assms(1) _ assms(4)]
    release_post [OF assms(1)]
  show ?thesis
    using posts drain down assms(5-)
    by (simp add: lockmgr_def Let_def lk_give_up_def lk_gain_def lk_post_def [of Q w l "LkPanic m" for m])
qed

lemma lockmgr_resume_post:
  assumes "lk_fits Q w l (Some ph) True a b"
  shows "lk_post Q w l (lockmgr_resume l w ph ext terr) (a, b)
    (lk_gain (if ph = ShareWait then LK_SHARED else LK_EXCLUSIVE) (a, b))"
proof -
  have b: "b = 0" and own: "owner_kept Q l l"
    using assms by (simp_all add: lk_fits_def owner_kept_def)
  show ?thesis
  proof (cases ph)
    case ShareWait
    have "lk_post Q w l (lk_awake ph share_blocked shared_done ext terr l) (a, b) (a + 1 + b, 0)"
      by (intro awake_post [OF assms] shared_done_post) (use ShareWait in auto)
    then show ?thesis
      using ShareWait by (simp add: lockmgr_resume_def lk_gain_def)
  next
    case UpgradeWait
    have "lk_post Q w l (lk_awake ph (\<lambda>l. lk_sharecount l \<noteq> 0) (upgrade_done w) ext terr l) (a, b) (a, b + 1)"
      by (intro awake_post [OF assms] upgrade_done_post) (use UpgradeWait in auto)
    then show ?thesis
      using UpgradeWait by (simp add: lockmgr_resume_def lk_gain_def)
  next
    case ExclWait1
    have "lk_post Q w l (lk_awake ph excl_taken (excl1_done w) ext terr l) (a, b) (a, b + 1)"
      by (intro awake_post [OF assms] excl1_done_post) (use ExclWait1 in auto)
    then show ?thesis
      using ExclWait1 by (simp add: lockmgr_resume_def lk_gain_def)
  next
    case ExclWait2
    have "lk_post Q w l (lk_awake ph shares_left (excl2_done w) ext terr l) (a, b) (a, b + 1)"
      by (intro awake_post [OF assms] excl2_done_post) (use ExclWait2 in auto)
    then show ?thesis
      using ExclWait2 by (simp add: lockmgr_resume_def lk_gain_def)
  next
    case DrainWait
    have "lk_fits Q w l None False a b"
      using assms DrainWait by (simp add: lk_fits_def)
    then show ?thesis
      using DrainWait drain_loop_post [OF assms _ b] own
      by (simp add: lockmgr_resume_def lk_gain_def lk_post_def)
  qed
qed

section \<open>The invariant of all callers\<close>

definition in_acquire :: "lk_phase option \<Rightarrow> bool" where
  "in_acquire p \<longleftrightarrow> p \<noteq> None \<and> p \<noteq> Some DrainWait"

definition lk_rest :: "who set \<Rightarrow> lk_sys \<Rightarrow> lk_others" where
  "lk_rest U s =
     \<lparr>oshares = (\<Sum>t \<in> U. shares s t), oexcls = (\<Sum>t \<in> U. excls s t),
      owaits = (\<Sum>t \<in> U. of_bool (in_acquire (phase s t))),
      oupgrades = (\<Sum>t \<in> U. of_bool (phase s t = Some UpgradeWait)),
      owants = (\<Sum>t \<in> U. of_bool (phase s t = Some ExclWait2)),
      oshwaits = (\<Sum>t \<in> U. of_bool (phase s t = Some ShareWait))\<rparr>"

definition lk_inv :: "who set \<Rightarrow> lk_sys \<Rightarrow> bool" where
  "lk_inv T s \<longleftrightarrow>
     (\<forall>w \<in> T. lk_fits (lk_rest (T - {w}) s) w (lkp s) (phase s w) True (shares s w) (excls s w))"

lemma sum_swap:
  fixes g :: "'b \<Rightarrow> int"
  assumes "finite T" and "t \<in> T" and "w \<in> T" and "t \<noteq> w" and "f' = f(w := x)"
  shows "(\<Sum>u \<in> T - {t}. g (f' u)) + g (f t) = (\<Sum>u \<in> T - {w}. g (f u)) + g x"
proof -
  have "(\<Sum>u \<in> T. g (f' u)) = (\<Sum>u \<in> T - {t}. g (f' u)) + g (f t)"
    using sum.remove [OF assms(1,2), of "\<lambda>u. g (f' u)"] assms(4,5) by simp
  moreover have "(\<Sum>u \<in> T. g (f' u)) = (\<Sum>u \<in> T - {w}. g (f u)) + g x"
    using sum.remove [OF assms(1,3), of "\<lambda>u. g (f' u)"] assms(5) by simp
  ultimately show ?thesis
    by simp
qed

lemma sum_of_bool_less:
  assumes "finite T" and "int (card T) < n"
  shows "0 \<le> (\<Sum>u \<in> T - U. of_bool (P u) :: int)" and "(\<Sum>u \<in> T - U. of_bool (P u) :: int) < n"
proof -
  have "(\<Sum>u \<in> T - U. of_bool (P u) :: int) \<le> (\<Sum>u \<in> T - U. 1)"
    by (rule sum_mono) simp
  also have "\<dots> \<le> int (card T)"
    using assms(1) by (simp add: card_mono)
  finally show "(\<Sum>u \<in> T - U. of_bool (P u) :: int) < n"
    using assms(2) by simp
  show "0 \<le> (\<Sum>u \<in> T - U. of_bool (P u) :: int)"
    by (rule sum_nonneg) simp
qed

lemma sum_of_bool_mono:
  "(\<And>u. P u \<Longrightarrow> Q u) \<Longrightarrow> (\<Sum>u \<in> A. of_bool (P u) :: int) \<le> (\<Sum>u \<in> A. of_bool (Q u))"
  by (rule sum_mono) auto

lemma fits_others:
  assumes T: "finite T" "int (card T) < 2 ^ 30" "t \<in> T" "w \<in> T" "t \<noteq> w"
    and old: "lk_fits (lk_rest (T - {t}) s) t (lkp s) (phase s t) True (shares s t) (excls s t)"
    and nonneg: "\<forall>u \<in> T. 0 \<le> shares s u \<and> 0 \<le> excls s u"
    and new: "lk_fits (lk_rest (T - {w}) s) w l' p True a' b'"
    and kept: "owner_kept (lk_rest (T - {w}) s) (lkp s) l'"
    and s': "lkp s' = l'" "phase s' = (phase s)(w := p)" "shares s' = (shares s)(w := a')"
      "excls s' = (excls s)(w := b')"
  shows "lk_fits (lk_rest (T - {t}) s') t (lkp s') (phase s' t) True (shares s' t) (excls s' t)"
proof -
  let ?Q = "lk_rest (T - {w}) s" and ?R = "lk_rest (T - {t}) s'"
  note swap = sum_swap [OF T(1,3,4,5)]
  have sh: "oshares ?R + shares s t = oshares ?Q + a'"
    using swap [OF s'(3), of "\<lambda>x. x"] by (simp add: lk_rest_def)
  have ex: "oexcls ?R + excls s t = oexcls ?Q + b'"
    using swap [OF s'(4), of "\<lambda>x. x"] by (simp add: lk_rest_def)
  have wa: "owaits ?R + of_bool (in_acquire (phase s t)) = owaits ?Q + of_bool (in_acquire p)"
    using swap [OF s'(2), of "\<lambda>x. of_bool (in_acquire x)"] by (simp add: lk_rest_def)
  have up: "oupgrades ?R + of_bool (phase s t = Some UpgradeWait) = oupgrades ?Q + of_bool (p = Some UpgradeWait)"
    using swap [OF s'(2), of "\<lambda>x. of_bool (x = Some UpgradeWait)"] by (simp add: lk_rest_def)
  have xw: "owants ?R + of_bool (phase s t = Some ExclWait2) = owants ?Q + of_bool (p = Some ExclWait2)"
    using swap [OF s'(2), of "\<lambda>x. of_bool (x = Some ExclWait2)"] by (simp add: lk_rest_def)
  have sw: "oshwaits ?R + of_bool (phase s t = Some ShareWait) = oshwaits ?Q + of_bool (p = Some ShareWait)"
    using swap [OF s'(2), of "\<lambda>x. of_bool (x = Some ShareWait)"] by (simp add: lk_rest_def)
  have own: "\<And>u. phase s' t = phase s t \<and> shares s' t = shares s t \<and> excls s' t = excls s t"
    using T(5) s' by simp
  have o: "0 \<le> shares s t" "0 \<le> excls s t" "excls s t \<le> 32767" "phase s t \<noteq> None \<Longrightarrow> excls s t = 0"
    "0 < excls s t \<Longrightarrow> lk_owns (lkp s) t \<and> oexcls (lk_rest (T - {t}) s) = 0"
    "0 < oexcls (lk_rest (T - {t}) s) \<Longrightarrow> \<not> lk_owns (lkp s) t"
    using old by (simp_all add: lk_fits_def)
  have n: "0 \<le> a'" "0 \<le> b'" "0 < b' \<Longrightarrow> lk_owns l' w \<and> oexcls ?Q = 0"
    "oexcls ?Q + b' \<noteq> 0 \<Longrightarrow> oshares ?Q + a' = 0"
    using new by (simp_all add: lk_fits_def)
  have le: "excls s w \<le> oexcls (lk_rest (T - {t}) s)" "excls s t \<le> oexcls ?Q"
    using T nonneg by (auto simp: lk_rest_def intro!: member_le_sum)
  have "\<forall>u \<in> T. 0 \<le> shares s' u \<and> 0 \<le> excls s' u"
    using nonneg n(1,2) s' by simp
  then have pos: "0 \<le> oshares ?R" "0 \<le> oexcls ?R"
    by (auto simp: lk_rest_def intro!: sum_nonneg)
  have old_ex: "oexcls (lk_rest (T - {t}) s) + excls s t = oexcls ?Q + excls s w"
    using sum_swap [OF T(1,3,4,5), of "excls s" "excls s" "excls s w" "\<lambda>x. x"] by (simp add: lk_rest_def)
  have mine: "lk_owns l' t \<and> oexcls ?R = 0" if "0 < excls s t"
  proof -
    have "0 < oexcls ?Q"
      using that le(2) by simp
    then have "b' = 0" "lk_owns l' t"
      using n(2,3) o(5) [OF that] kept by (force simp: owner_kept_def lk_owns_def)+
    moreover have "oexcls ?Q = excls s t"
      using old_ex o(5) [OF that] le(1) nonneg T(4) by force
    ultimately show ?thesis
      using ex by simp
  qed
  have theirs: "\<not> lk_owns l' t" if "0 < oexcls ?R"
  proof (cases "b' = 0")
    case True
    then have "excls s t = 0"
      using mine that o(2) by force
    then have "0 < oexcls ?Q"
      using ex that True by simp
    moreover have "0 < oexcls (lk_rest (T - {t}) s)"
      using old_ex \<open>excls s t = 0\<close> calculation nonneg T(4) by force
    ultimately show ?thesis
      using kept o(6) by (simp add: owner_kept_def lk_owns_def)
  next
    case False
    then have "lk_owns l' w"
      using n by simp
    then show ?thesis
      using T(5) by (auto simp: lk_owns_def prod_eq_iff)
  qed
  have cnt: "0 \<le> owaits ?R" "owaits ?R < 2 ^ 30" "0 \<le> oupgrades ?R" "0 \<le> owants ?R" "0 \<le> oshwaits ?R"
    using sum_of_bool_less [OF T(1,2)] by (simp_all add: lk_rest_def)
  have "oshwaits ?R \<le> owaits ?R"
    unfolding lk_rest_def by (simp add: in_acquire_def) (rule sum_of_bool_mono, simp)
  have tot: "lk_sharecount l' = oshares ?R + shares s t" "lk_exclusivecount l' = oexcls ?R + excls s t"
    "lk_waitcount l' = owaits ?R + of_bool (in_acquire (phase s t))"
    "(if bit (lk_flags l') 8 then 1 else 0) = oupgrades ?R + of_bool (phase s t = Some UpgradeWait)"
    "(if bit (lk_flags l') 9 then 1 else 0) = owants ?R + of_bool (phase s t = Some ExclWait2)"
    "bit (lk_flags l') 10 \<longleftrightarrow> oexcls ?R + excls s t \<noteq> 0"
    "oexcls ?R + excls s t = 0 \<longrightarrow> lk_lockholder l' = LK_NOPROC"
    "oexcls ?R + excls s t \<noteq> 0 \<longrightarrow> oshares ?R + shares s t = 0 \<and> \<not> bit (lk_flags l') 8"
    using new unfolding sh ex wa up xw by (simp_all add: lk_fits_def in_acquire_def of_bool_def)
  have "oshares ?Q + a' + oshwaits ?Q + of_bool (p = Some ShareWait) \<le> 2 ^ 30 + 40000"
    using new by (simp add: lk_fits_def of_bool_def)
  then have room: "oshares ?R + shares s t + oshwaits ?R + of_bool (phase s t = Some ShareWait) \<le> 2 ^ 30 + 40000"
    using sh sw by linarith
  show ?thesis
    using tot room mine theirs cnt pos o own s'(1) \<open>oshwaits ?R \<le> owaits ?R\<close>
    by (simp add: lk_fits_def in_acquire_def of_bool_def)
qed

lemma lk_rest_update:
  assumes "phase s' = (phase s)(w := p)" and "shares s' = (shares s)(w := a)"
    and "excls s' = (excls s)(w := b)"
  shows "lk_rest (T - {w}) s' = lk_rest (T - {w}) s"
  using assms by (simp add: lk_rest_def)

lemma lk_inv_update:
  assumes "finite T" "int (card T) < 2 ^ 30" "w \<in> T" and "lk_inv T s"
    and "lk_fits (lk_rest (T - {w}) s) w l' p True a b"
    and "owner_kept (lk_rest (T - {w}) s) (lkp s) l'"
    and "lkp s' = l'" "phase s' = (phase s)(w := p)" "shares s' = (shares s)(w := a)"
      "excls s' = (excls s)(w := b)"
  shows "lk_inv T s'"
  unfolding lk_inv_def
proof
  fix t
  assume t: "t \<in> T"
  have nonneg: "\<forall>u \<in> T. 0 \<le> shares s u \<and> 0 \<le> excls s u"
    using assms(4) by (simp add: lk_inv_def lk_fits_def)
  show "lk_fits (lk_rest (T - {t}) s') t (lkp s') (phase s' t) True (shares s' t) (excls s' t)"
  proof (cases "t = w")
    case True
    then show ?thesis
      using assms(5,7-10) lk_rest_update [OF assms(8-10)] by simp
  next
    case False
    show ?thesis
      by (rule fits_others [OF assms(1,2) t assms(3) False _ nonneg assms(5-10)])
        (use assms(4) t in \<open>simp add: lk_inv_def\<close>)
  qed
qed

lemma lk_settle_inv:
  assumes "finite T" "int (card T) < 2 ^ 30" "w \<in> T" and "lk_inv T s"
    and "lk_post (lk_rest (T - {w}) s) w (lkp s) r h0 h1"
    and "lk_settle w ext h0 h1 s r = Some s'"
  shows "lk_inv T s'"
proof (cases r)
  case (LkRet err l ws)
  let ?h = "if err = 0 then h1 else h0"
  have "lk_fits (lk_rest (T - {w}) s) w l None True (fst ?h) (snd ?h)"
    "owner_kept (lk_rest (T - {w}) s) (lkp s) l"
    using assms(5) LkRet by (auto simp: lk_post_def lk_fits_def)
  from lk_inv_update [OF assms(1-4) this] show ?thesis
    using assms(6) LkRet by (auto simp: lk_settle_def lk_deliver_def Let_def)
next
  case (LkSleep ph l ws)
  have "lk_fits (lk_rest (T - {w}) s) w l (Some ph) True (fst h0) (snd h0)"
    "owner_kept (lk_rest (T - {w}) s) (lkp s) l"
    using assms(5) LkSleep by (auto simp: lk_post_def)
  from lk_inv_update [OF assms(1-4) this] show ?thesis
    using assms(6) LkSleep by (auto simp: lk_settle_def lk_deliver_def Let_def)
next
  case (LkPanic m)
  then show ?thesis
    using assms(6) by (simp add: lk_settle_def)
qed

lemma lk_request_post:
  assumes "finite T" "int (card T) < 2 ^ 30" "w \<in> T" "fst w \<noteq> LK_NOPROC" and "lk_inv T s"
    and "phase s w = None" and "lk_legal T w flags s" and "type = flags AND LK_TYPE_MASK"
    and "h0 = lk_give_up type (shares s w, excls s w)"
  shows "lk_post (lk_rest (T - {w}) s) w (lkp s) (lockmgr (lkp s) flags w) h0 (lk_gain type h0)"
proof -
  let ?Q = "lk_rest (T - {w}) s"
  have fits: "lk_fits ?Q w (lkp s) None False (shares s w) (excls s w)"
    using assms(3,5,6) by (auto simp: lk_inv_def lk_fits_def)
  have "oshares ?Q + shares s w = (\<Sum>t \<in> T. shares s t)"
    using sum.remove [OF assms(1,3), of "shares s"] by (simp add: lk_rest_def)
  moreover have "oshwaits ?Q \<le> int (card T)"
    using sum_of_bool_less(2) [OF assms(1), of "int (card T) + 1" "\<lambda>t. phase s t = Some ShareWait" "{w}"]
    by (simp add: lk_rest_def)
  ultimately have room: "oshares ?Q + shares s w + oshwaits ?Q < 2 ^ 30"
    using assms(7) by (simp add: lk_legal_def Let_def)
  have "0 \<le> shares s w" "0 \<le> excls s w"
    using fits by (simp_all add: lk_fits_def)
  then show ?thesis
    unfolding assms(9)
    by (intro lockmgr_post [OF fits room _ assms(4,8)])
      (use assms(7,8) in \<open>auto simp: lk_legal_def Let_def\<close>)
qed

lemma lk_resume_post:
  assumes "w \<in> T" and "lk_inv T s" and "phase s w = Some ph"
  shows "lk_post (lk_rest (T - {w}) s) w (lkp s) (lockmgr_resume (lkp s) w ph ext terr)
    (shares s w, excls s w)
    (lk_gain (if ph = ShareWait then LK_SHARED else LK_EXCLUSIVE) (shares s w, excls s w))"
  by (rule lockmgr_resume_post) (use assms in \<open>auto simp: lk_inv_def\<close>)

lemma lk_step_inv:
  assumes "finite T" "int (card T) < 2 ^ 30" "\<forall>w \<in> T. fst w \<noteq> LK_NOPROC"
    and "lk_step T s r" and "lk_inv T s" and "r = Some s'"
  shows "lk_inv T s'"
  using assms(4)
proof cases
  case (request w flags)
  let ?h0 = "lk_give_up (flags AND LK_TYPE_MASK) (shares s w, excls s w)"
  show ?thesis
    using lk_settle_inv [OF assms(1,2) request(2) assms(5)
        lk_request_post [OF assms(1,2) request(2) _ assms(5) request(3,4) refl refl]]
      request(1,2) assms(3,6) by (simp add: lk_request_def Let_def)
next
  case (woken w)
  then show ?thesis
    using lk_settle_inv [OF assms(1,2) woken(2) assms(5) lk_resume_post [OF woken(2) assms(5)]] assms(6)
    by (auto simp: lk_resume_def Let_def)
next
  case (interrupted w terr)
  then show ?thesis
    using lk_settle_inv [OF assms(1,2) interrupted(2) assms(5) lk_resume_post [OF interrupted(2) assms(5)]] assms(6)
    by (auto simp: lk_resume_def Let_def)
qed

lemma lk_start_inv:
  assumes "lk_flags l AND NOT LK_EXTFLG_MASK = 0" and "lk_sharecount l = 0" "lk_waitcount l = 0"
    "lk_exclusivecount l = 0" "lk_lockholder l = LK_NOPROC" and "finite T" "int (card T) < 2 ^ 30"
  shows "lk_inv T (lk_start l)"
proof -
  have "\<not> bit (lk_flags l) 8" "\<not> bit (lk_flags l) 9" "\<not> bit (lk_flags l) 10"
    using arg_cong [OF assms(1), of "\<lambda>f. bit f 8"] arg_cong [OF assms(1), of "\<lambda>f. bit f 9"]
      arg_cong [OF assms(1), of "\<lambda>f. bit f 10"] by (simp_all add: bit_simps)
  then show ?thesis
    using assms(2-) by (auto simp: lk_inv_def lk_fits_def lk_rest_def lk_start_def in_acquire_def)
qed

lemma lk_reach_inv:
  assumes "finite T" "int (card T) < 2 ^ 30" "\<forall>w \<in> T. fst w \<noteq> LK_NOPROC"
    and "lk_reach T (lockinit prio wmesg timo flags) r"
  shows "\<forall>s. r = Some s \<longrightarrow> lk_inv T s"
  using assms(4)
proof induction
  case start
  have "(flags AND LK_EXTFLG_MASK) AND NOT LK_EXTFLG_MASK = 0"
    by (rule bit_word_eqI) (auto simp: bit_simps)
  then show ?case
    using lk_start_inv [of "lockinit prio wmesg timo flags" T] assms(1,2) by (simp add: lockinit_def)
next
  case (step s r)
  then show ?case
    using lk_step_inv [OF assms(1-3)] by blast
qed

end
