(* ===== verification/Lock_Props.thy ===== *)
theory Lock_Props
  imports Lock_System
begin

text \<open>
  Properties of the BSD lock manager: mutual exclusion and exact accounting in every state that
  callers reach, the one panic that they can reach, and schedules that show it and two more defects.
\<close>

section \<open>Schedules\<close>

text \<open>A schedule is a list of events; \<open>lk_run\<close> gives \<open>None\<close> where an event is not allowed,
  \<open>Some None\<close> for a panic.\<close>

datatype lk_event = Req who u32 | Wake who | Fail who int

definition lk_exec :: "who list \<Rightarrow> lk_event \<Rightarrow> lk_sys \<Rightarrow> lk_sys option option" where
  "lk_exec ts ev s =
     (case ev of
        Req w flags \<Rightarrow>
          if w \<in> set ts \<and> phase s w = None \<and> lk_legal (set ts) w flags s
          then Some (lk_request w flags s) else None
      | Wake w \<Rightarrow>
          if w \<in> set ts \<and> phase s w \<noteq> None \<and> woken s w then Some (lk_resume w 0 s) else None
      | Fail w terr \<Rightarrow>
          if w \<in> set ts \<and> phase s w \<noteq> None \<and> terr \<noteq> 0 then Some (lk_resume w terr s) else None)"

fun lk_run :: "who list \<Rightarrow> lk_event list \<Rightarrow> lk_sys \<Rightarrow> lk_sys option option" where
  "lk_run ts [] s = Some (Some s)"
| "lk_run ts (ev # evs) s =
     (case lk_exec ts ev s of
        None \<Rightarrow> None
      | Some None \<Rightarrow> if evs = [] then Some None else None
      | Some (Some s') \<Rightarrow> lk_run ts evs s')"

lemma lk_exec_step: "lk_exec ts ev s = Some r \<Longrightarrow> lk_step (set ts) s r"
  by (auto simp: lk_exec_def split: lk_event.splits if_splits intro: lk_step.intros)

lemma lk_run_reach:
  "lk_reach (set ts) l (Some s) \<Longrightarrow> lk_run ts evs s = Some r \<Longrightarrow> lk_reach (set ts) l r"
  by (induction evs arbitrary: s)
    (auto split: option.splits if_splits dest: lk_exec_step intro: lk_reach.step)

lemma lk_run_ok:
  "(case r of Some (Some s) \<Rightarrow> P s | _ \<Rightarrow> False) \<Longrightarrow> \<exists>s. r = Some (Some s) \<and> P s"
  by (auto split: option.splits)

lemma lk_run_panic: "(case r of Some None \<Rightarrow> True | _ \<Rightarrow> False) \<Longrightarrow> r = Some None"
  by (auto split: option.splits)

lemma lk_run_start: "lk_run ts evs (lk_start l) = Some r \<Longrightarrow> lk_reach (set ts) l r"
  by (rule lk_run_reach [OF lk_reach.start])

abbreviation tA :: who where "tA \<equiv> (101, 1)"
abbreviation tB :: who where "tB \<equiv> (102, 2)"
abbreviation tC :: who where "tC \<equiv> (103, 3)"

definition three :: "who list" where "three = [tA, tB, tC]"

definition new_lock :: lock where "new_lock = lockinit 8 ''inode'' 0 0"

section \<open>Mutual exclusion\<close>

lemma lk_inv_totals:
  assumes "finite T" and "w \<in> T" and "lk_inv T s"
  shows "lk_sharecount (lkp s) = (\<Sum>t \<in> T. shares s t)"
    and "int 0 \<le> shares s w \<and> 0 \<le> excls s w"
    and "lk_exclusivecount (lkp s) = (\<Sum>t \<in> T. excls s t)"
    and "excls s w > 0 \<Longrightarrow> lk_owns (lkp s) w \<and> lk_exclusivecount (lkp s) = excls s w \<and>
      lk_sharecount (lkp s) = 0"
proof -
  have f: "lk_fits (lk_rest (T - {w}) s) w (lkp s) (phase s w) True (shares s w) (excls s w)"
    using assms(2,3) by (simp add: lk_inv_def)
  show "lk_sharecount (lkp s) = (\<Sum>t \<in> T. shares s t)"
    "lk_exclusivecount (lkp s) = (\<Sum>t \<in> T. excls s t)"
    using f sum.remove [OF assms(1,2), of "shares s"] sum.remove [OF assms(1,2), of "excls s"]
    by (simp_all add: lk_fits_def lk_rest_def)
  show "int 0 \<le> shares s w \<and> 0 \<le> excls s w"
    and "excls s w > 0 \<Longrightarrow> lk_owns (lkp s) w \<and> lk_exclusivecount (lkp s) = excls s w \<and>
      lk_sharecount (lkp s) = 0"
    using f by (simp_all add: lk_fits_def)
qed

text \<open>C14. In every state that callers following the rules of \<open>lockmgr\<close> reach, by any interleaving of
  requests, wakeups, signals and timeouts, the share and exclusive counts are exactly the locks that the
  callers hold; while one holds the lock exclusively it is the recorded holder and nobody else holds it,
  shared or exclusively.\<close>

theorem lock_mutual_exclusion:
  assumes "finite T" and "int (card T) < 2 ^ 30" and "\<forall>w \<in> T. fst w \<noteq> LK_NOPROC"
    and "lk_reach T (lockinit prio wmesg timo flags) (Some s)" and "u \<in> T"
  shows "lk_sharecount (lkp s) = (\<Sum>t \<in> T. shares s t) \<and>
    lk_exclusivecount (lkp s) = (\<Sum>t \<in> T. excls s t) \<and>
    (excls s u > 0 \<longrightarrow> lk_owns (lkp s) u \<and>
       (\<forall>t \<in> T. shares s t = 0 \<and> (t \<noteq> u \<longrightarrow> excls s t = 0)))"
proof -
  have inv: "lk_inv T s"
    using lk_reach_inv [OF assms(1-4)] by simp
  note tot = lk_inv_totals [OF assms(1) _ inv]
  have nonneg: "\<forall>t \<in> T. 0 \<le> shares s t \<and> 0 \<le> excls s t"
    using tot(2) by simp
  have "shares s t = 0 \<and> (t \<noteq> u \<longrightarrow> excls s t = 0)" if "excls s u > 0" "t \<in> T" for t
  proof -
    have "(\<Sum>t \<in> T. shares s t) = 0"
      using tot(1,4) [OF assms(5)] that(1) by simp
    then have "shares s t = 0"
      using nonneg that(2) assms(1) by (simp add: sum_nonneg_eq_0_iff)
    moreover have "t = u" if "excls s t \<noteq> 0"
    proof -
      have "excls s t > 0"
        using that \<open>t \<in> T\<close> nonneg by (simp add: less_le)
      then show ?thesis
        using tot(4) [OF \<open>t \<in> T\<close>] tot(4) [OF assms(5) \<open>excls s u > 0\<close>]
        by (auto simp: lk_owns_def prod_eq_iff)
    qed
    ultimately show ?thesis
      by blast
  qed
  then show ?thesis
    using tot(1,3,4) [OF assms(5)] by blast
qed

theorem lock_mutual_exclusion_witness:
  "\<exists>s. lk_run three [Req tA LK_EXCLUSIVE, Req tB LK_SHARED] (lk_start new_lock) = Some (Some s) \<and>
    phase s tB = Some ShareWait \<and> lk_owns (lkp s) tA \<and>
    map (shares s) three = [0, 0, 0] \<and> map (excls s) three = [1, 0, 0]"
proof -
  let ?r = "lk_run three [Req tA LK_EXCLUSIVE, Req tB LK_SHARED] (lk_start new_lock)"
  have "case ?r of Some (Some s) \<Rightarrow> excls s tA = 1 \<and> phase s tB = Some ShareWait | _ \<Rightarrow> False"
    by code_simp
  from lk_run_ok [OF this] obtain s
    where s: "?r = Some (Some s)" "excls s tA = 1" "phase s tB = Some ShareWait"
    by blast
  have "lk_reach (set three) (lockinit 8 ''inode'' 0 0) (Some s)"
    using lk_run_start [OF s(1)] by (simp add: new_lock_def)
  from lock_mutual_exclusion [OF _ _ _ this, of tA] show ?thesis
    using s by (auto simp: three_def)
qed

section \<open>Panics\<close>

definition lk_panics :: "lk_result \<Rightarrow> bool" where
  "lk_panics r \<longleftrightarrow> (case r of LkPanic m \<Rightarrow> True | _ \<Rightarrow> False)"

lemma panics_simps [simp]:
  "\<not> lk_panics (lk_finish err l ws)" "lk_panics (LkPanic m)" "\<not> lk_panics (LkRet err l ws)"
  "\<not> lk_panics (LkSleep ph l ws)"
  by (simp_all add: lk_panics_def lk_finish_def)

lemma panics_acquire:
  "lk_panics (lk_acquire ph wanted k l ws) \<Longrightarrow> \<not> wanted l \<and> lk_panics (k 0 l ws)"
  by (auto simp: lk_acquire_def split: if_splits)

lemma panics_awake:
  assumes "lk_panics (lk_awake ph wanted k ext terr l)"
  shows "\<exists>err l'. lk_panics (k err l' []) \<and> (err = 0 \<longrightarrow> \<not> wanted l') \<and>
    lk_flags l' = lk_flags l \<and> lk_sharecount l' = lk_sharecount l \<and>
    lk_exclusivecount l' = lk_exclusivecount l"
proof -
  let ?l = "l\<lparr>lk_waitcount := cint (lk_waitcount l - 1)\<rparr>"
  have "lk_panics (k terr ?l []) \<and> terr \<noteq> 0 \<or> lk_panics (k ENOLCK ?l []) \<or>
      lk_panics (k 0 ?l []) \<and> \<not> wanted ?l"
    using assms by (auto simp: lk_awake_def Let_def split: if_splits dest: panics_acquire)
  moreover have "ENOLCK \<noteq> 0"
    by simp
  ultimately show ?thesis
    by (metis lock.ext_inject lock.surjective lock.update_convs(3))
qed

lemma panics_shared_done: "\<not> lk_panics (shared_done err l ws)"
  by (simp add: shared_done_def)

lemma panics_grant: "lk_panics (grant_excl w l ws) \<Longrightarrow> lk_exclusivecount l \<noteq> 0"
  by (auto simp: grant_excl_def split: if_splits)

lemma panics_excl2_done: "lk_panics (excl2_done w err l ws) \<Longrightarrow> err = 0 \<and> lk_exclusivecount l \<noteq> 0"
  by (auto simp: excl2_done_def Let_def split: if_splits dest: panics_grant)

lemma panics_excl1_done: "lk_panics (excl1_done w err l ws) \<Longrightarrow> err = 0 \<and> lk_exclusivecount l \<noteq> 0"
  by (auto simp: excl1_done_def split: if_splits dest!: panics_acquire panics_excl2_done)

lemma panics_upgrade_done: "lk_panics (upgrade_done w err l ws) \<Longrightarrow> err = 0 \<and> lk_exclusivecount l \<noteq> 0"
  by (auto simp: upgrade_done_def Let_def split: if_splits dest: panics_grant)

lemma fits_facts:
  assumes "lk_fits Q w l p z a b"
  shows "lk_exclusivecount l \<noteq> 0 \<longleftrightarrow> bit (lk_flags l) 10"
    and "bit (lk_flags l) 8 \<Longrightarrow> lk_exclusivecount l = 0"
    and "0 < a \<Longrightarrow> lk_exclusivecount l = 0"
    and "0 < b \<Longrightarrow> lk_owns l w"
    and "b = 0 \<Longrightarrow> fst w \<noteq> LK_NOPROC \<Longrightarrow> \<not> lk_owns l w"
    and "p = Some UpgradeWait \<Longrightarrow> bit (lk_flags l) 8"
    and "a \<le> lk_sharecount l" and "0 \<le> a" and "0 \<le> b"
    and "0 < b \<Longrightarrow> lk_exclusivecount l = b"
proof -
  show "lk_exclusivecount l \<noteq> 0 \<longleftrightarrow> bit (lk_flags l) 10" "0 < b \<Longrightarrow> lk_owns l w"
    "a \<le> lk_sharecount l" "0 \<le> a" "0 \<le> b" "0 < b \<Longrightarrow> lk_exclusivecount l = b"
    "bit (lk_flags l) 8 \<Longrightarrow> lk_exclusivecount l = 0"
    using assms by (simp_all add: lk_fits_def)
  have "(if bit (lk_flags l) 8 then 1 else 0) = oupgrades Q + (if p = Some UpgradeWait then 1 else 0)"
    and "0 \<le> oupgrades Q"
    using assms by (simp_all only: lk_fits_def)
  then show "p = Some UpgradeWait \<Longrightarrow> bit (lk_flags l) 8"
    by (auto split: if_splits)
  have "0 \<le> oexcls Q" and "oexcls Q + b = 0 \<longrightarrow> lk_lockholder l = LK_NOPROC"
    and "0 < oexcls Q \<longrightarrow> \<not> lk_owns l w"
    using assms by (simp_all add: lk_fits_def)
  then show "b = 0 \<Longrightarrow> fst w \<noteq> LK_NOPROC \<Longrightarrow> \<not> lk_owns l w"
    by (auto simp: lk_owns_def)
  have "0 \<le> oshares Q" and "oexcls Q + b \<noteq> 0 \<longrightarrow> oshares Q + a = 0"
    and "lk_exclusivecount l = oexcls Q + b"
    using assms by (simp_all add: lk_fits_def)
  then show "0 < a \<Longrightarrow> lk_exclusivecount l = 0"
    by auto
qed

lemma panics_exclusive:
  assumes "lk_panics (lockmgr_exclusive w ext l ws)"
  shows "(lk_owns l w \<and> \<not> lk_has ext LK_CANRECURSE) \<or> (\<not> bit (lk_flags l) 10 \<and> lk_exclusivecount l \<noteq> 0)"
  using assms
  by (auto simp: lockmgr_exclusive_def excl_taken_def split: if_splits dest!: panics_acquire panics_excl1_done)

lemma panics_upgrade:
  assumes "lk_panics (lockmgr_upgrade w ext l)" and "\<not> lk_owns l w" and "0 < lk_sharecount l"
  shows "lk_exclusivecount l \<noteq> 0"
proof -
  let ?l = "l\<lparr>lk_sharecount := cint (lk_sharecount l - 1)\<rparr>"
  have own: "\<not> lk_owns ?l w"
    using assms(2) by (simp add: lk_owns_def)
  show ?thesis
  proof (cases "bit (lk_flags l) 8")
    case True
    then have "\<exists>ws. lk_panics (lockmgr_exclusive w ext ?l ws)"
      using assms by (auto simp: lockmgr_upgrade_def Let_def split: if_splits)
    then show ?thesis
      using panics_exclusive [of w ext ?l] own by auto
  next
    case False
    let ?u = "?l\<lparr>lk_flags := lk_flags l OR LK_WANT_UPGRADE\<rparr>"
    have "lk_panics (lk_acquire UpgradeWait (\<lambda>l. lk_sharecount l \<noteq> 0) (upgrade_done w) ?u [])"
      using assms False by (auto simp: lockmgr_upgrade_def Let_def split: if_splits)
    then show ?thesis
      using panics_upgrade_done [of w 0 ?u "[]"] panics_acquire by fastforce
  qed
qed

lemma lockmgr_legal_no_panic:
  assumes "lk_fits Q w l p z a b" and "fst w \<noteq> LK_NOPROC" and "type = flags AND LK_TYPE_MASK"
    and "type = LK_SHARED \<or> (type = LK_DOWNGRADE \<and> b > 0) \<or>
       ((type = LK_UPGRADE \<or> type = LK_EXCLUPGRADE) \<and> a > 0) \<or>
       (type = LK_EXCLUSIVE \<and> (b = 0 \<or> lk_has (lk_extflags flags l) LK_CANRECURSE)) \<or>
       (type = LK_RELEASE \<and> a + b > 0) \<or> (type = LK_DRAIN \<and> b = 0)"
  shows "\<not> lk_panics (lockmgr l flags w)"
proof -
  note f = fits_facts [OF assms(1)]
  have down: "\<not> lk_panics (lockmgr_downgrade w (l\<lparr>lk_sharecount := n\<rparr>))" if "lk_owns l w" for n
  proof -
    have "0 < b"
      using that f(5,9) assms(2) by (auto simp: less_le)
    then show ?thesis
      using that f(10) by (simp add: lockmgr_downgrade_def lk_owns_def Let_def)
  qed
  have "\<not> lk_panics (lockmgr_shared w ext l)" for ext
    using down panics_acquire [of ShareWait share_blocked shared_done l "[]"] panics_shared_done
    by (auto simp: lockmgr_shared_def)
  moreover have "\<not> lk_panics (lockmgr_downgrade w l)" if "b > 0"
    using down [of "lk_sharecount l"] f(4) [OF that] by simp
  moreover have up: "\<not> lk_panics (lockmgr_upgrade w ext l)" if "a > 0" for ext
  proof -
    have e: "lk_exclusivecount l = 0"
      using f(3) that by simp
    then have "b = 0"
      using f(9,10) by (cases "0 < b") auto
    then show ?thesis
      using panics_upgrade [of w ext l] f(5,7) e assms(2) that by fastforce
  qed
  moreover have "\<not> lk_panics (lockmgr_exclupgrade w ext l)" if "a > 0" for ext
    using up [OF that] by (simp add: lockmgr_exclupgrade_def)
  moreover have "\<not> lk_panics (lockmgr_exclusive w ext l [])" if "b = 0 \<or> lk_has ext LK_CANRECURSE" for ext
    using panics_exclusive [of w ext l "[]"] f(1,5) assms(2) that by auto
  moreover have "\<not> lk_panics (lockmgr_release w l)" if "a + b > 0"
  proof (cases "b = 0")
    case True
    then show ?thesis
      using f(3) that by (simp add: lockmgr_release_def Let_def)
  next
    case False
    then show ?thesis
      using f(4,9) by (simp add: lockmgr_release_def Let_def less_le)
  qed
  moreover have "\<not> lk_panics (lockmgr_drain w ext l)" if "b = 0" for ext
    using f(5) assms(2) that by (simp add: lockmgr_drain_def drain_loop_def)
  ultimately show ?thesis
    using assms(4) unfolding lockmgr_def Let_def assms(3) [symmetric]
    by (elim disjE conjE) simp_all
qed

lemma lockmgr_resume_panics:
  assumes "lk_fits Q w l (Some ph) z a b" and "lk_panics (lockmgr_resume l w ph ext terr)"
  shows "ph = ExclWait2 \<and> lk_exclusivecount l \<noteq> 0"
proof (cases ph)
  case ShareWait
  then show ?thesis
    using assms(2) panics_awake [of ShareWait share_blocked shared_done] panics_shared_done
    by (auto simp: lockmgr_resume_def)
next
  case UpgradeWait
  then show ?thesis
    using assms(2) fits_facts(2,6) [OF assms(1)] panics_awake [of UpgradeWait _ "upgrade_done w"] panics_upgrade_done
    by (fastforce simp: lockmgr_resume_def)
next
  case ExclWait1
  then have "lk_panics (lk_awake ExclWait1 excl_taken (excl1_done w) ext terr l)"
    using assms(2) by (simp add: lockmgr_resume_def)
  from panics_awake [OF this] obtain err l' where "lk_panics (excl1_done w err l' [])" "err = 0 \<longrightarrow> \<not> excl_taken l'"
    "lk_flags l' = lk_flags l" "lk_exclusivecount l' = lk_exclusivecount l"
    by blast
  then show ?thesis
    using panics_excl1_done fits_facts(1) [OF assms(1)] by (fastforce simp: excl_taken_def)
next
  case ExclWait2
  then show ?thesis
    using assms(2) panics_awake [of ExclWait2 shares_left "excl2_done w"] panics_excl2_done
    by (fastforce simp: lockmgr_resume_def)
next
  case DrainWait
  then show ?thesis
    using assms(2) by (simp add: lockmgr_resume_def drain_loop_def split: if_splits)
qed

text \<open>C15. In no reachable state does a request that follows the rules of \<open>lockmgr\<close> panic at once; and
  of the returns from a sleep only one can panic, that of the second wait of \<open>LK_EXCLUSIVE\<close>, and only when
  another caller came to hold the lock exclusively during the wait.\<close>

theorem lock_panic_only_after_race:
  assumes "finite T" and "int (card T) < 2 ^ 30" and "\<forall>w \<in> T. fst w \<noteq> LK_NOPROC"
    and "lk_reach T (lockinit prio wmesg timo flags) (Some s)" and "w \<in> T"
  shows "(phase s w = None \<and> lk_legal T w req s \<longrightarrow> lk_request w req s \<noteq> None) \<and>
    (phase s w = Some ph \<and> lk_resume w terr s = None \<longrightarrow>
       ph = ExclWait2 \<and> (\<exists>u \<in> T. u \<noteq> w \<and> excls s u > 0))"
proof
  have inv: "lk_inv T s"
    using lk_reach_inv [OF assms(1-4)] by simp
  have fits: "lk_fits (lk_rest (T - {w}) s) w (lkp s) (phase s w) True (shares s w) (excls s w)"
    using inv assms(5) by (simp add: lk_inv_def)
  have settle: "lk_settle w e h0 h1 s r = None \<longleftrightarrow> lk_panics r" for e h0 h1 r
    by (simp add: lk_settle_def lk_panics_def Let_def split: lk_result.splits)
  show "phase s w = None \<and> lk_legal T w req s \<longrightarrow> lk_request w req s \<noteq> None"
    using lockmgr_legal_no_panic [OF fits _ refl, of req] assms(3,5)
    by (simp add: lk_request_def Let_def settle lk_legal_def)
  show "phase s w = Some ph \<and> lk_resume w terr s = None \<longrightarrow>
       ph = ExclWait2 \<and> (\<exists>u \<in> T. u \<noteq> w \<and> excls s u > 0)"
  proof
    assume a: "phase s w = Some ph \<and> lk_resume w terr s = None"
    then have p: "ph = ExclWait2 \<and> lk_exclusivecount (lkp s) \<noteq> 0"
      using lockmgr_resume_panics [of _ w "lkp s" ph] fits by (auto simp: lk_resume_def Let_def settle)
    have "excls s w = 0"
      using fits a by (simp add: lk_fits_def)
    then have "\<not> (\<forall>u \<in> T. u \<noteq> w \<longrightarrow> excls s u = 0)"
      using p lk_inv_totals(3) [OF assms(1,5) inv] by (metis sum.neutral)
    then show "ph = ExclWait2 \<and> (\<exists>u \<in> T. u \<noteq> w \<and> excls s u > 0)"
      using p lk_inv_totals(2) [OF assms(1) _ inv] by (metis less_le)
  qed
qed

theorem lock_panic_only_after_race_witness:
  "\<exists>s. lk_run three [Req tA LK_SHARED, Req tB LK_EXCLUSIVE] (lk_start new_lock) = Some (Some s) \<and>
    phase s tB = Some ExclWait2 \<and> lk_request tA LK_UPGRADE s \<noteq> None \<and> lk_resume tB 0 s \<noteq> None"
proof -
  let ?r = "lk_run three [Req tA LK_SHARED, Req tB LK_EXCLUSIVE] (lk_start new_lock)"
  have "case ?r of Some (Some s) \<Rightarrow> phase s tB = Some ExclWait2 \<and> phase s tA = None \<and>
      lk_legal (set three) tA LK_UPGRADE s \<and> (\<forall>t \<in> set three. excls s t = 0) | _ \<Rightarrow> False"
    by code_simp
  from lk_run_ok [OF this] obtain s
    where s: "?r = Some (Some s)" "phase s tB = Some ExclWait2" "phase s tA = None"
    "lk_legal (set three) tA LK_UPGRADE s" "\<forall>t \<in> set three. excls s t = 0"
    by blast
  have reach: "lk_reach (set three) (lockinit 8 ''inode'' 0 0) (Some s)"
    using lk_run_start [OF s(1)] by (simp add: new_lock_def)
  have T: "finite (set three)" "int (card (set three)) < 2 ^ 30" "\<forall>w \<in> set three. fst w \<noteq> LK_NOPROC"
    by (simp_all add: three_def)
  note race = lock_panic_only_after_race [OF T reach]
  have "lk_request tA LK_UPGRADE s \<noteq> None"
    using race [of tA LK_UPGRADE] s(3,4) by (simp add: three_def)
  moreover have "lk_resume tB 0 s \<noteq> None"
    using race [of tB 0 ExclWait2 0] s(2,5) by (fastforce simp: three_def)
  ultimately show ?thesis
    using s(1,2) by blast
qed

section \<open>Draining\<close>

text \<open>A drain in progress: the request itself, or a return from its sleep.\<close>

definition drain_step :: "who set \<Rightarrow> who \<Rightarrow> lk_sys \<Rightarrow> lk_sys \<Rightarrow> bool" where
  "drain_step T w s s' \<longleftrightarrow>
     (\<exists>req. phase s w = None \<and> lk_legal T w req s \<and> req AND LK_TYPE_MASK = LK_DRAIN \<and> lk_request w req s = Some s') \<or>
     (\<exists>terr. phase s w = Some DrainWait \<and> lk_resume w terr s = Some s')"

lemma drain_step_result:
  assumes "lk_inv T s" and "w \<in> T" and "fst w \<noteq> LK_NOPROC" and "drain_step T w s s'"
  obtains ext l err where "lk_settle w ext (shares s w, 0) (shares s w, 1) s (LkRet err l []) = Some s'" and "err \<noteq> 0"
  | ext where "lk_settle w ext (shares s w, 0) (shares s w, 1) s (drain_loop w (lkp s)) = Some s'"
proof -
  have f: "lk_fits (lk_rest (T - {w}) s) w (lkp s) (phase s w) True (shares s w) (excls s w)"
    using assms(1,2) by (simp add: lk_inv_def)
  consider req where "lk_legal T w req s" "req AND LK_TYPE_MASK = LK_DRAIN" "lk_request w req s = Some s'"
    | terr where "phase s w = Some DrainWait" "lk_resume w terr s = Some s'"
    using assms(4) by (auto simp: drain_step_def)
  then show thesis
  proof cases
    case (1 req)
    then have e: "excls s w = 0"
      by (simp add: lk_legal_def Let_def)
    then have "\<not> lk_owns (lkp s) w"
      using fits_facts(5) [OF f] assms(3) by simp
    then have "lockmgr (lkp s) req w = lk_finish EBUSY (lkp s) [] \<and> drain_blocked (lkp s) \<or>
        lockmgr (lkp s) req w = drain_loop w (lkp s)"
      using 1(2) by (simp add: lockmgr_def Let_def lockmgr_drain_def)
    moreover have "lk_settle w (lk_extflags req (lkp s)) (shares s w, 0) (shares s w, 1) s (lockmgr (lkp s) req w) = Some s'"
      using 1(2,3) e by (simp add: lk_request_def Let_def lk_give_up_def lk_gain_def)
    moreover have "EBUSY \<noteq> 0"
      by simp
    ultimately show ?thesis
      using that by (auto simp: lk_finish_def)
  next
    case (2 terr)
    have "excls s w = 0"
      using f 2(1) by (simp add: lk_fits_def)
    then have "lk_settle w (sleep_ext s w) (shares s w, 0) (shares s w, 1) s
        (lockmgr_resume (lkp s) w DrainWait (sleep_ext s w) terr) = Some s'"
      using 2 by (simp add: lk_resume_def Let_def lk_gain_def)
    moreover have "ENOLCK \<noteq> 0"
      by simp
    ultimately show ?thesis
      using that by (auto simp: lockmgr_resume_def split: if_splits)
  qed
qed

text \<open>C18. When \<open>LK_DRAIN\<close> is granted, by the request at once or on a return from its sleep, no caller holds
  the lock in any way at that moment and none sleeps in an \<open>ACQUIRE\<close> loop: only other drainers can still be
  waiting; afterwards the drainer alone holds the lock, once and exclusively.\<close>

theorem lock_drain_idle:
  assumes "finite T" and "int (card T) < 2 ^ 30" and "\<forall>w \<in> T. fst w \<noteq> LK_NOPROC"
    and "lk_reach T (lockinit prio wmesg timo flags) (Some s)" and "w \<in> T"
    and "drain_step T w s s'" and "0 < excls s' w"
  shows "\<forall>t \<in> T. shares s t = 0 \<and> excls s t = 0 \<and> (phase s t = None \<or> phase s t = Some DrainWait) \<and>
    shares s' t = 0 \<and> excls s' t = of_bool (t = w) \<and> phase s' t = (if t = w then None else phase s t)"
proof -
  have inv: "lk_inv T s"
    using lk_reach_inv [OF assms(1-4)] by simp
  note tot = lk_inv_totals [OF assms(1) _ inv]
  have nonneg: "\<forall>t \<in> T. 0 \<le> shares s t \<and> 0 \<le> excls s t"
    using tot(2) by simp
  have f: "lk_fits (lk_rest (T - {w}) s) w (lkp s) (phase s w) True (shares s w) (excls s w)"
    using inv assms(5) by (simp add: lk_inv_def)
  have w: "fst w \<noteq> LK_NOPROC"
    using assms(3,5) by simp
  obtain ext where r: "lk_settle w ext (shares s w, 0) (shares s w, 1) s (drain_loop w (lkp s)) = Some s'"
  proof (rule drain_step_result [OF inv assms(5) w assms(6)])
    fix ext l err
    assume "lk_settle w ext (shares s w, 0) (shares s w, 1) s (LkRet err l []) = Some s'" "err \<noteq> 0"
    then show thesis
      using assms(7) by (auto simp: lk_settle_def Let_def)
  qed (rule that)
  have idle: "\<not> drain_blocked (lkp s)"
  proof
    assume "drain_blocked (lkp s)"
    then show False
      using r assms(7) by (auto simp: lk_settle_def Let_def drain_loop_def)
  qed
  then have z: "lk_sharecount (lkp s) = 0" "lk_waitcount (lkp s) = 0" "\<not> bit (lk_flags (lkp s)) 10"
    by (simp_all add: drain_blocked_def share_blocked_def)
  have "(\<Sum>t \<in> T. shares s t) = 0" "(\<Sum>t \<in> T. excls s t) = 0"
    using tot(1,3) [OF assms(5)] z(1,3) fits_facts(1) [OF f] by simp_all
  then have free: "\<forall>t \<in> T. shares s t = 0 \<and> excls s t = 0"
    using nonneg assms(1) by (simp add: sum_nonneg_eq_0_iff)
  have "(\<Sum>t \<in> T - {w}. of_bool (in_acquire (phase s t)) :: int) = 0"
    using f z(2) by (simp add: lk_fits_def lk_rest_def in_acquire_def split: if_splits)
  then have "\<forall>t \<in> T - {w}. \<not> in_acquire (phase s t)"
    using assms(1) by auto
  moreover have "phase s w = None \<or> phase s w = Some DrainWait"
    using assms(6) by (auto simp: drain_step_def)
  moreover have "shares s' = (shares s)(w := shares s w)" "excls s' = (excls s)(w := 1)" "phase s' = (phase s)(w := None)"
    using r idle by (auto simp: lk_settle_def Let_def drain_loop_def lk_finish_def lk_deliver_def split: if_splits)
  ultimately show ?thesis
    using free by (auto simp: in_acquire_def)
qed

theorem lock_drain_idle_witness:
  "\<exists>s s'. lk_run three [Req tA LK_SHARED, Req tB LK_DRAIN, Req tA LK_RELEASE] (lk_start new_lock) = Some (Some s) \<and>
    phase s tB = Some DrainWait \<and> lk_resume tB 0 s = Some s' \<and>
    map (shares s') three = [0, 0, 0] \<and> map (excls s') three = [0, 1, 0]"
proof -
  let ?r = "lk_run three [Req tA LK_SHARED, Req tB LK_DRAIN, Req tA LK_RELEASE] (lk_start new_lock)"
  have "case ?r of Some (Some s) \<Rightarrow> phase s tB = Some DrainWait \<and>
      (case lk_resume tB 0 s of Some s' \<Rightarrow> excls s' tB = 1 | None \<Rightarrow> False) | _ \<Rightarrow> False"
    by code_simp
  from lk_run_ok [OF this] obtain s s' where s: "?r = Some (Some s)" "phase s tB = Some DrainWait"
    "lk_resume tB 0 s = Some s'" "excls s' tB = 1"
    by (auto split: option.splits)
  have reach: "lk_reach (set three) (lockinit 8 ''inode'' 0 0) (Some s)"
    using lk_run_start [OF s(1)] by (simp add: new_lock_def)
  have T: "finite (set three)" "int (card (set three)) < 2 ^ 30" "\<forall>w \<in> set three. fst w \<noteq> LK_NOPROC"
    by (simp_all add: three_def)
  have "drain_step (set three) tB s s'"
    using s(2,3) by (auto simp: drain_step_def)
  from lock_drain_idle [OF T reach _ this] show ?thesis
    using s by (auto simp: three_def)
qed

section \<open>Three schedules\<close>

text \<open>C16. Three callers that follow the rules can panic the kernel: C waits for the sharers A and B in
  \<open>LK_EXCLUSIVE\<close>; B releases, which wakes C; before C runs, A's \<open>LK_UPGRADE\<close> is granted at once; then C
  finds no sharers and no upgrade, since its wait does not look at \<open>LK_HAVE_EXCL\<close>, and panics on the
  exclusive count.\<close>

theorem lock_upgrade_race_panics:
  "lk_run three [Req tA LK_SHARED, Req tB LK_SHARED, Req tC LK_EXCLUSIVE, Req tB LK_RELEASE,
      Req tA LK_UPGRADE, Wake tC] (lk_start new_lock) = Some None \<and>
   lk_reach (set three) new_lock None"
proof -
  let ?r = "lk_run three [Req tA LK_SHARED, Req tB LK_SHARED, Req tC LK_EXCLUSIVE, Req tB LK_RELEASE,
      Req tA LK_UPGRADE, Wake tC] (lk_start new_lock)"
  have "case ?r of Some None \<Rightarrow> True | _ \<Rightarrow> False"
    by code_simp
  then have "?r = Some None"
    by (rule lk_run_panic)
  then show ?thesis
    using lk_run_start by blast
qed

text \<open>C17. A wakeup can be lost: B waits to share behind C's \<open>LK_WANT_EXCL\<close>; A's release wakes both, B
  runs first and sleeps again, and C, which asked to fail after sleeping, drops \<open>LK_WANT_EXCL\<close> without
  waking anyone.  The lock is then free, nobody holds it or is about to run, and B sleeps.\<close>

theorem lock_lost_wakeup:
  "\<exists>s. lk_reach (set three) new_lock (Some s) \<and> lockstatus (lkp s) = 0 \<and>
     \<not> share_blocked (lkp s) \<and> phase s tB = Some ShareWait \<and> \<not> woken s tB \<and>
     map (shares s) three = [0, 0, 0] \<and> map (excls s) three = [0, 0, 0] \<and>
     phase s tA = None \<and> phase s tC = None"
proof -
  let ?r = "lk_run three [Req tA LK_SHARED, Req tC (LK_EXCLUSIVE OR LK_SLEEPFAIL), Req tB LK_SHARED,
      Req tA LK_RELEASE, Wake tB] (lk_start new_lock)"
  have "case ?r of Some (Some s) \<Rightarrow> lkp s = new_lock\<lparr>lk_flags := LK_WANT_EXCL, lk_waitcount := 2\<rparr> \<and>
     phase s tC = Some ExclWait2 \<and> woken s tC \<and> sleep_ext s tC = LK_SLEEPFAIL \<and>
     phase s tB = Some ShareWait \<and> \<not> woken s tB \<and> phase s tA = None \<and> \<not> woken s tA \<and>
     (\<forall>t \<in> set three. shares s t = 0 \<and> excls s t = 0) | _ \<Rightarrow> False"
    by code_simp
  from lk_run_ok [OF this] obtain s where
    s: "?r = Some (Some s)" "lkp s = new_lock\<lparr>lk_flags := LK_WANT_EXCL, lk_waitcount := 2\<rparr>"
     "phase s tC = Some ExclWait2" "woken s tC" "sleep_ext s tC = LK_SLEEPFAIL"
     "phase s tB = Some ShareWait" "\<not> woken s tB" "phase s tA = None" "\<not> woken s tA"
     "\<forall>t \<in> set three. shares s t = 0 \<and> excls s t = 0"
    by blast
  have reach: "lk_reach (set three) new_lock (Some s)"
    using lk_run_start [OF s(1)] .
  have r: "lockmgr_resume (lkp s) tC ExclWait2 (sleep_ext s tC) 0 =
      LkRet ENOLCK (new_lock\<lparr>lk_waitcount := 1\<rparr>) []"
    unfolding s(2,5) by code_simp
  have "lk_resume tC 0 s = Some (the (lk_resume tC 0 s))"
    by (simp add: lk_resume_def lk_settle_def Let_def s(3) r)
  moreover have "lk_step (set three) s (lk_resume tC 0 s)"
    by (rule lk_step.woken) (simp_all add: s(3,4) three_def)
  ultimately have "lk_reach (set three) new_lock (Some (the (lk_resume tC 0 s)))"
    using lk_run_start [OF s(1)] lk_reach.step by metis
  then show ?thesis
    using s(6-10)
    by (intro exI [of _ "the (lk_resume tC 0 s)"])
      (auto simp: lk_resume_def lk_settle_def lk_deliver_def Let_def s(3) r three_def new_lock_def
        lockinit_def lockstatus_def share_blocked_def)
qed

text \<open>\<open>LK_NOWAIT\<close> does not keep an upgrade from sleeping: with exactly one other sharer the test, made
  after the caller's own share was given up, compares one with one, and the polling caller sleeps.\<close>

theorem lock_upgrade_nowait_sleeps:
  "\<exists>s. lk_run three [Req tA LK_SHARED, Req tB LK_SHARED, Req tA (LK_UPGRADE OR LK_NOWAIT)]
      (lk_start new_lock) = Some (Some s) \<and> phase s tA = Some UpgradeWait \<and> lk_has (sleep_ext s tA) LK_NOWAIT"
proof -
  let ?r = "lk_run three [Req tA LK_SHARED, Req tB LK_SHARED, Req tA (LK_UPGRADE OR LK_NOWAIT)]
      (lk_start new_lock)"
  have "case ?r of Some (Some s) \<Rightarrow> phase s tA = Some UpgradeWait \<and> lk_has (sleep_ext s tA) LK_NOWAIT
      | _ \<Rightarrow> False"
    by code_simp
  from lk_run_ok [OF this] show ?thesis .
qed

end
