(* ===== verification/Ipc_Table.thy ===== *)
theory Ipc_Table
  imports Kernel_Prelude
begin

text \<open>
  The sizes of capability tables, osfmk/ipc/ipc_table.c: \<open>ipc_table_fill\<close> and the two arrays that
  \<open>ipc_table_init\<close> fills with it.  A space's table grows along \<open>ipc_table_entries\<close>.
\<close>

abbreviation PAGE_SIZE :: nat where "PAGE_SIZE \<equiv> 4096"

text \<open>The powers of two below the page size; the result is the array so far and the size reached.  The
  first argument bounds the rounds: \<open>size\<close> doubles from one, so twelve are enough.\<close>

fun fill_powers :: "nat \<Rightarrow> nat \<Rightarrow> nat \<Rightarrow> nat \<Rightarrow> nat \<Rightarrow> nat list \<Rightarrow> nat list \<times> nat" where
  "fill_powers 0 num minsize elemsize sz its = (its, sz)"
| "fill_powers (Suc n) num minsize elemsize sz its =
     (if length its < num \<and> sz < PAGE_SIZE
      then fill_powers n num minsize elemsize (sz * 2)
             (if sz \<ge> minsize then its @ [sz div elemsize] else its)
      else (its, sz))"

text \<open>Then fifteen steps of a page, fifteen of two pages, up to eight pages.  A round adds an element or
  enlarges the size or ends a period, so \<open>fill_rounds\<close> bounds the rounds.\<close>

fun fill_pages :: "nat \<Rightarrow> nat \<Rightarrow> nat \<Rightarrow> nat \<Rightarrow> nat \<Rightarrow> nat \<Rightarrow> nat \<Rightarrow> nat list \<Rightarrow> nat list" where
  "fill_pages 0 num minsize elemsize period incrsize sz its = its"
| "fill_pages (Suc n) num minsize elemsize period incrsize sz its =
     (if length its \<ge> num then its
      else if period < 15
      then fill_pages n num minsize elemsize (period + 1) incrsize (sz + incrsize)
             (if sz \<ge> minsize then its @ [sz div elemsize] else its)
      else fill_pages n num minsize elemsize 0
             (if incrsize < PAGE_SIZE * 8 then incrsize * 2 else incrsize) sz its)"

definition fill_rounds :: "nat \<Rightarrow> nat \<Rightarrow> nat" where
  "fill_rounds num minsize = 2 * (num + minsize) + 2"

definition ipc_table_fill :: "nat \<Rightarrow> nat \<Rightarrow> nat \<Rightarrow> nat list" where
  "ipc_table_fill num least elemsize =
     (let minsize = least * elemsize; (its, sz) = fill_powers 12 num minsize elemsize 1 []
      in fill_pages (fill_rounds num minsize) num minsize elemsize 0 PAGE_SIZE sz its)"

text \<open>On the 32-bit machine \<open>struct ipc_entry\<close> has 16 bytes, \<open>ipc_entry_bits_t\<close> and
  \<open>ipc_table_index_t\<close> four each, and \<open>struct ipc_port_request\<close> eight.\<close>

definition ipc_table_entries_size :: nat where "ipc_table_entries_size = 512"
definition ipc_table_dnrequests_size :: nat where "ipc_table_dnrequests_size = 64"

text \<open>\<open>ipc_table_init\<close>: the entries' array ends with the last size twice, the other one with zero.\<close>

definition ipc_table_entries :: "nat list" where
  "ipc_table_entries =
     (let its = ipc_table_fill (ipc_table_entries_size - 1) 4 (16 + 4 + 4) in its @ [last its])"

definition ipc_table_dnrequests :: "nat list" where
  "ipc_table_dnrequests = ipc_table_fill (ipc_table_dnrequests_size - 1) 2 8 @ [0]"

section \<open>The growth arrays\<close>

lemma fill_pages_length:
  assumes "0 < incrsize" and "length its \<le> num"
    and "2 * ((num - length its) + (minsize - sz)) + (if period < 15 then 0 else 1) < fuel"
  shows "length (fill_pages fuel num minsize elemsize period incrsize sz its) = num"
  using assms
proof (induction fuel num minsize elemsize period incrsize sz its rule: fill_pages.induct)
  case (2 n num minsize elemsize period incrsize sz its)
  consider (stop) "num \<le> length its" | (add) "length its < num" "period < 15"
    | (turn) "length its < num" "\<not> period < 15"
    by linarith
  then show ?case
  proof cases
    case add
    let ?its = "if sz \<ge> minsize then its @ [sz div elemsize] else its"
    have "2 * ((num - length ?its) + (minsize - (sz + incrsize))) + 1 < n"
      using 2(3,5) add by (cases "minsize \<le> sz") auto
    then have "2 * ((num - length ?its) + (minsize - (sz + incrsize))) +
        (if period + 1 < 15 then 0 else 1) < n"
      by auto
    moreover have "length ?its \<le> num"
      using add by auto
    moreover have "\<not> num \<le> length its"
      using add by simp
    ultimately have "length (fill_pages n num minsize elemsize (period + 1) incrsize (sz + incrsize) ?its)
        = num"
      using 2(1) [OF _ add(2) 2(3)] by blast
    then show ?thesis
      using add by simp
  next
    case turn
    then show ?thesis
      using 2(2) [OF _ turn(2)] 2(3-5) by simp
  qed (use 2 in simp)
qed simp

text \<open>Increasing, above zero and below what the remaining rounds can reach.\<close>

definition sizes_ok :: "nat \<Rightarrow> nat \<Rightarrow> nat list \<Rightarrow> bool" where
  "sizes_ok elemsize sz its \<longleftrightarrow> sorted_wrt (<) its \<and> (\<forall>x \<in> set its. 0 < x \<and> x < sz div elemsize)"

lemma div_mono_step: "0 < e \<Longrightarrow> e \<le> d \<Longrightarrow> sz div e < (sz + d) div (e :: nat)"
proof -
  assume e: "0 < e" "e \<le> d"
  have "Suc (sz div e) = (sz + e) div e"
    using e(1) div_add_self2 [of e sz] by simp
  also have "\<dots> \<le> (sz + d) div e"
    using e(2) by (simp add: div_le_mono)
  finally show ?thesis
    by simp
qed

lemma sizes_ok_snoc:
  assumes "sizes_ok e sz its" and "0 < e" and "e \<le> d" and "e \<le> sz"
  shows "sizes_ok e (sz + d) (its @ [sz div e])"
proof -
  have "sz div e < (sz + d) div e" "0 < sz div e"
    using div_mono_step assms(2-4) by (auto simp: div_greater_zero_iff)
  then show ?thesis
    using assms(1) by (auto simp: sizes_ok_def sorted_wrt_append)
qed

lemma sizes_ok_later: "sizes_ok e sz its \<Longrightarrow> sz \<le> sz' \<Longrightarrow> sizes_ok e sz' its"
  using div_le_mono [of sz sz' e] by (auto simp: sizes_ok_def)

lemma fill_powers_ok:
  assumes "sizes_ok e sz its" and "0 < e" and "e \<le> minsize" and "length its \<le> num"
    and "fill_powers n num minsize e sz its = (its', sz')"
  shows "sizes_ok e sz' its' \<and> length its' \<le> num \<and> sz' \<le> sz * 2 ^ n"
  using assms
proof (induction n num minsize e sz its rule: fill_powers.induct)
  case (2 n num minsize e sz its)
  show ?case
  proof (cases "length its < num \<and> sz < PAGE_SIZE")
    case True
    have "sizes_ok e (sz * 2) (if sz \<ge> minsize then its @ [sz div e] else its)"
      using sizes_ok_snoc [OF 2(2,3), of sz] sizes_ok_later [OF 2(2), of "sz * 2"] 2(4)
      by (auto simp: mult_2_right)
    from 2(1) [OF True this 2(3,4)] show ?thesis
      using True 2(5,6) by (auto split: if_splits)
  next
    case False
    then have "its' = its" "sz' = sz"
      using 2(6) by auto
    then show ?thesis
      using 2(2,5) by simp
  qed
qed simp

lemma fill_pages_ok:
  assumes "sizes_ok e sz its" and "0 < e" and "e \<le> minsize" and "e \<le> incrsize"
    and "incrsize \<le> PAGE_SIZE * 16" and "length its \<le> num"
  shows "\<exists>sz' \<le> sz + fuel * (PAGE_SIZE * 16).
    sizes_ok e sz' (fill_pages fuel num minsize e period incrsize sz its)"
  using assms
proof (induction fuel num minsize e period incrsize sz its rule: fill_pages.induct)
  case (2 n num minsize e period incrsize sz its)
  consider (stop) "num \<le> length its" | (add) "length its < num" "period < 15"
    | (turn) "length its < num" "\<not> period < 15"
    by linarith
  then show ?case
  proof cases
    case add
    let ?its = "if sz \<ge> minsize then its @ [sz div e] else its"
    have "sizes_ok e (sz + incrsize) ?its"
      using sizes_ok_snoc [OF 2(3,4,6)] sizes_ok_later [OF 2(3), of "sz + incrsize"] 2(5) by auto
    moreover have "length ?its \<le> num"
      using add by auto
    moreover have "\<not> num \<le> length its"
      using add by simp
    ultimately obtain sz' where "sz' \<le> sz + incrsize + n * (PAGE_SIZE * 16)"
      and "sizes_ok e sz' (fill_pages n num minsize e (period + 1) incrsize (sz + incrsize) ?its)"
      using 2(1) [OF _ add(2) _ 2(4,5,6,7)] by blast
    then show ?thesis
      using add 2(7) by (intro exI [of _ sz']) simp
  next
    case turn
    let ?incr = "if incrsize < PAGE_SIZE * 8 then incrsize * 2 else incrsize"
    have incr: "e \<le> ?incr" "?incr \<le> PAGE_SIZE * 16" and len: "\<not> num \<le> length its"
      using 2(6,7) turn(1) by auto
    from 2(2) [OF len turn(2) 2(3,4,5) incr 2(8)] obtain sz'
      where "sz' \<le> sz + n * (PAGE_SIZE * 16)"
      and "sizes_ok e sz' (fill_pages n num minsize e 0 ?incr sz its)"
      by blast
    then show ?thesis
      using turn by (intro exI [of _ sz']) simp
  next
    case stop
    then show ?thesis
      using 2(3) by (intro exI [of _ sz]) simp
  qed
qed auto

text \<open>The whole array: exactly the elements asked for, increasing from above zero, and bounded.\<close>

lemma ipc_table_fill_ok:
  assumes "0 < elemsize" and "0 < least" and "elemsize \<le> PAGE_SIZE"
  shows "length (ipc_table_fill num least elemsize) = num"
    and "\<exists>sz \<le> 4096 + fill_rounds num (least * elemsize) * (PAGE_SIZE * 16).
      sizes_ok elemsize sz (ipc_table_fill num least elemsize)"
proof -
  obtain its sz where p: "fill_powers 12 num (least * elemsize) elemsize 1 [] = (its, sz)"
    by (cases "fill_powers 12 num (least * elemsize) elemsize 1 []") auto
  have e: "elemsize \<le> least * elemsize"
    using assms(2) by simp
  have "sizes_ok elemsize 1 []"
    by (simp add: sizes_ok_def)
  from fill_powers_ok [OF this assms(1) e _ p]
  have its: "sizes_ok elemsize sz its" "length its \<le> num" "sz \<le> 4096"
    by simp_all
  have fill: "ipc_table_fill num least elemsize =
      fill_pages (fill_rounds num (least * elemsize)) num (least * elemsize) elemsize 0 PAGE_SIZE sz its"
    using p by (simp only: ipc_table_fill_def Let_def prod.case)
  have "2 * ((num - length its) + (least * elemsize - sz)) + (if (0 :: nat) < 15 then 0 else 1)
      < fill_rounds num (least * elemsize)"
    by (simp add: fill_rounds_def)
  then show "length (ipc_table_fill num least elemsize) = num"
    unfolding fill by (intro fill_pages_length its) simp_all
  obtain sz' where "sz' \<le> sz + fill_rounds num (least * elemsize) * (PAGE_SIZE * 16)"
    "sizes_ok elemsize sz' (ipc_table_fill num least elemsize)"
    using fill_pages_ok [OF its(1) assms(1) e assms(3) _ its(2),
        of "fill_rounds num (least * elemsize)" 0]
    unfolding fill by auto
  then show "\<exists>sz \<le> 4096 + fill_rounds num (least * elemsize) * (PAGE_SIZE * 16).
      sizes_ok elemsize sz (ipc_table_fill num least elemsize)"
    using its(3) by (intro exI [of _ sz']) simp
qed

lemma entries_fill:
  "length (ipc_table_fill 511 4 24) = 511" "sorted_wrt (<) (ipc_table_fill 511 4 24)"
  "\<forall>n \<in> set (ipc_table_fill 511 4 24). 0 < n \<and> n < 2 ^ 24"
proof -
  show "length (ipc_table_fill 511 4 24) = 511"
    using ipc_table_fill_ok(1) [of 24 4 511] by simp
  obtain sz where sz: "sz \<le> 4096 + fill_rounds 511 (4 * 24) * (PAGE_SIZE * 16)"
    "sizes_ok 24 sz (ipc_table_fill 511 4 24)"
    using ipc_table_fill_ok(2) [of 24 4 511] by auto
  have "sz div 24 < 2 ^ 24"
    using sz(1) by (simp add: fill_rounds_def)
  then show "sorted_wrt (<) (ipc_table_fill 511 4 24)"
    "\<forall>n \<in> set (ipc_table_fill 511 4 24). 0 < n \<and> n < 2 ^ 24"
    using sz(2) by (fastforce simp: sizes_ok_def)+
qed

lemma entries_unfold:
  "ipc_table_entries = ipc_table_fill 511 4 24 @ [last (ipc_table_fill 511 4 24)]"
  by (simp add: ipc_table_entries_def ipc_table_entries_size_def Let_def)

lemma entries_length: "length ipc_table_entries = ipc_table_entries_size"
  using entries_fill(1) by (simp add: entries_unfold ipc_table_entries_size_def)

text \<open>The successor of a size is larger, but for the last one.\<close>

lemma entries_next:
  assumes "i + 1 < ipc_table_entries_size"
  shows "0 < ipc_table_entries ! i" "ipc_table_entries ! i < 2 ^ 24"
    "if i + 2 < ipc_table_entries_size then ipc_table_entries ! i < ipc_table_entries ! (i + 1)
     else ipc_table_entries ! i = ipc_table_entries ! (i + 1)"
proof -
  let ?f = "ipc_table_fill 511 4 24"
  have i: "i < 511"
    using assms by (simp add: ipc_table_entries_size_def)
  have fi: "ipc_table_entries ! i = ?f ! i"
    using i entries_fill(1) by (simp add: entries_unfold nth_append)
  then show "0 < ipc_table_entries ! i" "ipc_table_entries ! i < 2 ^ 24"
    using i entries_fill by (simp_all add: entries_fill(1))
  show "if i + 2 < ipc_table_entries_size then ipc_table_entries ! i < ipc_table_entries ! (i + 1)
     else ipc_table_entries ! i = ipc_table_entries ! (i + 1)"
  proof (cases "i + 2 < ipc_table_entries_size")
    case True
    then show ?thesis
      using fi i entries_fill(1,2)
      by (auto simp: entries_unfold nth_append ipc_table_entries_size_def sorted_wrt_iff_nth_less)
  next
    case False
    then have "i = 510"
      using i by (simp add: ipc_table_entries_size_def)
    moreover have "?f \<noteq> []"
      using entries_fill(1) by auto
    ultimately show ?thesis
      using fi entries_fill(1) False by (simp add: entries_unfold nth_append last_conv_nth)
  qed
qed

text \<open>The array of table sizes that \<open>ipc_table_init\<close> fills has its 512 elements, all positive and
  below \<open>2 ^ 24\<close> (so that every index of every table fits the 24 index bits of a port name); each is
  smaller than the next, and the last two are equal, which is how \<open>ipc_entry_grow_table\<close> recognises
  the largest table.\<close>

theorem ipc_table_sizes:
  "length ipc_table_entries = ipc_table_entries_size \<and>
   sorted_wrt (<) (butlast ipc_table_entries) \<and>
   ipc_table_entries ! 511 = ipc_table_entries ! 510 \<and>
   set ipc_table_entries \<subseteq> {0<..<2 ^ 24} \<and>
   last ipc_table_dnrequests = 0 \<and> length ipc_table_dnrequests = ipc_table_dnrequests_size"
proof (intro conjI)
  show "sorted_wrt (<) (butlast ipc_table_entries)"
    using entries_fill(2) by (simp add: entries_unfold)
  show "ipc_table_entries ! 511 = ipc_table_entries ! 510"
    using entries_next(3) [of 510] by (simp add: ipc_table_entries_size_def)
  have "ipc_table_fill 511 4 24 \<noteq> []"
    using entries_fill(1) by auto
  then have "last (ipc_table_fill 511 4 24) \<in> set (ipc_table_fill 511 4 24)"
    by simp
  then show "set ipc_table_entries \<subseteq> {0<..<2 ^ 24}"
    using entries_fill(3) by (auto simp only: entries_unfold set_append greaterThanLessThan_iff) simp_all
  show "length ipc_table_dnrequests = ipc_table_dnrequests_size"
    using ipc_table_fill_ok(1) [of 8 2 63]
    by (simp add: ipc_table_dnrequests_def ipc_table_dnrequests_size_def)
qed (simp_all add: entries_length ipc_table_dnrequests_def)

end
