(* ===== verification/Ipc_Entry.thy ===== *)
theory Ipc_Entry
  imports Ipc_Splay_Walk Ipc_Table "HOL-Library.Monad_Syntax"
begin

text \<open>
  The entries of an IPC space, osfmk/ipc/ipc_entry.h and ipc_entry.c with \<open>ipc_space_create\<close> of
  ipc_space.c: a table of entries indexed by the upper 24 bits of a port name, and a splay tree of
  the names that found no place in the table.  \<open>None\<close> is a failed assertion or an access outside the
  table.  The operations run with the space locked, except where \<open>interlude\<close>s say otherwise.
\<close>

section \<open>Names and entries\<close>

definition MACH_PORT_INDEX :: "mach_port_name \<Rightarrow> u32" where
  "MACH_PORT_INDEX name = drop_bit 8 name"

definition MACH_PORT_GEN :: "mach_port_name \<Rightarrow> u32" where
  "MACH_PORT_GEN name = push_bit 24 (name AND 0xff)"

definition MACH_PORT_MAKE :: "u32 \<Rightarrow> u32 \<Rightarrow> mach_port_name" where
  "MACH_PORT_MAKE index gen = push_bit 8 index OR drop_bit 24 gen"

definition MACH_PORT_VALID :: "mach_port_name \<Rightarrow> bool" where
  "MACH_PORT_VALID name \<longleftrightarrow> name \<noteq> 0 \<and> name \<noteq> 0xffffffff"

abbreviation IE_BITS_UREFS_MASK :: u32 where "IE_BITS_UREFS_MASK \<equiv> 0x0000ffff"
abbreviation IE_BITS_TYPE_MASK :: u32 where "IE_BITS_TYPE_MASK \<equiv> 0x001f0000"
abbreviation IE_BITS_COLLISION :: u32 where "IE_BITS_COLLISION \<equiv> 0x00800000"
abbreviation IE_BITS_GEN_MASK :: u32 where "IE_BITS_GEN_MASK \<equiv> 0xff000000"
abbreviation IE_BITS_GEN_ONE :: u32 where "IE_BITS_GEN_ONE \<equiv> 0x04000000"
abbreviation IE_BITS_RIGHT_MASK :: u32 where "IE_BITS_RIGHT_MASK \<equiv> 0x007fffff"

definition IE_BITS_UREFS :: "u32 \<Rightarrow> u32" where "IE_BITS_UREFS bits = bits AND IE_BITS_UREFS_MASK"
definition IE_BITS_TYPE :: "u32 \<Rightarrow> u32" where "IE_BITS_TYPE bits = bits AND IE_BITS_TYPE_MASK"
definition IE_BITS_GEN :: "u32 \<Rightarrow> u32" where "IE_BITS_GEN bits = bits AND IE_BITS_GEN_MASK"
definition IE_BITS_NEW_GEN :: "u32 \<Rightarrow> u32" where
  "IE_BITS_NEW_GEN old = (old + IE_BITS_GEN_ONE) AND IE_BITS_GEN_MASK"

abbreviation (input) MACH_PORT_TYPE_NONE :: u32 where "MACH_PORT_TYPE_NONE \<equiv> 0"
abbreviation (input) MACH_PORT_TYPE_SEND :: u32 where "MACH_PORT_TYPE_SEND \<equiv> 0x00010000"

text \<open>An object is an address, \<open>None\<close> is \<open>IO_NULL\<close>.  \<open>ie_request\<close> and \<open>ie_next\<close> are the same field;
  \<open>ie_index\<close> belongs to ipc_hash.c, of which the model records the calls.\<close>

record ipc_entry =
  ie_object :: "nat option"
  ie_bits :: u32
  ie_request :: u32

abbreviation ie_next :: "ipc_entry \<Rightarrow> nat" where "ie_next e \<equiv> unat (ie_request e)"

datatype hash_call =
    ipc_hash_global_insert "nat option" mach_port_name
  | ipc_hash_global_delete "nat option" mach_port_name
  | ipc_hash_local_insert "nat option" nat
  | ipc_hash_local_delete "nat option" nat
  | local_hash_cleared nat

text \<open>\<open>is_table_next\<close> is an index into \<open>ipc_table_entries\<close>, \<open>is_table_size\<close> the length of the table.\<close>

record ipc_space =
  is_active :: bool
  is_growing :: bool
  is_table :: "ipc_entry list"
  is_table_next :: nat
  is_tree :: "ipc_entry splay"
  is_tree_total :: nat
  is_tree_small :: nat
  is_fast :: bool
  is_hash :: "hash_call list"

abbreviation is_table_size :: "ipc_space \<Rightarrow> nat" where "is_table_size s \<equiv> length (is_table s)"

text \<open>A pointer to an entry: an element of the table, or the entry of a name in the tree.\<close>

datatype ipc_entry_ref = In_Table nat | In_Tree mach_port_name

datatype kern_return =
    KERN_SUCCESS | KERN_NO_SPACE | KERN_RESOURCE_SHORTAGE | KERN_INVALID_TASK | KERN_FAILURE
  | KERN_INVALID_NAME | KERN_INVALID_RIGHT | KERN_INVALID_VALUE | KERN_INVALID_ARGUMENT | KERN_UREFS_OVERFLOW

definition asserting :: "bool \<Rightarrow> unit option" where
  "asserting b = (if b then Some () else None)"

definition set_entry :: "nat \<Rightarrow> ipc_entry \<Rightarrow> ipc_space \<Rightarrow> ipc_space" where
  "set_entry i e s = s\<lparr>is_table := (is_table s)[i := e]\<rparr>"

definition entry_at :: "ipc_space \<Rightarrow> nat \<Rightarrow> ipc_entry option" where
  "entry_at s i = (if i < is_table_size s then Some (is_table s ! i) else None)"

section \<open>Lookup\<close>

definition ipc_entry_tree_collision ::
  "ipc_space \<Rightarrow> mach_port_name \<Rightarrow> (ipc_space \<times> bool) option" where
  "ipc_entry_tree_collision s name =
     (if \<not> is_active s then None
      else let (tree, lower, upper) = ipc_splay_tree_bounds (is_tree s) name;
               index = MACH_PORT_INDEX name
           in Some (s\<lparr>is_tree := tree\<rparr>,
                (lower \<noteq> MACH_PORT_LARGEST \<and> MACH_PORT_INDEX lower = index) \<or>
                (upper \<noteq> MACH_PORT_SMALLEST \<and> MACH_PORT_INDEX upper = index)))"

definition tree_lookup ::
  "ipc_space \<Rightarrow> mach_port_name \<Rightarrow> ipc_space \<times> ipc_entry_ref option" where
  "tree_lookup s name =
     (let (tree, found) = ipc_splay_tree_lookup (is_tree s) name
      in (s\<lparr>is_tree := tree\<rparr>,
          case found of
            Some e \<Rightarrow> if IE_BITS_TYPE (ie_bits e) = 0 then None else Some (In_Tree name)
          | None \<Rightarrow> None))"

definition ipc_entry_lookup ::
  "ipc_space \<Rightarrow> mach_port_name \<Rightarrow> (ipc_space \<times> ipc_entry_ref option) option" where
  "ipc_entry_lookup s name =
     (let index = unat (MACH_PORT_INDEX name) in
      if \<not> is_active s then None
      else if is_fast s then do {
        entry \<leftarrow> entry_at s index;
        Some (s, if IE_BITS_GEN (ie_bits entry) \<noteq> MACH_PORT_GEN name \<or>
                    IE_BITS_TYPE (ie_bits entry) = MACH_PORT_TYPE_NONE
                 then None else Some (In_Table index))
      }
      else if index < is_table_size s then
        (let entry = is_table s ! index in
         if IE_BITS_GEN (ie_bits entry) \<noteq> MACH_PORT_GEN name then
           (if ie_bits entry AND IE_BITS_COLLISION \<noteq> 0
            then (if 0 < is_tree_total s then Some (tree_lookup s name) else None)
            else Some (s, None))
         else if IE_BITS_TYPE (ie_bits entry) = MACH_PORT_TYPE_NONE then Some (s, None)
         else Some (s, Some (In_Table index)))
      else if is_tree_total s = 0 then Some (s, None)
      else Some (tree_lookup s name))"

section \<open>Allocation\<close>

definition ipc_entry_get ::
  "ipc_space \<Rightarrow> (ipc_space \<times> (kern_return + mach_port_name \<times> ipc_entry_ref)) option" where
  "ipc_entry_get s =
     (if \<not> is_active s then None
      else do {
        head \<leftarrow> entry_at s 0;
        let first_free = ie_next head;
        if first_free = 0 then Some (s, Inl KERN_NO_SPACE)
        else do {
          free_entry \<leftarrow> entry_at s first_free;
          let s1 = set_entry 0 (head\<lparr>ie_request := ie_request free_entry\<rparr>) s;
          let gen = IE_BITS_NEW_GEN (ie_bits free_entry);
          let s2 = set_entry first_free (free_entry\<lparr>ie_bits := gen, ie_request := 0\<rparr>) s1;
          let new_name = MACH_PORT_MAKE (of_nat first_free) gen;
          asserting (MACH_PORT_VALID new_name);
          asserting (ie_object free_entry = None);
          Some (s2, Inr (new_name, In_Table first_free))
        }
      })"

text \<open>The search of \<open>ipc_entry_alloc_name\<close> for the element of the free list before \<open>index\<close>; the fuel
  bounds the steps, the elements of the table being enough.\<close>

fun free_list_before :: "nat \<Rightarrow> ipc_entry list \<Rightarrow> nat \<Rightarrow> nat \<Rightarrow> nat option" where
  "free_list_before 0 table index free_index = None"
| "free_list_before (Suc fuel) table index free_index =
     (if free_index < length table then
        (let next_index = ie_next (table ! free_index) in
         if next_index = index then Some free_index
         else free_list_before fuel table index next_index)
      else None)"

text \<open>Outcomes of one turn of the loop of \<open>ipc_entry_alloc_name\<close>: an entry, a return code with the
  space unlocked, or a reason to unlock the space and turn again.\<close>

datatype alloc_name_turn =
    Have_Entry ipc_entry_ref
  | Give_Up kern_return
  | Grow_Table
  | Need_Tree_Entry

definition alloc_from_table ::
  "ipc_space \<Rightarrow> mach_port_name \<Rightarrow> bool \<Rightarrow> (ipc_space \<times> alloc_name_turn) option" where
  "alloc_from_table s name tentry =
     (let index = unat (MACH_PORT_INDEX name); gen = MACH_PORT_GEN name;
          table = is_table s; entry = table ! index in do {
        free_index \<leftarrow> free_list_before (length table) table index 0;
        let s1 = set_entry free_index ((table ! free_index)\<lparr>ie_request := ie_request entry\<rparr>) s;
        let entry1 = (is_table s1 ! index)\<lparr>ie_bits := gen, ie_request := 0\<rparr>;
        asserting (ie_object entry = None);
        asserting (is_fast s \<longrightarrow> \<not> tentry);
        Some (set_entry index entry1 s1, Have_Entry (In_Table index))
      })"

definition its_size :: "nat \<Rightarrow> nat" where "its_size its = ipc_table_entries ! its"

text \<open>The sizes of \<open>struct ipc_entry\<close> and \<open>struct ipc_tree_entry\<close>.\<close>

definition ipc_entry_bytes :: nat where "ipc_entry_bytes = 16"
definition ipc_tree_entry_bytes :: nat where "ipc_tree_entry_bytes = 32"

definition insert_tree_entry ::
  "ipc_space \<Rightarrow> mach_port_name \<Rightarrow> (ipc_space \<times> alloc_name_turn) option" where
  "insert_tree_entry s name =
     (let index = unat (MACH_PORT_INDEX name); s1 = s\<lparr>is_tree_total := is_tree_total s + 1\<rparr> in do {
        s2 \<leftarrow>
          (if index < is_table_size s then
             (let entry = is_table s ! index
              in Some (set_entry index (entry\<lparr>ie_bits := ie_bits entry OR IE_BITS_COLLISION\<rparr>) s1))
           else if index < its_size (is_table_next s) then do {
             (s1', collision) \<leftarrow> ipc_entry_tree_collision s1 name;
             Some (if collision then s1' else s1'\<lparr>is_tree_small := is_tree_small s1' + 1\<rparr>)
           }
           else Some s1);
        tree \<leftarrow> ipc_splay_tree_insert (is_tree s2) name
                  \<lparr>ie_object = None, ie_bits = 0, ie_request = 0\<rparr>;
        Some (s2\<lparr>is_tree := tree\<rparr>, Have_Entry (In_Tree name))
      })"

text \<open>One turn, the space being locked; \<open>tentry\<close>: a tree entry was allocated before.\<close>

definition alloc_name_in_tree ::
  "ipc_space \<Rightarrow> mach_port_name \<Rightarrow> bool \<Rightarrow> (ipc_space \<times> alloc_name_turn) option" where
  "alloc_name_in_tree s name tentry =
     (let index = unat (MACH_PORT_INDEX name) in
      if is_fast s then do { asserting (\<not> tentry); Some (s, Give_Up KERN_FAILURE) }
      else
        let (s1, found) =
          (if 0 < is_tree_total s
           then let (tree, r) = ipc_splay_tree_lookup (is_tree s) name in (s\<lparr>is_tree := tree\<rparr>, r)
           else (s, None))
        in case found of
          Some tentry2 \<Rightarrow> do {
            asserting (IE_BITS_TYPE (ie_bits tentry2) \<noteq> 0);
            Some (s1, Have_Entry (In_Tree name))
          }
        | None \<Rightarrow>
            if is_table_size s1 \<le> index \<and> index < its_size (is_table_next s1) \<and>
               (its_size (is_table_next s1) - is_table_size s1) * ipc_entry_bytes
                 < (is_tree_small s1 + 1) * ipc_tree_entry_bytes
            then Some (s1, Grow_Table)
            else if tentry then insert_tree_entry s1 name
            else Some (s1, Need_Tree_Entry))"

definition ipc_entry_alloc_name_turn ::
  "ipc_space \<Rightarrow> mach_port_name \<Rightarrow> bool \<Rightarrow> (ipc_space \<times> alloc_name_turn) option" where
  "ipc_entry_alloc_name_turn s name tentry =
     (let index = unat (MACH_PORT_INDEX name); gen = MACH_PORT_GEN name in
      if \<not> is_active s then Some (s, Give_Up KERN_INVALID_TASK)
      else if index < is_table_size s then
        (let entry = is_table s ! index in
         if index = 0 then do {
           asserting (IE_BITS_TYPE (ie_bits entry) = 0);
           asserting (IE_BITS_GEN (ie_bits entry) = 0);
           alloc_name_in_tree s name tentry
         }
         else if IE_BITS_TYPE (ie_bits entry) \<noteq> 0 then
           (if IE_BITS_GEN (ie_bits entry) = gen
            then do { asserting (\<not> tentry); Some (s, Have_Entry (In_Table index)) }
            else alloc_name_in_tree s name tentry)
         else alloc_from_table s name tentry)
      else alloc_name_in_tree s name tentry)"

section \<open>Deallocation\<close>

text \<open>The entry behind a pointer.\<close>

definition entry_of :: "ipc_space \<Rightarrow> ipc_entry_ref \<Rightarrow> ipc_entry option" where
  "entry_of s r =
     (case r of In_Table i \<Rightarrow> entry_at s i | In_Tree n \<Rightarrow> splay_content (is_tree s) n)"

text \<open>The slot returns to the free list.\<close>

definition free_slot :: "ipc_space \<Rightarrow> nat \<Rightarrow> ipc_space option" where
  "free_slot s index =
     do {
       entry \<leftarrow> entry_at s index;
       let s1 = set_entry index (entry\<lparr>ie_bits := ie_bits entry AND IE_BITS_GEN_MASK\<rparr>) s;
       head \<leftarrow> entry_at s1 0;
       let s2 = set_entry index ((is_table s1 ! index)\<lparr>ie_request := ie_request head\<rparr>) s1;
       Some (set_entry 0 ((is_table s2 ! 0)\<lparr>ie_request := of_nat index\<rparr>) s2)
     }"

text \<open>A colliding entry moves from the tree to the table.  \<open>raw\<close> is what the stack holds where the local
  trees \<open>small\<close> and \<open>collisions\<close> are; \<open>ipc_splay_tree_split\<close> initialises them.\<close>

definition move_collision ::
  "ipc_entry splay \<Rightarrow> ipc_space \<Rightarrow> nat \<Rightarrow> ipc_space option" where
  "move_collision raw s index =
     do {
       (tree, collisions) \<leftarrow>
         ipc_splay_tree_split (is_tree s) (MACH_PORT_MAKE (of_nat index + 1) 0) raw;
       (collisions, small) \<leftarrow> ipc_splay_tree_split collisions (MACH_PORT_MAKE (of_nat index) 0) raw;
       (tname, tentry) \<leftarrow> ipc_splay_tree_pick collisions;
       asserting (unat (MACH_PORT_INDEX tname) = index);
       let entry = \<lparr>ie_object = ie_object tentry, ie_bits = ie_bits tentry OR MACH_PORT_GEN tname,
                    ie_request = ie_request tentry\<rparr>;
       let hash = is_hash s @
         (if IE_BITS_TYPE (ie_bits tentry) = MACH_PORT_TYPE_SEND
          then [ipc_hash_global_delete (ie_object tentry) tname,
                ipc_hash_local_insert (ie_object tentry) index]
          else []);
       collisions \<leftarrow> ipc_splay_tree_delete collisions tname;
       asserting (0 < is_tree_total s);
       (tree, entry) \<leftarrow>
         (case ipc_splay_tree_pick collisions of
           Some p \<Rightarrow> map_option (\<lambda>(tree, _). (tree, entry\<lparr>ie_bits := ie_bits entry OR IE_BITS_COLLISION\<rparr>))
                       (ipc_splay_tree_join tree collisions)
         | None \<Rightarrow> Some (tree, entry));
       (tree, small) \<leftarrow> ipc_splay_tree_join tree small;
       Some (set_entry index entry
               (s\<lparr>is_tree := tree, is_tree_total := is_tree_total s - 1, is_hash := hash\<rparr>))
     }"

definition dealloc_from_tree :: "ipc_space \<Rightarrow> mach_port_name \<Rightarrow> ipc_space option" where
  "dealloc_from_tree s name =
     (let index = unat (MACH_PORT_INDEX name) in do {
       tree \<leftarrow> ipc_splay_tree_delete (is_tree s) name;
       asserting (0 < is_tree_total s);
       let s1 = s\<lparr>is_tree := tree, is_tree_total := is_tree_total s - 1\<rparr>;
       if index < is_table_size s then do {
         let ientry = is_table s ! index;
         asserting (ie_bits ientry AND IE_BITS_COLLISION \<noteq> 0);
         (s2, collision) \<leftarrow> ipc_entry_tree_collision s1 name;
         Some (if collision then s2
               else set_entry index (ientry\<lparr>ie_bits := ie_bits ientry AND NOT IE_BITS_COLLISION\<rparr>) s2)
       }
       else if index < its_size (is_table_next s) then do {
         (s2, collision) \<leftarrow> ipc_entry_tree_collision s1 name;
         if collision then Some s2
         else do {
           asserting (0 < is_tree_small s2);
           Some (s2\<lparr>is_tree_small := is_tree_small s2 - 1\<rparr>)
         }
       }
       else Some s1
     })"

definition ipc_entry_dealloc ::
  "ipc_entry splay \<Rightarrow> ipc_space \<Rightarrow> mach_port_name \<Rightarrow> ipc_entry_ref \<Rightarrow> ipc_space option" where
  "ipc_entry_dealloc raw s name r =
     (let index = unat (MACH_PORT_INDEX name) in do {
       asserting (is_active s);
       entry \<leftarrow> entry_of s r;
       asserting (ie_object entry = None);
       asserting (ie_request entry = 0);
       if is_fast s then do {
         asserting (index < is_table_size s);
         asserting (r = In_Table index);
         asserting (IE_BITS_GEN (ie_bits entry) = MACH_PORT_GEN name);
         asserting (ie_bits entry AND IE_BITS_COLLISION = 0);
         free_slot s index
       }
       else if index < is_table_size s \<and> r = In_Table index then do {
         asserting (IE_BITS_GEN (ie_bits entry) = MACH_PORT_GEN name);
         if ie_bits entry AND IE_BITS_COLLISION \<noteq> 0 then move_collision raw s index
         else free_slot s index
       }
       else do {
         asserting (r = In_Tree name);
         dealloc_from_tree s name
       }
     })"

section \<open>Growing the table\<close>

text \<open>A period in which the space is unlocked: what the other threads do to it, and whether the
  allocation made meanwhile (if any) succeeds.\<close>

type_synonym interlude = "(ipc_space \<Rightarrow> ipc_space) \<times> bool"

text \<open>The search for the size after a target; the last two sizes being equal, it stops before the end
  of the array.  \<open>beyond\<close> is the word behind the array, which the code reads as \<open>nsize\<close> when the
  table has its largest size.\<close>

function its_search :: "nat \<Rightarrow> nat \<Rightarrow> nat \<Rightarrow> (nat \<times> nat) option" where
  "its_search target psize its =
     (if psize \<noteq> its_size its \<and> its_size its < target
      then (if its + 1 < ipc_table_entries_size
            then its_search target (its_size its) (its + 1) else None)
      else Some (psize, its))"
  by pat_completeness auto
termination
  by (relation "measure (\<lambda>(target, psize, its). ipc_table_entries_size - its)") auto

declare its_search.simps [simp del]

definition its_read :: "nat \<Rightarrow> nat \<Rightarrow> nat" where
  "its_read beyond its = (if its < ipc_table_entries_size then its_size its else beyond)"

text \<open>The body of the traversal that moves entries into the table: the state is the table, the number
  of entries in the tree and the calls to the hash table, or \<open>None\<close> after a failed assertion.\<close>

fun move_entry ::
  "nat \<Rightarrow> nat \<Rightarrow> mach_port_name \<Rightarrow> ipc_entry \<Rightarrow> (ipc_entry list \<times> nat \<times> hash_call list) option \<Rightarrow>
   (ipc_entry list \<times> nat \<times> hash_call list) option \<times> bool" where
  "move_entry osize sz name tentry None = (None, False)"
| "move_entry osize sz name tentry (Some (table, count, hash)) =
     (let gen = MACH_PORT_GEN name; index = unat (MACH_PORT_INDEX name) in
      if \<not> (osize \<le> index \<and> index < sz) then (None, False)
      else
        let entry = table ! index; bits = ie_bits entry in
        if IE_BITS_TYPE bits \<noteq> 0 then
          (if IE_BITS_GEN bits = gen then (None, False)
           else (Some (table[index := entry\<lparr>ie_bits := bits OR IE_BITS_COLLISION\<rparr>], count, hash), False))
        else if IE_BITS_TYPE (ie_bits tentry) = MACH_PORT_TYPE_NONE then (None, False)
        else
          (Some (table[index := \<lparr>ie_object = ie_object tentry, ie_bits = ie_bits tentry OR gen,
                                 ie_request = ie_request tentry\<rparr>],
                 count - 1,
                 hash @ (if IE_BITS_TYPE (ie_bits tentry) = MACH_PORT_TYPE_SEND
                         then [ipc_hash_global_delete (ie_object tentry) name,
                               ipc_hash_local_insert (ie_object tentry) index]
                         else [])), True))"

text \<open>The body of the traversal that counts: the number of changes of index, and the last index.\<close>

definition count_small ::
  "mach_port_name \<Rightarrow> ipc_entry \<Rightarrow> nat \<times> u32 \<Rightarrow> (nat \<times> u32) \<times> bool" where
  "count_small name tentry st =
     (let (nosmall, index) = st; nindex = MACH_PORT_INDEX name
      in (if nindex \<noteq> index then (nosmall + 1, nindex) else (nosmall, index), False))"

definition move_tree ::
  "ipc_entry splay \<Rightarrow> nat \<Rightarrow> nat \<Rightarrow> nat \<Rightarrow> ipc_space \<Rightarrow> ipc_space option" where
  "move_tree raw osize sz nsize s =
     do {
       (tree, small) \<leftarrow> ipc_splay_tree_split (is_tree s) (MACH_PORT_MAKE (of_nat nsize) 0) raw;
       (small, move) \<leftarrow> ipc_splay_tree_split small (MACH_PORT_MAKE (of_nat sz) 0) raw;
       (move, ignore) \<leftarrow> ipc_splay_tree_split move (MACH_PORT_MAKE (of_nat osize) 0) raw;
       (moved, move) \<leftarrow> splay_traverse (length (splay_entries move)) (move_entry osize sz)
                           (Some (is_table s, is_tree_total s, is_hash s)) move;
       (table, count, hash) \<leftarrow> moved;
       ((nosmall, index), small) \<leftarrow>
         splay_traverse (length (splay_entries small)) count_small (0, 0) small;
       asserting (nosmall \<le> nsize - sz);
       asserting (nosmall \<le> count);
       (tree, small) \<leftarrow> ipc_splay_tree_join tree small;
       (tree, move) \<leftarrow> ipc_splay_tree_join tree move;
       (tree, ignore) \<leftarrow> ipc_splay_tree_join tree ignore;
       Some (s\<lparr>is_table := table, is_tree_total := count, is_hash := hash,
               is_tree_small := nosmall, is_tree := tree\<rparr>)
     }"

text \<open>The new elements that are still unused, from the last to the first, go to the front of the
  free list.\<close>

fun free_new :: "nat \<Rightarrow> nat \<Rightarrow> ipc_entry list \<times> nat \<Rightarrow> ipc_entry list \<times> nat" where
  "free_new osize i (table, free_index) =
     (if i = 0 \<or> i \<le> osize then (table, free_index)
      else
        let j = i - 1; entry = table ! j in
        free_new osize j
          (if ie_bits entry = 0
           then (table[j := entry\<lparr>ie_bits := IE_BITS_GEN_MASK, ie_request := of_nat free_index\<rparr>], j)
           else (table, free_index)))"

declare free_new.simps [simp del]

text \<open>From the relocking after the allocation to the unlocking: the old table's elements are copied,
  the new ones zeroed, the old ones hashed again.\<close>

definition grow_install ::
  "ipc_entry splay \<Rightarrow> nat \<Rightarrow> nat \<Rightarrow> nat \<Rightarrow> nat \<Rightarrow> ipc_space \<Rightarrow> ipc_space option" where
  "grow_install raw osize sz nits nsize s =
     (let zero = \<lparr>ie_object = None, ie_bits = 0, ie_request = 0\<rparr>;
          old = is_table s;
          rehash = map (\<lambda>i. ipc_hash_local_insert (ie_object (old ! i)) i)
            (filter (\<lambda>i. IE_BITS_TYPE (ie_bits (old ! i)) = MACH_PORT_TYPE_SEND) [0..<osize]);
          s1 = s\<lparr>is_table := old @ replicate (sz - osize) zero, is_table_next := nits,
                 is_hash := is_hash s @ local_hash_cleared sz # rehash\<rparr>
      in do {
        asserting (is_fast s \<longrightarrow> is_tree_total s = 0);
        s2 \<leftarrow> (if 0 < is_tree_total s1 then move_tree raw osize sz nsize s1 else Some s1);
        head \<leftarrow> entry_at s2 0;
        let (table, free_index) = free_new osize sz (is_table s2, ie_next head);
        Some (s2\<lparr>is_table := table[0 := (table ! 0)\<lparr>ie_request := of_nat free_index\<rparr>]\<rparr>)
      })"

text \<open>How one turn of the loop of \<open>ipc_entry_grow_table\<close> ends: a return code with the space locked or
  not, or the loop's test.\<close>

datatype grow_turn = Grow_Return kern_return bool | Grow_Again

definition grow_allocated ::
  "ipc_entry splay \<Rightarrow> nat option \<Rightarrow> nat \<Rightarrow> nat \<Rightarrow> nat \<Rightarrow> nat \<Rightarrow> ipc_space \<Rightarrow> bool \<Rightarrow> interlude list \<Rightarrow>
   (ipc_space \<times> grow_turn \<times> interlude list) option" where
  "grow_allocated raw target osize sz its nsize s table_ok ws =
     (if \<not> table_ok then Some (s, Grow_Return KERN_RESOURCE_SHORTAGE False, ws)
      else
        case ws of
          [] \<Rightarrow> None
        | (other, _) # ws' \<Rightarrow>
            if \<not> is_active s then Some (other s, Grow_Return KERN_SUCCESS True, ws')
            else do {
              asserting (is_table_next s = its \<or> target \<noteq> None);
              asserting (is_table_size s = osize);
              s1 \<leftarrow> grow_install raw osize sz (its + 1) nsize s;
              let s2 = other s1;
              if \<not> is_active s2 \<or> is_table_next s2 \<noteq> its + 1
              then Some (s2, Grow_Return KERN_SUCCESS True, ws')
              else if 0 < is_tree_small s2 \<and>
                (nsize - sz) * ipc_entry_bytes < is_tree_small s2 * ipc_tree_entry_bytes
              then Some (s2, Grow_Again, ws')
              else Some (s2, Grow_Return KERN_SUCCESS True, ws')
            })"

definition grow_table_turn ::
  "nat \<Rightarrow> ipc_entry splay \<Rightarrow> nat option \<Rightarrow> ipc_space \<Rightarrow> interlude list \<Rightarrow>
   (ipc_space \<times> grow_turn \<times> interlude list) option" where
  "grow_table_turn beyond raw target s ws =
     (if \<not> is_active s then None
      else if is_growing s then
        (case ws of [] \<Rightarrow> None | (other, _) # ws' \<Rightarrow> Some (other s, Grow_Return KERN_SUCCESS True, ws'))
      else
        let next = is_table_next s; osize = its_size (next - 1) in
        if target \<noteq> None \<and> the target \<le> osize then Some (s, Grow_Return KERN_SUCCESS False, ws)
        else do {
          (psize, its) \<leftarrow>
            (case target of None \<Rightarrow> Some (osize, next) | Some t \<Rightarrow> its_search t osize next);
          let sz = its_size its;
          if target \<noteq> None \<and> psize = sz then Some (s, Grow_Return KERN_NO_SPACE False, ws)
          else
            let nsize = its_read beyond (its + 1) in
            if osize = sz then Some (s, Grow_Return KERN_NO_SPACE False, ws)
            else do {
              asserting (osize < sz \<and> sz \<le> nsize);
              case ws of
                [] \<Rightarrow> None
              | (other, table_ok) # ws' \<Rightarrow>
                  grow_allocated raw target osize sz its nsize
                    ((other (s\<lparr>is_growing := True\<rparr>))\<lparr>is_growing := False\<rparr>) table_ok ws'
            }
        })"

text \<open>The loop; \<open>fuel\<close> bounds the turns, each of which uses up an interlude if it goes on.\<close>

fun ipc_entry_grow_table ::
  "nat \<Rightarrow> nat \<Rightarrow> ipc_entry splay \<Rightarrow> nat option \<Rightarrow> ipc_space \<Rightarrow> interlude list \<Rightarrow>
   (ipc_space \<times> kern_return \<times> bool \<times> interlude list) option" where
  "ipc_entry_grow_table 0 beyond raw target s ws = None"
| "ipc_entry_grow_table (Suc fuel) beyond raw target s ws =
     do {
       (s', t, ws') \<leftarrow> grow_table_turn beyond raw target s ws;
       (case t of
         Grow_Return kr locked \<Rightarrow> Some (s', kr, locked, ws')
       | Grow_Again \<Rightarrow> ipc_entry_grow_table fuel beyond raw target s' ws')
     }"

section \<open>The allocation loops\<close>

fun ipc_entry_alloc ::
  "nat \<Rightarrow> nat \<Rightarrow> ipc_entry splay \<Rightarrow> ipc_space \<Rightarrow> interlude list \<Rightarrow>
   (ipc_space \<times> (kern_return + mach_port_name \<times> ipc_entry_ref) \<times> interlude list) option" where
  "ipc_entry_alloc 0 beyond raw s ws = None"
| "ipc_entry_alloc (Suc fuel) beyond raw s ws =
     (if \<not> is_active s then Some (s, Inl KERN_INVALID_TASK, ws)
      else do {
        (s1, r) \<leftarrow> ipc_entry_get s;
        (case r of
          Inr e \<Rightarrow> Some (s1, Inr e, ws)
        | Inl _ \<Rightarrow> do {
            (s2, kr, locked, ws') \<leftarrow> ipc_entry_grow_table (length ws + 1) beyond raw None s1 ws;
            if kr = KERN_SUCCESS then ipc_entry_alloc fuel beyond raw s2 ws'
            else Some (s2, Inl kr, ws')
          })
      })"

text \<open>\<open>tentry\<close>: a tree entry was allocated in an earlier turn.\<close>

fun ipc_entry_alloc_name ::
  "nat \<Rightarrow> nat \<Rightarrow> ipc_entry splay \<Rightarrow> ipc_space \<Rightarrow> mach_port_name \<Rightarrow> bool \<Rightarrow> interlude list \<Rightarrow>
   (ipc_space \<times> (kern_return + ipc_entry_ref) \<times> interlude list) option" where
  "ipc_entry_alloc_name 0 beyond raw s name tentry ws = None"
| "ipc_entry_alloc_name (Suc fuel) beyond raw s name tentry ws =
     do {
       asserting (MACH_PORT_VALID name);
       (s1, t) \<leftarrow> ipc_entry_alloc_name_turn s name tentry;
       (case t of
         Have_Entry r \<Rightarrow> Some (s1, Inr r, ws)
       | Give_Up kr \<Rightarrow> Some (s1, Inl kr, ws)
       | Grow_Table \<Rightarrow> do {
           (s2, kr, locked, ws') \<leftarrow> ipc_entry_grow_table (length ws + 1) beyond raw None s1 ws;
           asserting (kr \<noteq> KERN_NO_SPACE);
           if kr = KERN_SUCCESS then ipc_entry_alloc_name fuel beyond raw s2 name tentry ws'
           else Some (s2, Inl kr, ws')
         }
       | Need_Tree_Entry \<Rightarrow>
           (case ws of
             [] \<Rightarrow> None
           | (other, tentry_ok) # ws' \<Rightarrow>
               if tentry_ok then ipc_entry_alloc_name fuel beyond raw (other s1) name True ws'
               else Some (other s1, Inl KERN_RESOURCE_SHORTAGE, ws')))
     }"

section \<open>A new space\<close>

text \<open>\<open>ipc_space_create\<close> with the index of the initial size; \<open>is_fast\<close> is set by the caller, and the
  tree structure is initialised in place.\<close>

definition ipc_space_create :: "nat \<Rightarrow> bool \<Rightarrow> ipc_entry splay \<Rightarrow> ipc_space" where
  "ipc_space_create initial fast raw =
     (let new_size = its_size initial;
          table = map (\<lambda>index. \<lparr>ie_object = None, ie_bits = IE_BITS_GEN_MASK,
                                ie_request = of_nat (index + 1)\<rparr>) [0..<new_size]
      in \<lparr>is_active = True, is_growing = False,
          is_table = table[new_size - 1 := (table ! (new_size - 1))\<lparr>ie_request := 0\<rparr>],
          is_table_next = initial + 1, is_tree = ipc_splay_tree_init raw,
          is_tree_total = 0, is_tree_small = 0, is_fast = fast, is_hash = []\<rparr>)"

end
