(* ===== verification/Ipc_Entry_Inv.thy ===== *)
theory Ipc_Entry_Inv
  imports Ipc_Entry
begin

text \<open>
  The bit fields of port names and entries, the invariant of a space, and the map from names to
  rights that it stands for; what \<open>ipc_entry_lookup\<close> and \<open>ipc_entry_tree_collision\<close> find in it.
\<close>

section \<open>Bit fields of names and entries\<close>

lemmas bits_algebra = bit.conj_disj_distrib bit.conj_disj_distrib2 and.assoc IE_BITS_TYPE_def IE_BITS_GEN_def

lemma type_or_collision [simp]: "IE_BITS_TYPE (b OR IE_BITS_COLLISION) = IE_BITS_TYPE b"
  by (simp add: bits_algebra)
lemma gen_or_collision [simp]: "IE_BITS_GEN (b OR IE_BITS_COLLISION) = IE_BITS_GEN b"
  by (simp add: bits_algebra)
lemma right_or_collision [simp]: "(b OR IE_BITS_COLLISION) AND IE_BITS_RIGHT_MASK = b AND IE_BITS_RIGHT_MASK"
  by (simp add: bits_algebra)
lemma collision_or_collision [simp]: "(b OR IE_BITS_COLLISION) AND IE_BITS_COLLISION = IE_BITS_COLLISION"
  by (simp add: bits_algebra and.commute [of b])

lemma type_and_gen [simp]: "IE_BITS_TYPE (b AND IE_BITS_GEN_MASK) = 0"
  by (simp add: bits_algebra)
lemma gen_and_gen [simp]: "IE_BITS_GEN (b AND IE_BITS_GEN_MASK) = IE_BITS_GEN b"
  by (simp add: bits_algebra)
lemma collision_and_gen [simp]: "(b AND IE_BITS_GEN_MASK) AND IE_BITS_COLLISION = 0"
  by (simp add: bits_algebra)
lemma gen_of_gen [simp]: "(b AND IE_BITS_GEN_MASK) AND IE_BITS_GEN_MASK = b AND IE_BITS_GEN_MASK"
  by (simp add: bits_algebra)

lemma not_collision:
  "(b AND NOT IE_BITS_COLLISION) AND IE_BITS_COLLISION = 0"
  "IE_BITS_TYPE (b AND NOT IE_BITS_COLLISION) = IE_BITS_TYPE b"
  "IE_BITS_GEN (b AND NOT IE_BITS_COLLISION) = IE_BITS_GEN b"
  "(b AND NOT IE_BITS_COLLISION) AND IE_BITS_RIGHT_MASK = b AND IE_BITS_RIGHT_MASK"
  by (simp_all add: bits_algebra)

lemma right_bits_or_gen:
  assumes "b AND IE_BITS_RIGHT_MASK = b" and "g AND IE_BITS_GEN_MASK = g"
  shows "IE_BITS_TYPE (b OR g) = IE_BITS_TYPE b" "IE_BITS_GEN (b OR g) = g"
    "(b OR g) AND IE_BITS_COLLISION = 0" "(b OR g) AND IE_BITS_RIGHT_MASK = b"
proof -
  have "g AND IE_BITS_TYPE_MASK = 0" "g AND IE_BITS_COLLISION = 0" "g AND IE_BITS_RIGHT_MASK = 0"
    by (subst assms(2) [symmetric], simp add: bits_algebra)+
  moreover have "b AND IE_BITS_GEN_MASK = 0" "b AND IE_BITS_COLLISION = 0"
    by (subst assms(1) [symmetric], simp add: bits_algebra)+
  ultimately show "IE_BITS_TYPE (b OR g) = IE_BITS_TYPE b" "IE_BITS_GEN (b OR g) = g"
    "(b OR g) AND IE_BITS_COLLISION = 0" "(b OR g) AND IE_BITS_RIGHT_MASK = b"
    using assms by (simp_all add: bits_algebra)
qed

lemma mask8: "(0xff :: u32) = mask 8"
  by (simp add: mask_eq_exp_minus_1)
lemma gen_mask: "(0xff000000 :: u32) = push_bit 24 (mask 8)"
  by (simp add: mask_eq_exp_minus_1)

lemma port_gen_gen [simp]: "MACH_PORT_GEN n AND IE_BITS_GEN_MASK = MACH_PORT_GEN n"
  unfolding MACH_PORT_GEN_def gen_mask mask8
  by (rule bit_word_eqI) (auto simp: bit_simps)

lemma index_make:
  assumes "i < 2 ^ 24" and "g AND IE_BITS_GEN_MASK = g"
  shows "MACH_PORT_INDEX (MACH_PORT_MAKE i g) = i" and "MACH_PORT_GEN (MACH_PORT_MAKE i g) = g"
proof -
  have i: "take_bit 24 i = i"
    using assms(1) by (simp add: word_unat_eq_iff unsigned_take_bit_eq take_bit_nat_eq_self_iff word_less_nat_alt)
  then have hi: "\<not> bit i n" if "24 \<le> n" for n
    using that by (metis bit_take_bit_iff not_le)
  have lo: "\<not> bit g n" if "n < 24" for n
  proof -
    have "bit g n = bit (g AND push_bit 24 (mask 8)) n"
      using assms(2) by (simp add: gen_mask)
    then show ?thesis
      using that by (simp add: bit_simps)
  qed
  show "MACH_PORT_INDEX (MACH_PORT_MAKE i g) = i"
    unfolding MACH_PORT_MAKE_def MACH_PORT_INDEX_def
    using hi by (intro bit_word_eqI) (auto simp: bit_simps dest: bit_imp_le_length, meson not_le)
  have "bit (push_bit 24 ((push_bit 8 i OR drop_bit 24 g) AND mask 8)) k = bit g k" if "k < 32" for k
    using lo [of k] that by (cases "k < 24") (auto simp: bit_simps)
  then show "MACH_PORT_GEN (MACH_PORT_MAKE i g) = g"
    unfolding MACH_PORT_MAKE_def MACH_PORT_GEN_def mask8 by (intro bit_word_eqI) simp
qed

lemma make_index_gen [simp]: "MACH_PORT_MAKE (MACH_PORT_INDEX n) (MACH_PORT_GEN n) = n"
  unfolding MACH_PORT_MAKE_def MACH_PORT_INDEX_def MACH_PORT_GEN_def mask8
proof (rule bit_word_eqI)
  fix k
  assume "k < LENGTH(32)"
  then show "bit (push_bit 8 (drop_bit 8 n) OR drop_bit 24 (push_bit 24 (n AND mask 8))) k = bit n k"
    by (cases "k < 8") (auto simp: bit_simps)
qed

definition name_index :: "mach_port_name \<Rightarrow> nat" where "name_index n = unat (MACH_PORT_INDEX n)"

lemma name_index_div: "name_index n = unat n div 256"
  by (simp add: name_index_def MACH_PORT_INDEX_def drop_bit_eq_div unat_div)

lemma name_index_less: "name_index n < 2 ^ 24"
  using unsigned_less [of n, where ?'a = nat] by (simp add: name_index_div)

lemma name_index_mono: "m \<le> n \<Longrightarrow> name_index m \<le> name_index n"
  by (simp add: name_index_div word_le_nat_alt div_le_mono)

lemma below_make_0: 
  assumes "j < 2 ^ 24"
  shows "n < MACH_PORT_MAKE (of_nat j) 0 \<longleftrightarrow> name_index n < j"
proof -
  have "unat (MACH_PORT_MAKE (of_nat j) 0) = j * 256"
    using assms
    by (simp add: MACH_PORT_MAKE_def push_bit_eq_mult unat_word_ariths unat_of_nat take_bit_nat_eq_self)
  then show ?thesis
    by (simp add: word_less_nat_alt name_index_div div_less_iff_less_mult)
qed

lemma name_eqI: "name_index m = name_index n \<Longrightarrow> MACH_PORT_GEN m = MACH_PORT_GEN n \<Longrightarrow> m = n"
  by (metis make_index_gen name_index_def word_unat_eq_iff)

lemma name_index_make:
  assumes "i < 2 ^ 24" and "g AND IE_BITS_GEN_MASK = g"
  shows "name_index (MACH_PORT_MAKE (of_nat i) g) = i" "MACH_PORT_GEN (MACH_PORT_MAKE (of_nat i) g) = g"
proof -
  have "unat (of_nat i :: u32) = i"
    using assms(1) by (intro unat_of_nat_u32) simp
  moreover from this have "(of_nat i :: u32) < 2 ^ 24"
    using assms(1) by (simp add: word_less_nat_alt)
  ultimately show "name_index (MACH_PORT_MAKE (of_nat i) g) = i" "MACH_PORT_GEN (MACH_PORT_MAKE (of_nat i) g) = g"
    using index_make assms(2) by (simp_all add: name_index_def)
qed

lemma make_valid:
  assumes "0 < i" and "i + 1 < 2 ^ 24" and "g AND IE_BITS_GEN_MASK = g"
  shows "MACH_PORT_VALID (MACH_PORT_MAKE (of_nat i) g)"
proof -
  have "name_index (MACH_PORT_MAKE (of_nat i) g) = i"
    using name_index_make(1) assms(2,3) by simp
  moreover have "name_index 0 = 0" "name_index 0xffffffff = 2 ^ 24 - 1"
    by (simp_all add: name_index_div)
  ultimately show ?thesis
    using assms(1,2) unfolding MACH_PORT_VALID_def by auto
qed

lemma new_gen_gen [simp]: "IE_BITS_NEW_GEN b AND IE_BITS_GEN_MASK = IE_BITS_NEW_GEN b"
  by (simp add: IE_BITS_NEW_GEN_def and.assoc)

lemma gen_gen [simp]: "IE_BITS_GEN b AND IE_BITS_GEN_MASK = IE_BITS_GEN b"
  by (simp add: IE_BITS_GEN_def and.assoc)

lemma pure_gen:
  assumes "g AND IE_BITS_GEN_MASK = g"
  shows "IE_BITS_TYPE g = 0" "IE_BITS_GEN g = g" "g AND IE_BITS_COLLISION = 0"
    "g AND IE_BITS_RIGHT_MASK = 0"
  using right_bits_or_gen [of 0 g] assms
  by (simp_all add: bits_algebra)

lemma new_gen_differs: "IE_BITS_NEW_GEN b \<noteq> IE_BITS_GEN b"
proof
  assume "IE_BITS_NEW_GEN b = IE_BITS_GEN b"
  moreover have top: "drop_bit 24 (x AND IE_BITS_GEN_MASK) = drop_bit 24 x" for x :: u32
    unfolding gen_mask
    by (rule bit_word_eqI) (auto simp: bit_simps dest: bit_imp_le_length)
  ultimately have "drop_bit 24 (b + IE_BITS_GEN_ONE) = drop_bit 24 b"
    unfolding IE_BITS_NEW_GEN_def IE_BITS_GEN_def by metis
  then have "unat (b + IE_BITS_GEN_ONE) div 2 ^ 24 = unat b div 2 ^ 24"
    by (metis unat_drop_bit_eq drop_bit_eq_div)
  moreover have "unat (b + IE_BITS_GEN_ONE) = (unat b + 4 * 2 ^ 24) mod (2 ^ 24 * 256)"
    by (simp add: unat_word_ariths)
  moreover have "v mod (2 ^ 24 * 256) div 2 ^ 24 = v div 2 ^ 24 mod 256" for v :: nat
    by (subst mod_mult2_eq) simp
  moreover have "(u + 4 * 2 ^ 24) div 2 ^ 24 = u div 2 ^ 24 + 4" for u :: nat
    using div_mult_self1 [of "2 ^ 24" u 4] by simp
  ultimately have "(unat b div 2 ^ 24 + 4) mod 256 = unat b div 2 ^ 24"
    by metis
  moreover have "(q + 4) mod 256 \<noteq> q" for q :: nat
  proof
    assume eq: "(q + 4) mod 256 = q"
    then have "q < 256"
      by (metis mod_less_divisor zero_less_numeral)
    with eq show False
      by (cases "q + 4 < 256") (simp_all add: le_mod_geq)
  qed
  ultimately show False
    by blast
qed

section \<open>The invariant\<close>

text \<open>The name of an element of the table, the chain of the free list, and the elements on it.
  \<open>pend\<close>: the names of the entries that were allocated but have no type yet; outside the locked regions
  there are none.\<close>

definition slot_name :: "ipc_entry list \<Rightarrow> nat \<Rightarrow> mach_port_name" where
  "slot_name t i = MACH_PORT_MAKE (of_nat i) (IE_BITS_GEN (ie_bits (t ! i)))"

fun free_chain :: "ipc_entry list \<Rightarrow> nat \<Rightarrow> nat list \<Rightarrow> bool" where
  "free_chain t i [] \<longleftrightarrow> ie_next (t ! i) = 0"
| "free_chain t i (j # js) \<longleftrightarrow> ie_next (t ! i) = j \<and> free_chain t j js"

definition unused :: "ipc_entry list \<Rightarrow> nat \<Rightarrow> bool" where
  "unused t i \<longleftrightarrow> IE_BITS_TYPE (ie_bits (t ! i)) = 0"

definition free_slots :: "mach_port_name set \<Rightarrow> ipc_entry list \<Rightarrow> nat set" where
  "free_slots pend t = {i. 0 < i \<and> i < length t \<and> unused t i \<and> slot_name t i \<notin> pend}"

definition free_list_ok :: "mach_port_name set \<Rightarrow> ipc_entry list \<Rightarrow> bool" where
  "free_list_ok pend t \<longleftrightarrow> (\<exists>fl. free_chain t 0 fl \<and> distinct fl \<and> set fl = free_slots pend t)"

definition slots_ok :: "mach_port_name set \<Rightarrow> ipc_entry list \<Rightarrow> bool" where
  "slots_ok pend t \<longleftrightarrow>
     0 < length t \<and> length t < 2 ^ 24 \<and> ie_bits (t ! 0) = IE_BITS_GEN_MASK \<and> ie_object (t ! 0) = None \<and>
     (\<forall>i. 0 < i \<and> i < length t \<and> unused t i \<longrightarrow>
        ie_object (t ! i) = None \<and> ie_bits (t ! i) AND IE_BITS_GEN_MASK = ie_bits (t ! i) \<and>
        (slot_name t i \<in> pend \<longrightarrow> ie_request (t ! i) = 0))"

definition tree_entry_ok ::
  "mach_port_name set \<Rightarrow> ipc_entry list \<Rightarrow> mach_port_name \<Rightarrow> ipc_entry \<Rightarrow> bool" where
  "tree_entry_ok pend t n e \<longleftrightarrow>
     n \<noteq> MACH_PORT_LARGEST \<and> 0 < name_index n \<and> ie_bits e AND IE_BITS_RIGHT_MASK = ie_bits e \<and>
     (IE_BITS_TYPE (ie_bits e) = 0 \<longrightarrow> n \<in> pend) \<and>
     (name_index n < length t \<longrightarrow>
        \<not> unused t (name_index n) \<and> IE_BITS_GEN (ie_bits (t ! name_index n)) \<noteq> MACH_PORT_GEN n)"

definition tree_ok ::
  "mach_port_name set \<Rightarrow> ipc_entry list \<Rightarrow> (mach_port_name \<times> ipc_entry) list \<Rightarrow> bool" where
  "tree_ok pend t es \<longleftrightarrow> (\<forall>(n, e) \<in> set es. tree_entry_ok pend t n e)"

definition collisions_ok :: "ipc_entry list \<Rightarrow> mach_port_name set \<Rightarrow> bool" where
  "collisions_ok t ns \<longleftrightarrow>
     (\<forall>i < length t. ie_bits (t ! i) AND IE_BITS_COLLISION \<noteq> 0 \<longleftrightarrow> i \<in> name_index ` ns)"

definition small_count :: "nat \<Rightarrow> nat \<Rightarrow> mach_port_name set \<Rightarrow> nat" where
  "small_count lo hi ns = card {i \<in> name_index ` ns. lo \<le> i \<and> i < hi}"

abbreviation tree_entries :: "ipc_space \<Rightarrow> (mach_port_name \<times> ipc_entry) list" where
  "tree_entries s \<equiv> splay_entries (is_tree s)"

abbreviation tree_names :: "ipc_space \<Rightarrow> mach_port_name set" where
  "tree_names s \<equiv> fst ` set (tree_entries s)"

definition sizes_of :: "ipc_space \<Rightarrow> bool" where
  "sizes_of s \<longleftrightarrow> 0 < is_table_next s \<and> is_table_next s < ipc_table_entries_size \<and>
     is_table_size s = its_size (is_table_next s - 1) \<and>
     is_tree_small s = small_count (is_table_size s) (its_size (is_table_next s)) (tree_names s)"

definition space_ok :: "mach_port_name set \<Rightarrow> ipc_space \<Rightarrow> bool" where
  "space_ok pend s \<longleftrightarrow>
     slots_ok pend (is_table s) \<and> free_list_ok pend (is_table s) \<and> splay_ok (is_tree s) \<and>
     tree_ok pend (is_table s) (tree_entries s) \<and> collisions_ok (is_table s) (tree_names s) \<and>
     is_tree_total s = length (tree_entries s) \<and> sizes_of s \<and> (is_fast s \<longrightarrow> tree_entries s = [])"

section \<open>The map a space stands for\<close>

text \<open>What a name means: the object, the type and user references, and the dead-name request.\<close>

type_synonym right = "nat option \<times> u32 \<times> u32"

definition right_of :: "ipc_entry \<Rightarrow> right" where
  "right_of e = (ie_object e, ie_bits e AND IE_BITS_RIGHT_MASK, ie_request e)"

definition slot_map :: "ipc_entry list \<Rightarrow> mach_port_name \<Rightarrow> right option" where
  "slot_map t n =
     (let i = name_index n in
      if i < length t \<and> IE_BITS_GEN (ie_bits (t ! i)) = MACH_PORT_GEN n \<and> \<not> unused t i
      then Some (right_of (t ! i)) else None)"

definition tree_map :: "(mach_port_name \<times> ipc_entry) list \<Rightarrow> mach_port_name \<Rightarrow> right option" where
  "tree_map es n =
     (case map_of es n of
       Some e \<Rightarrow> if IE_BITS_TYPE (ie_bits e) = 0 then None else Some (right_of e)
     | None \<Rightarrow> None)"

definition space_map :: "ipc_space \<Rightarrow> mach_port_name \<Rightarrow> right option" where
  "space_map s n =
     (case slot_map (is_table s) n of None \<Rightarrow> tree_map (tree_entries s) n | Some r \<Rightarrow> Some r)"

lemmas space_parts = space_ok_def sizes_of_def

lemma space_okD:
  assumes "space_ok pend s"
  shows "slots_ok pend (is_table s)" "free_list_ok pend (is_table s)" "splay_ok (is_tree s)"
    "tree_ok pend (is_table s) (tree_entries s)" "collisions_ok (is_table s) (tree_names s)"
    "is_tree_total s = length (tree_entries s)" "sizes_of s" "is_fast s \<Longrightarrow> tree_entries s = []"
    "ascending (tree_entries s)"
  using assms splay_ok_ascending by (auto simp: space_ok_def)

lemma tree_okD:
  assumes "tree_ok pend t es" and "map_of es n = Some e"
  shows "tree_entry_ok pend t n e"
  using assms map_of_SomeD [OF assms(2)] by (auto simp: tree_ok_def)

lemma tree_ok_names:
  assumes "tree_ok pend t es" and "n \<in> fst ` set es"
  shows "n \<noteq> MACH_PORT_LARGEST" "n \<noteq> MACH_PORT_SMALLEST" "0 < name_index n"
    "name_index n < length t \<Longrightarrow> \<not> unused t (name_index n)"
    "name_index n < length t \<Longrightarrow> IE_BITS_GEN (ie_bits (t ! name_index n)) \<noteq> MACH_PORT_GEN n"
proof -
  obtain e where "tree_entry_ok pend t n e"
    using assms by (auto simp: tree_ok_def)
  moreover have "name_index 0 = 0"
    by (simp add: name_index_div)
  ultimately show "n \<noteq> MACH_PORT_LARGEST" "n \<noteq> MACH_PORT_SMALLEST" "0 < name_index n"
    "name_index n < length t \<Longrightarrow> \<not> unused t (name_index n)"
    "name_index n < length t \<Longrightarrow> IE_BITS_GEN (ie_bits (t ! name_index n)) \<noteq> MACH_PORT_GEN n"
    by (auto simp: tree_entry_ok_def)
qed

text \<open>Splaying changes neither the invariant nor the map.\<close>

lemma retree_ok:
  assumes "space_ok pend s" and "splay_ok tree" and "splay_entries tree = tree_entries s"
  shows "space_ok pend (s\<lparr>is_tree := tree\<rparr>)" "space_map (s\<lparr>is_tree := tree\<rparr>) = space_map s"
  using assms by (auto simp: space_parts space_map_def fun_eq_iff split: option.split)

section \<open>Lookups\<close>

lemma tree_collision_spec:
  assumes "tree_ok pend t (tree_entries s)" and "splay_ok (is_tree s)" and "is_active s"
  obtains tree where "ipc_entry_tree_collision s name =
      Some (s\<lparr>is_tree := tree\<rparr>, name_index name \<in> name_index ` tree_names s)"
    and "splay_ok tree" and "splay_entries tree = tree_entries s"
proof -
  obtain tree lo hi where b: "ipc_splay_tree_bounds (is_tree s) name = (tree, lo, hi)"
    by (cases "ipc_splay_tree_bounds (is_tree s) name") auto
  note law = splay_map.bnd_law [OF assms(2) b]
  have dom: "dom (splay_content (is_tree s)) = tree_names s"
    by (simp add: dom_map_of_conv_image_fst)
  note res = tree_ok_names(1,2) [OF assms(1)]
  have "(lo \<noteq> MACH_PORT_LARGEST \<and> MACH_PORT_INDEX lo = MACH_PORT_INDEX name) \<or>
      (hi \<noteq> MACH_PORT_SMALLEST \<and> MACH_PORT_INDEX hi = MACH_PORT_INDEX name) \<longleftrightarrow>
      name_index name \<in> name_index ` tree_names s" (is "?L \<longleftrightarrow> ?R")
  proof
    assume ?L
    then have "(lo \<in> tree_names s \<and> name_index lo = name_index name) \<or>
        (hi \<in> tree_names s \<and> name_index hi = name_index name)"
      using law unfolding dom name_index_def by metis
    then show ?R
      by (metis image_eqI)
  next
    assume ?R
    then obtain m where m: "m \<in> tree_names s" "name_index m = name_index name"
      by (metis imageE)
    show ?L
    proof (cases "m \<le> name")
      case True
      then have "lo \<in> tree_names s" "m \<le> lo" "lo \<le> name"
        using law m(1) unfolding dom by metis+
      then have "name_index lo = name_index name" "lo \<noteq> MACH_PORT_LARGEST"
        using m(2) name_index_mono [of m lo] name_index_mono [of lo name] res by (simp_all del: not_le)
      then show ?thesis
        by (simp add: name_index_def word_unat_eq_iff)
    next
      case False
      then have "hi \<in> tree_names s" "hi \<le> m" "name \<le> hi"
        using law m(1) unfolding dom by (metis linear)+
      then have "name_index hi = name_index name" "hi \<noteq> MACH_PORT_SMALLEST"
        using m(2) name_index_mono [of hi m] name_index_mono [of name hi] res by (simp_all del: not_le)
      then show ?thesis
        by (simp add: name_index_def word_unat_eq_iff)
    qed
  qed
  then show thesis
    using that [of tree] b bounds_spec(1,2) [OF assms(2) b] assms(3)
    by (simp add: ipc_entry_tree_collision_def)
qed

lemma tree_lookup_spec:
  assumes "space_ok pend s" and "tree_lookup s name = (s', r)"
  shows "space_ok pend s'" "space_map s' = space_map s" "is_table s' = is_table s"
    "\<exists>tree. s' = s\<lparr>is_tree := tree\<rparr>"
    "tree_entries s' = tree_entries s" "r = (if tree_map (tree_entries s) name = None then None else Some (In_Tree name))"
proof -
  obtain tree found where l: "ipc_splay_tree_lookup (is_tree s) name = (tree, found)"
    by fastforce
  note sp = lookup_spec [OF space_okD(3) [OF assms(1)] l]
  have s': "s' = s\<lparr>is_tree := tree\<rparr>"
    and r: "r = (case found of Some e \<Rightarrow> if IE_BITS_TYPE (ie_bits e) = 0 then None else Some (In_Tree name)
      | None \<Rightarrow> None)"
    using assms(2) l by (auto simp: tree_lookup_def)
  show "space_ok pend s'" "space_map s' = space_map s"
    using retree_ok [OF assms(1) sp(1,2)] s' by simp_all
  show "is_table s' = is_table s" "\<exists>tree. s' = s\<lparr>is_tree := tree\<rparr>" "tree_entries s' = tree_entries s"
    using s' sp(2) by auto
  show "r = (if tree_map (tree_entries s) name = None then None else Some (In_Tree name))"
    using r sp(3) by (auto simp: tree_map_def split: option.splits)
qed

lemma slot_map_tree_map:
  assumes "space_ok pend s" and "slot_map (is_table s) name \<noteq> None"
  shows "map_of (tree_entries s) name = None"
  using tree_okD [OF space_okD(4) [OF assms(1)], of name] assms(2)
  by (cases "map_of (tree_entries s) name")
    (auto simp: slot_map_def tree_entry_ok_def Let_def split: if_splits)

end
