(* ===== verification/Ipc_Entry_Props.thy ===== *)
theory Ipc_Entry_Props
  imports Ipc_Entry_Inv
begin

text \<open>
  What the operations of ipc_entry.c do to the map from names to rights, and that they keep the
  invariant of the space.
\<close>

section \<open>Lookup\<close>

lemma tree_map_table:
  assumes "space_ok pend s" and "name_index name < is_table_size s"
    and "ie_bits (is_table s ! name_index name) AND IE_BITS_COLLISION = 0"
  shows "tree_map (tree_entries s) name = None"
proof -
  have "name \<notin> tree_names s"
    using space_okD(5) [OF assms(1)] assms(2,3) by (auto simp: collisions_ok_def)
  then have "map_of (tree_entries s) name = None"
    by (simp add: map_of_eq_None_iff)
  then show ?thesis
    by (simp add: tree_map_def)
qed

text \<open>What the lookup finds, as an entry of the space that the map's right describes.\<close>

lemma table_found:
  assumes "slot_map (is_table s) name = Some v"
  shows "map_option right_of (entry_of s (In_Table (name_index name))) = space_map s name"
  using assms by (auto simp: slot_map_def entry_of_def entry_at_def space_map_def Let_def split: if_splits)

lemma tree_found:
  assumes "slot_map (is_table s) name = None" and "tree_map (tree_entries s) name \<noteq> None"
  shows "map_option right_of (entry_of s (In_Tree name)) = space_map s name"
  using assms by (auto simp: entry_of_def space_map_def tree_map_def split: option.splits if_splits)

lemma tree_lookup_found:
  assumes "space_ok pend s" and "slot_map (is_table s) name = None"
    and "tree_lookup s name = (s', r)"
  shows "map_option right_of (Option.bind r (entry_of s')) = space_map s name"
proof -
  note sp = tree_lookup_spec [OF assms(1,3)]
  have "map_option right_of (Option.bind r (entry_of s')) = space_map s' name"
    using sp(3,5,6) assms(2) tree_found [of s' name]
    by (cases "tree_map (tree_entries s) name") (simp_all add: space_map_def)
  then show ?thesis
    using sp(2) by simp
qed

lemma entry_lookup_cases:
  assumes "space_ok pend s" and "is_active s" and "is_fast s \<Longrightarrow> name_index name < is_table_size s"
  shows "ipc_entry_lookup s name =
    (if slot_map (is_table s) name = None then
       if is_fast s \<or> is_tree_total s = 0 \<or> (name_index name < is_table_size s \<and>
       (ie_bits (is_table s ! name_index name) AND IE_BITS_COLLISION = 0 \<or>
        IE_BITS_GEN (ie_bits (is_table s ! name_index name)) = MACH_PORT_GEN name))
       then Some (s, None) else Some (tree_lookup s name)
     else Some (s, Some (In_Table (name_index name))))"
proof -
  note ok = space_okD [OF assms(1)]
  have total: "ie_bits (is_table s ! i) AND IE_BITS_COLLISION = 0" if "is_tree_total s = 0" "i < is_table_size s" for i
    using ok(5,6) that by (simp add: collisions_ok_def)
  show ?thesis
    using assms(2,3) total [of "name_index name"] 
    by (simp add: ipc_entry_lookup_def slot_map_def entry_at_def Let_def unused_def name_index_def [symmetric])
qed

lemma entry_lookup_spec:
  assumes "space_ok pend s" and "is_active s" and "is_fast s \<Longrightarrow> name_index name < is_table_size s"
  shows "\<exists>s' r tree. ipc_entry_lookup s name = Some (s', r) \<and> s' = s\<lparr>is_tree := tree\<rparr> \<and>
    splay_ok tree \<and> splay_entries tree = tree_entries s \<and>
    map_option right_of (Option.bind r (entry_of s')) = space_map s name"
proof -
  note ok = space_okD [OF assms(1)] and look = entry_lookup_cases [OF assms]
  let ?t = "is_table s" and ?i = "name_index name"
  have here: "?thesis" if "ipc_entry_lookup s name = Some (s, r)"
    "map_option right_of (Option.bind r (entry_of s)) = space_map s name" for r
    using that ok(3) by (intro exI [of _ s] exI [of _ r] exI [of _ "is_tree s"]) simp
  consider (slot) v where "slot_map ?t name = Some v"
    | (none) "slot_map ?t name = None" "is_fast s \<or> is_tree_total s = 0"
    | (clean) "slot_map ?t name = None" "?i < is_table_size s" "ie_bits (?t ! ?i) AND IE_BITS_COLLISION = 0"
    | (stale) "slot_map ?t name = None" "?i < is_table_size s" "IE_BITS_GEN (ie_bits (?t ! ?i)) = MACH_PORT_GEN name"
    | (tree) "slot_map ?t name = None" "ipc_entry_lookup s name = Some (tree_lookup s name)"
    using look by (cases "slot_map ?t name") (auto split: if_splits)
  then show ?thesis
  proof cases
    case slot
    then show ?thesis
      using look table_found [OF slot] by (intro here [of "Some (In_Table ?i)"]) simp_all
  next
    case none
    then have "tree_entries s = []"
      using ok(6,8) by auto
    then show ?thesis
      using look none by (intro here [of None]) (auto simp: space_map_def tree_map_def)
  next
    case clean
    then show ?thesis
      using look tree_map_table [OF assms(1) clean(2,3)]
      by (intro here [of None]) (simp_all add: space_map_def)
  next
    case stale
    have "map_of (tree_entries s) name = None"
      using tree_ok_names(5) [OF ok(4), of name] stale(2,3) by (auto simp: map_of_eq_None_iff)
    then show ?thesis
      using look stale by (intro here [of None]) (simp_all add: space_map_def tree_map_def)
  next
    case tree
    obtain s' r where l: "tree_lookup s name = (s', r)"
      by fastforce
    note sp = tree_lookup_spec [OF assms(1) l]
    obtain tree where t: "s' = s\<lparr>is_tree := tree\<rparr>"
      using sp(4) by blast
    then show ?thesis
      using tree(2) l t sp(5) space_okD(3) [OF sp(1)] tree_lookup_found [OF assms(1) tree(1) l]
      by (intro exI [of _ s'] exI [of _ r] exI [of _ tree]) simp
  qed
qed

section \<open>Tables that differ in unused entries\<close>

text \<open>A change of the table that touches only unused entries, and not their collision bits.\<close>

definition same_used :: "ipc_entry list \<Rightarrow> ipc_entry list \<Rightarrow> bool" where
  "same_used t t' \<longleftrightarrow> length t' = length t \<and>
     (\<forall>i < length t. (unused t' i \<longleftrightarrow> unused t i) \<and> (unused t i \<or> t' ! i = t ! i) \<and>
        (ie_bits (t' ! i) AND IE_BITS_COLLISION = 0 \<longleftrightarrow> ie_bits (t ! i) AND IE_BITS_COLLISION = 0))"

lemma same_used_map: "same_used t t' \<Longrightarrow> slot_map t' = slot_map t"
  by (rule ext) (auto simp: same_used_def slot_map_def Let_def)

lemma tree_entry_ok_cong:
  assumes "same_used t t'" and "pend \<subseteq> pend'" and "tree_entry_ok pend t n e"
  shows "tree_entry_ok pend' t' n e"
  using assms unfolding tree_entry_ok_def same_used_def by fastforce

lemma retable_ok:
  assumes "space_ok pend s" and "same_used (is_table s) t'" and "slots_ok pend' t'"
    and "free_list_ok pend' t'" and "pend \<subseteq> pend'"
  shows "space_ok pend' (s\<lparr>is_table := t'\<rparr>)" "space_map (s\<lparr>is_table := t'\<rparr>) = space_map s"
proof -
  note ok = space_okD [OF assms(1)]
  have len: "length t' = is_table_size s"
    using assms(2) by (simp add: same_used_def)
  have "tree_ok pend' t' (tree_entries s)"
    using ok(4) tree_entry_ok_cong [OF assms(2,5)] by (auto simp: tree_ok_def)
  moreover have "collisions_ok t' (tree_names s)"
    using ok(5) assms(2) by (simp add: collisions_ok_def same_used_def)
  ultimately show "space_ok pend' (s\<lparr>is_table := t'\<rparr>)"
    using assms(3,4) ok(3,6-8) len by (simp add: space_parts)
  show "space_map (s\<lparr>is_table := t'\<rparr>) = space_map s"
    by (rule ext) (simp add: space_map_def same_used_map [OF assms(2)] split: option.split)
qed

lemma unused_0: "slots_ok pend t \<Longrightarrow> unused t 0"
  by (simp add: slots_ok_def unused_def IE_BITS_TYPE_def)

lemma slot_name_index:
  assumes "i < 2 ^ 24"
  shows "name_index (slot_name t i) = i" "MACH_PORT_GEN (slot_name t i) = IE_BITS_GEN (ie_bits (t ! i))"
  using name_index_make [OF assms, of "IE_BITS_GEN (ie_bits (t ! i))"] by (simp_all add: slot_name_def)

lemma slot_name_eqI:
  "name_index n < 2 ^ 24 \<Longrightarrow> IE_BITS_GEN (ie_bits (t ! name_index n)) = MACH_PORT_GEN n \<Longrightarrow>
    slot_name t (name_index n) = n"
  by (simp add: slot_name_def name_index_def)

section \<open>The free list\<close>

lemma free_chain_cong:
  "free_chain t i fl \<Longrightarrow> ie_request (t' ! i') = ie_request (t ! i) \<Longrightarrow>
    (\<And>k. k \<in> set fl \<Longrightarrow> ie_request (t' ! k) = ie_request (t ! k)) \<Longrightarrow> free_chain t' i' fl"
  by (induction fl arbitrary: i i') auto

lemma free_chain_remove:
  assumes "free_chain t i (pre @ j # post)" and "distinct (i # pre @ j # post)"
    and "ie_request (t' ! last (i # pre)) = ie_request (t ! j)"
    and "\<And>k. k \<in> set (i # pre @ post) \<Longrightarrow> k \<noteq> last (i # pre) \<Longrightarrow> ie_request (t' ! k) = ie_request (t ! k)"
  shows "free_chain t' i (pre @ post)"
  using assms
proof (induction pre arbitrary: i)
  case Nil
  then have "free_chain t j post"
    by simp
  then show ?case
    using free_chain_cong [of t j post t' i] Nil by auto
next
  case (Cons p pre)
  then have "free_chain t' p (pre @ post)"
    by (intro Cons.IH) auto
  moreover have "i \<noteq> last (p # pre)"
    using Cons.prems(2) last_in_set [of "p # pre"] by auto
  then have "ie_request (t' ! i) = ie_request (t ! i)"
    using Cons.prems(4) [of i] by simp
  ultimately show ?case
    using Cons.prems(1) by simp
qed

lemma free_list_before_spec:
  assumes "free_chain t i (pre @ j # post)" and "distinct (i # pre @ j # post)"
    and "\<forall>k \<in> set (i # pre). k < length t" and "length pre < fuel"
  shows "free_list_before fuel t j i = Some (last (i # pre))"
  using assms
proof (induction pre arbitrary: i fuel)
  case Nil
  then show ?case
    by (cases fuel) simp_all
next
  case (Cons p pre)
  then obtain f where f: "fuel = Suc f"
    by (cases fuel) simp_all
  have "free_list_before f t j p = Some (last (p # pre))"
    using Cons.prems f by (intro Cons.IH) auto
  then show ?case
    using Cons.prems f by auto
qed

text \<open>Taking element \<open>j\<close> off the free list and giving it the generation \<open>gen\<close>: what both
  \<open>ipc_entry_get\<close> and \<open>ipc_entry_alloc_name\<close> do to the table.\<close>

definition take_slot :: "ipc_entry list \<Rightarrow> nat \<Rightarrow> nat \<Rightarrow> u32 \<Rightarrow> ipc_entry list" where
  "take_slot t p j gen =
     (t[p := (t ! p)\<lparr>ie_request := ie_request (t ! j)\<rparr>])
       [j := (t ! j)\<lparr>ie_bits := gen, ie_request := 0\<rparr>]"

lemma take_slot_nth:
  assumes "p \<noteq> j" and "p < length t" and "j < length t"
  shows "length (take_slot t p j gen) = length t"
    "take_slot t p j gen ! j = (t ! j)\<lparr>ie_bits := gen, ie_request := 0\<rparr>"
    "take_slot t p j gen ! p = (t ! p)\<lparr>ie_request := ie_request (t ! j)\<rparr>"
    "k \<noteq> p \<Longrightarrow> k \<noteq> j \<Longrightarrow> take_slot t p j gen ! k = t ! k"
  using assms by (simp_all add: take_slot_def)

lemma take_slot_ok:
  assumes "slots_ok pend t" and "free_chain t 0 (pre @ j # post)" and "distinct (pre @ j # post)"
    and "set (pre @ j # post) = free_slots pend t" and "gen AND IE_BITS_GEN_MASK = gen"
    and "p = last (0 # pre)" and "name = MACH_PORT_MAKE (of_nat j) gen"
  shows "same_used t (take_slot t p j gen)" "slots_ok (insert name pend) (take_slot t p j gen)"
    "free_list_ok (insert name pend) (take_slot t p j gen)" "p < length t" "p \<noteq> j"
    "name_index name = j" "MACH_PORT_GEN name = gen" "ie_object (t ! j) = None" "0 < j" "j < length t"
proof -
  let ?t = "take_slot t p j gen"
  have fl: "k \<in> set (pre @ j # post) \<Longrightarrow> 0 < k \<and> k < length t \<and> unused t k \<and> slot_name t k \<notin> pend" for k
    unfolding assms(4) by (simp add: free_slots_def)
  show j: "0 < j" "j < length t"
    using fl [of j] by simp_all
  have uj: "unused t j"
    using fl [of j] by simp
  then show "ie_object (t ! j) = None"
    using assms(1) j by (simp add: slots_ok_def)
  have jbits: "ie_bits (t ! j) AND IE_BITS_GEN_MASK = ie_bits (t ! j)"
    using assms(1) j uj by (simp add: slots_ok_def)
  have pin: "p = 0 \<or> p \<in> set pre"
    using assms(6) last_in_set [of "0 # pre"] by (auto split: if_splits)
  then show p: "p < length t" "p \<noteq> j"
    using fl [of p] assms(1,3) j by (auto simp: slots_ok_def)
  have up: "unused t p"
    using pin fl [of p] unused_0 [OF assms(1)] by auto
  note nth = take_slot_nth [OF p(2,1) j(2)]
  have len: "length t < 2 ^ 24"
    using assms(1) by (simp add: slots_ok_def)
  show name: "name_index name = j" "MACH_PORT_GEN name = gen"
    using name_index_make [of j gen] assms(5,7) j len by simp_all
  note g = pure_gen [OF assms(5)]
  have un: "unused ?t k \<longleftrightarrow> unused t k" for k
    using nth uj g(1) by (cases "k = j"; cases "k = p") (simp_all add: unused_def)
  have bits: "k \<noteq> j \<Longrightarrow> ie_bits (?t ! k) = ie_bits (t ! k)" for k
    using nth by (cases "k = p") simp_all
  show "same_used t ?t"
    unfolding same_used_def
  proof (intro conjI allI impI)
    fix k
    assume "k < length t"
    show "unused ?t k \<longleftrightarrow> unused t k"
      by (rule un)
    show "unused t k \<or> ?t ! k = t ! k"
      using uj up nth(4) [of k] by auto
    show "ie_bits (?t ! k) AND IE_BITS_COLLISION = 0 \<longleftrightarrow> ie_bits (t ! k) AND IE_BITS_COLLISION = 0"
      using bits [of k] nth(2) g(3) pure_gen(3) [OF jbits] by (cases "k = j") simp_all
  qed (rule nth(1))
  have sname: "k \<noteq> j \<Longrightarrow> slot_name ?t k = slot_name t k" for k
    using bits [of k] by (simp add: slot_name_def)
  have sj: "slot_name ?t j = name"
    using nth(2) g(2) assms(7) by (simp add: slot_name_def)
  have not_name: "slot_name ?t k \<noteq> name" if "k < length t" "k \<noteq> j" for k
    using slot_name_index(1) [of k ?t] name(1) that len by auto
  show "slots_ok (insert name pend) ?t"
    unfolding slots_ok_def
  proof (intro conjI allI impI)
    show "0 < length ?t" "length ?t < 2 ^ 24" "ie_bits (?t ! 0) = IE_BITS_GEN_MASK"
      using assms(1) nth(1) bits [of 0] j by (simp_all add: slots_ok_def)
    show "ie_object (?t ! 0) = None"
      using assms(1) nth j by (cases "p = 0") (simp_all add: slots_ok_def)
    fix k
    assume "0 < k \<and> k < length ?t \<and> unused ?t k"
    then have k: "0 < k" "k < length t" "unused t k"
      using nth(1) un by simp_all
    show "ie_object (?t ! k) = None"
      using assms(1) k nth by (cases "k = j"; cases "k = p") (simp_all add: slots_ok_def)
    show "ie_bits (?t ! k) AND IE_BITS_GEN_MASK = ie_bits (?t ! k)"
      using assms(1,5) k nth bits [of k] by (cases "k = j") (simp_all add: slots_ok_def)
    assume "slot_name ?t k \<in> insert name pend"
    then have "k = j \<or> slot_name t k \<in> pend"
      using not_name [OF k(2)] sname [of k] by (cases "k = j") auto
    moreover have "slot_name t p \<notin> pend" if "k = p"
      using pin k(1) that fl [of p] by auto
    ultimately show "ie_request (?t ! k) = 0"
      using assms(1) k nth p(2) by (cases "k = j"; cases "k = p") (auto simp: slots_ok_def)
  qed
  have "distinct (0 # pre @ j # post)"
    using assms(3) fl [of 0] by auto
  then have "free_chain ?t 0 (pre @ post)"
  proof (rule free_chain_remove [OF assms(2)])
    show "ie_request (?t ! last (0 # pre)) = ie_request (t ! j)"
      using nth(3) assms(6) by simp
    fix k
    assume "k \<in> set (0 # pre @ post)" and "k \<noteq> last (0 # pre)"
    moreover from this have "k \<noteq> j"
      using assms(3) j(1) by auto
    ultimately show "ie_request (?t ! k) = ie_request (t ! k)"
      using nth(4) assms(6) by simp
  qed
  moreover have "set (pre @ post) = free_slots (insert name pend) ?t"
  proof -
    have "k \<in> free_slots (insert name pend) ?t \<longleftrightarrow> k \<in> free_slots pend t \<and> k \<noteq> j" for k
      using un [of k] sname [of k] sj not_name [of k] nth(1)
      by (cases "k = j") (auto simp: free_slots_def)
    moreover have "set (pre @ post) = set (pre @ j # post) - {j}"
      using assms(3) by auto
    ultimately show ?thesis
      unfolding assms(4) by blast
  qed
  ultimately show "free_list_ok (insert name pend) ?t"
    using assms(3) by (auto simp: free_list_ok_def)
qed

section \<open>Allocation\<close>

lemma free_list_okE:
  assumes "free_list_ok pend t"
  obtains fl where "free_chain t 0 fl" "distinct fl" "set fl = free_slots pend t"
  using assms by (auto simp: free_list_ok_def)

lemma set_entry_table [simp]: "is_table (set_entry i e s) = (is_table s)[i := e]"
  by (simp add: set_entry_def)

lemma take_slot_set_entry:
  assumes "p \<noteq> j"
  shows "set_entry j ((is_table s ! j)\<lparr>ie_bits := gen, ie_request := 0\<rparr>)
      (set_entry p ((is_table s ! p)\<lparr>ie_request := ie_request (is_table s ! j)\<rparr>) s) =
    s\<lparr>is_table := take_slot (is_table s) p j gen\<rparr>"
  using assms by (simp add: set_entry_def take_slot_def)

lemma fresh_slot_map:
  assumes "space_ok pend s" and "0 < name_index n" "name_index n < is_table_size s"
    and "unused (is_table s) (name_index n)"
  shows "space_map s n = None" "n \<notin> tree_names s"
proof -
  show "n \<notin> tree_names s"
    using tree_ok_names(4) [OF space_okD(4) [OF assms(1)], of n] assms(3,4) by blast
  then have "tree_map (tree_entries s) n = None"
    by (simp add: tree_map_def map_of_eq_None_iff [THEN iffD2])
  moreover have "slot_map (is_table s) n = None"
    using assms(4) by (simp add: slot_map_def Let_def)
  ultimately show "space_map s n = None"
    by (simp add: space_map_def)
qed

lemma slots_size:
  assumes "space_ok pend s"
  shows "0 < is_table_size s" "is_table_size s < 2 ^ 24"
  using space_okD(1) [OF assms] by (simp_all add: slots_ok_def)

lemma entry_get_spec:
  assumes "space_ok pend s" and "is_active s"
  shows "(ipc_entry_get s = Some (s, Inl KERN_NO_SPACE) \<and> free_slots pend (is_table s) = {}) \<or>
    (\<exists>s' n. ipc_entry_get s = Some (s', Inr (n, In_Table (name_index n))) \<and>
       space_ok (insert n pend) s' \<and> space_map s' = space_map s \<and> space_map s n = None \<and>
       MACH_PORT_VALID n \<and> n \<notin> tree_names s \<and> name_index n \<in> free_slots pend (is_table s) \<and>
       MACH_PORT_GEN n = IE_BITS_NEW_GEN (ie_bits (is_table s ! name_index n)) \<and>
       entry_of s' (In_Table (name_index n)) =
         Some \<lparr>ie_object = None, ie_bits = MACH_PORT_GEN n, ie_request = 0\<rparr> \<and>
       (\<exists>t. s' = s\<lparr>is_table := t\<rparr>))"
proof -
  let ?t = "is_table s"
  note ok = space_okD [OF assms(1)]
  obtain fl where fl: "free_chain ?t 0 fl" "distinct fl" "set fl = free_slots pend ?t"
    using ok(2) by (rule free_list_okE)
  show ?thesis
  proof (cases fl)
    case Nil
    then show ?thesis
      using fl assms(2) slots_size [OF assms(1)] by (simp add: ipc_entry_get_def entry_at_def)
  next
    case (Cons j js)
    define gen where "gen = IE_BITS_NEW_GEN (ie_bits (?t ! j))"
    define n where "n = MACH_PORT_MAKE (of_nat j) gen"
    have gen: "gen AND IE_BITS_GEN_MASK = gen"
      by (simp add: gen_def)
    have fl': "free_chain ?t 0 ([] @ j # js)" "distinct ([] @ j # js)"
      "set ([] @ j # js) = free_slots pend ?t" "0 = last (0 # ([] :: nat list))"
      using fl Cons by simp_all
    note take = take_slot_ok [OF ok(1) fl'(1-3) gen fl'(4) n_def]
    note nth = take_slot_nth [OF take(5,4,10)]
    let ?s = "s\<lparr>is_table := take_slot ?t 0 j gen\<rparr>"
    have re: "space_ok (insert n pend) ?s" "space_map ?s = space_map s"
      using retable_ok [OF assms(1) take(1-3)] by auto
    have "unused ?t j"
      using fl(3) Cons by (auto simp: free_slots_def)
    then have fresh: "space_map s n = None" "n \<notin> tree_names s"
      using fresh_slot_map [OF assms(1), of n] take(6,9,10) by simp_all
    have next_j: "ie_next (?t ! 0) = j"
      using fl(1) Cons by simp
    have small: "j + 1 < 2 ^ 24"
      using take(10) slots_size [OF assms(1)] by simp
    have valid: "MACH_PORT_VALID n"
      unfolding n_def by (rule make_valid) (use take(9) small gen in simp_all)
    have "ipc_entry_get s = Some (?s, Inr (n, In_Table j))"
      using assms(2) take next_j valid slots_size [OF assms(1)] take_slot_set_entry [OF take(5), where s = s and gen = gen]
      by (simp add: ipc_entry_get_def entry_at_def asserting_def Let_def gen_def n_def)
    moreover have "entry_of ?s (In_Table j) = Some \<lparr>ie_object = None, ie_bits = gen, ie_request = 0\<rparr>"
      using nth take(8,10) by (simp add: entry_of_def entry_at_def)
    moreover have "j \<in> free_slots pend ?t"
      using fl(3) Cons by auto
    ultimately show ?thesis
      using re fresh valid take(6,7) gen_def by (intro disjI2 exI [of _ ?s] exI [of _ n]) auto
  qed
qed

section \<open>Collision bits\<close>

text \<open>A change of an entry that a name cannot see: only its collision bit.\<close>

definition recoloured :: "ipc_entry list \<Rightarrow> nat \<Rightarrow> ipc_entry \<Rightarrow> bool" where
  "recoloured t i e \<longleftrightarrow> i < length t \<and> \<not> unused t i \<and> right_of e = right_of (t ! i) \<and>
     IE_BITS_GEN (ie_bits e) = IE_BITS_GEN (ie_bits (t ! i))"

lemma right_type: "right_of e = right_of f \<Longrightarrow> IE_BITS_TYPE (ie_bits e) = IE_BITS_TYPE (ie_bits f)"
proof -
  assume "right_of e = right_of f"
  then have "(ie_bits e AND IE_BITS_RIGHT_MASK) AND IE_BITS_TYPE_MASK =
      (ie_bits f AND IE_BITS_RIGHT_MASK) AND IE_BITS_TYPE_MASK"
    by (simp add: right_of_def)
  then show ?thesis
    by (simp add: IE_BITS_TYPE_def and.assoc)
qed

lemma recoloured_same:
  assumes "recoloured t i e"
  shows "unused (t[i := e]) k \<longleftrightarrow> unused t k" "slot_name (t[i := e]) k = slot_name t k"
    "slot_map (t[i := e]) = slot_map t"
proof -
  show un: "unused (t[i := e]) k \<longleftrightarrow> unused t k" for k
    using assms right_type [of e "t ! i"]
    by (cases "k = i") (simp_all add: recoloured_def unused_def)
  have gen: "IE_BITS_GEN (ie_bits (t[i := e] ! k)) = IE_BITS_GEN (ie_bits (t ! k))" for k
    using assms by (cases "k = i") (simp_all add: recoloured_def)
  then show "slot_name (t[i := e]) k = slot_name t k"
    by (simp add: slot_name_def)
  have "right_of (t[i := e] ! k) = right_of (t ! k)" for k
    using assms by (cases "k = i") (simp_all add: recoloured_def)
  then show "slot_map (t[i := e]) = slot_map t"
    by (intro ext) (simp add: slot_map_def Let_def un gen)
qed

lemma recoloured_ok:
  assumes "recoloured t i e"
  shows "slots_ok pend t \<Longrightarrow> slots_ok pend (t[i := e])"
    "free_list_ok pend t \<Longrightarrow> free_list_ok pend (t[i := e])"
    "tree_entry_ok pend (t[i := e]) n f \<longleftrightarrow> tree_entry_ok pend t n f"
proof -
  note same = recoloured_same [OF assms]
  have i: "\<not> unused t i"
    using assms by (simp add: recoloured_def)
  show "slots_ok pend (t[i := e])" if ok: "slots_ok pend t"
  proof -
    have "i \<noteq> 0"
      using unused_0 [OF ok] i by metis
    moreover have "t[i := e] ! k = t ! k" if "unused t k" for k
      using that i by (cases "k = i") simp_all
    ultimately show ?thesis
      using ok same(1,2) by (auto simp: slots_ok_def)
  qed
  show "free_list_ok pend (t[i := e])" if "free_list_ok pend t"
  proof -
    from that obtain fl where fl: "free_chain t 0 fl" "distinct fl" "set fl = free_slots pend t"
      by (rule free_list_okE)
    have "ie_request (t[i := e] ! k) = ie_request (t ! k)" for k
      using assms by (cases "k = i") (simp_all add: recoloured_def right_of_def)
    then have "free_chain (t[i := e]) 0 fl"
      using fl(1) by (intro free_chain_cong [OF fl(1)]) simp_all
    moreover have "free_slots pend (t[i := e]) = free_slots pend t"
      by (simp add: free_slots_def same)
    ultimately show ?thesis
      using fl(2,3) by (auto simp: free_list_ok_def)
  qed
  have gen: "IE_BITS_GEN (ie_bits (t[i := e] ! k)) = IE_BITS_GEN (ie_bits (t ! k))" for k
    using assms by (cases "k = i") (simp_all add: recoloured_def)
  show "tree_entry_ok pend (t[i := e]) n f \<longleftrightarrow> tree_entry_ok pend t n f"
    by (simp add: tree_entry_ok_def same(1) gen)
qed

lemma recoloured_on:
  "i < length t \<Longrightarrow> \<not> unused t i \<Longrightarrow>
    recoloured t i ((t ! i)\<lparr>ie_bits := ie_bits (t ! i) OR IE_BITS_COLLISION\<rparr>)"
  by (simp add: recoloured_def right_of_def)

lemma recoloured_off:
  "i < length t \<Longrightarrow> \<not> unused t i \<Longrightarrow>
    recoloured t i ((t ! i)\<lparr>ie_bits := ie_bits (t ! i) AND NOT IE_BITS_COLLISION\<rparr>)"
  by (simp add: recoloured_def right_of_def not_collision [simplified])

text \<open>A name that no table element can have is pending without further ado.\<close>

lemma pend_tree_name:
  assumes "slots_ok pend t" and "name_index n < length t \<Longrightarrow> \<not> unused t (name_index n)"
  shows "slots_ok (insert n pend) t" "free_list_ok pend t \<Longrightarrow> free_list_ok (insert n pend) t"
proof -
  have "slot_name t i \<noteq> n" if "i < length t" "unused t i" for i
  proof -
    have "i < 2 ^ 24"
      using assms(1) that(1) by (simp add: slots_ok_def)
    then show ?thesis
      using slot_name_index(1) [of i t] assms(2) that by auto
  qed
  then show "slots_ok (insert n pend) t"
    using assms(1) by (auto simp: slots_ok_def)
  have "free_slots (insert n pend) t = free_slots pend t"
    using \<open>\<And>i. i < length t \<Longrightarrow> unused t i \<Longrightarrow> slot_name t i \<noteq> n\<close> by (auto simp: free_slots_def)
  then show "free_list_ok pend t \<Longrightarrow> free_list_ok (insert n pend) t"
    by (simp add: free_list_ok_def)
qed

lemma small_count_insert:
  assumes "finite ns"
  shows "small_count lo hi (insert n ns) =
    (if lo \<le> name_index n \<and> name_index n < hi \<and> name_index n \<notin> name_index ` ns
     then small_count lo hi ns + 1 else small_count lo hi ns)"
proof -
  let ?A = "{i \<in> name_index ` ns. lo \<le> i \<and> i < hi}"
  have "{i \<in> name_index ` insert n ns. lo \<le> i \<and> i < hi} =
      (if lo \<le> name_index n \<and> name_index n < hi then insert (name_index n) ?A else ?A)"
    by auto
  moreover have "finite ?A"
    using assms by simp
  ultimately show ?thesis
    by (auto simp: small_count_def card_insert_if)
qed

section \<open>The splay tree of a space\<close>

lemma insert_entries:
  assumes "splay_ok tree" and "n \<notin> fst ` set (splay_entries tree)"
  obtains tree' where "ipc_splay_tree_insert tree n e = Some tree'" and "splay_ok tree'"
    and "set (splay_entries tree') = insert (n, e) (set (splay_entries tree))"
    and "length (splay_entries tree') = length (splay_entries tree) + 1"
    and "map_of (splay_entries tree') = (map_of (splay_entries tree))(n \<mapsto> e)"
proof -
  let ?es = "splay_entries tree"
  have none: "map_of ?es n = None"
    using assms(2) by (simp add: map_of_eq_None_iff)
  obtain tree' where t: "ipc_splay_tree_insert tree n e = Some tree'" "splay_ok tree'"
    "splay_entries tree' = below n ?es @ (n, e) # above n ?es"
    using insert_spec [OF assms(1) none, of e] by metis
  have "below n ?es @ above n ?es = ?es"
    using entries_split_at [OF splay_ok_ascending [OF assms(1)], of n] none by simp
  then have "set (below n ?es) \<union> set (above n ?es) = set ?es"
    "length (below n ?es) + length (above n ?es) = length ?es"
    by (metis set_append) (metis \<open>below n ?es @ above n ?es = ?es\<close> length_append)
  then show thesis
    using that [OF t(1,2)] t(3) map_of_insert [OF splay_ok_ascending [OF assms(1)], of n e] by auto
qed

lemma delete_entries:
  assumes "splay_ok tree" and "(n, e) \<in> set (splay_entries tree)"
  obtains tree' where "ipc_splay_tree_delete tree n = Some tree'" and "splay_ok tree'"
    and "set (splay_entries tree') = set (splay_entries tree) - {(n, e)}"
    and "n \<notin> fst ` set (splay_entries tree')"
    and "length (splay_entries tree') + 1 = length (splay_entries tree)"
    and "map_of (splay_entries tree') = (map_of (splay_entries tree))(n := None)"
proof -
  let ?es = "splay_entries tree"
  have asc: "ascending ?es"
    using splay_ok_ascending [OF assms(1)] .
  then have "distinct (map fst ?es)"
    by (simp add: strict_sorted_iff)
  then have some: "map_of ?es n = Some e"
    using assms(2) by (simp add: map_of_eq_Some_iff)
  then obtain tree' where t: "ipc_splay_tree_delete tree n = Some tree'" "splay_ok tree'"
    "splay_entries tree' = below n ?es @ above n ?es"
    using delete_spec [OF assms(1), of n] by auto
  have split: "below n ?es @ (n, e) # above n ?es = ?es"
    using entries_split_at [OF asc, of n] some by simp
  then have "length (splay_entries tree') + 1 = length ?es"
    unfolding t(3) by (metis add_Suc_right length_Cons length_append Suc_eq_plus1)
  moreover have gone: "n \<notin> fst ` set (splay_entries tree')"
    unfolding t(3) by (auto simp: below_def above_def)
  moreover have "set ?es = insert (n, e) (set (splay_entries tree'))"
    unfolding t(3) by (metis split set_append list.set(2) Un_insert_right)
  ultimately show thesis
    using that [OF t(1,2)] map_of_delete [OF asc, of n] t(3) by force
qed

section \<open>Allocation under a given name\<close>

definition blank :: "ipc_entry \<Rightarrow> bool" where
  "blank e \<longleftrightarrow> ie_object e = None \<and> IE_BITS_TYPE (ie_bits e) = 0 \<and> ie_request e = 0"

text \<open>What a fresh entry under the pending name \<open>n\<close> is to the space it was allocated in.\<close>

definition newly :: "ipc_space \<Rightarrow> mach_port_name \<Rightarrow> ipc_space \<Rightarrow> ipc_entry_ref \<Rightarrow> bool" where
  "newly s n s' r \<longleftrightarrow> space_ok {n} s' \<and> space_map s' = space_map s \<and> space_map s n = None \<and>
     (\<exists>e. entry_of s' r = Some e \<and> blank e)"

lemma alloc_from_table_spec:
  assumes "space_ok {} s" and "0 < name_index n" "name_index n < is_table_size s"
    and "unused (is_table s) (name_index n)" and "is_fast s \<Longrightarrow> \<not> tentry"
  obtains s' where "alloc_from_table s n tentry = Some (s', Have_Entry (In_Table (name_index n)))"
    and "newly s n s' (In_Table (name_index n))"
proof -
  let ?t = "is_table s" and ?j = "name_index n" and ?gen = "MACH_PORT_GEN n"
  note ok = space_okD [OF assms(1)]
  obtain fl where fl: "free_chain ?t 0 fl" "distinct fl" "set fl = free_slots {} ?t"
    using ok(2) by (rule free_list_okE)
  have "?j \<in> set fl"
    using fl(3) assms(2-4) by (simp add: free_slots_def)
  then obtain pre post where pp: "fl = pre @ ?j # post"
    by (meson split_list)
  define p where "p = last (0 # pre)"
  have name: "n = MACH_PORT_MAKE (of_nat ?j) ?gen"
    by (simp add: name_index_def)
  note take = take_slot_ok [OF ok(1) fl(1) [unfolded pp] fl(2) [unfolded pp] fl(3) [unfolded pp]
    port_gen_gen p_def name]
  note nth = take_slot_nth [OF take(5,4,10)]
  have "0 \<notin> set fl"
    using fl(3) by (simp add: free_slots_def)
  then have dist: "distinct (0 # pre @ ?j # post)"
    using fl(2) pp by simp
  have in_range: "\<forall>k \<in> set (0 # pre). k < length ?t"
    using fl(3) pp slots_size [OF assms(1)] by (auto simp: free_slots_def)
  have "length pre < length ?t"
  proof -
    have "card (set (0 # pre)) \<le> card {..<length ?t}"
      using in_range by (intro card_mono) auto
    moreover have "card (set (0 # pre)) = length pre + 1"
      using dist by (simp add: distinct_card)
    ultimately show ?thesis
      by simp
  qed
  then have before: "free_list_before (length ?t) ?t ?j 0 = Some p"
    unfolding p_def by (intro free_list_before_spec [OF fl(1) [unfolded pp] dist in_range])
  let ?s = "s\<lparr>is_table := take_slot ?t p ?j ?gen\<rparr>"
  have "alloc_from_table s n tentry = Some (?s, Have_Entry (In_Table ?j))"
    using before take assms(5) take_slot_set_entry [OF take(5), where s = s and gen = ?gen]
    by (auto simp: alloc_from_table_def asserting_def Let_def name_index_def [symmetric])
  moreover have "newly s n ?s (In_Table ?j)"
    using retable_ok [OF assms(1) take(1-3)] fresh_slot_map(1) [OF assms(1-4)] nth take(8,10)
      pure_gen(1) [OF port_gen_gen]
    by (simp add: newly_def blank_def entry_of_def entry_at_def)
  ultimately show thesis
    by (rule that)
qed

lemma insert_tree_ok:
  assumes "space_ok {} s" and "n \<notin> tree_names s" and "\<not> is_fast s" and "0 < name_index n"
    and "n \<noteq> MACH_PORT_LARGEST"
    and "name_index n < is_table_size s \<Longrightarrow> \<not> unused (is_table s) (name_index n) \<and>
      IE_BITS_GEN (ie_bits (is_table s ! name_index n)) \<noteq> MACH_PORT_GEN n"
    and "s2 = s\<lparr>is_table := (if name_index n < is_table_size s
        then (is_table s)[name_index n := (is_table s ! name_index n)
          \<lparr>ie_bits := ie_bits (is_table s ! name_index n) OR IE_BITS_COLLISION\<rparr>] else is_table s),
      is_tree := tree, is_tree_total := is_tree_total s + 1,
      is_tree_small := small_count (is_table_size s) (its_size (is_table_next s)) (insert n (tree_names s))\<rparr>"
    and "splay_ok tree" and "set (splay_entries tree) = insert (n, e) (set (tree_entries s))"
    and "length (splay_entries tree) = length (tree_entries s) + 1"
    and "map_of (splay_entries tree) = (map_of (tree_entries s))(n \<mapsto> e)"
    and "e = \<lparr>ie_object = None, ie_bits = 0, ie_request = 0\<rparr>"
  shows "newly s n s2 (In_Tree n)"
proof -
  let ?t = "is_table s" and ?i = "name_index n"
  define t' where "t' = is_table s2"
  have t': "t' = (if ?i < length ?t then ?t[?i := (?t ! ?i)\<lparr>ie_bits := ie_bits (?t ! ?i) OR IE_BITS_COLLISION\<rparr>]
      else ?t)"
    by (simp add: t'_def assms(7))
  note ok = space_okD [OF assms(1)]
  have len: "length t' = length ?t"
    by (simp add: t')
  have ents: "tree_entries s2 = splay_entries tree"
    by (simp add: assms(7))
  have un: "?i < length ?t \<Longrightarrow> \<not> unused ?t ?i"
    using assms(6) by simp
  have t_ok: "slots_ok {} t'" "free_list_ok {} t'" "slot_map t' = slot_map ?t"
    "\<And>pend m f. tree_entry_ok pend t' m f \<longleftrightarrow> tree_entry_ok pend ?t m f"
    using recoloured_same(3) [OF recoloured_on, of ?i ?t] recoloured_ok [OF recoloured_on, of ?i ?t]
      ok(1,2) un by (simp_all add: t')
  have un': "?i < length t' \<Longrightarrow> \<not> unused t' ?i"
    using recoloured_same(1) [OF recoloured_on, of ?i ?t ?i] un unfolding len by (simp add: t')
  have slots: "slots_ok {n} t'" "free_list_ok {n} t'"
    using pend_tree_name [OF t_ok(1) un'] t_ok(2) by simp_all
  have fst_set: "fst ` set (splay_entries tree) = insert n (tree_names s)"
    unfolding assms(9) by simp
  have "tree_entry_ok {n} ?t n e"
    using assms(4-6,12) by (simp add: tree_entry_ok_def)
  moreover have "tree_entry_ok {n} ?t m f" if "(m, f) \<in> set (tree_entries s)" for m f
    using ok(4) that by (auto simp: tree_ok_def tree_entry_ok_def)
  ultimately have tree: "tree_ok {n} t' (splay_entries tree)"
    unfolding tree_ok_def assms(9) t_ok(4) by auto
  have "collisions_ok t' (insert n (tree_names s))"
    using ok(5) by (auto simp: collisions_ok_def t' nth_list_update)
  then have "space_ok {n} s2"
    using slots tree assms(3,8,10) ok(6,7) fst_set len ents
    by (simp add: space_parts t'_def [symmetric]) (simp add: assms(7))
  moreover have "tree_map (splay_entries tree) m = tree_map (tree_entries s) m" for m
    using assms(2,11,12) by (simp add: tree_map_def map_of_eq_None_iff [THEN iffD2] IE_BITS_TYPE_def)
  then have "space_map s2 = space_map s"
    by (intro ext) (simp add: space_map_def t'_def [symmetric] t_ok(3) ents split: option.split)
  moreover have "space_map s n = None"
    using assms(2,6) by (auto simp: space_map_def slot_map_def tree_map_def Let_def
        map_of_eq_None_iff [THEN iffD2])
  moreover have "entry_of s2 (In_Tree n) = Some e" "blank e"
    using assms(11,12) by (simp_all add: entry_of_def ents blank_def IE_BITS_TYPE_def)
  ultimately show ?thesis
    by (auto simp: newly_def)
qed

lemma insert_tree_entry_spec:
  assumes "space_ok {} s" and "is_active s" and "n \<notin> tree_names s" and "\<not> is_fast s"
    and "0 < name_index n" and "n \<noteq> MACH_PORT_LARGEST"
    and "name_index n < is_table_size s \<Longrightarrow> \<not> unused (is_table s) (name_index n) \<and>
      IE_BITS_GEN (ie_bits (is_table s ! name_index n)) \<noteq> MACH_PORT_GEN n"
  obtains s' where "insert_tree_entry s n = Some (s', Have_Entry (In_Tree n))" and "newly s n s' (In_Tree n)"
proof -
  let ?i = "name_index n" and ?t = "is_table s" and ?e = "\<lparr>ie_object = None, ie_bits = 0, ie_request = 0\<rparr>"
  let ?t' = "if ?i < is_table_size s then ?t[?i := (?t ! ?i)\<lparr>ie_bits := ie_bits (?t ! ?i) OR IE_BITS_COLLISION\<rparr>] else ?t"
  let ?small = "small_count (is_table_size s) (its_size (is_table_next s)) (insert n (tree_names s))"
  let ?s1 = "s\<lparr>is_tree_total := is_tree_total s + 1\<rparr>"
  note ok = space_okD [OF assms(1)]
  have small: "?small = (if is_table_size s \<le> ?i \<and> ?i < its_size (is_table_next s) \<and> ?i \<notin> name_index ` tree_names s
     then is_tree_small s + 1 else is_tree_small s)"
    using ok(7) by (simp add: small_count_insert sizes_of_def)
  have "\<exists>tree0. splay_ok tree0 \<and> splay_entries tree0 = tree_entries s \<and>
      (if ?i < is_table_size s then Some (set_entry ?i ((?t ! ?i)\<lparr>ie_bits := ie_bits (?t ! ?i) OR IE_BITS_COLLISION\<rparr>) ?s1)
       else if ?i < its_size (is_table_next s) then do {
         (s1', collision) \<leftarrow> ipc_entry_tree_collision ?s1 n;
         Some (if collision then s1' else s1'\<lparr>is_tree_small := is_tree_small s1' + 1\<rparr>)
       } else Some ?s1) =
      Some (s\<lparr>is_table := ?t', is_tree := tree0, is_tree_total := is_tree_total s + 1, is_tree_small := ?small\<rparr>)"
    (is "\<exists>tree0. _ \<and> _ \<and> ?L = ?R tree0")
  proof (cases "?i < is_table_size s \<or> its_size (is_table_next s) \<le> ?i")
    case True
    then have "?L = ?R (is_tree s)"
      using small by (auto simp: set_entry_def)
    then show ?thesis
      using ok(3) by blast
  next
    case False
    obtain tree where "ipc_entry_tree_collision ?s1 n = Some (?s1\<lparr>is_tree := tree\<rparr>, ?i \<in> name_index ` tree_names s)"
      "splay_ok tree" "splay_entries tree = tree_entries s"
      using tree_collision_spec [of "{}" ?t ?s1 n] ok(3,4) assms(2) by auto
    then show ?thesis
      using False small by (intro exI [of _ tree]) auto
  qed
  then obtain tree0 where t0: "splay_ok tree0" "splay_entries tree0 = tree_entries s" "?L = ?R tree0"
    by blast
  obtain tree where t: "ipc_splay_tree_insert tree0 n ?e = Some tree" "splay_ok tree"
    "set (splay_entries tree) = insert (n, ?e) (set (tree_entries s))"
    "length (splay_entries tree) = length (tree_entries s) + 1"
    "map_of (splay_entries tree) = (map_of (tree_entries s))(n \<mapsto> ?e)"
    using insert_entries [OF t0(1), of n ?e] assms(3) t0(2) by metis
  let ?s' = "s\<lparr>is_table := ?t', is_tree := tree, is_tree_total := is_tree_total s + 1, is_tree_small := ?small\<rparr>"
  have "insert_tree_entry s n = Some (?s', Have_Entry (In_Tree n))"
    unfolding insert_tree_entry_def Let_def name_index_def [symmetric] t0(3) by (simp add: t(1))
  moreover have "newly s n ?s' (In_Tree n)"
    by (rule insert_tree_ok [OF assms(1,3-7) refl t(2-5) refl])
  ultimately show thesis
    by (rule that)
qed

text \<open>What a turn of \<open>ipc_entry_alloc_name\<close> may end with, for an active space without pending entries;
  \<open>wants_table\<close>: a larger table would be cheaper than one more tree entry.\<close>

definition wants_table :: "ipc_space \<Rightarrow> mach_port_name \<Rightarrow> bool" where
  "wants_table s n \<longleftrightarrow> is_table_size s \<le> name_index n \<and> name_index n < its_size (is_table_next s) \<and>
     (its_size (is_table_next s) - is_table_size s) * ipc_entry_bytes
       < (is_tree_small s + 1) * ipc_tree_entry_bytes"

definition turn_ok ::
  "ipc_space \<Rightarrow> mach_port_name \<Rightarrow> bool \<Rightarrow> ipc_space \<Rightarrow> alloc_name_turn \<Rightarrow> bool" where
  "turn_ok s n tentry s' turn \<longleftrightarrow>
     (case turn of
       Have_Entry r \<Rightarrow>
         (if space_map s n = None then newly s n s' r
          else space_ok {} s' \<and> space_map s' = space_map s \<and>
            map_option right_of (entry_of s' r) = space_map s n)
     | Give_Up kr \<Rightarrow> kr = KERN_FAILURE \<and> is_fast s \<and> s' = s
     | Grow_Table \<Rightarrow> space_ok {} s' \<and> space_map s' = space_map s \<and> space_map s n = None \<and>
         wants_table s n \<and> (\<exists>tree. s' = s\<lparr>is_tree := tree\<rparr>)
     | Need_Tree_Entry \<Rightarrow> \<not> tentry \<and> space_ok {} s' \<and> space_map s' = space_map s \<and> space_map s n = None \<and>
         \<not> is_fast s \<and> \<not> wants_table s n \<and> (\<exists>tree. s' = s\<lparr>is_tree := tree\<rparr>))"

lemma alloc_name_in_tree_spec:
  assumes "space_ok {} s" and "is_active s" and "MACH_PORT_VALID n" and "0 < name_index n"
    and "name_index n < is_table_size s \<Longrightarrow> \<not> unused (is_table s) (name_index n) \<and>
      IE_BITS_GEN (ie_bits (is_table s ! name_index n)) \<noteq> MACH_PORT_GEN n"
    and "is_fast s \<Longrightarrow> \<not> tentry"
  shows "\<exists>s' turn. alloc_name_in_tree s n tentry = Some (s', turn) \<and> turn_ok s n tentry s' turn"
proof -
  note ok = space_okD [OF assms(1)]
  have slot: "slot_map (is_table s) n = None"
    using assms(5) by (auto simp: slot_map_def Let_def)
  show ?thesis
  proof (cases "is_fast s")
    case True
    then show ?thesis
      using assms(6) by (simp add: alloc_name_in_tree_def asserting_def turn_ok_def)
  next
    case False
    obtain tree where t: "splay_ok tree" "splay_entries tree = tree_entries s"
      "(if 0 < is_tree_total s
           then let (tree, r) = ipc_splay_tree_lookup (is_tree s) n in (s\<lparr>is_tree := tree\<rparr>, r)
           else (s, None)) = (s\<lparr>is_tree := tree\<rparr>, map_of (tree_entries s) n)"
    proof (cases "0 < is_tree_total s")
      case True
      obtain tree r where l: "ipc_splay_tree_lookup (is_tree s) n = (tree, r)"
        by fastforce
      show thesis
        using that [of tree] lookup_spec [OF ok(3) l] l True by simp
    next
      case False
      then show thesis
        using that [of "is_tree s"] ok(3,6) by simp
    qed
    let ?s = "s\<lparr>is_tree := tree\<rparr>"
    have s: "space_ok {} ?s" "space_map ?s = space_map s"
      using retree_ok [OF assms(1) t(1,2)] .
    have sm: "space_map s n = tree_map (tree_entries s) n"
      using slot by (simp add: space_map_def)
    show ?thesis
    proof (cases "map_of (tree_entries s) n")
      case (Some e)
      have ty: "IE_BITS_TYPE (ie_bits e) \<noteq> 0"
        using tree_okD [OF ok(4) Some] by (auto simp: tree_entry_ok_def)
      then have "alloc_name_in_tree s n tentry = Some (?s, Have_Entry (In_Tree n))"
        unfolding alloc_name_in_tree_def t(3) using False Some by (simp add: asserting_def)
      moreover have "space_map s n = Some (right_of e)"
        using sm Some ty by (simp add: tree_map_def)
      moreover have "entry_of ?s (In_Tree n) = Some e"
        using Some t(2) by (simp add: entry_of_def)
      ultimately show ?thesis
        using s by (simp add: turn_ok_def)
    next
      case None
      have none: "space_map s n = None"
        using sm None by (simp add: tree_map_def)
      let ?grow = "wants_table s n"
      have eq: "alloc_name_in_tree s n tentry = (if ?grow then Some (?s, Grow_Table)
          else if tentry then insert_tree_entry ?s n else Some (?s, Need_Tree_Entry))"
        unfolding alloc_name_in_tree_def t(3) using False None
        by (simp add: Let_def name_index_def [symmetric] wants_table_def)
      consider (grow) ?grow | (need) "\<not> ?grow" "\<not> tentry" | (ins) "\<not> ?grow" tentry
        by blast
      then show ?thesis
      proof cases
        case ins
        have "n \<notin> tree_names ?s" "n \<noteq> MACH_PORT_LARGEST"
          using None t(2) assms(3) by (auto simp: map_of_eq_None_iff MACH_PORT_VALID_def)
        then obtain s' where "insert_tree_entry ?s n = Some (s', Have_Entry (In_Tree n))"
          "newly ?s n s' (In_Tree n)"
          using insert_tree_entry_spec [OF s(1), of n] assms(2,4,5) False by auto
        then show ?thesis
          using eq ins none s(2) by (auto simp: turn_ok_def newly_def)
      qed (use eq s none False in \<open>auto simp: turn_ok_def\<close>)
    qed
  qed
qed

lemma alloc_name_turn_spec:
  assumes "space_ok {} s" and "is_active s" and "MACH_PORT_VALID n" and "0 < name_index n"
    and "tentry \<Longrightarrow> \<not> is_fast s \<and> slot_map (is_table s) n = None"
  shows "\<exists>s' turn. ipc_entry_alloc_name_turn s n tentry = Some (s', turn) \<and> turn_ok s n tentry s' turn"
proof -
  let ?i = "name_index n" and ?t = "is_table s"
  consider (found) v where "slot_map ?t n = Some v"
    | (free) "?i < is_table_size s" "unused ?t ?i"
    | (tree) "?i < is_table_size s \<Longrightarrow> \<not> unused ?t ?i \<and> IE_BITS_GEN (ie_bits (?t ! ?i)) \<noteq> MACH_PORT_GEN n"
    by (cases "slot_map ?t n") (auto simp: slot_map_def Let_def split: if_splits)
  then show ?thesis
  proof cases
    case found
    then have "ipc_entry_alloc_name_turn s n tentry = Some (s, Have_Entry (In_Table ?i))"
      using assms(2,4,5)
      by (auto simp: ipc_entry_alloc_name_turn_def slot_map_def Let_def asserting_def unused_def
          name_index_def [symmetric] split: if_splits)
    moreover have "space_map s n = Some v"
      using found by (simp add: space_map_def)
    ultimately show ?thesis
      using assms(1) table_found [OF found] by (simp add: turn_ok_def)
  next
    case free
    obtain s' where "alloc_from_table s n tentry = Some (s', Have_Entry (In_Table ?i))"
      "newly s n s' (In_Table ?i)"
      using alloc_from_table_spec [OF assms(1,4) free] assms(5) by blast
    then show ?thesis
      using assms(2,4) free fresh_slot_map(1) [OF assms(1,4) free]
      by (simp add: ipc_entry_alloc_name_turn_def Let_def unused_def name_index_def [symmetric] turn_ok_def)
  next
    case tree
    have "ipc_entry_alloc_name_turn s n tentry = alloc_name_in_tree s n tentry"
      using assms(2,4) tree
      by (simp add: ipc_entry_alloc_name_turn_def Let_def unused_def name_index_def [symmetric])
    then show ?thesis
      using alloc_name_in_tree_spec [OF assms(1-4) tree] assms(5) by metis
  qed
qed

end
