(* ===== verification/Ipc_Entry_Dealloc.thy ===== *)
theory Ipc_Entry_Dealloc
  imports Ipc_Entry_Props
begin

text \<open>
  \<open>ipc_entry_dealloc\<close> removes the name from the map and keeps the invariant, also where an entry with
  the same index moves from the tree to the place that the name had in the table.
\<close>

section \<open>Deallocation\<close>

text \<open>A pointer to the entry that the name has in the space.\<close>

definition names_entry :: "mach_port_name set \<Rightarrow> ipc_space \<Rightarrow> mach_port_name \<Rightarrow> ipc_entry_ref \<Rightarrow> bool" where
  "names_entry pend s n r \<longleftrightarrow>
     (case r of
       In_Table i \<Rightarrow> i = name_index n \<and> 0 < i \<and> i < is_table_size s \<and>
         IE_BITS_GEN (ie_bits (is_table s ! i)) = MACH_PORT_GEN n \<and> (unused (is_table s) i \<longrightarrow> n \<in> pend)
     | In_Tree m \<Rightarrow> m = n \<and> n \<in> tree_names s)"

text \<open>Removing a name from the pending ones that no unused element of the table has.\<close>

lemma unpend_ok:
  assumes "slots_ok pend t" and "free_list_ok pend t" and "name_index n < length t \<Longrightarrow> \<not> unused t (name_index n)"
  shows "slots_ok (pend - {n}) t" "free_list_ok (pend - {n}) t"
proof -
  have ne: "slot_name t i \<noteq> n" if "i < length t" "unused t i" for i
  proof -
    have "i < 2 ^ 24"
      using assms(1) that(1) by (simp add: slots_ok_def)
    then show ?thesis
      using slot_name_index(1) [of i t] assms(3) that by auto
  qed
  show "slots_ok (pend - {n}) t"
    using assms(1) by (auto simp: slots_ok_def)
  have "free_slots (pend - {n}) t = free_slots pend t"
    using ne by (auto simp: free_slots_def)
  then show "free_list_ok (pend - {n}) t"
    using assms(2) by (simp add: free_list_ok_def)
qed

definition freed :: "ipc_entry list \<Rightarrow> nat \<Rightarrow> ipc_entry list" where
  "freed t i =
     (t[i := (t ! i)\<lparr>ie_bits := ie_bits (t ! i) AND IE_BITS_GEN_MASK, ie_request := ie_request (t ! 0)\<rparr>])
       [0 := (t ! 0)\<lparr>ie_request := of_nat i\<rparr>]"

lemma free_slot_freed:
  assumes "0 < i" and "i < is_table_size s"
  shows "free_slot s i = Some (s\<lparr>is_table := freed (is_table s) i\<rparr>)"
proof -
  have "is_table s \<noteq> []"
    using assms by auto
  then show ?thesis
    using assms by (simp add: free_slot_def entry_at_def set_entry_def freed_def Let_def)
qed

lemma freed_nth:
  assumes "0 < i" and "i < length t"
  shows "length (freed t i) = length t"
    "freed t i ! i = (t ! i)\<lparr>ie_bits := ie_bits (t ! i) AND IE_BITS_GEN_MASK, ie_request := ie_request (t ! 0)\<rparr>"
    "freed t i ! 0 = (t ! 0)\<lparr>ie_request := of_nat i\<rparr>"
    "0 < k \<Longrightarrow> k \<noteq> i \<Longrightarrow> freed t i ! k = t ! k"
proof -
  have "t \<noteq> []"
    using assms by auto
  then show "length (freed t i) = length t"
    "freed t i ! i = (t ! i)\<lparr>ie_bits := ie_bits (t ! i) AND IE_BITS_GEN_MASK, ie_request := ie_request (t ! 0)\<rparr>"
    "freed t i ! 0 = (t ! 0)\<lparr>ie_request := of_nat i\<rparr>"
    "0 < k \<Longrightarrow> k \<noteq> i \<Longrightarrow> freed t i ! k = t ! k"
    using assms by (simp_all add: freed_def)
qed

lemma freed_ok:
  assumes "space_ok pend s" and "names_entry pend s n (In_Table i)" and "ie_object (is_table s ! i) = None"
    and "ie_bits (is_table s ! i) AND IE_BITS_COLLISION = 0"
  shows "space_ok (pend - {n}) (s\<lparr>is_table := freed (is_table s) i\<rparr>)"
    "space_map (s\<lparr>is_table := freed (is_table s) i\<rparr>) = (space_map s)(n := None)"
proof -
  let ?t = "is_table s" and ?t' = "freed (is_table s) i"
  note ok = space_okD [OF assms(1)]
  have i: "i = name_index n" "0 < i" "i < length ?t" "IE_BITS_GEN (ie_bits (?t ! i)) = MACH_PORT_GEN n"
    "unused ?t i \<Longrightarrow> n \<in> pend"
    using assms(2) by (auto simp: names_entry_def)
  note nth = freed_nth [OF i(2,3)]
  have bits: "k \<noteq> i \<Longrightarrow> ie_bits (?t' ! k) = ie_bits (?t ! k)" "k \<noteq> i \<Longrightarrow> ie_object (?t' ! k) = ie_object (?t ! k)" for k
    using nth by (cases "k = 0"; simp)+
  have un: "unused ?t' k \<longleftrightarrow> unused ?t k \<or> k = i" for k
    using nth(2) bits [of k] by (cases "k = i") (simp_all add: unused_def)
  have sname: "slot_name ?t' k = slot_name ?t k" for k
    using nth(2) bits [of k] by (cases "k = i") (simp_all add: slot_name_def)
  have len: "length ?t < 2 ^ 24"
    using ok(1) by (simp add: slots_ok_def)
  have si: "slot_name ?t i = n"
    using i(1,4) by (simp add: slot_name_def name_index_def)
  have sk: "slot_name ?t k \<noteq> n" if "k < length ?t" "k \<noteq> i" for k
    using slot_name_index(1) [of k ?t] that len i(1) by auto
  have no_coll: "i \<notin> name_index ` tree_names s"
    using ok(5) i(3) assms(4) by (auto simp: collisions_ok_def)
  have slots: "slots_ok (pend - {n}) ?t'"
    unfolding slots_ok_def
  proof (intro conjI allI impI)
    show "0 < length ?t'" "length ?t' < 2 ^ 24" "ie_bits (?t' ! 0) = IE_BITS_GEN_MASK" "ie_object (?t' ! 0) = None"
      using ok(1) nth(1) bits [of 0] i(2) by (simp_all add: slots_ok_def)
    fix k
    assume k: "0 < k \<and> k < length ?t' \<and> unused ?t' k"
    show "ie_object (?t' ! k) = None"
      using ok(1) k nth un [of k] assms(3) by (cases "k = i") (simp_all add: slots_ok_def)
    show "ie_bits (?t' ! k) AND IE_BITS_GEN_MASK = ie_bits (?t' ! k)"
      using ok(1) k nth un [of k] by (cases "k = i") (simp_all add: slots_ok_def)
    assume "slot_name ?t' k \<in> pend - {n}"
    then show "ie_request (?t' ! k) = 0"
      using ok(1) k nth un [of k] sname [of k] si by (cases "k = i") (simp_all add: slots_ok_def)
  qed
  obtain fl where fl: "free_chain ?t 0 fl" "distinct fl" "set fl = free_slots pend ?t"
    using ok(2) by (rule free_list_okE)
  have i_fl: "i \<notin> set fl" "0 \<notin> set fl"
    using fl(3) i(5) si by (auto simp: free_slots_def)
  have "free_chain ?t' i fl"
    using nth(2) nth(4) i_fl by (intro free_chain_cong [OF fl(1)]) (simp, metis neq0_conv)
  moreover have "ie_next (?t' ! 0) = i"
    using nth(3) len i(3) by (simp add: unat_of_nat_u32)
  ultimately have "free_chain ?t' 0 (i # fl)"
    by simp
  moreover have "set (i # fl) = free_slots (pend - {n}) ?t'"
    using fl(3) un sname si sk nth(1) i(2,3) by (auto simp: free_slots_def)
  ultimately have free: "free_list_ok (pend - {n}) ?t'"
    using fl(2) i_fl(1) unfolding free_list_ok_def by (metis distinct.simps(2))
  have "tree_entry_ok (pend - {n}) ?t' m e" if "(m, e) \<in> set (tree_entries s)" for m e
  proof -
    have m: "tree_entry_ok pend ?t m e" "m \<in> tree_names s"
      using ok(4) that by (force simp: tree_ok_def)+
    then have mi: "name_index m \<noteq> i"
      using no_coll by auto
    then have "m \<noteq> n"
      using i(1) by auto
    then show ?thesis
      using m(1) un [of "name_index m"] bits(1) [OF mi] nth(1) mi by (auto simp: tree_entry_ok_def)
  qed
  then have "tree_ok (pend - {n}) ?t' (tree_entries s)"
    by (auto simp: tree_ok_def)
  moreover have "collisions_ok ?t' (tree_names s)"
    unfolding collisions_ok_def
  proof (intro allI impI)
    fix k
    assume "k < length ?t'"
    then show "ie_bits (?t' ! k) AND IE_BITS_COLLISION \<noteq> 0 \<longleftrightarrow> k \<in> name_index ` tree_names s"
      using ok(5) nth(1,2) bits(1) [of k] no_coll by (cases "k = i") (simp_all add: collisions_ok_def)
  qed
  ultimately show "space_ok (pend - {n}) (s\<lparr>is_table := ?t'\<rparr>)"
    using slots free ok(3,6-8) nth(1) by (simp add: space_parts)
  have tm: "tree_map (tree_entries s) n = None"
    using tree_map_table [OF assms(1), of n] i(1,3) assms(4) by simp
  have "slot_map ?t' m = ((slot_map ?t)(n := None)) m" for m
  proof (cases "name_index m = i")
    case True
    then have "IE_BITS_GEN (ie_bits (?t ! i)) = MACH_PORT_GEN m \<Longrightarrow> m = n"
      using i(1,4) name_eqI by simp
    then show ?thesis
      using True un [of i] by (auto simp: slot_map_def Let_def)
  next
    case False
    have "right_of (?t' ! name_index m) = right_of (?t ! name_index m)" if "\<not> unused ?t (name_index m)"
      using nth(4) [of "name_index m"] False unused_0 [OF ok(1)] that by (metis neq0_conv)
    then show ?thesis
      using False i(1) un [of "name_index m"] bits(1) [OF False] nth(1) by (auto simp: slot_map_def Let_def)
  qed
  then show "space_map (s\<lparr>is_table := ?t'\<rparr>) = (space_map s)(n := None)"
    using tm by (intro ext) (simp add: space_map_def split: option.split)
qed

lemma tree_map_del: "map_of es' = (map_of es)(n := None) \<Longrightarrow> tree_map es' = (tree_map es)(n := None)"
  by (rule ext) (simp add: tree_map_def)

lemma dealloc_from_tree_spec:
  assumes "space_ok pend s" and "is_active s" and "n \<in> tree_names s"
  obtains s' where "dealloc_from_tree s n = Some s'" and "space_ok (pend - {n}) s'"
    and "space_map s' = (space_map s)(n := None)"
proof -
  let ?i = "name_index n" and ?t = "is_table s"
  note ok = space_okD [OF assms(1)]
  obtain e where e: "(n, e) \<in> set (tree_entries s)"
    using assms(3) by auto
  obtain tree where tree: "ipc_splay_tree_delete (is_tree s) n = Some tree" "splay_ok tree"
    "set (splay_entries tree) = set (tree_entries s) - {(n, e)}" "n \<notin> fst ` set (splay_entries tree)"
    "length (splay_entries tree) + 1 = length (tree_entries s)"
    "map_of (splay_entries tree) = (map_of (tree_entries s))(n := None)"
    by (rule delete_entries [OF ok(3) e])
  have names: "tree_names s = insert n (fst ` set (splay_entries tree))"
    using tree(3) e by force
  let ?ns = "fst ` set (splay_entries tree)"
  let ?s1 = "s\<lparr>is_tree := tree, is_tree_total := is_tree_total s - 1\<rparr>"
  have used: "?i < length ?t \<Longrightarrow> \<not> unused ?t ?i" "0 < ?i"
    using tree_ok_names [OF ok(4) assms(3)] by simp_all
  have tree1: "tree_ok pend ?t (splay_entries tree)"
    using ok(4) tree(3) by (auto simp: tree_ok_def)
  have "tree_ok (pend - {n}) ?t (splay_entries tree)"
    unfolding tree_ok_def
  proof (intro ballI, clarify)
    fix m f
    assume "(m, f) \<in> set (splay_entries tree)"
    then show "tree_entry_ok (pend - {n}) ?t m f"
      using tree1 tree(4) by (force simp: tree_ok_def tree_entry_ok_def)
  qed
  note tree_ok = this
  note unp = unpend_ok [OF ok(1,2) used(1)]
  have small: "small_count lo hi (tree_names s) =
      (if lo \<le> ?i \<and> ?i < hi \<and> ?i \<notin> name_index ` ?ns then small_count lo hi ?ns + 1 else small_count lo hi ?ns)" for lo hi
    unfolding names by (simp add: small_count_insert)
  have coll_t: "collisions_ok ?t (insert n ?ns)"
    using ok(5) names by simp
  let ?t' = "if ?i < length ?t \<and> ?i \<notin> name_index ` ?ns
    then ?t[?i := (?t ! ?i)\<lparr>ie_bits := ie_bits (?t ! ?i) AND NOT IE_BITS_COLLISION\<rparr>] else ?t"
  let ?small = "small_count (length ?t) (its_size (is_table_next s)) ?ns"
  have "\<exists>tree0. splay_ok tree0 \<and> splay_entries tree0 = splay_entries tree \<and>
    dealloc_from_tree s n = Some (s\<lparr>is_table := ?t', is_tree := tree0, is_tree_total := is_tree_total s - 1,
      is_tree_small := ?small\<rparr>)"
  proof -
    have total: "0 < is_tree_total s"
      using ok(6) tree(5) by linarith
    have same: "is_tree_small s = small_count (length ?t) (its_size (is_table_next s)) (tree_names s)"
      using ok(7) by (simp add: sizes_of_def)
    show ?thesis
    proof (cases "length ?t \<le> ?i \<and> its_size (is_table_next s) \<le> ?i")
      case True
      then have "dealloc_from_tree s n = Some ?s1"
        using tree(1) total by (simp add: dealloc_from_tree_def asserting_def Let_def name_index_def)
      then show ?thesis
        using True tree(2) same small by (intro exI [of _ tree]) simp
    next
      case False
      obtain tree0 where t0: "ipc_entry_tree_collision ?s1 n = Some (?s1\<lparr>is_tree := tree0\<rparr>, ?i \<in> name_index ` ?ns)"
        "splay_ok tree0" "splay_entries tree0 = splay_entries tree"
        using tree_collision_spec [of pend ?t ?s1 n] tree(2) tree1 assms(2) by auto
      have "ie_bits (?t ! ?i) AND IE_BITS_COLLISION \<noteq> 0" if "?i < length ?t"
        using coll_t that by (auto simp: collisions_ok_def)
      then show ?thesis
        using tree(1) total t0 False same small
        by (intro exI [of _ tree0])
          (auto simp: dealloc_from_tree_def asserting_def set_entry_def Let_def name_index_def [symmetric])
    qed
  qed
  then obtain tree0 where t0: "splay_ok tree0" "splay_entries tree0 = splay_entries tree"
    "dealloc_from_tree s n = Some (s\<lparr>is_table := ?t', is_tree := tree0, is_tree_total := is_tree_total s - 1,
      is_tree_small := ?small\<rparr>)" (is "_ = Some ?s'")
    by blast
  have t_ok: "slots_ok (pend - {n}) ?t'" "free_list_ok (pend - {n}) ?t'" "slot_map ?t' = slot_map ?t"
    "tree_ok (pend - {n}) ?t' (splay_entries tree)"
    using recoloured_same(3) [OF recoloured_off, of ?i ?t] recoloured_ok [OF recoloured_off, of ?i ?t]
      unp used tree_ok by (simp_all add: tree_ok_def)
  have coll: "collisions_ok ?t' ?ns"
    using coll_t by (auto simp: collisions_ok_def nth_list_update not_collision [simplified])
  have len: "length ?t' = length ?t"
    by simp
  have "space_ok (pend - {n}) ?s'"
    using t_ok(1,2,4) coll t0(1,2) tree(5) ok(6,7,8) len
    by (auto simp: space_parts simp del: length_list_update split del: if_split)
  moreover have "slot_map ?t n = None"
    using tree_ok_names(5) [OF ok(4) assms(3)] by (auto simp: slot_map_def Let_def)
  then have "space_map ?s' = (space_map s)(n := None)"
    using t_ok(3) t0(2) tree_map_del [OF tree(6)]
    by (intro ext) (simp add: space_map_def split: option.split)
  ultimately show thesis
    using that [of ?s'] t0(3) by blast
qed

section \<open>A colliding entry moves to the table\<close>

lemma filter_prefix:
  assumes "filter P xs @ rest = xs"
  shows "rest = filter (\<lambda>x. \<not> P x) xs"
proof -
  have "filter P (filter P xs @ rest) = filter P xs"
    using assms by simp
  then have "filter P rest = []"
    by simp
  then have "filter (\<lambda>x. \<not> P x) rest = rest"
    by (simp add: filter_empty_conv)
  moreover have "filter (\<lambda>x. \<not> P x) xs = filter (\<lambda>x. \<not> P x) (filter P xs @ rest)"
    using assms by simp
  ultimately show ?thesis
    by simp
qed

text \<open>Splitting a tree at the smallest name with an index.\<close>

lemma split_index:
  assumes "splay_ok tree" and "j < 2 ^ 24"
  obtains s' small where "ipc_splay_tree_split tree (MACH_PORT_MAKE (of_nat j) 0) raw = Some (s', small)"
    and "splay_ok s'" and "splay_ok small"
    and "splay_entries small = filter (\<lambda>p. name_index (fst p) < j) (splay_entries tree)"
    and "splay_entries s' = filter (\<lambda>p. \<not> name_index (fst p) < j) (splay_entries tree)"
    and "splay_entries small @ splay_entries s' = splay_entries tree"
proof (rule split_spec [OF assms(1), of "MACH_PORT_MAKE (of_nat j) 0" raw])
  fix s' small
  assume s: "ipc_splay_tree_split tree (MACH_PORT_MAKE (of_nat j) 0) raw = Some (s', small)"
    "splay_ok s'" "splay_ok small"
    "splay_entries small = below (MACH_PORT_MAKE (of_nat j) 0) (splay_entries tree)"
    "splay_entries small @ splay_entries s' = splay_entries tree"
  have small: "splay_entries small = filter (\<lambda>p. name_index (fst p) < j) (splay_entries tree)"
    using s(4) below_make_0 [OF assms(2)] by (simp add: below_def)
  then have "splay_entries s' = filter (\<lambda>p. \<not> name_index (fst p) < j) (splay_entries tree)"
    using s(5) by (intro filter_prefix) simp
  then show thesis
    using that s(1-3,5) small by blast
qed

lemma pick_spec:
  "ipc_splay_tree_pick tree = None \<longleftrightarrow> splay_entries tree = []"
  "ipc_splay_tree_pick tree = Some (n, e) \<Longrightarrow> (n, e) \<in> set (splay_entries tree)"
  by (cases "ist_root tree"; simp add: ipc_splay_tree_pick_def splay_entries_def)+

lemma map_of_removed:
  assumes "ascending es" and "ascending es'" and "set es' = set es - {(m, f)}" and "(m, f) \<in> set es"
  shows "map_of es' = (map_of es)(m := None)"
proof
  fix k
  have d: "distinct (map fst es)" "distinct (map fst es')"
    using assms(1,2) by (simp_all add: strict_sorted_iff)
  have m: "map_of es m = Some f"
    unfolding map_of_eq_Some_iff [OF d(1)] by (rule assms(4))
  have "map_of es' k = Some e \<longleftrightarrow> (k, e) \<in> set es \<and> (k, e) \<noteq> (m, f)" for e
    unfolding map_of_eq_Some_iff [OF d(2)] assms(3) by blast
  then have iff: "map_of es' k = Some e \<longleftrightarrow> map_of es k = Some e \<and> k \<noteq> m" for e
    using m map_of_eq_Some_iff [OF d(1)] by (metis (no_types, lifting) Pair_inject option.inject)
  show "map_of es' k = ((map_of es)(m := None)) k"
  proof (cases "map_of es' k")
    case None
    then have "k = m \<or> map_of es k = None"
      using iff by (cases "map_of es k") simp_all
    then show ?thesis
      using None by auto
  next
    case (Some e)
    then show ?thesis
      using iff by simp
  qed
qed

lemma ascending_middle:
  assumes "ascending (xs @ ys @ zs)" and "ascending ys'" and "set ys' \<subseteq> set ys"
  shows "ascending (xs @ ys' @ zs)"
proof -
  have "\<forall>x \<in> set xs. \<forall>y \<in> set ys'. fst x < fst y" "\<forall>y \<in> set ys'. \<forall>z \<in> set zs. fst y < fst z"
    using assms(1,3) by (simp_all add: sorted_wrt_append ball_Un) blast+
  then show ?thesis
    using assms(1,2) by (simp add: sorted_wrt_append ball_Un)
qed

lemma ascending_pair:
  assumes "ascending es" and "(m, f) \<in> set es" "(m, g) \<in> set es"
  shows "f = g"
proof -
  have "distinct (map fst es)"
    using assms(1) by (simp add: strict_sorted_iff)
  then show ?thesis
    using assms(2,3) map_of_is_SomeI [of es m] by fastforce
qed

text \<open>The state \<open>move_collision\<close> leaves, before what it means is looked at.\<close>

lemma move_collision_result:
  assumes "splay_ok (is_tree s)" and "i + 1 < 2 ^ 24" and "i \<in> name_index ` tree_names s"
    and "is_tree_total s = length (tree_entries s)"
  obtains m f tree hash where "(m, f) \<in> set (tree_entries s)" and "name_index m = i"
    and "splay_ok tree" and "set (splay_entries tree) = set (tree_entries s) - {(m, f)}"
    and "length (splay_entries tree) + 1 = length (tree_entries s)"
    and "move_collision raw s i = Some (set_entry i
      \<lparr>ie_object = ie_object f,
       ie_bits = (if i \<in> name_index ` fst ` set (splay_entries tree)
                  then (ie_bits f OR MACH_PORT_GEN m) OR IE_BITS_COLLISION else ie_bits f OR MACH_PORT_GEN m),
       ie_request = ie_request f\<rparr>
      (s\<lparr>is_tree := tree, is_tree_total := is_tree_total s - 1, is_hash := hash\<rparr>))"
proof -
  let ?es = "tree_entries s"
  have word1: "(of_nat i :: u32) + 1 = of_nat (i + 1)"
    by simp
  obtain tree1 low where s1: "ipc_splay_tree_split (is_tree s) (MACH_PORT_MAKE (of_nat (i + 1)) 0) raw = Some (tree1, low)"
    "splay_ok tree1" "splay_ok low" "splay_entries low = filter (\<lambda>p. name_index (fst p) < i + 1) ?es"
    "splay_entries tree1 = filter (\<lambda>p. \<not> name_index (fst p) < i + 1) ?es" "splay_entries low @ splay_entries tree1 = ?es"
    by (rule split_index [OF assms(1,2)])
  obtain coll small where s2: "ipc_splay_tree_split low (MACH_PORT_MAKE (of_nat i) 0) raw = Some (coll, small)"
    "splay_ok coll" "splay_ok small" "splay_entries small = filter (\<lambda>p. name_index (fst p) < i) (splay_entries low)"
    "splay_entries coll = filter (\<lambda>p. \<not> name_index (fst p) < i) (splay_entries low)"
    "splay_entries small @ splay_entries coll = splay_entries low"
    by (rule split_index [OF s1(3), of i]) (use assms(2) in auto)
  have coll: "set (splay_entries coll) = {p \<in> set ?es. name_index (fst p) = i}"
    using s2(5) s1(4) by auto
  obtain p where "p \<in> set ?es" "name_index (fst p) = i"
    using assms(3) by blast
  then have "p \<in> set (splay_entries coll)"
    unfolding coll by blast
  then have "ipc_splay_tree_pick coll \<noteq> None"
    unfolding pick_spec(1) by (metis empty_iff list.set(1))
  then obtain m f where pick: "ipc_splay_tree_pick coll = Some (m, f)"
    by (metis not_None_eq surj_pair)
  have mf: "(m, f) \<in> set (splay_entries coll)" "(m, f) \<in> set ?es" "name_index m = i"
    using pick_spec(2) [OF pick] coll by auto
  obtain coll' where del: "ipc_splay_tree_delete coll m = Some coll'" "splay_ok coll'"
    "set (splay_entries coll') = set (splay_entries coll) - {(m, f)}"
    "length (splay_entries coll') + 1 = length (splay_entries coll)"
    by (rule delete_entries [OF s2(2) mf(1)])
  have es: "splay_entries small @ splay_entries coll @ splay_entries tree1 = ?es"
    using s1(6) s2(6) by (metis append_assoc)
  have asc: "ascending (splay_entries small @ splay_entries coll' @ splay_entries tree1)"
    using ascending_middle [of "splay_entries small" "splay_entries coll" "splay_entries tree1"]
      splay_ok_ascending [OF assms(1)] splay_ok_ascending [OF del(2)] del(3) es by auto
  have set_es: "set ?es = set (splay_entries small) \<union> set (splay_entries coll) \<union> set (splay_entries tree1)"
    by (simp add: Un_assoc flip: es)
  have out: "(m, f) \<notin> set (splay_entries small)" "(m, f) \<notin> set (splay_entries tree1)"
    using s2(4) s1(5) mf(3) by auto
  obtain tree2 where j1: "splay_ok tree2" "splay_entries tree2 = splay_entries coll' @ splay_entries tree1"
    "(case ipc_splay_tree_pick coll' of
       Some p \<Rightarrow> map_option fst (ipc_splay_tree_join tree1 coll') | None \<Rightarrow> Some tree1) = Some tree2"
  proof (cases "ipc_splay_tree_pick coll'")
    case None
    then show thesis
      using that [of tree1] s1(2) pick_spec(1) [of coll'] by simp
  next
    case (Some p)
    have "ascending (splay_entries coll' @ splay_entries tree1)"
      using asc by (simp add: sorted_wrt_append)
    from join_spec [OF s1(2) del(2) this] show thesis
      using that Some by (metis (no_types, lifting) fst_conv option.simps(5,9))
  qed
  obtain tree3 x where j2: "ipc_splay_tree_join tree2 small = Some (tree3, x)" "splay_ok tree3"
    "splay_entries tree3 = splay_entries small @ splay_entries coll' @ splay_entries tree1"
    using join_spec [OF j1(1) s2(3)] asc j1(2) by metis
  have set3: "set (splay_entries tree3) = set ?es - {(m, f)}"
    using set_es out del(3) j2(3) by auto
  have len3: "length (splay_entries tree3) + 1 = length ?es"
    using del(4) j2(3) es by (metis (no_types, lifting) add.assoc add.commute length_append)
  have more: "ipc_splay_tree_pick coll' = None \<longleftrightarrow> i \<notin> name_index ` fst ` set (splay_entries tree3)"
  proof -
    have rest: "set (splay_entries coll') = {p \<in> set (splay_entries tree3). name_index (fst p) = i}"
      using set3 coll del(3) by auto
    show ?thesis
      unfolding pick_spec(1) set_empty [symmetric] rest by blast
  qed
  let ?hash = "is_hash s @ (if IE_BITS_TYPE (ie_bits f) = MACH_PORT_TYPE_SEND
          then [ipc_hash_global_delete (ie_object f) m, ipc_hash_local_insert (ie_object f) i] else [])"
  have total: "0 < is_tree_total s"
    using assms(4) len3 by linarith
  have "move_collision raw s i = Some (set_entry i
      \<lparr>ie_object = ie_object f,
       ie_bits = (if i \<in> name_index ` fst ` set (splay_entries tree3)
                  then (ie_bits f OR MACH_PORT_GEN m) OR IE_BITS_COLLISION else ie_bits f OR MACH_PORT_GEN m),
       ie_request = ie_request f\<rparr>
      (s\<lparr>is_tree := tree3, is_tree_total := is_tree_total s - 1, is_hash := ?hash\<rparr>))"
  proof (cases "ipc_splay_tree_pick coll'")
    case None
    then show ?thesis
      using s1(1) s2(1) pick mf(3) del(1) total j1(3) j2(1) more
      by (simp add: move_collision_def word1 asserting_def name_index_def Let_def)
  next
    case (Some p)
    then obtain y where "ipc_splay_tree_join tree1 coll' = Some (tree2, y)"
      using j1(3) by auto
    then show ?thesis
      using s1(1) s2(1) pick mf(3) del(1) total Some j2(1) more
      by (simp add: move_collision_def word1 asserting_def name_index_def Let_def)
  qed
  then show thesis
    using that [OF mf(2,3) j2(2) set3 len3] by blast
qed


text \<open>Changing a used element of the table, and its bits not to be unused.\<close>

lemma used_update:
  assumes "slots_ok pend t" and "free_list_ok pend t" and "0 < i" and "i < length t"
    and "\<not> unused t i" and "IE_BITS_TYPE (ie_bits e) \<noteq> 0"
  shows "slots_ok pend (t[i := e])" "free_list_ok pend (t[i := e])"
    "unused (t[i := e]) k \<longleftrightarrow> unused t k" "unused t k \<Longrightarrow> t[i := e] ! k = t ! k"
proof -
  let ?t = "t[i := e]"
  show un: "unused ?t k \<longleftrightarrow> unused t k" for k
    using assms(4-6) by (cases "k = i") (simp_all add: unused_def)
  show same: "unused t k \<Longrightarrow> ?t ! k = t ! k" for k
    using assms(5) by (cases "k = i") simp_all
  have name: "unused t k \<Longrightarrow> slot_name ?t k = slot_name t k" for k
    using same by (simp add: slot_name_def)
  show "slots_ok pend ?t"
    using assms(1,3) un same name by (simp add: slots_ok_def)
  have free: "free_slots pend ?t = free_slots pend t"
    using un name by (auto simp: free_slots_def)
  obtain fl where fl: "free_chain t 0 fl" "distinct fl" "set fl = free_slots pend t"
    using assms(2) by (rule free_list_okE)
  have "free_chain ?t 0 fl"
    using fl(3) assms(3) same unused_0 [OF assms(1)]
    by (intro free_chain_cong [OF fl(1)]) (auto simp: free_slots_def)
  then show "free_list_ok pend ?t"
    using fl(2,3) free by (auto simp: free_list_ok_def)
qed

lemma no_pend:
  assumes "space_ok pend s" and "pend \<subseteq> {n}" and "name_index n < is_table_size s \<Longrightarrow> \<not> unused (is_table s) (name_index n)"
    and "n \<notin> tree_names s"
  shows "slots_ok {} (is_table s)" "free_list_ok {} (is_table s)"
    "(k, e) \<in> set (tree_entries s) \<Longrightarrow> tree_entry_ok {} (is_table s) k e"
proof -
  note ok = space_okD [OF assms(1)]
  have none: "pend - {n} = {}"
    using assms(2) by blast
  show "slots_ok {} (is_table s)" "free_list_ok {} (is_table s)"
    using unpend_ok [OF ok(1,2) assms(3)] unfolding none by simp_all
  assume ke: "(k, e) \<in> set (tree_entries s)"
  then have "k \<notin> pend"
    using assms(2,4) by force
  then show "tree_entry_ok {} (is_table s) k e"
    using ok(4) ke by (auto simp: tree_ok_def tree_entry_ok_def)
qed


lemma move_collision_spec:
  assumes "space_ok pend s" and "pend \<subseteq> {n}" and "names_entry pend s n (In_Table i)"
    and "ie_bits (is_table s ! i) AND IE_BITS_COLLISION \<noteq> 0"
  obtains s' where "move_collision raw s i = Some s'" and "space_ok {} s'" and "is_active s' = is_active s"
    and "space_map s' = (space_map s)(n := None)"
proof -
  let ?t = "is_table s" and ?es = "tree_entries s"
  note ok = space_okD [OF assms(1)]
  have i: "i = name_index n" "0 < i" "i < length ?t" "IE_BITS_GEN (ie_bits (?t ! i)) = MACH_PORT_GEN n"
    using assms(3) by (auto simp: names_entry_def)
  have "i + 1 < 2 ^ 24"
    using ok(1) i(3) by (simp add: slots_ok_def)
  moreover have "i \<in> name_index ` tree_names s"
    using ok(5) i(3) assms(4) by (simp add: collisions_ok_def)
  ultimately obtain m f tree hash where m: "(m, f) \<in> set ?es" "name_index m = i" "splay_ok tree"
    "set (splay_entries tree) = set ?es - {(m, f)}" "length (splay_entries tree) + 1 = length ?es"
    "move_collision raw s i = Some (set_entry i
      \<lparr>ie_object = ie_object f,
       ie_bits = (if i \<in> name_index ` fst ` set (splay_entries tree)
                  then (ie_bits f OR MACH_PORT_GEN m) OR IE_BITS_COLLISION else ie_bits f OR MACH_PORT_GEN m),
       ie_request = ie_request f\<rparr>
      (s\<lparr>is_tree := tree, is_tree_total := is_tree_total s - 1, is_hash := hash\<rparr>))"
    using move_collision_result [OF ok(3) _ _ ok(6)] by blast
  define e where "e = \<lparr>ie_object = ie_object f,
       ie_bits = (if i \<in> name_index ` fst ` set (splay_entries tree)
                  then (ie_bits f OR MACH_PORT_GEN m) OR IE_BITS_COLLISION else ie_bits f OR MACH_PORT_GEN m),
       ie_request = ie_request f\<rparr>"
  let ?t' = "?t[i := e]" and ?es' = "splay_entries tree"
  let ?s' = "s\<lparr>is_table := ?t', is_tree := tree, is_tree_total := is_tree_total s - 1, is_hash := hash\<rparr>"
  have mnames: "m \<in> tree_names s"
    using m(1) by force
  note mi = tree_ok_names [OF ok(4) mnames, unfolded m(2)]
  have n: "n \<notin> tree_names s" "m \<noteq> n"
    using tree_ok_names(5) [OF ok(4), of n] mnames i(1,3,4) by auto
  note clean = no_pend [OF assms(1,2) _ n(1), folded i(1), OF mi(4)]
  have f: "tree_entry_ok {} ?t m f"
    using clean(3) i(3) m(1) by blast
  then have right: "ie_bits f AND IE_BITS_RIGHT_MASK = ie_bits f" "IE_BITS_TYPE (ie_bits f) \<noteq> 0"
    by (simp_all add: tree_entry_ok_def)
  note or_gen = right_bits_or_gen [OF right(1) port_gen_gen]
  have e: "IE_BITS_TYPE (ie_bits e) \<noteq> 0" "IE_BITS_GEN (ie_bits e) = MACH_PORT_GEN m"
    "ie_bits e AND IE_BITS_COLLISION \<noteq> 0 \<longleftrightarrow> i \<in> name_index ` fst ` set ?es'" "right_of e = right_of f"
    using or_gen [of m] right by (simp_all add: e_def right_of_def)
  note used = mi(4) [OF i(3)]
  note upd = used_update [OF clean(1,2) i(2,3) used e(1)]
  have rest: "(k, g) \<in> set ?es' \<Longrightarrow> (k, g) \<in> set ?es \<and> k \<noteq> m" for k g
    using m(1,4) ascending_pair [OF ok(9)] by blast
  have names: "tree_names s = insert m (fst ` set ?es')"
    using m(1,4) by force
  have gen: "IE_BITS_GEN (ie_bits (?t' ! name_index k)) \<noteq> MACH_PORT_GEN k"
    if "(k, g) \<in> set ?es'" "name_index k < length ?t" for k g
  proof (cases "name_index k = i")
    case True
    then show ?thesis
      using name_eqI [of m k] m(2) e(2) rest [OF that(1)] i(3) by auto
  next
    case False
    then show ?thesis
      using tree_ok_names(5) [OF ok(4), of k] rest [OF that(1)] that(2) by force
  qed
  have tree: "tree_ok {} ?t' ?es'"
    unfolding tree_ok_def
  proof (intro ballI, clarify)
    fix k g
    assume kg: "(k, g) \<in> set ?es'"
    then have "tree_entry_ok {} ?t k g"
      using clean(3) [OF i(3)] rest by blast
    then show "tree_entry_ok {} ?t' k g"
      using gen [OF kg] upd(3) by (simp add: tree_entry_ok_def)
  qed
  have coll: "collisions_ok ?t' (fst ` set ?es')"
    unfolding collisions_ok_def
  proof (intro allI impI)
    fix k
    assume "k < length ?t'"
    then show "ie_bits (?t' ! k) AND IE_BITS_COLLISION \<noteq> 0 \<longleftrightarrow> k \<in> name_index ` fst ` set ?es'"
      using ok(5) [unfolded collisions_ok_def names] e(3) m(2) i(3) by (cases "k = i") simp_all
  qed
  have "small_count (length ?t) hi (tree_names s) = small_count (length ?t) hi (fst ` set ?es')" for hi
    unfolding names using m(2) i(3) by (simp add: small_count_insert)
  then have "space_ok {} ?s'"
    using upd(1,2) tree coll m(3,5) ok(6-8) by (auto simp: space_parts)
  moreover have "space_map ?s' = (space_map s)(n := None)"
  proof
    fix k
    have slot: "slot_map ?t' k = (if name_index k = i then
        (if k = m then Some (right_of f) else None) else slot_map ?t k)"
    proof (cases "name_index k = i")
      case True
      then have "MACH_PORT_GEN m = MACH_PORT_GEN k \<longleftrightarrow> k = m"
        using name_eqI [of m k] m(2) by auto
      then show ?thesis
        using True upd(3) used e(2,4) i(3) by (simp add: slot_map_def Let_def)
    next
      case False
      then show ?thesis
        using upd(3) by (simp add: slot_map_def Let_def)
    qed
    have at_i: "slot_map ?t k = (if k = n then slot_map ?t n else None)" if "name_index k = i"
    proof (cases "k = n")
      case False
      then have "MACH_PORT_GEN n \<noteq> MACH_PORT_GEN k"
        using name_eqI [of n k] that i(1) by auto
      then show ?thesis
        using False that i(4) by (simp add: slot_map_def Let_def)
    qed simp
    have maps: "tree_map ?es' = (tree_map ?es)(m := None)"
      using map_of_removed [OF ok(9) splay_ok_ascending [OF m(3)] m(4,1)] by (rule tree_map_del)
    have "distinct (map fst ?es)"
      using ok(9) by (simp add: strict_sorted_iff)
    then have at_m: "tree_map ?es m = Some (right_of f)" "tree_map ?es n = None"
      using m(1) n(1) right(2) by (simp_all add: tree_map_def map_of_eq_None_iff [THEN iffD2])
    show "space_map ?s' k = ((space_map s)(n := None)) k"
    proof (cases "name_index k = i")
      case True
      then show ?thesis
        using slot at_i maps at_m n(2) by (auto simp: space_map_def split: option.split)
    next
      case False
      then have "k \<noteq> m" "k \<noteq> n"
        using m(2) i(1) by auto
      then show ?thesis
        using False slot maps by (simp add: space_map_def split: option.split)
    qed
  qed
  ultimately show thesis
    using that [of ?s'] m(6) by (simp add: set_entry_def e_def)
qed

lemma entry_dealloc_spec:
  assumes "space_ok pend s" and "pend \<subseteq> {n}" and "is_active s" and "names_entry pend s n r"
    and "entry_of s r = Some e" and "ie_object e = None" and "ie_request e = 0"
  shows "\<exists>s'. ipc_entry_dealloc raw s n r = Some s' \<and> space_ok {} s' \<and> space_map s' = (space_map s)(n := None)"
proof (cases r)
  case (In_Table i)
  let ?t = "is_table s"
  note ok = space_okD [OF assms(1)]
  have i: "i = name_index n" "0 < i" "i < length ?t" "IE_BITS_GEN (ie_bits (?t ! i)) = MACH_PORT_GEN n"
    and e: "e = ?t ! i"
    using assms(4,5) In_Table by (auto simp: names_entry_def entry_of_def entry_at_def)
  have none: "pend - {n} = {}"
    using assms(2) by blast
  have fast: "ie_bits e AND IE_BITS_COLLISION = 0" if "is_fast s"
    using ok(5,8) i(3) that e by (simp add: collisions_ok_def)
  show ?thesis
  proof (cases "ie_bits e AND IE_BITS_COLLISION = 0")
    case True
    have "ipc_entry_dealloc raw s n r = Some (s\<lparr>is_table := freed ?t i\<rparr>)"
      using True assms(3,5-7) i e In_Table free_slot_freed [OF i(2,3)]
      by (simp add: ipc_entry_dealloc_def asserting_def name_index_def [symmetric] Let_def)
    then show ?thesis
      using freed_ok [OF assms(1) assms(4) [unfolded In_Table]] True assms(6) e none by simp
  next
    case False
    then have "ipc_entry_dealloc raw s n r = move_collision raw s i"
      using fast assms(3,5-7) i e In_Table
      by (auto simp: ipc_entry_dealloc_def asserting_def name_index_def [symmetric] Let_def)
    then show ?thesis
      using move_collision_spec [OF assms(1,2) assms(4) [unfolded In_Table]] False e by metis
  qed
next
  case (In_Tree k)
  then have k: "k = n" "n \<in> tree_names s"
    using assms(4) by (simp_all add: names_entry_def)
  have none: "pend - {n} = {}"
    using assms(2) by blast
  have "\<not> is_fast s"
    using space_okD(8) [OF assms(1)] k(2) by auto
  then have "ipc_entry_dealloc raw s n r = dealloc_from_tree s n"
    using assms(3,5-7) In_Tree k(1) by (simp add: ipc_entry_dealloc_def asserting_def Let_def)
  then show ?thesis
    using dealloc_from_tree_spec [OF assms(1,3) k(2)] none by metis
qed

end
