(* ===== verification/Ipc_Entry_Grow.thy ===== *)
theory Ipc_Entry_Grow
  imports Ipc_Entry_Dealloc
begin

text \<open>
  \<open>ipc_entry_grow_table\<close>: the table that replaces the old one stands for the same map.
\<close>

section \<open>Entries on their way from the tree to the table\<close>

abbreviation zero_entry :: ipc_entry where
  "zero_entry \<equiv> \<lparr>ie_object = None, ie_bits = 0, ie_request = 0\<rparr>"

definition rights :: "ipc_entry list \<Rightarrow> (mach_port_name \<times> ipc_entry) list \<Rightarrow> mach_port_name \<Rightarrow> right option" where
  "rights t es n = (case slot_map t n of None \<Rightarrow> tree_map es n | Some r \<Rightarrow> Some r)"

text \<open>The state of the traversal: of the names whose indices the table gains, \<open>ks\<close> have been visited
  and kept in the tree, and \<open>es\<close> are still to be visited.\<close>

definition moving_entry :: "nat \<Rightarrow> ipc_entry list \<Rightarrow> mach_port_name \<Rightarrow> ipc_entry \<Rightarrow> bool" where
  "moving_entry osize t n e \<longleftrightarrow> osize \<le> name_index n \<and> name_index n < length t \<and>
     ie_bits e AND IE_BITS_RIGHT_MASK = ie_bits e \<and> IE_BITS_TYPE (ie_bits e) \<noteq> 0 \<and>
     (unused t (name_index n) \<or> IE_BITS_GEN (ie_bits (t ! name_index n)) \<noteq> MACH_PORT_GEN n)"

definition moving ::
  "nat \<Rightarrow> ipc_entry list \<Rightarrow> (mach_port_name \<times> ipc_entry) list \<Rightarrow> (mach_port_name \<times> ipc_entry) list \<Rightarrow> bool" where
  "moving osize t ks es \<longleftrightarrow> distinct (map fst (ks @ es)) \<and>
     (\<forall>(n, e) \<in> set (ks @ es). moving_entry osize t n e) \<and>
     (\<forall>(n, e) \<in> set ks. \<not> unused t (name_index n)) \<and>
     (\<forall>i. osize \<le> i \<and> i < length t \<longrightarrow> (unused t i \<longrightarrow> t ! i = zero_entry) \<and>
        (ie_bits (t ! i) AND IE_BITS_COLLISION \<noteq> 0 \<longleftrightarrow> i \<in> name_index ` fst ` set ks))"

lemma tree_map_append:
  "tree_map (xs @ ys) n = (if n \<in> fst ` set xs then tree_map xs n else tree_map ys n)"
  by (cases "map_of xs n") (auto simp: tree_map_def map_of_eq_None_iff map_add_Some_iff split: option.splits
      dest: map_of_SomeD intro: rev_image_eqI)

text \<open>An entry whose index is taken stays, and the taken element gets its collision bit.\<close>

lemma moving_keep:
  assumes "moving osize t ks ((n, e) # es)" and "\<not> unused t (name_index n)"
  defines "t' \<equiv> t[name_index n := (t ! name_index n)\<lparr>ie_bits := ie_bits (t ! name_index n) OR IE_BITS_COLLISION\<rparr>]"
  shows "move_entry osize (length t) n e (Some (t, count, hash)) = (Some (t', count, hash), False)"
    "moving osize t' (ks @ [(n, e)]) es" "slot_map t' = slot_map t"
proof -
  let ?i = "name_index n"
  have e: "moving_entry osize t n e"
    using assms(1) by (simp add: moving_def)
  then have i: "osize \<le> ?i" "?i < length t" "IE_BITS_GEN (ie_bits (t ! ?i)) \<noteq> MACH_PORT_GEN n"
    using assms(2) by (simp_all add: moving_entry_def)
  show "move_entry osize (length t) n e (Some (t, count, hash)) = (Some (t', count, hash), False)"
    using i assms(2) by (simp add: Let_def name_index_def [symmetric] unused_def t'_def)
  note rec = recoloured_same [OF recoloured_on [OF i(2) assms(2)], folded t'_def]
  show "slot_map t' = slot_map t"
    by (rule rec(3))
  have len: "length t' = length t"
    by (simp add: t'_def)
  have gen: "IE_BITS_GEN (ie_bits (t' ! k)) = IE_BITS_GEN (ie_bits (t ! k))" for k
    using i(2) by (cases "k = ?i") (simp_all add: t'_def)
  have ent: "moving_entry osize t' m f \<longleftrightarrow> moving_entry osize t m f" for m f
    by (simp add: moving_entry_def rec(1) gen len)
  have same: "k \<noteq> ?i \<Longrightarrow> t' ! k = t ! k" for k
    by (simp add: t'_def)
  have "(unused t' k \<longrightarrow> t' ! k = zero_entry) \<and>
      (ie_bits (t' ! k) AND IE_BITS_COLLISION \<noteq> 0 \<longleftrightarrow> k \<in> name_index ` fst ` set (ks @ [(n, e)]))"
    if "osize \<le> k" "k < length t" for k
  proof (cases "k = ?i")
    case True
    then show ?thesis
      using assms(2) rec(1) i(2) by (simp add: t'_def)
  next
    case False
    then show ?thesis
      using assms(1) that same [OF False] rec(1) by (simp add: moving_def)
  qed
  moreover have "distinct (map fst ((ks @ [(n, e)]) @ es))"
    using assms(1) by (simp add: moving_def)
  moreover have "\<forall>(m, f) \<in> set ((ks @ [(n, e)]) @ es). moving_entry osize t' m f"
    using assms(1) by (simp add: moving_def ent)
  moreover have "\<forall>(m, f) \<in> set (ks @ [(n, e)]). \<not> unused t' (name_index m)"
    using assms(1,2) by (auto simp: moving_def rec(1))
  ultimately show "moving osize t' (ks @ [(n, e)]) es"
    unfolding moving_def len by blast
qed

text \<open>The first entry with an index takes the element.\<close>

lemma moving_move:
  assumes "moving osize t ks ((n, e) # es)" and "unused t (name_index n)" and "0 < osize"
  defines "t' \<equiv> t[name_index n := \<lparr>ie_object = ie_object e, ie_bits = ie_bits e OR MACH_PORT_GEN n,
     ie_request = ie_request e\<rparr>]"
  shows "\<exists>hash'. move_entry osize (length t) n e (Some (t, count, hash)) = (Some (t', count - 1, hash'), True)"
    "moving osize t' ks es"
    "slot_map t' = (slot_map t)(n \<mapsto> right_of e)" "n \<notin> fst ` set (ks @ es)"
proof -
  let ?i = "name_index n"
  let ?e = "\<lparr>ie_object = ie_object e, ie_bits = ie_bits e OR MACH_PORT_GEN n, ie_request = ie_request e\<rparr>"
  have e: "moving_entry osize t n e"
    using assms(1) by (simp add: moving_def)
  then have i: "osize \<le> ?i" "?i < length t"
    and right: "ie_bits e AND IE_BITS_RIGHT_MASK = ie_bits e" "IE_BITS_TYPE (ie_bits e) \<noteq> 0"
    by (simp_all add: moving_entry_def)
  note bits = right_bits_or_gen [OF right(1) port_gen_gen, of n]
  show "\<exists>hash'. move_entry osize (length t) n e (Some (t, count, hash)) = (Some (t', count - 1, hash'), True)"
    using i assms(2) right(2) by (simp add: Let_def name_index_def [symmetric] unused_def t'_def)
  have len: "length t' = length t"
    by (simp add: t'_def)
  have at_i: "t' ! ?i = ?e"
    using i(2) by (simp add: t'_def)
  have same: "k \<noteq> ?i \<Longrightarrow> t' ! k = t ! k" for k
    by (simp add: t'_def)
  have used: "\<not> unused t' ?i"
    using at_i bits(1) right(2) by (simp add: unused_def)
  have un: "k \<noteq> ?i \<Longrightarrow> unused t' k \<longleftrightarrow> unused t k" for k
    using same by (simp add: unused_def)
  have dist: "distinct (map fst ((n, e) # ks @ es))"
    using assms(1) by (auto simp: moving_def)
  then show fresh: "n \<notin> fst ` set (ks @ es)"
    by auto
  have ent: "moving_entry osize t' m f" if "(m, f) \<in> set (ks @ es)" for m f
  proof -
    have "m \<in> fst ` set (ks @ es)"
      using that by (rule image_eqI [rotated]) simp
    then have m: "moving_entry osize t m f" "m \<noteq> n"
      using assms(1) that fresh by (auto simp: moving_def)
    show ?thesis
    proof (cases "name_index m = ?i")
      case True
      then have "MACH_PORT_GEN m \<noteq> MACH_PORT_GEN n"
        using name_eqI m(2) by blast
      then show ?thesis
        using m(1) True at_i bits(2) len by (auto simp: moving_entry_def)
    next
      case False
      then show ?thesis
        using m(1) same un len by (simp add: moving_entry_def)
    qed
  qed
  have not_ks: "?i \<notin> name_index ` fst ` set ks"
    using assms(1,2) by (auto simp: moving_def)
  have "(unused t' k \<longrightarrow> t' ! k = zero_entry) \<and>
      (ie_bits (t' ! k) AND IE_BITS_COLLISION \<noteq> 0 \<longleftrightarrow> k \<in> name_index ` fst ` set ks)"
    if "osize \<le> k" "k < length t" for k
  proof (cases "k = ?i")
    case True
    then show ?thesis
      using used at_i bits(3) not_ks by simp
  next
    case False
    then show ?thesis
      using assms(1) that same un by (simp add: moving_def)
  qed
  moreover have "\<not> unused t' (name_index m)" if "(m, f) \<in> set ks" for m f
  proof -
    have "\<not> unused t (name_index m)"
      using assms(1) that by (auto simp: moving_def)
    then show ?thesis
      using un used by (cases "name_index m = ?i") simp_all
  qed
  then have "\<forall>(m, f) \<in> set ks. \<not> unused t' (name_index m)"
    by blast
  ultimately show "moving osize t' ks es"
    unfolding moving_def len using dist ent by (intro conjI) (auto simp: case_prod_beta)
  show "slot_map t' = (slot_map t)(n \<mapsto> right_of e)"
  proof
    fix k
    show "slot_map t' k = ((slot_map t)(n \<mapsto> right_of e)) k"
    proof (cases "name_index k = ?i")
      case True
      then have "MACH_PORT_GEN n = MACH_PORT_GEN k \<longleftrightarrow> k = n"
        using name_eqI [of n k] by auto
      then show ?thesis
        using True at_i bits used i(2) len assms(2) right(1) by (auto simp: slot_map_def right_of_def)
    next
      case False
      then show ?thesis
        using same un len by (auto simp: slot_map_def Let_def)
    qed
  qed
qed


lemma move_all:
  assumes "moving osize t ks es" and "0 < osize"
  shows "\<exists>t' hash' kept. visit_all (move_entry osize (length t)) (Some (t, count, hash)) es =
      (Some (t', count - (length es - length kept), hash'), kept) \<and>
    moving osize t' (ks @ kept) [] \<and> length t' = length t \<and> length kept \<le> length es \<and>
    set kept \<subseteq> set es \<and> (\<forall>i < osize. t' ! i = t ! i) \<and> (\<forall>n. rights t' (ks @ kept) n = rights t (ks @ es) n)"
  using assms
proof (induction es arbitrary: t count hash ks)
  case Nil
  then show ?case
    by simp
next
  case (Cons p es)
  obtain n e where p: "p = (n, e)"
    by fastforce
  have i: "osize \<le> name_index n" "moving_entry osize t n e"
    using Cons.prems(1) p by (auto simp: moving_def moving_entry_def)
  show ?case
  proof (cases "unused t (name_index n)")
    case False
    note st = moving_keep [OF Cons.prems(1) [unfolded p] False]
    let ?t = "t[name_index n := (t ! name_index n)\<lparr>ie_bits := ie_bits (t ! name_index n) OR IE_BITS_COLLISION\<rparr>]"
    obtain t' hash' kept where ih: "visit_all (move_entry osize (length ?t)) (Some (?t, count, hash)) es =
        (Some (t', count - (length es - length kept), hash'), kept)"
      "moving osize t' ((ks @ [(n, e)]) @ kept) []" "length t' = length ?t" "length kept \<le> length es"
      "set kept \<subseteq> set es"
      "\<forall>i < osize. t' ! i = ?t ! i" "\<forall>k. rights t' ((ks @ [(n, e)]) @ kept) k = rights ?t ((ks @ [(n, e)]) @ es) k"
      using Cons.IH [OF st(2) Cons.prems(2), of count hash] by blast
    show ?thesis
      using ih st(1) [of count hash] i(1) p
      by (intro exI [of _ t'] exI [of _ hash'] exI [of _ "(n, e) # kept"]) (auto simp: st(3) rights_def simp del: move_entry.simps)
  next
    case True
    note st = moving_move [OF Cons.prems(1) [unfolded p] True Cons.prems(2)]
    let ?t = "t[name_index n := \<lparr>ie_object = ie_object e, ie_bits = ie_bits e OR MACH_PORT_GEN n,
     ie_request = ie_request e\<rparr>]"
    obtain hash1 where v: "move_entry osize (length t) n e (Some (t, count, hash)) = (Some (?t, count - 1, hash1), True)"
      using st(1) by blast
    obtain t' hash' kept where ih: "visit_all (move_entry osize (length ?t)) (Some (?t, count - 1, hash1)) es =
        (Some (t', count - 1 - (length es - length kept), hash'), kept)"
      "moving osize t' (ks @ kept) []" "length t' = length ?t" "length kept \<le> length es"
      "set kept \<subseteq> set es"
      "\<forall>i < osize. t' ! i = ?t ! i" "\<forall>k. rights t' (ks @ kept) k = rights ?t (ks @ es) k"
      using Cons.IH [OF st(2) Cons.prems(2), of "count - 1" hash1] by blast
    have "rights ?t (ks @ es) k = rights t (ks @ (n, e) # es) k" for k
    proof (cases "k = n")
      case True
      have "IE_BITS_TYPE (ie_bits e) \<noteq> 0"
        using i(2) by (simp add: moving_entry_def)
      moreover have "slot_map t n = None"
        using \<open>unused t (name_index n)\<close> by (simp add: slot_map_def Let_def)
      ultimately show ?thesis
        using True st(3,4) by (simp add: rights_def tree_map_append image_Un) (simp add: tree_map_def)
    next
      case False
      then have "tree_map ((n, e) # es) k = tree_map es k"
        by (simp add: tree_map_def)
      then show ?thesis
        using False st(3) by (simp add: rights_def tree_map_append split: option.split)
    qed
    then show ?thesis
      using ih v i(1) p
      by (intro exI [of _ t'] exI [of _ hash'] exI [of _ kept]) (auto simp: Suc_diff_le simp del: move_entry.simps)
  qed
qed

text \<open>The traversal that counts counts the different indices.\<close>

lemma count_all:
  assumes "sorted_wrt (\<lambda>p q. fst p < fst q) es" and "\<forall>p \<in> set es. unat index \<le> name_index (fst p)"
  shows "\<exists>index'. visit_all count_small (c, index) es =
    ((c + card (name_index ` fst ` set es - {unat index}), index'), es)"
  using assms
proof (induction es arbitrary: c index)
  case (Cons p es)
  obtain n e where p: "p = (n, e)"
    by fastforce
  let ?j = "MACH_PORT_INDEX n"
  have above: "\<forall>q \<in> set es. unat ?j \<le> name_index (fst q)"
    using Cons.prems(1) p name_index_mono by (auto simp: name_index_def [symmetric])
  have hd: "unat index \<le> unat ?j"
    using Cons.prems(2) p by (simp add: name_index_def)
  have sorted: "sorted_wrt (\<lambda>p q. fst p < fst q) es"
    using Cons.prems(1) by simp
  let ?A = "name_index ` fst ` set es"
  show ?case
  proof (cases "?j = index")
    case True
    obtain index' where "visit_all count_small (c, index) es = ((c + card (?A - {unat index}), index'), es)"
      using Cons.IH [OF sorted, of index c] above True by auto
    moreover have "name_index ` fst ` set (p # es) - {unat index} = ?A - {unat index}"
      using True p by (auto simp: name_index_def)
    moreover have "count_small n e (c, index) = ((c, index), False)"
      using True by (simp add: count_small_def)
    ultimately show ?thesis
      using p by simp
  next
    case False
    obtain index' where v: "visit_all count_small (c + 1, ?j) es = ((c + 1 + card (?A - {unat ?j}), index'), es)"
      using Cons.IH [OF sorted above] by blast
    have "unat index < unat ?j"
      using False hd by (metis le_neq_implies_less word_unat_eq_iff)
    then have new: "name_index ` fst ` set (p # es) - {unat index} = insert (unat ?j) (?A - {unat ?j})"
      using p above by (fastforce simp: name_index_def)
    have "card (name_index ` fst ` set (p # es) - {unat index}) = Suc (card (?A - {unat ?j}))"
      unfolding new by (rule card_insert_disjoint) simp_all
    moreover have "count_small n e (c, index) = ((c + 1, ?j), False)"
      using False by (simp add: count_small_def)
    ultimately show ?thesis
      using p v by simp
  qed
qed simp


section \<open>The new elements join the free list\<close>

definition chain_from :: "ipc_entry list \<Rightarrow> nat \<Rightarrow> nat list \<Rightarrow> bool" where
  "chain_from t x fl \<longleftrightarrow> (case fl of [] \<Rightarrow> x = 0 | j # js \<Rightarrow> x = j \<and> free_chain t j js)"

lemma chain_from_next: "chain_from t (ie_next (t ! i)) fl \<longleftrightarrow> free_chain t i fl"
  by (cases fl) (auto simp: chain_from_def)

lemma chain_from_cong:
  assumes "chain_from t x fl" and "\<And>k. k \<in> set fl \<Longrightarrow> ie_request (t' ! k) = ie_request (t ! k)"
  shows "chain_from t' x fl"
proof (cases fl)
  case (Cons j js)
  then have "x = j" "free_chain t j js"
    using assms(1) by (simp_all add: chain_from_def)
  moreover have "free_chain t' j js"
    using Cons assms(2) by (intro free_chain_cong [OF \<open>free_chain t j js\<close>]) simp_all
  ultimately show ?thesis
    using Cons by (simp add: chain_from_def)
qed (use assms in \<open>simp add: chain_from_def\<close>)

lemma free_new_spec:
  assumes "i \<le> length t" and "0 < osize" and "length t < 2 ^ 24" and "chain_from t x fl" and "distinct fl"
    and "\<And>k. k \<in> set fl \<Longrightarrow> k < length t \<and> (k < osize \<or> i \<le> k)"
  shows "\<exists>t' x' fl'. free_new osize i (t, x) = (t', x') \<and> length t' = length t \<and>
    chain_from t' x' fl' \<and> distinct fl' \<and>
    set fl' = set fl \<union> {k. osize \<le> k \<and> k < i \<and> ie_bits (t ! k) = 0} \<and>
    (\<forall>k. (if osize \<le> k \<and> k < i \<and> ie_bits (t ! k) = 0
          then ie_object (t' ! k) = ie_object (t ! k) \<and> ie_bits (t' ! k) = IE_BITS_GEN_MASK
          else t' ! k = t ! k))"
  using assms
proof (induction osize i "(t, x)" arbitrary: t x fl rule: free_new.induct)
  case (1 osize i t x)
  show ?case
  proof (cases "i \<le> osize")
    case True
    then show ?thesis
      using 1 by (subst free_new.simps) (auto intro!: exI [of _ fl])
  next
    case False
    let ?j = "i - 1"
    have j: "?j < length t" "osize \<le> ?j" "0 < ?j" "i \<noteq> 0"
      using False 1(2,3) by auto
    have below: "\<And>k. osize \<le> k \<and> k < i \<longleftrightarrow> (osize \<le> k \<and> k < ?j) \<or> k = ?j"
      using False j by auto
    show ?thesis
    proof (cases "ie_bits (t ! ?j) = 0")
      case True
      let ?t = "t[?j := (t ! ?j)\<lparr>ie_bits := IE_BITS_GEN_MASK, ie_request := of_nat x\<rparr>]"
      have x: "x < 2 ^ 24"
        using 1(4,5) 1(7) [of x] by (cases fl) (auto simp: chain_from_def)
      have out: "?j \<notin> set fl"
        using 1(7) j by fastforce
      have "free_chain ?t ?j fl"
      proof (cases fl)
        case Nil
        then show ?thesis
          using 1(5) j by (simp add: chain_from_def)
      next
        case (Cons a as)
        have ch: "x = a" "free_chain t a as" "?j \<notin> set (a # as)"
          using 1(5) Cons out by (simp_all add: chain_from_def)
        have "free_chain ?t a as"
          by (rule free_chain_cong [OF ch(2)]) (use ch(3) in \<open>metis list.set_intros nth_list_update_neq\<close>)+
        moreover have "unat (of_nat x :: u32) = x"
          using x by (intro unat_of_nat_u32) simp
        ultimately show ?thesis
          using Cons j ch(1) by simp
      qed
      then have ch: "chain_from ?t ?j (?j # fl)"
        by (simp add: chain_from_def)
      have rng: "k < length ?t \<and> (k < osize \<or> ?j \<le> k)" if "k \<in> set (?j # fl)" for k
        using that 1(7) [of k] j by auto
      have step: "free_new osize i (t, x) = free_new osize ?j (?t, ?j)"
        using True False j by (subst free_new.simps) (simp add: Let_def)
      obtain t' x' fl' where ih: "free_new osize ?j (?t, ?j) = (t', x')" "length t' = length ?t"
        "chain_from t' x' fl'" "distinct fl'"
        "set fl' = set (?j # fl) \<union> {k. osize \<le> k \<and> k < ?j \<and> ie_bits (?t ! k) = 0}"
        "\<forall>k. (if osize \<le> k \<and> k < ?j \<and> ie_bits (?t ! k) = 0
          then ie_object (t' ! k) = ie_object (?t ! k) \<and> ie_bits (t' ! k) = IE_BITS_GEN_MASK
          else t' ! k = ?t ! k)"
        using 1(1) [of ?j "t ! ?j" ?t ?j "?j # fl"] True False j 1(3,4,6) ch rng out by auto
      have "set fl' = set fl \<union> {k. osize \<le> k \<and> k < i \<and> ie_bits (t ! k) = 0}"
        using ih(5) True j below by (auto simp: nth_list_update)
      moreover have "if osize \<le> k \<and> k < i \<and> ie_bits (t ! k) = 0
          then ie_object (t' ! k) = ie_object (t ! k) \<and> ie_bits (t' ! k) = IE_BITS_GEN_MASK
          else t' ! k = t ! k" for k
        using ih(6) [rule_format, of k] True j below [of k] by (cases "k = ?j") auto
      ultimately show ?thesis
        using step ih(1-4) by (intro exI [of _ t'] exI [of _ x'] exI [of _ fl']) simp
    next
      case used: False
      have step: "free_new osize i (t, x) = free_new osize ?j (t, x)"
        using used False j by (subst free_new.simps) (simp add: Let_def)
      have rng: "k < length t \<and> (k < osize \<or> ?j \<le> k)" if "k \<in> set fl" for k
        using that 1(7) [of k] by auto
      obtain t' x' fl' where ih: "free_new osize ?j (t, x) = (t', x')" "length t' = length t"
        "chain_from t' x' fl'" "distinct fl'"
        "set fl' = set fl \<union> {k. osize \<le> k \<and> k < ?j \<and> ie_bits (t ! k) = 0}"
        "\<forall>k. (if osize \<le> k \<and> k < ?j \<and> ie_bits (t ! k) = 0
          then ie_object (t' ! k) = ie_object (t ! k) \<and> ie_bits (t' ! k) = IE_BITS_GEN_MASK
          else t' ! k = t ! k)"
        using 1(1) [of ?j "t ! ?j" t x fl] used False j 1(3-6) rng by auto
      have "osize \<le> k \<and> k < i \<and> ie_bits (t ! k) = 0 \<longleftrightarrow> osize \<le> k \<and> k < ?j \<and> ie_bits (t ! k) = 0" for k
        using below [of k] used by blast
      then show ?thesis
        unfolding step using ih by (intro exI [of _ t'] exI [of _ x'] exI [of _ fl']) simp
    qed
  qed
qed


section \<open>The tree is searched for entries that fit\<close>

text \<open>A table of \<open>sz\<close> elements and a tree that stand for the same map as the space.\<close>

definition grown :: "ipc_space \<Rightarrow> nat \<Rightarrow> ipc_entry list \<Rightarrow> ipc_entry splay \<Rightarrow> bool" where
  "grown s sz t tree \<longleftrightarrow> length t = sz \<and> (\<forall>i < is_table_size s. t ! i = is_table s ! i) \<and>
     (\<forall>i. is_table_size s \<le> i \<and> i < sz \<and> unused t i \<longrightarrow> t ! i = zero_entry) \<and>
     splay_ok tree \<and> tree_ok {} t (splay_entries tree) \<and>
     collisions_ok t (fst ` set (splay_entries tree)) \<and> rights t (splay_entries tree) = space_map s"

lemma zero_unused: "ie_bits zero_entry AND IE_BITS_COLLISION = 0" "IE_BITS_TYPE (ie_bits zero_entry) = 0"
  by (simp_all add: IE_BITS_TYPE_def)

lemma grown_parts:
  assumes "space_ok {} s" and "is_table_size s \<le> sz"
    and es: "tree_entries s = ign @ mv @ rest"
    and ranges: "\<forall>p \<in> set ign. name_index (fst p) < is_table_size s"
      "\<forall>p \<in> set mv. is_table_size s \<le> name_index (fst p) \<and> name_index (fst p) < sz"
      "\<forall>p \<in> set rest. sz \<le> name_index (fst p)"
    and t: "length t = sz" "\<forall>i < is_table_size s. t ! i = is_table s ! i"
      "moving (is_table_size s) t kept []" "set kept \<subseteq> set mv"
      "\<forall>n. rights t kept n = rights (is_table s @ replicate (sz - is_table_size s) zero_entry) mv n"
    and tree: "splay_ok tree" "splay_entries tree = ign @ kept @ rest"
  shows "grown s sz t tree"
proof -
  note ok = space_okD [OF assms(1)]
  let ?t = "is_table s" and ?osize = "is_table_size s"
  let ?T = "?t @ replicate (sz - ?osize) zero_entry"
  have kept: "\<forall>p \<in> set kept. ?osize \<le> name_index (fst p) \<and> name_index (fst p) < sz"
    using ranges(2) t(4) by blast
  have un: "unused t i \<longleftrightarrow> unused ?t i" if "i < ?osize" for i
    using t(2) that by (simp add: unused_def)
  have "tree_entry_ok {} t n e" if ne: "(n, e) \<in> set (splay_entries tree)" for n e
  proof -
    have "(n, e) \<in> set (tree_entries s)"
      using that tree(2) es t(4) by auto
    then have old: "tree_entry_ok {} ?t n e"
      using ok(4) by (auto simp: tree_ok_def)
    consider "name_index n < ?osize" | "(n, e) \<in> set kept" | "sz \<le> name_index n"
      using ne ranges(1,3) [rule_format, of "(n, e)"] unfolding tree(2) by auto
    then show ?thesis
    proof cases
      case 1
      then show ?thesis
        using old t(2) un by (simp add: tree_entry_ok_def)
    next
      case 2
      then have "moving_entry ?osize t n e" "\<not> unused t (name_index n)"
        using t(3) by (auto simp: moving_def)
      then show ?thesis
        using old by (auto simp: tree_entry_ok_def moving_entry_def)
    next
      case 3
      then show ?thesis
        using old t(1) by (simp add: tree_entry_ok_def)
    qed
  qed
  then have "tree_ok {} t (splay_entries tree)"
    by (auto simp: tree_ok_def)
  moreover have "collisions_ok t (fst ` set (splay_entries tree))"
    unfolding collisions_ok_def
  proof (intro allI impI)
    fix i
    assume i: "i < length t"
    have out: "i \<notin> name_index ` fst ` set xs" if "\<forall>p \<in> set xs. name_index (fst p) \<noteq> i" for xs :: "(mach_port_name \<times> ipc_entry) list"
      using that by blast
    have rest: "i \<notin> name_index ` fst ` set rest"
      using ranges(3) i t(1) by (intro out) auto
    show "ie_bits (t ! i) AND IE_BITS_COLLISION \<noteq> 0 \<longleftrightarrow> i \<in> name_index ` fst ` set (splay_entries tree)"
    proof (cases "i < ?osize")
      case True
      then have "i \<in> name_index ` fst ` set (splay_entries tree) \<longleftrightarrow> i \<in> name_index ` fst ` set ign"
        "i \<in> name_index ` tree_names s \<longleftrightarrow> i \<in> name_index ` fst ` set ign"
        using out [of kept] out [of mv] rest kept ranges(2) unfolding tree(2) es
        by (auto simp: image_Un simp del: image_image)
      then show ?thesis
        using ok(5) t(2) True by (simp add: collisions_ok_def)
    next
      case False
      then have "i \<in> name_index ` fst ` set (splay_entries tree) \<longleftrightarrow> i \<in> name_index ` fst ` set kept"
        using out [of ign] rest ranges(1) unfolding tree(2) by (auto simp: image_Un simp del: image_image)
      then show ?thesis
        using t(3) i False by (simp add: moving_def)
    qed
  qed
  moreover have "rights t (splay_entries tree) n = space_map s n" for n
  proof -
    have mem: "n \<in> fst ` set ign \<Longrightarrow> name_index n < ?osize"
      "n \<in> fst ` set mv \<Longrightarrow> ?osize \<le> name_index n \<and> name_index n < sz"
      "n \<in> fst ` set kept \<Longrightarrow> ?osize \<le> name_index n \<and> name_index n < sz"
      "n \<in> fst ` set rest \<Longrightarrow> sz \<le> name_index n"
      using ranges kept by auto
    have none: "n \<notin> fst ` set xs \<Longrightarrow> tree_map xs n = None" for xs
      by (simp add: tree_map_def map_of_eq_None_iff [THEN iffD2])
    have space: "space_map s n = rights ?t (ign @ mv @ rest) n"
      unfolding space_map_def rights_def es ..
    consider (ign) "name_index n < ?osize" | (mv) "?osize \<le> name_index n" "name_index n < sz" | (rest) "sz \<le> name_index n"
      by linarith
    then show ?thesis
    proof cases
      case ign
      then have "slot_map t n = slot_map ?t n"
        using t(1,2) assms(2) un by (simp add: slot_map_def Let_def)
      moreover have "n \<notin> fst ` set mv" "n \<notin> fst ` set kept"
        using ign mem by auto
      then have "tree_map (ign @ kept @ rest) n = tree_map (ign @ mv @ rest) n"
        by (simp add: tree_map_append)
      ultimately show ?thesis
        by (simp add: space tree(2) rights_def split: option.split)
    next
      case mv
      have "n \<notin> fst ` set ign" "n \<notin> fst ` set rest"
        using mv mem by auto
      then have "tree_map (ign @ xs @ rest) n = tree_map xs n" for xs
        using none [of rest] none [of xs] by (simp add: tree_map_append)
      moreover have "slot_map ?T n = None" "slot_map ?t n = None"
        using mv zero_unused(2) by (simp_all add: slot_map_def Let_def unused_def nth_append)
      ultimately show ?thesis
        using t(5) by (simp add: space tree(2) rights_def cong: option.case_cong)
    next
      case rest
      then have "n \<notin> fst ` set mv" "n \<notin> fst ` set kept" "slot_map t n = None" "slot_map ?t n = None"
        using mem assms(2) t(1) by (auto simp: slot_map_def)
      then show ?thesis
        by (simp add: space tree(2) rights_def tree_map_append)
    qed
  qed
  moreover have "t ! i = zero_entry" if "?osize \<le> i" "i < sz" "unused t i" for i
    using t(1,3) that by (simp add: moving_def)
  ultimately show ?thesis
    using t(1,2) tree(1) by (simp add: grown_def fun_eq_iff)
qed


lemma below_image: "\<forall>p \<in> set es. lo \<le> name_index (fst p) \<and> name_index (fst p) < hi \<Longrightarrow>
    card (name_index ` fst ` set es) \<le> hi - lo"
  by (rule order_trans [OF card_mono [of "{lo..<hi}"]]) auto

lemma range_of_union:
  fixes lo hi :: nat
  assumes "\<forall>i \<in> A. i < lo" and "\<forall>i \<in> B. i < lo" and "\<forall>i \<in> C. lo \<le> i \<and> i < hi" and "\<forall>i \<in> D. hi \<le> i"
  shows "{i \<in> A \<union> (B \<union> (C \<union> D)). lo \<le> i \<and> i < hi} = C"
  using assms by fastforce

lemma move_tree_spec:
  assumes "space_ok {} s" and "is_table_size s < sz" and "sz \<le> nsize" and "nsize < 2 ^ 24"
    and "is_table s1 = is_table s @ replicate (sz - is_table_size s) zero_entry"
    and "is_tree s1 = is_tree s" and "is_tree_total s1 = is_tree_total s"
  obtains t tree hash where "grown s sz t tree"
    and "move_tree raw (is_table_size s) sz nsize s1 = Some (s1\<lparr>is_table := t,
      is_tree_total := length (splay_entries tree), is_hash := hash,
      is_tree_small := small_count sz nsize (fst ` set (splay_entries tree)), is_tree := tree\<rparr>)"
proof -
  let ?es = "tree_entries s" and ?osize = "is_table_size s" and ?T = "is_table s1"
  note ok = space_okD [OF assms(1)]
  obtain tree1 low1 where sp1: "ipc_splay_tree_split (is_tree s) (MACH_PORT_MAKE (of_nat nsize) 0) raw = Some (tree1, low1)"
    "splay_ok tree1" "splay_ok low1" "splay_entries low1 = filter (\<lambda>p. name_index (fst p) < nsize) ?es"
    "splay_entries tree1 = filter (\<lambda>p. \<not> name_index (fst p) < nsize) ?es" "splay_entries low1 @ splay_entries tree1 = ?es"
    by (rule split_index [OF ok(3) assms(4)])
  obtain small low2 where sp2: "ipc_splay_tree_split low1 (MACH_PORT_MAKE (of_nat sz) 0) raw = Some (small, low2)"
    "splay_ok small" "splay_ok low2" "splay_entries low2 = filter (\<lambda>p. name_index (fst p) < sz) (splay_entries low1)"
    "splay_entries small = filter (\<lambda>p. \<not> name_index (fst p) < sz) (splay_entries low1)"
    "splay_entries low2 @ splay_entries small = splay_entries low1"
    by (rule split_index [OF sp1(3), of sz]) (use assms(3,4) in simp)
  obtain move ign where sp3: "ipc_splay_tree_split low2 (MACH_PORT_MAKE (of_nat ?osize) 0) raw = Some (move, ign)"
    "splay_ok move" "splay_ok ign" "splay_entries ign = filter (\<lambda>p. name_index (fst p) < ?osize) (splay_entries low2)"
    "splay_entries move = filter (\<lambda>p. \<not> name_index (fst p) < ?osize) (splay_entries low2)"
    "splay_entries ign @ splay_entries move = splay_entries low2"
    by (rule split_index [OF sp2(3), of ?osize]) (use assms(2-4) in simp)
  have es: "?es = splay_entries ign @ splay_entries move @ splay_entries small @ splay_entries tree1"
    using sp1(6) sp2(6) sp3(6) by (metis append_assoc)
  have ranges: "\<forall>p \<in> set (splay_entries ign). name_index (fst p) < ?osize"
    "\<forall>p \<in> set (splay_entries move). ?osize \<le> name_index (fst p) \<and> name_index (fst p) < sz"
    "\<forall>p \<in> set (splay_entries small). sz \<le> name_index (fst p) \<and> name_index (fst p) < nsize"
    "\<forall>p \<in> set (splay_entries tree1). nsize \<le> name_index (fst p)"
    unfolding sp3(4,5) sp2(4,5) sp1(4,5) by auto
  have len: "length ?T = sz"
    using assms(2,5) by simp
  have zero: "?T ! i = zero_entry" if "?osize \<le> i" "i < sz" for i
    using that assms(5) by (simp add: nth_append)
  have old: "(n, e) \<in> set ?es \<Longrightarrow> tree_entry_ok {} (is_table s) n e" for n e
    using ok(4) by (auto simp: tree_ok_def)
  have moving: "moving ?osize ?T [] (splay_entries move)"
    unfolding moving_def
  proof (intro conjI)
    show "distinct (map fst ([] @ splay_entries move))"
      using splay_ok_ascending [OF sp3(2)] by (simp add: strict_sorted_iff)
    have "moving_entry ?osize ?T n e" if "(n, e) \<in> set (splay_entries move)" for n e
      using old [of n e] ranges(2) that es zero [of "name_index n"] zero_unused(2) len
      by (auto simp: moving_entry_def tree_entry_ok_def unused_def)
    then show "\<forall>(n, e) \<in> set ([] @ splay_entries move). moving_entry ?osize ?T n e"
      by auto
    show "\<forall>i. ?osize \<le> i \<and> i < length ?T \<longrightarrow> (unused ?T i \<longrightarrow> ?T ! i = zero_entry) \<and>
        (ie_bits (?T ! i) AND IE_BITS_COLLISION \<noteq> 0 \<longleftrightarrow> i \<in> name_index ` fst ` set [])"
      using zero zero_unused(1) len by simp
  qed simp
  have pos: "0 < ?osize"
    using ok(1) by (simp add: slots_ok_def)
  obtain t hash kept where mv: "visit_all (move_entry ?osize sz) (Some (?T, is_tree_total s, is_hash s1)) (splay_entries move) =
      (Some (t, is_tree_total s - (length (splay_entries move) - length kept), hash), kept)"
    "moving ?osize t ([] @ kept) []" "length t = sz" "length kept \<le> length (splay_entries move)"
    "set kept \<subseteq> set (splay_entries move)" "\<forall>i < ?osize. t ! i = ?T ! i"
    "\<forall>n. rights t ([] @ kept) n = rights ?T ([] @ splay_entries move) n"
    using move_all [OF moving pos, of "is_tree_total s" "is_hash s1"] unfolding len by blast
  obtain move' where tm: "splay_traverse (length (splay_entries move)) (move_entry ?osize sz)
      (Some (?T, is_tree_total s, is_hash s1)) move =
      Some (Some (t, is_tree_total s - (length (splay_entries move) - length kept), hash), move')"
    "splay_ok move'" "splay_entries move' = kept"
    using splay_traverse_spec [OF sp3(2) order_refl, of "move_entry ?osize sz"] mv(1) by (metis fst_conv snd_conv)
  have asc_small: "sorted_wrt (\<lambda>p q. fst p < fst q) (splay_entries small)"
    using splay_ok_ascending [OF sp2(2)] by (simp add: sorted_wrt_map)
  let ?n = "card (name_index ` fst ` set (splay_entries small))"
  have "0 \<notin> name_index ` fst ` set (splay_entries small)"
    using ranges(3) assms(2) by auto
  then obtain index where count: "visit_all count_small (0, 0) (splay_entries small) = ((?n, index), splay_entries small)"
    using count_all [OF asc_small, of 0 0] by auto
  obtain small' where ts: "splay_traverse (length (splay_entries small)) count_small (0, 0) small = Some ((?n, index), small')"
    "splay_ok small'" "splay_entries small' = splay_entries small"
    using splay_traverse_spec [OF sp2(2) order_refl, of count_small "(0, 0)"] count by (metis fst_conv snd_conv)
  let ?final = "splay_entries ign @ kept @ splay_entries small @ splay_entries tree1"
  have asc: "ascending ?final"
    using ascending_middle [of "splay_entries ign" "splay_entries move" "splay_entries small @ splay_entries tree1" kept]
      ok(9) es mv(5) splay_ok_ascending [OF tm(2)] tm(3) by simp
  obtain j1 x1 where j1: "ipc_splay_tree_join tree1 small' = Some (j1, x1)" "splay_ok j1"
    "splay_entries j1 = splay_entries small @ splay_entries tree1"
    using join_spec [OF sp1(2) ts(2)] asc ts(3) by (metis sorted_wrt_append map_append)
  obtain j2 x2 where j2: "ipc_splay_tree_join j1 move' = Some (j2, x2)" "splay_ok j2"
    "splay_entries j2 = kept @ splay_entries small @ splay_entries tree1"
    using join_spec [OF j1(2) tm(2)] asc tm(3) j1(3) by (metis sorted_wrt_append map_append)
  obtain tree x3 where j3: "ipc_splay_tree_join j2 ign = Some (tree, x3)" "splay_ok tree" "splay_entries tree = ?final"
    using join_spec [OF j2(2) sp3(3)] asc j2(3) by metis
  have "grown s sz t tree"
  proof (rule grown_parts [OF assms(1) less_imp_le [OF assms(2)] es ranges(1,2) _ mv(3) _ _ mv(5) _ j3(2,3)])
    show "\<forall>p \<in> set (splay_entries small @ splay_entries tree1). sz \<le> name_index (fst p)"
      using ranges(3,4) assms(3) by auto
    show "\<forall>i < ?osize. t ! i = is_table s ! i"
      using mv(6) assms(5) by (simp add: nth_append)
    show "moving ?osize t kept []"
      using mv(2) by simp
    show "\<forall>n. rights t kept n = rights (is_table s @ replicate (sz - ?osize) zero_entry) (splay_entries move) n"
      using mv(7) assms(5) by simp
  qed
  moreover have len_final: "is_tree_total s - (length (splay_entries move) - length kept) = length ?final"
    using ok(6) es mv(4) by simp
  moreover have "small_count sz nsize (fst ` set ?final) = ?n"
  proof -
    have "{i \<in> name_index ` fst ` set ?final. sz \<le> i \<and> i < nsize} = name_index ` fst ` set (splay_entries small)"
      unfolding set_append image_Un
      by (rule range_of_union; use ranges mv(5) assms(2) in fastforce)
    then show ?thesis
      by (simp add: small_count_def)
  qed
  moreover have "?n \<le> nsize - sz"
    by (rule below_image [OF ranges(3)])
  moreover have "?n \<le> length ?final"
    using card_image_le [of "fst ` set (splay_entries small)" name_index] card_image_le [of "set (splay_entries small)" fst]
      card_length [of "splay_entries small"] by simp
  ultimately show thesis
    using that [of t tree hash] sp1(1) sp2(1) sp3(1) tm(1) ts(1) j1(1) j2(1) j3(1,3) assms(6,7)
    by (simp add: move_tree_def asserting_def)
qed


section \<open>Installing the new table\<close>

text \<open>What \<open>free_new\<close> makes of a grown table.\<close>

lemma free_new_grown:
  assumes "space_ok {} s" and "is_table_size s \<le> sz" and "sz < 2 ^ 24" and "grown s sz t tree"
  obtains t' x where "free_new (is_table_size s) sz (t, ie_next (t ! 0)) = (t', x)" and "length t' = sz"
    and "slots_ok {} (t'[0 := (t' ! 0)\<lparr>ie_request := of_nat x\<rparr>])"
    and "free_list_ok {} (t'[0 := (t' ! 0)\<lparr>ie_request := of_nat x\<rparr>])"
    and "same_used t (t'[0 := (t' ! 0)\<lparr>ie_request := of_nat x\<rparr>])"
proof -
  note ok = space_okD [OF assms(1)]
  let ?osize = "is_table_size s" and ?old = "is_table s"
  have g: "length t = sz" "\<And>i. i < ?osize \<Longrightarrow> t ! i = ?old ! i"
    "\<And>i. ?osize \<le> i \<Longrightarrow> i < sz \<Longrightarrow> unused t i \<Longrightarrow> t ! i = zero_entry"
    using assms(4) by (simp_all add: grown_def)
  have pos: "0 < ?osize"
    using ok(1) by (simp add: slots_ok_def)
  obtain fl where fl: "free_chain ?old 0 fl" "distinct fl" "set fl = free_slots {} ?old"
    using ok(2) by (rule free_list_okE)
  have rng: "k < ?osize" "0 < k" "unused t k" if "k \<in> set fl" for k
    using that fl(3) g(2) [of k] by (auto simp: free_slots_def unused_def)
  have "free_chain t 0 fl"
    using rng g(2) pos by (intro free_chain_cong [OF fl(1)]) simp_all
  then have ch: "chain_from t (ie_next (t ! 0)) fl"
    by (simp add: chain_from_next)
  have sz: "sz \<le> length t" "length t < 2 ^ 24"
    using g(1) assms(3) by simp_all
  have in_t: "k < length t \<and> (k < ?osize \<or> sz \<le> k)" if "k \<in> set fl" for k
    using rng(1) [OF that] assms(2) sz(1) by linarith
  obtain t' x fl' where f: "free_new ?osize sz (t, ie_next (t ! 0)) = (t', x)" "length t' = length t"
    "chain_from t' x fl'" "distinct fl'"
    "set fl' = set fl \<union> {k. ?osize \<le> k \<and> k < sz \<and> ie_bits (t ! k) = 0}"
    "\<forall>k. (if ?osize \<le> k \<and> k < sz \<and> ie_bits (t ! k) = 0
          then ie_object (t' ! k) = ie_object (t ! k) \<and> ie_bits (t' ! k) = IE_BITS_GEN_MASK
          else t' ! k = t ! k)"
    using free_new_spec [OF sz(1) pos sz(2) ch fl(2) in_t] by blast
  let ?t = "t'[0 := (t' ! 0)\<lparr>ie_request := of_nat x\<rparr>]"
  have len: "length ?t = sz"
    using f(2) g(1) by simp
  have new: "?osize \<le> k \<and> k < sz \<and> ie_bits (t ! k) = 0 \<longleftrightarrow> ?osize \<le> k \<and> k < sz \<and> unused t k" for k
    using g(3) [of k] by (auto simp: unused_def IE_BITS_TYPE_def)
  have "0 < length t'"
    using pos assms(2) f(2) g(1) by linarith
  moreover have "t' ! 0 = ?old ! 0"
    using f(6) [rule_format, of 0] g(2) [of 0] pos by simp
  ultimately have at0: "t' ! 0 = ?old ! 0" "?t ! 0 = (?old ! 0)\<lparr>ie_request := of_nat x\<rparr>"
    by simp_all
  have at_k: "k \<noteq> 0 \<Longrightarrow> ?t ! k = t' ! k" for k
    by simp
  have t'_old: "t' ! k = t ! k" if "k < ?osize \<or> \<not> unused t k" for k
    using f(6) [rule_format, of k] new [of k] that by (meson not_le)
  have t'_new: "ie_object (t' ! k) = None" "ie_bits (t' ! k) = IE_BITS_GEN_MASK"
    if "?osize \<le> k" "k < sz" "unused t k" for k
    using f(6) [rule_format, of k] new [of k] that g(3) [OF that] by simp_all
  have un: "unused ?t k \<longleftrightarrow> unused t k" if "k < sz" for k
  proof (cases "k < ?osize \<or> \<not> unused t k")
    case True
    then show ?thesis
      using t'_old at0 at_k g(2) [of 0] pos by (cases "k = 0") (simp_all add: unused_def)
  next
    case False
    then show ?thesis
      using t'_new [of k] that at_k [of k] pos by (cases "k = 0") (simp_all add: unused_def IE_BITS_TYPE_def)
  qed
  have slots: "slots_ok {} ?t"
    unfolding slots_ok_def
  proof (intro conjI allI impI)
    show "0 < length ?t" "length ?t < 2 ^ 24"
      using len assms(2,3) pos by linarith+
    show "ie_bits (?t ! 0) = IE_BITS_GEN_MASK" "ie_object (?t ! 0) = None"
      unfolding at0(2) using ok(1) by (simp_all add: slots_ok_def)
    fix k
    assume "0 < k \<and> k < length ?t \<and> unused ?t k"
    then have k: "0 < k" "k < sz" "unused t k"
      using un [of k] len by auto
    show "ie_object (?t ! k) = None"
      using k t'_new [of k] t'_old [of k] g(2) [of k] ok(1)
      by (cases "k < ?osize") (simp_all add: slots_ok_def unused_def)
    show "ie_bits (?t ! k) AND IE_BITS_GEN_MASK = ie_bits (?t ! k)"
      using k t'_new [of k] t'_old [of k] g(2) [of k] ok(1)
      by (cases "k < ?osize") (simp_all add: slots_ok_def unused_def)
  qed simp
  have x: "x < 2 ^ 24"
  proof (cases fl')
    case (Cons a as)
    then have "x \<in> set fl'"
      using f(3) by (simp add: chain_from_def)
    then have "x < sz"
      using f(5) rng(1) assms(2) by fastforce
    then show ?thesis
      using assms(3) by simp
  qed (use f(3) in \<open>simp add: chain_from_def\<close>)
  have fl'_set: "set fl' = free_slots {} ?t"
  proof -
    have "set fl = {k. 0 < k \<and> k < ?osize \<and> unused t k}"
      using fl(3) g(2) by (auto simp: free_slots_def unused_def)
    moreover have "set fl' = set fl \<union> {k. ?osize \<le> k \<and> k < sz \<and> unused t k}"
      unfolding f(5) using new by blast
    moreover have "free_slots {} ?t = {k. 0 < k \<and> k < sz \<and> unused ?t k}"
      unfolding free_slots_def len by blast
    moreover have "\<dots> = {k. 0 < k \<and> k < sz \<and> unused t k}"
      using un by blast
    ultimately show ?thesis
      unfolding set_eq_iff using pos assms(2) by (simp only: Un_iff mem_Collect_eq) (metis less_le_trans not_le)
  qed
  have "free_chain ?t 0 fl'"
  proof -
    have "0 \<notin> set fl'"
      using fl'_set by (simp add: free_slots_def)
    then have "chain_from ?t x fl'"
      using at_k by (intro chain_from_cong [OF f(3)]) metis
    moreover have "ie_next (?t ! 0) = x"
      using at0(2) x by (simp add: unat_of_nat_u32)
    ultimately show ?thesis
      using chain_from_next [of ?t 0 fl'] by simp
  qed
  then have "free_list_ok {} ?t"
    using f(4) fl'_set by (auto simp: free_list_ok_def)
  moreover have "same_used t ?t"
    unfolding same_used_def
  proof (intro conjI allI impI)
    fix k
    assume "k < length t"
    then have k: "k < sz"
      using g(1) by simp
    show "unused ?t k \<longleftrightarrow> unused t k"
      by (rule un [OF k])
    have "unused t 0"
      using unused_0 [OF ok(1)] g(2) [of 0] pos by (simp add: unused_def)
    then show "unused t k \<or> ?t ! k = t ! k"
      using t'_old [of k] at_k [of k] by (cases "k = 0") auto
    show "ie_bits (?t ! k) AND IE_BITS_COLLISION = 0 \<longleftrightarrow> ie_bits (t ! k) AND IE_BITS_COLLISION = 0"
    proof (cases "k < ?osize \<or> \<not> unused t k")
      case True
      then show ?thesis
        using t'_old [of k] at_k [of k] at0 g(2) [of 0] pos by (cases "k = 0") simp_all
    next
      case False
      then show ?thesis
        using t'_new [of k] k at_k [of k] pos g(3) [of k] by (cases "k = 0") simp_all
    qed
  qed (use len g(1) in simp)
  ultimately show thesis
    using that f(1) len slots by simp
qed


lemma grow_install_spec:
  assumes "space_ok {} s" and "is_table_size s < sz" and "sz \<le> nsize" and "nsize < 2 ^ 24"
    and "0 < nits" and "nits < ipc_table_entries_size" and "sz = its_size (nits - 1)" and "nsize = its_size nits"
  obtains s' where "grow_install raw (is_table_size s) sz nits nsize s = Some s'"
    and "space_ok {} s'" and "space_map s' = space_map s" and "is_table_size s' = sz" and "is_table_next s' = nits"
    and "is_active s' = is_active s" and "is_growing s' = is_growing s" and "is_fast s' = is_fast s"
proof -
  note ok = space_okD [OF assms(1)]
  let ?old = "is_table s"
  let ?osize = "is_table_size s"
  let ?T = "?old @ replicate (sz - ?osize) zero_entry"
  let ?hash = "is_hash s @ local_hash_cleared sz # map (\<lambda>i. ipc_hash_local_insert (ie_object (?old ! i)) i)
            (filter (\<lambda>i. IE_BITS_TYPE (ie_bits (?old ! i)) = MACH_PORT_TYPE_SEND) [0..<?osize])"
  let ?s1 = "s\<lparr>is_table := ?T, is_table_next := nits, is_hash := ?hash\<rparr>"
  have le: "?osize \<le> sz" "sz < 2 ^ 24"
    using assms(2-4) by simp_all
  have pos: "0 < ?osize"
    using ok(1) by (simp add: slots_ok_def)
  obtain t tree hash where g: "grown s sz t tree"
    and s2: "(if 0 < is_tree_total ?s1 then move_tree raw ?osize sz nsize ?s1 else Some ?s1) =
      Some (?s1\<lparr>is_table := t, is_tree_total := length (splay_entries tree), is_hash := hash,
        is_tree_small := small_count sz nsize (fst ` set (splay_entries tree)), is_tree := tree\<rparr>)" (is "_ = Some ?s2")
    and fast: "is_fast s \<longrightarrow> splay_entries tree = []"
  proof (cases "0 < is_tree_total s")
    case True
    then have nf: "\<not> is_fast s"
      using ok(6,8) by auto
    obtain t tree hash where "grown s sz t tree" "move_tree raw ?osize sz nsize ?s1 =
      Some (?s1\<lparr>is_table := t, is_tree_total := length (splay_entries tree), is_hash := hash,
        is_tree_small := small_count sz nsize (fst ` set (splay_entries tree)), is_tree := tree\<rparr>)"
      by (rule move_tree_spec [OF assms(1-4), of ?s1 raw]) simp_all
    then show thesis
      using that [of t tree hash] True nf by simp
  next
    case False
    then have none: "tree_entries s = []"
      using ok(6) by simp
    have small: "is_tree_small s = 0"
      using ok(7) none by (simp add: sizes_of_def small_count_def)
    have "slot_map ?T = slot_map ?old"
      using le(1) zero_unused(2) by (intro ext) (auto simp: slot_map_def Let_def unused_def nth_append)
    then have "rights ?T (tree_entries s) = space_map s"
      by (intro ext) (simp add: rights_def space_map_def)
    moreover have "collisions_ok ?T {}"
      using ok(5) none le(1) zero_unused(1) by (auto simp: collisions_ok_def nth_append)
    ultimately have "grown s sz ?T (is_tree s)"
      using le(1) ok(3) none by (simp add: grown_def nth_append tree_ok_def) (auto simp: nth_append)
    then show thesis
      using that [of ?T "is_tree s" ?hash] False none small by (simp add: small_count_def)
  qed
  obtain t' x where f: "free_new ?osize sz (t, ie_next (t ! 0)) = (t', x)" "length t' = sz"
    "slots_ok {} (t'[0 := (t' ! 0)\<lparr>ie_request := of_nat x\<rparr>])" (is "slots_ok {} ?t")
    "free_list_ok {} (t'[0 := (t' ! 0)\<lparr>ie_request := of_nat x\<rparr>])"
    "same_used t (t'[0 := (t' ! 0)\<lparr>ie_request := of_nat x\<rparr>])"
    by (rule free_new_grown [OF assms(1) le g])
  let ?s' = "?s2\<lparr>is_table := ?t\<rparr>"
  have g': "splay_ok tree" "tree_ok {} t (splay_entries tree)" "collisions_ok t (fst ` set (splay_entries tree))"
    "rights t (splay_entries tree) = space_map s" "length t = sz"
    using g by (simp_all add: grown_def)
  have "tree_ok {} ?t (splay_entries tree)"
    using g'(2) tree_entry_ok_cong [OF f(5) subset_refl] by (auto simp: tree_ok_def)
  moreover have "collisions_ok ?t (fst ` set (splay_entries tree))"
    using g'(3) f(5) by (simp add: collisions_ok_def same_used_def)
  ultimately have "space_ok {} ?s'"
    using f(2-4) g'(1) fast assms(5-8) by (simp add: space_parts)
  moreover have "space_map ?s' = space_map s"
    using g'(4) same_used_map [OF f(5)] by (simp add: fun_eq_iff space_map_def rights_def cong: option.case_cong)
  moreover have "grow_install raw ?osize sz nits nsize s = Some ?s'"
  proof -
    have "0 < length t"
      using pos le(1) g'(5) by linarith
    then show ?thesis
      using s2 f(1) ok(6,8) by (auto simp: grow_install_def asserting_def entry_at_def Let_def)
  qed
  ultimately show thesis
    using that [of ?s'] f(2) by simp
qed

section \<open>A new space\<close>

lemma free_chain_count:
  assumes "i \<le> n" and "\<forall>k < n. ie_next (t ! k) = k + 1" and "ie_next (t ! n) = 0"
  shows "free_chain t i [Suc i..<Suc n]"
  using assms(1)
proof (induction i rule: inc_induct)
  case (step m)
  moreover have "[Suc m..<Suc n] = Suc m # [Suc (Suc m)..<Suc n]"
    using step by (intro upt_conv_Cons) simp
  ultimately show ?case
    using assms(2) step by (simp del: upt_Suc)
qed (simp add: assms(3))

lemma space_create_table:
  fixes fast raw
  assumes "initial + 1 < ipc_table_entries_size"
  defines "s \<equiv> ipc_space_create initial fast raw"
  shows "is_table_size s = its_size initial"
    "k < its_size initial \<Longrightarrow> is_table s ! k = \<lparr>ie_object = None, ie_bits = IE_BITS_GEN_MASK,
      ie_request = (if k + 1 = its_size initial then 0 else of_nat (k + 1))\<rparr>"
    "0 < its_size initial" "its_size initial < 2 ^ 24"
proof -
  show "0 < its_size initial" "its_size initial < 2 ^ 24"
    using entries_next(1,2) [OF assms(1)] by (simp_all add: its_size_def)
  then show "is_table_size s = its_size initial"
    "k < its_size initial \<Longrightarrow> is_table s ! k = \<lparr>ie_object = None, ie_bits = IE_BITS_GEN_MASK,
      ie_request = (if k + 1 = its_size initial then 0 else of_nat (k + 1))\<rparr>"
    by (auto simp: s_def ipc_space_create_def Let_def nth_list_update)
qed

lemma space_create_ok:
  assumes "initial + 1 < ipc_table_entries_size"
  shows "space_ok {} (ipc_space_create initial fast raw)" "is_active (ipc_space_create initial fast raw)"
    "space_map (ipc_space_create initial fast raw) name = None"
proof -
  let ?s = "ipc_space_create initial fast raw" and ?n = "its_size initial"
  let ?t = "is_table ?s"
  note t = space_create_table(1,2) [OF assms, where fast = fast and raw = raw] space_create_table(3,4) [OF assms]
  have tree: "splay_ok (is_tree ?s)" "tree_entries ?s = []"
    by (simp_all add: ipc_space_create_def ipc_splay_tree_init_def splay_ok_def splay_entries_def Let_def)
  have un: "k < ?n \<Longrightarrow> unused ?t k" for k
    using t(2) by (simp add: unused_def IE_BITS_TYPE_def)
  have suc: "unat (1 + of_nat k :: u32) = Suc k" if "k < 2 ^ 24" for k
    using unat_of_nat_u32 [of "Suc k"] that by simp
  have "free_chain ?t 0 [Suc 0..<Suc (?n - 1)]"
  proof (rule free_chain_count)
    have "ie_next (?t ! k) = k + 1" if "k < ?n - 1" for k
    proof -
      have "k < ?n" "k < 2 ^ 24" "k + 1 \<noteq> ?n"
        using that t(4) by simp_all
      then show ?thesis
        using suc [of k] by (subst t(2)) simp_all
    qed
    then show "\<forall>k < ?n - 1. ie_next (?t ! k) = k + 1"
      by blast
    show "ie_next (?t ! (?n - 1)) = 0"
      using t(3) by (subst t(2)) simp_all
  qed simp
  moreover have "free_slots {} ?t = {Suc 0..<?n}"
    using t(1) un by (auto simp: free_slots_def)
  ultimately have "free_list_ok {} ?t"
    unfolding free_list_ok_def using t(3) by (intro exI [of _ "[Suc 0..<Suc (?n - 1)]"]) (simp del: upt_Suc)
  moreover have "slots_ok {} ?t"
    using t by (simp add: slots_ok_def)
  moreover have "collisions_ok ?t {}"
    using t(1,2) by (simp add: collisions_ok_def)
  moreover have "sizes_of ?s"
    using t(1) assms tree(2) by (simp add: sizes_of_def small_count_def) (simp add: ipc_space_create_def Let_def)
  moreover have "is_tree_total ?s = 0"
    by (simp add: ipc_space_create_def Let_def)
  ultimately show "space_ok {} ?s"
    using tree by (simp add: space_ok_def tree_ok_def)
  show "is_active ?s"
    by (simp add: ipc_space_create_def Let_def)
  show "space_map ?s name = None"
    using un t(1) tree(2) by (simp add: space_map_def slot_map_def tree_map_def Let_def)
qed

end
