(* ===== verification/Ipc_Entry_Contract.thy ===== *)
theory Ipc_Entry_Contract
  imports Ipc_Entry_Grow
begin

text \<open>
  The properties of ipc_entry.c, with the loops of \<open>ipc_entry_grow_table\<close>, \<open>ipc_entry_alloc\<close> and
  \<open>ipc_entry_alloc_name\<close> where no other thread disturbs them.
\<close>

section \<open>The sizes\<close>

lemma its_sizes:
  assumes "0 < i" and "i < ipc_table_entries_size"
  shows "0 < its_size (i - 1)" "its_size i < 2 ^ 24" "its_size (i - 1) \<le> its_size i"
    "its_size (i - 1) = its_size i \<longleftrightarrow> i + 1 = ipc_table_entries_size"
proof -
  have i: "i - 1 + 1 < ipc_table_entries_size"
    using assms by simp
  note n = entries_next [OF i]
  show "0 < its_size (i - 1)" "its_size (i - 1) \<le> its_size i"
    "its_size (i - 1) = its_size i \<longleftrightarrow> i + 1 = ipc_table_entries_size"
    using n(1,3) assms by (auto simp: its_size_def split: if_splits)
  show "its_size i < 2 ^ 24"
  proof (cases "i + 1 < ipc_table_entries_size")
    case True
    then show ?thesis
      using entries_next(2) by (simp add: its_size_def)
  next
    case False
    then show ?thesis
      using n(2,3) assms by (simp add: its_size_def)
  qed
qed

lemma its_search_spec:
  assumes "0 < its" and "its < ipc_table_entries_size" and "psize = its_size (its - 1)"
  obtains j where "its_search target psize its = Some (its_size (j - 1), j)" and "its \<le> j"
    and "j < ipc_table_entries_size" and "j + 1 = ipc_table_entries_size \<or> target \<le> its_size j"
    and "\<forall>k. its \<le> k \<and> k < j \<longrightarrow> its_size k < target"
  using assms
proof (induction target psize its arbitrary: thesis rule: its_search.induct)
  case (1 target psize its)
  show ?case
  proof (cases "psize \<noteq> its_size its \<and> its_size its < target")
    case True
    then have more: "its + 1 < ipc_table_entries_size"
      using its_sizes(4) [OF 1(3,4)] 1(4,5) by linarith
    obtain j where j: "its_search target (its_size its) (its + 1) = Some (its_size (j - 1), j)" "its + 1 \<le> j"
      "j < ipc_table_entries_size" "j + 1 = ipc_table_entries_size \<or> target \<le> its_size j"
      "\<forall>k. its + 1 \<le> k \<and> k < j \<longrightarrow> its_size k < target"
      by (rule 1(1) [OF True more]) (use more in simp_all)
    have "\<forall>k. its \<le> k \<and> k < j \<longrightarrow> its_size k < target"
      using j(5) True by (metis Suc_eq_plus1 Suc_leI le_neq_implies_less)
    moreover have "its_search target psize its = its_search target (its_size its) (its + 1)"
      using True more by (subst its_search.simps) simp
    ultimately show ?thesis
      using 1(2) [of j] j by simp
  next
    case False
    then have "its_search target psize its = Some (its_size (its - 1), its)"
      using 1(5) by (subst its_search.simps) auto
    then show ?thesis
      using 1(2) [of its] 1(3-5) False its_sizes(4) [OF 1(3,4)] by auto
  qed
qed

section \<open>Growing undisturbed\<close>

text \<open>\<open>quiet k\<close>: \<open>k\<close> periods in which nothing happens and the allocations succeed.\<close>

definition quiet :: "nat \<Rightarrow> interlude list" where "quiet k = replicate k (\<lambda>s. s, True)"

lemma quiet_Suc: "quiet (Suc k) = (\<lambda>s. s, True) # quiet k"
  by (simp add: quiet_def)

text \<open>What growing keeps.\<close>

definition regrown :: "ipc_space \<Rightarrow> ipc_space \<Rightarrow> bool" where
  "regrown s s' \<longleftrightarrow> space_ok {} s' \<and> space_map s' = space_map s \<and> is_active s' \<and> \<not> is_growing s' \<and>
     is_fast s' = is_fast s \<and> is_table_size s < is_table_size s' \<and> its_size (is_table_next s) \<le> is_table_size s'"

lemma grow_turn_spec:
  assumes "space_ok {} s" and "is_active s" and "\<not> is_growing s" and "is_table_next s + 1 < ipc_table_entries_size"
  obtains s' t where "grow_table_turn beyond raw None s (quiet (Suc (Suc k))) = Some (s', t, quiet k)"
    and "regrown s s'" and "is_table_next s' = is_table_next s + 1"
    and "t = Grow_Return KERN_SUCCESS True \<or>
         (t = Grow_Again \<and> is_table_next s' + 1 < ipc_table_entries_size)"
proof -
  let ?next = "is_table_next s"
  note ok = space_okD [OF assms(1)]
  have nx: "0 < ?next" and size: "is_table_size s = its_size (?next - 1)"
    using ok(7) by (simp_all add: sizes_of_def)
  have lt: "its_size (?next - 1) < its_size ?next" "its_size ?next \<le> its_size (?next + 1)" "its_size (?next + 1) < 2 ^ 24"
    using its_sizes [of ?next] its_sizes [of "?next + 1"] nx assms(4) by simp_all
  obtain s' where g: "grow_install raw (is_table_size s) (its_size ?next) (?next + 1) (its_size (?next + 1)) s = Some s'"
    "space_ok {} s'" "space_map s' = space_map s" "is_table_size s' = its_size ?next" "is_table_next s' = ?next + 1"
    "is_active s' = is_active s" "is_growing s' = is_growing s" "is_fast s' = is_fast s"
    by (rule grow_install_spec [OF assms(1), of "its_size ?next" "its_size (?next + 1)" "?next + 1" raw])
      (use lt size assms(4) in simp_all)
  have regrown: "regrown s s'"
    using g assms(2,3) lt size by (simp add: regrown_def)
  have "s\<lparr>is_growing := False\<rparr> = s"
    using assms(3) by simp
  then have g1: "grow_install raw (its_size (?next - 1)) (its_size ?next) (?next + 1) (its_size (?next + 1))
      (s\<lparr>is_growing := False\<rparr>) = Some s'"
    using g(1) size by metis
  let ?again = "0 < is_tree_small s' \<and>
    (its_size (?next + 1) - its_size ?next) * ipc_entry_bytes < is_tree_small s' * ipc_tree_entry_bytes"
  have again: "?next + 2 < ipc_table_entries_size" if ?again
  proof (rule ccontr)
    assume "\<not> ?next + 2 < ipc_table_entries_size"
    then have "its_size (?next + 1) = its_size ?next"
      using its_sizes(4) [of "?next + 1"] assms(4) by simp
    then have "is_tree_small s' = 0"
      using space_okD(7) [OF g(2)] g(4,5) by (simp add: sizes_of_def small_count_def)
    then show False
      using that by simp
  qed
  have "grow_table_turn beyond raw None s (quiet (Suc (Suc k))) =
      Some (s', (if ?again then Grow_Again else Grow_Return KERN_SUCCESS True), quiet k)"
    using assms(2-4) lt size g1 g(5,6)
    by (simp add: grow_table_turn_def grow_allocated_def quiet_Suc asserting_def its_read_def Let_def)
  then show thesis
    using that regrown g(5) again by (cases ?again) simp_all
qed

lemma regrown_trans: "regrown s s1 \<Longrightarrow> regrown s1 s2 \<Longrightarrow> regrown s s2"
  by (auto simp: regrown_def)

lemma grow_table_spec:
  assumes "space_ok {} s" and "is_active s" and "\<not> is_growing s" and "is_table_next s + 1 < ipc_table_entries_size"
    and "2 * (ipc_table_entries_size - is_table_next s) \<le> k" and "ipc_table_entries_size - is_table_next s \<le> fuel"
  shows "\<exists>s' k'. ipc_entry_grow_table fuel beyond raw None s (quiet k) = Some (s', KERN_SUCCESS, True, quiet k') \<and>
    regrown s s' \<and> is_table_next s < is_table_next s' \<and> k' + 2 * is_table_next s' = k + 2 * is_table_next s"
  using assms
proof (induction "ipc_table_entries_size - is_table_next s" arbitrary: s k fuel rule: less_induct)
  case less
  then obtain f j where f: "fuel = Suc f" and k: "k = Suc (Suc j)"
    by (cases fuel; cases k; cases "k - 1") auto
  obtain s1 t where turn: "grow_table_turn beyond raw None s (quiet k) = Some (s1, t, quiet j)"
    "regrown s s1" "is_table_next s1 = is_table_next s + 1"
    "t = Grow_Return KERN_SUCCESS True \<or> (t = Grow_Again \<and> is_table_next s1 + 1 < ipc_table_entries_size)"
    unfolding k by (rule grow_turn_spec [OF less.prems(1-4)])
  show ?case
  proof (cases "t = Grow_Again")
    case True
    have s1: "space_ok {} s1" "is_active s1" "\<not> is_growing s1"
      using turn(2) by (simp_all add: regrown_def)
    have more: "ipc_table_entries_size - is_table_next s1 < ipc_table_entries_size - is_table_next s"
      "is_table_next s1 + 1 < ipc_table_entries_size" "2 * (ipc_table_entries_size - is_table_next s1) \<le> j"
      "ipc_table_entries_size - is_table_next s1 \<le> f"
      using True turn(3,4) less.prems(4-6) f k by auto
    obtain s' k' where "ipc_entry_grow_table f beyond raw None s1 (quiet j) = Some (s', KERN_SUCCESS, True, quiet k')"
      "regrown s1 s'" "is_table_next s1 < is_table_next s'" "k' + 2 * is_table_next s' = j + 2 * is_table_next s1"
      using less.hyps [OF more(1) s1 more(2-4)] by blast
    then show ?thesis
      using True turn(1,3) regrown_trans [OF turn(2)] f k by auto
  next
    case False
    then show ?thesis
      using turn f k by auto
  qed
qed


lemma grow_quiet:
  assumes "space_ok {} s" and "is_active s" and "\<not> is_growing s" and "is_table_next s + 1 < ipc_table_entries_size"
    and "2 * (ipc_table_entries_size - is_table_next s) \<le> k"
  obtains s' k' where "ipc_entry_grow_table (length (quiet k) + 1) beyond raw None s (quiet k) = Some (s', KERN_SUCCESS, True, quiet k')"
    and "regrown s s'" and "is_table_next s < is_table_next s'" and "k' + 2 * is_table_next s' = k + 2 * is_table_next s"
proof -
  have "ipc_table_entries_size - is_table_next s \<le> length (quiet k) + 1"
    using assms(5) by (simp add: quiet_def)
  from grow_table_spec [OF assms this] show thesis
    using that by blast
qed

lemma grow_table_largest:
  assumes "space_ok {} s" and "is_active s" and "\<not> is_growing s" and "is_table_next s + 1 = ipc_table_entries_size"
  shows "ipc_entry_grow_table (Suc fuel) beyond raw None s ws = Some (s, KERN_NO_SPACE, False, ws)"
proof -
  have "0 < is_table_next s"
    using space_okD(7) [OF assms(1)] by (simp add: sizes_of_def)
  then have "its_size (is_table_next s - 1) = its_size (is_table_next s)"
    using its_sizes(4) [of "is_table_next s"] assms(4) by simp
  then show ?thesis
    using assms(2,3) by (simp add: grow_table_turn_def Let_def)
qed

section \<open>Allocating undisturbed\<close>

text \<open>What \<open>ipc_entry_alloc\<close> returns: a fresh name, or that the largest table is full.\<close>

definition alloc_ok ::
  "ipc_space \<Rightarrow> ipc_space \<Rightarrow> kern_return + mach_port_name \<times> ipc_entry_ref \<Rightarrow> bool" where
  "alloc_ok s s' r \<longleftrightarrow>
     (case r of
       Inr (n, e) \<Rightarrow> MACH_PORT_VALID n \<and> newly s n s' e
     | Inl kr \<Rightarrow> kr = KERN_NO_SPACE \<and> space_ok {} s' \<and> space_map s' = space_map s \<and>
         is_table_next s' + 1 = ipc_table_entries_size \<and> free_slots {} (is_table s') = {})"

lemma entry_alloc_loop:
  assumes "space_ok {} s" and "is_active s" and "\<not> is_growing s"
    and "2 * (ipc_table_entries_size - is_table_next s) \<le> k" and "ipc_table_entries_size - is_table_next s < fuel"
  shows "\<exists>s' r k'. ipc_entry_alloc fuel beyond raw s (quiet k) = Some (s', r, quiet k') \<and> alloc_ok s s' r"
  using assms
proof (induction "ipc_table_entries_size - is_table_next s" arbitrary: s k fuel rule: less_induct)
  case less
  then obtain f where f: "fuel = Suc f"
    by (cases fuel) auto
  have nxt: "is_table_next s < ipc_table_entries_size"
    using space_okD(7) [OF less.prems(1)] by (simp add: sizes_of_def)
  from entry_get_spec [OF less.prems(1,2)] show ?case
  proof (elim disjE conjE exE)
    fix s' n
    assume "ipc_entry_get s = Some (s', Inr (n, In_Table (name_index n)))" "space_ok (insert n {}) s'"
      "space_map s' = space_map s" "space_map s n = None" "MACH_PORT_VALID n"
      "entry_of s' (In_Table (name_index n)) = Some \<lparr>ie_object = None, ie_bits = MACH_PORT_GEN n, ie_request = 0\<rparr>"
    then show ?thesis
      using f less.prems(2) pure_gen(1) [OF port_gen_gen] by (auto simp: alloc_ok_def newly_def blank_def)
  next
    assume full: "ipc_entry_get s = Some (s, Inl KERN_NO_SPACE)" "free_slots {} (is_table s) = {}"
    show ?thesis
    proof (cases "is_table_next s + 1 < ipc_table_entries_size")
      case True
      obtain s1 k1 where g: "ipc_entry_grow_table (length (quiet k) + 1) beyond raw None s (quiet k) = Some (s1, KERN_SUCCESS, True, quiet k1)"
        "regrown s s1" "is_table_next s < is_table_next s1" "k1 + 2 * is_table_next s1 = k + 2 * is_table_next s"
        by (rule grow_quiet [OF less.prems(1-3) True less.prems(4)])
      have s1: "space_ok {} s1" "is_active s1" "\<not> is_growing s1" "space_map s1 = space_map s"
        using g(2) by (simp_all add: regrown_def)
      have more: "ipc_table_entries_size - is_table_next s1 < ipc_table_entries_size - is_table_next s"
        "2 * (ipc_table_entries_size - is_table_next s1) \<le> k1" "ipc_table_entries_size - is_table_next s1 < f"
        using g(3,4) less.prems(4,5) nxt f by auto
      obtain s' r k' where "ipc_entry_alloc f beyond raw s1 (quiet k1) = Some (s', r, quiet k')" "alloc_ok s1 s' r"
        using less.hyps [OF more(1) s1(1-3) more(2,3)] by blast
      moreover from this(2) have "alloc_ok s s' r"
        using s1(4) by (simp add: alloc_ok_def newly_def split: sum.splits prod.splits)
      ultimately show ?thesis
        using f less.prems(2) full(1) g(1) by (auto simp del: ipc_entry_grow_table.simps)
    next
      case False
      then have last: "is_table_next s + 1 = ipc_table_entries_size"
        using nxt by simp
      then show ?thesis
        using f less.prems full grow_table_largest [OF less.prems(1-3) last]
        by (auto simp: alloc_ok_def simp del: ipc_entry_grow_table.simps)
    qed
  qed
qed

definition alloc_name_ok :: "ipc_space \<Rightarrow> mach_port_name \<Rightarrow> ipc_space \<Rightarrow> kern_return + ipc_entry_ref \<Rightarrow> bool" where
  "alloc_name_ok s n s' r \<longleftrightarrow>
     (case r of
       Inr e \<Rightarrow>
         if space_map s n = None then newly s n s' e
         else space_ok {} s' \<and> space_map s' = space_map s \<and> map_option right_of (entry_of s' e) = space_map s n
     | Inl kr \<Rightarrow> kr = KERN_FAILURE \<and> is_fast s \<and> space_ok {} s' \<and> space_map s' = space_map s)"

lemma alloc_name_ok_cong:
  "alloc_name_ok s1 n s' r \<Longrightarrow> space_map s1 = space_map s \<Longrightarrow> is_fast s1 = is_fast s \<Longrightarrow> alloc_name_ok s n s' r"
  by (cases r) (auto simp: alloc_name_ok_def newly_def)

lemma turn_done:
  assumes "space_ok {} s" and "ipc_entry_alloc_name_turn s n tentry = Some (s', t)" and "turn_ok s n tentry s' t"
    and "MACH_PORT_VALID n" and "t \<noteq> Grow_Table" and "t \<noteq> Need_Tree_Entry"
  shows "\<exists>r. ipc_entry_alloc_name (Suc fuel) beyond raw s n tentry ws = Some (s', r, ws) \<and> alloc_name_ok s n s' r"
  using assms by (cases t) (auto simp: asserting_def turn_ok_def alloc_name_ok_def)

lemma wants_table_tree [simp]: "wants_table (s\<lparr>is_tree := tree\<rparr>) n = wants_table s n"
  by (simp add: wants_table_def)

text \<open>A space that wants no larger table: the name is found, or has a place after one more turn.\<close>

lemma alloc_name_placed:
  assumes "space_ok {} s" and "is_active s" and "MACH_PORT_VALID n" and "0 < name_index n" and "\<not> wants_table s n"
  shows "\<exists>s' r k'. ipc_entry_alloc_name (Suc (Suc fuel)) beyond raw s n False (quiet (Suc k)) = Some (s', r, quiet k') \<and>
    alloc_name_ok s n s' r"
proof -
  obtain s1 t where t: "ipc_entry_alloc_name_turn s n False = Some (s1, t)" "turn_ok s n False s1 t"
    using alloc_name_turn_spec [OF assms(1-4), of False] by blast
  show ?thesis
  proof (cases "t = Need_Tree_Entry")
    case True
    then have s1: "space_ok {} s1" "space_map s1 = space_map s" "space_map s n = None" "\<not> is_fast s"
      and "\<exists>tree. s1 = s\<lparr>is_tree := tree\<rparr>"
      using t(2) by (simp_all add: turn_ok_def)
    then obtain tree where tree: "s1 = s\<lparr>is_tree := tree\<rparr>"
      by blast
    have slot: "slot_map (is_table s1) n = None"
      using s1(3) tree by (auto simp: space_map_def split: option.splits)
    obtain s2 t2 where t2: "ipc_entry_alloc_name_turn s1 n True = Some (s2, t2)" "turn_ok s1 n True s2 t2"
      using alloc_name_turn_spec [OF s1(1) _ assms(3,4), of True] slot s1(4) assms(2) tree by auto
    have "t2 \<noteq> Grow_Table" "t2 \<noteq> Need_Tree_Entry"
      using t2(2) assms(5) tree by (auto simp: turn_ok_def)
    then obtain r where "ipc_entry_alloc_name (Suc fuel) beyond raw s1 n True (quiet k) = Some (s2, r, quiet k)"
      "alloc_name_ok s1 n s2 r"
      using turn_done [OF s1(1) t2 assms(3)] by blast
    moreover from this(2) have "alloc_name_ok s n s2 r"
      by (rule alloc_name_ok_cong) (use s1(2) tree in simp_all)
    ultimately show ?thesis
      using t(1) True assms(3) by (subst ipc_entry_alloc_name.simps)
        (auto simp: asserting_def quiet_Suc simp del: ipc_entry_grow_table.simps ipc_entry_alloc_name.simps)
  next
    case False
    moreover have "t \<noteq> Grow_Table"
      using t(2) assms(5) by (auto simp: turn_ok_def)
    ultimately show ?thesis
      using turn_done [OF assms(1) t assms(3)] by blast
  qed
qed

lemma entry_alloc_name_loop:
  assumes "space_ok {} s" and "is_active s" and "\<not> is_growing s" and "MACH_PORT_VALID n" and "0 < name_index n"
    and "2 * ipc_table_entries_size \<le> k"
  shows "\<exists>s' r k'. ipc_entry_alloc_name (Suc (Suc (Suc fuel))) beyond raw s n False (quiet k) = Some (s', r, quiet k') \<and>
    alloc_name_ok s n s' r"
proof (cases "wants_table s n")
  case True
  obtain s1 t where t: "ipc_entry_alloc_name_turn s n False = Some (s1, t)" "turn_ok s n False s1 t"
    using alloc_name_turn_spec [OF assms(1,2,4,5), of False] by blast
  show ?thesis
  proof (cases "t = Grow_Table")
    case grow: True
    then have s1: "space_ok {} s1" "space_map s1 = space_map s" and "\<exists>tree. s1 = s\<lparr>is_tree := tree\<rparr>"
      using t(2) by (simp_all add: turn_ok_def)
    then obtain tree where tree: "s1 = s\<lparr>is_tree := tree\<rparr>"
      by blast
    have nxt: "0 < is_table_next s" "is_table_next s < ipc_table_entries_size" "is_table_size s = its_size (is_table_next s - 1)"
      using space_okD(7) [OF assms(1)] by (simp_all add: sizes_of_def)
    then have more: "is_table_next s1 + 1 < ipc_table_entries_size"
      using True its_sizes(4) [OF nxt(1,2)] tree by (auto simp: wants_table_def)
    have grow_s1: "is_active s1" "\<not> is_growing s1" "2 * (ipc_table_entries_size - is_table_next s1) \<le> k"
      using assms(2,3,6) tree by simp_all
    obtain s2 k2 where g: "ipc_entry_grow_table (length (quiet k) + 1) beyond raw None s1 (quiet k) = Some (s2, KERN_SUCCESS, True, quiet k2)"
      "regrown s1 s2" "is_table_next s1 < is_table_next s2" "k2 + 2 * is_table_next s2 = k + 2 * is_table_next s1"
      by (rule grow_quiet [OF s1(1) grow_s1(1,2) more grow_s1(3)])
    have s2: "space_ok {} s2" "is_active s2" "space_map s2 = space_map s" "is_fast s2 = is_fast s"
      "name_index n < is_table_size s2" "is_table_next s2 < ipc_table_entries_size"
      using g(2) s1(2) tree True space_okD(7) [of "{}" s2]
      by (auto simp: regrown_def wants_table_def sizes_of_def)
    have "\<not> wants_table s2 n" "k2 \<noteq> 0"
      using s2(5,6) g(4) assms(6) more by (auto simp: wants_table_def)
    then obtain k3 where "k2 = Suc k3"
      using not0_implies_Suc by blast
    with alloc_name_placed [OF s2(1,2) assms(4,5) \<open>\<not> wants_table s2 n\<close>] obtain s' r k'
      where "ipc_entry_alloc_name (Suc (Suc fuel)) beyond raw s2 n False (quiet k2) = Some (s', r, quiet k')"
      "alloc_name_ok s2 n s' r"
      by blast
    moreover from this(2) have "alloc_name_ok s n s' r"
      by (rule alloc_name_ok_cong) (use s2(3,4) in simp_all)
    ultimately show ?thesis
      using t(1) grow assms(4) g(1) by (subst ipc_entry_alloc_name.simps)
        (auto simp: asserting_def simp del: ipc_entry_grow_table.simps ipc_entry_alloc_name.simps)
  next
    case False
    moreover have "t \<noteq> Need_Tree_Entry"
      using t(2) True by (auto simp: turn_ok_def)
    ultimately show ?thesis
      using turn_done [OF assms(1) t assms(4)] by blast
  qed
next
  case False
  have "0 < k"
    using assms(6) by (simp add: ipc_table_entries_size_def)
  then obtain j where "k = Suc j"
    using gr0_implies_Suc by blast
  then show ?thesis
    using alloc_name_placed [OF assms(1,2,4,5) False] by blast
qed


section \<open>Properties\<close>

text \<open>A fresh space with a table of the second smallest size, for the witnesses.\<close>

definition sample_space :: ipc_space where
  "sample_space = ipc_space_create 1 False \<lparr>ist_name = 0, ist_root = ITE_NULL, ist_left = [], ist_right = []\<rparr>"

lemma sample_ok: "space_ok {} sample_space" "is_active sample_space" "\<not> is_growing sample_space"
  "\<not> is_fast sample_space" "space_map sample_space n = None" "is_table_next sample_space = 2"
  using space_create_ok [of 1]
  by (simp_all add: sample_space_def ipc_table_entries_size_def) (simp_all add: ipc_space_create_def Let_def)

lemma sample_free: "free_slots {} (is_table sample_space) \<noteq> {}"
proof -
  have "1 < its_size 1"
    using its_sizes [of 1] by (simp add: ipc_table_entries_size_def)
  then have "1 \<in> free_slots {} (is_table sample_space)"
    using space_create_table [of 1] 
    by (simp add: sample_space_def free_slots_def ipc_table_entries_size_def unused_def IE_BITS_TYPE_def)
  then show ?thesis
    by blast
qed

lemma sample_get:
  obtains s1 n where "ipc_entry_get sample_space = Some (s1, Inr (n, In_Table (name_index n)))"
    and "space_ok {n} s1" and "is_active s1" and "names_entry {n} s1 n (In_Table (name_index n))"
    and "entry_of s1 (In_Table (name_index n)) = Some \<lparr>ie_object = None, ie_bits = MACH_PORT_GEN n, ie_request = 0\<rparr>"
proof -
  obtain s1 n where g: "ipc_entry_get sample_space = Some (s1, Inr (n, In_Table (name_index n)))"
    "space_ok {n} s1" "name_index n \<in> free_slots {} (is_table sample_space)"
    "entry_of s1 (In_Table (name_index n)) = Some \<lparr>ie_object = None, ie_bits = MACH_PORT_GEN n, ie_request = 0\<rparr>"
    "\<exists>t. s1 = sample_space\<lparr>is_table := t\<rparr>"
    using entry_get_spec [OF sample_ok(1,2)] sample_free by auto
  have "is_active s1"
    using g(5) sample_ok(2) by auto
  moreover have "names_entry {n} s1 n (In_Table (name_index n))"
    using g(3,4) pure_gen(2) [OF port_gen_gen]
    by (auto simp: names_entry_def entry_of_def entry_at_def free_slots_def split: if_splits)
  ultimately show thesis
    using that g(1,2,4) by blast
qed

text \<open>C19. In a well-formed space \<open>ipc_entry_lookup\<close> (for a fast space, of a name whose index the table
  has) fails no assertion, changes nothing but the shape of the tree, and returns an entry exactly for
  the names of the map, with the right that the map has for the name.\<close>

theorem ipc_entry_lookup_correct:
  assumes "space_ok pend s" and "is_active s" and "is_fast s \<Longrightarrow> name_index name < is_table_size s"
  shows "\<exists>s' r. ipc_entry_lookup s name = Some (s', r) \<and> space_ok pend s' \<and> space_map s' = space_map s \<and>
    (r = None \<longleftrightarrow> space_map s name = None) \<and> map_option right_of (Option.bind r (entry_of s')) = space_map s name"
proof -
  obtain s' r tree where l: "ipc_entry_lookup s name = Some (s', r)" "s' = s\<lparr>is_tree := tree\<rparr>" "splay_ok tree"
    "splay_entries tree = tree_entries s" "map_option right_of (Option.bind r (entry_of s')) = space_map s name"
    using entry_lookup_spec [OF assms] by blast
  have "space_map s name \<noteq> None" if "r \<noteq> None"
  proof (cases "slot_map (is_table s) name")
    case None
    then have look: "tree_lookup s name = (s', r)"
      using l(1) that entry_lookup_cases [OF assms] by (simp split: if_splits)
    have "r = None" if "tree_map (tree_entries s) name = None"
      using tree_lookup_spec(6) [OF assms(1) look] that by simp
    then show ?thesis
      using None that unfolding space_map_def by fastforce
  qed (simp add: space_map_def)
  then have "r = None \<longleftrightarrow> space_map s name = None"
    using l(5) by (cases r) auto
  then show ?thesis
    using l retree_ok [OF assms(1) l(3,4)] by auto
qed

theorem ipc_entry_lookup_correct_witness: "\<exists>s'. ipc_entry_lookup sample_space 0x103 = Some (s', None)"
  using ipc_entry_lookup_correct [OF sample_ok(1,2), where name = "0x103"] sample_ok(4,5) by auto

text \<open>\<open>ipc_entry_get\<close> finds the table full, or takes an element off the free list: the new name is
  valid, meant nothing before, has the element's next generation, and its entry is blank; the invariant
  holds with the name pending, and no other name is affected.\<close>

theorem ipc_entry_get_fresh:
  assumes "space_ok pend s" and "is_active s"
  shows "(ipc_entry_get s = Some (s, Inl KERN_NO_SPACE) \<and> free_slots pend (is_table s) = {}) \<or>
    (\<exists>s' n. ipc_entry_get s = Some (s', Inr (n, In_Table (name_index n))) \<and>
       space_ok (insert n pend) s' \<and> space_map s' = space_map s \<and> space_map s n = None \<and> MACH_PORT_VALID n \<and>
       name_index n \<in> free_slots pend (is_table s) \<and>
       MACH_PORT_GEN n = IE_BITS_NEW_GEN (ie_bits (is_table s ! name_index n)) \<and>
       entry_of s' (In_Table (name_index n)) =
         Some \<lparr>ie_object = None, ie_bits = MACH_PORT_GEN n, ie_request = 0\<rparr>)"
  using entry_get_spec [OF assms] by metis

theorem ipc_entry_get_fresh_witness:
  "\<exists>s' n. ipc_entry_get sample_space = Some (s', Inr (n, In_Table (name_index n))) \<and> space_ok {n} s' \<and>
    MACH_PORT_VALID n"
  using ipc_entry_get_fresh [OF sample_ok(1,2)] sample_free by auto

text \<open>C20. \<open>ipc_entry_alloc\<close>, undisturbed and with memory to allocate, returns after at most as many
  rounds as there are larger table sizes: with a valid fresh name and a blank entry, or with
  \<open>KERN_NO_SPACE\<close> when the table has its largest size and no free element.  Growing on the way keeps
  what every name means.\<close>

theorem ipc_entry_alloc_undisturbed:
  assumes "space_ok {} s" and "is_active s" and "\<not> is_growing s"
    and "2 * (ipc_table_entries_size - is_table_next s) \<le> k" and "ipc_table_entries_size - is_table_next s < fuel"
  shows "\<exists>s' r k'. ipc_entry_alloc fuel beyond raw s (quiet k) = Some (s', r, quiet k') \<and> alloc_ok s s' r"
  by (rule entry_alloc_loop [OF assms])

theorem ipc_entry_alloc_undisturbed_witness:
  "\<exists>s' r k'. ipc_entry_alloc 512 0 (is_tree sample_space) sample_space (quiet 1024) = Some (s', r, quiet k') \<and>
    alloc_ok sample_space s' r"
  using ipc_entry_alloc_undisturbed [OF sample_ok(1-3), of 1024 512] sample_ok(6)
  by (simp add: ipc_table_entries_size_def)

text \<open>\<open>ipc_entry_alloc_name\<close>, undisturbed and with memory to allocate, of a valid name whose index is
  not zero: it returns the name's entry when the name means something, otherwise a blank entry in the
  table or in the tree with everything else unchanged; only a fast space may refuse.  Three turns are
  enough: growing the table, allocating a tree entry, placing the entry.\<close>

theorem ipc_entry_alloc_name_undisturbed:
  assumes "space_ok {} s" and "is_active s" and "\<not> is_growing s" and "MACH_PORT_VALID n" and "0 < name_index n"
    and "2 * ipc_table_entries_size \<le> k" and "3 \<le> fuel"
  shows "\<exists>s' r k'. ipc_entry_alloc_name fuel beyond raw s n False (quiet k) = Some (s', r, quiet k') \<and>
    alloc_name_ok s n s' r"
proof -
  have "fuel = Suc (Suc (Suc (fuel - 3)))"
    using assms(7) by simp
  then show ?thesis
    using entry_alloc_name_loop [OF assms(1-6)] by metis
qed

theorem ipc_entry_alloc_name_undisturbed_witness:
  "\<exists>s' r k'. ipc_entry_alloc_name 3 0 (is_tree sample_space) sample_space 0x70000003 False (quiet 1024) =
      Some (s', r, quiet k') \<and> alloc_name_ok sample_space 0x70000003 s' r"
  by (rule ipc_entry_alloc_name_undisturbed [OF sample_ok(1-3)])
    (simp_all add: ipc_table_entries_size_def MACH_PORT_VALID_def name_index_div)

text \<open>C21. \<open>ipc_entry_dealloc\<close> of an entry whose object and request were removed fails no assertion and
  takes exactly the name out of the map, wherever the entry is: in the table, in the tree, or in the table
  with other names of the same index in the tree, one of which then moves to the table.\<close>

theorem ipc_entry_dealloc_removes:
  assumes "space_ok pend s" and "pend \<subseteq> {n}" and "is_active s" and "names_entry pend s n r"
    and "entry_of s r = Some e" and "ie_object e = None" and "ie_request e = 0"
  shows "\<exists>s'. ipc_entry_dealloc raw s n r = Some s' \<and> space_ok {} s' \<and> space_map s' = (space_map s)(n := None)"
  by (rule entry_dealloc_spec [OF assms])

theorem ipc_entry_dealloc_removes_witness:
  "\<exists>s1 n r s2. ipc_entry_get sample_space = Some (s1, Inr (n, r)) \<and>
     ipc_entry_dealloc (is_tree sample_space) s1 n r = Some s2 \<and> space_ok {} s2"
proof (rule sample_get)
  fix s1 n
  assume g: "ipc_entry_get sample_space = Some (s1, Inr (n, In_Table (name_index n)))"
    "space_ok {n} s1" "is_active s1" "names_entry {n} s1 n (In_Table (name_index n))"
    "entry_of s1 (In_Table (name_index n)) = Some \<lparr>ie_object = None, ie_bits = MACH_PORT_GEN n, ie_request = 0\<rparr>"
  from ipc_entry_dealloc_removes [OF g(2) subset_refl g(3-5)] show ?thesis
    using g(1) by auto
qed

text \<open>C22. The table that \<open>ipc_entry_grow_table\<close> installs has the next size and stands for the same map:
  of the tree's names whose indices the table gains, one of each index moves to the table and the others
  stay as its collisions, the new elements that remain unused join the free list, and the counts of the
  tree are those of the tree that is left.\<close>

theorem grow_install_same_map:
  assumes "space_ok {} s" and "is_table_next s + 1 < ipc_table_entries_size"
  defines "nits \<equiv> is_table_next s + 1"
  shows "\<exists>s'. grow_install raw (is_table_size s) (its_size (nits - 1)) nits (its_size nits) s = Some s' \<and>
    space_ok {} s' \<and> space_map s' = space_map s \<and> is_table_next s' = nits \<and> is_table_size s < is_table_size s'"
proof -
  let ?next = "is_table_next s"
  have nx: "0 < ?next" "?next < ipc_table_entries_size" and size: "is_table_size s = its_size (?next - 1)"
    using space_okD(7) [OF assms(1)] by (simp_all add: sizes_of_def)
  have lt: "its_size (?next - 1) < its_size ?next" "its_size ?next \<le> its_size nits" "its_size nits < 2 ^ 24"
    using its_sizes [of ?next] its_sizes [of nits] nx assms(2) by (simp_all add: nits_def)
  show ?thesis
    by (rule grow_install_spec [OF assms(1), of "its_size (nits - 1)" "its_size nits" nits raw])
      (use lt size assms(2) in \<open>simp_all add: nits_def\<close>)
qed

theorem grow_install_same_map_witness:
  "\<exists>s'. grow_install (is_tree sample_space) (is_table_size sample_space) (its_size 2) 3 (its_size 3) sample_space = Some s' \<and>
    space_ok {} s' \<and> is_table_next s' = 3 \<and> is_table_size sample_space < is_table_size s'"
  using grow_install_same_map [OF sample_ok(1), of "is_tree sample_space"] unfolding sample_ok(6)
  by (auto simp: ipc_table_entries_size_def)

text \<open>The search of \<open>ipc_entry_grow_table\<close> for a target size ends inside the array, with the first
  size from the current one that reaches the target, or at the last size, which it recognises by its
  being equal to the one before.\<close>

theorem its_search_first:
  assumes "0 < its" and "its < ipc_table_entries_size"
  shows "\<exists>j psize. its_search target (its_size (its - 1)) its = Some (psize, j) \<and> its \<le> j \<and>
    j < ipc_table_entries_size \<and> (psize = its_size j \<longleftrightarrow> j + 1 = ipc_table_entries_size) \<and>
    (psize = its_size j \<or> target \<le> its_size j) \<and> (\<forall>k. its \<le> k \<and> k < j \<longrightarrow> its_size k < target)"
proof (rule its_search_spec [OF assms refl, of target])
  fix j
  assume j: "its_search target (its_size (its - 1)) its = Some (its_size (j - 1), j)" "its \<le> j"
    "j < ipc_table_entries_size" "j + 1 = ipc_table_entries_size \<or> target \<le> its_size j"
    "\<forall>k. its \<le> k \<and> k < j \<longrightarrow> its_size k < target"
  have "its_size (j - 1) = its_size j \<longleftrightarrow> j + 1 = ipc_table_entries_size"
    using its_sizes(4) [of j] j(2,3) assms(1) by simp
  then show ?thesis
    using j by blast
qed

theorem its_search_first_witness:
  "\<exists>j psize. its_search 1000000000 (its_size 0) 1 = Some (psize, j) \<and> j < ipc_table_entries_size"
  using its_search_first [of 1 1000000000] by (auto simp: ipc_table_entries_size_def)

lemma entry_get_first:
  assumes "ipc_entry_get s = Some (s', Inr (n, In_Table j))"
  shows "j = ie_next (is_table s ! 0)"
  using assms by (auto simp: ipc_entry_get_def entry_at_def asserting_def Let_def split: if_splits Option.bind_splits)

text \<open>A name that was deallocated does not come back with the next allocation, although the same
  element of the table does: the free list is a stack, and the generation in the name differs.\<close>

theorem stale_name_differs:
  assumes "space_ok pend s" and "pend \<subseteq> {n}" and "is_active s" and "names_entry pend s n (In_Table i)"
    and "is_table s ! i = \<lparr>ie_object = None, ie_bits = b, ie_request = 0\<rparr>" and "b AND IE_BITS_COLLISION = 0"
  shows "\<exists>s1 s2 m. ipc_entry_dealloc raw s n (In_Table i) = Some s1 \<and>
    ipc_entry_get s1 = Some (s2, Inr (m, In_Table i)) \<and> name_index m = name_index n \<and> m \<noteq> n \<and>
    space_map s2 n = None"
proof -
  let ?t = "is_table s" and ?s1 = "s\<lparr>is_table := freed (is_table s) i\<rparr>"
  have i: "i = name_index n" "0 < i" "i < length ?t" "IE_BITS_GEN b = MACH_PORT_GEN n"
    using assms(4,5) by (auto simp: names_entry_def)
  have none: "pend - {n} = {}"
    using assms(2) by blast
  have s1: "space_ok {} ?s1" "space_map ?s1 = (space_map s)(n := None)"
    using freed_ok [OF assms(1,4), unfolded none] assms(5,6) by simp_all
  have dealloc: "ipc_entry_dealloc raw s n (In_Table i) = Some ?s1"
    using assms(3,5,6) i free_slot_freed [OF i(2,3)]
    by (simp add: ipc_entry_dealloc_def asserting_def name_index_def [symmetric] Let_def entry_of_def entry_at_def)
  have len: "i < 2 ^ 24"
    using i(1) name_index_less by simp
  have head: "ie_next (is_table ?s1 ! 0) = i"
    using freed_nth(3) [OF i(2,3)] len by (simp add: unat_of_nat_u32)
  have "unused (is_table ?s1) i"
    using freed_nth(2) [OF i(2,3)] by (simp add: unused_def)
  then have "i \<in> free_slots {} (is_table ?s1)"
    using i(2,3) freed_nth(1) [OF i(2,3)] by (simp add: free_slots_def)
  then obtain s2 m where g: "ipc_entry_get ?s1 = Some (s2, Inr (m, In_Table (name_index m)))"
    "space_map s2 = space_map ?s1" "MACH_PORT_GEN m = IE_BITS_NEW_GEN (ie_bits (is_table ?s1 ! name_index m))"
    using entry_get_spec [OF s1(1)] assms(3) by auto
  have m: "name_index m = i"
    using entry_get_first [OF g(1)] head by simp
  have "IE_BITS_GEN (ie_bits (is_table ?s1 ! i)) = MACH_PORT_GEN n"
    using freed_nth(2) [OF i(2,3)] assms(5) i(4) by simp
  then have "MACH_PORT_GEN m \<noteq> MACH_PORT_GEN n"
    using g(3) m new_gen_differs by metis
  then have "m \<noteq> n"
    by blast
  then show ?thesis
    using dealloc g(1,2) m s1(2) i(1) by auto
qed

theorem stale_name_differs_witness:
  "\<exists>s1 n s2 s3 m. ipc_entry_get sample_space = Some (s1, Inr (n, In_Table (name_index n))) \<and>
     ipc_entry_dealloc (is_tree sample_space) s1 n (In_Table (name_index n)) = Some s2 \<and>
     ipc_entry_get s2 = Some (s3, Inr (m, In_Table (name_index n))) \<and> m \<noteq> n"
proof -
  obtain s1 n where g: "ipc_entry_get sample_space = Some (s1, Inr (n, In_Table (name_index n)))"
    "space_ok {n} s1" "is_active s1" "names_entry {n} s1 n (In_Table (name_index n))"
    "entry_of s1 (In_Table (name_index n)) = Some \<lparr>ie_object = None, ie_bits = MACH_PORT_GEN n, ie_request = 0\<rparr>"
    by (rule sample_get)
  then have "is_table s1 ! name_index n = \<lparr>ie_object = None, ie_bits = MACH_PORT_GEN n, ie_request = 0\<rparr>"
    by (auto simp: entry_of_def entry_at_def split: if_splits)
  from stale_name_differs [OF g(2) subset_refl g(3,4) this pure_gen(3) [OF port_gen_gen], of "is_tree sample_space"]
  show ?thesis
    using g(1) by blast
qed

text \<open>\<open>ipc_entry_alloc_name\<close> of a valid name with the index zero fails the assertion that the first
  element of the table has no generation: \<open>ipc_space_create\<close> gives it all generation bits.\<close>

theorem ipc_alloc_name_index0:
  assumes "initial + 1 < ipc_table_entries_size" and "MACH_PORT_VALID n" and "name_index n = 0"
  shows "ipc_entry_alloc_name (Suc fuel) beyond raw (ipc_space_create initial fast raw') n False ws = None"
proof -
  let ?s = "ipc_space_create initial fast raw'"
  have "is_table ?s ! 0 = \<lparr>ie_object = None, ie_bits = IE_BITS_GEN_MASK,
      ie_request = (if its_size initial = 1 then 0 else 1)\<rparr>" "0 < is_table_size ?s"
    using space_create_table [OF assms(1)] by simp_all
  then have "ipc_entry_alloc_name_turn ?s n False = None"
    using assms(3) space_create_ok(2) [OF assms(1)]
    by (simp add: ipc_entry_alloc_name_turn_def name_index_def [symmetric] asserting_def Let_def
        IE_BITS_TYPE_def IE_BITS_GEN_def)
  then show ?thesis
    using assms(2) by (simp add: asserting_def)
qed

theorem ipc_alloc_name_index0_witness:
  "ipc_entry_alloc_name 1 0 (is_tree sample_space)
     (ipc_space_create 0 False (is_tree sample_space)) 0x17 False [] = None"
  unfolding One_nat_def
  by (rule ipc_alloc_name_index0) (simp_all add: ipc_table_entries_size_def MACH_PORT_VALID_def name_index_div)

end
