(* ===== verification/Ipc_Port.thy ===== *)
theory Ipc_Port
  imports Ipc_Entry
begin

text \<open>
  Ports, osfmk/ipc/ipc_port.c with the macros of ipc_port.h and ipc_object.h: the counts of rights and
  references, the table of dead-name requests, the chain of ports in transit, and the destruction of a
  port.  Ports are addresses in a store.  \<open>None\<close> is a failed assertion or an access outside a table; calls
  out of the modelled files (notification messages, message queues, port sets) are recorded in order.
  A port is locked from the start of each operation to its end, except at the \<open>other\<close> arguments.
\<close>

section \<open>Ports and their store\<close>

text \<open>\<open>notify\<close> of a request: the union of the next free index and the send-once right.\<close>

datatype ipr_notify = ipr_next nat | ipr_soright nat

record ipc_port_request =
  ipr_notify :: ipr_notify
  ipr_name :: mach_port_name

text \<open>A table: its address, the header's \<open>ipr_next\<close> and \<open>ipr_size\<close> (an index into
  \<open>ipc_table_dnrequests\<close>), and the elements, of which the one with index 0 is the header's place.\<close>

record request_table =
  table_addr :: nat
  head_next :: nat
  ipr_size :: nat
  requests :: "ipc_port_request list"

datatype ip_data = ip_receiver nat | ip_destination "nat option" | ip_timestamp u32

record ipc_port =
  ip_active :: bool
  ip_references :: u32
  ip_receiver_name :: mach_port_name
  ip_data :: ip_data
  ip_kobject :: nat
  ip_subsystem :: "nat option"
  ip_mscount :: u32
  ip_srights :: u32
  ip_sorights :: u32
  ip_nsrequest :: "nat option"
  ip_pdrequest :: "nat option"
  ip_dnrequests :: "request_table option"
  ip_pset_count :: u32
  imq_seqno :: u32
  ip_premsg :: "nat option"

datatype ipc_call =
    ipc_notify_dead_name nat mach_port_name
  | ipc_notify_port_deleted nat mach_port_name
  | ipc_notify_port_destroyed nat nat
  | ipc_notify_no_senders nat u32
  | ipc_notify_send_once nat
  | io_free nat
  | ipc_pset_remove_all nat
  | ipc_pset_destroy nat
  | ipc_mqueue_changed nat
  | ipc_mqueue_destroy nat
  | ipc_kobject_destroy nat
  | ipc_kmsg_free nat
  | ikm_prealloc_clear_inuse nat nat
  | thread_pool_wakeup nat
  | subsystem_deallocate nat
  | it_dnrequests_free nat

text \<open>\<open>st_kmsg_inuse\<close>: the preallocated messages in use; \<open>st_timestamp\<close>: \<open>ipc_port_timestamp_data\<close>.\<close>

record ipc_state =
  st_ports :: "nat \<Rightarrow> ipc_port"
  st_calls :: "ipc_call list"
  st_kmsg_inuse :: "nat \<Rightarrow> bool"
  st_timestamp :: u32

definition set_port :: "nat \<Rightarrow> ipc_port \<Rightarrow> 'z ipc_state_scheme \<Rightarrow> 'z ipc_state_scheme" where
  "set_port p port st = st\<lparr>st_ports := (st_ports st)(p := port)\<rparr>"

definition calling :: "ipc_call list \<Rightarrow> 'z ipc_state_scheme \<Rightarrow> 'z ipc_state_scheme" where
  "calling cs st = st\<lparr>st_calls := st_calls st @ cs\<rparr>"

abbreviation IO_MAX_REFERENCES :: u32 where "IO_MAX_REFERENCES \<equiv> 0x7fffffff"

definition ip_reference :: "ipc_port \<Rightarrow> ipc_port option" where
  "ip_reference port =
     do { asserting (ip_references port < IO_MAX_REFERENCES);
          Some (port\<lparr>ip_references := ip_references port + 1\<rparr>) }"

definition ip_release :: "ipc_port \<Rightarrow> ipc_port option" where
  "ip_release port =
     do { asserting (0 < ip_references port \<and> ip_references port \<le> IO_MAX_REFERENCES);
          Some (port\<lparr>ip_references := ip_references port - 1\<rparr>) }"

definition ip_check_unlock :: "nat \<Rightarrow> 'z ipc_state_scheme \<Rightarrow> 'z ipc_state_scheme" where
  "ip_check_unlock p st = (if ip_references (st_ports st p) = 0 then calling [io_free p] st else st)"

definition ipc_port_release :: "nat \<Rightarrow> 'z ipc_state_scheme \<Rightarrow> 'z ipc_state_scheme option" where
  "ipc_port_release p st =
     do { port \<leftarrow> ip_release (st_ports st p); Some (ip_check_unlock p (set_port p port st)) }"

section \<open>Dead-name requests\<close>

definition request_at :: "request_table \<Rightarrow> nat \<Rightarrow> ipc_port_request option" where
  "request_at table index =
     (if 0 < index \<and> index < length (requests table) then Some (requests table ! index) else None)"

definition ipc_port_dnrequest ::
  "ipc_port \<Rightarrow> mach_port_name \<Rightarrow> nat \<Rightarrow> (ipc_port \<times> (kern_return + nat)) option" where
  "ipc_port_dnrequest port name soright =
     do {
       asserting (ip_active port);
       asserting (name \<noteq> 0);
       (case ip_dnrequests port of
         None \<Rightarrow> Some (port, Inl KERN_NO_SPACE)
       | Some table \<Rightarrow>
           let index = head_next table in
           if index = 0 then Some (port, Inl KERN_NO_SPACE)
           else do {
             ipr \<leftarrow> request_at table index;
             asserting (ipr_name ipr = 0);
             (case ipr_notify ipr of
               ipr_soright _ \<Rightarrow> None
             | ipr_next free \<Rightarrow>
                 Some (port\<lparr>ip_dnrequests := Some (table\<lparr>head_next := free,
                    requests := (requests table)[index := \<lparr>ipr_notify = ipr_soright soright, ipr_name = name\<rparr>]\<rparr>)\<rparr>,
                   Inr index))
           })
     }"

definition ipc_port_dncancel ::
  "ipc_port \<Rightarrow> mach_port_name \<Rightarrow> nat \<Rightarrow> (ipc_port \<times> nat) option" where
  "ipc_port_dncancel port name index =
     do {
       asserting (ip_active port);
       asserting (name \<noteq> 0);
       asserting (index \<noteq> 0);
       table \<leftarrow> ip_dnrequests port;
       ipr \<leftarrow> request_at table index;
       asserting (ipr_name ipr = name);
       (case ipr_notify ipr of
         ipr_next _ \<Rightarrow> None
       | ipr_soright dnrequest \<Rightarrow>
           Some (port\<lparr>ip_dnrequests := Some (table\<lparr>head_next := index,
               requests := (requests table)[index := \<lparr>ipr_notify = ipr_next (head_next table), ipr_name = 0\<rparr>]\<rparr>)\<rparr>,
             dnrequest))
     }"

definition ipc_port_dnrename ::
  "ipc_port \<Rightarrow> nat \<Rightarrow> mach_port_name \<Rightarrow> mach_port_name \<Rightarrow> ipc_port option" where
  "ipc_port_dnrename port index oname nname =
     do {
       asserting (ip_active port);
       table \<leftarrow> ip_dnrequests port;
       ipr \<leftarrow> request_at table index;
       asserting (ipr_name ipr = oname);
       Some (port\<lparr>ip_dnrequests := Some (table\<lparr>requests := (requests table)[index := ipr\<lparr>ipr_name := nname\<rparr>]\<rparr>)\<rparr>)
     }"

text \<open>The elements a larger table gains: each is the next of the one after it, the first of the old
  free list's head \<open>free\<close>; with them the new head.\<close>

definition dn_new_requests :: "nat \<Rightarrow> nat \<Rightarrow> nat \<Rightarrow> ipc_port_request list \<times> nat" where
  "dn_new_requests osize nsize free =
     (map (\<lambda>i. \<lparr>ipr_notify = ipr_next (if i = osize then free else i - 1), ipr_name = 0\<rparr>) [osize..<nsize],
      if osize < nsize then nsize - 1 else free)"

definition dnr_size :: "nat \<Rightarrow> nat" where "dnr_size its = ipc_table_dnrequests ! its"

text \<open>The sizes end with zero, which stops the search.\<close>

function dn_search :: "nat \<Rightarrow> nat \<Rightarrow> nat option" where
  "dn_search target its =
     (if ipc_table_dnrequests_size \<le> its then None
      else if dnr_size its \<noteq> 0 \<and> dnr_size its < target then dn_search target (its + 1)
      else Some its)"
  by pat_completeness auto
termination
  by (relation "measure (\<lambda>(target, its). ipc_table_dnrequests_size - its)") auto

declare dn_search.simps [simp del]

definition dn_grown :: "request_table option \<Rightarrow> nat \<Rightarrow> nat \<Rightarrow> request_table option" where
  "dn_grown otable its addr =
     (let (osize, free, old) =
        (case otable of
          Some t \<Rightarrow> (dnr_size (ipr_size t), head_next t, take (dnr_size (ipr_size t)) (requests t))
        | None \<Rightarrow> (1, 0, [\<lparr>ipr_notify = ipr_next 0, ipr_name = 0\<rparr>]));
        (new, head) = dn_new_requests osize (dnr_size its) free
      in do {
        asserting (osize < dnr_size its);
        Some \<lparr>table_addr = addr, head_next = head, ipr_size = its, requests = old @ new\<rparr>
      })"

text \<open>Whether the table of the port is still the one (or none) that it was.\<close>

definition same_table :: "request_table option \<Rightarrow> request_table option \<Rightarrow> bool" where
  "same_table t t' \<longleftrightarrow> map_option table_addr t = map_option table_addr t'"

text \<open>The allocation runs with the port unlocked: \<open>other\<close> is what happens to the port meanwhile, \<open>alloc\<close>
  the address of the new table, if there was memory.  The port is unlocked at the end.\<close>

definition ipc_port_dngrow ::
  "nat \<Rightarrow> nat option \<Rightarrow> (ipc_port \<Rightarrow> ipc_port) \<Rightarrow> nat option \<Rightarrow> 'z ipc_state_scheme \<Rightarrow>
   ('z ipc_state_scheme \<times> kern_return) option" where
  "ipc_port_dngrow p target other alloc st =
     (let port = st_ports st p; otable = ip_dnrequests port in do {
        asserting (ip_active port);
        let its0 = (case otable of None \<Rightarrow> 0 | Some t \<Rightarrow> ipr_size t + 1);
        if target \<noteq> None \<and> (case otable of Some t \<Rightarrow> the target \<le> dnr_size (ipr_size t) | None \<Rightarrow> False)
        then Some (st, KERN_SUCCESS)
        else do {
          its \<leftarrow> (case target of None \<Rightarrow> Some its0 | Some n \<Rightarrow> dn_search n its0);
          if target \<noteq> None \<and> dnr_size its = 0 then Some (st, KERN_NO_SPACE)
          else do {
            port1 \<leftarrow> ip_reference port;
            if dnr_size its = 0 \<or> alloc = None then do {
              st' \<leftarrow> ipc_port_release p (set_port p port1 st);
              Some (st', KERN_RESOURCE_SHORTAGE)
            }
            else do {
              port2 \<leftarrow> ip_release (other port1);
              if ip_active port2 \<and> same_table (ip_dnrequests port2) otable \<and>
                 (case ip_dnrequests port2 of Some t \<Rightarrow> ipr_size t + 1 = its | None \<Rightarrow> True)
              then do {
                ntable \<leftarrow> dn_grown (ip_dnrequests port2) its (the alloc);
                Some (calling (case ip_dnrequests port2 of Some t \<Rightarrow> [it_dnrequests_free (ipr_size t)] | None \<Rightarrow> [])
                        (set_port p (port2\<lparr>ip_dnrequests := Some ntable\<rparr>) st), KERN_SUCCESS)
              }
              else Some (calling [it_dnrequests_free its] (ip_check_unlock p (set_port p port2 st)), KERN_SUCCESS)
            }
          }
        }
      })"

fun dnnotify_calls :: "ipc_port_request list \<Rightarrow> ipc_call list option" where
  "dnnotify_calls [] = Some []"
| "dnnotify_calls (ipr # iprs) =
     (if ipr_name ipr = 0 then dnnotify_calls iprs
      else
        case ipr_notify ipr of
          ipr_next _ \<Rightarrow> None
        | ipr_soright s \<Rightarrow> map_option (Cons (ipc_notify_dead_name s (ipr_name ipr))) (dnnotify_calls iprs))"

definition ipc_port_dnnotify :: "request_table \<Rightarrow> ipc_call list option" where
  "ipc_port_dnnotify table =
     (let size = dnr_size (ipr_size table) in do {
        asserting (size \<le> length (requests table));
        cs \<leftarrow> dnnotify_calls (drop 1 (take size (requests table)));
        Some (cs @ [it_dnrequests_free (ipr_size table)])
      })"

section \<open>Counting rights\<close>

definition ipc_port_pdrequest :: "ipc_port \<Rightarrow> nat option \<Rightarrow> (ipc_port \<times> nat option) option" where
  "ipc_port_pdrequest port notify =
     do { asserting (ip_active port); Some (port\<lparr>ip_pdrequest := notify\<rparr>, ip_pdrequest port) }"

definition ipc_port_nsrequest ::
  "nat \<Rightarrow> u32 \<Rightarrow> nat option \<Rightarrow> 'z ipc_state_scheme \<Rightarrow> ('z ipc_state_scheme \<times> nat option) option" where
  "ipc_port_nsrequest p sync notify st =
     (let port = st_ports st p; previous = ip_nsrequest port; mscount = ip_mscount port in do {
        asserting (ip_active port);
        (case notify of
          Some n \<Rightarrow>
            if ip_srights port = 0 \<and> sync \<le> mscount
            then Some (calling [ipc_notify_no_senders n mscount] (set_port p (port\<lparr>ip_nsrequest := None\<rparr>) st), previous)
            else Some (set_port p (port\<lparr>ip_nsrequest := Some n\<rparr>) st, previous)
        | None \<Rightarrow> Some (set_port p (port\<lparr>ip_nsrequest := None\<rparr>) st, previous))
      })"

definition ipc_port_clear_receiver :: "nat \<Rightarrow> 'z ipc_state_scheme \<Rightarrow> 'z ipc_state_scheme option" where
  "ipc_port_clear_receiver p st =
     (let port = st_ports st p in do {
        asserting (ip_active port);
        Some (calling ((if ip_pset_count port \<noteq> 0 then [ipc_pset_remove_all p] else []) @ [ipc_mqueue_changed p])
          (set_port p (port\<lparr>ip_pset_count := 0, ip_mscount := 0, imq_seqno := 0\<rparr>) st))
      })"

text \<open>\<open>self\<close> is the address of the space.\<close>

definition ipc_port_init :: "ipc_port \<Rightarrow> nat \<Rightarrow> mach_port_name \<Rightarrow> ipc_port" where
  "ipc_port_init port self name =
     port\<lparr>ip_data := ip_receiver self, ip_receiver_name := name, ip_mscount := 0, ip_srights := 0,
       ip_sorights := 0, ip_nsrequest := None, ip_pdrequest := None, ip_dnrequests := None,
       ip_pset_count := 0, ip_premsg := None, ip_subsystem := None, imq_seqno := 0\<rparr>"

definition ipc_port_make_send :: "ipc_port \<Rightarrow> ipc_port option" where
  "ipc_port_make_send port =
     do {
       asserting (ip_active port);
       ip_reference (port\<lparr>ip_mscount := ip_mscount port + 1, ip_srights := ip_srights port + 1\<rparr>)
     }"

text \<open>The second component: a send right to the port, and not to \<open>IP_DEAD\<close>.\<close>

definition ipc_port_copy_send :: "ipc_port \<Rightarrow> (ipc_port \<times> bool) option" where
  "ipc_port_copy_send port =
     (if ip_active port then do {
        asserting (0 < ip_srights port);
        port' \<leftarrow> ip_reference port;
        Some (port'\<lparr>ip_srights := ip_srights port' + 1\<rparr>, True)
      }
      else Some (port, False))"

text \<open>One send right less; the last one takes the no-senders request, returned with the count that goes
  into the notification.\<close>

definition drop_send :: "ipc_port \<Rightarrow> (ipc_port \<times> ipc_call list) option" where
  "drop_send port =
     do {
       asserting (0 < ip_srights port);
       let port' = port\<lparr>ip_srights := ip_srights port - 1\<rparr>;
       (case ip_nsrequest port' of
         Some ns \<Rightarrow>
           if ip_srights port' = 0
           then Some (port'\<lparr>ip_nsrequest := None\<rparr>, [ipc_notify_no_senders ns (ip_mscount port')])
           else Some (port', [])
       | None \<Rightarrow> Some (port', []))
     }"

definition ipc_port_release_send :: "nat \<Rightarrow> 'z ipc_state_scheme \<Rightarrow> 'z ipc_state_scheme option" where
  "ipc_port_release_send p st =
     do {
       port \<leftarrow> ip_release (st_ports st p);
       if \<not> ip_active port then Some (ip_check_unlock p (set_port p port st))
       else do {
         (port', calls) \<leftarrow> drop_send port;
         Some (calling calls (set_port p port' st))
       }
     }"

definition ipc_port_make_sonce :: "ipc_port \<Rightarrow> ipc_port option" where
  "ipc_port_make_sonce port =
     do {
       asserting (ip_active port);
       ip_reference (port\<lparr>ip_sorights := ip_sorights port + 1\<rparr>)
     }"

definition ipc_port_release_sonce :: "nat \<Rightarrow> 'z ipc_state_scheme \<Rightarrow> 'z ipc_state_scheme option" where
  "ipc_port_release_sonce p st =
     do {
       asserting (0 < ip_sorights (st_ports st p));
       port \<leftarrow> ip_release ((st_ports st p)\<lparr>ip_sorights := ip_sorights (st_ports st p) - 1\<rparr>);
       Some (if \<not> ip_active port then ip_check_unlock p (set_port p port st) else set_port p port st)
     }"

section \<open>Ports in transit\<close>

text \<open>The port that a port is in transit to.\<close>

definition transit :: "ipc_port \<Rightarrow> nat option" where
  "transit port =
     (if ip_active port \<and> ip_receiver_name port = 0
      then (case ip_data port of ip_destination d \<Rightarrow> d | _ \<Rightarrow> None) else None)"

definition in_limbo :: "ipc_port \<Rightarrow> bool" where
  "in_limbo port \<longleftrightarrow> ip_active port \<and> ip_receiver_name port = 0 \<and> ip_data port = ip_destination None"

text \<open>The end of the chain; \<open>fuel\<close> bounds its length.\<close>

fun chain_base :: "nat \<Rightarrow> (nat \<Rightarrow> ipc_port) \<Rightarrow> nat \<Rightarrow> nat option" where
  "chain_base 0 ports base = None"
| "chain_base (Suc fuel) ports base =
     (case transit (ports base) of None \<Rightarrow> Some base | Some d \<Rightarrow> chain_base fuel ports d)"

text \<open>Unlocking the chain from \<open>dest\<close>, with the assertions on the way: to its end in limbo, or from the
  port that was linked to \<open>base\<close>.\<close>

fun unlock_circle :: "nat \<Rightarrow> (nat \<Rightarrow> ipc_port) \<Rightarrow> nat \<Rightarrow> unit option" where
  "unlock_circle 0 ports dest = None"
| "unlock_circle (Suc fuel) ports dest =
     do {
       asserting (ip_active (ports dest) \<and> ip_receiver_name (ports dest) = 0);
       (case ip_data (ports dest) of
         ip_destination None \<Rightarrow> Some ()
       | ip_destination (Some next) \<Rightarrow> unlock_circle fuel ports next
       | _ \<Rightarrow> None)
     }"

fun unlock_chain :: "nat \<Rightarrow> (nat \<Rightarrow> ipc_port) \<Rightarrow> nat \<Rightarrow> nat \<Rightarrow> unit option" where
  "unlock_chain 0 ports base port = None"
| "unlock_chain (Suc fuel) ports base port =
     (if port = base then asserting (transit (ports base) = None)
      else
        case transit (ports port) of
          None \<Rightarrow> None
        | Some next \<Rightarrow> unlock_chain fuel ports base next)"

text \<open>The guarded link, the chain from \<open>dest\<close> to \<open>base\<close> being locked.\<close>

definition link_transit ::
  "nat \<Rightarrow> nat \<Rightarrow> nat \<Rightarrow> nat \<Rightarrow> 'z ipc_state_scheme \<Rightarrow> ('z ipc_state_scheme \<times> bool) option" where
  "link_transit fuel port dest base st =
     do {
       asserting (in_limbo (st_ports st port));
       d \<leftarrow> ip_reference (st_ports st dest);
       let st1 = set_port dest d st;
       let st2 = set_port port ((st_ports st1 port)\<lparr>ip_data := ip_destination (Some dest)\<rparr>) st1;
       unlock_chain fuel (st_ports st2) base port;
       Some (st2, False)
     }"

text \<open>\<open>try_dest\<close>: whether \<open>ip_lock_try\<close> gets the lock of \<open>dest\<close>; \<open>other\<close>: what happens to the ports between
  the quick check and the search with all locks.  The result says whether there is a circle.\<close>

definition ipc_port_check_circularity ::
  "nat \<Rightarrow> bool \<Rightarrow> ((nat \<Rightarrow> ipc_port) \<Rightarrow> nat \<Rightarrow> ipc_port) \<Rightarrow> nat \<Rightarrow> nat \<Rightarrow> 'z ipc_state_scheme \<Rightarrow>
   ('z ipc_state_scheme \<times> bool) option" where
  "ipc_port_check_circularity fuel try_dest other port dest st =
     (if port = dest then Some (st, True)
      else if try_dest \<and> transit (st_ports st dest) = None then link_transit fuel port dest dest st
      else
        let st1 = st\<lparr>st_ports := other (st_ports st)\<rparr> in do {
          base \<leftarrow> chain_base fuel (st_ports st1) dest;
          if port = base then do {
            asserting (in_limbo (st_ports st1 port));
            unlock_circle fuel (st_ports st1) dest;
            Some (st1, True)
          }
          else link_transit fuel port dest base st1
        })"

section \<open>The destruction of a port\<close>

definition destroy_premsg :: "nat \<Rightarrow> ipc_port \<Rightarrow> (nat \<Rightarrow> bool) \<Rightarrow> ipc_port \<times> ipc_call list" where
  "destroy_premsg p port inuse =
     (case ip_premsg port of
       None \<Rightarrow> (port, [])
     | Some kmsg \<Rightarrow> (port\<lparr>ip_premsg := None\<rparr>,
         ikm_prealloc_clear_inuse kmsg p # (if inuse kmsg then [] else [ipc_kmsg_free kmsg])))"

text \<open>From the point where the port is known to die.\<close>

definition destroy_dead :: "nat \<Rightarrow> 'z ipc_state_scheme \<Rightarrow> 'z ipc_state_scheme option" where
  "destroy_dead p st =
     (let dnrequests = ip_dnrequests (st_ports st p);
          (port, calls) = destroy_premsg p
            ((st_ports st p)\<lparr>ip_active := False, ip_data := ip_timestamp (st_timestamp st), ip_dnrequests := None\<rparr>)
            (st_kmsg_inuse st)
      in do {
        dn \<leftarrow> (case dnrequests of None \<Rightarrow> Some [] | Some t \<Rightarrow> ipc_port_dnnotify t);
        ipc_port_release p
          (calling (calls @ [thread_pool_wakeup p] @
             (case ip_nsrequest port of None \<Rightarrow> [] | Some ns \<Rightarrow> [ipc_notify_send_once ns]) @
             [ipc_mqueue_destroy p] @ dn @ [ipc_kobject_destroy p] @
             (case ip_subsystem port of None \<Rightarrow> [] | Some _ \<Rightarrow> [subsystem_deallocate (ip_kobject port)]))
            (set_port p port (st\<lparr>st_timestamp := st_timestamp st + 1\<rparr>)))
      })"

definition ipc_port_destroy ::
  "nat \<Rightarrow> bool \<Rightarrow> ((nat \<Rightarrow> ipc_port) \<Rightarrow> nat \<Rightarrow> ipc_port) \<Rightarrow> nat \<Rightarrow> 'z ipc_state_scheme \<Rightarrow>
   'z ipc_state_scheme option" where
  "ipc_port_destroy fuel try_dest other p st =
     (let port = st_ports st p in do {
        asserting (ip_active port \<and> ip_pset_count port = 0 \<and> ip_mscount port = 0);
        (case ip_pdrequest port of
          None \<Rightarrow> destroy_dead p st
        | Some pd \<Rightarrow> do {
            let st1 = set_port p (port\<lparr>ip_pdrequest := None, ip_receiver_name := 0, ip_data := ip_destination None\<rparr>) st;
            (st2, circular) \<leftarrow> ipc_port_check_circularity fuel try_dest other p pd st1;
            if \<not> circular then Some (calling [ipc_notify_port_destroyed pd p] st2)
            else do {
              st3 \<leftarrow> ipc_port_release_sonce pd st2;
              let q = st_ports st3 p;
              asserting (in_limbo q \<and> ip_pset_count q = 0 \<and> ip_mscount q = 0 \<and> ip_pdrequest q = None);
              destroy_dead p st3
            }
          })
      })"

definition ipc_port_release_receive ::
  "nat \<Rightarrow> bool \<Rightarrow> ((nat \<Rightarrow> ipc_port) \<Rightarrow> nat \<Rightarrow> ipc_port) \<Rightarrow> nat \<Rightarrow> 'z ipc_state_scheme \<Rightarrow>
   'z ipc_state_scheme option" where
  "ipc_port_release_receive fuel try_dest other p st =
     (let port = st_ports st p in do {
        asserting (ip_active port \<and> ip_receiver_name port = 0);
        dest \<leftarrow> (case ip_data port of ip_destination d \<Rightarrow> Some d | _ \<Rightarrow> None);
        st1 \<leftarrow> ipc_port_destroy fuel try_dest other p st;
        (case dest of None \<Rightarrow> Some st1 | Some d \<Rightarrow> ipc_port_release d st1)
      })"

end
