(* ===== verification/Ipc_Port_Props.thy ===== *)
theory Ipc_Port_Props
  imports Ipc_Port
begin

text \<open>
  The chains of ports in transit have no circles, and a table of dead-name requests is a map from its
  indices with a free list.
\<close>

section \<open>Chains in transit\<close>

definition transit_rel :: "(nat \<Rightarrow> ipc_port) \<Rightarrow> (nat \<times> nat) set" where
  "transit_rel ports = {(p, d). transit (ports p) = Some d}"

lemma transit_relI: "transit (ports p) = Some d \<Longrightarrow> (p, d) \<in> transit_rel ports"
  by (simp add: transit_rel_def)

text \<open>The ports on a chain that are in transit.\<close>

definition on_chain :: "(nat \<Rightarrow> ipc_port) \<Rightarrow> nat \<Rightarrow> nat set" where
  "on_chain ports d = {q. (d, q) \<in> (transit_rel ports)\<^sup>* \<and> transit (ports q) \<noteq> None}"

definition in_transit :: "(nat \<Rightarrow> ipc_port) \<Rightarrow> nat set" where
  "in_transit ports = {q. transit (ports q) \<noteq> None}"

lemma chain_base_ends:
  "chain_base fuel ports d = Some b \<Longrightarrow> (d, b) \<in> (transit_rel ports)\<^sup>* \<and> transit (ports b) = None"
proof (induction fuel arbitrary: d)
  case (Suc fuel)
  then show ?case
    by (cases "transit (ports d)") (auto intro: converse_rtrancl_into_rtrancl transit_relI)
qed simp

text \<open>Each port has at most one successor, so a chain has one end.\<close>

lemma chain_end_unique:
  assumes "(d, q) \<in> (transit_rel ports)\<^sup>*" and "transit (ports q) = None"
    and "(d, b) \<in> (transit_rel ports)\<^sup>*" and "transit (ports b) = None"
  shows "q = b"
  using assms(1,3)
proof (induction rule: converse_rtrancl_induct)
  case base
  then show ?case
    using assms(2) by (auto elim: converse_rtranclE simp: transit_rel_def)
next
  case (step d e)
  then have d: "transit (ports d) = Some e"
    by (simp add: transit_rel_def)
  then have "d \<noteq> b"
    using assms(4) by auto
  then obtain e' where "(d, e') \<in> transit_rel ports" "(e', b) \<in> (transit_rel ports)\<^sup>*"
    using step.prems by (auto elim: converse_rtranclE)
  then show ?case
    using step.IH d by (simp add: transit_rel_def)
qed

lemma chain_base_found:
  assumes "acyclic (transit_rel ports)" and "finite (in_transit ports)" and "card (on_chain ports d) < fuel"
  shows "\<exists>b. chain_base fuel ports d = Some b"
  using assms(3)
proof (induction fuel arbitrary: d)
  case (Suc fuel)
  show ?case
  proof (cases "transit (ports d)")
    case (Some e)
    have fin: "finite (on_chain ports d)"
      using assms(2) by (rule finite_subset [rotated]) (auto simp: on_chain_def in_transit_def)
    have de: "(d, e) \<in> transit_rel ports"
      using Some by (rule transit_relI)
    then have "on_chain ports e \<subseteq> on_chain ports d"
      by (auto simp: on_chain_def intro: converse_rtrancl_into_rtrancl)
    moreover have "d \<in> on_chain ports d"
      using Some by (simp add: on_chain_def)
    moreover have "d \<notin> on_chain ports e"
      using de assms(1) by (auto simp: on_chain_def acyclic_def dest: rtrancl_into_trancl2)
    ultimately have "card (on_chain ports e) < card (on_chain ports d)"
      using fin by (intro psubset_card_mono) auto
    then have "\<exists>b. chain_base fuel ports e = Some b"
      using Suc by simp
    then show ?thesis
      using Some by simp
  qed simp
qed simp

lemma chain_base_more: "chain_base fuel ports d = Some b \<Longrightarrow> chain_base (Suc fuel) ports d = Some b"
proof (induction fuel arbitrary: d)
  case (Suc fuel)
  then show ?case
    by (cases "transit (ports d)") auto
qed simp

lemma transit_parts:
  "transit port = Some d \<Longrightarrow> ip_active port \<and> ip_receiver_name port = 0 \<and> ip_data port = ip_destination (Some d)"
  by (cases "ip_data port") (auto simp: transit_def split: if_splits)

lemma in_limbo_transit: "in_limbo port \<Longrightarrow> transit port = None"
  by (simp add: in_limbo_def transit_def)

lemma unlock_circle_ok:
  "chain_base fuel ports d = Some b \<Longrightarrow> in_limbo (ports b) \<Longrightarrow> unlock_circle fuel ports d = Some ()"
proof (induction fuel arbitrary: d)
  case (Suc fuel)
  then show ?case
    by (cases "transit (ports d)") (auto simp: in_limbo_def asserting_def dest!: transit_parts)
qed simp

lemma unlock_chain_ok:
  assumes "chain_base fuel ports d = Some b" and "\<And>q. q \<noteq> p \<Longrightarrow> transit (ports' q) = transit (ports q)"
    and "transit (ports p) = None" and "p \<noteq> b"
  shows "unlock_chain fuel ports' b d = Some ()"
  using assms(1)
proof (induction fuel arbitrary: d)
  case (Suc fuel)
  have b: "transit (ports' b) = None"
    using chain_base_ends [OF Suc.prems] assms(2,4) by simp
  show ?case
  proof (cases "transit (ports d)")
    case None
    then show ?thesis
      using Suc.prems b by (simp add: asserting_def)
  next
    case (Some e)
    then have "d \<noteq> b" "d \<noteq> p"
      using chain_base_ends [OF Suc.prems] assms(3) by auto
    then show ?thesis
      using Some Suc assms(2) by simp
  qed
qed simp

text \<open>What a port must be to be sent to \<open>dest\<close>, and the ports around it.\<close>

definition may_link :: "nat \<Rightarrow> nat \<Rightarrow> nat \<Rightarrow> (nat \<Rightarrow> ipc_port) \<Rightarrow> bool" where
  "may_link fuel p dest ports \<longleftrightarrow> acyclic (transit_rel ports) \<and> finite (in_transit ports) \<and>
     card (in_transit ports) + 1 < fuel \<and> in_limbo (ports p) \<and> ip_references (ports dest) < IO_MAX_REFERENCES"

lemma may_link_chain:
  assumes "may_link fuel p dest ports"
  obtains b f where "fuel = Suc f" and "chain_base f ports dest = Some b" and "chain_base fuel ports dest = Some b"
proof -
  obtain f where f: "fuel = Suc f"
    using assms by (cases fuel) (auto simp: may_link_def)
  have "card (on_chain ports dest) \<le> card (in_transit ports)"
    using assms by (intro card_mono) (auto simp: may_link_def on_chain_def in_transit_def)
  then obtain b where "chain_base f ports dest = Some b"
    using chain_base_found [of ports dest f] assms f by (auto simp: may_link_def)
  then show thesis
    using that f chain_base_more by blast
qed

lemma link_transit_ok:
  assumes "may_link fuel p dest (st_ports st)" and "chain_base fuel (st_ports st) dest = Some b" and "p \<noteq> b" "p \<noteq> dest"
  shows "\<exists>st'. link_transit fuel p dest b st = Some (st', False) \<and>
    transit_rel (st_ports st') = insert (p, dest) (transit_rel (st_ports st)) \<and> acyclic (transit_rel (st_ports st'))"
proof -
  let ?ports = "st_ports st"
  obtain f where f: "fuel = Suc f" "chain_base f ?ports dest = Some b"
    using may_link_chain [OF assms(1)] assms(2) by (metis option.inject)
  define d where "d = (?ports dest)\<lparr>ip_references := ip_references (?ports dest) + 1\<rparr>"
  define ports' where "ports' = (?ports(dest := d))(p := (?ports p)\<lparr>ip_data := ip_destination (Some dest)\<rparr>)"
  have limbo: "in_limbo (?ports p)"
    using assms(1) by (simp add: may_link_def)
  have d: "transit d = transit (?ports dest)"
    by (simp add: d_def transit_def)
  have same: "transit (ports' q) = transit (?ports q)" if "q \<noteq> p" for q
    using that d by (simp add: ports'_def)
  have new: "transit (ports' p) = Some dest"
    using limbo by (simp add: ports'_def transit_def in_limbo_def)
  have none: "transit (?ports p) = None"
    using limbo by (rule in_limbo_transit)
  have "unlock_chain f ports' b dest = Some ()"
    using unlock_chain_ok [OF f(2) same none assms(3)] .
  then have chain: "unlock_chain fuel ports' b p = Some ()"
    using f(1) assms(3) new by simp
  have "transit_rel ports' = insert (p, dest) (transit_rel ?ports)"
  proof -
    have "transit (ports' q) = Some e \<longleftrightarrow> (q = p \<and> e = dest) \<or> transit (?ports q) = Some e" for q e
      using same [of q] new none by (cases "q = p") auto
    then show ?thesis
      by (auto simp: transit_rel_def)
  qed
  moreover have "(dest, p) \<notin> (transit_rel ?ports)\<^sup>*"
    using chain_end_unique [of dest p ?ports b] chain_base_ends [OF f(2)] none assms(3) by auto
  moreover have "link_transit fuel p dest b st =
      Some (set_port p ((?ports p)\<lparr>ip_data := ip_destination (Some dest)\<rparr>) (set_port dest d st), False)"
  proof -
    have "(?ports(dest := d)) p = ?ports p"
      using assms(4) by simp
    then show ?thesis
      using limbo chain assms(1) by (simp add: link_transit_def asserting_def ip_reference_def may_link_def set_port_def
          d_def [symmetric] ports'_def Let_def)
  qed
  ultimately show ?thesis
    using assms(1) by (auto simp: set_port_def ports'_def may_link_def)
qed


text \<open>C23. \<open>ipc_port_check_circularity\<close>, whatever happens to the ports before it takes all the locks, as
  long as they stay a set of finitely many acyclic chains in which the port is in limbo: it fails no
  assertion; it reports a circle exactly if the chain from \<open>dest\<close> leads to the port; otherwise the port is
  in transit to \<open>dest\<close>, no other chain is changed, and there is still no circle.  As many steps as there are
  ports in transit, and two more, are enough.\<close>

theorem check_circularity_acyclic:
  assumes "may_link fuel p dest (st_ports st)" and "may_link fuel p dest (other (st_ports st))"
  shows "\<exists>st' circular ports. ipc_port_check_circularity fuel try_dest other p dest st = Some (st', circular) \<and>
    (ports = st_ports st \<or> ports = other (st_ports st)) \<and>
    (circular = ((dest, p) \<in> (transit_rel ports)\<^sup>*)) \<and>
    transit_rel (st_ports st') = (if circular then transit_rel ports else insert (p, dest) (transit_rel ports)) \<and>
    acyclic (transit_rel (st_ports st'))"
proof (cases "p = dest")
  case True
  then show ?thesis
    using assms(1) by (intro exI [of _ st] exI [of _ True] exI [of _ "st_ports st"])
      (simp add: ipc_port_check_circularity_def may_link_def)
next
  case ne: False
  show ?thesis
  proof (cases "try_dest \<and> transit (st_ports st dest) = None")
    case True
    then have "chain_base fuel (st_ports st) dest = Some dest"
      using may_link_chain [OF assms(1)] by (metis chain_base.simps(2) option.simps(4))
    then obtain st' where l: "link_transit fuel p dest dest st = Some (st', False)"
      "transit_rel (st_ports st') = insert (p, dest) (transit_rel (st_ports st))" "acyclic (transit_rel (st_ports st'))"
      using link_transit_ok [OF assms(1) _ ne ne] by blast
    have "(dest, p) \<notin> (transit_rel (st_ports st))\<^sup>*"
      using True ne by (auto elim: converse_rtranclE simp: transit_rel_def)
    then show ?thesis
      using l True ne by (intro exI [of _ st'] exI [of _ False] exI [of _ "st_ports st"])
        (simp add: ipc_port_check_circularity_def)
  next
    case slow: False
    let ?ports = "other (st_ports st)" and ?st1 = "st\<lparr>st_ports := other (st_ports st)\<rparr>"
    obtain b where b: "chain_base fuel ?ports dest = Some b"
      using may_link_chain [OF assms(2)] by blast
    have limbo: "in_limbo (?ports p)"
      using assms(2) by (simp add: may_link_def)
    note ends = chain_base_ends [OF b]
    show ?thesis
    proof (cases "p = b")
      case True
      then have "ipc_port_check_circularity fuel try_dest other p dest st = Some (?st1, True)"
        using ne slow b limbo unlock_circle_ok [OF b]
        by (auto simp: ipc_port_check_circularity_def asserting_def)
      then show ?thesis
        using True ends assms(2) by (intro exI [of _ ?st1] exI [of _ True] exI [of _ ?ports]) (simp add: may_link_def)
    next
      case False
      obtain st' where l: "link_transit fuel p dest b ?st1 = Some (st', False)"
        "transit_rel (st_ports st') = insert (p, dest) (transit_rel ?ports)" "acyclic (transit_rel (st_ports st'))"
        using link_transit_ok [of fuel p dest ?st1 b] assms(2) b False ne by auto
      have "(dest, p) \<notin> (transit_rel ?ports)\<^sup>*"
        using chain_end_unique [of dest p ?ports b] ends in_limbo_transit [OF limbo] False by auto
      moreover have "ipc_port_check_circularity fuel try_dest other p dest st = Some (st', False)"
        using ne slow b False l(1) by (auto simp: ipc_port_check_circularity_def)
      ultimately show ?thesis
        using l(2,3) by (intro exI [of _ st'] exI [of _ False] exI [of _ ?ports]) simp
    qed
  qed
qed

text \<open>For the witnesses: port 2 is in transit to port 1, which is in limbo as all others are.\<close>

definition limbo_port :: ipc_port where
  "limbo_port = \<lparr>ip_active = True, ip_references = 1, ip_receiver_name = 0, ip_data = ip_destination None,
     ip_kobject = 0, ip_subsystem = None, ip_mscount = 0, ip_srights = 0, ip_sorights = 0, ip_nsrequest = None,
     ip_pdrequest = None, ip_dnrequests = None, ip_pset_count = 0, imq_seqno = 0, ip_premsg = None\<rparr>"

definition sample_ports :: "nat \<Rightarrow> ipc_port" where
  "sample_ports = (\<lambda>p. limbo_port)(2 := limbo_port\<lparr>ip_data := ip_destination (Some 1)\<rparr>)"

definition sample_state :: ipc_state where
  "sample_state = \<lparr>st_ports = sample_ports, st_calls = [], st_kmsg_inuse = (\<lambda>_. False), st_timestamp = 0\<rparr>"

lemma sample_transit: "transit (sample_ports q) = (if q = 2 then Some 1 else None)"
  by (simp add: sample_ports_def limbo_port_def transit_def)

lemma sample_rel: "transit_rel sample_ports = {(2, 1)}" "in_transit sample_ports = {2}"
  by (auto simp: transit_rel_def in_transit_def sample_transit split: if_splits)

lemma sample_link: "p \<noteq> 2 \<Longrightarrow> may_link 4 p dest sample_ports"
  by (simp add: may_link_def sample_rel wf_acyclic) (simp add: sample_ports_def limbo_port_def in_limbo_def)

theorem check_circularity_acyclic_witness:
  "\<exists>st'. ipc_port_check_circularity 4 True id 1 2 sample_state = Some (st', True)"
proof -
  have "(2, 1) \<in> (transit_rel sample_ports)\<^sup>*"
    by (simp add: sample_rel r_into_rtrancl)
  then show ?thesis
    using check_circularity_acyclic [of 4 1 2 sample_state id True] sample_link [of 1 2]
    by (auto simp: sample_state_def)
qed


section \<open>Tables of dead-name requests\<close>

fun dn_chain :: "ipc_port_request list \<Rightarrow> nat \<Rightarrow> nat list \<Rightarrow> bool" where
  "dn_chain rs x [] \<longleftrightarrow> x = 0"
| "dn_chain rs x (j # js) \<longleftrightarrow> x = j \<and> (\<exists>k. ipr_notify (rs ! j) = ipr_next k \<and> dn_chain rs k js)"

text \<open>The free list holds exactly the elements without a name; the others have a send-once right.\<close>

definition table_ok :: "request_table \<Rightarrow> bool" where
  "table_ok t \<longleftrightarrow> 0 < length (requests t) \<and> length (requests t) = dnr_size (ipr_size t) \<and>
     (\<exists>fl. dn_chain (requests t) (head_next t) fl \<and> distinct fl \<and>
        set fl = {i. 0 < i \<and> i < length (requests t) \<and> ipr_name (requests t ! i) = 0}) \<and>
     (\<forall>i. 0 < i \<and> i < length (requests t) \<and> ipr_name (requests t ! i) \<noteq> 0 \<longrightarrow>
        (\<exists>s. ipr_notify (requests t ! i) = ipr_soright s))"

lemma table_ok_length:
  assumes "table_ok t"
  shows "length (requests t) = dnr_size (ipr_size t)" and "0 < dnr_size (ipr_size t)"
proof -
  have "0 < length (requests t) \<and> length (requests t) = dnr_size (ipr_size t)"
    using assms unfolding table_ok_def by blast
  then show "length (requests t) = dnr_size (ipr_size t)" and "0 < dnr_size (ipr_size t)"
    by linarith+
qed

text \<open>The requests that a table holds: index, name and send-once right.\<close>

definition request_map :: "request_table \<Rightarrow> nat \<Rightarrow> (mach_port_name \<times> nat) option" where
  "request_map t i =
     (if 0 < i \<and> i < length (requests t) \<and> ipr_name (requests t ! i) \<noteq> 0
      then (case ipr_notify (requests t ! i) of ipr_soright s \<Rightarrow> Some (ipr_name (requests t ! i), s) | ipr_next _ \<Rightarrow> None)
      else None)"

lemma dn_chain_other: "j \<notin> set fl \<Longrightarrow> dn_chain (rs[j := r]) x fl \<longleftrightarrow> dn_chain rs x fl"
  by (induction fl arbitrary: x) auto

lemma dnrequest_spec:
  assumes "table_ok t" and "name \<noteq> 0" and "ip_active port" and "ip_dnrequests port = Some t" and "head_next t \<noteq> 0"
  defines "i \<equiv> head_next t"
  shows "\<exists>t'. ipc_port_dnrequest port name soright = Some (port\<lparr>ip_dnrequests := Some t'\<rparr>, Inr i) \<and> table_ok t' \<and>
    request_map t i = None \<and> request_map t' = (request_map t)(i \<mapsto> (name, soright)) \<and> 0 < i \<and> i < length (requests t)"
proof -
  obtain fl where fl: "dn_chain (requests t) (head_next t) fl" "distinct fl"
    "set fl = {i. 0 < i \<and> i < length (requests t) \<and> ipr_name (requests t ! i) = 0}"
    using assms(1) by (auto simp: table_ok_def)
  obtain js where js: "fl = i # js"
    using fl(1) assms(5) by (cases fl) (auto simp: i_def)
  have i: "0 < i" "i < length (requests t)" "ipr_name (requests t ! i) = 0"
    using fl(3) js by auto
  obtain k where k: "ipr_notify (requests t ! i) = ipr_next k" "dn_chain (requests t) k js"
    using fl(1) js by auto
  let ?rs = "(requests t)[i := \<lparr>ipr_notify = ipr_soright soright, ipr_name = name\<rparr>]"
  let ?t = "t\<lparr>head_next := k, requests := ?rs\<rparr>"
  have "ipc_port_dnrequest port name soright = Some (port\<lparr>ip_dnrequests := Some ?t\<rparr>, Inr i)"
    using assms(2-4) i k(1) unfolding i_def
    by (simp add: ipc_port_dnrequest_def asserting_def request_at_def Let_def)
  moreover have "table_ok ?t"
    unfolding table_ok_def
  proof (intro conjI exI [of _ js])
    show "dn_chain (requests ?t) (head_next ?t) js" "distinct js"
      using fl(2) js k(2) dn_chain_other [of i js] by simp_all
    show "set js = {j. 0 < j \<and> j < length (requests ?t) \<and> ipr_name (requests ?t ! j) = 0}"
    proof -
      have "j \<in> set js \<longleftrightarrow> j \<in> set fl \<and> j \<noteq> i" for j
        using fl(2) js by auto
      moreover have "ipr_name (?rs ! j) = 0 \<longleftrightarrow> ipr_name (requests t ! j) = 0 \<and> j \<noteq> i" for j
        using i(2) assms(2) by (cases "j = i") simp_all
      ultimately show ?thesis
        using fl(3) by auto
    qed
    show "\<forall>j. 0 < j \<and> j < length (requests ?t) \<and> ipr_name (requests ?t ! j) \<noteq> 0 \<longrightarrow>
        (\<exists>s. ipr_notify (requests ?t ! j) = ipr_soright s)"
      using assms(1) i(2) by (auto simp: table_ok_def nth_list_update)
    show "0 < length (requests ?t)" "length (requests ?t) = dnr_size (ipr_size ?t)"
      using table_ok_length [OF assms(1)] by simp_all
  qed
  moreover have "request_map ?t = (request_map t)(i \<mapsto> (name, soright))"
    using i assms(2) by (auto simp: request_map_def fun_eq_iff nth_list_update split: ipr_notify.split)
  moreover have "request_map t i = None"
    using i(3) by (simp add: request_map_def)
  ultimately show ?thesis
    using i by blast
qed

lemma dncancel_spec:
  assumes "table_ok t" and "ip_active port" and "ip_dnrequests port = Some t" and "request_map t i = Some (name, soright)"
  shows "\<exists>t'. ipc_port_dncancel port name i = Some (port\<lparr>ip_dnrequests := Some t'\<rparr>, soright) \<and> table_ok t' \<and>
    request_map t' = (request_map t)(i := None)"
proof -
  obtain fl where fl: "dn_chain (requests t) (head_next t) fl" "distinct fl"
    "set fl = {i. 0 < i \<and> i < length (requests t) \<and> ipr_name (requests t ! i) = 0}"
    using assms(1) by (auto simp: table_ok_def)
  have i: "0 < i" "i < length (requests t)" "name \<noteq> 0" "ipr_name (requests t ! i) = name"
    "ipr_notify (requests t ! i) = ipr_soright soright"
    using assms(4) by (auto simp: request_map_def split: if_splits ipr_notify.splits)
  let ?rs = "(requests t)[i := \<lparr>ipr_notify = ipr_next (head_next t), ipr_name = 0\<rparr>]"
  let ?t = "t\<lparr>head_next := i, requests := ?rs\<rparr>"
  have "ipc_port_dncancel port name i = Some (port\<lparr>ip_dnrequests := Some ?t\<rparr>, soright)"
    using assms(2,3) i by (simp add: ipc_port_dncancel_def asserting_def request_at_def)
  moreover have "table_ok ?t"
    unfolding table_ok_def
  proof (intro conjI exI [of _ "i # fl"])
    have "i \<notin> set fl"
      using fl(3) i(3,4) by simp
    then show "dn_chain (requests ?t) (head_next ?t) (i # fl)" "distinct (i # fl)"
      using fl(1,2) dn_chain_other [of i fl] i(2) by simp_all
    show "set (i # fl) = {j. 0 < j \<and> j < length (requests ?t) \<and> ipr_name (requests ?t ! j) = 0}"
    proof -
      have "ipr_name (?rs ! j) = 0 \<longleftrightarrow> ipr_name (requests t ! j) = 0 \<or> j = i" for j
        using i(2) by (cases "j = i") simp_all
      then show ?thesis
        using fl(3) i by auto
    qed
    show "\<forall>j. 0 < j \<and> j < length (requests ?t) \<and> ipr_name (requests ?t ! j) \<noteq> 0 \<longrightarrow>
        (\<exists>s. ipr_notify (requests ?t ! j) = ipr_soright s)"
      using assms(1) i(2) by (auto simp: table_ok_def nth_list_update)
    show "0 < length (requests ?t)" "length (requests ?t) = dnr_size (ipr_size ?t)"
      using table_ok_length [OF assms(1)] by simp_all
  qed
  moreover have "request_map ?t = (request_map t)(i := None)"
    using i by (auto simp: request_map_def fun_eq_iff nth_list_update split: ipr_notify.split)
  ultimately show ?thesis
    by blast
qed


lemma table_full:
  assumes "table_ok t" and "head_next t = 0"
  shows "\<forall>i. 0 < i \<and> i < dnr_size (ipr_size t) \<longrightarrow> request_map t i \<noteq> None"
proof (intro allI impI)
  fix i assume i: "0 < i \<and> i < dnr_size (ipr_size t)"
  obtain fl where fl: "dn_chain (requests t) (head_next t) fl"
    "set fl = {i. 0 < i \<and> i < length (requests t) \<and> ipr_name (requests t ! i) = 0}"
    using assms(1) by (auto simp: table_ok_def)
  have len: "i < length (requests t)"
    using i table_ok_length(1) [OF assms(1)] by simp
  have "fl = []"
    using fl assms(2) by (cases fl) auto
  then have "ipr_name (requests t ! i) \<noteq> 0"
    using fl(2) i len by auto
  moreover from this obtain s where "ipr_notify (requests t ! i) = ipr_soright s"
    using assms(1) i len unfolding table_ok_def by blast
  ultimately show "request_map t i \<noteq> None"
    using i len by (simp add: request_map_def)
qed

text \<open>The free list of a table that gained elements.\<close>

lemma dn_chain_cong: "(\<And>j. j \<in> set fl \<Longrightarrow> rs' ! j = rs ! j) \<Longrightarrow> dn_chain rs' x fl \<longleftrightarrow> dn_chain rs x fl"
  by (induction fl arbitrary: x) auto

lemma dn_chain_new:
  assumes "dn_chain rs free fl" and "osize \<le> n"
    and "\<And>i. osize \<le> i \<Longrightarrow> i < n \<Longrightarrow> ipr_notify (rs ! i) = ipr_next (if i = osize then free else i - 1)"
  shows "dn_chain rs (if osize < n then n - 1 else free) (rev [osize..<n] @ fl)"
  using assms(2,3)
proof (induction n)
  case (Suc n)
  show ?case
  proof (cases "osize \<le> n")
    case True
    then have "dn_chain rs (if osize < n then n - 1 else free) (rev [osize..<n] @ fl)"
      using Suc by simp
    moreover have "ipr_notify (rs ! n) = ipr_next (if n = osize then free else n - 1)"
      using Suc.prems(2) [of n] True by simp
    ultimately show ?thesis
      using True by (auto split: if_splits)
  next
    case False
    then show ?thesis
      using Suc.prems(1) assms(1) by (auto simp: le_Suc_eq)
  qed
qed (use assms(1) in simp)

lemma dn_grown_spec:
  assumes "table_ok t" and "dnr_size (ipr_size t) < dnr_size its"
  obtains t' where "dn_grown (Some t) its addr = Some t'" and "table_ok t'" and "request_map t' = request_map t"
    and "ipr_size t' = its"
proof -
  let ?o = "dnr_size (ipr_size t)" and ?n = "dnr_size its"
  have len: "length (requests t) = ?o" "0 < ?o"
    using table_ok_length [OF assms(1)] by simp_all
  obtain fl where fl: "dn_chain (requests t) (head_next t) fl" "distinct fl"
    "set fl = {i. 0 < i \<and> i < length (requests t) \<and> ipr_name (requests t ! i) = 0}"
    and used: "\<forall>i. 0 < i \<and> i < length (requests t) \<and> ipr_name (requests t ! i) \<noteq> 0 \<longrightarrow>
      (\<exists>s. ipr_notify (requests t ! i) = ipr_soright s)"
    using assms(1) by (auto simp: table_ok_def)
  define new where "new = map (\<lambda>i. \<lparr>ipr_notify = ipr_next (if i = ?o then head_next t else i - 1), ipr_name = 0\<rparr>) [?o..<?n]"
  define rs where "rs = requests t @ new"
  have rs_old: "i < ?o \<Longrightarrow> rs ! i = requests t ! i" for i
    using len(1) by (simp add: rs_def nth_append)
  have rs_new: "rs ! i = \<lparr>ipr_notify = ipr_next (if i = ?o then head_next t else i - 1), ipr_name = 0\<rparr>"
    if "?o \<le> i" "i < ?n" for i
    using that len(1) by (simp add: rs_def new_def nth_append)
  have rs_len: "length rs = ?n"
    using len(1) assms(2) by (simp add: rs_def new_def)
  let ?t = "\<lparr>table_addr = addr, head_next = ?n - 1, ipr_size = its, requests = rs\<rparr>"
  have g: "dn_grown (Some t) its addr = Some ?t"
    using assms(2) len(1) by (simp add: dn_grown_def dn_new_requests_def asserting_def rs_def new_def)
  have fl_old: "i < ?o" if "i \<in> set fl" for i
    using that len(1) unfolding fl(3) by simp
  have "dn_chain rs (head_next t) fl"
    using fl(1) fl_old rs_old by (subst dn_chain_cong [of fl rs "requests t"]) auto
  then have "dn_chain rs (?n - 1) (rev [?o..<?n] @ fl)"
    using dn_chain_new [of rs "head_next t" fl ?o ?n] rs_new assms(2) by simp
  moreover have "distinct (rev [?o..<?n] @ fl)"
    using fl(2) by (auto dest: fl_old)
  moreover have "set (rev [?o..<?n] @ fl) = {i. 0 < i \<and> i < ?n \<and> ipr_name (rs ! i) = 0}"
  proof -
    have free: "0 < i \<and> i < ?n \<and> ipr_name (rs ! i) = 0 \<longleftrightarrow> i \<in> set fl \<or> (?o \<le> i \<and> i < ?n)" for i
      using rs_old [of i] rs_new [of i] len assms(2) unfolding fl(3) by (cases "i < ?o") auto
    show ?thesis
      by (rule set_eqI, subst mem_Collect_eq, subst free) auto
  qed
  moreover have "\<forall>i. 0 < i \<and> i < ?n \<and> ipr_name (rs ! i) \<noteq> 0 \<longrightarrow> (\<exists>s. ipr_notify (rs ! i) = ipr_soright s)"
    using used rs_old rs_new len(1) by (metis ipc_port_request.select_convs(2) not_le)
  ultimately have "table_ok ?t"
    unfolding table_ok_def using rs_len len(2) assms(2)
    by (intro conjI exI [of _ "rev [?o..<?n] @ fl"]) simp_all
  moreover have "request_map ?t = request_map t"
  proof
    fix i
    show "request_map ?t i = request_map t i"
      using rs_old [of i] rs_new [of i] rs_len len(1) assms(2)
      by (cases "i < ?o") (auto simp: request_map_def cong: ipr_notify.case_cong)
  qed
  ultimately show thesis
    using that [of ?t] g by simp
qed


section \<open>Dead-name requests: the theorems\<close>

text \<open>C24. a dead-name request and its cancellation.  With a good table on an active port,
  \<open>ipc_port_dnrequest\<close> either finds the table full and changes nothing, or puts name and send-once right at
  an index that had no request and leaves all others alone.  \<open>ipc_port_dncancel\<close> with that index then
  gives the send-once right back and restores the requests.  All tables on the way are good.\<close>

theorem dnrequest_dncancel:
  assumes "table_ok t" and "name \<noteq> 0" and "ip_active port" and "ip_dnrequests port = Some t"
  shows "(head_next t = 0 \<and> (\<forall>i. 0 < i \<and> i < dnr_size (ipr_size t) \<longrightarrow> request_map t i \<noteq> None) \<and>
      ipc_port_dnrequest port name soright = Some (port, Inl KERN_NO_SPACE)) \<or>
    (\<exists>i t1 t2.
      ipc_port_dnrequest port name soright = Some (port\<lparr>ip_dnrequests := Some t1\<rparr>, Inr i) \<and>
      table_ok t1 \<and> request_map t i = None \<and> request_map t1 = (request_map t)(i \<mapsto> (name, soright)) \<and>
      ipc_port_dncancel (port\<lparr>ip_dnrequests := Some t1\<rparr>) name i = Some (port\<lparr>ip_dnrequests := Some t2\<rparr>, soright) \<and>
      table_ok t2 \<and> request_map t2 = request_map t)"
proof (cases "head_next t = 0")
  case True
  then have "ipc_port_dnrequest port name soright = Some (port, Inl KERN_NO_SPACE)"
    using assms(2-4) by (simp add: ipc_port_dnrequest_def asserting_def)
  then show ?thesis
    using table_full [OF assms(1) True] True by blast
next
  case False
  let ?i = "head_next t"
  obtain t1 where t1: "ipc_port_dnrequest port name soright = Some (port\<lparr>ip_dnrequests := Some t1\<rparr>, Inr ?i)"
    "table_ok t1" "request_map t ?i = None" "request_map t1 = (request_map t)(?i \<mapsto> (name, soright))"
    using dnrequest_spec [OF assms False] by blast
  have "request_map t1 ?i = Some (name, soright)"
    using t1(4) by simp
  then obtain t2 where t2: "ipc_port_dncancel (port\<lparr>ip_dnrequests := Some t1\<rparr>) name ?i =
      Some (port\<lparr>ip_dnrequests := Some t2\<rparr>, soright)" "table_ok t2" "request_map t2 = (request_map t1)(?i := None)"
    using dncancel_spec [OF t1(2), of "port\<lparr>ip_dnrequests := Some t1\<rparr>" ?i name soright] assms(3) by auto
  have "request_map t2 = request_map t"
    using t2(3) t1(3,4) by (simp add: fun_upd_idem)
  then show ?thesis
    using t1 t2 by blast
qed

section \<open>Growing the table\<close>

text \<open>The first sizes of the tables.\<close>

lemma fill_pages_old: "i < length its \<Longrightarrow> fill_pages n num minsize elemsize period incrsize sz its ! i = its ! i"
  by (induction n num minsize elemsize period incrsize sz its rule: fill_pages.induct) (simp_all add: nth_append)

lemma fill_powers_numeral:
  "fill_powers (numeral v) num minsize elemsize sz its =
     (if length its < num \<and> sz < PAGE_SIZE
      then fill_powers (pred_numeral v) num minsize elemsize (sz * 2)
             (if sz \<ge> minsize then its @ [sz div elemsize] else its)
      else (its, sz))"
  by (simp add: numeral_eq_Suc)

lemma dnr_sizes: "dnr_size 0 = 2" "dnr_size 1 = 4" "dnr_size 2 = 8"
proof -
  have powers: "fill_powers 12 63 16 8 1 [] = ([2, 4, 8, 16, 32, 64, 128, 256], 4096)"
    by (simp add: fill_powers_numeral)
  have long: "length its \<le> length (fill_pages n num minsize elemsize period incrsize sz its)"
    for n num minsize elemsize period incrsize sz its
    by (induction n num minsize elemsize period incrsize sz its rule: fill_pages.induct) (auto split: if_splits)
  have "ipc_table_dnrequests ! i = [2, 4, 8, 16, 32, 64, 128, 256] ! i" if "i < 8" for i
    using that fill_pages_old [of i "[2, 4, 8, 16, 32, 64, 128, 256]"]
      long [of "[2, 4, 8, 16, 32, 64, 128, 256]" "fill_rounds 63 16" 63 16 8 0 4096 4096]
    by (simp add: ipc_table_dnrequests_def ipc_table_fill_def ipc_table_dnrequests_size_def powers [unfolded One_nat_def] nth_append)
  from this [of 0] this [of 1] this [of 2] show "dnr_size 0 = 2" "dnr_size 1 = 4" "dnr_size 2 = 8"
    by (simp_all add: dnr_size_def)
qed

definition small_table :: request_table where
  "small_table = \<lparr>table_addr = 5, head_next = 1, ipr_size = 0,
     requests = [\<lparr>ipr_notify = ipr_next 0, ipr_name = 0\<rparr>, \<lparr>ipr_notify = ipr_next 0, ipr_name = 0\<rparr>]\<rparr>"

lemma small_table_ok: "table_ok small_table"
proof -
  have "{i. 0 < i \<and> i < Suc (Suc 0) \<and> ipr_name (requests small_table ! i) = 0} = {1}"
    by (auto simp: small_table_def less_Suc_eq)
  then show ?thesis
    unfolding table_ok_def
    by (intro conjI exI [of _ "[1]"]) (auto simp: small_table_def dnr_sizes less_Suc_eq)
qed

theorem dnrequest_dncancel_witness:
  "\<exists>i t1 t2.
     ipc_port_dnrequest (limbo_port\<lparr>ip_dnrequests := Some small_table\<rparr>) 0x103 7 =
       Some (limbo_port\<lparr>ip_dnrequests := Some t1\<rparr>, Inr i) \<and>
     ipc_port_dncancel (limbo_port\<lparr>ip_dnrequests := Some t1\<rparr>) 0x103 i =
       Some (limbo_port\<lparr>ip_dnrequests := Some t2\<rparr>, 7)"
proof -
  have "head_next small_table \<noteq> 0"
    by (simp add: small_table_def)
  then show ?thesis
    using dnrequest_dncancel [OF small_table_ok, of "0x103" "limbo_port\<lparr>ip_dnrequests := Some small_table\<rparr>" 7]
    by (auto simp: limbo_port_def)
qed

lemma dn_search_target: "dn_search target its = Some its' \<Longrightarrow> dnr_size its' \<noteq> 0 \<Longrightarrow> target \<le> dnr_size its'"
  by (induction target its rule: dn_search.induct) (subst (asm) (2) dn_search.simps, auto split: if_splits)

lemma ip_reference_release:
  assumes "ip_references port < IO_MAX_REFERENCES"
  obtains port' where "ip_reference port = Some port'" and "ip_release port' = Some port"
    and "ip_active port' = ip_active port" and "ip_dnrequests port' = ip_dnrequests port"
proof
  have "0 < ip_references port + 1 \<and> ip_references port + 1 \<le> IO_MAX_REFERENCES"
    using assms inc_le by (simp add: word_gt_0) (uint_arith, simp)
  then show "ip_release (port\<lparr>ip_references := ip_references port + 1\<rparr>) = Some port"
    by (simp add: ip_release_def asserting_def)
qed (use assms in \<open>simp_all add: ip_reference_def asserting_def\<close>)

text \<open>\<open>ipc_port_dngrow\<close> to a target, for a port that nobody touches while the table is allocated.  When
  the smallest size that reaches the target is the next one, the port gets a table of it that reaches the
  target and holds the same requests, and the old table is freed.  When it is a larger one, the call frees the
  new table and leaves every port as it was, though it reports success: the port still has a smaller table.\<close>

theorem ipc_port_dngrow_target:
  assumes "table_ok t" and "ip_dnrequests (st_ports st p) = Some t" and "ip_active (st_ports st p)"
    and "ip_references (st_ports st p) < IO_MAX_REFERENCES" and "0 < ip_references (st_ports st p)"
    and "dnr_size (ipr_size t) < n" and "dn_search n (ipr_size t + 1) = Some its" and "dnr_size its \<noteq> 0"
  shows "\<exists>st'. ipc_port_dngrow p (Some n) id (Some addr) st = Some (st', KERN_SUCCESS) \<and>
    (\<forall>q. q \<noteq> p \<longrightarrow> st_ports st' q = st_ports st q) \<and>
    (if its = ipr_size t + 1
     then st_calls st' = st_calls st @ [it_dnrequests_free (ipr_size t)] \<and>
       (\<exists>t'. st_ports st' p = (st_ports st p)\<lparr>ip_dnrequests := Some t'\<rparr> \<and> table_ok t' \<and>
          request_map t' = request_map t \<and> n \<le> dnr_size (ipr_size t'))
     else st_calls st' = st_calls st @ [it_dnrequests_free its] \<and> st_ports st' p = st_ports st p)"
proof -
  let ?port = "st_ports st p"
  obtain port' where port': "ip_reference ?port = Some port'" "ip_release port' = Some ?port"
    using ip_reference_release [OF assms(4)] by blast
  have n: "n \<le> dnr_size its"
    using dn_search_target [OF assms(7,8)] .
  then obtain t' where t': "dn_grown (Some t) its addr = Some t'" "table_ok t'" "request_map t' = request_map t"
    "ipr_size t' = its"
    using dn_grown_spec [OF assms(1), of its addr] assms(6) by force
  note run = port' assms(2,3,6-8)
  show ?thesis
  proof (cases "its = ipr_size t + 1")
    case True
    have "ipc_port_dngrow p (Some n) id (Some addr) st =
        Some (calling [it_dnrequests_free (ipr_size t)] (set_port p (?port\<lparr>ip_dnrequests := Some t'\<rparr>) st), KERN_SUCCESS)"
      unfolding ipc_port_dngrow_def Let_def using run True t'(1) by (simp add: asserting_def same_table_def)
    moreover have "\<exists>t''. ?port\<lparr>ip_dnrequests := Some t'\<rparr> = ?port\<lparr>ip_dnrequests := Some t''\<rparr> \<and> table_ok t'' \<and>
        request_map t'' = request_map t \<and> n \<le> dnr_size (ipr_size t'')"
      using t'(2-4) n by blast
    ultimately show ?thesis
      using True by (simp add: calling_def set_port_def)
  next
    case False
    have "ip_check_unlock p (set_port p ?port st) = st"
      using assms(5) by (simp add: ip_check_unlock_def set_port_def word_gt_0)
    then have "ipc_port_dngrow p (Some n) id (Some addr) st = Some (calling [it_dnrequests_free its] st, KERN_SUCCESS)"
      unfolding ipc_port_dngrow_def Let_def using run False by (simp add: asserting_def same_table_def)
    then show ?thesis
      using False by (simp add: calling_def)
  qed
qed

definition small_state :: ipc_state where
  "small_state = sample_state\<lparr>st_ports := (\<lambda>_. limbo_port\<lparr>ip_dnrequests := Some small_table\<rparr>)\<rparr>"

theorem ipc_port_dngrow_target_witness:
  "\<exists>st'. ipc_port_dngrow 1 (Some 5) id (Some 9) small_state = Some (st', KERN_SUCCESS) \<and>
     ip_dnrequests (st_ports st' 1) = Some small_table \<and> dnr_size (ipr_size small_table) < 5"
proof -
  have port: "st_ports small_state 1 = limbo_port\<lparr>ip_dnrequests := Some small_table\<rparr>"
    by (simp add: small_state_def)
  have "dn_search 5 1 = dn_search 5 2"
    by (subst dn_search.simps) (simp add: dnr_sizes ipc_table_dnrequests_size_def flip: One_nat_def)
  also have "dn_search 5 2 = Some 2"
    by (subst dn_search.simps) (simp add: dnr_sizes ipc_table_dnrequests_size_def)
  finally have "dn_search 5 (ipr_size small_table + 1) = Some 2"
    by (simp add: small_table_def)
  moreover have "ip_dnrequests (st_ports small_state 1) = Some small_table" "ip_active (st_ports small_state 1)"
    "ip_references (st_ports small_state 1) < IO_MAX_REFERENCES" "0 < ip_references (st_ports small_state 1)"
    using port by (simp_all add: limbo_port_def)
  moreover have "dnr_size (ipr_size small_table) < 5" "dnr_size 2 \<noteq> 0" "2 \<noteq> ipr_size small_table + 1"
    by (simp_all add: small_table_def dnr_sizes)
  ultimately show ?thesis
    using ipc_port_dngrow_target [OF small_table_ok, of small_state 1 5 2 9] by auto
qed

end
