(* ===== verification/Ipc_Right.thy ===== *)
theory Ipc_Right
  imports Ipc_Port
begin

text \<open>
  The rights that the names of a space denote, osfmk/ipc/ipc_right.c with the macros of ipc_right.h and
  port.h: the operations between the entries of a space (Ipc_Entry) and the ports (Ipc_Port).  The state is
  that of the ports extended by one space.  \<open>None\<close> is a failed assertion or a panic.  Each operation is one
  step under the lock of the space, except \<open>ipc_right_dnrequest\<close>, whose arguments say what happens while it
  waits for memory.  Calls to the reverse hash table are recorded in the space, the others in the ports'
  state.  Port sets are only told apart as active or not, with their names.
\<close>

section \<open>The state\<close>

record ipc_pset =
  ips_active :: bool
  ips_local_name :: mach_port_name

text \<open>\<open>st_self\<close> is the address of the space, \<open>st_subsystem\<close> the \<open>subsystem\<close> field of an \<open>rpc_subsystem\<close>.\<close>

record right_state = ipc_state +
  st_space :: ipc_space
  st_self :: nat
  st_psets :: "nat \<Rightarrow> ipc_pset"
  st_subsystem :: "nat \<Rightarrow> nat"

text \<open>What the operations that call \<open>ipc_entry_dealloc\<close> and \<open>ipc_port_destroy\<close> hand on to them.\<close>

record right_env =
  re_raw :: "ipc_entry splay"
  re_fuel :: nat
  re_try_dest :: bool
  re_other :: "(nat \<Rightarrow> ipc_port) \<Rightarrow> nat \<Rightarrow> ipc_port"

text \<open>Storing to the entry of a name in the tree.\<close>

fun store_ite :: "mach_port_name \<Rightarrow> 'e \<Rightarrow> 'e ite \<Rightarrow> 'e ite" where
  "store_ite n e ITE_NULL = ITE_NULL"
| "store_ite n e (ITE l m x r) = ITE (store_ite n e l) m (if m = n then e else x) (store_ite n e r)"

definition splay_store :: "mach_port_name \<Rightarrow> 'e \<Rightarrow> 'e splay \<Rightarrow> 'e splay" where
  "splay_store n e s = s\<lparr>ist_root := store_ite n e (ist_root s),
     ist_left := map (\<lambda>(l, m, x). (store_ite n e l, m, if m = n then e else x)) (ist_left s),
     ist_right := map (\<lambda>(m, x, r). (m, if m = n then e else x, store_ite n e r)) (ist_right s)\<rparr>"

definition put_entry :: "ipc_entry_ref \<Rightarrow> ipc_entry \<Rightarrow> 'z right_state_scheme \<Rightarrow> 'z right_state_scheme" where
  "put_entry r e st = st\<lparr>st_space :=
     (case r of
       In_Table i \<Rightarrow> set_entry i e (st_space st)
     | In_Tree n \<Rightarrow> (st_space st)\<lparr>is_tree := splay_store n e (is_tree (st_space st))\<rparr>)\<rparr>"

definition get_entry :: "ipc_entry_ref \<Rightarrow> 'z right_state_scheme \<Rightarrow> ipc_entry option" where
  "get_entry r st = entry_of (st_space st) r"

definition put_bits :: "ipc_entry_ref \<Rightarrow> u32 \<Rightarrow> 'z right_state_scheme \<Rightarrow> 'z right_state_scheme option" where
  "put_bits r bits st = do { e \<leftarrow> get_entry r st; Some (put_entry r (e\<lparr>ie_bits := bits\<rparr>) st) }"

definition put_object ::
  "ipc_entry_ref \<Rightarrow> nat option \<Rightarrow> 'z right_state_scheme \<Rightarrow> 'z right_state_scheme option" where
  "put_object r obj st = do { e \<leftarrow> get_entry r st; Some (put_entry r (e\<lparr>ie_object := obj\<rparr>) st) }"

definition put_request ::
  "ipc_entry_ref \<Rightarrow> u32 \<Rightarrow> 'z right_state_scheme \<Rightarrow> 'z right_state_scheme option" where
  "put_request r request st = do { e \<leftarrow> get_entry r st; Some (put_entry r (e\<lparr>ie_request := request\<rparr>) st) }"

definition entry_dealloc ::
  "right_env \<Rightarrow> mach_port_name \<Rightarrow> ipc_entry_ref \<Rightarrow> 'z right_state_scheme \<Rightarrow> 'z right_state_scheme option" where
  "entry_dealloc env name r st =
     do { s \<leftarrow> ipc_entry_dealloc (re_raw env) (st_space st) name r; Some (st\<lparr>st_space := s\<rparr>) }"

section \<open>Types of rights and user references\<close>

abbreviation MACH_PORT_TYPE_RECEIVE :: u32 where "MACH_PORT_TYPE_RECEIVE \<equiv> 0x00020000"
abbreviation MACH_PORT_TYPE_SEND_ONCE :: u32 where "MACH_PORT_TYPE_SEND_ONCE \<equiv> 0x00040000"
abbreviation MACH_PORT_TYPE_PORT_SET :: u32 where "MACH_PORT_TYPE_PORT_SET \<equiv> 0x00080000"
abbreviation MACH_PORT_TYPE_DEAD_NAME :: u32 where "MACH_PORT_TYPE_DEAD_NAME \<equiv> 0x00100000"
abbreviation MACH_PORT_TYPE_SEND_RECEIVE :: u32 where "MACH_PORT_TYPE_SEND_RECEIVE \<equiv> 0x00030000"
abbreviation MACH_PORT_TYPE_SEND_RIGHTS :: u32 where "MACH_PORT_TYPE_SEND_RIGHTS \<equiv> 0x00050000"
abbreviation MACH_PORT_TYPE_PORT_RIGHTS :: u32 where "MACH_PORT_TYPE_PORT_RIGHTS \<equiv> 0x00070000"
abbreviation MACH_PORT_TYPE_PORT_OR_DEAD :: u32 where "MACH_PORT_TYPE_PORT_OR_DEAD \<equiv> 0x00170000"
abbreviation MACH_PORT_TYPE_DNREQUEST :: u32 where "MACH_PORT_TYPE_DNREQUEST \<equiv> 0x80000000"
abbreviation MACH_PORT_UREFS_MAX :: u32 where "MACH_PORT_UREFS_MAX \<equiv> 0xffff"

definition has :: "u32 \<Rightarrow> u32 \<Rightarrow> bool" where "has bits t \<longleftrightarrow> bits AND t \<noteq> 0"

text \<open>A \<open>mach_port_delta_t\<close> is signed; adding it to a count is modulo the word size.\<close>

definition MACH_PORT_UREFS_OVERFLOW :: "u32 \<Rightarrow> u32 \<Rightarrow> bool" where
  "MACH_PORT_UREFS_OVERFLOW urefs delta \<longleftrightarrow>
     0 < sint delta \<and> (urefs + delta \<le> urefs \<or> MACH_PORT_UREFS_MAX < urefs + delta)"

definition MACH_PORT_UREFS_UNDERFLOW :: "u32 \<Rightarrow> u32 \<Rightarrow> bool" where
  "MACH_PORT_UREFS_UNDERFLOW urefs delta \<longleftrightarrow> sint delta < 0 \<and> urefs < - delta"

section \<open>The reverse hash table\<close>

definition ipc_hash_insert ::
  "nat \<Rightarrow> mach_port_name \<Rightarrow> ipc_entry_ref \<Rightarrow> 'z right_state_scheme \<Rightarrow> 'z right_state_scheme option" where
  "ipc_hash_insert obj name r st =
     (let s = st_space st; index = unat (MACH_PORT_INDEX name) in
      if index < is_table_size s \<and> r = In_Table index
      then Some (st\<lparr>st_space := s\<lparr>is_hash := is_hash s @ [ipc_hash_local_insert (Some obj) index]\<rparr>\<rparr>)
      else do {
        asserting (\<not> is_fast s);
        Some (st\<lparr>st_space := s\<lparr>is_hash := is_hash s @ [ipc_hash_global_insert (Some obj) name]\<rparr>\<rparr>)
      })"

definition ipc_hash_delete ::
  "nat \<Rightarrow> mach_port_name \<Rightarrow> ipc_entry_ref \<Rightarrow> 'z right_state_scheme \<Rightarrow> 'z right_state_scheme option" where
  "ipc_hash_delete obj name r st =
     (let s = st_space st; index = unat (MACH_PORT_INDEX name) in
      if index < is_table_size s \<and> r = In_Table index
      then Some (st\<lparr>st_space := s\<lparr>is_hash := is_hash s @ [ipc_hash_local_delete (Some obj) index]\<rparr>\<rparr>)
      else do {
        asserting (\<not> is_fast s);
        Some (st\<lparr>st_space := s\<lparr>is_hash := is_hash s @ [ipc_hash_global_delete (Some obj) name]\<rparr>\<rparr>)
      })"

section \<open>Lookups\<close>

definition ipc_right_lookup_write ::
  "mach_port_name \<Rightarrow> 'z right_state_scheme \<Rightarrow> ('z right_state_scheme \<times> (kern_return + ipc_entry_ref)) option" where
  "ipc_right_lookup_write name st =
     (if \<not> is_active (st_space st) then Some (st, Inl KERN_INVALID_TASK)
      else do {
        (s, found) \<leftarrow> ipc_entry_lookup (st_space st) name;
        Some (st\<lparr>st_space := s\<rparr>, case found of None \<Rightarrow> Inl KERN_INVALID_NAME | Some r \<Rightarrow> Inr r)
      })"

definition ipc_right_lookup_two_write ::
  "mach_port_name \<Rightarrow> mach_port_name \<Rightarrow> 'z right_state_scheme \<Rightarrow>
   ('z right_state_scheme \<times> (kern_return + ipc_entry_ref \<times> ipc_entry_ref)) option" where
  "ipc_right_lookup_two_write name1 name2 st =
     (if \<not> is_active (st_space st) then Some (st, Inl KERN_INVALID_TASK)
      else do {
        (s1, found1) \<leftarrow> ipc_entry_lookup (st_space st) name1;
        (case found1 of
          None \<Rightarrow> Some (st\<lparr>st_space := s1\<rparr>, Inl KERN_INVALID_NAME)
        | Some r1 \<Rightarrow> do {
            (s2, found2) \<leftarrow> ipc_entry_lookup s1 name2;
            Some (st\<lparr>st_space := s2\<rparr>, case found2 of None \<Rightarrow> Inl KERN_INVALID_NAME | Some r2 \<Rightarrow> Inr (r1, r2))
          })
      })"

definition ipc_right_inuse :: "ipc_entry \<Rightarrow> bool" where
  "ipc_right_inuse entry \<longleftrightarrow> IE_BITS_TYPE (ie_bits entry) \<noteq> MACH_PORT_TYPE_NONE"

section \<open>Dead names\<close>

definition ipc_right_check ::
  "nat \<Rightarrow> mach_port_name \<Rightarrow> ipc_entry_ref \<Rightarrow> 'z right_state_scheme \<Rightarrow> ('z right_state_scheme \<times> bool) option" where
  "ipc_right_check p name r st =
     do {
       asserting (is_active (st_space st));
       entry \<leftarrow> get_entry r st;
       asserting (ie_object entry = Some p);
       if ip_active (st_ports st p) then Some (st, False)
       else do {
         let bits = ie_bits entry;
         asserting (\<not> has bits MACH_PORT_TYPE_RECEIVE \<and> 0 < IE_BITS_UREFS bits);
         asserting (if has bits MACH_PORT_TYPE_SEND then IE_BITS_TYPE bits = MACH_PORT_TYPE_SEND
                    else IE_BITS_TYPE bits = MACH_PORT_TYPE_SEND_ONCE \<and> IE_BITS_UREFS bits = 1);
         st1 \<leftarrow> ipc_port_release p st;
         st2 \<leftarrow> (if has bits MACH_PORT_TYPE_SEND \<and> \<not> has bits MACH_PORT_TYPE_RECEIVE
                then ipc_hash_delete p name r st1 else Some st1);
         let dead = (bits AND NOT IE_BITS_TYPE_MASK) OR MACH_PORT_TYPE_DEAD_NAME;
         asserting (ie_request entry \<noteq> 0 \<longrightarrow> IE_BITS_UREFS dead < MACH_PORT_UREFS_MAX);
         Some (put_entry r \<lparr>ie_object = None, ie_bits = if ie_request entry \<noteq> 0 then dead + 1 else dead,
                            ie_request = 0\<rparr> st2, True)
       }
     }"

definition ipc_right_dncancel ::
  "nat \<Rightarrow> mach_port_name \<Rightarrow> ipc_entry_ref \<Rightarrow> 'z right_state_scheme \<Rightarrow> ('z right_state_scheme \<times> nat) option" where
  "ipc_right_dncancel p name r st =
     do {
       asserting (ip_active (st_ports st p));
       entry \<leftarrow> get_entry r st;
       asserting (ie_object entry = Some p);
       (port, dnrequest) \<leftarrow> ipc_port_dncancel (st_ports st p) name (unat (ie_request entry));
       st1 \<leftarrow> put_request r 0 (set_port p port st);
       Some (st1, dnrequest)
     }"

definition ipc_right_dncancel_macro ::
  "nat \<Rightarrow> mach_port_name \<Rightarrow> ipc_entry_ref \<Rightarrow> 'z right_state_scheme \<Rightarrow>
   ('z right_state_scheme \<times> nat option) option" where
  "ipc_right_dncancel_macro p name r st =
     do {
       entry \<leftarrow> get_entry r st;
       if ie_request entry = 0 then Some (st, None)
       else map_option (\<lambda>(st1, dnrequest). (st1, Some dnrequest)) (ipc_right_dncancel p name r st)
     }"

text \<open>\<open>ipc_notify_port_deleted\<close>, if there was a request.\<close>

definition port_deleted :: "nat option \<Rightarrow> mach_port_name \<Rightarrow> ipc_call list" where
  "port_deleted dnrequest name = (case dnrequest of None \<Rightarrow> [] | Some n \<Rightarrow> [ipc_notify_port_deleted n name])"

text \<open>A turn of \<open>ipc_right_dnrequest\<close> ends it, or asks for a larger table of the port.\<close>

datatype dn_turn = Dn_Done "kern_return + nat option" | Dn_Grow nat

definition dead_dnrequest ::
  "mach_port_name \<Rightarrow> bool \<Rightarrow> nat option \<Rightarrow> ipc_entry_ref \<Rightarrow> 'z right_state_scheme \<Rightarrow>
   ('z right_state_scheme \<times> dn_turn) option" where
  "dead_dnrequest name immediate notify r st =
     do {
       entry \<leftarrow> get_entry r st;
       let bits = ie_bits entry;
       if has bits MACH_PORT_TYPE_DEAD_NAME \<and> immediate \<and> notify \<noteq> None then do {
         asserting (IE_BITS_TYPE bits = MACH_PORT_TYPE_DEAD_NAME \<and> 0 < IE_BITS_UREFS bits);
         if MACH_PORT_UREFS_OVERFLOW (IE_BITS_UREFS bits) 1 then Some (st, Dn_Done (Inl KERN_UREFS_OVERFLOW))
         else do {
           st1 \<leftarrow> put_bits r (bits + 1) st;
           Some (calling [ipc_notify_dead_name (the notify) name] st1, Dn_Done (Inr None))
         }
       }
       else Some (st, Dn_Done (Inl
         (if has bits MACH_PORT_TYPE_PORT_OR_DEAD then KERN_INVALID_ARGUMENT else KERN_INVALID_RIGHT)))
     }"

definition port_dnrequest ::
  "mach_port_name \<Rightarrow> nat option \<Rightarrow> nat \<Rightarrow> ipc_entry_ref \<Rightarrow> 'z right_state_scheme \<Rightarrow>
   ('z right_state_scheme \<times> dn_turn) option" where
  "port_dnrequest name notify p r st =
     do {
       (st1, previous) \<leftarrow> ipc_right_dncancel_macro p name r st;
       (case notify of
         None \<Rightarrow> Some (st1, Dn_Done (Inr previous))
       | Some soright \<Rightarrow> do {
           (port, res) \<leftarrow> ipc_port_dnrequest (st_ports st1 p) name soright;
           (case res of
             Inl _ \<Rightarrow> do { asserting (previous = None); Some (set_port p port st1, Dn_Grow p) }
           | Inr request \<Rightarrow> do {
               asserting (request \<noteq> 0);
               st2 \<leftarrow> put_request r (of_nat request) (set_port p port st1);
               Some (st2, Dn_Done (Inr previous))
             })
         })
     }"

definition dnrequest_turn ::
  "mach_port_name \<Rightarrow> bool \<Rightarrow> nat option \<Rightarrow> 'z right_state_scheme \<Rightarrow> ('z right_state_scheme \<times> dn_turn) option" where
  "dnrequest_turn name immediate notify st =
     do {
       (st1, found) \<leftarrow> ipc_right_lookup_write name st;
       (case found of
         Inl kr \<Rightarrow> Some (st1, Dn_Done (Inl kr))
       | Inr r \<Rightarrow> do {
           entry \<leftarrow> get_entry r st1;
           if has (ie_bits entry) MACH_PORT_TYPE_PORT_RIGHTS then do {
             p \<leftarrow> ie_object entry;
             (st2, dead) \<leftarrow> ipc_right_check p name r st1;
             if \<not> dead then port_dnrequest name notify p r st2
             else do {
               entry' \<leftarrow> get_entry r st2;
               asserting (has (ie_bits entry') MACH_PORT_TYPE_DEAD_NAME);
               dead_dnrequest name immediate notify r st2
             }
           }
           else dead_dnrequest name immediate notify r st1
         })
     }"

text \<open>What happens while \<open>ipc_port_dngrow\<close> allocates with nothing locked: to the port, whether there is
  memory for the table, and then to everything before the space is locked again.\<close>

type_synonym 'z dn_wait =
  "(ipc_port \<Rightarrow> ipc_port) \<times> nat option \<times> ('z right_state_scheme \<Rightarrow> 'z right_state_scheme)"

text \<open>Each turn that fails uses one of the waits; with none left the model has no result.\<close>

fun ipc_right_dnrequest ::
  "mach_port_name \<Rightarrow> bool \<Rightarrow> nat option \<Rightarrow> 'z dn_wait list \<Rightarrow> 'z right_state_scheme \<Rightarrow>
   ('z right_state_scheme \<times> (kern_return + nat option)) option" where
  "ipc_right_dnrequest name immediate notify waits st =
     do {
       (st1, turn) \<leftarrow> dnrequest_turn name immediate notify st;
       (case turn of
         Dn_Done res \<Rightarrow> Some (st1, res)
       | Dn_Grow p \<Rightarrow>
           (case waits of
             [] \<Rightarrow> None
           | (other, alloc, between) # waits' \<Rightarrow> do {
               (st2, kr) \<leftarrow> ipc_port_dngrow p None other alloc st1;
               if kr \<noteq> KERN_SUCCESS then Some (between st2, Inl kr)
               else ipc_right_dnrequest name immediate notify waits' (between st2)
             }))
     }"

declare ipc_right_dnrequest.simps [simp del]

section \<open>Cleaning and destroying an entry\<close>

text \<open>The receive right of the space to a port under a name.\<close>

definition receives :: "ipc_port \<Rightarrow> mach_port_name \<Rightarrow> nat \<Rightarrow> bool" where
  "receives port name self \<longleftrightarrow> ip_receiver_name port = name \<and> ip_data port = ip_receiver self"

text \<open>Giving up the right of an entry to a live port, whose dead-name request was cancelled before: the send
  right is dropped; the port is destroyed with a receive right, notified with a send-once right, and
  loses a reference otherwise.  The notifications are last.\<close>

definition drop_port_right ::
  "right_env \<Rightarrow> u32 \<Rightarrow> nat \<Rightarrow> mach_port_name \<Rightarrow> nat option \<Rightarrow> bool \<Rightarrow> 'z right_state_scheme \<Rightarrow>
   'z right_state_scheme option" where
  "drop_port_right env type p name dnrequest subsystem st =
     do {
       (port, nsrequest) \<leftarrow>
         (if has type MACH_PORT_TYPE_SEND then drop_send (st_ports st p) else Some (st_ports st p, []));
       let st1 = set_port p port st;
       st2 \<leftarrow>
         (if has type MACH_PORT_TYPE_RECEIVE then do {
            asserting (ip_data port = ip_receiver (st_self st));
            st2 \<leftarrow> ipc_port_clear_receiver p
              (calling (case ip_subsystem port of
                  None \<Rightarrow> [] | Some b \<Rightarrow> if subsystem then [subsystem_deallocate (st_subsystem st b)] else []) st1);
            ipc_port_destroy (re_fuel env) (re_try_dest env) (re_other env) p st2
          }
          else if has type MACH_PORT_TYPE_SEND_ONCE then do {
            asserting (0 < ip_sorights port);
            Some (calling [ipc_notify_send_once p] st1)
          }
          else do {
            asserting (ip_data port \<noteq> ip_receiver (st_self st));
            port' \<leftarrow> ip_release port;
            Some (set_port p port' st1)
          });
       Some (calling (nsrequest @ port_deleted dnrequest name) st2)
     }"

definition ipc_right_clean ::
  "right_env \<Rightarrow> mach_port_name \<Rightarrow> ipc_entry_ref \<Rightarrow> 'z right_state_scheme \<Rightarrow> 'z right_state_scheme option" where
  "ipc_right_clean env name r st =
     do {
       entry \<leftarrow> get_entry r st;
       let type = IE_BITS_TYPE (ie_bits entry);
       asserting (\<not> is_active (st_space st));
       if type = MACH_PORT_TYPE_DEAD_NAME then do {
         asserting (ie_request entry = 0 \<and> ie_object entry = None);
         Some st
       }
       else if type = MACH_PORT_TYPE_PORT_SET then do {
         asserting (ie_request entry = 0);
         pset \<leftarrow> ie_object entry;
         asserting (ips_active (st_psets st pset));
         Some (calling [ipc_pset_destroy pset] st)
       }
       else if type \<in> {MACH_PORT_TYPE_SEND, MACH_PORT_TYPE_RECEIVE, MACH_PORT_TYPE_SEND_RECEIVE,
                       MACH_PORT_TYPE_SEND_ONCE} then do {
         p \<leftarrow> ie_object entry;
         if \<not> ip_active (st_ports st p) then ipc_port_release p st
         else do {
           (st1, dnrequest) \<leftarrow> ipc_right_dncancel_macro p name r st;
           asserting (has type MACH_PORT_TYPE_RECEIVE \<longrightarrow> ip_receiver_name (st_ports st1 p) = name);
           drop_port_right env type p name dnrequest False st1
         }
       }
       else None
     }"

definition ipc_right_destroy ::
  "right_env \<Rightarrow> mach_port_name \<Rightarrow> ipc_entry_ref \<Rightarrow> 'z right_state_scheme \<Rightarrow>
   ('z right_state_scheme \<times> kern_return) option" where
  "ipc_right_destroy env name r st0 =
     do {
       entry \<leftarrow> get_entry r st0;
       let bits = ie_bits entry;
       st \<leftarrow> put_bits r (bits AND NOT IE_BITS_TYPE_MASK) st0;
       let type = IE_BITS_TYPE bits;
       asserting (is_active (st_space st));
       st' \<leftarrow>
         (if type = MACH_PORT_TYPE_DEAD_NAME then do {
            asserting (ie_request entry = 0 \<and> ie_object entry = None);
            entry_dealloc env name r st
          }
          else if type = MACH_PORT_TYPE_PORT_SET then do {
            asserting (ie_request entry = 0);
            pset \<leftarrow> ie_object entry;
            st1 \<leftarrow> put_object r None st;
            st2 \<leftarrow> entry_dealloc env name r st1;
            asserting (ips_active (st_psets st2 pset));
            Some (calling [ipc_pset_destroy pset] st2)
          }
          else if type \<in> {MACH_PORT_TYPE_SEND, MACH_PORT_TYPE_RECEIVE, MACH_PORT_TYPE_SEND_RECEIVE,
                          MACH_PORT_TYPE_SEND_ONCE} then do {
            p \<leftarrow> ie_object entry;
            st1 \<leftarrow> (if type = MACH_PORT_TYPE_SEND then ipc_hash_delete p name r st else Some st);
            if \<not> ip_active (st_ports st1 p) then do {
              asserting (\<not> has type MACH_PORT_TYPE_RECEIVE);
              st2 \<leftarrow> ipc_port_release p st1;
              st3 \<leftarrow> put_request r 0 st2;
              st4 \<leftarrow> put_object r None st3;
              entry_dealloc env name r st4
            }
            else do {
              (st2, dnrequest) \<leftarrow> ipc_right_dncancel_macro p name r st1;
              st3 \<leftarrow> put_object r None st2;
              st4 \<leftarrow> entry_dealloc env name r st3;
              drop_port_right env type p name dnrequest True st4
            }
          }
          else None);
       Some (st', KERN_SUCCESS)
     }"

section \<open>User references\<close>

text \<open>The label \<open>dead_name\<close> of \<open>ipc_right_dealloc\<close>.\<close>

definition dealloc_dead_name ::
  "right_env \<Rightarrow> mach_port_name \<Rightarrow> ipc_entry_ref \<Rightarrow> 'z right_state_scheme \<Rightarrow>
   ('z right_state_scheme \<times> kern_return) option" where
  "dealloc_dead_name env name r st =
     do {
       entry \<leftarrow> get_entry r st;
       let bits = ie_bits entry;
       asserting (0 < IE_BITS_UREFS bits \<and> ie_request entry = 0 \<and> ie_object entry = None);
       st' \<leftarrow> (if IE_BITS_UREFS bits = 1 then entry_dealloc env name r st else put_bits r (bits - 1) st);
       Some (st', KERN_SUCCESS)
     }"

text \<open>The last user reference of an entry that has only a send right, to a live port.\<close>

definition last_send ::
  "right_env \<Rightarrow> nat \<Rightarrow> mach_port_name \<Rightarrow> ipc_entry_ref \<Rightarrow> 'z right_state_scheme \<Rightarrow> 'z right_state_scheme option" where
  "last_send env p name r st =
     do {
       (port, nsrequest) \<leftarrow> drop_send (st_ports st p);
       (st1, dnrequest) \<leftarrow> ipc_right_dncancel_macro p name r (set_port p port st);
       st2 \<leftarrow> ipc_hash_delete p name r st1;
       port' \<leftarrow> ip_release (st_ports st2 p);
       st3 \<leftarrow> put_object r None (set_port p port' st2);
       st4 \<leftarrow> entry_dealloc env name r st3;
       Some (calling (nsrequest @ port_deleted dnrequest name) st4)
     }"

text \<open>The last user reference of an entry that keeps its receive right.\<close>

definition last_send_of_receiver ::
  "nat \<Rightarrow> ipc_entry_ref \<Rightarrow> u32 \<Rightarrow> 'z right_state_scheme \<Rightarrow> 'z right_state_scheme option" where
  "last_send_of_receiver p r bits st =
     do {
       (port, nsrequest) \<leftarrow> drop_send (st_ports st p);
       st1 \<leftarrow> put_bits r (bits AND NOT (IE_BITS_UREFS_MASK OR MACH_PORT_TYPE_SEND)) (set_port p port st);
       Some (calling nsrequest st1)
     }"

text \<open>A send-once right to a live port is used up.\<close>

definition use_send_once ::
  "right_env \<Rightarrow> nat \<Rightarrow> mach_port_name \<Rightarrow> ipc_entry_ref \<Rightarrow> 'z right_state_scheme \<Rightarrow> 'z right_state_scheme option" where
  "use_send_once env p name r st =
     do {
       (st1, dnrequest) \<leftarrow> ipc_right_dncancel_macro p name r st;
       st2 \<leftarrow> put_object r None st1;
       st3 \<leftarrow> entry_dealloc env name r st2;
       Some (calling (ipc_notify_send_once p # port_deleted dnrequest name) st3)
     }"

definition ipc_right_dealloc ::
  "right_env \<Rightarrow> mach_port_name \<Rightarrow> ipc_entry_ref \<Rightarrow> 'z right_state_scheme \<Rightarrow>
   ('z right_state_scheme \<times> kern_return) option" where
  "ipc_right_dealloc env name r st =
     do {
       entry \<leftarrow> get_entry r st;
       let bits = ie_bits entry;
       let type = IE_BITS_TYPE bits;
       asserting (is_active (st_space st));
       if type = MACH_PORT_TYPE_DEAD_NAME then dealloc_dead_name env name r st
       else if type = MACH_PORT_TYPE_SEND_ONCE then do {
         asserting (IE_BITS_UREFS bits = 1);
         p \<leftarrow> ie_object entry;
         (st1, dead) \<leftarrow> ipc_right_check p name r st;
         if dead then dealloc_dead_name env name r st1
         else do {
           asserting (0 < ip_sorights (st_ports st1 p));
           st2 \<leftarrow> use_send_once env p name r st1;
           Some (st2, KERN_SUCCESS)
         }
       }
       else if type = MACH_PORT_TYPE_SEND then do {
         asserting (0 < IE_BITS_UREFS bits);
         p \<leftarrow> ie_object entry;
         (st1, dead) \<leftarrow> ipc_right_check p name r st;
         if dead then dealloc_dead_name env name r st1
         else do {
           asserting (0 < ip_srights (st_ports st1 p));
           st2 \<leftarrow> (if IE_BITS_UREFS bits = 1 then last_send env p name r st1 else put_bits r (bits - 1) st1);
           Some (st2, KERN_SUCCESS)
         }
       }
       else if type = MACH_PORT_TYPE_SEND_RECEIVE then do {
         asserting (0 < IE_BITS_UREFS bits);
         p \<leftarrow> ie_object entry;
         let port = st_ports st p;
         asserting (ip_active port \<and> receives port name (st_self st) \<and> 0 < ip_srights port);
         st2 \<leftarrow> (if IE_BITS_UREFS bits = 1 then last_send_of_receiver p r bits st else put_bits r (bits - 1) st);
         Some (st2, KERN_SUCCESS)
       }
       else Some (st, KERN_INVALID_RIGHT)
     }"

datatype mach_port_right =
    MACH_PORT_RIGHT_SEND | MACH_PORT_RIGHT_RECEIVE | MACH_PORT_RIGHT_SEND_ONCE | MACH_PORT_RIGHT_PORT_SET
  | MACH_PORT_RIGHT_DEAD_NAME

definition delta_pset ::
  "right_env \<Rightarrow> mach_port_name \<Rightarrow> ipc_entry_ref \<Rightarrow> u32 \<Rightarrow> 'z right_state_scheme \<Rightarrow>
   ('z right_state_scheme \<times> kern_return) option" where
  "delta_pset env name r delta st =
     do {
       entry \<leftarrow> get_entry r st;
       let bits = ie_bits entry;
       if \<not> has bits MACH_PORT_TYPE_PORT_SET then Some (st, KERN_INVALID_RIGHT)
       else do {
         asserting (IE_BITS_TYPE bits = MACH_PORT_TYPE_PORT_SET \<and> IE_BITS_UREFS bits = 0 \<and> ie_request entry = 0);
         if delta = 0 then Some (st, KERN_SUCCESS)
         else if delta \<noteq> - 1 then Some (st, KERN_INVALID_VALUE)
         else do {
           pset \<leftarrow> ie_object entry;
           st1 \<leftarrow> put_object r None st;
           st2 \<leftarrow> entry_dealloc env name r st1;
           asserting (ips_active (st_psets st2 pset));
           Some (calling [ipc_pset_destroy pset] st2, KERN_SUCCESS)
         }
       }
     }"

definition delta_receive ::
  "right_env \<Rightarrow> mach_port_name \<Rightarrow> ipc_entry_ref \<Rightarrow> u32 \<Rightarrow> 'z right_state_scheme \<Rightarrow>
   ('z right_state_scheme \<times> kern_return) option" where
  "delta_receive env name r delta st =
     do {
       entry \<leftarrow> get_entry r st;
       let bits = ie_bits entry;
       if \<not> has bits MACH_PORT_TYPE_RECEIVE then Some (st, KERN_INVALID_RIGHT)
       else if delta = 0 then Some (st, KERN_SUCCESS)
       else if delta \<noteq> - 1 then Some (st, KERN_INVALID_VALUE)
       else do {
         p \<leftarrow> ie_object entry;
         asserting (ip_active (st_ports st p) \<and> receives (st_ports st p) name (st_self st));
         (st1, dnrequest) \<leftarrow>
           (if has bits MACH_PORT_TYPE_SEND then do {
              asserting (IE_BITS_TYPE bits = MACH_PORT_TYPE_SEND_RECEIVE);
              asserting (0 < IE_BITS_UREFS bits \<and> IE_BITS_UREFS bits < MACH_PORT_UREFS_MAX);
              asserting (0 < ip_srights (st_ports st p));
              let dead = (bits AND NOT IE_BITS_TYPE_MASK) OR MACH_PORT_TYPE_DEAD_NAME;
              Some (put_entry r \<lparr>ie_object = None, ie_bits = if ie_request entry \<noteq> 0 then dead + 1 else dead,
                                 ie_request = 0\<rparr> st, None)
            }
            else do {
              asserting (IE_BITS_TYPE bits = MACH_PORT_TYPE_RECEIVE \<and> IE_BITS_UREFS bits = 0);
              (st1, dnrequest) \<leftarrow> ipc_right_dncancel_macro p name r st;
              st2 \<leftarrow> put_object r None st1;
              st3 \<leftarrow> entry_dealloc env name r st2;
              Some (st3, dnrequest)
            });
         st2 \<leftarrow> ipc_port_clear_receiver p st1;
         st3 \<leftarrow> ipc_port_destroy (re_fuel env) (re_try_dest env) (re_other env) p st2;
         Some (calling (port_deleted dnrequest name) st3, KERN_SUCCESS)
       }
     }"

definition delta_send_once ::
  "right_env \<Rightarrow> mach_port_name \<Rightarrow> ipc_entry_ref \<Rightarrow> u32 \<Rightarrow> 'z right_state_scheme \<Rightarrow>
   ('z right_state_scheme \<times> kern_return) option" where
  "delta_send_once env name r delta st =
     do {
       entry \<leftarrow> get_entry r st;
       let bits = ie_bits entry;
       if \<not> has bits MACH_PORT_TYPE_SEND_ONCE then Some (st, KERN_INVALID_RIGHT)
       else do {
         asserting (IE_BITS_TYPE bits = MACH_PORT_TYPE_SEND_ONCE \<and> IE_BITS_UREFS bits = 1);
         p \<leftarrow> ie_object entry;
         (st1, dead) \<leftarrow> ipc_right_check p name r st;
         if dead then Some (st1, KERN_INVALID_RIGHT)
         else do {
           asserting (0 < ip_sorights (st_ports st1 p));
           if 0 < sint delta \<or> sint delta < - 1 then Some (st1, KERN_INVALID_VALUE)
           else if delta = 0 then Some (st1, KERN_SUCCESS)
           else do { st2 \<leftarrow> use_send_once env p name r st1; Some (st2, KERN_SUCCESS) }
         }
       }
     }"

definition delta_dead_name ::
  "right_env \<Rightarrow> mach_port_name \<Rightarrow> ipc_entry_ref \<Rightarrow> u32 \<Rightarrow> 'z right_state_scheme \<Rightarrow>
   ('z right_state_scheme \<times> kern_return) option" where
  "delta_dead_name env name r delta st =
     do {
       entry \<leftarrow> get_entry r st;
       (st1, is_dead) \<leftarrow>
         (if has (ie_bits entry) MACH_PORT_TYPE_SEND_RIGHTS
          then do { p \<leftarrow> ie_object entry; ipc_right_check p name r st }
          else Some (st, has (ie_bits entry) MACH_PORT_TYPE_DEAD_NAME));
       if \<not> is_dead then Some (st1, KERN_INVALID_RIGHT)
       else do {
         entry1 \<leftarrow> get_entry r st1;
         let bits = ie_bits entry1;
         let urefs = IE_BITS_UREFS bits;
         asserting (IE_BITS_TYPE bits = MACH_PORT_TYPE_DEAD_NAME \<and> 0 < urefs);
         asserting (ie_object entry1 = None \<and> ie_request entry1 = 0);
         if MACH_PORT_UREFS_UNDERFLOW urefs delta then Some (st1, KERN_INVALID_VALUE)
         else if MACH_PORT_UREFS_OVERFLOW urefs delta then Some (st1, KERN_UREFS_OVERFLOW)
         else do {
           st2 \<leftarrow> (if urefs + delta = 0 then entry_dealloc env name r st1 else put_bits r (bits + delta) st1);
           Some (st2, KERN_SUCCESS)
         }
       }
     }"

definition delta_send ::
  "right_env \<Rightarrow> mach_port_name \<Rightarrow> ipc_entry_ref \<Rightarrow> u32 \<Rightarrow> 'z right_state_scheme \<Rightarrow>
   ('z right_state_scheme \<times> kern_return) option" where
  "delta_send env name r delta st =
     do {
       entry \<leftarrow> get_entry r st;
       let bits = ie_bits entry;
       if \<not> has bits MACH_PORT_TYPE_SEND then Some (st, KERN_INVALID_RIGHT)
       else do {
         p \<leftarrow> ie_object entry;
         (st1, dead) \<leftarrow> ipc_right_check p name r st;
         if dead then Some (st1, KERN_INVALID_RIGHT)
         else do {
           asserting (0 < ip_srights (st_ports st1 p));
           let urefs = IE_BITS_UREFS bits;
           if MACH_PORT_UREFS_UNDERFLOW urefs delta then Some (st1, KERN_INVALID_VALUE)
           else if MACH_PORT_UREFS_OVERFLOW (urefs + 1) delta then Some (st1, KERN_UREFS_OVERFLOW)
           else do {
             st2 \<leftarrow>
               (if urefs + delta = 0 then
                  if has bits MACH_PORT_TYPE_RECEIVE then do {
                    asserting (receives (st_ports st1 p) name (st_self st1));
                    asserting (IE_BITS_TYPE bits = MACH_PORT_TYPE_SEND_RECEIVE);
                    last_send_of_receiver p r bits st1
                  }
                  else do {
                    asserting (IE_BITS_TYPE bits = MACH_PORT_TYPE_SEND);
                    last_send env p name r st1
                  }
                else put_bits r (bits + delta) st1);
             Some (st2, KERN_SUCCESS)
           }
         }
       }
     }"

definition ipc_right_delta ::
  "right_env \<Rightarrow> mach_port_name \<Rightarrow> ipc_entry_ref \<Rightarrow> mach_port_right \<Rightarrow> u32 \<Rightarrow> 'z right_state_scheme \<Rightarrow>
   ('z right_state_scheme \<times> kern_return) option" where
  "ipc_right_delta env name r right delta st =
     do {
       asserting (is_active (st_space st));
       (case right of
         MACH_PORT_RIGHT_PORT_SET \<Rightarrow> delta_pset env name r delta st
       | MACH_PORT_RIGHT_RECEIVE \<Rightarrow> delta_receive env name r delta st
       | MACH_PORT_RIGHT_SEND_ONCE \<Rightarrow> delta_send_once env name r delta st
       | MACH_PORT_RIGHT_DEAD_NAME \<Rightarrow> delta_dead_name env name r delta st
       | MACH_PORT_RIGHT_SEND \<Rightarrow> delta_send env name r delta st)
     }"

text \<open>The type, with the flag of a dead-name request, and the user references.\<close>

definition ipc_right_info ::
  "mach_port_name \<Rightarrow> ipc_entry_ref \<Rightarrow> 'z right_state_scheme \<Rightarrow> ('z right_state_scheme \<times> u32 \<times> u32) option" where
  "ipc_right_info name r st =
     do {
       entry \<leftarrow> get_entry r st;
       (st1, dead) \<leftarrow>
         (if has (ie_bits entry) MACH_PORT_TYPE_SEND_RIGHTS
          then do { p \<leftarrow> ie_object entry; ipc_right_check p name r st } else Some (st, False));
       entry1 \<leftarrow> get_entry r st1;
       let bits = ie_bits entry1;
       asserting (dead \<longrightarrow> IE_BITS_TYPE bits = MACH_PORT_TYPE_DEAD_NAME);
       Some (st1, if ie_request entry1 \<noteq> 0 then IE_BITS_TYPE bits OR MACH_PORT_TYPE_DNREQUEST else IE_BITS_TYPE bits,
             IE_BITS_UREFS bits)
     }"

section \<open>Copying in\<close>

text \<open>Disposition codes of messages; \<open>PORT_RECEIVE\<close>, \<open>PORT_SEND\<close> and \<open>PORT_SEND_ONCE\<close> are the codes of
  the three moves, all codes that are no port rights are \<open>TYPE_OTHER\<close>.\<close>

datatype mach_msg_type_name =
    MOVE_RECEIVE | MOVE_SEND | MOVE_SEND_ONCE | COPY_SEND | MAKE_SEND | MAKE_SEND_ONCE | TYPE_OTHER

definition ipc_right_copyin_check ::
  "ipc_entry_ref \<Rightarrow> mach_msg_type_name \<Rightarrow> 'z right_state_scheme \<Rightarrow> bool option" where
  "ipc_right_copyin_check r msgt_name st =
     do {
       entry \<leftarrow> get_entry r st;
       let bits = ie_bits entry;
       asserting (is_active (st_space st));
       if msgt_name \<in> {MAKE_SEND, MAKE_SEND_ONCE, MOVE_RECEIVE} then Some (has bits MACH_PORT_TYPE_RECEIVE)
       else if msgt_name \<in> {COPY_SEND, MOVE_SEND, MOVE_SEND_ONCE} then
         if has bits MACH_PORT_TYPE_DEAD_NAME then Some True
         else if \<not> has bits MACH_PORT_TYPE_SEND_RIGHTS then Some False
         else do {
           p \<leftarrow> ie_object entry;
           Some (\<not> ip_active (st_ports st p) \<or>
             (if msgt_name = MOVE_SEND_ONCE then has bits MACH_PORT_TYPE_SEND_ONCE else has bits MACH_PORT_TYPE_SEND))
         }
       else None
     }"

text \<open>The object of a right that was copied in.\<close>

datatype ipc_object = IO_DEAD | IO_PORT nat

type_synonym 'z copied = "'z right_state_scheme \<times> (kern_return + ipc_object \<times> nat option)"

text \<open>The port of an entry with a receive right, as the three cases that need one find it.\<close>

definition receive_port ::
  "mach_port_name \<Rightarrow> ipc_entry_ref \<Rightarrow> 'z right_state_scheme \<Rightarrow> nat option" where
  "receive_port name r st =
     do {
       entry \<leftarrow> get_entry r st;
       p \<leftarrow> ie_object entry;
       asserting (ip_active (st_ports st p) \<and> receives (st_ports st p) name (st_self st));
       Some p
     }"

definition copyin_make_send ::
  "mach_port_name \<Rightarrow> ipc_entry_ref \<Rightarrow> 'z right_state_scheme \<Rightarrow> 'z copied option" where
  "copyin_make_send name r st =
     do {
       p \<leftarrow> receive_port name r st;
       let port = st_ports st p;
       port' \<leftarrow> ip_reference (port\<lparr>ip_mscount := ip_mscount port + 1, ip_srights := ip_srights port + 1\<rparr>);
       Some (set_port p port' st, Inr (IO_PORT p, None))
     }"

definition copyin_make_send_once ::
  "mach_port_name \<Rightarrow> ipc_entry_ref \<Rightarrow> 'z right_state_scheme \<Rightarrow> 'z copied option" where
  "copyin_make_send_once name r st =
     do {
       p \<leftarrow> receive_port name r st;
       let port = st_ports st p;
       port' \<leftarrow> ip_reference (port\<lparr>ip_sorights := ip_sorights port + 1\<rparr>);
       Some (set_port p port' st, Inr (IO_PORT p, None))
     }"

definition copyin_move_receive ::
  "mach_port_name \<Rightarrow> ipc_entry_ref \<Rightarrow> 'z right_state_scheme \<Rightarrow> 'z copied option" where
  "copyin_move_receive name r st =
     do {
       entry \<leftarrow> get_entry r st;
       let bits = ie_bits entry;
       p \<leftarrow> receive_port name r st;
       (st1, dnrequest) \<leftarrow>
         (if has bits MACH_PORT_TYPE_SEND then do {
            asserting (IE_BITS_TYPE bits = MACH_PORT_TYPE_SEND_RECEIVE \<and> 0 < IE_BITS_UREFS bits);
            asserting (0 < ip_srights (st_ports st p));
            st1 \<leftarrow> ipc_hash_insert p name r st;
            port \<leftarrow> ip_reference (st_ports st1 p);
            Some (set_port p port st1, None)
          }
          else do {
            asserting (IE_BITS_TYPE bits = MACH_PORT_TYPE_RECEIVE \<and> IE_BITS_UREFS bits = 0);
            (st1, dnrequest) \<leftarrow> ipc_right_dncancel_macro p name r st;
            st2 \<leftarrow> put_object r None st1;
            Some (st2, dnrequest)
          });
       st2 \<leftarrow> put_bits r (bits AND NOT MACH_PORT_TYPE_RECEIVE) st1;
       st3 \<leftarrow> ipc_port_clear_receiver p st2;
       Some (set_port p ((st_ports st3 p)\<lparr>ip_receiver_name := 0, ip_data := ip_destination None\<rparr>) st3,
             Inr (IO_PORT p, dnrequest))
     }"

text \<open>The labels \<open>copy_dead\<close> and \<open>move_dead\<close>.\<close>

definition dead_entry_ok :: "ipc_entry \<Rightarrow> bool" where
  "dead_entry_ok entry \<longleftrightarrow>
     IE_BITS_TYPE (ie_bits entry) = MACH_PORT_TYPE_DEAD_NAME \<and> 0 < IE_BITS_UREFS (ie_bits entry) \<and>
     ie_request entry = 0 \<and> ie_object entry = None"

definition copy_dead :: "ipc_entry_ref \<Rightarrow> bool \<Rightarrow> 'z right_state_scheme \<Rightarrow> 'z copied option" where
  "copy_dead r deadok st =
     do {
       entry \<leftarrow> get_entry r st;
       asserting (dead_entry_ok entry);
       Some (st, if \<not> deadok then Inl KERN_INVALID_RIGHT else Inr (IO_DEAD, None))
     }"

definition move_dead :: "ipc_entry_ref \<Rightarrow> bool \<Rightarrow> 'z right_state_scheme \<Rightarrow> 'z copied option" where
  "move_dead r deadok st =
     do {
       entry \<leftarrow> get_entry r st;
       let bits = ie_bits entry;
       asserting (dead_entry_ok entry);
       if \<not> deadok then Some (st, Inl KERN_INVALID_RIGHT)
       else do {
         st1 \<leftarrow> put_bits r
           ((if IE_BITS_UREFS bits = 1 then bits AND NOT MACH_PORT_TYPE_DEAD_NAME else bits) - 1) st;
         Some (st1, Inr (IO_DEAD, None))
       }
     }"

text \<open>What the cases for send and send-once rights begin with: \<open>dead\<close> is where they go with a dead
  name, \<open>alive\<close> with a live port.\<close>

definition with_send_right ::
  "mach_port_name \<Rightarrow> ipc_entry_ref \<Rightarrow> ('z right_state_scheme \<Rightarrow> 'z copied option) \<Rightarrow>
   (nat \<Rightarrow> 'z right_state_scheme \<Rightarrow> 'z copied option) \<Rightarrow> 'z right_state_scheme \<Rightarrow> 'z copied option" where
  "with_send_right name r dead alive st =
     do {
       entry \<leftarrow> get_entry r st;
       let bits = ie_bits entry;
       if has bits MACH_PORT_TYPE_DEAD_NAME then dead st
       else if \<not> has bits MACH_PORT_TYPE_SEND_RIGHTS then Some (st, Inl KERN_INVALID_RIGHT)
       else do {
         asserting (0 < IE_BITS_UREFS bits);
         p \<leftarrow> ie_object entry;
         (st1, died) \<leftarrow> ipc_right_check p name r st;
         if died then dead st1 else alive p st1
       }
     }"

text \<open>A send-once right is not what a send right is asked for.\<close>

definition not_a_send ::
  "u32 \<Rightarrow> nat \<Rightarrow> 'z right_state_scheme \<Rightarrow> 'z copied option" where
  "not_a_send bits p st =
     do {
       asserting (IE_BITS_TYPE bits = MACH_PORT_TYPE_SEND_ONCE \<and> 0 < ip_sorights (st_ports st p));
       Some (st, Inl KERN_INVALID_RIGHT)
     }"

definition copyin_copy_send ::
  "ipc_entry_ref \<Rightarrow> nat \<Rightarrow> 'z right_state_scheme \<Rightarrow> 'z copied option" where
  "copyin_copy_send r p st =
     do {
       entry \<leftarrow> get_entry r st;
       if \<not> has (ie_bits entry) MACH_PORT_TYPE_SEND then not_a_send (ie_bits entry) p st
       else do {
         let port = st_ports st p;
         asserting (0 < ip_srights port);
         port' \<leftarrow> ip_reference (port\<lparr>ip_srights := ip_srights port + 1\<rparr>);
         Some (set_port p port' st, Inr (IO_PORT p, None))
       }
     }"

definition copyin_move_send ::
  "mach_port_name \<Rightarrow> ipc_entry_ref \<Rightarrow> nat \<Rightarrow> 'z right_state_scheme \<Rightarrow> 'z copied option" where
  "copyin_move_send name r p st =
     do {
       entry \<leftarrow> get_entry r st;
       let bits = ie_bits entry;
       if \<not> has bits MACH_PORT_TYPE_SEND then not_a_send bits p st
       else do {
         let port = st_ports st p;
         asserting (0 < ip_srights port);
         if IE_BITS_UREFS bits = 1 then do {
           (st1, dnrequest) \<leftarrow>
             (if has bits MACH_PORT_TYPE_RECEIVE then do {
                asserting (receives port name (st_self st) \<and> IE_BITS_TYPE bits = MACH_PORT_TYPE_SEND_RECEIVE);
                port' \<leftarrow> ip_reference port;
                Some (set_port p port' st, None)
              }
              else do {
                asserting (IE_BITS_TYPE bits = MACH_PORT_TYPE_SEND);
                (st1, dnrequest) \<leftarrow> ipc_right_dncancel_macro p name r st;
                st2 \<leftarrow> ipc_hash_delete p name r st1;
                st3 \<leftarrow> put_object r None st2;
                Some (st3, dnrequest)
              });
           st2 \<leftarrow> put_bits r (bits AND NOT (IE_BITS_UREFS_MASK OR MACH_PORT_TYPE_SEND)) st1;
           Some (st2, Inr (IO_PORT p, dnrequest))
         }
         else do {
           port' \<leftarrow> ip_reference (port\<lparr>ip_srights := ip_srights port + 1\<rparr>);
           st1 \<leftarrow> put_bits r (bits - 1) (set_port p port' st);
           Some (st1, Inr (IO_PORT p, None))
         }
       }
     }"

definition copyin_move_send_once ::
  "mach_port_name \<Rightarrow> ipc_entry_ref \<Rightarrow> nat \<Rightarrow> 'z right_state_scheme \<Rightarrow> 'z copied option" where
  "copyin_move_send_once name r p st =
     do {
       entry \<leftarrow> get_entry r st;
       let bits = ie_bits entry;
       if \<not> has bits MACH_PORT_TYPE_SEND_ONCE then do {
         asserting (has bits MACH_PORT_TYPE_SEND \<and> 0 < ip_srights (st_ports st p));
         Some (st, Inl KERN_INVALID_RIGHT)
       }
       else do {
         asserting (IE_BITS_TYPE bits = MACH_PORT_TYPE_SEND_ONCE \<and> IE_BITS_UREFS bits = 1);
         asserting (0 < ip_sorights (st_ports st p));
         (st1, dnrequest) \<leftarrow> ipc_right_dncancel_macro p name r st;
         st2 \<leftarrow> put_object r None st1;
         st3 \<leftarrow> put_bits r (bits AND NOT (IE_BITS_UREFS_MASK OR MACH_PORT_TYPE_SEND_ONCE)) st2;
         Some (st3, Inr (IO_PORT p, dnrequest))
       }
     }"

definition ipc_right_copyin ::
  "mach_port_name \<Rightarrow> ipc_entry_ref \<Rightarrow> mach_msg_type_name \<Rightarrow> bool \<Rightarrow> 'z right_state_scheme \<Rightarrow>
   'z copied option" where
  "ipc_right_copyin name r msgt_name deadok st =
     do {
       entry \<leftarrow> get_entry r st;
       let receive = has (ie_bits entry) MACH_PORT_TYPE_RECEIVE;
       asserting (is_active (st_space st));
       (case msgt_name of
         MAKE_SEND \<Rightarrow> if receive then copyin_make_send name r st else Some (st, Inl KERN_INVALID_RIGHT)
       | MAKE_SEND_ONCE \<Rightarrow> if receive then copyin_make_send_once name r st else Some (st, Inl KERN_INVALID_RIGHT)
       | MOVE_RECEIVE \<Rightarrow> if receive then copyin_move_receive name r st else Some (st, Inl KERN_INVALID_RIGHT)
       | COPY_SEND \<Rightarrow> with_send_right name r (copy_dead r deadok) (copyin_copy_send r) st
       | MOVE_SEND \<Rightarrow> with_send_right name r (move_dead r deadok) (copyin_move_send name r) st
       | MOVE_SEND_ONCE \<Rightarrow> with_send_right name r (move_dead r deadok) (copyin_move_send_once name r) st
       | TYPE_OTHER \<Rightarrow> Some (st, Inl KERN_INVALID_RIGHT))
     }"

text \<open>The bits of an entry that becomes a dead name with some user references.\<close>

definition undone_bits :: "u32 \<Rightarrow> u32 \<Rightarrow> u32" where
  "undone_bits bits urefs = (bits AND NOT IE_BITS_RIGHT_MASK) OR MACH_PORT_TYPE_DEAD_NAME OR urefs"

definition ipc_right_copyin_undo ::
  "mach_port_name \<Rightarrow> ipc_entry_ref \<Rightarrow> mach_msg_type_name \<Rightarrow> ipc_object \<Rightarrow> nat option \<Rightarrow>
   'z right_state_scheme \<Rightarrow> 'z right_state_scheme option" where
  "ipc_right_copyin_undo name r msgt_name object soright st =
     do {
       entry \<leftarrow> get_entry r st;
       let bits = ie_bits entry;
       let move = (msgt_name \<in> {MOVE_SEND, MOVE_SEND_ONCE});
       asserting (is_active (st_space st));
       asserting (move \<or> msgt_name = COPY_SEND);
       st1 \<leftarrow>
         (if soright \<noteq> None then do {
            asserting (move \<and> IE_BITS_TYPE bits = MACH_PORT_TYPE_NONE \<and> object \<noteq> IO_DEAD);
            put_bits r (undone_bits bits 2) st
          }
          else if IE_BITS_TYPE bits = MACH_PORT_TYPE_NONE then do {
            asserting move;
            put_bits r (undone_bits bits 1) st
          }
          else if IE_BITS_TYPE bits = MACH_PORT_TYPE_DEAD_NAME then do {
            asserting (object = IO_DEAD \<and> 0 < IE_BITS_UREFS bits);
            if msgt_name \<noteq> COPY_SEND then do {
              asserting (IE_BITS_UREFS bits < MACH_PORT_UREFS_MAX);
              put_bits r (bits + 1) st
            }
            else Some st
          }
          else do {
            asserting (msgt_name = MOVE_SEND \<or> msgt_name = COPY_SEND);
            asserting (IE_BITS_TYPE bits = MACH_PORT_TYPE_SEND \<and> 0 < IE_BITS_UREFS bits);
            (case object of
              IO_DEAD \<Rightarrow> None
            | IO_PORT p \<Rightarrow> do {
                asserting (ie_object entry = Some p);
                asserting (msgt_name \<noteq> COPY_SEND \<longrightarrow> IE_BITS_UREFS bits < MACH_PORT_UREFS_MAX - 1);
                st1 \<leftarrow> (if msgt_name \<noteq> COPY_SEND then put_bits r (bits + 1) st else Some st);
                map_option fst (ipc_right_check p name r st1)
              })
          });
       (case object of IO_DEAD \<Rightarrow> Some st1 | IO_PORT p \<Rightarrow> ipc_port_release p st1)
     }"

text \<open>\<open>copyin_two\<close> never returns \<open>IO_DEAD\<close>.\<close>

definition ipc_right_copyin_two ::
  "mach_port_name \<Rightarrow> ipc_entry_ref \<Rightarrow> 'z right_state_scheme \<Rightarrow>
   ('z right_state_scheme \<times> (kern_return + nat \<times> nat option)) option" where
  "ipc_right_copyin_two name r st =
     do {
       asserting (is_active (st_space st));
       entry \<leftarrow> get_entry r st;
       let bits = ie_bits entry;
       let urefs = IE_BITS_UREFS bits;
       if \<not> has bits MACH_PORT_TYPE_SEND \<or> urefs < 2 then Some (st, Inl KERN_INVALID_RIGHT)
       else do {
         p \<leftarrow> ie_object entry;
         (st1, dead) \<leftarrow> ipc_right_check p name r st;
         if dead then Some (st1, Inl KERN_INVALID_RIGHT)
         else do {
           let port = st_ports st1 p;
           asserting (0 < ip_srights port);
           if urefs = 2 then do {
             (st2, dnrequest) \<leftarrow>
               (if has bits MACH_PORT_TYPE_RECEIVE then do {
                  asserting (receives port name (st_self st1) \<and> IE_BITS_TYPE bits = MACH_PORT_TYPE_SEND_RECEIVE);
                  port1 \<leftarrow> ip_reference (port\<lparr>ip_srights := ip_srights port + 1\<rparr>);
                  port2 \<leftarrow> ip_reference port1;
                  Some (set_port p port2 st1, None)
                }
                else do {
                  asserting (IE_BITS_TYPE bits = MACH_PORT_TYPE_SEND);
                  (st2, dnrequest) \<leftarrow> ipc_right_dncancel_macro p name r st1;
                  let port1 = st_ports st2 p;
                  port2 \<leftarrow> ip_reference (port1\<lparr>ip_srights := ip_srights port1 + 1\<rparr>);
                  st3 \<leftarrow> ipc_hash_delete p name r (set_port p port2 st2);
                  st4 \<leftarrow> put_object r None st3;
                  Some (st4, dnrequest)
                });
             st3 \<leftarrow> put_bits r (bits AND NOT (IE_BITS_UREFS_MASK OR MACH_PORT_TYPE_SEND)) st2;
             Some (st3, Inr (p, dnrequest))
           }
           else do {
             port1 \<leftarrow> ip_reference (port\<lparr>ip_srights := ip_srights port + 2\<rparr>);
             port2 \<leftarrow> ip_reference port1;
             st2 \<leftarrow> put_bits r (bits - 2) (set_port p port2 st1);
             Some (st2, Inr (p, None))
           }
         }
       }
     }"

section \<open>Copying out\<close>

definition copyout_send ::
  "mach_port_name \<Rightarrow> ipc_entry_ref \<Rightarrow> bool \<Rightarrow> nat \<Rightarrow> u32 \<Rightarrow> 'z right_state_scheme \<Rightarrow>
   ('z right_state_scheme \<times> kern_return) option" where
  "copyout_send name r overflow p bits st =
     (let port = st_ports st p; urefs = IE_BITS_UREFS bits in do {
        asserting (0 < ip_srights port);
        if has bits MACH_PORT_TYPE_SEND then do {
          asserting (1 < ip_srights port \<and> 0 < urefs \<and> urefs < MACH_PORT_UREFS_MAX);
          if urefs + 1 = MACH_PORT_UREFS_MAX \<and> \<not> overflow then Some (st, KERN_UREFS_OVERFLOW)
          else do {
            port' \<leftarrow> ip_release (port\<lparr>ip_srights := ip_srights port - 1\<rparr>);
            let st1 = set_port p port' st;
            if urefs + 1 = MACH_PORT_UREFS_MAX then Some (st1, KERN_SUCCESS)
            else do { st2 \<leftarrow> put_bits r ((bits OR MACH_PORT_TYPE_SEND) + 1) st1; Some (st2, KERN_SUCCESS) }
          }
        }
        else do {
          asserting (urefs = 0);
          st1 \<leftarrow>
            (if has bits MACH_PORT_TYPE_RECEIVE then do {
               asserting (IE_BITS_TYPE bits = MACH_PORT_TYPE_RECEIVE);
               port' \<leftarrow> ip_release port;
               Some (set_port p port' st)
             }
             else do {
               asserting (IE_BITS_TYPE bits = MACH_PORT_TYPE_NONE);
               ipc_hash_insert p name r st
             });
          st2 \<leftarrow> put_bits r ((bits OR MACH_PORT_TYPE_SEND) + 1) st1;
          Some (st2, KERN_SUCCESS)
        }
      })"

definition copyout_receive ::
  "mach_port_name \<Rightarrow> ipc_entry_ref \<Rightarrow> nat \<Rightarrow> u32 \<Rightarrow> 'z right_state_scheme \<Rightarrow>
   ('z right_state_scheme \<times> kern_return) option" where
  "copyout_receive name r p bits st =
     (let port = st_ports st p in do {
        asserting (ip_mscount port = 0 \<and> ip_receiver_name port = 0);
        dest \<leftarrow> (case ip_data port of ip_destination d \<Rightarrow> Some d | _ \<Rightarrow> None);
        let port1 = port\<lparr>ip_receiver_name := name, ip_data := ip_receiver (st_self st)\<rparr>;
        asserting (\<not> has bits MACH_PORT_TYPE_RECEIVE);
        st1 \<leftarrow>
          (if has bits MACH_PORT_TYPE_SEND then do {
             asserting (IE_BITS_TYPE bits = MACH_PORT_TYPE_SEND \<and> 0 < IE_BITS_UREFS bits \<and> 0 < ip_srights port1);
             port2 \<leftarrow> ip_release port1;
             ipc_hash_delete p name r (set_port p port2 st)
           }
           else do {
             asserting (IE_BITS_TYPE bits = MACH_PORT_TYPE_NONE \<and> IE_BITS_UREFS bits = 0);
             Some (set_port p port1 st)
           });
        st2 \<leftarrow> put_bits r (bits OR MACH_PORT_TYPE_RECEIVE) st1;
        st3 \<leftarrow> (case dest of None \<Rightarrow> Some st2 | Some d \<Rightarrow> ipc_port_release d st2);
        Some (st3, KERN_SUCCESS)
      })"

definition ipc_right_copyout ::
  "mach_port_name \<Rightarrow> ipc_entry_ref \<Rightarrow> mach_msg_type_name \<Rightarrow> bool \<Rightarrow> nat \<Rightarrow> 'z right_state_scheme \<Rightarrow>
   ('z right_state_scheme \<times> kern_return) option" where
  "ipc_right_copyout name r msgt_name overflow p st =
     do {
       entry \<leftarrow> get_entry r st;
       let bits = ie_bits entry;
       asserting (ip_active (st_ports st p) \<and> ie_object entry = Some p);
       (case msgt_name of
         MOVE_SEND_ONCE \<Rightarrow> do {
           asserting (IE_BITS_TYPE bits = MACH_PORT_TYPE_NONE \<and> 0 < ip_sorights (st_ports st p));
           st1 \<leftarrow> put_bits r (bits OR (MACH_PORT_TYPE_SEND_ONCE OR 1)) st;
           Some (st1, KERN_SUCCESS)
         }
       | MOVE_SEND \<Rightarrow> copyout_send name r overflow p bits st
       | MOVE_RECEIVE \<Rightarrow> copyout_receive name r p bits st
       | _ \<Rightarrow> None)
     }"

section \<open>Renaming\<close>

text \<open>What the type of the right asks for when its name changes.\<close>

definition rename_object ::
  "u32 \<Rightarrow> nat option \<Rightarrow> mach_port_name \<Rightarrow> ipc_entry_ref \<Rightarrow> mach_port_name \<Rightarrow> ipc_entry_ref \<Rightarrow>
   'z right_state_scheme \<Rightarrow> 'z right_state_scheme option" where
  "rename_object type object oname ro nname rn st =
     (if type = MACH_PORT_TYPE_SEND then do {
        p \<leftarrow> object;
        st1 \<leftarrow> ipc_hash_delete p oname ro st;
        ipc_hash_insert p nname rn st1
      }
      else if type = MACH_PORT_TYPE_RECEIVE \<or> type = MACH_PORT_TYPE_SEND_RECEIVE then do {
        p \<leftarrow> object;
        let port = st_ports st p;
        asserting (ip_active port \<and> receives port oname (st_self st));
        Some (set_port p (port\<lparr>ip_receiver_name := nname\<rparr>) st)
      }
      else if type = MACH_PORT_TYPE_PORT_SET then do {
        pset \<leftarrow> object;
        let ps = st_psets st pset;
        asserting (ips_active ps \<and> ips_local_name ps = oname);
        Some (st\<lparr>st_psets := (st_psets st)(pset := ps\<lparr>ips_local_name := nname\<rparr>)\<rparr>)
      }
      else if type = MACH_PORT_TYPE_SEND_ONCE \<or> type = MACH_PORT_TYPE_DEAD_NAME then Some st
      else None)"

definition ipc_right_rename ::
  "right_env \<Rightarrow> mach_port_name \<Rightarrow> ipc_entry_ref \<Rightarrow> mach_port_name \<Rightarrow> ipc_entry_ref \<Rightarrow> 'z right_state_scheme \<Rightarrow>
   ('z right_state_scheme \<times> kern_return) option" where
  "ipc_right_rename env oname ro nname rn st =
     do {
       oentry \<leftarrow> get_entry ro st;
       asserting (is_active (st_space st) \<and> oname \<noteq> nname);
       (st1, bits, request, object) \<leftarrow>
         (if ie_request oentry \<noteq> 0 then do {
            asserting (has (ie_bits oentry) MACH_PORT_TYPE_PORT_RIGHTS);
            p \<leftarrow> ie_object oentry;
            (st1, dead) \<leftarrow> ipc_right_check p oname ro st;
            if dead then do {
              oentry1 \<leftarrow> get_entry ro st1;
              asserting (IE_BITS_TYPE (ie_bits oentry1) = MACH_PORT_TYPE_DEAD_NAME \<and> ie_request oentry1 = 0);
              Some (st1, ie_bits oentry1, 0, None)
            }
            else do {
              port \<leftarrow> ipc_port_dnrename (st_ports st1 p) (unat (ie_request oentry)) oname nname;
              st2 \<leftarrow> put_request ro 0 (set_port p port st1);
              Some (st2, ie_bits oentry, ie_request oentry, ie_object oentry)
            }
          }
          else Some (st, ie_bits oentry, 0, ie_object oentry));
       nentry \<leftarrow> get_entry rn st1;
       asserting (ie_bits nentry AND IE_BITS_RIGHT_MASK = 0);
       let st2 = put_entry rn \<lparr>ie_object = object,
         ie_bits = ie_bits nentry OR (bits AND IE_BITS_RIGHT_MASK), ie_request = request\<rparr> st1;
       st3 \<leftarrow> rename_object (IE_BITS_TYPE bits) object oname ro nname rn st2;
       oentry2 \<leftarrow> get_entry ro st3;
       asserting (ie_request oentry2 = 0);
       st4 \<leftarrow> put_object ro None st3;
       st5 \<leftarrow> entry_dealloc env oname ro st4;
       Some (st5, KERN_SUCCESS)
     }"

end
