(* ===== verification/Ipc_Right_Base.thy ===== *)
theory Ipc_Right_Base
  imports Ipc_Right Ipc_Port_Props Ipc_Entry_Contract
begin

text \<open>
  The entries that the operations of ipc_right.c meet: the fields of their bits, stores to them, what makes
  them well formed with the ports they name, and the steps that the operations share.
\<close>

section \<open>Bit fields\<close>

lemma bits_high:
  assumes "drop_bit 16 a = drop_bit 16 (b :: u32)"
  shows "IE_BITS_TYPE a = IE_BITS_TYPE b" and "a AND 0xffff0000 = b AND 0xffff0000"
proof -
  have high: "x AND m = push_bit 16 (drop_bit 16 x AND drop_bit 16 m)" if "m AND 0xffff = 0" for x m :: u32
  proof (rule bit_word_eqI)
    fix n
    assume n: "n < LENGTH(32)"
    have "\<not> bit m n" if "n < 16"
    proof -
      have "bit (m AND 0xffff) n = (bit m n \<and> bit (mask 16 :: u32) n)"
        by (simp add: mask_eq_exp_minus_1 bit_and_iff)
      then show ?thesis
        using \<open>m AND 0xffff = 0\<close> that by (simp add: bit_mask_iff)
    qed
    then show "bit (x AND m) n = bit (push_bit 16 (drop_bit 16 x AND drop_bit 16 m)) n"
      using n by (cases "n < 16") (auto simp: bit_simps)
  qed
  have eq: "a AND m = b AND m" if "m AND 0xffff = 0" for m
    using high [OF that, of a] high [OF that, of b] assms by simp
  show "IE_BITS_TYPE a = IE_BITS_TYPE b" and "a AND 0xffff0000 = b AND 0xffff0000"
    using eq [of IE_BITS_TYPE_MASK] eq [of "0xffff0000"] unfolding IE_BITS_TYPE_def by simp_all
qed

lemma urefs_take: "IE_BITS_UREFS a = take_bit 16 a"
  by (simp add: IE_BITS_UREFS_def take_bit_eq_mask mask_eq_exp_minus_1)

lemma urefs_nat: "unat (IE_BITS_UREFS a) = unat a mod 65536"
  by (simp add: urefs_take take_bit_eq_mod unat_mod)

text \<open>Adding to the user references what leaves them in their field.\<close>

lemma urefs_add:
  assumes "unat (IE_BITS_UREFS b) + d < 65536"
  shows "IE_BITS_UREFS (b + of_nat d) = IE_BITS_UREFS b + of_nat d" and "IE_BITS_TYPE (b + of_nat d) = IE_BITS_TYPE b"
    and "(b + of_nat d) AND 0xffff0000 = b AND 0xffff0000"
proof -
  have d: "unat (of_nat d :: u32) = d"
    using assms by (intro unat_of_nat_u32) simp
  have split: "unat b = unat b div 65536 * 65536 + unat b mod 65536"
    by simp
  have "unat b div 65536 < 65536"
    using unsigned_less [of b, where ?'a = nat] by (simp add: div_less_iff_less_mult)
  then have "unat b + d < 4294967296"
    using split assms unfolding urefs_nat by linarith
  then have sum: "unat (b + of_nat d) = unat b + d"
    using d unat_add_u32 [of b "of_nat d"] by simp
  have "unat b + d = (unat b mod 65536 + d) + 65536 * (unat b div 65536)"
    by simp
  then have parts: "(unat b + d) div 65536 = unat b div 65536" "(unat b + d) mod 65536 = unat b mod 65536 + d"
    using assms unfolding urefs_nat by (metis add.right_neutral div_less div_mult_self2 zero_neq_numeral add.commute,
      metis mod_less mod_mult_self2)
  have "unat (drop_bit 16 (b + of_nat d)) = unat (drop_bit 16 b)"
    using sum parts(1) by (simp add: drop_bit_eq_div unat_div)
  then have "drop_bit 16 (b + of_nat d) = drop_bit 16 b"
    by (simp add: word_unat_eq_iff)
  from bits_high [OF this] show "IE_BITS_TYPE (b + of_nat d) = IE_BITS_TYPE b"
    and "(b + of_nat d) AND 0xffff0000 = b AND 0xffff0000"
    by simp_all
  have "unat (IE_BITS_UREFS (b + of_nat d)) = unat (IE_BITS_UREFS b) + d"
    using parts(2) sum by (simp add: urefs_nat)
  moreover have "unat (IE_BITS_UREFS b + of_nat d) = unat (IE_BITS_UREFS b) + d"
    using assms d unat_add_u32 [of "IE_BITS_UREFS b" "of_nat d"] by simp
  ultimately show "IE_BITS_UREFS (b + of_nat d) = IE_BITS_UREFS b + of_nat d"
    by (simp add: word_unat_eq_iff)
qed

lemma urefs_sub:
  assumes "d \<le> unat (IE_BITS_UREFS b)"
  shows "IE_BITS_UREFS (b - of_nat d) = IE_BITS_UREFS b - of_nat d" and "IE_BITS_TYPE (b - of_nat d) = IE_BITS_TYPE b"
    and "(b - of_nat d) AND 0xffff0000 = b AND 0xffff0000"
proof -
  have m: "unat b mod 65536 < 65536"
    by simp
  have "d < 4294967296"
    using assms m unfolding urefs_nat by linarith
  then have d: "unat (of_nat d :: u32) = d"
    by (intro unat_of_nat_u32) simp
  have "unat b mod 65536 \<le> unat b"
    by simp
  then have le: "of_nat d \<le> b"
    using assms d unfolding urefs_nat word_le_nat_alt by linarith
  have sub: "unat (b - of_nat d) = unat b - d"
    using unat_sub_u32 [OF le] d by simp
  have "unat b - d = unat b div 65536 * 65536 + (unat b mod 65536 - d)"
    using assms unfolding urefs_nat by (metis Nat.add_diff_assoc div_mult_mod_eq)
  then have "unat (IE_BITS_UREFS (b - of_nat d)) = unat (IE_BITS_UREFS b) - d"
    using sub m by (simp add: urefs_nat)
  then have "unat (IE_BITS_UREFS (b - of_nat d)) + d < 65536 \<and>
      unat (IE_BITS_UREFS (b - of_nat d)) = unat (IE_BITS_UREFS b) - d"
    using assms m unfolding urefs_nat by linarith
  then have fit: "unat (IE_BITS_UREFS (b - of_nat d)) + d < 65536"
    by blast
  note add = urefs_add [OF fit]
  show "IE_BITS_UREFS (b - of_nat d) = IE_BITS_UREFS b - of_nat d" "IE_BITS_TYPE (b - of_nat d) = IE_BITS_TYPE b"
    "(b - of_nat d) AND 0xffff0000 = b AND 0xffff0000"
    using add by (simp_all add: algebra_simps)
qed

text \<open>The bits of a type decide about its rights.\<close>

lemma has_type:
  assumes "m AND IE_BITS_TYPE_MASK = m"
  shows "has b m \<longleftrightarrow> has (IE_BITS_TYPE b) m"
proof -
  have "(b AND IE_BITS_TYPE_MASK) AND m = b AND m"
    using assms by (metis and.assoc and.commute)
  then show ?thesis
    by (simp add: has_def IE_BITS_TYPE_def)
qed

lemma has_numeral [simp]: "has (numeral a) (numeral b) \<longleftrightarrow> (numeral a AND numeral b :: u32) \<noteq> 0"
  by (simp add: has_def)

lemma has_zero [simp]: "\<not> has 0 m"
  by (simp add: has_def)

lemma has_mono: "has b m \<Longrightarrow> m' AND m = m \<Longrightarrow> has b m'"
  unfolding has_def by (metis and.assoc and_zero_eq bit.conj_zero_left)

lemmas has_types = has_type [of MACH_PORT_TYPE_SEND] has_type [of MACH_PORT_TYPE_RECEIVE]
  has_type [of MACH_PORT_TYPE_SEND_ONCE] has_type [of MACH_PORT_TYPE_PORT_SET]
  has_type [of MACH_PORT_TYPE_DEAD_NAME] has_type [of MACH_PORT_TYPE_SEND_RIGHTS]
  has_type [of MACH_PORT_TYPE_PORT_RIGHTS] has_type [of MACH_PORT_TYPE_PORT_OR_DEAD]

section \<open>Stores\<close>

lemma store_ite_entries [simp]:
  "ite_entries (store_ite n e t) = map (\<lambda>(m, x). (m, if m = n then e else x)) (ite_entries t)"
  by (induction t) auto

lemma store_ite_null [simp]: "is_null (store_ite n e t) = is_null t" "ite_name (store_ite n e t) = ite_name t"
  "ite_lchild (store_ite n e t) = store_ite n e (ite_lchild t)" "ite_rchild (store_ite n e t) = store_ite n e (ite_rchild t)"
  by (cases t; simp)+

abbreviation stored :: "mach_port_name \<Rightarrow> 'e \<Rightarrow> (mach_port_name \<times> 'e) list \<Rightarrow> (mach_port_name \<times> 'e) list" where
  "stored n e \<equiv> map (\<lambda>(m, x). (m, if m = n then e else x))"

lemma stored_names [simp]: "map fst (stored n e es) = map fst es" "fst ` set (stored n e es) = fst ` set es"
  "fst (case x of (m, y) \<Rightarrow> (m, if m = n then e else y)) = fst x"
  by (auto simp: comp_def case_prod_unfold image_image)

lemma left_entries_store [simp]:
  "left_entries (map (\<lambda>(l, m, x). (store_ite n e l, m, if m = n then e else x)) L) = stored n e (left_entries L)"
  by (induction L rule: left_entries.induct) auto

lemma right_entries_store [simp]:
  "right_entries (map (\<lambda>(m, x, r). (m, if m = n then e else x, store_ite n e r)) R) = stored n e (right_entries R)"
  by (induction R rule: right_entries.induct) auto

lemma splay_store_entries: "splay_entries (splay_store n e s) = stored n e (splay_entries s)"
  by (simp add: splay_entries_def splay_store_def)

lemma splay_store_ok: "splay_ok s \<Longrightarrow> splay_ok (splay_store n e s)"
  unfolding splay_ok_def splay_store_entries stored_names
  by (simp add: splay_store_def at_end_def)

lemma map_of_stored:
  "map_of (stored n e es) = (if map_of es n = None then map_of es else (map_of es)(n \<mapsto> e))"
  by (induction es) (auto simp: fun_eq_iff)

lemma splay_store_content:
  "splay_content (splay_store n e s) m = (if m = n \<and> splay_content s n \<noteq> None then Some e else splay_content s m)"
  by (auto simp: splay_store_entries map_of_stored)

lemma get_put [simp]: "get_entry r st \<noteq> None \<Longrightarrow> get_entry r (put_entry r e st) = Some e"
  by (cases r) (auto simp: get_entry_def put_entry_def entry_of_def entry_at_def set_entry_def splay_store_content
    split: if_splits)

lemma get_put_other: "r' \<noteq> r \<Longrightarrow> get_entry r' (put_entry r e st) = get_entry r' st"
  by (cases r; cases r') (auto simp: get_entry_def put_entry_def entry_of_def entry_at_def set_entry_def
    splay_store_content)

text \<open>What most steps leave alone.\<close>

definition frame :: "'z right_state_scheme \<Rightarrow> 'z right_state_scheme \<Rightarrow> bool" where
  "frame st st' \<longleftrightarrow> is_active (st_space st') = is_active (st_space st) \<and> is_fast (st_space st') = is_fast (st_space st) \<and>
     is_table_size (st_space st') = is_table_size (st_space st) \<and> st_self st' = st_self st"

lemma frame_trans: "frame a b \<Longrightarrow> frame b c \<Longrightarrow> frame a c"
  by (simp add: frame_def)

lemma frame_step [simp, intro]:
  "frame st st" "frame st (put_entry r e st)" "frame st (set_port p port st)" "frame st (calling cs st)"
  by (simp_all add: frame_def put_entry_def set_entry_def set_port_def calling_def split: ipc_entry_ref.split)

lemma step_fields [simp]:
  "st_ports (put_entry r e st) = st_ports st" "st_ports (set_port p port st) = (st_ports st)(p := port)"
  "st_ports (calling cs st) = st_ports st" "get_entry r (set_port p port st) = get_entry r st"
  "get_entry r (calling cs st) = get_entry r st" "st_self (put_entry r e st) = st_self st"
  "st_self (set_port p port st) = st_self st" "st_self (calling cs st) = st_self st"
  "st_space (set_port p port st) = st_space st" "st_space (calling cs st) = st_space st"
  "is_active (st_space (put_entry r e st)) = is_active (st_space st)"
  "st_calls (put_entry r e st) = st_calls st" "st_calls (set_port p port st) = st_calls st"
  "st_calls (calling cs st) = st_calls st @ cs"
  by (simp_all add: put_entry_def set_port_def calling_def get_entry_def set_entry_def split: ipc_entry_ref.split)

lemma put_field [simp]:
  assumes "get_entry r st = Some e"
  shows "put_bits r bits st = Some (put_entry r (e\<lparr>ie_bits := bits\<rparr>) st)"
    and "put_object r obj st = Some (put_entry r (e\<lparr>ie_object := obj\<rparr>) st)"
    and "put_request r request st = Some (put_entry r (e\<lparr>ie_request := request\<rparr>) st)"
  using assms by (simp_all add: put_bits_def put_object_def put_request_def)

text \<open>The reverse hash table of a fast space takes only entries of the table.\<close>

definition in_place :: "mach_port_name \<Rightarrow> ipc_entry_ref \<Rightarrow> 'z right_state_scheme \<Rightarrow> bool" where
  "in_place name r st \<longleftrightarrow>
     (is_fast (st_space st) \<longrightarrow> r = In_Table (name_index name) \<and> name_index name < is_table_size (st_space st))"

lemma in_place_frame: "frame st st' \<Longrightarrow> in_place name r st' = in_place name r st"
  by (simp add: frame_def in_place_def)

lemma hash_delete_ok:
  assumes "in_place name r st"
  obtains st' where "ipc_hash_delete obj name r st = Some st'" "get_entry r st' = get_entry r st"
    "st_ports st' = st_ports st" "st_calls st' = st_calls st" "frame st st'"
  using assms
  by (cases "name_index name < is_table_size (st_space st) \<and> r = In_Table (name_index name)")
    (auto simp: ipc_hash_delete_def Let_def in_place_def asserting_def name_index_def [symmetric] get_entry_def
      entry_of_def entry_at_def frame_def split: ipc_entry_ref.split)

lemma hash_insert_ok:
  assumes "in_place name r st"
  obtains st' where "ipc_hash_insert obj name r st = Some st'" "get_entry r st' = get_entry r st"
    "st_ports st' = st_ports st" "st_calls st' = st_calls st" "frame st st'"
  using assms
  by (cases "name_index name < is_table_size (st_space st) \<and> r = In_Table (name_index name)")
    (auto simp: ipc_hash_insert_def Let_def in_place_def asserting_def name_index_def [symmetric] get_entry_def
      entry_of_def entry_at_def frame_def split: ipc_entry_ref.split)

section \<open>Entries and their ports\<close>

text \<open>The dead-name request of an entry is registered with its live port.\<close>

definition request_ok :: "mach_port_name \<Rightarrow> u32 \<Rightarrow> ipc_port \<Rightarrow> bool" where
  "request_ok name request port \<longleftrightarrow> request = 0 \<or>
     (case ip_dnrequests port of
       None \<Rightarrow> False
     | Some t \<Rightarrow> table_ok t \<and> map_option fst (request_map t (unat request)) = Some name)"

text \<open>A right to a port: the references and counts of the port cover it, only a receive right makes the space
  the receiver, and a port with a receive right is alive.\<close>

definition port_right_ok :: "nat \<Rightarrow> mach_port_name \<Rightarrow> u32 \<Rightarrow> u32 \<Rightarrow> u32 \<Rightarrow> ipc_port \<Rightarrow> bool" where
  "port_right_ok self name type urefs request port \<longleftrightarrow>
     0 < ip_references port \<and> ip_references port \<le> IO_MAX_REFERENCES \<and>
     (if has type MACH_PORT_TYPE_SEND then 0 < urefs \<and> urefs < MACH_PORT_UREFS_MAX
      else if has type MACH_PORT_TYPE_SEND_ONCE then urefs = 1 else urefs = 0) \<and>
     (if has type MACH_PORT_TYPE_RECEIVE then ip_active port \<and> receives port name self
      else ip_active port \<longrightarrow> ip_data port \<noteq> ip_receiver self) \<and>
     (ip_active port \<longrightarrow>
        ip_srights port \<le> ip_references port \<and> (has type MACH_PORT_TYPE_SEND \<longrightarrow> 0 < ip_srights port) \<and>
        (has type MACH_PORT_TYPE_SEND_ONCE \<longrightarrow> 0 < ip_sorights port) \<and> request_ok name request port)"

definition entry_ok :: "nat \<Rightarrow> (nat \<Rightarrow> ipc_port) \<Rightarrow> mach_port_name \<Rightarrow> ipc_entry \<Rightarrow> bool" where
  "entry_ok self ports name e \<longleftrightarrow>
     (let type = IE_BITS_TYPE (ie_bits e); urefs = IE_BITS_UREFS (ie_bits e) in
      if type = MACH_PORT_TYPE_DEAD_NAME then dead_entry_ok e
      else if type = MACH_PORT_TYPE_PORT_SET then urefs = 0 \<and> ie_request e = 0 \<and> ie_object e \<noteq> None
      else type \<in> {MACH_PORT_TYPE_SEND, MACH_PORT_TYPE_RECEIVE, MACH_PORT_TYPE_SEND_RECEIVE,
                    MACH_PORT_TYPE_SEND_ONCE} \<and>
        (case ie_object e of
          None \<Rightarrow> False
        | Some p \<Rightarrow> port_right_ok self name type urefs (ie_request e) (ports p)))"

text \<open>An entry of a live space that is well formed with its port.\<close>

definition right_ok :: "mach_port_name \<Rightarrow> ipc_entry_ref \<Rightarrow> 'z right_state_scheme \<Rightarrow> bool" where
  "right_ok name r st \<longleftrightarrow> is_active (st_space st) \<and> in_place name r st \<and>
     (case get_entry r st of None \<Rightarrow> False | Some e \<Rightarrow> entry_ok (st_self st) (st_ports st) name e)"

lemma right_okE:
  assumes "right_ok name r st"
  obtains e where "get_entry r st = Some e" "entry_ok (st_self st) (st_ports st) name e"
    "is_active (st_space st)" "in_place name r st"
  using assms by (auto simp: right_ok_def split: option.splits)

lemma entry_ok_port:
  assumes "entry_ok self ports name e" and "has (ie_bits e) MACH_PORT_TYPE_PORT_RIGHTS"
  obtains p where "ie_object e = Some p"
    "port_right_ok self name (IE_BITS_TYPE (ie_bits e)) (IE_BITS_UREFS (ie_bits e)) (ie_request e) (ports p)"
    "IE_BITS_TYPE (ie_bits e) \<in> {MACH_PORT_TYPE_SEND, MACH_PORT_TYPE_RECEIVE, MACH_PORT_TYPE_SEND_RECEIVE,
                    MACH_PORT_TYPE_SEND_ONCE}"
proof -
  have "IE_BITS_TYPE (ie_bits e) \<noteq> MACH_PORT_TYPE_DEAD_NAME" "IE_BITS_TYPE (ie_bits e) \<noteq> MACH_PORT_TYPE_PORT_SET"
    using assms(2) has_types(7) [of "ie_bits e"] by auto
  then show thesis
    using assms(1) that by (simp add: entry_ok_def Let_def split: option.splits)
qed

section \<open>Shared steps\<close>

lemma check_live:
  assumes "get_entry r st = Some e" and "ie_object e = Some p" and "is_active (st_space st)" and "ip_active (st_ports st p)"
  shows "ipc_right_check p name r st = Some (st, False)"
  using assms by (simp add: ipc_right_check_def asserting_def)

lemma dncancel_live:
  assumes "get_entry r st = Some e" and "ie_object e = Some p" and "ip_active (st_ports st p)"
    and "request_ok name (ie_request e) (st_ports st p)"
  obtains st' dn d where "ipc_right_dncancel_macro p name r st = Some (st', dn)"
    "get_entry r st' = Some (e\<lparr>ie_request := 0\<rparr>)" "st_ports st' = (st_ports st)(p := (st_ports st p)\<lparr>ip_dnrequests := d\<rparr>)"
    "frame st st'" "st_calls st' = st_calls st"
proof (cases "ie_request e = 0")
  case True
  then have "e\<lparr>ie_request := 0\<rparr> = e" "(st_ports st)(p := (st_ports st p)\<lparr>ip_dnrequests := ip_dnrequests (st_ports st p)\<rparr>) = st_ports st"
    by simp_all
  then show thesis
    using that [of st None "ip_dnrequests (st_ports st p)"] assms(1) True by (simp add: ipc_right_dncancel_macro_def)
next
  case False
  then obtain t s where t: "ip_dnrequests (st_ports st p) = Some t" "table_ok t"
    "request_map t (unat (ie_request e)) = Some (name, s)"
    using assms(4) by (auto simp: request_ok_def split: option.splits)
  obtain t' where t': "ipc_port_dncancel (st_ports st p) name (unat (ie_request e)) =
      Some ((st_ports st p)\<lparr>ip_dnrequests := Some t'\<rparr>, s)"
    using dncancel_spec [OF t(2) assms(3) t(1,3)] by blast
  show thesis
    by (rule that [of "put_entry r (e\<lparr>ie_request := 0\<rparr>) (set_port p ((st_ports st p)\<lparr>ip_dnrequests := Some t'\<rparr>) st)" "Some s" "Some t'"])
      (use assms(1-3) False t' in \<open>auto simp: ipc_right_dncancel_macro_def ipc_right_dncancel_def asserting_def
        intro: frame_trans\<close>)
qed

lemma release_ok:
  assumes "0 < ip_references (st_ports st p)" and "ip_references (st_ports st p) \<le> IO_MAX_REFERENCES"
  obtains st' where "ipc_port_release p st = Some st'" "get_entry r st' = get_entry r st" "frame st st'"
    "st_ports st' = (st_ports st)(p := (st_ports st p)\<lparr>ip_references := ip_references (st_ports st p) - 1\<rparr>)"
    "st_space st' = st_space st"
proof -
  let ?st = "ip_check_unlock p (set_port p ((st_ports st p)\<lparr>ip_references := ip_references (st_ports st p) - 1\<rparr>) st)"
  have "ipc_port_release p st = Some ?st"
    using assms by (simp add: ipc_port_release_def ip_release_def asserting_def)
  moreover have "frame st ?st"
    by (auto simp: ip_check_unlock_def intro: frame_trans)
  ultimately show thesis
    using that [of ?st] by (simp add: ip_check_unlock_def)
qed

lemma dead_bits:
  "IE_BITS_TYPE ((b AND NOT IE_BITS_TYPE_MASK) OR MACH_PORT_TYPE_DEAD_NAME) = MACH_PORT_TYPE_DEAD_NAME"
  "IE_BITS_UREFS ((b AND NOT IE_BITS_TYPE_MASK) OR MACH_PORT_TYPE_DEAD_NAME) = IE_BITS_UREFS b"
  by (simp_all add: bits_algebra IE_BITS_UREFS_def)

lemma urefs_less: "IE_BITS_UREFS b < 0xffff \<Longrightarrow> unat (IE_BITS_UREFS b) + 1 < 65536"
  by (simp add: word_less_nat_alt)

lemma urefs_succ:
  assumes "IE_BITS_UREFS b < 0xffff"
  shows "IE_BITS_UREFS (b + 1) = IE_BITS_UREFS b + 1" "IE_BITS_TYPE (b + 1) = IE_BITS_TYPE b"
    "(b + 1) AND 0xffff0000 = b AND 0xffff0000" "0 < IE_BITS_UREFS b + 1"
proof -
  note add = urefs_add [OF urefs_less [OF assms]]
  show "IE_BITS_UREFS (b + 1) = IE_BITS_UREFS b + 1" "IE_BITS_TYPE (b + 1) = IE_BITS_TYPE b"
    "(b + 1) AND 0xffff0000 = b AND 0xffff0000"
    using add by simp_all
  have "unat (IE_BITS_UREFS b + 1) = unat (IE_BITS_UREFS b) + 1"
    using urefs_less [OF assms] unat_add_u32 [of "IE_BITS_UREFS b" 1] by simp
  then show "0 < IE_BITS_UREFS b + 1"
    by (simp add: word_less_nat_alt)
qed

lemma check_dead:
  assumes "right_ok name r st" and "get_entry r st = Some e" and "ie_object e = Some p" and "\<not> ip_active (st_ports st p)"
    and "has (ie_bits e) MACH_PORT_TYPE_SEND_RIGHTS"
  obtains st' e' where "ipc_right_check p name r st = Some (st', True)" "get_entry r st' = Some e'" "dead_entry_ok e'"
    "IE_BITS_UREFS (ie_bits e') = IE_BITS_UREFS (ie_bits e) + (if ie_request e = 0 then 0 else 1)" "frame st st'"
    "st_ports st' = (st_ports st)(p := (st_ports st p)\<lparr>ip_references := ip_references (st_ports st p) - 1\<rparr>)"
proof -
  let ?b = "ie_bits e"
  have ok: "entry_ok (st_self st) (st_ports st) name e" "is_active (st_space st)" "in_place name r st"
    using assms(1,2) by (auto simp: right_ok_def)
  have "has ?b MACH_PORT_TYPE_PORT_RIGHTS"
    using has_mono [OF assms(5), of MACH_PORT_TYPE_PORT_RIGHTS] by simp
  then have port: "port_right_ok (st_self st) name (IE_BITS_TYPE ?b) (IE_BITS_UREFS ?b) (ie_request e) (st_ports st p)"
    and type: "IE_BITS_TYPE ?b \<in> {MACH_PORT_TYPE_SEND, MACH_PORT_TYPE_RECEIVE, MACH_PORT_TYPE_SEND_RECEIVE,
                    MACH_PORT_TYPE_SEND_ONCE}"
    using entry_ok_port [OF ok(1)] assms(3) by auto
  have kind: "IE_BITS_TYPE ?b = MACH_PORT_TYPE_SEND \<or> IE_BITS_TYPE ?b = MACH_PORT_TYPE_SEND_ONCE"
    using port type assms(4) by (auto simp: port_right_ok_def)
  have urefs: "0 < IE_BITS_UREFS ?b" "IE_BITS_UREFS ?b < 0xffff"
    "IE_BITS_TYPE ?b = MACH_PORT_TYPE_SEND_ONCE \<Longrightarrow> IE_BITS_UREFS ?b = 1"
    using port kind by (auto simp: port_right_ok_def)
  have refs: "0 < ip_references (st_ports st p)" "ip_references (st_ports st p) \<le> IO_MAX_REFERENCES"
    using port by (simp_all add: port_right_ok_def)
  obtain st1 where st1: "ipc_port_release p st = Some st1" "get_entry r st1 = get_entry r st" "frame st st1"
    "st_ports st1 = (st_ports st)(p := (st_ports st p)\<lparr>ip_references := ip_references (st_ports st p) - 1\<rparr>)"
    using release_ok [OF refs] by blast
  obtain st2 where st2: "(if IE_BITS_TYPE ?b = MACH_PORT_TYPE_SEND then ipc_hash_delete p name r st1 else Some st1) = Some st2"
    "get_entry r st2 = get_entry r st" "st_ports st2 = st_ports st1" "frame st st2"
  proof (cases "IE_BITS_TYPE ?b = MACH_PORT_TYPE_SEND")
    case True
    then show thesis
      using hash_delete_ok [of name r st1 p] in_place_frame [OF st1(3)] ok(3) that st1(2,3) frame_trans
      by (metis (full_types))
  qed (use that st1(2,3) in simp)
  define dead where "dead = (?b AND NOT IE_BITS_TYPE_MASK) OR MACH_PORT_TYPE_DEAD_NAME"
  have dead: "IE_BITS_UREFS dead = IE_BITS_UREFS ?b" "IE_BITS_TYPE dead = MACH_PORT_TYPE_DEAD_NAME"
    unfolding dead_def dead_bits by (rule refl)+
  define e' where "e' = \<lparr>ie_object = None, ie_bits = if ie_request e \<noteq> 0 then dead + 1 else dead, ie_request = 0\<rparr>"
  have "ipc_right_check p name r st = Some (put_entry r e' st2, True)"
    using assms(2-4) ok(2) urefs kind st1(1) st2(1) dead(1)
    by (auto simp: ipc_right_check_def asserting_def has_types [of ?b] e'_def dead_def Let_def)
  moreover have "dead_entry_ok e'"
    using urefs urefs_succ [of dead] dead by (simp add: dead_entry_ok_def e'_def)
  moreover have "IE_BITS_UREFS (ie_bits e') = IE_BITS_UREFS ?b + (if ie_request e = 0 then 0 else 1)"
    using urefs urefs_succ [of dead] dead by (simp add: e'_def)
  moreover have "frame st (put_entry r e' st2)"
    using st2(4) frame_trans by blast
  ultimately show thesis
    using that [of "put_entry r e' st2" e'] st1(4) st2(2,3) assms(2) by simp
qed

end
