(* ===== verification/Ipc_Right_Copyin.thy ===== *)
theory Ipc_Right_Copyin
  imports Ipc_Right_Base
begin

text \<open>
  What \<open>ipc_right_copyin\<close> does to a well-formed entry and its port: it agrees with
  \<open>ipc_right_copyin_check\<close>, keeps the entry well formed or leaves it blank, and conserves rights and
  references, those in the entry and those that the caller gets.
\<close>

section \<open>Clearing bits\<close>

lemma type_and: "IE_BITS_TYPE (b AND m) = IE_BITS_TYPE b AND m"
  by (simp add: IE_BITS_TYPE_def ac_simps)

lemma urefs_and: "IE_BITS_UREFS (b AND m) = IE_BITS_UREFS b AND m"
  by (simp add: IE_BITS_UREFS_def ac_simps)

lemma urefs_keep:
  assumes "m AND IE_BITS_UREFS_MASK = IE_BITS_UREFS_MASK"
  shows "IE_BITS_UREFS (b AND m) = IE_BITS_UREFS b"
  using assms by (simp add: IE_BITS_UREFS_def and.assoc)

lemma urefs_clear:
  assumes "m AND IE_BITS_UREFS_MASK = 0"
  shows "IE_BITS_UREFS (b AND m) = 0"
  using assms by (simp add: IE_BITS_UREFS_def and.assoc)

lemma cleared:
  "IE_BITS_UREFS (b AND NOT MACH_PORT_TYPE_RECEIVE) = IE_BITS_UREFS b"
  "IE_BITS_UREFS (b AND NOT (IE_BITS_UREFS_MASK OR MACH_PORT_TYPE_SEND)) = 0"
  "IE_BITS_UREFS (b AND NOT (IE_BITS_UREFS_MASK OR MACH_PORT_TYPE_SEND_ONCE)) = 0"
  "IE_BITS_TYPE b = MACH_PORT_TYPE_SEND_RECEIVE \<Longrightarrow> IE_BITS_TYPE (b AND NOT MACH_PORT_TYPE_RECEIVE) = MACH_PORT_TYPE_SEND"
  "IE_BITS_TYPE b = MACH_PORT_TYPE_RECEIVE \<Longrightarrow> IE_BITS_TYPE (b AND NOT MACH_PORT_TYPE_RECEIVE) = 0"
  "IE_BITS_TYPE b = MACH_PORT_TYPE_SEND \<Longrightarrow> IE_BITS_TYPE (b AND NOT (IE_BITS_UREFS_MASK OR MACH_PORT_TYPE_SEND)) = 0"
  "IE_BITS_TYPE b = MACH_PORT_TYPE_SEND_RECEIVE \<Longrightarrow>
     IE_BITS_TYPE (b AND NOT (IE_BITS_UREFS_MASK OR MACH_PORT_TYPE_SEND)) = MACH_PORT_TYPE_RECEIVE"
  "IE_BITS_TYPE b = MACH_PORT_TYPE_SEND_ONCE \<Longrightarrow>
     IE_BITS_TYPE (b AND NOT (IE_BITS_UREFS_MASK OR MACH_PORT_TYPE_SEND_ONCE)) = 0"
  by (simp_all add: urefs_keep urefs_clear type_and)

section \<open>Conservation\<close>

text \<open>What an entry has of a port: a send right, a send-once right, a reference.\<close>

definition sends :: "ipc_entry \<Rightarrow> u32" where "sends e = of_bool (has (ie_bits e) MACH_PORT_TYPE_SEND)"
definition sonces :: "ipc_entry \<Rightarrow> u32" where "sonces e = of_bool (has (ie_bits e) MACH_PORT_TYPE_SEND_ONCE)"
definition holds :: "nat \<Rightarrow> ipc_entry \<Rightarrow> u32" where "holds p e = of_bool (ie_object e = Some p)"

text \<open>The counts of the port, less what the entry has, grow by what the caller got.\<close>

definition conserved :: "nat \<Rightarrow> ipc_entry \<Rightarrow> ipc_entry \<Rightarrow> ipc_port \<Rightarrow> ipc_port \<Rightarrow> u32 \<Rightarrow> u32 \<Rightarrow> u32 \<Rightarrow> bool" where
  "conserved p e e' port port' send sonce refs \<longleftrightarrow>
     ip_srights port' + sends e = ip_srights port + sends e' + send \<and>
     ip_sorights port' + sonces e = ip_sorights port + sonces e' + sonce \<and>
     ip_references port' + holds p e = ip_references port + holds p e' + refs"

text \<open>The rights that a disposition asks for.\<close>

definition asks_send :: "mach_msg_type_name \<Rightarrow> u32" where
  "asks_send m = of_bool (m \<in> {MAKE_SEND, COPY_SEND, MOVE_SEND})"
definition asks_sonce :: "mach_msg_type_name \<Rightarrow> u32" where
  "asks_sonce m = of_bool (m \<in> {MAKE_SEND_ONCE, MOVE_SEND_ONCE})"

definition blank :: "ipc_entry \<Rightarrow> bool" where
  "blank e \<longleftrightarrow> IE_BITS_TYPE (ie_bits e) = 0 \<and> IE_BITS_UREFS (ie_bits e) = 0 \<and> ie_object e = None \<and> ie_request e = 0"

definition copied_ok ::
  "mach_port_name \<Rightarrow> ipc_entry_ref \<Rightarrow> mach_msg_type_name \<Rightarrow> 'z right_state_scheme \<Rightarrow> 'z copied \<Rightarrow> bool" where
  "copied_ok name r m st cop \<longleftrightarrow>
     (case (cop, get_entry r st, get_entry r (fst cop)) of
       ((st', res), Some e, Some e') \<Rightarrow>
         (blank e' \<or> right_ok name r st') \<and> frame st st' \<and>
         (case res of
           Inr (IO_PORT p, soright) \<Rightarrow>
             ie_object e = Some p \<and> (\<forall>q. q \<noteq> p \<longrightarrow> st_ports st' q = st_ports st q) \<and>
             conserved p e e' (st_ports st p) (st_ports st' p) (asks_send m) (asks_sonce m) 1 \<and>
             (if m = MOVE_RECEIVE then \<not> has (ie_bits e') MACH_PORT_TYPE_RECEIVE \<and> in_limbo (st_ports st' p)
              else has (ie_bits e') MACH_PORT_TYPE_RECEIVE = has (ie_bits e) MACH_PORT_TYPE_RECEIVE)
         | Inr (IO_DEAD, soright) \<Rightarrow> soright = None \<and> (blank e' \<or> dead_entry_ok e')
         | Inl kr \<Rightarrow> kr = KERN_INVALID_RIGHT \<and> (st' = st \<or> dead_entry_ok e'))
     | _ \<Rightarrow> False)"

lemma ip_reference_ok:
  "ip_references port < IO_MAX_REFERENCES \<Longrightarrow> ip_reference port = Some (port\<lparr>ip_references := ip_references port + 1\<rparr>)"
  by (simp add: ip_reference_def asserting_def)

lemma refs_up:
  assumes "(x :: u32) < IO_MAX_REFERENCES"
  shows "0 < x + 1" and "x + 1 \<le> IO_MAX_REFERENCES" and "y \<le> x \<Longrightarrow> y \<le> x + 1" and "y \<le> x \<Longrightarrow> y + 1 \<le> x + 1"
    and "y \<le> x \<Longrightarrow> 0 < y + 1"
proof -
  have x: "unat x < 2147483647"
    using assms by (simp add: word_less_nat_alt)
  then have up: "unat (z + 1) = unat z + 1" if "unat z \<le> unat x" for z :: u32
    using that unat_add_u32 [of z 1] by simp
  show "0 < x + 1" "x + 1 \<le> IO_MAX_REFERENCES"
    using up [of x] x by (simp_all add: word_less_nat_alt word_le_nat_alt)
  show "y \<le> x + 1" "y + 1 \<le> x + 1" "0 < y + 1" if "y \<le> x"
    using that up [of x] up [of y] by (simp_all add: word_less_nat_alt word_le_nat_alt)
qed

abbreviation port_types :: "u32 set" where
  "port_types \<equiv> {MACH_PORT_TYPE_SEND, MACH_PORT_TYPE_RECEIVE, MACH_PORT_TYPE_SEND_RECEIVE, MACH_PORT_TYPE_SEND_ONCE}"

abbreviation entry_port_ok :: "nat \<Rightarrow> mach_port_name \<Rightarrow> ipc_entry \<Rightarrow> ipc_port \<Rightarrow> bool" where
  "entry_port_ok self name e port \<equiv>
     port_right_ok self name (IE_BITS_TYPE (ie_bits e)) (IE_BITS_UREFS (ie_bits e)) (ie_request e) port"

lemma right_ok_portI:
  assumes "right_ok name r st" and "frame st st'" and "get_entry r st' = Some e'" and "ie_object e' = Some p"
    and "IE_BITS_TYPE (ie_bits e') \<in> port_types" and "entry_port_ok (st_self st) name e' (st_ports st' p)"
  shows "right_ok name r st'"
  using assms in_place_frame [OF assms(2), of name r]
  by (auto simp: right_ok_def entry_ok_def Let_def frame_def split: option.splits)

lemma right_ok_deadI:
  assumes "right_ok name r st" and "frame st st'" and "get_entry r st' = Some e'" and "dead_entry_ok e'"
  shows "right_ok name r st'"
  using assms in_place_frame [OF assms(2), of name r]
  by (auto simp: right_ok_def entry_ok_def dead_entry_ok_def Let_def frame_def split: option.splits)

text \<open>A result that names a port.\<close>

lemma copied_portI:
  assumes "get_entry r st = Some e" and "get_entry r st' = Some e'" and "frame st st'" and "ie_object e = Some p"
    and "blank e' \<or> right_ok name r st'" and "\<And>q. q \<noteq> p \<Longrightarrow> st_ports st' q = st_ports st q"
    and "conserved p e e' (st_ports st p) (st_ports st' p) (asks_send m) (asks_sonce m) 1"
    and "if m = MOVE_RECEIVE then \<not> has (ie_bits e') MACH_PORT_TYPE_RECEIVE \<and> in_limbo (st_ports st' p)
              else has (ie_bits e') MACH_PORT_TYPE_RECEIVE = has (ie_bits e) MACH_PORT_TYPE_RECEIVE"
  shows "copied_ok name r m st (st', Inr (IO_PORT p, soright))"
  using assms by (simp add: copied_ok_def)

lemma entry_ok_receive:
  assumes "right_ok name r st" and "get_entry r st = Some e" and "has (ie_bits e) MACH_PORT_TYPE_RECEIVE"
  obtains p where "ie_object e = Some p" "receive_port name r st = Some p"
    "entry_port_ok (st_self st) name e (st_ports st p)"
    "IE_BITS_TYPE (ie_bits e) = MACH_PORT_TYPE_RECEIVE \<or> IE_BITS_TYPE (ie_bits e) = MACH_PORT_TYPE_SEND_RECEIVE"
proof -
  have ok: "entry_ok (st_self st) (st_ports st) name e"
    using assms(1,2) by (simp add: right_ok_def)
  obtain p where p: "ie_object e = Some p" "entry_port_ok (st_self st) name e (st_ports st p)"
    "IE_BITS_TYPE (ie_bits e) \<in> port_types"
    using entry_ok_port [OF ok] has_mono [OF assms(3), of MACH_PORT_TYPE_PORT_RIGHTS] by auto
  moreover have "IE_BITS_TYPE (ie_bits e) = MACH_PORT_TYPE_RECEIVE \<or> IE_BITS_TYPE (ie_bits e) = MACH_PORT_TYPE_SEND_RECEIVE"
    using p(3) assms(3) has_types(2) [of "ie_bits e"] by auto
  moreover from this have "receive_port name r st = Some p"
    using assms(2) p(1,2) by (auto simp: receive_port_def asserting_def port_right_ok_def)
  ultimately show thesis
    using that by blast
qed

lemma copyin_make_send_ok:
  assumes "right_ok name r st" and "get_entry r st = Some e" and "has (ie_bits e) MACH_PORT_TYPE_RECEIVE"
    and "\<And>p. ie_object e = Some p \<Longrightarrow> ip_references (st_ports st p) < IO_MAX_REFERENCES"
  shows "\<exists>st' x. copyin_make_send name r st = Some (st', Inr x) \<and> copied_ok name r MAKE_SEND st (st', Inr x)"
proof -
  obtain p where p: "ie_object e = Some p" "receive_port name r st = Some p"
    "entry_port_ok (st_self st) name e (st_ports st p)"
    "IE_BITS_TYPE (ie_bits e) = MACH_PORT_TYPE_RECEIVE \<or> IE_BITS_TYPE (ie_bits e) = MACH_PORT_TYPE_SEND_RECEIVE"
    using entry_ok_receive [OF assms(1-3)] by blast
  note up = refs_up [OF assms(4) [OF p(1)]]
  let ?port = "st_ports st p"
  let ?port' = "?port\<lparr>ip_mscount := ip_mscount ?port + 1, ip_srights := ip_srights ?port + 1,
    ip_references := ip_references ?port + 1\<rparr>"
  have run: "copyin_make_send name r st = Some (set_port p ?port' st, Inr (IO_PORT p, None))"
    using p(2) assms(4) [OF p(1)] by (simp add: copyin_make_send_def ip_reference_ok Let_def)
  have "entry_port_ok (st_self st) name e ?port'"
    using p(3,4) up by (auto simp: port_right_ok_def receives_def request_ok_def)
  then have "right_ok name r (set_port p ?port' st)"
    using right_ok_portI [OF assms(1), of "set_port p ?port' st" e p] assms(2) p(1,4) by auto
  then have "copied_ok name r MAKE_SEND st (set_port p ?port' st, Inr (IO_PORT p, None))"
    using assms(2) p(1) by (intro copied_portI) (auto simp: conserved_def asks_send_def asks_sonce_def)
  then show ?thesis
    using run by blast
qed

lemma copyin_make_send_once_ok:
  assumes "right_ok name r st" and "get_entry r st = Some e" and "has (ie_bits e) MACH_PORT_TYPE_RECEIVE"
    and "\<And>p. ie_object e = Some p \<Longrightarrow> ip_references (st_ports st p) < IO_MAX_REFERENCES"
  shows "\<exists>st' x. copyin_make_send_once name r st = Some (st', Inr x) \<and> copied_ok name r MAKE_SEND_ONCE st (st', Inr x)"
proof -
  obtain p where p: "ie_object e = Some p" "receive_port name r st = Some p"
    "entry_port_ok (st_self st) name e (st_ports st p)"
    "IE_BITS_TYPE (ie_bits e) = MACH_PORT_TYPE_RECEIVE \<or> IE_BITS_TYPE (ie_bits e) = MACH_PORT_TYPE_SEND_RECEIVE"
    using entry_ok_receive [OF assms(1-3)] by blast
  note up = refs_up [OF assms(4) [OF p(1)]]
  let ?port = "st_ports st p"
  let ?port' = "?port\<lparr>ip_sorights := ip_sorights ?port + 1, ip_references := ip_references ?port + 1\<rparr>"
  have run: "copyin_make_send_once name r st = Some (set_port p ?port' st, Inr (IO_PORT p, None))"
    using p(2) assms(4) [OF p(1)] by (simp add: copyin_make_send_once_def ip_reference_ok Let_def)
  have "entry_port_ok (st_self st) name e ?port'"
    using p(3,4) up by (auto simp: port_right_ok_def receives_def request_ok_def)
  then have "right_ok name r (set_port p ?port' st)"
    using right_ok_portI [OF assms(1), of "set_port p ?port' st" e p] assms(2) p(1,4) by auto
  then have "copied_ok name r MAKE_SEND_ONCE st (set_port p ?port' st, Inr (IO_PORT p, None))"
    using assms(2) p(1) by (intro copied_portI) (auto simp: conserved_def asks_send_def asks_sonce_def)
  then show ?thesis
    using run by blast
qed

lemma clear_receiver_ok:
  assumes "ip_active (st_ports st p)"
  obtains st' where "ipc_port_clear_receiver p st = Some st'" "get_entry r st' = get_entry r st" "frame st st'"
    "st_ports st' = (st_ports st)(p := (st_ports st p)\<lparr>ip_pset_count := 0, ip_mscount := 0, imq_seqno := 0\<rparr>)"
  by (rule that [of "calling ((if ip_pset_count (st_ports st p) \<noteq> 0 then [ipc_pset_remove_all p] else []) @ [ipc_mqueue_changed p])
      (set_port p ((st_ports st p)\<lparr>ip_pset_count := 0, ip_mscount := 0, imq_seqno := 0\<rparr>) st)"])
    (use assms in \<open>auto simp: ipc_port_clear_receiver_def Let_def asserting_def intro: frame_trans\<close>)

text \<open>How \<open>MOVE_RECEIVE\<close> ends.\<close>

lemma move_receive_end:
  assumes "get_entry r st = Some e" and "ip_active (st_ports st p)"
  obtains st' where "do { st2 \<leftarrow> put_bits r bits st; st3 \<leftarrow> ipc_port_clear_receiver p st2;
       Some (set_port p ((st_ports st3 p)\<lparr>ip_receiver_name := 0, ip_data := ip_destination None\<rparr>) st3, x) } = Some (st', x)"
    "get_entry r st' = Some (e\<lparr>ie_bits := bits\<rparr>)" "frame st st'"
    "st_ports st' = (st_ports st)(p := (st_ports st p)\<lparr>ip_pset_count := 0, ip_mscount := 0, imq_seqno := 0,
       ip_receiver_name := 0, ip_data := ip_destination None\<rparr>)"
proof -
  let ?st = "put_entry r (e\<lparr>ie_bits := bits\<rparr>) st"
  have active: "ip_active (st_ports ?st p)"
    using assms(2) by simp
  obtain st3 where st3: "ipc_port_clear_receiver p ?st = Some st3" "get_entry r st3 = get_entry r ?st" "frame ?st st3"
    "st_ports st3 = (st_ports ?st)(p := (st_ports ?st p)\<lparr>ip_pset_count := 0, ip_mscount := 0, imq_seqno := 0\<rparr>)"
    using clear_receiver_ok [OF active] by blast
  have "frame st st3"
    using st3(3) frame_step(2) frame_trans by blast
  then show thesis
    using that [of "set_port p ((st_ports st3 p)\<lparr>ip_receiver_name := 0, ip_data := ip_destination None\<rparr>) st3"]
      st3 assms(1) by (auto intro: frame_trans)
qed

text \<open>The receive right leaves: with a send right beside it, which stays, or alone.\<close>

lemma copyin_move_receive_ok:
  assumes "right_ok name r st" and "get_entry r st = Some e" and "has (ie_bits e) MACH_PORT_TYPE_RECEIVE"
    and "\<And>p. ie_object e = Some p \<Longrightarrow> ip_references (st_ports st p) < IO_MAX_REFERENCES"
  shows "\<exists>st' x. copyin_move_receive name r st = Some (st', Inr x) \<and> copied_ok name r MOVE_RECEIVE st (st', Inr x)"
proof -
  let ?b = "ie_bits e"
  obtain p where p: "ie_object e = Some p" "receive_port name r st = Some p"
    "entry_port_ok (st_self st) name e (st_ports st p)"
    "IE_BITS_TYPE ?b = MACH_PORT_TYPE_RECEIVE \<or> IE_BITS_TYPE ?b = MACH_PORT_TYPE_SEND_RECEIVE"
    using entry_ok_receive [OF assms(1-3)] by blast
  let ?port = "st_ports st p"
  note up = refs_up [OF assms(4) [OF p(1)]]
  have act: "ip_active ?port" "request_ok name (ie_request e) ?port" "in_place name r st"
    using p(3,4) assms(1) by (auto simp: port_right_ok_def right_ok_def)
  let ?bits = "?b AND NOT MACH_PORT_TYPE_RECEIVE"
  let ?final = "\<lambda>port. port\<lparr>ip_pset_count := 0, ip_mscount := 0, imq_seqno := 0, ip_receiver_name := 0,
      ip_data := ip_destination None\<rparr>"
  show ?thesis
  proof (cases "IE_BITS_TYPE ?b = MACH_PORT_TYPE_SEND_RECEIVE")
    case True
    let ?port1 = "?port\<lparr>ip_references := ip_references ?port + 1\<rparr>"
    obtain st1 where st1: "ipc_hash_insert p name r st = Some st1" "get_entry r st1 = Some e"
      "st_ports st1 = st_ports st" "frame st st1"
      using hash_insert_ok [OF act(3)] assms(2) by metis
    have "get_entry r (set_port p ?port1 st1) = Some e" "ip_active (st_ports (set_port p ?port1 st1) p)"
      using st1 act(1) by simp_all
    from move_receive_end [OF this, of ?bits "Inr (IO_PORT p, None)"]
    obtain st' where st': "do { st2 \<leftarrow> put_bits r ?bits (set_port p ?port1 st1); st3 \<leftarrow> ipc_port_clear_receiver p st2;
        Some (set_port p ((st_ports st3 p)\<lparr>ip_receiver_name := 0, ip_data := ip_destination None\<rparr>) st3,
          Inr (IO_PORT p, None)) } = Some (st', Inr (IO_PORT p, None) :: kern_return + ipc_object \<times> nat option)"
      "get_entry r st' = Some (e\<lparr>ie_bits := ?bits\<rparr>)" "frame (set_port p ?port1 st1) st'"
      "st_ports st' = (st_ports st)(p := ?final ?port1)"
      using st1(3) by auto
    have run: "copyin_move_receive name r st = Some (st', Inr (IO_PORT p, None))"
      using True st1(1-3) p(2,3) assms(2) assms(4) [OF p(1)] has_types [of ?b] st'(1)
      by (simp add: copyin_move_receive_def ip_reference_ok Let_def asserting_def port_right_ok_def)
    have frame: "frame st st'"
      using st1(4) st'(3) frame_step(3) frame_trans by blast
    have bits: "IE_BITS_TYPE ?bits = MACH_PORT_TYPE_SEND" "IE_BITS_UREFS ?bits = IE_BITS_UREFS ?b"
      using cleared(1,4) True by simp_all
    have "entry_port_ok (st_self st) name (e\<lparr>ie_bits := ?bits\<rparr>) (?final ?port1)"
      using p(3) True up bits act by (simp add: port_right_ok_def request_ok_def)
    then have "right_ok name r st'"
      using right_ok_portI [OF assms(1) frame st'(2), of p] st'(4) bits p(1) by simp
    then have "copied_ok name r MOVE_RECEIVE st (st', Inr (IO_PORT p, None))"
      using st'(4) p(1) bits True act(1) has_types [of ?b] has_types [of ?bits]
      by (intro copied_portI [OF assms(2) st'(2) frame p(1)])
        (auto simp: conserved_def asks_send_def asks_sonce_def sends_def sonces_def holds_def in_limbo_def)
    then show ?thesis
      using run by blast
  next
    case False
    then have type: "IE_BITS_TYPE ?b = MACH_PORT_TYPE_RECEIVE"
      using p(4) by blast
    obtain st1 dn d where st1: "ipc_right_dncancel_macro p name r st = Some (st1, dn)"
      "get_entry r st1 = Some (e\<lparr>ie_request := 0\<rparr>)" "st_ports st1 = (st_ports st)(p := ?port\<lparr>ip_dnrequests := d\<rparr>)"
      "frame st st1"
      using dncancel_live [OF assms(2) p(1) act(1,2)] by metis
    let ?st2 = "put_entry r (e\<lparr>ie_request := 0, ie_object := None\<rparr>) st1"
    have "get_entry r ?st2 = Some (e\<lparr>ie_request := 0, ie_object := None\<rparr>)" "ip_active (st_ports ?st2 p)"
      using st1 act(1) by simp_all
    from move_receive_end [OF this, of ?bits "Inr (IO_PORT p, dn)"]
    obtain st' where st': "do { st2 \<leftarrow> put_bits r ?bits ?st2; st3 \<leftarrow> ipc_port_clear_receiver p st2;
        Some (set_port p ((st_ports st3 p)\<lparr>ip_receiver_name := 0, ip_data := ip_destination None\<rparr>) st3,
          Inr (IO_PORT p, dn)) } = Some (st', Inr (IO_PORT p, dn) :: kern_return + ipc_object \<times> nat option)"
      "get_entry r st' = Some (e\<lparr>ie_request := 0, ie_object := None, ie_bits := ?bits\<rparr>)" "frame ?st2 st'"
      "st_ports st' = (st_ports st)(p := ?final (?port\<lparr>ip_dnrequests := d\<rparr>))"
      using st1(3) by auto
    have bits: "IE_BITS_TYPE ?bits = 0" "IE_BITS_UREFS ?bits = 0"
      using cleared(1,5) type p(3) by (simp_all add: port_right_ok_def)
    have run: "copyin_move_receive name r st = Some (st', Inr (IO_PORT p, dn))"
      using type st1(1-3) p(2,3) assms(2) has_types [of ?b] st'(1)
      by (simp add: copyin_move_receive_def Let_def asserting_def port_right_ok_def)
    have frame: "frame st st'"
      using st1(4) st'(3) frame_step(2) frame_trans by blast
    have "copied_ok name r MOVE_RECEIVE st (st', Inr (IO_PORT p, dn))"
      using st'(4) p(1) bits type act(1) has_types [of ?b] has_types [of ?bits]
      by (intro copied_portI [OF assms(2) st'(2) frame p(1)])
        (auto simp: conserved_def asks_send_def asks_sonce_def sends_def sonces_def holds_def in_limbo_def blank_def)
    then show ?thesis
      using run by blast
  qed
qed

section \<open>Send rights\<close>

lemma frame_more:
  "frame st st' \<Longrightarrow> frame st (put_entry r e st')" "frame st st' \<Longrightarrow> frame st (set_port p port st')"
  "frame st st' \<Longrightarrow> frame st (calling cs st')"
  by (blast intro: frame_trans frame_step)+

lemma urefs_pred:
  assumes "0 < IE_BITS_UREFS b"
  shows "IE_BITS_UREFS (b - 1) = IE_BITS_UREFS b - 1" "IE_BITS_TYPE (b - 1) = IE_BITS_TYPE b"
    "IE_BITS_UREFS b \<noteq> 1 \<Longrightarrow> 0 < IE_BITS_UREFS b - 1"
    "IE_BITS_UREFS b < MACH_PORT_UREFS_MAX \<Longrightarrow> IE_BITS_UREFS b - 1 < MACH_PORT_UREFS_MAX"
proof -
  have one: "1 \<le> unat (IE_BITS_UREFS b)"
    using assms by (simp add: word_less_nat_alt)
  show "IE_BITS_UREFS (b - 1) = IE_BITS_UREFS b - 1" "IE_BITS_TYPE (b - 1) = IE_BITS_TYPE b"
    using urefs_sub [OF one] by simp_all
  have "unat (IE_BITS_UREFS b - 1) = unat (IE_BITS_UREFS b) - 1"
    using one unat_sub_u32 [of 1 "IE_BITS_UREFS b"] by (simp add: word_le_nat_alt)
  then show "IE_BITS_UREFS b \<noteq> 1 \<Longrightarrow> 0 < IE_BITS_UREFS b - 1"
    "IE_BITS_UREFS b < MACH_PORT_UREFS_MAX \<Longrightarrow> IE_BITS_UREFS b - 1 < MACH_PORT_UREFS_MAX"
    using one by (auto simp: word_less_nat_alt word_unat_eq_iff)
qed

text \<open>Moving or copying a dead name.\<close>

lemma dead_moved:
  assumes "get_entry r st = Some e" and "dead_entry_ok e"
  obtains st' e' where "move_dead r True st = Some (st', Inr (IO_DEAD, None))" "get_entry r st' = Some e'"
    "blank e' \<or> dead_entry_ok e'" "frame st st'"
proof -
  let ?b = "ie_bits e"
  let ?bits = "(if IE_BITS_UREFS ?b = 1 then ?b AND NOT MACH_PORT_TYPE_DEAD_NAME else ?b) - 1"
  have d: "IE_BITS_TYPE ?b = MACH_PORT_TYPE_DEAD_NAME" "0 < IE_BITS_UREFS ?b" "ie_object e = None" "ie_request e = 0"
    using assms(2) by (auto simp: dead_entry_ok_def)
  have "IE_BITS_UREFS (?b AND NOT MACH_PORT_TYPE_DEAD_NAME) = IE_BITS_UREFS ?b"
    "IE_BITS_TYPE (?b AND NOT MACH_PORT_TYPE_DEAD_NAME) = 0"
    using d(1) by (simp_all add: urefs_keep type_and)
  then have "blank (e\<lparr>ie_bits := ?bits\<rparr>) \<or> dead_entry_ok (e\<lparr>ie_bits := ?bits\<rparr>)"
    using d urefs_pred [of ?b] urefs_pred [of "?b AND NOT MACH_PORT_TYPE_DEAD_NAME"]
    by (auto simp: blank_def dead_entry_ok_def)
  then show thesis
    using that [of "put_entry r (e\<lparr>ie_bits := ?bits\<rparr>) st" "e\<lparr>ie_bits := ?bits\<rparr>"] assms
    by (simp add: move_dead_def asserting_def Let_def)
qed

text \<open>The way of a dead name for the three dispositions.\<close>

definition dead_way :: "ipc_entry_ref \<Rightarrow> mach_msg_type_name \<Rightarrow> bool \<Rightarrow> 'z right_state_scheme \<Rightarrow> 'z copied option" where
  "dead_way r m deadok = (if m = COPY_SEND then copy_dead r deadok else move_dead r deadok)"

definition live_way ::
  "mach_port_name \<Rightarrow> ipc_entry_ref \<Rightarrow> mach_msg_type_name \<Rightarrow> nat \<Rightarrow> 'z right_state_scheme \<Rightarrow> 'z copied option" where
  "live_way name r m =
     (if m = COPY_SEND then copyin_copy_send r else if m = MOVE_SEND then copyin_move_send name r
      else copyin_move_send_once name r)"

lemma dead_way_ok:
  assumes "right_ok name r st" and "frame st st1" and "get_entry r st = Some e0" and "get_entry r st1 = Some e" and "dead_entry_ok e"
  shows "\<exists>st' res. dead_way r m deadok st1 = Some (st', res) \<and> copied_ok name r m st (st', res) \<and> (isl res \<longleftrightarrow> \<not> deadok)"
proof (cases "deadok \<and> m \<noteq> COPY_SEND")
  case True
  obtain st' e' where m: "move_dead r True st1 = Some (st', Inr (IO_DEAD, None))" "get_entry r st' = Some e'"
    "blank e' \<or> dead_entry_ok e'" "frame st1 st'"
    using dead_moved [OF assms(4,5)] by blast
  have "frame st st'"
    using assms(2) m(4) frame_trans by blast
  then have "copied_ok name r m st (st', Inr (IO_DEAD, None))"
    using m(2,3) assms(1,3) right_ok_deadI [of name r st st' e'] by (auto simp: copied_ok_def)
  then show ?thesis
    using m(1) True by (intro exI [of _ st'] exI [of _ "Inr (IO_DEAD, None)"]) (simp add: dead_way_def)
next
  case False
  have "right_ok name r st1"
    by (rule right_ok_deadI [OF assms(1,2,4,5)])
  then have "copied_ok name r m st (st1, if deadok then Inr (IO_DEAD, None) else Inl KERN_INVALID_RIGHT)"
    using assms by (simp add: copied_ok_def)
  moreover have "dead_way r m deadok st1 = Some (st1, if deadok then Inr (IO_DEAD, None) else Inl KERN_INVALID_RIGHT)"
    using False assms(4,5) by (auto simp: dead_way_def copy_dead_def move_dead_def asserting_def Let_def)
  ultimately show ?thesis
    by auto
qed

text \<open>The right that a disposition for a live port needs.\<close>

definition needs_right :: "mach_msg_type_name \<Rightarrow> u32" where
  "needs_right m = (if m = MOVE_SEND_ONCE then MACH_PORT_TYPE_SEND_ONCE else MACH_PORT_TYPE_SEND)"

lemma refused_ok:
  assumes "right_ok name r st" and "get_entry r st = Some e"
  shows "copied_ok name r m st (st, Inl KERN_INVALID_RIGHT)"
  using assms by (simp add: copied_ok_def)

text \<open>The types of rights to ports, by their bits.\<close>

lemma port_has:
  assumes "IE_BITS_TYPE b \<in> port_types"
  shows "has b MACH_PORT_TYPE_SEND \<longleftrightarrow> IE_BITS_TYPE b = MACH_PORT_TYPE_SEND \<or> IE_BITS_TYPE b = MACH_PORT_TYPE_SEND_RECEIVE"
    and "has b MACH_PORT_TYPE_RECEIVE \<longleftrightarrow> IE_BITS_TYPE b = MACH_PORT_TYPE_RECEIVE \<or> IE_BITS_TYPE b = MACH_PORT_TYPE_SEND_RECEIVE"
    and "has b MACH_PORT_TYPE_SEND_ONCE \<longleftrightarrow> IE_BITS_TYPE b = MACH_PORT_TYPE_SEND_ONCE"
    and "has b MACH_PORT_TYPE_SEND_RIGHTS \<longleftrightarrow> IE_BITS_TYPE b \<noteq> MACH_PORT_TYPE_RECEIVE"
    and "\<not> has b MACH_PORT_TYPE_DEAD_NAME"
  using assms by (auto simp: has_types [of b])

lemma port_counts:
  assumes "entry_port_ok self name e port" and "IE_BITS_TYPE (ie_bits e) \<in> port_types"
  shows "has (ie_bits e) MACH_PORT_TYPE_SEND \<Longrightarrow> 0 < IE_BITS_UREFS (ie_bits e) \<and> IE_BITS_UREFS (ie_bits e) < MACH_PORT_UREFS_MAX"
    and "has (ie_bits e) MACH_PORT_TYPE_SEND_ONCE \<Longrightarrow> IE_BITS_UREFS (ie_bits e) = 1"
    and "ip_active port \<Longrightarrow> has (ie_bits e) MACH_PORT_TYPE_SEND \<Longrightarrow> 0 < ip_srights port"
    and "ip_active port \<Longrightarrow> has (ie_bits e) MACH_PORT_TYPE_SEND_ONCE \<Longrightarrow> 0 < ip_sorights port"
    and "ip_active port \<Longrightarrow> request_ok name (ie_request e) port" and "ip_active port \<Longrightarrow> ip_srights port \<le> ip_references port"
    and "has (ie_bits e) MACH_PORT_TYPE_RECEIVE \<Longrightarrow> receives port name self"
  using assms unfolding port_has [OF assms(2)] port_right_ok_def by auto

lemma port_right_ok_recount:
  assumes "port_right_ok self name type urefs request port" and "0 < x" and "x \<le> IO_MAX_REFERENCES" and "s \<le> x"
    and "has type MACH_PORT_TYPE_SEND \<Longrightarrow> 0 < s"
    and "if has type MACH_PORT_TYPE_SEND then 0 < urefs' \<and> urefs' < MACH_PORT_UREFS_MAX else urefs' = urefs"
  shows "port_right_ok self name type urefs' request (port\<lparr>ip_srights := s, ip_references := x\<rparr>)"
  using assms unfolding port_right_ok_def receives_def request_ok_def by (simp split: if_splits)

text \<open>A live port, whose right the entry has or has not.\<close>

lemma live_refused:
  assumes "get_entry r st = Some e" and "entry_port_ok (st_self st) name e (st_ports st p)"
    and "ip_active (st_ports st p)" and "has (ie_bits e) MACH_PORT_TYPE_SEND_RIGHTS"
    and "IE_BITS_TYPE (ie_bits e) \<in> port_types" and "\<not> has (ie_bits e) (needs_right m)"
    and "m \<in> {COPY_SEND, MOVE_SEND, MOVE_SEND_ONCE}"
  shows "live_way name r m p st = Some (st, Inl KERN_INVALID_RIGHT)"
proof (cases "m = MOVE_SEND_ONCE")
  case True
  then have "has (ie_bits e) MACH_PORT_TYPE_SEND" "\<not> has (ie_bits e) MACH_PORT_TYPE_SEND_ONCE"
    using assms(4,6) assms(5) unfolding port_has [OF assms(5)] by (auto simp: needs_right_def port_has)
  then show ?thesis
    using True assms(1) port_counts(3) [OF assms(2,5,3)]
    by (simp add: live_way_def copyin_move_send_once_def asserting_def)
next
  case False
  then have "\<not> has (ie_bits e) MACH_PORT_TYPE_SEND" "has (ie_bits e) MACH_PORT_TYPE_SEND_ONCE"
    using assms(4,6) assms(5) unfolding port_has [OF assms(5)] by (auto simp: needs_right_def port_has)
  moreover from this have "IE_BITS_TYPE (ie_bits e) = MACH_PORT_TYPE_SEND_ONCE"
    by (simp add: port_has [OF assms(5)])
  ultimately show ?thesis
    using False assms(1,7) port_counts(4) [OF assms(2,5,3)]
    by (auto simp: live_way_def copyin_copy_send_def copyin_move_send_def not_a_send_def asserting_def)
qed

lemma copy_send_ok:
  assumes "right_ok name r st" and "get_entry r st = Some e" and "ie_object e = Some p"
    and "entry_port_ok (st_self st) name e (st_ports st p)" and "ip_active (st_ports st p)"
    and "IE_BITS_TYPE (ie_bits e) \<in> port_types" and "has (ie_bits e) MACH_PORT_TYPE_SEND"
    and "ip_references (st_ports st p) < IO_MAX_REFERENCES"
  shows "\<exists>st' x. copyin_copy_send r p st = Some (st', Inr x) \<and> copied_ok name r COPY_SEND st (st', Inr x)"
proof -
  let ?port = "st_ports st p"
  let ?port' = "?port\<lparr>ip_srights := ip_srights ?port + 1, ip_references := ip_references ?port + 1\<rparr>"
  note up = refs_up [OF assms(8)] and counts = port_counts [OF assms(4,6)]
  have run: "copyin_copy_send r p st = Some (set_port p ?port' st, Inr (IO_PORT p, None))"
    using assms(2,7,8) counts(3) [OF assms(5,7)] by (simp add: copyin_copy_send_def ip_reference_ok Let_def asserting_def)
  have "entry_port_ok (st_self st) name e ?port'"
    by (rule port_right_ok_recount [OF assms(4)]) (use up counts assms(4,5) in \<open>auto simp: port_right_ok_def\<close>)
  then have "right_ok name r (set_port p ?port' st)"
    using right_ok_portI [OF assms(1), of "set_port p ?port' st" e p] assms(2,3,6) by simp
  then have "copied_ok name r COPY_SEND st (set_port p ?port' st, Inr (IO_PORT p, None))"
    using assms(2,3) by (intro copied_portI [where e = e and e' = e]) (auto simp: conserved_def asks_send_def asks_sonce_def)
  then show ?thesis
    using run by blast
qed

lemma move_send_some_ok:
  assumes "right_ok name r st" and "get_entry r st = Some e" and "ie_object e = Some p"
    and "entry_port_ok (st_self st) name e (st_ports st p)" and "ip_active (st_ports st p)"
    and "IE_BITS_TYPE (ie_bits e) \<in> port_types" and "has (ie_bits e) MACH_PORT_TYPE_SEND"
    and "ip_references (st_ports st p) < IO_MAX_REFERENCES" and "IE_BITS_UREFS (ie_bits e) \<noteq> 1"
  shows "\<exists>st' x. copyin_move_send name r p st = Some (st', Inr x) \<and> copied_ok name r MOVE_SEND st (st', Inr x)"
proof -
  let ?port = "st_ports st p" and ?b = "ie_bits e"
  let ?port' = "?port\<lparr>ip_srights := ip_srights ?port + 1, ip_references := ip_references ?port + 1\<rparr>"
  let ?e' = "e\<lparr>ie_bits := ?b - 1\<rparr>"
  let ?st' = "put_entry r ?e' (set_port p ?port' st)"
  note up = refs_up [OF assms(8)] and counts = port_counts [OF assms(4,6)]
  have urefs: "0 < IE_BITS_UREFS ?b" "IE_BITS_UREFS ?b < MACH_PORT_UREFS_MAX" "0 < ip_srights ?port"
    using counts(1,3) assms(5,7) by auto
  note pred = urefs_pred [OF urefs(1)]
  have has: "has (?b - 1) m = has ?b m" if "m AND IE_BITS_TYPE_MASK = m" for m
    using has_type [OF that, of ?b] has_type [OF that, of "?b - 1"] pred(2) by simp
  have run: "copyin_move_send name r p st = Some (?st', Inr (IO_PORT p, None))"
    using assms(2,7-9) urefs(3) by (simp add: copyin_move_send_def ip_reference_ok Let_def asserting_def)
  have "port_right_ok (st_self st) name (IE_BITS_TYPE ?b) (IE_BITS_UREFS (?b - 1)) (ie_request e) ?port'"
    by (rule port_right_ok_recount [OF assms(4)])
      (use up counts assms(5,7,9) urefs pred has_types(1) [of ?b] in \<open>auto split: if_splits\<close>)
  then have ok: "entry_port_ok (st_self st) name ?e' ?port'"
    using pred(2) by simp
  have frame: "frame st ?st'"
    using frame_step(2,3) frame_trans by blast
  have "right_ok name r ?st'"
    by (rule right_ok_portI [OF assms(1) frame, of ?e' p]) (use ok assms(2,3,6) pred(2) in simp_all)
  then have "copied_ok name r MOVE_SEND st (?st', Inr (IO_PORT p, None))"
    using assms(2,3) frame
    by (intro copied_portI [where e = e and e' = ?e'])
      (auto simp: conserved_def asks_send_def asks_sonce_def sends_def sonces_def holds_def has)
  then show ?thesis
    using run by blast
qed

text \<open>The last user reference of a send right: the entry keeps a receive right or becomes blank.\<close>

lemma move_send_last_ok:
  assumes "right_ok name r st" and "get_entry r st = Some e" and "ie_object e = Some p"
    and "entry_port_ok (st_self st) name e (st_ports st p)" and "ip_active (st_ports st p)"
    and "IE_BITS_TYPE (ie_bits e) \<in> port_types" and "has (ie_bits e) MACH_PORT_TYPE_SEND"
    and "ip_references (st_ports st p) < IO_MAX_REFERENCES" and "IE_BITS_UREFS (ie_bits e) = 1"
  shows "\<exists>st' x. copyin_move_send name r p st = Some (st', Inr x) \<and> copied_ok name r MOVE_SEND st (st', Inr x)"
proof -
  let ?port = "st_ports st p" and ?b = "ie_bits e"
  let ?bits = "?b AND NOT (IE_BITS_UREFS_MASK OR MACH_PORT_TYPE_SEND)"
  note up = refs_up [OF assms(8)] and counts = port_counts [OF assms(4,6)]
  have srights: "0 < ip_srights ?port"
    using counts(3) assms(5,7) by auto
  show ?thesis
  proof (cases "IE_BITS_TYPE ?b = MACH_PORT_TYPE_SEND_RECEIVE")
    case True
    have recv: "receives ?port name (st_self st)"
      using counts(7) True by (simp add: port_has [OF assms(6)])
    let ?port' = "?port\<lparr>ip_references := ip_references ?port + 1\<rparr>"
    let ?e' = "e\<lparr>ie_bits := ?bits\<rparr>"
    let ?st' = "put_entry r ?e' (set_port p ?port' st)"
    have bits: "IE_BITS_TYPE ?bits = MACH_PORT_TYPE_RECEIVE" "IE_BITS_UREFS ?bits = 0"
      using cleared(2,7) True by blast+
    have run: "copyin_move_send name r p st = Some (?st', Inr (IO_PORT p, None))"
      using assms(2,7-9) srights recv True port_has(2) [OF assms(6)]
      by (simp add: copyin_move_send_def ip_reference_ok Let_def asserting_def)
    have ok: "entry_port_ok (st_self st) name ?e' ?port'"
      using recv up counts(5,6) [OF assms(5)] assms(5) bits
      by (simp add: port_right_ok_def receives_def request_ok_def)
    have frame: "frame st ?st'"
      using frame_step(2,3) frame_trans by blast
    have "right_ok name r ?st'"
      by (rule right_ok_portI [OF assms(1) frame, of ?e' p]) (use ok assms(2,3) bits in simp_all)
    then have "copied_ok name r MOVE_SEND st (?st', Inr (IO_PORT p, None))"
      using assms(2,3) frame bits True port_has [OF assms(6)] port_has [of ?bits]
      by (intro copied_portI [where e = e and e' = ?e'])
        (auto simp: conserved_def asks_send_def asks_sonce_def sends_def sonces_def holds_def)
    then show ?thesis
      using run by blast
  next
    case False
    then have type: "IE_BITS_TYPE ?b = MACH_PORT_TYPE_SEND"
      using assms(7) port_has(1) [OF assms(6)] by blast
    have "in_place name r st"
      using assms(1) by (simp add: right_ok_def)
    obtain st1 dn d where st1: "ipc_right_dncancel_macro p name r st = Some (st1, dn)"
      "get_entry r st1 = Some (e\<lparr>ie_request := 0\<rparr>)" "st_ports st1 = (st_ports st)(p := ?port\<lparr>ip_dnrequests := d\<rparr>)"
      "frame st st1"
      using dncancel_live [OF assms(2,3,5) counts(5) [OF assms(5)]] by metis
    obtain st2 where st2: "ipc_hash_delete p name r st1 = Some st2" "get_entry r st2 = get_entry r st1"
      "st_ports st2 = st_ports st1" "frame st1 st2"
      using hash_delete_ok [of name r st1 p] in_place_frame [OF st1(4)] \<open>in_place name r st\<close> by metis
    let ?e' = "e\<lparr>ie_request := 0, ie_object := None, ie_bits := ?bits\<rparr>"
    let ?st' = "put_entry r ?e' (put_entry r (e\<lparr>ie_request := 0, ie_object := None\<rparr>) st2)"
    have bits: "IE_BITS_TYPE ?bits = 0" "IE_BITS_UREFS ?bits = 0"
      using cleared(2,6) type by blast+
    have run: "copyin_move_send name r p st = Some (?st', Inr (IO_PORT p, dn))"
      using assms(2,7,9) srights type port_has(2) [OF assms(6)] st1(1,2) st2(1,2)
      by (simp add: copyin_move_send_def Let_def asserting_def)
    have frame: "frame st ?st'"
      by (intro frame_more frame_trans [OF st1(4) st2(4)])
    have "\<not> has ?bits m" if "m AND IE_BITS_TYPE_MASK = m" for m
      using has_type [OF that, of ?bits] bits(1) by simp
    then have "copied_ok name r MOVE_SEND st (?st', Inr (IO_PORT p, dn))"
      using assms(2,3) frame bits type port_has [OF assms(6)] st1(2,3) st2(2,3)
      by (intro copied_portI [where e = e and e' = ?e'])
        (auto simp: conserved_def asks_send_def asks_sonce_def sends_def sonces_def holds_def blank_def)
    then show ?thesis
      using run by blast
  qed
qed

lemma move_send_once_ok:
  assumes "right_ok name r st" and "get_entry r st = Some e" and "ie_object e = Some p"
    and "entry_port_ok (st_self st) name e (st_ports st p)" and "ip_active (st_ports st p)"
    and "IE_BITS_TYPE (ie_bits e) \<in> port_types" and "has (ie_bits e) MACH_PORT_TYPE_SEND_ONCE"
    and "ip_references (st_ports st p) < IO_MAX_REFERENCES"
  shows "\<exists>st' x. copyin_move_send_once name r p st = Some (st', Inr x) \<and> copied_ok name r MOVE_SEND_ONCE st (st', Inr x)"
proof -
  let ?port = "st_ports st p" and ?b = "ie_bits e"
  let ?bits = "?b AND NOT (IE_BITS_UREFS_MASK OR MACH_PORT_TYPE_SEND_ONCE)"
  note counts = port_counts [OF assms(4,6)]
  have type: "IE_BITS_TYPE ?b = MACH_PORT_TYPE_SEND_ONCE"
    using assms(7) port_has(3) [OF assms(6)] by blast
  obtain st1 dn d where st1: "ipc_right_dncancel_macro p name r st = Some (st1, dn)"
    "get_entry r st1 = Some (e\<lparr>ie_request := 0\<rparr>)" "st_ports st1 = (st_ports st)(p := ?port\<lparr>ip_dnrequests := d\<rparr>)"
    "frame st st1"
    using dncancel_live [OF assms(2,3,5) counts(5) [OF assms(5)]] by metis
  let ?e' = "e\<lparr>ie_request := 0, ie_object := None, ie_bits := ?bits\<rparr>"
  let ?st' = "put_entry r ?e' (put_entry r (e\<lparr>ie_request := 0, ie_object := None\<rparr>) st1)"
  have bits: "IE_BITS_TYPE ?bits = 0" "IE_BITS_UREFS ?bits = 0"
    using cleared(3,8) type by blast+
  have run: "copyin_move_send_once name r p st = Some (?st', Inr (IO_PORT p, dn))"
    using assms(2,7) type counts(2,4) assms(5) st1(1,2) by (simp add: copyin_move_send_once_def Let_def asserting_def)
  have frame: "frame st ?st'"
    by (intro frame_more st1(4))
  have "\<not> has ?bits m" if "m AND IE_BITS_TYPE_MASK = m" for m
    using has_type [OF that, of ?bits] bits(1) by simp
  then have "copied_ok name r MOVE_SEND_ONCE st (?st', Inr (IO_PORT p, dn))"
    using assms(2,3) frame bits type port_has [OF assms(6)] st1(2,3)
    by (intro copied_portI [where e = e and e' = ?e'])
      (auto simp: conserved_def asks_send_def asks_sonce_def sends_def sonces_def holds_def blank_def)
  then show ?thesis
    using run by blast
qed

section \<open>All dispositions\<close>

text \<open>The port of the entry can take another reference.\<close>

definition refs_room :: "ipc_entry_ref \<Rightarrow> 'z right_state_scheme \<Rightarrow> bool" where
  "refs_room r st \<longleftrightarrow>
     (case Option.bind (get_entry r st) ie_object of
       None \<Rightarrow> True | Some p \<Rightarrow> ip_references (st_ports st p) < IO_MAX_REFERENCES)"

lemma live_way_ok:
  assumes "right_ok name r st" and "get_entry r st = Some e" and "ie_object e = Some p"
    and "entry_port_ok (st_self st) name e (st_ports st p)" and "ip_active (st_ports st p)"
    and "IE_BITS_TYPE (ie_bits e) \<in> port_types" and "has (ie_bits e) (needs_right m)"
    and "ip_references (st_ports st p) < IO_MAX_REFERENCES" and "m \<in> {COPY_SEND, MOVE_SEND, MOVE_SEND_ONCE}"
  shows "\<exists>st' x. live_way name r m p st = Some (st', Inr x) \<and> copied_ok name r m st (st', Inr x)"
proof -
  consider "m = COPY_SEND" | "m = MOVE_SEND" "IE_BITS_UREFS (ie_bits e) = 1"
    | "m = MOVE_SEND" "IE_BITS_UREFS (ie_bits e) \<noteq> 1" | "m = MOVE_SEND_ONCE"
    using assms(9) by blast
  then show ?thesis
  proof cases
    case 1
    then show ?thesis
      using copy_send_ok [OF assms(1-6) _ assms(8)] assms(7) by (simp add: live_way_def needs_right_def)
  next
    case 2
    then show ?thesis
      using move_send_last_ok [OF assms(1-6) _ assms(8)] assms(7) by (simp add: live_way_def needs_right_def)
  next
    case 3
    then show ?thesis
      using move_send_some_ok [OF assms(1-6) _ assms(8)] assms(7) by (simp add: live_way_def needs_right_def)
  next
    case 4
    then show ?thesis
      using move_send_once_ok [OF assms(1-6) _ assms(8)] assms(7) by (simp add: live_way_def needs_right_def)
  qed
qed

lemma copyin_send_kinds:
  assumes "right_ok name r st" and "get_entry r st = Some e" and "refs_room r st"
    and "m \<in> {COPY_SEND, MOVE_SEND, MOVE_SEND_ONCE}"
  shows "\<exists>b st' res. ipc_right_copyin_check r m st = Some b \<and>
    with_send_right name r (dead_way r m deadok) (live_way name r m) st = Some (st', res) \<and>
    copied_ok name r m st (st', res) \<and> (deadok \<longrightarrow> (b \<longleftrightarrow> \<not> isl res))"
proof -
  let ?b = "ie_bits e"
  have ok: "entry_ok (st_self st) (st_ports st) name e" "is_active (st_space st)"
    using assms(1,2) by (simp_all add: right_ok_def)
  note unf = ipc_right_copyin_check_def with_send_right_def Let_def asserting_def
  consider (dead) "has ?b MACH_PORT_TYPE_DEAD_NAME"
    | (none) "\<not> has ?b MACH_PORT_TYPE_DEAD_NAME" "\<not> has ?b MACH_PORT_TYPE_SEND_RIGHTS"
    | (port) "\<not> has ?b MACH_PORT_TYPE_DEAD_NAME" "has ?b MACH_PORT_TYPE_SEND_RIGHTS"
    by blast
  then show ?thesis
  proof cases
    case dead
    then have "dead_entry_ok e"
      using ok(1) has_types(5) [of ?b] by (auto simp: entry_ok_def Let_def split: if_splits)
    then obtain st' res where d: "dead_way r m deadok st = Some (st', res)" "copied_ok name r m st (st', res)"
      "isl res \<longleftrightarrow> \<not> deadok"
      using dead_way_ok [OF assms(1) frame_step(1) assms(2,2)] by blast
    have "ipc_right_copyin_check r m st = Some True"
      using assms(2,4) dead ok(2) by (auto simp: unf)
    then show ?thesis
      using assms(2) dead d by (auto simp: with_send_right_def Let_def)
  next
    case none
    then have "ipc_right_copyin_check r m st = Some False"
      "with_send_right name r (dead_way r m deadok) (live_way name r m) st = Some (st, Inl KERN_INVALID_RIGHT)"
      using assms(2,4) ok(2) by (auto simp: unf)
    then show ?thesis
      using refused_ok [OF assms(1,2)] by auto
  next
    case port
    obtain p where p: "ie_object e = Some p" "entry_port_ok (st_self st) name e (st_ports st p)"
      "IE_BITS_TYPE ?b \<in> port_types"
      using entry_ok_port [OF ok(1)] has_mono [OF port(2), of MACH_PORT_TYPE_PORT_RIGHTS] by auto
    have urefs: "0 < IE_BITS_UREFS ?b"
      using port_counts(1,2) [OF p(2,3)] port(2) p(3) unfolding port_has [OF p(3)] by auto
    have room: "ip_references (st_ports st p) < IO_MAX_REFERENCES"
      using assms(2,3) p(1) by (simp add: refs_room_def)
    have way: "with_send_right name r (dead_way r m deadok) (live_way name r m) st =
        do { (st1, died) \<leftarrow> ipc_right_check p name r st; if died then dead_way r m deadok st1 else live_way name r m p st1 }"
      using assms(2) port urefs p(1) by (simp add: with_send_right_def Let_def asserting_def)
    show ?thesis
    proof (cases "ip_active (st_ports st p)")
      case True
      have check: "ipc_right_copyin_check r m st = Some (has ?b (needs_right m))"
        using assms(2,4) port p(1) ok(2) True by (auto simp: unf needs_right_def)
      have live: "with_send_right name r (dead_way r m deadok) (live_way name r m) st = live_way name r m p st"
        using way check_live [OF assms(2) p(1) ok(2) True] by simp
      show ?thesis
      proof (cases "has ?b (needs_right m)")
        case right: True
        then show ?thesis
          using check live live_way_ok [OF assms(1,2) p(1,2) True p(3) right room assms(4)] by auto
      next
        case False
        then show ?thesis
          using check live live_refused [OF assms(2) p(2) True port(2) p(3) False assms(4)] refused_ok [OF assms(1,2)]
          by auto
      qed
    next
      case False
      obtain st1 e1 where st1: "ipc_right_check p name r st = Some (st1, True)" "get_entry r st1 = Some e1"
        "dead_entry_ok e1" "frame st st1"
        using check_dead [OF assms(1,2) p(1) False port(2)] by metis
      have "ipc_right_copyin_check r m st = Some True"
        using assms(2,4) port p(1) ok(2) False by (auto simp: unf)
      then show ?thesis
        using way st1(1) dead_way_ok [OF assms(1) st1(4) assms(2) st1(2,3), of m deadok] by auto
    qed
  qed
qed

lemma copyin_all:
  assumes "right_ok name r st" and "refs_room r st" and "m \<noteq> TYPE_OTHER"
  shows "\<exists>b st' res. ipc_right_copyin_check r m st = Some b \<and> ipc_right_copyin name r m deadok st = Some (st', res) \<and>
    copied_ok name r m st (st', res) \<and> (deadok \<longrightarrow> (b \<longleftrightarrow> \<not> isl res))"
proof -
  obtain e where e: "get_entry r st = Some e" "is_active (st_space st)"
    using assms(1) by (auto elim: right_okE)
  have room: "ip_references (st_ports st p) < IO_MAX_REFERENCES" if "ie_object e = Some p" for p
    using assms(2) e(1) that by (simp add: refs_room_def)
  show ?thesis
  proof (cases "m \<in> {COPY_SEND, MOVE_SEND, MOVE_SEND_ONCE}")
    case True
    then have "ipc_right_copyin name r m deadok st = with_send_right name r (dead_way r m deadok) (live_way name r m) st"
      using e by (auto simp: ipc_right_copyin_def asserting_def dead_way_def live_way_def Let_def)
    then show ?thesis
      using copyin_send_kinds [OF assms(1) e(1) assms(2) True, of deadok] by simp
  next
    case False
    then have m: "m \<in> {MAKE_SEND, MAKE_SEND_ONCE, MOVE_RECEIVE}"
      using assms(3) by (cases m) auto
    then have check: "ipc_right_copyin_check r m st = Some (has (ie_bits e) MACH_PORT_TYPE_RECEIVE)"
      using e by (auto simp: ipc_right_copyin_check_def asserting_def Let_def)
    show ?thesis
    proof (cases "has (ie_bits e) MACH_PORT_TYPE_RECEIVE")
      case True
      then have "\<exists>st' x. ipc_right_copyin name r m deadok st = Some (st', Inr x) \<and> copied_ok name r m st (st', Inr x)"
        using m e copyin_make_send_ok [OF assms(1) e(1) True room] copyin_make_send_once_ok [OF assms(1) e(1) True room]
          copyin_move_receive_ok [OF assms(1) e(1) True room]
        by (auto simp: ipc_right_copyin_def asserting_def Let_def)
      then show ?thesis
        using check True by auto
    next
      case False
      then have "ipc_right_copyin name r m deadok st = Some (st, Inl KERN_INVALID_RIGHT)"
        using m e by (auto simp: ipc_right_copyin_def asserting_def Let_def)
      then show ?thesis
        using check False refused_ok [OF assms(1) e(1)] by auto
    qed
  qed
qed

section \<open>The theorems\<close>

text \<open>For the witnesses: the space 100 has under the name \<open>0x104\<close> a receive right with two user references
  of a send right to port 7.\<close>

definition right_port :: ipc_port where
  "right_port = limbo_port\<lparr>ip_references := 3, ip_receiver_name := 0x104, ip_data := ip_receiver 100, ip_srights := 2\<rparr>"

definition right_table :: "ipc_entry list" where
  "right_table = [\<lparr>ie_object = None, ie_bits = IE_BITS_GEN_MASK, ie_request = 0\<rparr>,
     \<lparr>ie_object = Some 7, ie_bits = 0x04030002, ie_request = 0\<rparr>]"

definition right_sample :: right_state where
  "right_sample = \<lparr>st_ports = (\<lambda>_. right_port), st_calls = [], st_kmsg_inuse = (\<lambda>_. False), st_timestamp = 0,
     st_space = \<lparr>is_active = True, is_growing = False, is_table = right_table, is_table_next = 1,
       is_tree = \<lparr>ist_name = 0, ist_root = ITE_NULL, ist_left = [], ist_right = []\<rparr>, is_tree_total = 0,
       is_tree_small = 0, is_fast = False, is_hash = []\<rparr>,
     st_self = 100, st_psets = (\<lambda>_. \<lparr>ips_active = False, ips_local_name = 0\<rparr>), st_subsystem = id\<rparr>"

lemma right_sample_entry:
  "get_entry (In_Table 1) right_sample = Some \<lparr>ie_object = Some 7, ie_bits = 0x04030002, ie_request = 0\<rparr>"
  by (simp add: get_entry_def entry_of_def entry_at_def right_sample_def right_table_def)

lemma right_sample_ok: "right_ok 0x104 (In_Table 1) right_sample" "refs_room (In_Table 1) right_sample"
proof -
  have "IE_BITS_TYPE 0x04030002 = MACH_PORT_TYPE_SEND_RECEIVE" "IE_BITS_UREFS 0x04030002 = 2"
    by (simp_all add: IE_BITS_TYPE_def IE_BITS_UREFS_def)
  then show "right_ok 0x104 (In_Table 1) right_sample"
    unfolding right_ok_def right_sample_entry
    by (simp add: entry_ok_def port_right_ok_def receives_def request_ok_def right_port_def limbo_port_def
      in_place_def right_sample_def)
  show "refs_room (In_Table 1) right_sample"
    unfolding refs_room_def right_sample_entry by (simp add: right_sample_def right_port_def limbo_port_def)
qed

text \<open>C25. \<open>ipc_right_copyin_check\<close> is exact.  For a well-formed entry whose port can take a reference, and
  each of the six dispositions, neither it nor \<open>ipc_right_copyin\<close> fails an assertion, and the check says
  yes exactly if the copyin with \<open>deadok\<close> then succeeds.\<close>

theorem copyin_check_exact:
  assumes "right_ok name r st" and "refs_room r st" and "m \<noteq> TYPE_OTHER"
  shows "\<exists>b st' res. ipc_right_copyin_check r m st = Some b \<and> ipc_right_copyin name r m True st = Some (st', res) \<and>
    (b \<longleftrightarrow> res \<noteq> Inl KERN_INVALID_RIGHT)"
proof -
  obtain b st' res where c: "ipc_right_copyin_check r m st = Some b" "ipc_right_copyin name r m True st = Some (st', res)"
    "copied_ok name r m st (st', res)" "b \<longleftrightarrow> \<not> isl res"
    using copyin_all [OF assms, of True] by blast
  have "isl res \<longleftrightarrow> res = Inl KERN_INVALID_RIGHT"
    using c(3) by (cases res) (auto simp: copied_ok_def split: option.splits)
  then show ?thesis
    using c by blast
qed

theorem copyin_check_exact_witness:
  "\<exists>b st' res. ipc_right_copyin_check (In_Table 1) MOVE_SEND right_sample = Some b \<and>
    ipc_right_copyin 0x104 (In_Table 1) MOVE_SEND True right_sample = Some (st', res) \<and>
    (b \<longleftrightarrow> res \<noteq> Inl KERN_INVALID_RIGHT)"
  by (rule copyin_check_exact [OF right_sample_ok]) simp

text \<open>C26. \<open>ipc_right_copyin\<close> keeps the entry well formed, or leaves it blank for the caller to free, and
  conserves rights: the send rights, send-once rights and references that the port counts beyond those of
  the entry grow by exactly the right that the caller gets and the reference with it.  The other ports stay
  as they are, the receive right goes exactly with \<open>MOVE_RECEIVE\<close>, which leaves its port in limbo, and an
  error changes nothing but an entry that was already dead.\<close>

theorem copyin_conserves:
  assumes "right_ok name r st" and "refs_room r st" and "m \<noteq> TYPE_OTHER" and "get_entry r st = Some e"
  shows "\<exists>st' res e'. ipc_right_copyin name r m deadok st = Some (st', res) \<and> get_entry r st' = Some e' \<and>
    (blank e' \<or> right_ok name r st') \<and>
    (case res of
      Inr (IO_PORT p, soright) \<Rightarrow>
        ie_object e = Some p \<and> (\<forall>q. q \<noteq> p \<longrightarrow> st_ports st' q = st_ports st q) \<and>
        conserved p e e' (st_ports st p) (st_ports st' p) (asks_send m) (asks_sonce m) 1 \<and>
        (if m = MOVE_RECEIVE then \<not> has (ie_bits e') MACH_PORT_TYPE_RECEIVE \<and> in_limbo (st_ports st' p)
         else has (ie_bits e') MACH_PORT_TYPE_RECEIVE = has (ie_bits e) MACH_PORT_TYPE_RECEIVE)
    | Inr (IO_DEAD, soright) \<Rightarrow> soright = None \<and> (blank e' \<or> dead_entry_ok e')
    | Inl kr \<Rightarrow> kr = KERN_INVALID_RIGHT \<and> (st' = st \<or> dead_entry_ok e'))"
proof -
  obtain st' res where c: "ipc_right_copyin name r m deadok st = Some (st', res)" "copied_ok name r m st (st', res)"
    using copyin_all [OF assms(1-3), of deadok] by blast
  obtain e' where "get_entry r st' = Some e'"
    using c(2) assms(4) by (cases "get_entry r st'") (simp_all add: copied_ok_def)
  then show ?thesis
    using c assms(4) by (intro exI [of _ st'] exI [of _ res] exI [of _ e']) (simp add: copied_ok_def)
qed

theorem copyin_conserves_witness:
  "\<exists>st' res e'. ipc_right_copyin 0x104 (In_Table 1) MOVE_RECEIVE False right_sample = Some (st', res) \<and>
     get_entry (In_Table 1) st' = Some e' \<and> (blank e' \<or> right_ok 0x104 (In_Table 1) st')"
  using copyin_conserves [OF right_sample_ok, of MOVE_RECEIVE _ False] right_sample_entry by blast

end
