(* ===== verification/Ipc_Hash.thy ===== *)
theory Ipc_Hash
  imports Ipc_Entry_Inv
begin

text \<open>
  The reverse hash tables of osfmk/ipc/ipc_hash.c, from an object to the name of its send right in a space.
  The local one is open addressing with linear probing inside the table of the space: each element has a
  field \<open>ie_index\<close>, the place's index into the same table, zero for a free place.  The global one has chains
  of the entries of all spaces' trees.  \<open>None\<close> is a failed assertion, an access outside the table or a loop
  that has not ended within its fuel.
\<close>

section \<open>The local table\<close>

text \<open>The fields of an \<open>ipc_entry\<close> that the file uses.  Objects are addresses.\<close>

record hash_slot =
  hs_object :: "nat option"
  hs_bits :: u32
  hs_index :: nat

definition IH_LOCAL_HASH :: "nat \<Rightarrow> nat \<Rightarrow> nat" where "IH_LOCAL_HASH obj sz = (obj div 64) mod sz"

definition slot_at :: "hash_slot list \<Rightarrow> nat \<Rightarrow> hash_slot option" where
  "slot_at table i = (if i < length table then Some (table ! i) else None)"

definition next_place :: "nat \<Rightarrow> nat \<Rightarrow> nat" where
  "next_place sz hindex = (if hindex + 1 = sz then 0 else hindex + 1)"

definition set_index :: "nat \<Rightarrow> nat \<Rightarrow> hash_slot list \<Rightarrow> hash_slot list" where
  "set_index hindex index table = table[hindex := (table ! hindex)\<lparr>hs_index := index\<rparr>]"

fun local_probe :: "nat \<Rightarrow> hash_slot list \<Rightarrow> nat \<Rightarrow> nat \<Rightarrow> (mach_port_name \<times> nat) option option" where
  "local_probe 0 table obj hindex = None"
| "local_probe (Suc fuel) table obj hindex =
     do {
       slot \<leftarrow> slot_at table hindex;
       if hs_index slot = 0 then Some None
       else do {
         entry \<leftarrow> slot_at table (hs_index slot);
         if hs_object entry = Some obj
         then Some (Some (MACH_PORT_MAKE (of_nat (hs_index slot)) (IE_BITS_GEN (hs_bits entry)), hs_index slot))
         else local_probe fuel table obj (next_place (length table) hindex)
       }
     }"

text \<open>As many rounds as the table has places are enough.\<close>

definition ipc_hash_local_lookup :: "hash_slot list \<Rightarrow> nat \<Rightarrow> (mach_port_name \<times> nat) option option" where
  "ipc_hash_local_lookup table obj = local_probe (length table) table obj (IH_LOCAL_HASH obj (length table))"

fun free_place :: "nat \<Rightarrow> hash_slot list \<Rightarrow> nat \<Rightarrow> nat option" where
  "free_place 0 table hindex = None"
| "free_place (Suc fuel) table hindex =
     do {
       slot \<leftarrow> slot_at table hindex;
       if hs_index slot = 0 then Some hindex else free_place fuel table (next_place (length table) hindex)
     }"

definition local_insert :: "hash_slot list \<Rightarrow> nat \<Rightarrow> nat \<Rightarrow> hash_slot list option" where
  "local_insert table obj index =
     do {
       asserting (index \<noteq> 0);
       entry \<leftarrow> slot_at table index;
       asserting (hs_object entry = Some obj);
       hindex \<leftarrow> free_place (length table) table (IH_LOCAL_HASH obj (length table));
       Some (set_index hindex index table)
     }"

fun place_of :: "nat \<Rightarrow> hash_slot list \<Rightarrow> nat \<Rightarrow> nat \<Rightarrow> nat option" where
  "place_of 0 table index hindex = None"
| "place_of (Suc fuel) table index hindex =
     do {
       slot \<leftarrow> slot_at table hindex;
       if hs_index slot = index then Some hindex else place_of fuel table index (next_place (length table) hindex)
     }"

text \<open>Whether the object with home \<open>tindex\<close>, found at \<open>dindex\<close>, is displaced over the hole at \<open>hindex\<close>.\<close>

definition displaced :: "nat \<Rightarrow> nat \<Rightarrow> nat \<Rightarrow> bool" where
  "displaced hindex dindex tindex \<longleftrightarrow>
     (if dindex < hindex then dindex < tindex \<and> tindex \<le> hindex else dindex < tindex \<or> tindex \<le> hindex)"

text \<open>Both loops of the deletion: \<open>dindex\<close> runs through the clump behind the hole.\<close>

fun close_hole :: "nat \<Rightarrow> hash_slot list \<Rightarrow> nat \<Rightarrow> nat \<Rightarrow> hash_slot list option" where
  "close_hole 0 table hindex dindex = None"
| "close_hole (Suc fuel) table hindex dindex =
     (let d = next_place (length table) dindex in do {
        asserting (d \<noteq> hindex);
        slot \<leftarrow> slot_at table d;
        let index = hs_index slot;
        if index = 0 then Some (set_index hindex 0 table)
        else do {
          entry \<leftarrow> slot_at table index;
          tobj \<leftarrow> hs_object entry;
          if displaced hindex d (IH_LOCAL_HASH tobj (length table))
          then close_hole fuel (set_index hindex index table) d d
          else close_hole fuel table hindex d
        }
      })"

definition local_delete :: "hash_slot list \<Rightarrow> nat \<Rightarrow> nat \<Rightarrow> hash_slot list option" where
  "local_delete table obj index =
     do {
       asserting (index \<noteq> 0);
       entry \<leftarrow> slot_at table index;
       asserting (hs_object entry = Some obj);
       hindex \<leftarrow> place_of (length table) table index (IH_LOCAL_HASH obj (length table));
       close_hole (length table) table hindex hindex
     }"

section \<open>The global table\<close>

text \<open>The fields of an \<open>ipc_tree_entry\<close> that the file uses, with its address.\<close>

record hash_entry =
  he_addr :: nat
  he_name :: mach_port_name
  he_space :: nat
  he_object :: nat

text \<open>The chains, by their number, and the mask of the table.\<close>

record global_hash =
  gh_mask :: nat
  gh_buckets :: "nat \<Rightarrow> hash_entry list"

definition IH_GLOBAL_HASH :: "global_hash \<Rightarrow> nat \<Rightarrow> nat \<Rightarrow> nat" where
  "IH_GLOBAL_HASH g space obj = (space div 16 + obj div 64) AND gh_mask g"

definition set_bucket :: "nat \<Rightarrow> hash_entry list \<Rightarrow> global_hash \<Rightarrow> global_hash" where
  "set_bucket b entries g = g\<lparr>gh_buckets := (gh_buckets g)(b := entries)\<rparr>"

text \<open>The entry that is found moves to the front of its chain.\<close>

definition ipc_hash_global_lookup ::
  "nat \<Rightarrow> nat \<Rightarrow> global_hash \<Rightarrow> global_hash \<times> (mach_port_name \<times> nat) option" where
  "ipc_hash_global_lookup space obj g =
     (let b = IH_GLOBAL_HASH g space obj; bucket = gh_buckets g b;
          is_it = (\<lambda>e. he_object e = obj \<and> he_space e = space)
      in case filter is_it bucket of
           [] \<Rightarrow> (g, None)
         | e # _ \<Rightarrow>
             (set_bucket b (e # takeWhile (\<lambda>e. \<not> is_it e) bucket @ drop 1 (dropWhile (\<lambda>e. \<not> is_it e) bucket)) g,
              Some (he_name e, he_addr e)))"

text \<open>\<open>is_tree_hash\<close> and \<open>is_tree_total\<close> of the space are arguments; the first is returned.\<close>

definition global_insert :: "hash_entry \<Rightarrow> nat \<Rightarrow> nat \<Rightarrow> global_hash \<Rightarrow> (global_hash \<times> nat) option" where
  "global_insert e tree_hash tree_total g =
     (let b = IH_GLOBAL_HASH g (he_space e) (he_object e) in do {
        asserting (tree_hash + 1 \<le> tree_total);
        Some (set_bucket b (e # gh_buckets g b) g, tree_hash + 1)
      })"

definition global_delete :: "hash_entry \<Rightarrow> nat \<Rightarrow> global_hash \<Rightarrow> (global_hash \<times> nat) option" where
  "global_delete e tree_hash g =
     (let b = IH_GLOBAL_HASH g (he_space e) (he_object e); bucket = gh_buckets g b;
          other = (\<lambda>e'. he_addr e' \<noteq> he_addr e) in do {
        asserting (0 < tree_hash);
        asserting (dropWhile other bucket \<noteq> []);
        Some (set_bucket b (takeWhile other bucket @ drop 1 (dropWhile other bucket)) g, tree_hash - 1)
      })"

text \<open>The loop of \<open>ipc_hash_init\<close> that rounds the size up; \<open>bit\<close> has 32 positions.  The result is the mask.\<close>

fun round_up :: "nat \<Rightarrow> u32 \<Rightarrow> u32 \<Rightarrow> u32 option" where
  "round_up 0 b w = None"
| "round_up (Suc fuel) b w =
     (let w' = w OR b in if (w' + 1) AND w' = 0 then Some w' else round_up fuel (push_bit 1 b) w')"

definition hash_size :: "u32 \<Rightarrow> u32 \<Rightarrow> u32" where
  "hash_size configured ipc_tree_entry_max =
     (if configured = 0
      then let size = drop_bit 8 ipc_tree_entry_max in if size < 32 then 32 else size
      else configured)"

text \<open>\<open>kalloc\<close> is assumed to give memory, as the code asserts.\<close>

definition ipc_hash_init :: "u32 \<Rightarrow> u32 \<Rightarrow> global_hash option" where
  "ipc_hash_init configured ipc_tree_entry_max =
     (let size = hash_size configured ipc_tree_entry_max; w = size - 1 in do {
        w \<leftarrow> if size AND w \<noteq> 0 then round_up 32 1 w else Some w;
        Some \<lparr>gh_mask = unat w, gh_buckets = (\<lambda>_. [])\<rparr>
      })"

text \<open>The lengths of the first \<open>count\<close> chains; the mask is the size of the table less one.\<close>

definition ipc_hash_info :: "nat \<Rightarrow> global_hash \<Rightarrow> nat list \<times> nat" where
  "ipc_hash_info count g =
     (let size = gh_mask g + 1; count = if size < count then size else count
      in (map (\<lambda>i. length (gh_buckets g i)) [0..<count], size))"

text \<open>Both tables; the global one only if the space has entries in it.\<close>

definition ipc_hash_lookup ::
  "hash_slot list \<Rightarrow> bool \<Rightarrow> nat \<Rightarrow> nat \<Rightarrow> nat \<Rightarrow> global_hash \<Rightarrow> (global_hash \<times> (mach_port_name \<times> nat) option) option" where
  "ipc_hash_lookup table fast tree_hash space obj g =
     do {
       found \<leftarrow> ipc_hash_local_lookup table obj;
       (case found of
         Some r \<Rightarrow> Some (g, Some r)
       | None \<Rightarrow> do {
           asserting (fast \<longrightarrow> tree_hash = 0);
           Some (if 0 < tree_hash then ipc_hash_global_lookup space obj g else (g, None))
         })
     }"

end
