(* ===== verification/Ipc_Hash_Probe.thy ===== *)
theory Ipc_Hash_Probe
  imports Ipc_Hash
begin

text \<open>
  Linear probing, on functions from places to what they hold: the places of a table as a circle, clumps, and a
  locale over the home positions with the laws that seeking, inserting and deleting keep.
\<close>

section \<open>Places on a circle\<close>

text \<open>The places from \<open>t\<close> on before \<open>k\<close>.\<close>

definition between :: "nat \<Rightarrow> nat \<Rightarrow> nat \<Rightarrow> bool" where
  "between t j k \<longleftrightarrow> (if t \<le> k then t \<le> j \<and> j < k else t \<le> j \<or> j < k)"

text \<open>The number of a place counted from the one after \<open>z\<close>.\<close>

definition off :: "nat \<Rightarrow> nat \<Rightarrow> nat \<Rightarrow> nat" where
  "off n z p = (if z < p then p - z - 1 else p + n - z - 1)"

lemma off_less: "z < n \<Longrightarrow> p < n \<Longrightarrow> off n z p < n" "z < n \<Longrightarrow> off n z z = n - 1"
  by (auto simp: off_def)

lemma off_inj: "z < n \<Longrightarrow> p < n \<Longrightarrow> q < n \<Longrightarrow> off n z p = off n z q \<Longrightarrow> p = q"
  by (auto simp: off_def split: if_splits)

lemma off_last: "z < n \<Longrightarrow> p < n \<Longrightarrow> p \<noteq> z \<Longrightarrow> off n z p < n - 1"
  by (auto simp: off_def)

lemma off_next: "z < n \<Longrightarrow> p < n \<Longrightarrow> p \<noteq> z \<Longrightarrow> off n z (next_place n p) = off n z p + 1 \<and> next_place n p < n"
  by (auto simp: off_def next_place_def)

lemma off_cases:
  assumes "z < n"
  obtains "z < p" "p = off n z p + z + 1" | "p \<le> z" "p + n = off n z p + z + 1"
  using assms by (cases "z < p") (auto simp: off_def)

lemma between_off:
  assumes "z < n" and "t < n" and "k < n" and "j < n" and "\<not> between t z k" and "z \<noteq> k"
  shows "off n z t \<le> off n z k" and "between t j k \<longleftrightarrow> off n z t \<le> off n z j \<and> off n z j < off n z k"
  using assms by (auto simp: between_def off_def split: if_splits)

lemma off_between:
  assumes "z < n" and "t < n" and "k < n" and "j < n" and "off n z t \<le> off n z k"
  shows "between t j k \<longleftrightarrow> off n z t \<le> off n z j \<and> off n z j < off n z k"
proof (rule off_cases [OF assms(1), of t]; rule off_cases [OF assms(1), of k]; rule off_cases [OF assms(1), of j])
qed (use assms in \<open>simp add: between_def\<close>; arith)+

lemma displaced_off:
  assumes "z < n" and "h < n" and "d < n" and "t < n" and "off n z h < off n z d" and "off n z t \<le> off n z d"
  shows "displaced h d t \<longleftrightarrow> off n z t \<le> off n z h"
proof -
  have "displaced h d t = True" if "off n z t \<le> off n z h"
  proof (cases rule: off_cases [OF assms(1), of h]; cases rule: off_cases [OF assms(1), of d];
      cases rule: off_cases [OF assms(1), of t])
  qed (use assms that in \<open>auto simp: displaced_def\<close>)
  moreover have "displaced h d t = False" if "\<not> off n z t \<le> off n z h"
  proof (cases rule: off_cases [OF assms(1), of h]; cases rule: off_cases [OF assms(1), of d];
      cases rule: off_cases [OF assms(1), of t])
  qed (use assms that in \<open>auto simp: displaced_def\<close>)
  ultimately show ?thesis
    by blast
qed

section \<open>Clumps\<close>

text \<open>\<open>f\<close> is what the places hold, zero being nothing: the places from the home of an entry to its place are
  taken, and no entry has two places.\<close>

definition clumps_ok :: "(nat \<Rightarrow> nat) \<Rightarrow> nat \<Rightarrow> (nat \<Rightarrow> nat) \<Rightarrow> bool" where
  "clumps_ok home n f \<longleftrightarrow>
     (\<forall>k < n. f k \<noteq> 0 \<longrightarrow> (\<forall>j < n. between (home (f k)) j k \<longrightarrow> f j \<noteq> 0)) \<and>
     (\<forall>j < n. \<forall>k < n. f j = f k \<and> f k \<noteq> 0 \<longrightarrow> j = k)"

definition entries_in :: "nat \<Rightarrow> (nat \<Rightarrow> nat) \<Rightarrow> nat set" where
  "entries_in n f = {i. i \<noteq> 0 \<and> (\<exists>k < n. f k = i)}"

text \<open>The first place from \<open>p\<close> on with a property; all loops of the file seek one.\<close>

fun seek :: "nat \<Rightarrow> (nat \<Rightarrow> bool) \<Rightarrow> nat \<Rightarrow> nat \<Rightarrow> nat option" where
  "seek 0 P n p = None"
| "seek (Suc fuel) P n p = (if P p then Some p else seek fuel P n (next_place n p))"

lemma seek_first:
  assumes "z < n" and "k < n" and "P k"
  shows "p < n \<Longrightarrow> off n z p \<le> off n z k \<Longrightarrow> n - off n z p \<le> fuel \<Longrightarrow>
    \<exists>q < n. seek fuel P n p = Some q \<and> P q \<and> off n z p \<le> off n z q \<and> off n z q \<le> off n z k \<and>
      (\<forall>j < n. off n z p \<le> off n z j \<and> off n z j < off n z q \<longrightarrow> \<not> P j)"
proof (induction fuel arbitrary: p)
  case 0
  then show ?case
    using off_less(1) [OF assms(1) 0(1)] by simp
next
  case (Suc fuel)
  show ?case
  proof (cases "P p")
    case True
    then show ?thesis
      using Suc.prems by (intro exI [of _ p]) auto
  next
    case False
    then have "p \<noteq> k"
      using assms(3) by blast
    then have lt: "off n z p < off n z k"
      using Suc.prems(2) off_inj [OF assms(1) Suc.prems(1) assms(2)] by linarith
    then have "p \<noteq> z"
      using off_less(1) [OF assms(1,2)] off_less(2) [OF assms(1)] by auto
    then have nx: "off n z (next_place n p) = off n z p + 1" "next_place n p < n"
      using off_next [OF assms(1) Suc.prems(1)] by simp_all
    have "n - (off n z p + 1) \<le> fuel" "off n z p + 1 \<le> off n z k"
      using lt Suc.prems(3) by linarith+
    then obtain q where q: "q < n" "seek fuel P n (next_place n p) = Some q" "P q" "off n z p + 1 \<le> off n z q"
      "off n z q \<le> off n z k" "\<forall>j < n. off n z p + 1 \<le> off n z j \<and> off n z j < off n z q \<longrightarrow> \<not> P j"
      using Suc.IH [OF nx(2)] unfolding nx(1) by blast
    have "\<not> P j" if "j < n" "off n z p \<le> off n z j" "off n z j < off n z q" for j
    proof (cases "off n z j = off n z p")
      case True
      then show ?thesis
        using False off_inj [OF assms(1) that(1) Suc.prems(1)] by simp
    qed (use q(6) that in auto)
    then show ?thesis
      using q False by (intro exI [of _ q]) auto
  qed
qed

lemma clumps_inj: "clumps_ok home n f \<Longrightarrow> j < n \<Longrightarrow> k < n \<Longrightarrow> f j = f k \<Longrightarrow> f k \<noteq> 0 \<Longrightarrow> j = k"
  unfolding clumps_ok_def by blast

text \<open>The deletion as a function of the places: \<open>h\<close> is the hole, \<open>d\<close> the place before the next to be looked at.\<close>

fun shift :: "(nat \<Rightarrow> nat) \<Rightarrow> nat \<Rightarrow> nat \<Rightarrow> (nat \<Rightarrow> nat) \<Rightarrow> nat \<Rightarrow> nat \<Rightarrow> (nat \<Rightarrow> nat) option" where
  "shift home n 0 f h d = None"
| "shift home n (Suc fuel) f h d =
     (let e = next_place n d in
      if e = h then None
      else if f e = 0 then Some (f(h := 0))
      else if displaced h e (home (f e)) then shift home n fuel (f(h := f e)) e e
      else shift home n fuel f h e)"

text \<open>What the loops keep, seen from the free place \<open>z\<close>: but for the hole, whose content is stale, the clumps
  are in order, and no entry between the hole and \<open>d\<close> belongs into the hole.\<close>

definition near_home :: "(nat \<Rightarrow> nat) \<Rightarrow> nat \<Rightarrow> nat \<Rightarrow> (nat \<Rightarrow> nat) \<Rightarrow> nat \<Rightarrow> bool" where
  "near_home home n z f h \<longleftrightarrow> (\<forall>k < n. k \<noteq> h \<and> f k \<noteq> 0 \<longrightarrow> off n z (home (f k)) \<le> off n z k)"

definition no_gap :: "(nat \<Rightarrow> nat) \<Rightarrow> nat \<Rightarrow> nat \<Rightarrow> (nat \<Rightarrow> nat) \<Rightarrow> nat \<Rightarrow> bool" where
  "no_gap home n z f h \<longleftrightarrow>
     (\<forall>k < n. \<forall>j < n. k \<noteq> h \<and> f k \<noteq> 0 \<and> off n z (home (f k)) \<le> off n z j \<and> off n z j < off n z k \<longrightarrow> f j \<noteq> 0)"

definition stays :: "(nat \<Rightarrow> nat) \<Rightarrow> nat \<Rightarrow> nat \<Rightarrow> (nat \<Rightarrow> nat) \<Rightarrow> nat \<Rightarrow> nat \<Rightarrow> bool" where
  "stays home n z f h d \<longleftrightarrow>
     (\<forall>j < n. off n z h < off n z j \<and> off n z j \<le> off n z d \<longrightarrow> f j \<noteq> 0 \<and> off n z h < off n z (home (f j)))"

definition one_place :: "nat \<Rightarrow> (nat \<Rightarrow> nat) \<Rightarrow> nat \<Rightarrow> bool" where
  "one_place n f h \<longleftrightarrow> (\<forall>j < n. \<forall>k < n. j \<noteq> h \<and> k \<noteq> h \<and> f j = f k \<and> f k \<noteq> 0 \<longrightarrow> j = k)"

definition hole_ok :: "(nat \<Rightarrow> nat) \<Rightarrow> nat \<Rightarrow> nat \<Rightarrow> (nat \<Rightarrow> nat) \<Rightarrow> nat \<Rightarrow> nat \<Rightarrow> bool" where
  "hole_ok home n z f h d \<longleftrightarrow>
     z < n \<and> f z = 0 \<and> h < n \<and> f h \<noteq> 0 \<and> d < n \<and> d \<noteq> z \<and> off n z h \<le> off n z d \<and>
     near_home home n z f h \<and> no_gap home n z f h \<and> stays home n z f h d \<and> one_place n f h"

lemma hole_okD:
  assumes "hole_ok home n z f h d"
  shows "z < n" and "f z = 0" and "h < n" and "f h \<noteq> 0" and "d < n" and "d \<noteq> z" and "off n z h \<le> off n z d"
    and "near_home home n z f h" and "no_gap home n z f h" and "stays home n z f h d" and "one_place n f h"
  using assms unfolding hole_ok_def by blast+

lemma near_homeD: "near_home home n z f h \<Longrightarrow> k < n \<Longrightarrow> k \<noteq> h \<Longrightarrow> f k \<noteq> 0 \<Longrightarrow> off n z (home (f k)) \<le> off n z k"
  unfolding near_home_def by blast

lemma no_gapD:
  "no_gap home n z f h \<Longrightarrow> k < n \<Longrightarrow> j < n \<Longrightarrow> k \<noteq> h \<Longrightarrow> f k \<noteq> 0 \<Longrightarrow> off n z (home (f k)) \<le> off n z j \<Longrightarrow>
    off n z j < off n z k \<Longrightarrow> f j \<noteq> 0"
  unfolding no_gap_def by blast

lemma staysD:
  "stays home n z f h d \<Longrightarrow> j < n \<Longrightarrow> off n z h < off n z j \<Longrightarrow> off n z j \<le> off n z d \<Longrightarrow>
    f j \<noteq> 0 \<and> off n z h < off n z (home (f j))"
  unfolding stays_def by blast

lemma one_placeD: "one_place n f h \<Longrightarrow> j < n \<Longrightarrow> k < n \<Longrightarrow> j \<noteq> h \<Longrightarrow> k \<noteq> h \<Longrightarrow> f j = f k \<Longrightarrow> f k \<noteq> 0 \<Longrightarrow> j = k"
  unfolding one_place_def by blast

text \<open>The entries but for the stale one.\<close>

definition kept_in :: "nat \<Rightarrow> (nat \<Rightarrow> nat) \<Rightarrow> nat \<Rightarrow> nat set" where
  "kept_in n f h = {i. i \<noteq> 0 \<and> (\<exists>k < n. k \<noteq> h \<and> f k = i)}"

lemma kept_filled: "h < n \<Longrightarrow> entries_in n (f(h := 0)) = kept_in n f h"
  by (auto simp: entries_in_def kept_in_def split: if_splits)

lemma kept_moved:
  assumes "h < n" and "e < n" and "e \<noteq> h" and "f e \<noteq> 0"
  shows "kept_in n (f(h := f e)) e = kept_in n f h"
proof (intro equalityI subsetI)
  fix i
  assume "i \<in> kept_in n f h"
  then obtain k where k: "i \<noteq> 0" "k < n" "k \<noteq> h" "f k = i"
    unfolding kept_in_def by blast
  have "(f(h := f e)) (if k = e then h else k) = i" "(if k = e then h else k) < n" "(if k = e then h else k) \<noteq> e"
    using k assms by auto
  then show "i \<in> kept_in n (f(h := f e)) e"
    using k(1) unfolding kept_in_def by blast
next
  fix i
  assume "i \<in> kept_in n (f(h := f e)) e"
  then obtain k where k: "i \<noteq> 0" "k < n" "k \<noteq> e" "(f(h := f e)) k = i"
    unfolding kept_in_def by blast
  have "f (if k = h then e else k) = i" "(if k = h then e else k) < n" "(if k = h then e else k) \<noteq> h"
    using k assms by auto
  then show "i \<in> kept_in n f h"
    using k(1) unfolding kept_in_def by blast
qed

locale probing =
  fixes home :: "nat \<Rightarrow> nat" and n :: nat
  assumes home_less: "0 < n \<Longrightarrow> home i < n"
begin

text \<open>Seen from a free place the clumps are intervals.\<close>

lemma clump:
  assumes "clumps_ok home n f" and "z < n" and "f z = 0" and "k < n" and "f k \<noteq> 0"
  shows "off n z (home (f k)) \<le> off n z k"
    and "j < n \<Longrightarrow> off n z (home (f k)) \<le> off n z j \<Longrightarrow> off n z j < off n z k \<Longrightarrow> f j \<noteq> 0"
proof -
  have h: "home (f k) < n"
    using home_less assms(2) by simp
  have z: "\<not> between (home (f k)) z k" "z \<noteq> k"
    using assms unfolding clumps_ok_def by blast+
  show le: "off n z (home (f k)) \<le> off n z k"
    by (rule between_off(1) [OF assms(2) h assms(4) assms(2) z])
  assume "j < n" "off n z (home (f k)) \<le> off n z j" "off n z j < off n z k"
  then have "between (home (f k)) j k"
    using off_between [OF assms(2) h assms(4) _ le] by blast
  then show "f j \<noteq> 0"
    using assms(1,4,5) \<open>j < n\<close> unfolding clumps_ok_def by blast
qed

lemma clumpsI:
  assumes "z < n"
    and "\<And>k j. k < n \<Longrightarrow> j < n \<Longrightarrow> f k \<noteq> 0 \<Longrightarrow> off n z (home (f k)) \<le> off n z j \<Longrightarrow> off n z j < off n z k \<Longrightarrow> f j \<noteq> 0"
    and "\<And>k. k < n \<Longrightarrow> f k \<noteq> 0 \<Longrightarrow> off n z (home (f k)) \<le> off n z k"
    and "\<And>j k. j < n \<Longrightarrow> k < n \<Longrightarrow> f j = f k \<Longrightarrow> f k \<noteq> 0 \<Longrightarrow> j = k"
  shows "clumps_ok home n f"
  unfolding clumps_ok_def
proof (intro conjI allI impI)
  fix k j
  assume k: "k < n" "f k \<noteq> 0" and j: "j < n" "between (home (f k)) j k"
  have "home (f k) < n"
    using home_less assms(1) by simp
  from off_between [OF assms(1) this k(1) j(1) assms(3) [OF k]] j(2)
  show "f j \<noteq> 0"
    using assms(2) [OF k(1) j(1) k(2)] by blast
qed (use assms(4) in blast)

lemma insert_ok:
  assumes "clumps_ok home n f" and "z < n" and "f z = 0" and "i \<notin> entries_in n f" and "i \<noteq> 0"
    and "q < n" and "f q = 0" and "off n z (home i) \<le> off n z q"
    and "\<And>j. j < n \<Longrightarrow> off n z (home i) \<le> off n z j \<Longrightarrow> off n z j < off n z q \<Longrightarrow> f j \<noteq> 0"
  shows "clumps_ok home n (f(q := i))" and "entries_in n (f(q := i)) = insert i (entries_in n f)"
proof -
  show "clumps_ok home n (f(q := i))"
  proof (rule clumpsI [OF assms(2)])
    fix k j
    assume k: "k < n" "j < n" "(f(q := i)) k \<noteq> 0" "off n z (home ((f(q := i)) k)) \<le> off n z j" "off n z j < off n z k"
    then show "(f(q := i)) j \<noteq> 0"
      using assms(5,9) clump(2) [OF assms(1-3), of k j] by (cases "k = q") (auto simp: fun_upd_def)
  next
    fix k
    assume "k < n" "(f(q := i)) k \<noteq> 0"
    then show "off n z (home ((f(q := i)) k)) \<le> off n z k"
      using assms(8) clump(1) [OF assms(1-3), of k] by (cases "k = q") auto
  next
    fix j k
    assume jk: "j < n" "k < n" "(f(q := i)) j = (f(q := i)) k" "(f(q := i)) k \<noteq> 0"
    have "f j \<noteq> i" if "j < n" for j
      using assms(4,5) that by (auto simp: entries_in_def)
    then show "j = k"
      using jk clumps_inj [OF assms(1), of j k] by (auto simp: fun_upd_def split: if_splits)
  qed
  show "entries_in n (f(q := i)) = insert i (entries_in n f)"
  proof (intro equalityI subsetI)
    fix x
    assume "x \<in> insert i (entries_in n f)"
    then consider "x = i" | k where "x \<noteq> 0" "k < n" "f k = x"
      unfolding entries_in_def by blast
    then show "x \<in> entries_in n (f(q := i))"
    proof cases
      case 2
      then have "(f(q := i)) k = x"
        using assms(7) by auto
      then show ?thesis
        using 2 unfolding entries_in_def by blast
    qed (use assms(5,6) in \<open>auto simp: entries_in_def\<close>)
  qed (auto simp: entries_in_def split: if_splits)
qed

text \<open>One round of the deletion: on to the next place, which is free, or holds an entry that fills the hole or
  one that stays.\<close>

lemma hole_next:
  assumes "hole_ok home n z f h d"
  shows "off n z (next_place n d) = off n z d + 1" and "next_place n d < n" and "next_place n d \<noteq> h"
  using off_next [OF hole_okD(1,5,6) [OF assms]] hole_okD(7) [OF assms] by auto

lemma hole_test:
  assumes "hole_ok home n z f h d"
  defines "e \<equiv> next_place n d"
  assumes "f e \<noteq> 0"
  shows "displaced h e (home (f e)) \<longleftrightarrow> off n z (home (f e)) \<le> off n z h"
proof -
  note H = hole_okD [OF assms(1)] and e = hole_next [OF assms(1), folded e_def]
  have "home (f e) < n"
    using home_less H(1) by simp
  then show ?thesis
    by (rule displaced_off [OF H(1,3) e(2) _ _ near_homeD [OF H(8) e(2,3) assms(3)]]) (use e(1) H(7) in simp)
qed

lemma hole_filled:
  assumes "hole_ok home n z f h d"
  defines "e \<equiv> next_place n d"
  assumes fe: "f e = 0"
  shows "clumps_ok home n (f(h := 0))"
proof -
  note H = hole_okD [OF assms(1)]
  note near = near_homeD [OF H(8)] and gap = no_gapD [OF H(9)] and stay = staysD [OF H(10)]
    and one = one_placeD [OF H(11)] and e = hole_next [OF assms(1), folded e_def]
  show "clumps_ok home n (f(h := 0))"
  proof (rule clumpsI [OF H(1)])
    fix k j
    assume k: "k < n" "j < n" "(f(h := 0)) k \<noteq> 0"
      "off n z (home ((f(h := 0)) k)) \<le> off n z j" "off n z j < off n z k"
    then have kh: "k \<noteq> h" "f k \<noteq> 0" "off n z (home (f k)) \<le> off n z j"
      by (auto split: if_splits)
    have "j \<noteq> h"
    proof
      assume j: "j = h"
      show False
      proof (cases "off n z k \<le> off n z d")
        case True
        then show ?thesis
          using stay [OF k(1)] k(5) kh(3) j by simp
      next
        case False
        then have "off n z e < off n z k"
          using e k(1) kh(2) fe off_inj [OF H(1) k(1) e(2)] by fastforce
        then show ?thesis
          using gap [OF k(1) e(2) kh(1,2)] kh(3) j e(1) H(7) fe by simp
      qed
    qed
    then show "(f(h := 0)) j \<noteq> 0"
      using gap [OF k(1,2) kh(1,2,3) k(5)] by simp
  next
    fix k
    assume "k < n" "(f(h := 0)) k \<noteq> 0"
    then show "off n z (home ((f(h := 0)) k)) \<le> off n z k"
      using near [of k] by (auto split: if_splits)
  next
    fix j k
    assume "j < n" "k < n" "(f(h := 0)) j = (f(h := 0)) k" "(f(h := 0)) k \<noteq> 0"
    then show "j = k"
      using one [of j k] by (auto split: if_splits)
  qed
qed

lemma hole_moved:
  assumes "hole_ok home n z f h d"
  defines "e \<equiv> next_place n d"
  assumes fe: "f e \<noteq> 0" and "displaced h e (home (f e))"
  shows "hole_ok home n z (f(h := f e)) e e"
proof -
  note H = hole_okD [OF assms(1)]
  note near = near_homeD [OF H(8)] and gap = no_gapD [OF H(9)] and stay = staysD [OF H(10)]
    and one = one_placeD [OF H(11)] and e = hole_next [OF assms(1), folded e_def]
  have le: "off n z (home (f e)) \<le> off n z h"
    using hole_test [OF assms(1)] assms(3,4) by (simp add: e_def)
  have hz: "h \<noteq> z"
    using H(2,4) by auto
  show "hole_ok home n z (f(h := f e)) e e"
    unfolding hole_ok_def near_home_def no_gap_def stays_def one_place_def
  proof (intro conjI allI impI)
    fix k j
    assume k: "k < n" "j < n" and kj: "k \<noteq> e \<and> (f(h := f e)) k \<noteq> 0 \<and>
      off n z (home ((f(h := f e)) k)) \<le> off n z j \<and> off n z j < off n z k"
    have "f j \<noteq> 0"
    proof (cases "k = h")
      case True
      then show ?thesis
        using kj gap [OF e(2) k(2) e(3) fe] e(1) H(7) by simp
    next
      case False
      then show ?thesis
        using kj gap [OF k] by simp
    qed
    then show "(f(h := f e)) j \<noteq> 0"
      using fe by simp
  next
    fix k
    assume "k < n" "k \<noteq> e \<and> (f(h := f e)) k \<noteq> 0"
    then show "off n z (home ((f(h := f e)) k)) \<le> off n z k"
      using near [of k] le by (auto split: if_splits)
  next
    fix j k
    assume "j < n" "k < n" "j \<noteq> e \<and> k \<noteq> e \<and> (f(h := f e)) j = (f(h := f e)) k \<and> (f(h := f e)) k \<noteq> 0"
    then show "j = k"
      using one [of j k] one [OF e(2), of k] one [OF e(2), of j] e(3) by (auto split: if_splits)
  qed (use H(1,2) e(2) e(3) hz fe in auto)
qed

lemma hole_stays:
  assumes "hole_ok home n z f h d"
  defines "e \<equiv> next_place n d"
  assumes fe: "f e \<noteq> 0" and "\<not> displaced h e (home (f e))"
  shows "hole_ok home n z f h e"
proof -
  note H = hole_okD [OF assms(1)]
  note near = near_homeD [OF H(8)] and gap = no_gapD [OF H(9)] and stay = staysD [OF H(10)]
    and one = one_placeD [OF H(11)] and e = hole_next [OF assms(1), folded e_def]
  have gt: "off n z h < off n z (home (f e))"
    using hole_test [OF assms(1)] assms(3,4) by (simp add: e_def)
  show "hole_ok home n z f h e"
    unfolding hole_ok_def
  proof (intro conjI)
    show "stays home n z f h e"
      unfolding stays_def
    proof (intro allI impI)
      fix j
      assume j: "j < n" "off n z h < off n z j \<and> off n z j \<le> off n z e"
      show "f j \<noteq> 0 \<and> off n z h < off n z (home (f j))"
      proof (cases "j = e")
        case False
        then have "off n z j \<le> off n z d"
          using off_inj [OF H(1) j(1) e(2)] j(2) e(1) by linarith
        then show ?thesis
          using stay j by blast
      qed (use fe gt in simp)
    qed
  qed (use H fe e in auto)
qed

lemma shift_ok:
  "hole_ok home n z f h d \<Longrightarrow> n - off n z d \<le> Suc fuel \<Longrightarrow>
    \<exists>g. shift home n fuel f h d = Some g \<and> clumps_ok home n g \<and> entries_in n g = kept_in n f h"
proof (induction fuel arbitrary: f h d)
  case 0
  then show ?case
    using off_last [OF hole_okD(1,5,6) [OF 0(1)]] by simp
next
  case (Suc fuel)
  note e = hole_next [OF Suc.prems(1)]
  let ?e = "next_place n d"
  have fuel: "n - off n z ?e \<le> Suc fuel"
    using e(1) Suc.prems(2) by simp
  consider "f ?e = 0" | "f ?e \<noteq> 0" "displaced h ?e (home (f ?e))" | "f ?e \<noteq> 0" "\<not> displaced h ?e (home (f ?e))"
    by blast
  then show ?case
  proof cases
    case 1
    then show ?thesis
      using e(3) hole_filled [OF Suc.prems(1) 1] kept_filled hole_okD(3) [OF Suc.prems(1)] by (simp add: Let_def)
  next
    case 2
    then show ?thesis
      using e(3) Suc.IH [OF hole_moved [OF Suc.prems(1) 2] fuel]
        kept_moved [OF hole_okD(3) [OF Suc.prems(1)] e(2,3), of f]
      by (simp add: Let_def del: fun_upd_apply)
  next
    case 3
    then show ?thesis
      using e(3) Suc.IH [OF hole_stays [OF Suc.prems(1) 3] fuel] by (simp add: Let_def)
  qed
qed

text \<open>The three operations on the places.\<close>

lemma room:
  assumes "clumps_ok home n f" and "0 < n" and "\<And>k. k < n \<Longrightarrow> f k < n"
  obtains z where "z < n" "f z = 0"
proof (rule ccontr)
  assume none: "\<not> thesis"
  have "f ` {..<n} \<subseteq> {1..<n}"
    using none that assms(3) by fastforce
  moreover have "inj_on f {..<n}"
    using none that clumps_inj [OF assms(1)] by (intro inj_onI) blast
  ultimately have "card {..<n} \<le> card {1..<n}"
    by (metis card_inj_on_le finite_atLeastLessThan)
  then show False
    using assms(2) by simp
qed

lemma search_first:
  assumes "z < n" and "k < n" and "P k" and "t < n" and "off n z t \<le> off n z k"
  shows "\<exists>q < n. seek n P n t = Some q \<and> P q \<and> off n z t \<le> off n z q \<and> off n z q \<le> off n z k \<and>
    (\<forall>j < n. off n z t \<le> off n z j \<and> off n z j < off n z q \<longrightarrow> \<not> P j)"
  by (rule seek_first [where k = k and P = P, OF assms]) simp

lemma probe_insert:
  assumes "clumps_ok home n f" and "z < n" and "f z = 0" and "i \<notin> entries_in n f" and "i \<noteq> 0"
  shows "\<exists>q < n. seek n (\<lambda>j. f j = 0) n (home i) = Some q \<and> clumps_ok home n (f(q := i)) \<and>
    entries_in n (f(q := i)) = insert i (entries_in n f)"
proof -
  have h: "home i < n"
    using home_less assms(2) by simp
  have "off n z (home i) \<le> off n z z"
    using off_less [OF assms(2)] off_less(1) [OF assms(2) h] by fastforce
  from search_first [of z z "\<lambda>j. f j = 0", OF assms(2,2,3) h this] obtain q where
    q: "q < n" "seek n (\<lambda>j. f j = 0) n (home i) = Some q" "f q = 0" "off n z (home i) \<le> off n z q"
    "\<forall>j < n. off n z (home i) \<le> off n z j \<and> off n z j < off n z q \<longrightarrow> f j \<noteq> 0"
    by blast
  from insert_ok [OF assms q(1,3,4)] q show ?thesis
    by blast
qed

lemma probe_lookup:
  assumes "clumps_ok home n f" and "z < n" and "f z = 0" and "t < n" and "\<And>i. i \<in> entries_in n f \<Longrightarrow> Q i \<Longrightarrow> home i = t"
  shows "\<exists>q < n. seek n (\<lambda>j. f j = 0 \<or> Q (f j)) n t = Some q \<and> (f q = 0 \<longrightarrow> (\<forall>i \<in> entries_in n f. \<not> Q i)) \<and>
    (f q \<noteq> 0 \<longrightarrow> f q \<in> entries_in n f \<and> Q (f q))"
proof -
  have "off n z t \<le> off n z z"
    using off_less [OF assms(2)] off_less(1) [OF assms(2,4)] by fastforce
  from search_first [of z z "\<lambda>j. f j = 0 \<or> Q (f j)", OF assms(2,2) _ assms(4) this] assms(3) obtain q where
    q: "q < n" "seek n (\<lambda>j. f j = 0 \<or> Q (f j)) n t = Some q" "f q = 0 \<or> Q (f q)" "off n z t \<le> off n z q"
    "\<And>j. j < n \<Longrightarrow> off n z t \<le> off n z j \<Longrightarrow> off n z j < off n z q \<Longrightarrow> \<not> (f j = 0 \<or> Q (f j))"
    by blast
  have "\<not> Q i" if "f q = 0" "i \<in> entries_in n f" for i
  proof
    assume i: "Q i"
    from that(2) obtain k where k: "k < n" "f k = i" "f k \<noteq> 0"
      unfolding entries_in_def by blast
    have home: "home (f k) = t"
      using assms(5) that(2) i k(2) by simp
    have "off n z q \<le> off n z k"
      using q(5) [of k] k i clump(1) [OF assms(1-3) k(1,3)] home by fastforce
    then show False
      using clump(2) [OF assms(1-3) k(1,3) q(1)] home q(4) that(1) off_inj [OF assms(2) q(1) k(1)] k(3) by fastforce
  qed
  moreover have "f q \<noteq> 0 \<longrightarrow> f q \<in> entries_in n f"
    using q(1) unfolding entries_in_def by blast
  ultimately show ?thesis
    using q(1-3) by blast
qed

lemma probe_delete:
  assumes "clumps_ok home n f" and "z < n" and "f z = 0" and "i \<in> entries_in n f"
  shows "\<exists>h g. h < n \<and> seek n (\<lambda>j. f j = i) n (home i) = Some h \<and> shift home n n f h h = Some g \<and>
    clumps_ok home n g \<and> entries_in n g = entries_in n f - {i}"
proof -
  obtain k where k: "k < n" "f k = i" "f k \<noteq> 0"
    using assms(4) unfolding entries_in_def by blast
  have home: "home i < n"
    using home_less assms(2) by simp
  note cl = clump [OF assms(1-3) k(1,3)]
  obtain q where q: "q < n" "seek n (\<lambda>j. f j = i) n (home i) = Some q" "f q = i"
    using search_first [of z k "\<lambda>j. f j = i", OF assms(2) k(1,2) home] cl(1) k(2) by auto
  have qk: "q = k"
    using clumps_inj [OF assms(1) q(1) k(1)] q(3) k by simp
  have "near_home home n z f k" "no_gap home n z f k"
    unfolding near_home_def no_gap_def using clump [OF assms(1-3)] by blast+
  moreover have "stays home n z f k k" "one_place n f k"
    unfolding stays_def one_place_def using clumps_inj [OF assms(1)] by force+
  ultimately have "hole_ok home n z f k k"
    unfolding hole_ok_def using assms(2,3) k by auto
  moreover have "n - off n z k \<le> Suc n"
    by simp
  ultimately obtain g where
    g: "shift home n n f k k = Some g" "clumps_ok home n g" "entries_in n g = kept_in n f k"
    using shift_ok by blast
  have "kept_in n f k = entries_in n f - {i}"
  proof (intro equalityI subsetI)
    fix x
    assume "x \<in> kept_in n f k"
    then obtain j where j: "x \<noteq> 0" "j < n" "j \<noteq> k" "f j = x"
      unfolding kept_in_def by blast
    then have "x \<noteq> i"
      using clumps_inj [OF assms(1) j(2) k(1) _ k(3)] k(2) by auto
    then show "x \<in> entries_in n f - {i}"
      using j unfolding entries_in_def by blast
  qed (use k in \<open>auto simp: kept_in_def entries_in_def\<close>)
  then show ?thesis
    using q(2) g k(1) qk by auto
qed

end

end
