(* ===== verification/Ipc_Hash_Props.thy ===== *)
theory Ipc_Hash_Props
  imports Ipc_Hash_Probe
begin

text \<open>
  The reverse hash tables: the locale of linear probing interpreted on the tables of spaces, what lookup,
  insertion and deletion do to the set of entries in a table, the exact lookup in both tables, and the size of
  the global one.
\<close>

section \<open>The local tables\<close>

definition places :: "hash_slot list \<Rightarrow> nat \<Rightarrow> nat" where
  "places table k = hs_index (table ! k)"

definition homes :: "hash_slot list \<Rightarrow> nat \<Rightarrow> nat" where
  "homes table i = IH_LOCAL_HASH (the (hs_object (table ! i))) (length table)"

definition hashed :: "hash_slot list \<Rightarrow> nat set" where
  "hashed table = entries_in (length table) (places table)"

text \<open>What the hash operations leave alone.\<close>

definition unplaced :: "hash_slot list \<Rightarrow> hash_slot list" where
  "unplaced table = map (hs_index_update (\<lambda>_. 0)) table"

definition indices_ok :: "hash_slot list \<Rightarrow> bool" where
  "indices_ok table \<longleftrightarrow> (\<forall>k < length table. places table k < length table \<and>
     (places table k \<noteq> 0 \<longrightarrow> hs_object (table ! places table k) \<noteq> None))"

definition hash_ok :: "hash_slot list \<Rightarrow> bool" where
  "hash_ok table \<longleftrightarrow>
     0 < length table \<and> indices_ok table \<and> clumps_ok (homes table) (length table) (places table)"

interpretation local_hash: probing "homes table" "length table" for table
  by unfold_locales (simp add: homes_def IH_LOCAL_HASH_def)

lemma length_set_index [simp]: "length (set_index h i table) = length table"
  by (simp add: set_index_def)

lemma object_set_index [simp]: "hs_object (set_index h i table ! k) = hs_object (table ! k)"
  by (cases "h < length table"; cases "h = k") (simp_all add: set_index_def list_update_beyond)

lemma homes_set_index [simp]: "homes (set_index h i table) = homes table"
  by (simp add: homes_def fun_eq_iff)

lemma places_set_index [simp]: "h < length table \<Longrightarrow> places (set_index h i table) = (places table)(h := i)"
  by (auto simp: places_def set_index_def fun_eq_iff)

lemma unplaced_set_index [simp]: "unplaced (set_index h i table) = unplaced table"
proof (cases "h < length table")
  case True
  then show ?thesis
    by (simp add: unplaced_def set_index_def map_update list_update_same_conv)
qed (simp add: unplaced_def set_index_def list_update_beyond)

lemma next_less: "p < n \<Longrightarrow> next_place n p < n"
  by (auto simp: next_place_def)

lemma slot_at_less [simp]: "k < length table \<Longrightarrow> slot_at table k = Some (table ! k)"
  by (simp add: slot_at_def)

lemma free_place_seek:
  "p < length table \<Longrightarrow> free_place fuel table p = seek fuel (\<lambda>j. places table j = 0) (length table) p"
  by (induction fuel arbitrary: p) (simp_all add: places_def next_less)

lemma place_of_seek:
  "p < length table \<Longrightarrow> place_of fuel table i p = seek fuel (\<lambda>j. places table j = i) (length table) p"
  by (induction fuel arbitrary: p) (simp_all add: places_def next_less)

text \<open>What the lookup reports of the place it stops at.\<close>

definition report :: "hash_slot list \<Rightarrow> nat \<Rightarrow> (mach_port_name \<times> nat) option" where
  "report table i =
     (if i = 0 then None else Some (MACH_PORT_MAKE (of_nat i) (IE_BITS_GEN (hs_bits (table ! i))), i))"

lemma indices_okD:
  assumes "indices_ok table" and "k < length table"
  shows "places table k < length table"
    and "places table k \<noteq> 0 \<Longrightarrow> \<exists>obj. hs_object (table ! places table k) = Some obj"
  using assms by (auto simp: indices_ok_def)

lemma indices_ok_set_index:
  assumes "indices_ok table" and "h < length table"
    and "i \<noteq> 0 \<Longrightarrow> i < length table \<and> hs_object (table ! i) \<noteq> None" and "0 < length table"
  shows "indices_ok (set_index h i table)"
  unfolding indices_ok_def
proof (intro allI impI)
  fix k
  assume "k < length (set_index h i table)"
  then show "places (set_index h i table) k < length (set_index h i table) \<and>
      (places (set_index h i table) k \<noteq> 0 \<longrightarrow>
       hs_object (set_index h i table ! places (set_index h i table) k) \<noteq> None)"
    using assms(2-4) indices_okD [OF assms(1), of k] by (cases "i = 0"; cases "k = h") auto
qed

lemma local_probe_seek:
  assumes "indices_ok table"
  shows "p < length table \<Longrightarrow> local_probe fuel table obj p =
    map_option (\<lambda>q. report table (places table q))
      (seek fuel (\<lambda>j. places table j = 0 \<or> hs_object (table ! places table j) = Some obj) (length table) p)"
proof (induction fuel arbitrary: p)
  case (Suc fuel)
  then show ?case
    using indices_okD(1) [OF assms Suc.prems]
    by (auto simp: places_def report_def next_less)
qed simp

lemma close_hole_shift:
  assumes "shift (homes table) (length table) fuel (places table) h d = Some g"
    and "indices_ok table" and "h < length table" and "d < length table"
  shows "\<exists>t. close_hole fuel table h d = Some t \<and> places t = g \<and> unplaced t = unplaced table \<and>
    homes t = homes table \<and> length t = length table \<and> indices_ok t"
  using assms
proof (induction fuel arbitrary: table h d)
  case (Suc fuel)
  let ?e = "next_place (length table) d"
  have e: "?e < length table" "?e \<noteq> h"
    using Suc.prems(1,4) next_less by (auto simp: Let_def split: if_splits)
  have upd: "indices_ok (set_index h i table)"
    if "i = 0 \<or> i = places table ?e" for i
    using indices_ok_set_index [OF Suc.prems(2,3), of i] that indices_okD [OF Suc.prems(2) e(1)] Suc.prems(3)
    by fastforce
  consider "places table ?e = 0" | obj where "places table ?e \<noteq> 0" "hs_object (table ! places table ?e) = Some obj"
    using indices_okD(2) [OF Suc.prems(2) e(1)] by blast
  then show ?case
  proof cases
    case 1
    then show ?thesis
      using Suc.prems(1,3) e upd [of 0] 1 [unfolded places_def] by (simp add: Let_def asserting_def split: if_splits)
  next
    case 2
    have home: "homes table (places table ?e) = IH_LOCAL_HASH obj (length table)"
      using 2(2) by (simp add: homes_def)
    have step: "close_hole (Suc fuel) table h d = (if displaced h ?e (IH_LOCAL_HASH obj (length table))
        then close_hole fuel (set_index h (places table ?e) table) ?e ?e else close_hole fuel table h ?e)"
      using 2 e indices_okD(1) [OF Suc.prems(2) e(1)] by (simp add: Let_def asserting_def places_def)
    show ?thesis
    proof (cases "displaced h ?e (IH_LOCAL_HASH obj (length table))")
      case True
      then have "shift (homes table) (length table) fuel (places (set_index h (places table ?e) table)) ?e ?e = Some g"
        using Suc.prems(1,3) 2 e home by (simp add: Let_def split: if_splits)
      with Suc.IH [of "set_index h (places table ?e) table" ?e ?e] show ?thesis
        unfolding step using True e(1) upd [of "places table ?e"] by simp
    next
      case False
      then have "shift (homes table) (length table) fuel (places table) h ?e = Some g"
        using Suc.prems(1) 2 e home by (simp add: Let_def split: if_splits)
      with Suc.IH [OF this Suc.prems(2,3) e(1)] show ?thesis
        unfolding step using False by simp
    qed
  qed
qed simp

lemma hash_okD:
  assumes "hash_ok table"
  shows "0 < length table" and "indices_ok table" and "clumps_ok (homes table) (length table) (places table)"
  using assms by (simp_all add: hash_ok_def)

lemma hash_room:
  assumes "hash_ok table"
  obtains z where "z < length table" "places table z = 0"
  by (rule local_hash.room [OF hash_okD(3,1) [OF assms] indices_okD(1) [OF hash_okD(2) [OF assms]]])

lemma IH_LOCAL_HASH_less: "0 < n \<Longrightarrow> IH_LOCAL_HASH obj n < n"
  by (simp add: IH_LOCAL_HASH_def)

lemma hashed_iff: "i \<in> hashed table \<longleftrightarrow> i \<noteq> 0 \<and> (\<exists>k < length table. places table k = i)"
  by (simp add: hashed_def entries_in_def)

lemma hashed_object:
  assumes "hash_ok table" and "i \<in> hashed table"
  shows "0 < i" and "i < length table" and "\<exists>obj. hs_object (table ! i) = Some obj"
proof -
  obtain k where k: "i \<noteq> 0" "k < length table" "places table k = i"
    using assms(2) hashed_iff by blast
  show "0 < i" "i < length table" "\<exists>obj. hs_object (table ! i) = Some obj"
    using k indices_okD [OF hash_okD(2) [OF assms(1)] k(2)] by auto
qed

lemma local_lookup_exact:
  assumes "hash_ok table"
  shows "\<exists>i. ipc_hash_local_lookup table obj = Some (report table i) \<and>
    (if i = 0 then \<forall>j \<in> hashed table. hs_object (table ! j) \<noteq> Some obj
     else i \<in> hashed table \<and> hs_object (table ! i) = Some obj)"
proof -
  note H = hash_okD [OF assms]
  obtain z where z: "z < length table" "places table z = 0"
    by (rule hash_room [OF assms])
  have home: "IH_LOCAL_HASH obj (length table) < length table"
    by (rule IH_LOCAL_HASH_less [OF H(1)])
  have "\<exists>q < length table. seek (length table)
      (\<lambda>j. places table j = 0 \<or> hs_object (table ! places table j) = Some obj) (length table)
      (IH_LOCAL_HASH obj (length table)) = Some q \<and>
    (places table q = 0 \<longrightarrow> (\<forall>i \<in> hashed table. \<not> hs_object (table ! i) = Some obj)) \<and>
    (places table q \<noteq> 0 \<longrightarrow> places table q \<in> hashed table \<and> hs_object (table ! places table q) = Some obj)"
    unfolding hashed_def
    by (rule local_hash.probe_lookup [where Q = "\<lambda>i. hs_object (table ! i) = Some obj", OF H(3) z home])
      (simp add: homes_def)
  then obtain q where "seek (length table)
      (\<lambda>j. places table j = 0 \<or> hs_object (table ! places table j) = Some obj) (length table)
      (IH_LOCAL_HASH obj (length table)) = Some q"
    "places table q = 0 \<longrightarrow> (\<forall>i \<in> hashed table. \<not> hs_object (table ! i) = Some obj)"
    "places table q \<noteq> 0 \<longrightarrow> places table q \<in> hashed table \<and> hs_object (table ! places table q) = Some obj"
    by (elim exE conjE)
  then show ?thesis
    unfolding ipc_hash_local_lookup_def local_probe_seek [OF H(2) home]
    by (intro exI [of _ "places table q"]) simp
qed

text \<open>A table with three objects of which the first two have their home in the last place: the second is
  displaced around the end and displaces the third.  The fourth element is not in the hash table.\<close>

definition hash_sample :: "hash_slot list" where
  "hash_sample =
     [\<lparr>hs_object = None, hs_bits = 0, hs_index = 2\<rparr>,
      \<lparr>hs_object = Some 256, hs_bits = 0x4000000, hs_index = 3\<rparr>,
      \<lparr>hs_object = Some 576, hs_bits = 0x4000000, hs_index = 0\<rparr>,
      \<lparr>hs_object = Some 320, hs_bits = 0, hs_index = 0\<rparr>,
      \<lparr>hs_object = Some 64, hs_bits = 0, hs_index = 1\<rparr>]"

lemma indices_ok_code: "indices_ok table \<longleftrightarrow> (\<forall>k \<in> set [0..<length table]. places table k < length table \<and>
     (places table k \<noteq> 0 \<longrightarrow> hs_object (table ! places table k) \<noteq> None))"
  by (auto simp: indices_ok_def)

lemma clumps_ok_code: "clumps_ok home n f \<longleftrightarrow>
     (\<forall>k \<in> set [0..<n]. f k \<noteq> 0 \<longrightarrow> (\<forall>j \<in> set [0..<n]. between (home (f k)) j k \<longrightarrow> f j \<noteq> 0)) \<and>
     (\<forall>j \<in> set [0..<n]. \<forall>k \<in> set [0..<n]. f j = f k \<and> f k \<noteq> 0 \<longrightarrow> j = k)"
  by (simp only: clumps_ok_def set_upt atLeast0LessThan Ball_def lessThan_iff)

lemma hash_sample_slots:
  "length hash_sample = 5" "hash_sample ! 4 = \<lparr>hs_object = Some 64, hs_bits = 0, hs_index = 1\<rparr>"
  "hash_sample ! 2 = \<lparr>hs_object = Some 576, hs_bits = 0x4000000, hs_index = 0\<rparr>"
  "hash_sample ! 3 = \<lparr>hs_object = Some 320, hs_bits = 0, hs_index = 0\<rparr>"
  "hash_sample ! Suc 0 = \<lparr>hs_object = Some 256, hs_bits = 0x4000000, hs_index = 3\<rparr>"
  by (simp_all add: hash_sample_def)

lemma hash_sample_places:
  "places hash_sample 0 = 2" "places hash_sample (Suc 0) = 3" "places hash_sample 2 = 0" "places hash_sample 3 = 0"
  "places hash_sample 4 = 1"
  by (simp_all add: places_def hash_sample_def)

lemma hash_sample_homes: "homes hash_sample (Suc 0) = 4" "homes hash_sample 2 = 4" "homes hash_sample 3 = 0"
  by (simp_all add: homes_def hash_sample_slots IH_LOCAL_HASH_def)

lemma upt_5: "[0..<5] = [0, Suc 0, 2, 3, 4]"
  by (simp add: upt_rec)

lemma hash_sample_ok: "hash_ok hash_sample"
  unfolding hash_ok_def indices_ok_code clumps_ok_code hash_sample_slots(1) upt_5
  by (simp add: hash_sample_places hash_sample_homes hash_sample_slots between_def)

lemma hash_sample_hashed: "hashed hash_sample = {1, 2, 3}"
proof -
  have "hashed hash_sample = set (filter (\<lambda>i. i \<noteq> 0) (map (places hash_sample) [0..<length hash_sample]))"
    by (auto simp: hashed_iff)
  also have "... = set [2, 3, 1]"
    by (simp add: hash_sample_slots(1) upt_5 hash_sample_places)
  finally show ?thesis
    by auto
qed

text \<open>ipc_hash_local_insert adds the entry to the hash table of a space and ends\<close>

theorem local_insert_adds:
  assumes "hash_ok table" and "0 < index" and "index < length table" and "hs_object (table ! index) = Some obj"
    and "index \<notin> hashed table"
  shows "\<exists>t. local_insert table obj index = Some t \<and> hash_ok t \<and> hashed t = insert index (hashed table) \<and>
    unplaced t = unplaced table"
proof -
  note H = hash_okD [OF assms(1)]
  obtain z where z: "z < length table" "places table z = 0"
    by (rule hash_room [OF assms(1)])
  have home: "homes table index = IH_LOCAL_HASH obj (length table)"
    using assms(4) by (simp add: homes_def)
  obtain q where q: "q < length table"
    "free_place (length table) table (IH_LOCAL_HASH obj (length table)) = Some q"
    "clumps_ok (homes table) (length table) ((places table)(q := index))"
    "entries_in (length table) ((places table)(q := index)) = insert index (hashed table)"
    using local_hash.probe_insert [OF H(3) z, of index] assms(2,5)
    unfolding home free_place_seek [OF IH_LOCAL_HASH_less [OF H(1)]] hashed_def by blast
  have "local_insert table obj index = Some (set_index q index table)"
    using assms(2-4) q(2) by (simp add: local_insert_def asserting_def)
  moreover have "hash_ok (set_index q index table)"
    using q(1,3) H indices_ok_set_index [OF H(2) q(1), of index] assms(3,4) by (simp add: hash_ok_def)
  ultimately show ?thesis
    using q(1,4) by (simp add: hashed_def)
qed

lemma local_insert_adds_witness:
  "\<exists>t. local_insert hash_sample 64 4 = Some t \<and> hash_ok t \<and> hashed t = {1, 2, 3, 4} \<and> unplaced t = unplaced hash_sample"
proof -
  have "\<exists>t. local_insert hash_sample 64 4 = Some t \<and> hash_ok t \<and> hashed t = insert 4 (hashed hash_sample) \<and>
      unplaced t = unplaced hash_sample"
    by (rule local_insert_adds [OF hash_sample_ok]) (simp_all add: hash_sample_slots hash_sample_hashed)
  moreover have "insert 4 (hashed hash_sample) = {1, 2, 3, 4}"
    by (auto simp: hash_sample_hashed)
  ultimately show ?thesis
    by simp
qed

text \<open>C28. ipc_hash_local_delete takes the entry out of the hash table and ends\<close>

theorem local_delete_removes:
  assumes "hash_ok table" and "index \<in> hashed table" and "hs_object (table ! index) = Some obj"
  shows "\<exists>t. local_delete table obj index = Some t \<and> hash_ok t \<and> hashed t = hashed table - {index} \<and>
    unplaced t = unplaced table"
proof -
  note H = hash_okD [OF assms(1)] and index = hashed_object [OF assms(1,2)]
  obtain z where z: "z < length table" "places table z = 0"
    by (rule hash_room [OF assms(1)])
  have home: "homes table index = IH_LOCAL_HASH obj (length table)"
    using assms(3) by (simp add: homes_def)
  obtain h g where h: "h < length table"
    "place_of (length table) table index (IH_LOCAL_HASH obj (length table)) = Some h"
    "shift (homes table) (length table) (length table) (places table) h h = Some g"
    "clumps_ok (homes table) (length table) g" "entries_in (length table) g = hashed table - {index}"
    using local_hash.probe_delete [OF H(3) z, of index] assms(2)
    unfolding home place_of_seek [OF IH_LOCAL_HASH_less [OF H(1)]] hashed_def by blast
  obtain t where t: "close_hole (length table) table h h = Some t" "places t = g" "unplaced t = unplaced table"
    "homes t = homes table" "length t = length table" "indices_ok t"
    using close_hole_shift [OF h(3) H(2) h(1,1)] by blast
  have "local_delete table obj index = Some t"
    using index(1,2) assms(3) h(2) t(1) by (simp add: local_delete_def asserting_def)
  moreover have "t \<noteq> []"
    using t(5) H(1) by auto
  ultimately show ?thesis
    using t h(4,5) by (simp add: hash_ok_def hashed_def)
qed

lemma local_delete_removes_witness:
  "\<exists>t. local_delete hash_sample 256 1 = Some t \<and> hash_ok t \<and> hashed t = {2, 3} \<and> unplaced t = unplaced hash_sample"
proof -
  have "\<exists>t. local_delete hash_sample 256 1 = Some t \<and> hash_ok t \<and> hashed t = hashed hash_sample - {1} \<and>
      unplaced t = unplaced hash_sample"
    by (rule local_delete_removes [OF hash_sample_ok]) (simp_all add: hash_sample_slots hash_sample_hashed)
  moreover have "hashed hash_sample - {1} = {2, 3}"
    by (auto simp: hash_sample_hashed)
  ultimately show ?thesis
    by simp
qed

text \<open>A new table has nothing in it.\<close>

lemma hash_ok_new:
  assumes "table \<noteq> []" and "\<And>s. s \<in> set table \<Longrightarrow> hs_index s = 0"
  shows "hash_ok table" and "hashed table = {}"
proof -
  have "places table k = 0" if "k < length table" for k
    using assms(2) that by (simp add: places_def)
  then show "hash_ok table" "hashed table = {}"
    using assms(1) by (auto simp: hash_ok_def indices_ok_def clumps_ok_def hashed_iff)
qed

section \<open>The global table\<close>

definition global_entries :: "global_hash \<Rightarrow> hash_entry set" where
  "global_entries g = (\<Union>b. set (gh_buckets g b))"

definition global_ok :: "global_hash \<Rightarrow> bool" where
  "global_ok g \<longleftrightarrow> (\<forall>b. \<forall>e \<in> set (gh_buckets g b). IH_GLOBAL_HASH g (he_space e) (he_object e) = b)"

text \<open>Taking the first match to the front changes no chain's entries.\<close>

lemma set_front:
  assumes "filter P xs = x # ys"
  shows "set (x # takeWhile (\<lambda>y. \<not> P y) xs @ drop 1 (dropWhile (\<lambda>y. \<not> P y) xs)) = set xs"
  using assms by (induction xs) (auto split: if_splits)

lemma bucket_mask [simp]: "gh_mask (set_bucket b es g) = gh_mask g"
  by (simp add: set_bucket_def)

lemma IH_GLOBAL_HASH_set_bucket [simp]: "IH_GLOBAL_HASH (set_bucket b es g) = IH_GLOBAL_HASH g"
  by (simp add: IH_GLOBAL_HASH_def fun_eq_iff)

lemma global_lookup_exact:
  assumes "global_ok g"
  shows "\<exists>g' r. ipc_hash_global_lookup space obj g = (g', r) \<and> global_ok g' \<and> global_entries g' = global_entries g \<and>
    (case r of
       None \<Rightarrow> \<forall>e \<in> global_entries g. \<not> (he_space e = space \<and> he_object e = obj)
     | Some (name, addr) \<Rightarrow> \<exists>e \<in> global_entries g. he_space e = space \<and> he_object e = obj \<and>
         he_name e = name \<and> he_addr e = addr)"
proof -
  let ?b = "IH_GLOBAL_HASH g space obj"
  let ?is = "\<lambda>e. he_object e = obj \<and> he_space e = space"
  show ?thesis
  proof (cases "filter ?is (gh_buckets g ?b)")
    case Nil
    have "e \<in> set (gh_buckets g ?b)" if "e \<in> global_entries g" "?is e" for e
      using that assms by (auto simp: global_entries_def global_ok_def)
    then have "\<forall>e \<in> global_entries g. \<not> ?is e"
      using Nil by (auto simp: filter_empty_conv)
    then show ?thesis
      using Nil assms by (auto simp: ipc_hash_global_lookup_def Let_def)
  next
    case (Cons e es)
    let ?new = "e # takeWhile (\<lambda>e. \<not> ?is e) (gh_buckets g ?b) @ drop 1 (dropWhile (\<lambda>e. \<not> ?is e) (gh_buckets g ?b))"
    have same: "set ?new = set (gh_buckets g ?b)"
      by (rule set_front [OF Cons])
    have "set (gh_buckets (set_bucket ?b ?new g) b) = set (gh_buckets g b)" for b
      using same by (simp add: set_bucket_def del: set_append)
    then have "global_ok (set_bucket ?b ?new g)" "global_entries (set_bucket ?b ?new g) = global_entries g"
      using assms unfolding global_ok_def global_entries_def IH_GLOBAL_HASH_set_bucket by blast+
    moreover have "e \<in> set (filter ?is (gh_buckets g ?b))"
      unfolding Cons by simp
    then have "e \<in> global_entries g" "?is e"
      by (auto simp: global_entries_def)
    ultimately show ?thesis
      using Cons by (auto simp: ipc_hash_global_lookup_def Let_def)
  qed
qed

text \<open>C27. ipc_hash_lookup finds the entry of an object in either table exactly if there is one\<close>

theorem ipc_hash_lookup_exact:
  assumes "hash_ok table" and "global_ok g" and "fast \<Longrightarrow> tree_hash = 0"
    and "tree_hash = 0 \<Longrightarrow> \<forall>e \<in> global_entries g. he_space e \<noteq> space"
  shows "\<exists>g' r. ipc_hash_lookup table fast tree_hash space obj g = Some (g', r) \<and>
    global_ok g' \<and> global_entries g' = global_entries g \<and>
    (case r of
       None \<Rightarrow> (\<forall>i \<in> hashed table. hs_object (table ! i) \<noteq> Some obj) \<and>
         (\<forall>e \<in> global_entries g. \<not> (he_space e = space \<and> he_object e = obj))
     | Some (name, i) \<Rightarrow>
         i \<in> hashed table \<and> hs_object (table ! i) = Some obj \<and>
           name = MACH_PORT_MAKE (of_nat i) (IE_BITS_GEN (hs_bits (table ! i))) \<or>
         (\<exists>e \<in> global_entries g. he_space e = space \<and> he_object e = obj \<and> he_name e = name \<and> he_addr e = i))"
proof -
  obtain i where i: "ipc_hash_local_lookup table obj = Some (report table i)"
    "if i = 0 then \<forall>j \<in> hashed table. hs_object (table ! j) \<noteq> Some obj
     else i \<in> hashed table \<and> hs_object (table ! i) = Some obj"
    using local_lookup_exact [OF assms(1)] by blast
  consider "i \<noteq> 0" | "i = 0" "tree_hash = 0" | "i = 0" "0 < tree_hash"
    by blast
  then show ?thesis
  proof cases
    case 1
    then show ?thesis
      using i assms(2) by (simp add: ipc_hash_lookup_def report_def)
  next
    case 2
    then show ?thesis
      using i assms(2,4) by (simp add: ipc_hash_lookup_def report_def asserting_def)
  next
    case 3
    obtain g' r where g: "ipc_hash_global_lookup space obj g = (g', r)" "global_ok g'" "global_entries g' = global_entries g"
      "case r of None \<Rightarrow> \<forall>e \<in> global_entries g. \<not> (he_space e = space \<and> he_object e = obj)
       | Some (name, addr) \<Rightarrow> \<exists>e \<in> global_entries g. he_space e = space \<and> he_object e = obj \<and>
         he_name e = name \<and> he_addr e = addr"
      using global_lookup_exact [OF assms(2)] by blast
    have "\<not> fast"
      using 3(2) assms(3) by auto
    then have "ipc_hash_lookup table fast tree_hash space obj g = Some (g', r)"
      using 3 i(1) g(1) by (simp add: ipc_hash_lookup_def report_def asserting_def)
    then show ?thesis
      using g(2-4) i(2) 3(1) by (auto split: option.splits)
  qed
qed

text \<open>An object in the tree of the space: the local probe fails and the chain of the global table has it second.\<close>

definition global_sample :: global_hash where
  "global_sample = \<lparr>gh_mask = 7, gh_buckets = (\<lambda>b. if b = 3 then
     [\<lparr>he_addr = 9100, he_name = 0x601, he_space = 32, he_object = 64\<rparr>,
      \<lparr>he_addr = 9000, he_name = 0x500, he_space = 16, he_object = 640\<rparr>] else [])\<rparr>"

lemma global_sample_ok: "global_ok global_sample"
proof -
  have "IH_GLOBAL_HASH global_sample 16 640 = 3" "IH_GLOBAL_HASH global_sample 32 64 = 3"
    by code_simp+
  then show ?thesis
    by (simp add: global_ok_def global_sample_def)
qed

lemma global_sample_entries: "global_entries global_sample =
    {\<lparr>he_addr = 9000, he_name = 0x500, he_space = 16, he_object = 640\<rparr>,
     \<lparr>he_addr = 9100, he_name = 0x601, he_space = 32, he_object = 64\<rparr>}"
  by (auto simp: global_entries_def global_sample_def split: if_splits)

lemma ipc_hash_lookup_exact_witness:
  "\<exists>g'. ipc_hash_lookup hash_sample False 1 16 640 global_sample = Some (g', Some (0x500, 9000)) \<and>
    global_ok g' \<and> global_entries g' = global_entries global_sample"
proof -
  obtain g' r where g: "ipc_hash_lookup hash_sample False 1 16 640 global_sample = Some (g', r)" "global_ok g'"
    "global_entries g' = global_entries global_sample"
    and r: "case r of
       None \<Rightarrow> (\<forall>i \<in> hashed hash_sample. hs_object (hash_sample ! i) \<noteq> Some 640) \<and>
         (\<forall>e \<in> global_entries global_sample. \<not> (he_space e = 16 \<and> he_object e = 640))
     | Some (name, i) \<Rightarrow>
         i \<in> hashed hash_sample \<and> hs_object (hash_sample ! i) = Some 640 \<and>
           name = MACH_PORT_MAKE (of_nat i) (IE_BITS_GEN (hs_bits (hash_sample ! i))) \<or>
         (\<exists>e \<in> global_entries global_sample. he_space e = 16 \<and> he_object e = 640 \<and> he_name e = name \<and> he_addr e = i)"
    using ipc_hash_lookup_exact [OF hash_sample_ok global_sample_ok, of False 1 16 640] by auto
  have "r = Some (0x500, 9000)"
    using r by (auto simp: global_sample_entries hash_sample_hashed hash_sample_slots split: option.splits)
  then show ?thesis
    using g by blast
qed

section \<open>The size of the global table\<close>

lemma nat_and_Suc:
  "(x::nat) AND (x + 1) = 0 \<Longrightarrow> \<exists>k. x + 1 = 2 ^ k"
proof (induction x rule: less_induct)
  case (less x)
  show ?case
  proof (cases "even x")
    case True
    then obtain y where y: "x = 2 * y"
      by blast
    have "x AND (x + 1) = x"
      unfolding y by (simp add: and_rec [of "2 * y"])
    then show ?thesis
      using less.prems by (intro exI [of _ 0]) simp
  next
    case False
    then obtain y where y: "x = 2 * y + 1"
      by (rule oddE)
    have "x AND (x + 1) = 2 * (y AND (y + 1))"
      unfolding y by (simp add: and_rec [of "2 * y + 1"] and_rec [of "Suc (2 * y)"])
    then have "y AND (y + 1) = 0"
      using less.prems by simp
    then obtain k where "y + 1 = 2 ^ k"
      using less.IH [of y] y by auto
    then have "x + 1 = 2 ^ (k + 1)"
      unfolding y by simp
    then show ?thesis
      by blast
  qed
qed

lemma unat_mask: "m \<le> 32 \<Longrightarrow> unat (mask m :: u32) = 2 ^ m - 1"
  unfolding mask_eq_exp_minus_1 [symmetric, where 'a = nat]
  by (rule bit_eqI) (auto simp: bit_unsigned_iff bit_mask_iff)

lemma round_up_power:
  fixes w :: u32
  assumes "m < 32"
  shows "j < m \<Longrightarrow> m - j \<le> fuel \<Longrightarrow> take_bit m w = w \<Longrightarrow> bit w (m - 1) \<Longrightarrow> (\<And>i. i < j \<Longrightarrow> bit w i) \<Longrightarrow>
    round_up fuel (push_bit j 1) w = Some (mask m)"
proof (induction fuel arbitrary: j w)
  case (Suc fuel)
  let ?w = "w OR push_bit j 1"
  have low: "bit ?w i" if "i < j + 1" for i
    using that Suc.prems(1,5) assms by (cases "i = j") (simp_all add: bit_simps)
  have in_m: "take_bit m ?w = ?w"
  proof -
    have "take_bit m (push_bit j (1 :: u32)) = push_bit j 1"
      using Suc.prems(1) by (intro bit_eqI) (auto simp: bit_simps)
    then show ?thesis
      using Suc.prems(3) by (simp add: take_bit_or)
  qed
  have top: "bit ?w (m - 1)"
    using Suc.prems(4) by (simp add: bit_simps)
  have small: "unat ?w < 2 ^ m"
    using in_m by (metis unsigned_take_bit_eq take_bit_nat_less_exp)
  have big: "\<not> unat ?w < 2 ^ (m - 1)"
  proof
    assume "unat ?w < 2 ^ (m - 1)"
    then have "\<not> bit (unat ?w) (m - 1)"
      by (metis bit_take_bit_iff less_irrefl take_bit_nat_eq_self)
    then show False
      using top assms by (simp add: bit_unsigned_iff)
  qed
  show ?case
  proof (cases "(?w + 1) AND ?w = 0")
    case True
    have up: "unat (?w + 1) = unat ?w + 1"
    proof -
      have "(2::nat) ^ m \<le> 2 ^ 31"
        using assms by (intro power_increasing) simp_all
      then have "unat ?w + 1 < 2 ^ LENGTH(32)"
        using small by simp
      then show ?thesis
        by (simp add: unat_word_ariths)
    qed
    have "unat ?w AND (unat ?w + 1) = 0"
      using arg_cong [OF True, of unat] by (simp only: unsigned_and_eq up and.commute) simp
    then obtain k where k: "unat ?w + 1 = 2 ^ k"
      using nat_and_Suc by blast
    have "(2::nat) ^ (m - 1) < 2 ^ k" "(2::nat) ^ k \<le> 2 ^ m"
      using small big k by linarith+
    then have "k = m"
      by (simp add: power_strict_increasing_iff)
    then have "unat ?w = unat (mask m :: u32)"
      using k assms unat_mask [of m] by simp
    then have "?w = mask m"
      by (simp only: word_unat_eq_iff)
    then show ?thesis
      using True by (simp add: Let_def)
  next
    case False
    have "j + 1 \<noteq> m"
    proof
      assume m: "j + 1 = m"
      have full: "?w = mask m"
      proof (rule bit_word_eqI)
        fix i
        assume "i < LENGTH(32)"
        then have "bit (mask m :: u32) i \<longleftrightarrow> i < j + 1"
          using m by (simp add: bit_mask_iff)
        moreover have "bit ?w i \<longrightarrow> i < j + 1"
          using arg_cong [OF in_m, of "\<lambda>x. bit x i"] unfolding bit_take_bit_iff m by blast
        ultimately show "bit ?w i = bit (mask m :: u32) i"
          using low by blast
      qed
      have "(mask m + 1) AND mask m = (0 :: u32)"
        by (simp add: take_bit_eq_0_iff mask_eq_exp_minus_1 take_bit_eq_mask [symmetric, unfolded mask_eq_exp_minus_1])
      then show False
        using False unfolding full by blast
    qed
    then have "j + 1 < m"
      using Suc.prems(1) by simp
    then show ?thesis
      using False Suc.IH [of "j + 1" ?w, OF _ _ in_m top low] Suc.prems(2) by (simp add: Let_def mult.commute)
  qed
qed simp

lemma top_bit:
  assumes "0 < (x::nat)"
  obtains m where "2 ^ m \<le> x" "x < 2 ^ (m + 1)" "bit x m"
proof -
  obtain m where m: "2 ^ m \<le> x" "x < 2 ^ (m + 1)"
    using ex_power_ivl1 [of 2 x] assms by auto
  then have "x div 2 ^ m = 1"
    by (simp add: div_nat_eqI)
  then show ?thesis
    using that m by (simp add: bit_iff_odd)
qed

lemma init_mask:
  assumes "configured \<le> 0x80000000"
  shows "\<exists>g k. ipc_hash_init configured tree_max = Some g \<and> gh_mask g = 2 ^ k - 1 \<and>
    unat (hash_size configured tree_max) \<le> 2 ^ k \<and> 2 ^ k < 2 * unat (hash_size configured tree_max)"
proof -
  define size where "size = hash_size configured tree_max"
  define n where "n = unat size"
  have "unat tree_max < 2 ^ 32"
    by (rule order_less_le_trans [OF unsigned_less]) simp
  then have "unat (drop_bit 8 tree_max) < 2 ^ 24"
    by (simp only: unat_drop_bit_eq) (simp add: drop_bit_eq_div)
  then have "drop_bit 8 tree_max \<le> 0x80000000"
    by (simp add: word_le_nat_alt)
  then have "0 < size" "size \<le> 0x80000000"
    using assms by (auto simp: size_def hash_size_def Let_def word_gt_0 not_less intro: order_trans)
  then have n: "0 < n" "n \<le> 2 ^ 31"
    by (simp_all add: n_def word_le_nat_alt word_less_nat_alt)
  have w: "unat (size - 1) = n - 1"
    using n(1) by (simp add: n_def unat_sub word_le_nat_alt)
  show ?thesis
  proof (cases "size AND (size - 1) = 0")
    case True
    have "(n - 1) AND (n - 1 + 1) = 0"
      using arg_cong [OF True, of unat] n(1) unfolding unsigned_and_eq w by (simp add: n_def and.commute)
    then obtain k where "n - 1 + 1 = 2 ^ k"
      using nat_and_Suc by blast
    then have "n = 2 ^ k"
      using n(1) by simp
    then show ?thesis
      using True w n(1) unfolding ipc_hash_init_def size_def [symmetric] n_def [symmetric]
      by (intro exI [of _ "\<lparr>gh_mask = 2 ^ k - 1, gh_buckets = \<lambda>_. []\<rparr>"] exI [of _ k]) (simp add: Let_def)
  next
    case False
    then have "size - 1 \<noteq> 0"
      by auto
    then have "0 < n - 1"
      by (metis gr0I unsigned_eq_0_iff w)
    then obtain m where m: "2 ^ m \<le> n - 1" "n - 1 < 2 ^ (m + 1)" "bit (n - 1) m"
      by (rule top_bit)
    have "(2::nat) ^ m < 2 ^ 31"
      using m(1) n by linarith
    then have m31: "m < 31"
      by (rule power_less_imp_less_exp [rotated]) simp
    have "round_up 32 (push_bit 0 1) (size - 1) = Some (mask (m + 1))"
    proof (rule round_up_power)
      show "take_bit (m + 1) (size - 1) = size - 1"
        using take_bit_nat_eq_self [OF m(2)] by (simp only: word_unat_eq_iff unsigned_take_bit_eq w)
      show "bit (size - 1) (m + 1 - 1)"
        using m(3) m31 unfolding w [symmetric] bit_unsigned_iff by simp
    qed (use m31 in simp_all)
    moreover have "unat (mask (m + 1) :: u32) = 2 ^ (m + 1) - 1"
      using m31 by (simp add: unat_mask)
    moreover have "n \<le> 2 ^ (m + 1)" "2 ^ (m + 1) < 2 * n"
      using m(1,2) n(1) by simp_all
    ultimately show ?thesis
      using False unfolding ipc_hash_init_def size_def [symmetric] n_def [symmetric]
      by (intro exI [of _ "\<lparr>gh_mask = 2 ^ (m + 1) - 1, gh_buckets = \<lambda>_. []\<rparr>"] exI [of _ "m + 1"]) (simp add: Let_def)
  qed
qed
lemma mask_bucket: "gh_mask g = 2 ^ k - 1 \<Longrightarrow> IH_GLOBAL_HASH g space obj < 2 ^ k"
  unfolding IH_GLOBAL_HASH_def by (simp only: take_bit_eq_mask [symmetric] mask_eq_exp_minus_1 [symmetric] take_bit_nat_less_exp)

text \<open>ipc_hash_init makes the size the next power of two, so that every bucket number is inside the table;
  up to \<open>2 ^ 31\<close>, beyond which the size would wrap to zero\<close>

theorem ipc_hash_init_power:
  assumes "configured \<le> 0x80000000"
  shows "\<exists>g k. ipc_hash_init configured tree_max = Some g \<and> global_ok g \<and> global_entries g = {} \<and>
    gh_mask g = 2 ^ k - 1 \<and> unat (hash_size configured tree_max) \<le> 2 ^ k \<and>
    2 ^ k < 2 * unat (hash_size configured tree_max) \<and> (\<forall>space obj. IH_GLOBAL_HASH g space obj < 2 ^ k)"
proof -
  obtain g k where g: "ipc_hash_init configured tree_max = Some g" "gh_mask g = 2 ^ k - 1"
    "unat (hash_size configured tree_max) \<le> 2 ^ k" "2 ^ k < 2 * unat (hash_size configured tree_max)"
    using init_mask [OF assms] by blast
  have "gh_buckets g = (\<lambda>_. [])"
    using g(1) by (auto simp: ipc_hash_init_def Let_def bind_eq_Some_conv)
  then have "global_ok g" "global_entries g = {}"
    by (simp_all add: global_ok_def global_entries_def)
  then show ?thesis
    using g mask_bucket [OF g(2)] by blast
qed

lemma round_up_numeral:
  "round_up (numeral i) b w = (let w' = w OR b in if (w' + 1) AND w' = 0 then Some w'
     else round_up (pred_numeral i) (push_bit 1 b) w')"
  by (simp only: numeral_eq_Suc round_up.simps)

lemma ipc_hash_init_power_witness:
  "(\<exists>g k. ipc_hash_init 33 0 = Some g \<and> global_ok g \<and> global_entries g = {} \<and> gh_mask g = 2 ^ k - 1 \<and>
     unat (hash_size 33 0) \<le> 2 ^ k \<and> 2 ^ k < 2 * unat (hash_size 33 0) \<and>
     (\<forall>space obj. IH_GLOBAL_HASH g space obj < 2 ^ k)) \<and>
   map_option gh_mask (ipc_hash_init 33 0) = Some 63 \<and> map_option gh_mask (ipc_hash_init 0x80000001 0) = Some 0xffffffff"
proof -
  have "map_option gh_mask (ipc_hash_init 33 0) = Some 63"
    "map_option gh_mask (ipc_hash_init 0x80000001 0) = Some 0xffffffff"
    by (simp_all add: ipc_hash_init_def hash_size_def Let_def round_up_numeral)
  then show ?thesis
    using ipc_hash_init_power [of 33 0] by simp
qed

end
