(* ===== verification/Fd_Table.thy ===== *)
theory Fd_Table
  imports Kernel_Prelude "HOL-Library.Monad_Syntax"
begin

text \<open>
  The file descriptors of a process and the open files of the system, bsd/kern/kern_descrip.c with sys/filedesc.h
  and sys/file.h.  \<open>None\<close> is a panic or an access outside an array.  Where the code allocates memory or closes a
  file it may sleep, and other threads of the process may use the table: an argument \<open>sleep\<close> gives the state
  after such a period.
\<close>

section \<open>Files and tables\<close>

datatype dtype = DTYPE_NONE | DTYPE_VNODE | DTYPE_SOCKET | DTYPE_PSXSHM | DTYPE_PSXSEM

text \<open>\<open>f_count\<close> is a \<open>short\<close>; \<open>f_ops\<close> says whether the pointer is set.\<close>

record open_file =
  f_flag :: u16
  f_type :: dtype
  f_count :: int
  f_ops :: bool

abbreviation UF_EXCLOSE :: u8 where "UF_EXCLOSE \<equiv> 1"
abbreviation UF_MAPPED :: u8 where "UF_MAPPED \<equiv> 2"
abbreviation UF_RESERVED :: u8 where "UF_RESERVED \<equiv> 4"

abbreviation FREAD :: u16 where "FREAD \<equiv> 1"
abbreviation FWRITE :: u16 where "FWRITE \<equiv> 2"
abbreviation FNONBLOCK :: u16 where "FNONBLOCK \<equiv> 0x0004"
abbreviation FMASK :: u16 where "FMASK \<equiv> 0x00cf"
abbreviation FHASLOCK :: u16 where "FHASLOCK \<equiv> 0x4000"

text \<open>\<open>FAPPEND\<close>, \<open>FASYNC\<close>, \<open>FFSYNC\<close> and \<open>FNONBLOCK\<close>; with \<open>FREAD\<close> and \<open>FWRITE\<close> they are \<open>FMASK\<close>.\<close>

abbreviation FCNTLFLAGS :: u16 where "FCNTLFLAGS \<equiv> 0x00cc"

definition FFLAGS :: "u32 \<Rightarrow> u32" where "FFLAGS oflags = oflags + 1"
definition OFLAGS :: "u32 \<Rightarrow> u32" where "OFLAGS fflags = fflags - 1"

text \<open>The addresses of files and vnodes are numbers.  Both arrays have \<open>fd_nfiles\<close> elements; \<open>fd_lastfile\<close> and
  \<open>fd_freefile\<close> are \<open>u_short\<close>.\<close>

record filedesc =
  fd_ofiles :: "nat option list"
  fd_ofileflags :: "u8 list"
  fd_cdir :: nat
  fd_rdir :: "nat option"
  fd_lastfile :: nat
  fd_freefile :: nat
  fd_refcnt :: nat

abbreviation fd_nfiles :: "filedesc \<Rightarrow> nat" where "fd_nfiles fdp \<equiv> length (fd_ofiles fdp)"

definition NDFILE :: nat where "NDFILE = 25"
definition NDEXTENT :: nat where "NDEXTENT = 50"

definition u_short :: "nat \<Rightarrow> nat" where "u_short i = i mod 65536"
definition short :: "int \<Rightarrow> int" where "short i = (i + 32768) mod 65536 - 32768"

datatype fd_call =
    unlock_process_locks nat
  | unlock_file_lock nat
  | lock_file nat bool bool
  | fo_close nat
  | vn_close nat
  | VREF nat
  | vrele nat

datatype errno = EBADF | EMFILE | ENFILE | EINVAL | EACCES | EOPNOTSUPP | ENODEV | ENXIO | ERESTART | EINTR | Other_errno nat

text \<open>The process's table, all files by address, the list of the open ones, their number, and the calls into the
  file systems.\<close>

record fd_state =
  p_fd :: filedesc
  file_at :: "nat \<Rightarrow> open_file"
  filehead :: "nat list"
  nfiles :: int
  fd_calls :: "fd_call list"

text \<open>Nothing else happens during a sleep.\<close>

abbreviation quiet :: "nat \<Rightarrow> fd_state \<Rightarrow> fd_state" where "quiet \<equiv> (\<lambda>_ s. s)"

definition put_file :: "nat \<Rightarrow> open_file \<Rightarrow> fd_state \<Rightarrow> fd_state" where
  "put_file fp f s = s\<lparr>file_at := (file_at s)(fp := f)\<rparr>"

definition fd_call :: "fd_call \<Rightarrow> fd_state \<Rightarrow> fd_state" where
  "fd_call c s = s\<lparr>fd_calls := fd_calls s @ [c]\<rparr>"

definition put_slot :: "nat \<Rightarrow> nat option \<Rightarrow> u8 \<Rightarrow> filedesc \<Rightarrow> filedesc" where
  "put_slot i fp flags fdp =
     fdp\<lparr>fd_ofiles := (fd_ofiles fdp)[i := fp], fd_ofileflags := (fd_ofileflags fdp)[i := flags]\<rparr>"

definition reserved :: "filedesc \<Rightarrow> nat \<Rightarrow> bool" where
  "reserved fdp i \<longleftrightarrow> fd_ofileflags fdp ! i AND UF_RESERVED \<noteq> 0"

definition unused :: "filedesc \<Rightarrow> nat \<Rightarrow> bool" where
  "unused fdp i \<longleftrightarrow> fd_ofiles fdp ! i = None \<and> \<not> reserved fdp i"

section \<open>References\<close>

definition fref :: "nat \<Rightarrow> fd_state \<Rightarrow> fd_state option" where
  "fref fp s =
     (let c = short (f_count (file_at s fp) + 1)
      in if c \<le> 0 then None else Some (put_file fp ((file_at s fp)\<lparr>f_count := c\<rparr>) s))"

definition frele :: "nat \<Rightarrow> fd_state \<Rightarrow> fd_state option" where
  "frele fp s =
     (let c = short (f_count (file_at s fp) - 1)
      in if c < 0 then None else Some (put_file fp ((file_at s fp)\<lparr>f_count := c\<rparr>) s))"

definition ffree :: "nat \<Rightarrow> fd_state \<Rightarrow> fd_state" where
  "ffree fp s =
     put_file fp ((file_at s fp)\<lparr>f_count := 0\<rparr>) (s\<lparr>filehead := remove1 fp (filehead s), nfiles := nfiles s - 1\<rparr>)"

text \<open>\<open>advlock\<close> is whether there is a process and it has \<open>P_ADVLOCK\<close>; \<open>close_error\<close> is what \<open>fo_close\<close> of a file
  returns.  Releasing the locks and \<open>fo_close\<close> may sleep: the first before the reference is dropped, the other two
  while the file, whose count is zero by then, is still in the list.\<close>

definition closef ::
  "(nat \<Rightarrow> fd_state \<Rightarrow> fd_state) \<Rightarrow> bool \<Rightarrow> (nat \<Rightarrow> errno option) \<Rightarrow> nat option \<Rightarrow> fd_state \<Rightarrow>
   (fd_state \<times> errno option) option" where
  "closef sleep advlock close_error fpp s =
     (case fpp of
        None \<Rightarrow> Some (s, None)
      | Some fp \<Rightarrow> do {
          let s = (if advlock \<and> f_type (file_at s fp) = DTYPE_VNODE
                   then sleep 5 (fd_call (unlock_process_locks fp) s) else s);
          s \<leftarrow> frele fp s;
          if 0 < f_count (file_at s fp) then Some (s, None)
          else do {
            let s = (if f_flag (file_at s fp) AND FHASLOCK \<noteq> 0 \<and> f_type (file_at s fp) = DTYPE_VNODE
                     then sleep 6 (fd_call (unlock_file_lock fp) s) else s);
            let ops = f_ops (file_at s fp);
            let s = (if ops then sleep 7 (fd_call (fo_close fp) s) else s);
            Some (ffree fp s, if ops then close_error fp else None)
          }
        })"

section \<open>Allocation of descriptors\<close>

text \<open>The high-water mark goes down over unused descriptors.\<close>

fun last_used :: "filedesc \<Rightarrow> nat \<Rightarrow> nat" where
  "last_used fdp 0 = 0"
| "last_used fdp (Suc i) = (if unused fdp (Suc i) then last_used fdp i else Suc i)"

definition fdrelse :: "nat \<Rightarrow> filedesc \<Rightarrow> filedesc option" where
  "fdrelse fd fdp =
     (if fd < fd_nfiles fdp \<and> fd_lastfile fdp < fd_nfiles fdp
      then let fdp = (if fd < fd_freefile fdp then fdp\<lparr>fd_freefile := u_short fd\<rparr> else fdp);
               fdp = put_slot fd None 0 fdp
           in Some (fdp\<lparr>fd_lastfile := last_used fdp (fd_lastfile fdp)\<rparr>)
      else None)"

text \<open>What every system call checks first.\<close>

definition fdgetf :: "filedesc \<Rightarrow> nat \<Rightarrow> nat option" where
  "fdgetf fdp fd = (if fd_nfiles fdp \<le> fd \<or> reserved fdp fd then None else fd_ofiles fdp ! fd)"

definition reserve :: "nat \<Rightarrow> nat \<Rightarrow> filedesc \<Rightarrow> filedesc" where
  "reserve want i fdp =
     fdp\<lparr>fd_ofileflags := (fd_ofileflags fdp)[i := UF_RESERVED],
       fd_lastfile := (if fd_lastfile fdp < i then u_short i else fd_lastfile fdp),
       fd_freefile := (if want \<le> fd_freefile fdp then u_short i else fd_freefile fdp)\<rparr>"

definition grow_files :: "nat \<Rightarrow> filedesc \<Rightarrow> filedesc" where
  "grow_files n fdp =
     fdp\<lparr>fd_ofiles := fd_ofiles fdp @ replicate (n - fd_nfiles fdp) None,
       fd_ofileflags := fd_ofileflags fdp @ replicate (n - fd_nfiles fdp) 0\<rparr>"

text \<open>\<open>lim\<close> is the smaller of the process's limit and \<open>maxfiles\<close>; the fuel bounds the expansions.\<close>

fun fdalloc ::
  "nat \<Rightarrow> (nat \<Rightarrow> fd_state \<Rightarrow> fd_state) \<Rightarrow> nat \<Rightarrow> nat \<Rightarrow> fd_state \<Rightarrow> (fd_state \<times> (errno + nat)) option" where
  "fdalloc 0 sleep lim want s = None"
| "fdalloc (Suc fuel) sleep lim want s =
     (let fdp = p_fd s;
          i = (if want < fd_freefile fdp then fd_freefile fdp else want)
      in case find (unused fdp) [i..<min (fd_nfiles fdp) lim] of
           Some i \<Rightarrow> Some (s\<lparr>p_fd := reserve want i fdp\<rparr>, Inr i)
         | None \<Rightarrow>
             if lim \<le> fd_nfiles fdp then Some (s, Inl EMFILE)
             else
               let n = (if fd_nfiles fdp < NDEXTENT then NDEXTENT else 2 * fd_nfiles fdp);
                   n = (if lim < n then lim else n);
                   s = sleep fuel s
               in if n \<le> fd_nfiles (p_fd s) then fdalloc fuel sleep lim want s
                  else fdalloc fuel sleep lim want (s\<lparr>p_fd := grow_files n (p_fd s)\<rparr>))"

text \<open>Whether \<open>n\<close> descriptors are available.\<close>

fun count_unused :: "filedesc \<Rightarrow> nat list \<Rightarrow> int \<Rightarrow> bool" where
  "count_unused fdp [] n \<longleftrightarrow> False"
| "count_unused fdp (i # is) n \<longleftrightarrow>
     (if unused fdp i then (if n - 1 \<le> 0 then True else count_unused fdp is (n - 1)) else count_unused fdp is n)"

definition fdavail :: "nat \<Rightarrow> int \<Rightarrow> filedesc \<Rightarrow> bool" where
  "fdavail lim n fdp \<longleftrightarrow>
     (let i = int lim - int (fd_nfiles fdp);
          n' = (if 0 < i then n - i else n)
      in if 0 < i \<and> n' \<le> 0 then True else count_unused fdp [fd_freefile fdp..<fd_nfiles fdp] n')"

section \<open>Duplication\<close>

definition finishdup :: "nat \<Rightarrow> nat \<Rightarrow> fd_state \<Rightarrow> (fd_state \<times> (errno + nat)) option" where
  "finishdup old new s =
     (let fdp = p_fd s in
      if fd_nfiles fdp \<le> old \<or> fd_nfiles fdp \<le> new then None
      else case fd_ofiles fdp ! old of
        None \<Rightarrow> map_option (\<lambda>fdp. (s\<lparr>p_fd := fdp\<rparr>, Inl EBADF)) (fdrelse new fdp)
      | Some fp \<Rightarrow>
          if reserved fdp old
          then map_option (\<lambda>fdp. (s\<lparr>p_fd := fdp\<rparr>, Inl EBADF)) (fdrelse new fdp)
          else do {
            let fdp = put_slot new (Some fp) (fd_ofileflags fdp ! old AND NOT UF_EXCLOSE) fdp;
            s \<leftarrow> fref fp (s\<lparr>p_fd := fdp\<rparr>);
            let fdp = (if fd_lastfile (p_fd s) < new then (p_fd s)\<lparr>fd_lastfile := u_short new\<rparr> else p_fd s);
            Some (s\<lparr>p_fd := fdp\<rparr>, Inr new)
          })"

definition dup :: "nat \<Rightarrow> (nat \<Rightarrow> fd_state \<Rightarrow> fd_state) \<Rightarrow> nat \<Rightarrow> nat \<Rightarrow> fd_state \<Rightarrow> (fd_state \<times> (errno + nat)) option" where
  "dup fuel sleep lim old s =
     (if fdgetf (p_fd s) old = None then Some (s, Inl EBADF)
      else do {
        (s, r) \<leftarrow> fdalloc fuel sleep lim 0 s;
        (case r of Inl e \<Rightarrow> Some (s, Inl e) | Inr new \<Rightarrow> finishdup old new s)
      })"

text \<open>The label \<open>closeit\<close>: the descriptor is reserved while the close of its old file sleeps.\<close>

definition dup2_closeit ::
  "(nat \<Rightarrow> fd_state \<Rightarrow> fd_state) \<Rightarrow> bool \<Rightarrow> (nat \<Rightarrow> errno option) \<Rightarrow> nat \<Rightarrow> nat \<Rightarrow> fd_state \<Rightarrow>
   (fd_state \<times> (errno + nat)) option" where
  "dup2_closeit sleep advlock close_error old new s =
     (let fdp = p_fd s in
      if fd_nfiles fdp \<le> new then None
      else if reserved fdp new then Some (s, Inl EBADF)
      else do {
        let flags = (fd_ofileflags fdp ! new AND NOT UF_MAPPED) OR UF_RESERVED;
        let fpp = fd_ofiles fdp ! new;
        (s, _) \<leftarrow> closef sleep advlock close_error fpp (s\<lparr>p_fd := put_slot new None flags fdp\<rparr>);
        finishdup old new s
      })"

definition dup2 ::
  "nat \<Rightarrow> (nat \<Rightarrow> fd_state \<Rightarrow> fd_state) \<Rightarrow> bool \<Rightarrow> (nat \<Rightarrow> errno option) \<Rightarrow> nat \<Rightarrow> nat \<Rightarrow> nat \<Rightarrow> fd_state \<Rightarrow>
   (fd_state \<times> (errno + nat)) option" where
  "dup2 fuel sleep advlock close_error lim old new s =
     (if fdgetf (p_fd s) old = None \<or> lim \<le> new then Some (s, Inl EBADF)
      else if old = new then Some (s, Inr new)
      else if fd_nfiles (p_fd s) \<le> new
      then do {
        (s, r) \<leftarrow> fdalloc fuel sleep lim new s;
        (case r of
          Inl e \<Rightarrow> Some (s, Inl e)
        | Inr i \<Rightarrow>
            if new \<noteq> i then do {
              fdp \<leftarrow> fdrelse i (p_fd s);
              dup2_closeit sleep advlock close_error old new (s\<lparr>p_fd := fdp\<rparr>)
            }
            else finishdup old new s)
      }
      else dup2_closeit sleep advlock close_error old new s)"

text \<open>The name \<open>close\<close> is the system call.\<close>

definition close_fd ::
  "(nat \<Rightarrow> fd_state \<Rightarrow> fd_state) \<Rightarrow> bool \<Rightarrow> (nat \<Rightarrow> errno option) \<Rightarrow> nat \<Rightarrow> fd_state \<Rightarrow>
   (fd_state \<times> errno option) option" where
  "close_fd sleep advlock close_error fd s =
     (case fdgetf (p_fd s) fd of
        None \<Rightarrow> Some (s, Some EBADF)
      | Some fp \<Rightarrow> do {
          fdp \<leftarrow> fdrelse fd (p_fd s);
          closef sleep advlock close_error (Some fp) (s\<lparr>p_fd := fdp\<rparr>)
        })"

section \<open>Opening, copying and leaving a table\<close>

fun insert_after :: "nat \<Rightarrow> nat \<Rightarrow> nat list \<Rightarrow> nat list" where
  "insert_after fq fp [] = []"
| "insert_after fq fp (x # xs) = (if x = fq then x # fp # xs else x # insert_after fq fp xs)"

definition blank_file :: open_file where
  "blank_file = \<lparr>f_flag = 0, f_type = DTYPE_NONE, f_count = 0, f_ops = False\<rparr>"

text \<open>\<open>new_file\<close> is the address that \<open>MALLOC_ZONE\<close> gives; it is asked after the descriptor is reserved.\<close>

definition falloc ::
  "nat \<Rightarrow> (nat \<Rightarrow> fd_state \<Rightarrow> fd_state) \<Rightarrow> (fd_state \<Rightarrow> nat) \<Rightarrow> nat \<Rightarrow> int \<Rightarrow> fd_state \<Rightarrow>
   (fd_state \<times> (errno + nat \<times> nat)) option" where
  "falloc fuel sleep new_file lim maxfiles s =
     do {
       (s, r) \<leftarrow> fdalloc fuel sleep lim 0 s;
       (case r of
         Inl e \<Rightarrow> Some (s, Inl e)
       | Inr i \<Rightarrow>
           if maxfiles \<le> nfiles s then Some (s, Inl ENFILE)
           else
             let s = sleep 0 (s\<lparr>nfiles := nfiles s + 1\<rparr>); fp = new_file s
             in if fd_nfiles (p_fd s) \<le> i then None
             else
               let head = (case fd_ofiles (p_fd s) ! 0 of
                     None \<Rightarrow> fp # filehead s | Some fq \<Rightarrow> insert_after fq fp (filehead s));
                   s = put_file fp (blank_file\<lparr>f_count := 1\<rparr>) (s\<lparr>filehead := head\<rparr>)
               in Some (s\<lparr>p_fd := (p_fd s)\<lparr>fd_ofiles := (fd_ofiles (p_fd s))[i := Some fp]\<rparr>\<rparr>, Inr (fp, i)))
     }"

text \<open>The descriptors below the first argument, downwards.  At \<open>exec\<close> the process has one thread (\<open>execve\<close> refuses a task
  with more) and at its end nobody else has the table (\<open>p_fd\<close> is cleared first), so that the table stays as it is while
  these closes sleep.\<close>

fun fdexec_from :: "nat \<Rightarrow> bool \<Rightarrow> (nat \<Rightarrow> errno option) \<Rightarrow> fd_state \<Rightarrow> fd_state option" where
  "fdexec_from 0 advlock close_error s = Some s"
| "fdexec_from (Suc i) advlock close_error s =
     (let fdp = p_fd s; flags = fd_ofileflags fdp ! i in
      if fd_nfiles fdp \<le> i then None
      else if flags AND (UF_RESERVED OR UF_EXCLOSE) = UF_EXCLOSE
      then do {
        let fpp = fd_ofiles fdp ! i;
        let fdp = put_slot i None 0 fdp;
        let fdp = (if i = fd_lastfile fdp \<and> 0 < i then fdp\<lparr>fd_lastfile := fd_lastfile fdp - 1\<rparr> else fdp);
        (s, _) \<leftarrow> closef quiet advlock close_error fpp (s\<lparr>p_fd := fdp\<rparr>);
        fdexec_from i advlock close_error s
      }
      else fdexec_from i advlock close_error
             (s\<lparr>p_fd := fdp\<lparr>fd_ofileflags := (fd_ofileflags fdp)[i := flags AND NOT UF_MAPPED]\<rparr>\<rparr>))"

definition fdexec :: "bool \<Rightarrow> (nat \<Rightarrow> errno option) \<Rightarrow> fd_state \<Rightarrow> fd_state option" where
  "fdexec advlock close_error s = fdexec_from (fd_lastfile (p_fd s) + 1) advlock close_error s"

text \<open>The size of the copy's arrays.\<close>

fun shrink :: "nat \<Rightarrow> nat \<Rightarrow> nat" where
  "shrink used i = (if 2 * NDEXTENT < i \<and> used * 2 < i then shrink used (i div 2) else i)"

declare shrink.simps [simp del]

definition copy_size :: "filedesc \<Rightarrow> nat" where
  "copy_size fdp = (if fd_lastfile fdp < NDFILE then NDFILE else shrink (fd_lastfile fdp) (fd_nfiles fdp))"

fun share_files :: "nat list \<Rightarrow> filedesc \<Rightarrow> fd_state \<Rightarrow> (filedesc \<times> fd_state) option" where
  "share_files [] fdp s = Some (fdp, s)"
| "share_files (i # is) fdp s =
     (if fd_nfiles fdp \<le> i then None
      else case fd_ofiles fdp ! i of
        None \<Rightarrow> share_files is (put_slot i None 0 fdp) s
      | Some fp \<Rightarrow>
          if reserved fdp i then share_files is (put_slot i None 0 fdp) s
          else do { s \<leftarrow> fref fp s; share_files is fdp s })"

definition fdcopy :: "(nat \<Rightarrow> fd_state \<Rightarrow> fd_state) \<Rightarrow> fd_state \<Rightarrow> (fd_state \<times> filedesc) option" where
  "fdcopy sleep s =
     do {
       let new = p_fd s;
       let s = fd_call (VREF (fd_cdir new)) s;
       let s = (case fd_rdir new of None \<Rightarrow> s | Some vp \<Rightarrow> fd_call (VREF vp) s);
       let i = copy_size new;
       let s = sleep 0 s;
       if fd_nfiles (p_fd s) = 0
       then Some (s, new\<lparr>fd_refcnt := 1, fd_ofiles := replicate i None, fd_ofileflags := replicate i 0\<rparr>)
       else if fd_nfiles (p_fd s) < i then None
       else do {
         (new, s) \<leftarrow> share_files [0..<fd_lastfile new + 1]
           (new\<lparr>fd_refcnt := 1, fd_ofiles := take i (fd_ofiles (p_fd s)),
              fd_ofileflags := take i (fd_ofileflags (p_fd s))\<rparr>) s;
         Some (s, new)
       }
     }"

fun close_all :: "nat option list \<Rightarrow> bool \<Rightarrow> (nat \<Rightarrow> errno option) \<Rightarrow> fd_state \<Rightarrow> fd_state option" where
  "close_all [] advlock close_error s = Some s"
| "close_all (fpp # fpps) advlock close_error s =
     do { (s, _) \<leftarrow> closef quiet advlock close_error fpp s; close_all fpps advlock close_error s }"

text \<open>The boolean says whether the table is gone.\<close>

definition fdfree :: "bool \<Rightarrow> (nat \<Rightarrow> errno option) \<Rightarrow> fd_state \<Rightarrow> (fd_state \<times> bool) option" where
  "fdfree advlock close_error s =
     (let fdp = (p_fd s)\<lparr>fd_refcnt := fd_refcnt (p_fd s) - 1\<rparr> in
      if 0 < fd_refcnt fdp then Some (s\<lparr>p_fd := fdp\<rparr>, False)
      else do {
        s \<leftarrow> if 0 < fd_nfiles fdp
            then if fd_nfiles fdp \<le> fd_lastfile fdp then None
                 else close_all (take (fd_lastfile fdp + 1) (fd_ofiles fdp)) advlock close_error s
            else Some s;
        let s = fd_call (vrele (fd_cdir fdp)) s;
        let s = (case fd_rdir fdp of None \<Rightarrow> s | Some vp \<Rightarrow> fd_call (vrele vp) s);
        Some (s, True)
      })"

section \<open>File control\<close>

text \<open>The commands that do not need a vnode; the result is a 32-bit register.\<close>

datatype fcntl_cmd = F_DUPFD nat | F_GETFD | F_SETFD u32 | F_GETFL | F_SETFL u32

text \<open>The assignment of \<open>F_SETFD\<close>, with the precedence C gives it.\<close>

definition setfd_flags :: "u8 \<Rightarrow> u32 \<Rightarrow> u8" where
  "setfd_flags flags arg = (if ucast (flags AND NOT UF_EXCLOSE) OR (arg AND 1) \<noteq> 0 then UF_EXCLOSE else 0)"

text \<open>\<open>ioctl\<close> is the driver's answer to \<open>FIONBIO\<close> (\<open>False\<close>) and \<open>FIOASYNC\<close> (\<open>True\<close>) with a value.\<close>

definition fcntl_setfl :: "(bool \<Rightarrow> u16 \<Rightarrow> errno option) \<Rightarrow> nat \<Rightarrow> u32 \<Rightarrow> fd_state \<Rightarrow> fd_state \<times> (errno + nat)" where
  "fcntl_setfl ioctl fp arg s =
     (let f = file_at s fp;
          flag = (f_flag f AND NOT FCNTLFLAGS) OR (ucast (FFLAGS arg) AND FCNTLFLAGS)
      in case ioctl False (flag AND FNONBLOCK) of
           Some e \<Rightarrow> (put_file fp (f\<lparr>f_flag := flag\<rparr>) s, Inl e)
         | None \<Rightarrow>
             (case ioctl True (flag AND 0x0040) of
                None \<Rightarrow> (put_file fp (f\<lparr>f_flag := flag\<rparr>) s, Inr 0)
              | Some e \<Rightarrow> (put_file fp (f\<lparr>f_flag := flag AND NOT FNONBLOCK\<rparr>) s, Inl e)))"

definition fcntl ::
  "nat \<Rightarrow> (nat \<Rightarrow> fd_state \<Rightarrow> fd_state) \<Rightarrow> (bool \<Rightarrow> u16 \<Rightarrow> errno option) \<Rightarrow> nat \<Rightarrow> nat \<Rightarrow> fcntl_cmd \<Rightarrow> fd_state \<Rightarrow>
   (fd_state \<times> (errno + nat)) option" where
  "fcntl fuel sleep ioctl lim fd cmd s =
     (let fdp = p_fd s in
      case fdgetf fdp fd of
        None \<Rightarrow> Some (s, Inl EBADF)
      | Some fp \<Rightarrow>
          (case cmd of
             F_DUPFD newmin \<Rightarrow>
               if lim \<le> newmin then Some (s, Inl EINVAL)
               else do {
                 (s, r) \<leftarrow> fdalloc fuel sleep lim newmin s;
                 (case r of Inl e \<Rightarrow> Some (s, Inl e) | Inr i \<Rightarrow> finishdup fd i s)
               }
           | F_GETFD \<Rightarrow> Some (s, Inr (if fd_ofileflags fdp ! fd AND UF_EXCLOSE \<noteq> 0 then 1 else 0))
           | F_SETFD arg \<Rightarrow>
               Some (s\<lparr>p_fd := fdp\<lparr>fd_ofileflags :=
                 (fd_ofileflags fdp)[fd := setfd_flags (fd_ofileflags fdp ! fd) arg]\<rparr>\<rparr>, Inr 0)
           | F_GETFL \<Rightarrow> Some (s, Inr (unat (OFLAGS (scast (f_flag (file_at s fp))))))
           | F_SETFL arg \<Rightarrow> Some (fcntl_setfl ioctl fp arg s)))"

section \<open>Whole-file locks and the descriptor device\<close>

text \<open>\<open>how\<close> has the bits 1 for shared, 2 for exclusive, 4 for not blocking and 8 for unlocking; \<open>advlock_error\<close>
  is the answer of the file system.\<close>

definition flock :: "(fd_call \<Rightarrow> errno option) \<Rightarrow> nat \<Rightarrow> u8 \<Rightarrow> fd_state \<Rightarrow> fd_state \<times> errno option" where
  "flock advlock_error fd how s =
     (case fdgetf (p_fd s) fd of
        None \<Rightarrow> (s, Some EBADF)
      | Some fp \<Rightarrow>
          let f = file_at s fp in
          if f_type f \<noteq> DTYPE_VNODE then (s, Some EOPNOTSUPP)
          else if how AND 8 \<noteq> 0
          then (fd_call (unlock_file_lock fp) (put_file fp (f\<lparr>f_flag := f_flag f AND NOT FHASLOCK\<rparr>) s),
                advlock_error (unlock_file_lock fp))
          else if how AND 3 = 0 then (s, Some EBADF)
          else
            let c = lock_file fp (how AND 2 \<noteq> 0) (how AND 4 = 0)
            in (fd_call c (put_file fp (f\<lparr>f_flag := f_flag f OR FHASLOCK\<rparr>) s), advlock_error c))"

definition dupfdopen :: "nat \<Rightarrow> nat \<Rightarrow> u16 \<Rightarrow> errno \<Rightarrow> fd_state \<Rightarrow> (fd_state \<times> errno option) option" where
  "dupfdopen indx dfd mode error s =
     (let fdp = p_fd s in
      if fd_nfiles fdp \<le> indx then None
      else case fdgetf fdp dfd of
        None \<Rightarrow> Some (s, Some EBADF)
      | Some wfile \<Rightarrow>
          if fd_ofiles fdp ! indx = Some wfile then Some (s, Some EBADF)
          else
            let mark = (\<lambda>fdp. if fd_lastfile fdp < indx then fdp\<lparr>fd_lastfile := u_short indx\<rparr> else fdp);
                moved = put_slot indx (Some wfile) (fd_ofileflags fdp ! dfd) (mark fdp);
                wflag = f_flag (file_at s wfile)
            in (case error of
                  ENODEV \<Rightarrow>
                    if (mode AND (FREAD OR FWRITE)) OR wflag \<noteq> wflag then Some (s, Some EACCES)
                    else map_option (\<lambda>s. (s\<lparr>p_fd := moved\<rparr>, None)) (fref wfile s)
                | ENXIO \<Rightarrow> map_option (\<lambda>fdp. (s\<lparr>p_fd := fdp\<rparr>, None)) (fdrelse dfd moved)
                | e \<Rightarrow> Some (s, Some e)))"

section \<open>Opening by name\<close>

text \<open>How \<open>open\<close> undoes \<open>falloc\<close>.\<close>

definition give_up :: "nat \<Rightarrow> errno \<Rightarrow> fd_state \<Rightarrow> (fd_state \<times> (errno + nat)) option" where
  "give_up indx error s =
     map_option (\<lambda>fdp. (s\<lparr>p_fd := fdp\<rparr>, Inl (if error = ERESTART then EINTR else error))) (fdrelse indx (p_fd s))"

text \<open>After a failed \<open>vn_open\<close>; \<open>dupfd\<close> is \<open>p_dupfd\<close>, if the descriptor device has set it.\<close>

definition open_failed ::
  "nat \<Rightarrow> nat \<Rightarrow> u32 \<Rightarrow> errno \<Rightarrow> nat option \<Rightarrow> fd_state \<Rightarrow> (fd_state \<times> (errno + nat)) option" where
  "open_failed fp indx flags error dupfd s =
     (let s = ffree fp s in
      case dupfd of
        Some dfd \<Rightarrow>
          if error = ENODEV \<or> error = ENXIO
          then do {
            (s, e) \<leftarrow> dupfdopen indx dfd (ucast flags) error s;
            (case e of None \<Rightarrow> Some (s, Inr indx) | Some e \<Rightarrow> give_up indx e s)
          }
          else give_up indx error s
      | None \<Rightarrow> give_up indx error s)"

text \<open>After a successful one: the lock that \<open>O_SHLOCK\<close> or \<open>O_EXLOCK\<close> asks for, and the end of the reservation.\<close>

definition publish :: "nat \<Rightarrow> fd_state \<Rightarrow> fd_state" where
  "publish indx s =
     s\<lparr>p_fd := (p_fd s)\<lparr>fd_ofileflags :=
       (fd_ofileflags (p_fd s))[indx := fd_ofileflags (p_fd s) ! indx AND NOT UF_RESERVED]\<rparr>\<rparr>"

definition open_done ::
  "(nat \<Rightarrow> fd_state \<Rightarrow> fd_state) \<Rightarrow> (fd_call \<Rightarrow> errno option) \<Rightarrow> nat \<Rightarrow> nat \<Rightarrow> u32 \<Rightarrow> fd_state \<Rightarrow>
   (fd_state \<times> (errno + nat)) option" where
  "open_done sleep advlock_error fp indx flags s =
     (let s = put_file fp ((file_at s fp)\<lparr>f_flag := ucast flags AND FMASK, f_type := DTYPE_VNODE, f_ops := True\<rparr>) s in
      if flags AND 0x30 = 0 then Some (publish indx s, Inr indx)
      else
        let c = lock_file fp (flags AND 0x20 \<noteq> 0) (flags AND 4 = 0);
            s = sleep 2 (fd_call c s)
        in (case advlock_error c of
              Some error \<Rightarrow>
                let s = ffree fp (sleep 3 (fd_call (vn_close fp) s))
                in map_option (\<lambda>fdp. (s\<lparr>p_fd := fdp\<rparr>, Inl error)) (fdrelse indx (p_fd s))
            | None \<Rightarrow>
                let s = sleep 4 s; f = file_at s fp
                in Some (publish indx (put_file fp (f\<lparr>f_flag := f_flag f OR FHASLOCK\<rparr>) s), Inr indx)))"

text \<open>The system call; \<open>vn_open\<close> is the error of \<open>vn_open\<close> with \<open>p_dupfd\<close>, if it fails.\<close>

definition open_call ::
  "nat \<Rightarrow> (nat \<Rightarrow> fd_state \<Rightarrow> fd_state) \<Rightarrow> (fd_state \<Rightarrow> nat) \<Rightarrow> nat \<Rightarrow> int \<Rightarrow> (fd_call \<Rightarrow> errno option) \<Rightarrow>
   (errno \<times> nat option) option \<Rightarrow> u32 \<Rightarrow> fd_state \<Rightarrow> (fd_state \<times> (errno + nat)) option" where
  "open_call fuel sleep new_file lim maxfiles advlock_error vn_open oflags s =
     (let flags = FFLAGS oflags in
      if flags AND 3 = 0 then Some (s, Inl EINVAL)
      else do {
        (s, r) \<leftarrow> falloc fuel sleep new_file lim maxfiles s;
        (case r of
          Inl e \<Rightarrow> Some (s, Inl e)
        | Inr (fp, indx) \<Rightarrow>
            (case vn_open of
              Some (error, dupfd) \<Rightarrow> open_failed fp indx flags error dupfd (sleep 1 s)
            | None \<Rightarrow> open_done sleep advlock_error fp indx flags (sleep 1 s)))
      })"

end
