(* ===== verification/Fd_Inv.thy ===== *)
theory Fd_Inv
  imports Fd_Table
begin

text \<open>
  What the descriptor tables and the open files keep: the reference count of a file is the number of its
  descriptors and of the references from elsewhere, the list of open files holds exactly those that are referred
  to, and above the high-water mark no descriptor is in use.  Each step of the operations keeps it.
\<close>

section \<open>The invariant\<close>

definition slots :: "filedesc \<Rightarrow> nat \<Rightarrow> nat" where
  "slots fdp fp = count_list (fd_ofiles fdp) (Some fp)"

definition fd_tidy :: "filedesc \<Rightarrow> bool" where
  "fd_tidy fdp \<longleftrightarrow>
     length (fd_ofileflags fdp) = fd_nfiles fdp \<and> fd_nfiles fdp \<le> 65536 \<and>
     (if fd_nfiles fdp = 0 then fd_lastfile fdp = 0 else fd_lastfile fdp < fd_nfiles fdp) \<and>
     (\<forall>i < fd_nfiles fdp. fd_lastfile fdp < i \<longrightarrow> unused fdp i)"

text \<open>\<open>others\<close> counts the references from elsewhere.  In flight are the number of files that are counted but not yet in the
  list, and the files that have lost their last reference and whose closer has not yet taken them out of the list.\<close>

type_synonym in_flight = "int \<times> nat set"

definition refs_ok :: "(nat \<Rightarrow> nat) \<Rightarrow> in_flight \<Rightarrow> fd_state \<Rightarrow> bool" where
  "refs_ok others k s \<longleftrightarrow>
     (\<forall>fp. f_count (file_at s fp) = int (slots (p_fd s) fp + others fp) \<and> slots (p_fd s) fp + others fp \<le> 32767 \<and>
       (fp \<in> set (filehead s) \<longleftrightarrow> 0 < slots (p_fd s) fp + others fp \<or> fp \<in> snd k) \<and>
       (fp \<in> snd k \<longrightarrow> slots (p_fd s) fp + others fp = 0)) \<and>
     distinct (filehead s) \<and> nfiles s = int (length (filehead s)) + fst k"

definition fd_inv :: "(nat \<Rightarrow> nat) \<Rightarrow> in_flight \<Rightarrow> fd_state \<Rightarrow> bool" where
  "fd_inv others k s \<longleftrightarrow> fd_tidy (p_fd s) \<and> refs_ok others k s"

text \<open>A descriptor that some operation has reserved and not yet filled.\<close>

definition pending :: "filedesc \<Rightarrow> nat \<Rightarrow> bool" where
  "pending fdp i \<longleftrightarrow> i < fd_nfiles fdp \<and> fd_ofiles fdp ! i = None \<and> reserved fdp i"

text \<open>A reserved descriptor with its file, if it has one, that no other descriptor refers to.\<close>

definition holds :: "filedesc \<Rightarrow> nat \<Rightarrow> nat option \<Rightarrow> bool" where
  "holds fdp i fpp \<longleftrightarrow>
     i < fd_nfiles fdp \<and> reserved fdp i \<and> fd_ofiles fdp ! i = fpp \<and> (\<forall>x. fpp = Some x \<longrightarrow> slots fdp x = 1)"

text \<open>What every thread may rely on while it sleeps, whatever references it and others hold and whatever files are being
  closed, and what the operations do to others' reservations.\<close>

definition keeps :: "filedesc \<Rightarrow> filedesc \<Rightarrow> bool" where
  "keeps fdp fdp' \<longleftrightarrow> fd_nfiles fdp \<le> fd_nfiles fdp' \<and> (\<forall>i fpp. holds fdp i fpp \<longrightarrow> holds fdp' i fpp)"

definition polite :: "(nat \<Rightarrow> fd_state \<Rightarrow> fd_state) \<Rightarrow> bool" where
  "polite sleep \<longleftrightarrow>
     (\<forall>others n k s. fd_inv others k s \<longrightarrow> fd_inv others k (sleep n s) \<and> keeps (p_fd s) (p_fd (sleep n s)))"

text \<open>No count is at the maximum of a \<open>short\<close>, and other threads take none there while a call sleeps.\<close>

definition roomy :: "fd_state \<Rightarrow> bool" where
  "roomy s \<longleftrightarrow> (\<forall>fp. f_count (file_at s fp) < 32767)"

definition leaves_room :: "(nat \<Rightarrow> fd_state \<Rightarrow> fd_state) \<Rightarrow> bool" where
  "leaves_room sleep \<longleftrightarrow> (\<forall>others n k s. fd_inv others k s \<and> roomy s \<longrightarrow> roomy (sleep n s))"

lemma leaves_roomD: "leaves_room sleep \<Longrightarrow> fd_inv others k s \<Longrightarrow> roomy s \<Longrightarrow> roomy (sleep n s)"
  unfolding leaves_room_def by blast

lemma keeps_refl [simp]: "keeps fdp fdp"
  by (simp add: keeps_def)

lemma keeps_trans: "keeps a b \<Longrightarrow> keeps b c \<Longrightarrow> keeps a c"
  by (auto simp: keeps_def)

lemma holds_None: "holds fdp i None \<longleftrightarrow> pending fdp i"
  by (auto simp: holds_def pending_def)

lemma keepsD: "keeps a b \<Longrightarrow> holds a i fpp \<Longrightarrow> holds b i fpp" "keeps a b \<Longrightarrow> pending a i \<Longrightarrow> pending b i"
  by (simp_all add: keeps_def flip: holds_None)

lemma keeps_files: "keeps a b \<Longrightarrow> fd_nfiles a \<le> fd_nfiles b"
  by (simp add: keeps_def)

lemma politeD:
  "polite sleep \<Longrightarrow> fd_inv others k s \<Longrightarrow> fd_inv others k (sleep n s) \<and> keeps (p_fd s) (p_fd (sleep n s))"
  unfolding polite_def by blast

section \<open>Counts\<close>

lemma count_list_update:
  "i < length xs \<Longrightarrow> count_list (xs[i := y]) x + (if xs ! i = x then 1 else 0) = count_list xs x + (if y = x then 1 else 0)"
proof (induction xs arbitrary: i)
  case (Cons z zs)
  show ?case
  proof (cases i)
    case (Suc j)
    then show ?thesis
      using Cons.IH [of j] Cons.prems by auto
  qed auto
qed simp

definition one_more :: "nat \<Rightarrow> (nat \<Rightarrow> nat) \<Rightarrow> nat \<Rightarrow> nat" where
  "one_more fp others = others(fp := Suc (others fp))"

lemma one_more_apply: "one_more fp others x = others x + (if x = fp then 1 else 0)"
  by (simp add: one_more_def)

lemma slots_put:
  "i < fd_nfiles fdp \<Longrightarrow> slots (put_slot i fpp flags fdp) x + (if fd_ofiles fdp ! i = Some x then 1 else 0) =
     slots fdp x + (if fpp = Some x then 1 else 0)"
  unfolding slots_def put_slot_def by (simp add: count_list_update)

lemma refs_cong:
  "refs_ok others k s \<Longrightarrow> fd_ofiles (p_fd s') = fd_ofiles (p_fd s) \<Longrightarrow> file_at s' = file_at s \<Longrightarrow>
    filehead s' = filehead s \<Longrightarrow> nfiles s' = nfiles s \<Longrightarrow> refs_ok others k s'"
  by (simp add: refs_ok_def slots_def)

text \<open>Emptying a descriptor leaves its reference to whoever closes the file; filling one takes a reference.\<close>

lemma refs_shift:
  assumes "refs_ok others k s" and "\<And>x. slots fdp x + others' x = slots (p_fd s) x + others x"
  shows "refs_ok others' k (s\<lparr>p_fd := fdp\<rparr>)"
  using assms by (simp add: refs_ok_def)

lemma refs_emptied:
  assumes "refs_ok others k s" and "i < fd_nfiles (p_fd s)" and "fd_ofiles (p_fd s) ! i = Some fp"
  shows "refs_ok (one_more fp others) k (s\<lparr>p_fd := put_slot i None flags (p_fd s)\<rparr>)"
proof (rule refs_shift [OF assms(1)])
  show "slots (put_slot i None flags (p_fd s)) x + one_more fp others x = slots (p_fd s) x + others x" for x
    using slots_put [OF assms(2), of None flags x] assms(3) by (auto simp: one_more_apply split: if_splits)
qed

lemma refs_filled:
  assumes "refs_ok (one_more fp others) k s" and "i < fd_nfiles (p_fd s)" and "fd_ofiles (p_fd s) ! i = None"
  shows "refs_ok others k (s\<lparr>p_fd := put_slot i (Some fp) flags (p_fd s)\<rparr>)"
proof (rule refs_shift [OF assms(1)])
  show "slots (put_slot i (Some fp) flags (p_fd s)) x + others x = slots (p_fd s) x + one_more fp others x" for x
    using slots_put [OF assms(2), of "Some fp" flags x] assms(3) by (auto simp: one_more_apply split: if_splits)
qed

lemma refs_none:
  assumes "refs_ok others k s" and "i < fd_nfiles (p_fd s)" and "fd_ofiles (p_fd s) ! i = None"
  shows "refs_ok others k (s\<lparr>p_fd := put_slot i None flags (p_fd s)\<rparr>)"
  by (rule refs_shift [OF assms(1)]) (use slots_put [OF assms(2), of None flags] assms(3) in simp)

lemma slot_positive: "i < fd_nfiles fdp \<Longrightarrow> fd_ofiles fdp ! i = Some fp \<Longrightarrow> 0 < slots fdp fp"
  by (metis count_list_0_iff gr0I nth_mem slots_def)

lemma keepsI:
  assumes "fd_nfiles fdp \<le> fd_nfiles fdp'" and "\<And>x. slots fdp' x \<le> slots fdp x"
    and "\<And>j. j < fd_nfiles fdp \<Longrightarrow> reserved fdp j \<Longrightarrow> reserved fdp' j \<and> fd_ofiles fdp' ! j = fd_ofiles fdp ! j"
  shows "keeps fdp fdp'"
  unfolding keeps_def
proof (intro conjI allI impI)
  fix j fpp
  assume "holds fdp j fpp"
  then have j: "j < fd_nfiles fdp" "reserved fdp j" "fd_ofiles fdp ! j = fpp" "\<forall>x. fpp = Some x \<longrightarrow> slots fdp x = 1"
    by (simp_all add: holds_def)
  have "slots fdp' x = 1" if "fpp = Some x" for x
    using assms(1) assms(2) [of x] assms(3) [OF j(1,2)] j(1,3,4) that slot_positive [of j fdp' x] by fastforce
  then show "holds fdp' j fpp"
    using assms(1) assms(3) [OF j(1,2)] j(1,3) by (simp add: holds_def)
qed (rule assms(1))

lemma held_alone:
  assumes "holds fdp j (Some x)" and "i < fd_nfiles fdp" and "i \<noteq> j"
  shows "fd_ofiles fdp ! i \<noteq> Some x"
proof
  assume i: "fd_ofiles fdp ! i = Some x"
  have j: "j < fd_nfiles fdp" "fd_ofiles fdp ! j = Some x" "slots fdp x = 1"
    using assms(1) by (simp_all add: holds_def)
  have "slots (put_slot i None 0 fdp) x = 0"
    using slots_put [OF assms(2), of None 0 x] i j(3) by simp
  moreover have "0 < slots (put_slot i None 0 fdp) x"
    using j assms(3) by (intro slot_positive [of j]) (simp_all add: put_slot_def)
  ultimately show False
    by simp
qed

lemma holds_put:
  assumes "holds fdp j fpp" and "j \<noteq> i" and "i < fd_nfiles fdp" and "fpp = None \<or> fqq \<noteq> fpp"
  shows "holds (put_slot i fqq flags fdp) j fpp"
proof -
  have "slots (put_slot i fqq flags fdp) x = 1" if "fpp = Some x" for x
    using slots_put [OF assms(3), of fqq flags x] assms(4) held_alone [of fdp j x i] assms(1-3) that
    by (auto simp: holds_def)
  then show ?thesis
    using assms(1,2) by (simp add: holds_def put_slot_def reserved_def)
qed

lemma holds_clear: "holds fdp j fpp \<Longrightarrow> j \<noteq> i \<Longrightarrow> i < fd_nfiles fdp \<Longrightarrow> holds (put_slot i None flags fdp) j fpp"
  by (cases fpp) (auto intro: holds_put)

lemma holds_marks [simp]:
  "holds (fdp\<lparr>fd_lastfile := n\<rparr>) = holds fdp" "holds (fdp\<lparr>fd_freefile := n\<rparr>) = holds fdp"
  by (simp_all add: holds_def reserved_def slots_def fun_eq_iff)

lemma refs_okD:
  assumes "refs_ok others k s"
  shows "f_count (file_at s fp) = int (slots (p_fd s) fp + others fp)" and "slots (p_fd s) fp + others fp \<le> 32767"
    and "fp \<in> set (filehead s) \<longleftrightarrow> 0 < slots (p_fd s) fp + others fp \<or> fp \<in> snd k" and "distinct (filehead s)"
    and "nfiles s = int (length (filehead s)) + fst k" and "fp \<in> snd k \<Longrightarrow> slots (p_fd s) fp + others fp = 0"
  using assms by (simp_all add: refs_ok_def)

lemma short_id: "-32768 \<le> i \<Longrightarrow> i \<le> 32767 \<Longrightarrow> short i = i"
  by (simp add: short_def)

lemma fref_refs:
  assumes "refs_ok others k s" and "0 < slots (p_fd s) fp + others fp"
  shows "slots (p_fd s) fp + others fp < 32767 \<Longrightarrow> \<exists>s'. fref fp s = Some s'"
    and "fref fp s = Some s' \<Longrightarrow> refs_ok (one_more fp others) k s' \<and> p_fd s' = p_fd s"
proof -
  note R = refs_okD [OF assms(1)]
  show "\<exists>s'. fref fp s = Some s'" if "slots (p_fd s) fp + others fp < 32767"
    using that R(1) by (simp add: fref_def Let_def short_id)
  assume s': "fref fp s = Some s'"
  have "slots (p_fd s) fp + others fp \<noteq> 32767"
  proof
    assume "slots (p_fd s) fp + others fp = 32767"
    then have "f_count (file_at s fp) = 32767"
      using R(1) [of fp] by simp
    then show False
      using s' by (simp add: fref_def Let_def short_def)
  qed
  then have lt: "slots (p_fd s) fp + others fp < 32767"
    using R(2) by (simp add: le_neq_implies_less)
  then have "s' = put_file fp ((file_at s fp)\<lparr>f_count := int (slots (p_fd s) fp + others fp) + 1\<rparr>) s"
    using s' R(1) by (simp add: fref_def Let_def short_id split: if_splits)
  then show "refs_ok (one_more fp others) k s' \<and> p_fd s' = p_fd s"
    using R lt assms(2) by (auto simp: refs_ok_def put_file_def one_more_apply)
qed

lemma refs_call [simp]: "refs_ok others k (fd_call c s) \<longleftrightarrow> refs_ok others k s"
  by (simp add: refs_ok_def fd_call_def)

lemma fd_call_fields [simp]:
  "p_fd (fd_call c s) = p_fd s" "file_at (fd_call c s) = file_at s" "filehead (fd_call c s) = filehead s"
  by (simp_all add: fd_call_def)

lemma put_file_fields [simp]:
  "p_fd (put_file fp f s) = p_fd s" "file_at (put_file fp f s) = (file_at s)(fp := f)"
  "filehead (put_file fp f s) = filehead s" "nfiles (put_file fp f s) = nfiles s"
  by (simp_all add: put_file_def)

lemma frele_refs:
  assumes "refs_ok (one_more fp others) k s"
  shows "frele fp s = Some (put_file fp ((file_at s fp)\<lparr>f_count := int (slots (p_fd s) fp + others fp)\<rparr>) s)"
proof -
  have "f_count (file_at s fp) = int (slots (p_fd s) fp + others fp) + 1" "slots (p_fd s) fp + others fp < 32767"
    using refs_okD(1,2) [OF assms, of fp] by (simp_all add: one_more_def)
  then show ?thesis
    by (simp add: frele_def Let_def short_id)
qed

lemma frele_some_left:
  assumes "refs_ok (one_more fp others) k s" and "0 < slots (p_fd s) fp + others fp"
  shows "refs_ok others k (put_file fp ((file_at s fp)\<lparr>f_count := int (slots (p_fd s) fp + others fp)\<rparr>) s)"
  using refs_okD [OF assms(1)] assms(2) by (fastforce simp: refs_ok_def one_more_apply split: if_splits)

lemma ffree_refs:
  assumes "refs_ok (one_more fp others) k s" and "slots (p_fd s) fp + others fp = 0"
  shows "refs_ok others k (ffree fp (put_file fp f s))"
proof -
  note R = refs_okD [OF assms(1)]
  have mem: "fp \<in> set (filehead s)" and out: "fp \<notin> snd k"
    using R(3) [of fp] R(6) [of fp] by (auto simp: one_more_apply)
  have len: "int (length (remove1 fp (filehead s))) = int (length (filehead s)) - 1"
    using mem length_pos_if_in_set [OF mem] by (simp add: length_remove1 of_nat_diff Suc_leI del: length_greater_0_conv)
  have "f_count (file_at (ffree fp (put_file fp f s)) x) = int (slots (p_fd s) x + others x) \<and>
      slots (p_fd s) x + others x \<le> 32767 \<and>
      (x \<in> set (filehead (ffree fp (put_file fp f s))) \<longleftrightarrow> 0 < slots (p_fd s) x + others x \<or> x \<in> snd k) \<and>
      (x \<in> snd k \<longrightarrow> slots (p_fd s) x + others x = 0)" for x
    using R(1,2,3) [of x] R(4) R(6) [of x] out assms(2) by (cases "x = fp") (auto simp: ffree_def one_more_apply)
  then show ?thesis
    using R(4,5) len by (simp add: refs_ok_def ffree_def)
qed

lemma roomy_steps [simp]:
  "roomy (fd_call c s) \<longleftrightarrow> roomy s" "roomy (s\<lparr>p_fd := fdp\<rparr>) \<longleftrightarrow> roomy s"
  "f_count f < 32767 \<Longrightarrow> roomy s \<Longrightarrow> roomy (put_file fp f s)" "roomy s \<Longrightarrow> roomy (ffree fp s)"
  by (simp_all add: roomy_def ffree_def)

lemma ffree_call: "refs_ok others k (ffree fp (fd_call c s)) \<longleftrightarrow> refs_ok others k (ffree fp s)"
  by (simp add: refs_ok_def ffree_def fd_call_def)

lemma ffree_fd [simp]: "p_fd (ffree fp s) = p_fd s"
  by (simp add: ffree_def)

lemma fd_inv_call [simp]: "fd_inv others k (fd_call c s) \<longleftrightarrow> fd_inv others k s"
  by (simp add: fd_inv_def)

text \<open>The last reference is dropped, and the file is taken out of the list later.\<close>

lemma frele_last:
  assumes "refs_ok (one_more fp others) k s" and "slots (p_fd s) fp + others fp = 0"
  shows "refs_ok others (fst k, insert fp (snd k)) (put_file fp ((file_at s fp)\<lparr>f_count := 0\<rparr>) s)" and "fp \<notin> snd k"
proof -
  note R = refs_okD [OF assms(1)]
  show "fp \<notin> snd k"
    using R(6) [of fp] by (auto simp: one_more_apply)
  have "f_count (file_at (put_file fp ((file_at s fp)\<lparr>f_count := 0\<rparr>) s) x) = int (slots (p_fd s) x + others x) \<and>
      slots (p_fd s) x + others x \<le> 32767 \<and>
      (x \<in> set (filehead s) \<longleftrightarrow> 0 < slots (p_fd s) x + others x \<or> x \<in> insert fp (snd k)) \<and>
      (x \<in> insert fp (snd k) \<longrightarrow> slots (p_fd s) x + others x = 0)" for x
    using R(1,2,3) [of x] R(6) [of x] assms(2) by (cases "x = fp") (auto simp: one_more_apply)
  then show "refs_ok others (fst k, insert fp (snd k)) (put_file fp ((file_at s fp)\<lparr>f_count := 0\<rparr>) s)"
    using R(4,5) by (simp add: refs_ok_def)
qed

lemma ffree_last:
  assumes "refs_ok others (n, insert fp D) s" and "fp \<notin> D"
  shows "refs_ok others (n, D) (ffree fp s)"
proof -
  note R = refs_okD [OF assms(1), simplified]
  have mem: "fp \<in> set (filehead s)"
    using R(3) [of fp] by simp
  have len: "int (length (remove1 fp (filehead s))) = int (length (filehead s)) - 1"
    using mem length_pos_if_in_set [OF mem] by (simp add: length_remove1 of_nat_diff Suc_leI del: length_greater_0_conv)
  have "f_count (file_at (ffree fp s) x) = int (slots (p_fd s) x + others x) \<and> slots (p_fd s) x + others x \<le> 32767 \<and>
      (x \<in> set (filehead (ffree fp s)) \<longleftrightarrow> 0 < slots (p_fd s) x + others x \<or> x \<in> D) \<and>
      (x \<in> D \<longrightarrow> slots (p_fd s) x + others x = 0)" for x
    using R(1,2,3) [of x] R(4) R(6) [of x] assms(2) by (cases "x = fp") (auto simp: ffree_def)
  then show ?thesis
    using R(4,5) len by (simp add: refs_ok_def ffree_def)
qed

text \<open>A close, whatever others do while it sleeps.\<close>

lemma closef_inv:
  assumes "polite sleep" and "fd_inv (one_more fp others) k s"
  shows "\<exists>s' e. closef sleep advlock close_error (Some fp) s = Some (s', e) \<and> fd_inv others k s' \<and> keeps (p_fd s) (p_fd s') \<and>
    (roomy s \<and> leaves_room sleep \<longrightarrow> roomy s')"
proof -
  define t where "t = (if advlock \<and> f_type (file_at s fp) = DTYPE_VNODE
    then sleep 5 (fd_call (unlock_process_locks fp) s) else s)"
  have t: "fd_inv (one_more fp others) k t" "keeps (p_fd s) (p_fd t)" "roomy s \<and> leaves_room sleep \<longrightarrow> roomy t"
    using politeD [OF assms(1), of _ k "fd_call (unlock_process_locks fp) s"] assms(2)
      leaves_roomD [of sleep _ k "fd_call (unlock_process_locks fp) s"] by (simp_all add: t_def)
  then have tidy: "fd_tidy (p_fd t)" and refs: "refs_ok (one_more fp others) k t"
    by (simp_all add: fd_inv_def)
  define u where "u = put_file fp ((file_at t fp)\<lparr>f_count := int (slots (p_fd t) fp + others fp)\<rparr>) t"
  have u: "frele fp t = Some u" "p_fd u = p_fd t" "f_count (file_at u fp) = int (slots (p_fd t) fp + others fp)"
    using frele_refs [OF refs] by (simp_all add: u_def)
  have "f_count (file_at t fp) = int (slots (p_fd t) fp + others fp) + 1"
    using refs_okD(1) [OF refs, of fp] by (simp add: one_more_apply)
  then have roomy_u: "roomy t \<longrightarrow> roomy u"
    unfolding roomy_def u_def by (auto dest: spec [of _ fp])
  define v where "v = (if f_flag (file_at u fp) AND FHASLOCK \<noteq> 0 \<and> f_type (file_at u fp) = DTYPE_VNODE
    then sleep 6 (fd_call (unlock_file_lock fp) u) else u)"
  define w where "w = (if f_ops (file_at v fp) then sleep 7 (fd_call (fo_close fp) v) else v)"
  have close: "closef sleep advlock close_error (Some fp) s =
      (if 0 < f_count (file_at u fp) then Some (u, None)
       else Some (ffree fp w, if f_ops (file_at v fp) then close_error fp else None))"
    using u(1) by (simp add: closef_def Let_def w_def v_def flip: t_def)
  show ?thesis
  proof (cases "slots (p_fd t) fp + others fp = 0")
    case False
    then have "fd_inv others k u"
      using frele_some_left [OF refs] tidy by (simp add: fd_inv_def u_def)
    then show ?thesis
      using close t(2,3) u(2,3) False roomy_u by simp
  next
    case True
    have "fd_inv others (fst k, insert fp (snd k)) u" and out: "fp \<notin> snd k"
      using frele_last [OF refs True] tidy True by (simp_all add: fd_inv_def u_def)
    then have v: "fd_inv others (fst k, insert fp (snd k)) v \<and> keeps (p_fd u) (p_fd v) \<and> (roomy u \<and> leaves_room sleep \<longrightarrow> roomy v)"
      using leaves_roomD [of sleep others "(fst k, insert fp (snd k))" "fd_call (unlock_file_lock fp) u" 6] politeD [OF assms(1), of others "(fst k, insert fp (snd k))" "fd_call (unlock_file_lock fp) u" 6] by (simp add: v_def)
    then have w: "fd_inv others (fst k, insert fp (snd k)) w \<and> keeps (p_fd v) (p_fd w) \<and> (roomy v \<and> leaves_room sleep \<longrightarrow> roomy w)"
      using leaves_roomD [of sleep others "(fst k, insert fp (snd k))" "fd_call (fo_close fp) v" 7] politeD [OF assms(1), of others "(fst k, insert fp (snd k))" "fd_call (fo_close fp) v" 7] by (simp add: w_def)
    then have "fd_inv others k (ffree fp w)"
      using ffree_last [of others "fst k" fp "snd k" w] out by (simp add: fd_inv_def)
    moreover have "keeps (p_fd s) (p_fd w)"
      using keeps_trans t(2) u(2) v w by metis
    ultimately show ?thesis
      using close u(3) True t(3) roomy_u v w by simp
  qed
qed

text \<open>Undisturbed, it leaves the table, which need not be in order.\<close>

lemma closef_refs:
  assumes "refs_ok (one_more fp others) k s"
  shows "\<exists>s' e. closef quiet advlock close_error (Some fp) s = Some (s', e) \<and> refs_ok others k s' \<and> p_fd s' = p_fd s"
proof -
  define t where "t = (if advlock \<and> f_type (file_at s fp) = DTYPE_VNODE then fd_call (unlock_process_locks fp) s else s)"
  define n where "n = slots (p_fd s) fp + others fp"
  define u where "u = put_file fp ((file_at t fp)\<lparr>f_count := int n\<rparr>) t"
  have t: "refs_ok (one_more fp others) k t" "p_fd t = p_fd s"
    using assms by (simp_all add: t_def)
  have u: "frele fp t = Some u" "p_fd u = p_fd s" "f_count (file_at u fp) = int n"
    using frele_refs [OF t(1)] t(2) by (simp_all add: u_def n_def)
  have "closef quiet advlock close_error (Some fp) s =
      (if 0 < n then Some (u, None)
       else let v = (if f_flag (file_at u fp) AND FHASLOCK \<noteq> 0 \<and> f_type (file_at u fp) = DTYPE_VNODE
                     then fd_call (unlock_file_lock fp) u else u);
                w = (if f_ops (file_at v fp) then fd_call (fo_close fp) v else v)
            in Some (ffree fp w, if f_ops (file_at v fp) then close_error fp else None))"
    using u(1,3) by (simp add: closef_def Let_def flip: t_def)
  moreover have "refs_ok others k u" if "0 < n"
    using frele_some_left [OF t(1)] that t(2) by (simp add: u_def n_def)
  moreover have "refs_ok others k (ffree fp u)" if "n = 0"
    using ffree_refs [OF t(1)] that t(2) by (simp add: u_def n_def)
  ultimately show ?thesis
    using u(2) by (simp add: Let_def ffree_call)
qed

section \<open>The table\<close>

lemma fd_tidyD:
  assumes "fd_tidy fdp"
  shows "length (fd_ofileflags fdp) = fd_nfiles fdp" and "fd_nfiles fdp \<le> 65536"
    and "i < fd_nfiles fdp \<Longrightarrow> fd_lastfile fdp < fd_nfiles fdp"
    and "i < fd_nfiles fdp \<Longrightarrow> fd_lastfile fdp < i \<Longrightarrow> unused fdp i"
  using assms by (auto simp: fd_tidy_def split: if_splits)

lemma fd_tidyI:
  assumes "length (fd_ofileflags fdp) = fd_nfiles fdp" and "fd_nfiles fdp \<le> 65536" and "fd_lastfile fdp < fd_nfiles fdp"
    and "\<And>j. j < fd_nfiles fdp \<Longrightarrow> fd_lastfile fdp < j \<Longrightarrow> unused fdp j"
  shows "fd_tidy fdp"
  using assms by (auto simp: fd_tidy_def)

lemma put_slot_fields [simp]:
  "fd_nfiles (put_slot i fpp flags fdp) = fd_nfiles fdp" "fd_lastfile (put_slot i fpp flags fdp) = fd_lastfile fdp"
  "fd_freefile (put_slot i fpp flags fdp) = fd_freefile fdp"
  "length (fd_ofileflags (put_slot i fpp flags fdp)) = length (fd_ofileflags fdp)"
  by (simp_all add: put_slot_def)

lemma put_slot_at:
  assumes "i < fd_nfiles fdp" and "length (fd_ofileflags fdp) = fd_nfiles fdp"
  shows "fd_ofiles (put_slot i fpp flags fdp) ! j = (if j = i then fpp else fd_ofiles fdp ! j)"
    and "fd_ofileflags (put_slot i fpp flags fdp) ! j = (if j = i then flags else fd_ofileflags fdp ! j)"
  using assms by (simp_all add: put_slot_def)

lemma put_slot_unused:
  assumes "i < fd_nfiles fdp" and "length (fd_ofileflags fdp) = fd_nfiles fdp"
  shows "unused (put_slot i fpp flags fdp) j \<longleftrightarrow>
    (if j = i then fpp = None \<and> flags AND UF_RESERVED = 0 else unused fdp j)"
    and "reserved (put_slot i fpp flags fdp) j \<longleftrightarrow> (if j = i then flags AND UF_RESERVED \<noteq> 0 else reserved fdp j)"
  using put_slot_at [OF assms] by (auto simp: unused_def reserved_def)

lemma put_slot_tidy:
  assumes "fd_tidy fdp" and "i < fd_nfiles fdp" and "i \<le> fd_lastfile fdp \<or> fpp = None \<and> flags AND UF_RESERVED = 0"
  shows "fd_tidy (put_slot i fpp flags fdp)"
  using assms put_slot_unused [OF assms(2) fd_tidyD(1) [OF assms(1)]] by (auto simp: fd_tidy_def split: if_splits)

lemma last_used_le: "last_used fdp i \<le> i"
  by (induction i) auto

lemma last_used_above: "last_used fdp i < j \<Longrightarrow> j \<le> i \<Longrightarrow> unused fdp j"
proof (induction i)
  case (Suc i)
  then show ?case
    by (cases "j = Suc i") (auto split: if_splits)
qed simp

lemma freefile_tidy [simp]: "fd_tidy (fdp\<lparr>fd_freefile := x\<rparr>) \<longleftrightarrow> fd_tidy fdp"
  unfolding fd_tidy_def unused_def reserved_def by simp

lemma lastfile_unused [simp]: "unused (fdp\<lparr>fd_lastfile := x\<rparr>) j \<longleftrightarrow> unused fdp j"
  by (simp add: unused_def reserved_def)

lemma trimmed_tidy:
  assumes "fd_tidy fdp"
  shows "fd_tidy (fdp\<lparr>fd_lastfile := last_used fdp (fd_lastfile fdp)\<rparr>)"
proof -
  have "unused fdp j" if "j < fd_nfiles fdp" "last_used fdp (fd_lastfile fdp) < j" for j
    using last_used_above [OF that(2)] fd_tidyD(4) [OF assms that(1)] by (cases "j \<le> fd_lastfile fdp") auto
  then show ?thesis
    using assms le_less_trans [OF last_used_le] last_used_le [of fdp "fd_lastfile fdp"] unfolding fd_tidy_def
    by (auto split: if_splits)
qed

lemma fdrelse_spec:
  assumes "fd_tidy (put_slot fd None 0 fdp)" and "fd < fd_nfiles fdp"
  shows "\<exists>fdp'. fdrelse fd fdp = Some fdp' \<and> fd_tidy fdp' \<and> fd_ofiles fdp' = (fd_ofiles fdp)[fd := None] \<and>
    fd_ofileflags fdp' = (fd_ofileflags fdp)[fd := 0] \<and> fd_freefile fdp' = min fd (fd_freefile fdp)"
proof -
  define free where "free = (if fd < fd_freefile fdp then fdp\<lparr>fd_freefile := u_short fd\<rparr> else fdp)"
  define put where "put = put_slot fd None 0 free"
  have small: "u_short fd = fd"
    using assms(2) fd_tidyD(2) [OF assms(1)] by (simp add: u_short_def)
  have "put = (put_slot fd None 0 fdp)\<lparr>fd_freefile := min fd (fd_freefile fdp)\<rparr>"
    using small by (simp add: put_def free_def put_slot_def min_def)
  then have put: "fd_tidy put" "fd_ofiles put = (fd_ofiles fdp)[fd := None]" "fd_freefile put = min fd (fd_freefile fdp)"
    "fd_ofileflags put = (fd_ofileflags fdp)[fd := 0]"
    using assms(1) by (simp_all add: put_slot_def)
  have "fdrelse fd fdp = Some (put\<lparr>fd_lastfile := last_used put (fd_lastfile put)\<rparr>)"
    using assms(2) fd_tidyD(3) [OF assms(1), of fd] by (simp add: fdrelse_def Let_def put_def free_def)
  then show ?thesis
    using trimmed_tidy [OF put(1)] put(2-4) by simp
qed

lemma cleared_tidy: "fd_tidy fdp \<Longrightarrow> fd < fd_nfiles fdp \<Longrightarrow> fd_tidy (put_slot fd None 0 fdp)"
  by (simp add: put_slot_tidy)

section \<open>Allocation\<close>

lemma find_upt:
  "find P [i..<j] = Some x \<Longrightarrow> i \<le> x \<and> x < j \<and> P x \<and> (\<forall>y. i \<le> y \<and> y < x \<longrightarrow> \<not> P y)"
  "find P [i..<j] = None \<Longrightarrow> i \<le> y \<Longrightarrow> y < j \<Longrightarrow> \<not> P y"
proof -
  assume "find P [i..<j] = Some x"
  then obtain n where n: "n < j - i" "P ([i..<j] ! n)" "x = [i..<j] ! n" "\<forall>m < n. \<not> P ([i..<j] ! m)"
    by (auto simp: find_Some_iff)
  have "\<not> P y" if "i \<le> y" "y < x" for y
    using n(1,3,4) that by (auto dest: spec [of _ "y - i"])
  then show "i \<le> x \<and> x < j \<and> P x \<and> (\<forall>y. i \<le> y \<and> y < x \<longrightarrow> \<not> P y)"
    using n by auto
next
  assume "find P [i..<j] = None" "i \<le> y" "y < j"
  then show "\<not> P y"
    by (simp add: find_None_iff)
qed

lemma reserve_fields [simp]:
  "fd_ofiles (reserve want i fdp) = fd_ofiles fdp" "fd_ofileflags (reserve want i fdp) = (fd_ofileflags fdp)[i := UF_RESERVED]"
  by (simp_all add: reserve_def)

lemma reserve_reserved:
  "length (fd_ofileflags fdp) = fd_nfiles fdp \<Longrightarrow> i < fd_nfiles fdp \<Longrightarrow>
    reserved (reserve want i fdp) j \<longleftrightarrow> j = i \<or> reserved fdp j"
  by (auto simp: reserved_def nth_list_update)

lemma reserve_spec:
  assumes "fd_tidy fdp" and "i < fd_nfiles fdp" and "unused fdp i"
  shows "fd_tidy (reserve want i fdp)" and "pending (reserve want i fdp) i" and "keeps fdp (reserve want i fdp)"
    and "\<not> pending fdp i"
proof -
  note T = fd_tidyD [OF assms(1)] and R = reserve_reserved [OF fd_tidyD(1) [OF assms(1)] assms(2), of want]
  have "u_short i = i"
    using T(2) assms(2) by (simp add: u_short_def)
  then have last: "fd_lastfile (reserve want i fdp) = max i (fd_lastfile fdp)"
    by (simp add: reserve_def max_def)
  have "unused (reserve want i fdp) j" if "j < fd_nfiles fdp" "max i (fd_lastfile fdp) < j" for j
    using T(4) [OF that(1)] that(2) R by (simp add: unused_def)
  then show "fd_tidy (reserve want i fdp)"
    using assms(1,2) T(3) [OF assms(2)] last unfolding fd_tidy_def by auto
  show "pending (reserve want i fdp) i" "\<not> pending fdp i"
    using assms(2,3) R by (simp_all add: pending_def unused_def)
  show "keeps fdp (reserve want i fdp)"
    by (rule keepsI) (use R in \<open>simp_all add: slots_def\<close>)
qed

lemma extend_at:
  "length (fd_ofileflags fdp) = fd_nfiles fdp \<Longrightarrow> j < n \<Longrightarrow>
    unused (grow_files n fdp) j \<longleftrightarrow> (j < fd_nfiles fdp \<longrightarrow> unused fdp j)"
  "length (fd_ofileflags fdp) = fd_nfiles fdp \<Longrightarrow> j < fd_nfiles fdp \<Longrightarrow> reserved (grow_files n fdp) j \<longleftrightarrow> reserved fdp j"
  "j < fd_nfiles fdp \<Longrightarrow> fd_ofiles (grow_files n fdp) ! j = fd_ofiles fdp ! j"
  by (auto simp: grow_files_def unused_def reserved_def nth_append)

lemma extend_fields [simp]:
  "fd_nfiles fdp \<le> n \<Longrightarrow> fd_nfiles (grow_files n fdp) = n" "fd_lastfile (grow_files n fdp) = fd_lastfile fdp"
  "fd_freefile (grow_files n fdp) = fd_freefile fdp" "slots (grow_files n fdp) = slots fdp"
  by (simp_all add: grow_files_def slots_def fun_eq_iff count_list_0_iff)

lemma extend_spec:
  assumes "fd_tidy fdp" and "fd_nfiles fdp < n" and "n \<le> 65536"
  shows "fd_tidy (grow_files n fdp)" and "keeps fdp (grow_files n fdp)"
proof -
  note T = fd_tidyD [OF assms(1)]
  have last: "fd_lastfile fdp < n"
    using assms(1,2) by (auto simp: fd_tidy_def split: if_splits)
  have "unused (grow_files n fdp) j" if "j < n" "fd_lastfile fdp < j" for j
    using extend_at(1) [OF T(1) that(1)] T(4) that(2) by blast
  moreover have "length (fd_ofileflags (grow_files n fdp)) = n" "fd_nfiles (grow_files n fdp) = n"
    using T(1) assms(2) by (simp_all add: grow_files_def)
  ultimately show "fd_tidy (grow_files n fdp)"
    using assms(2,3) last unfolding fd_tidy_def by simp
  show "keeps fdp (grow_files n fdp)"
    by (rule keepsI) (use assms(2) extend_at(2,3) T(1) in simp_all)
qed

lemma fd_inv_table:
  "fd_inv others k s \<Longrightarrow> fd_tidy fdp \<Longrightarrow> (\<And>x. slots fdp x = slots (p_fd s) x) \<Longrightarrow> fd_inv others k (s\<lparr>p_fd := fdp\<rparr>)"
  by (simp add: fd_inv_def refs_ok_def)

lemma fdalloc_inv:
  assumes "polite sleep" and "lim \<le> 65536"
  shows "fd_inv others k s \<Longrightarrow> fdalloc fuel sleep lim want s = Some (s', r) \<Longrightarrow>
    fd_inv others k s' \<and> keeps (p_fd s) (p_fd s') \<and>
    (\<forall>i. r = Inr i \<longrightarrow> pending (p_fd s') i \<and> \<not> pending (p_fd s) i \<and> want \<le> i \<and> i < lim)"
proof (induction fuel arbitrary: s)
  case (Suc fuel)
  note tidy = Suc.prems(1) [unfolded fd_inv_def, THEN conjunct1]
  define start where "start = (if want < fd_freefile (p_fd s) then fd_freefile (p_fd s) else want)"
  define n where "n = (let n = (if fd_nfiles (p_fd s) < NDEXTENT then NDEXTENT else 2 * fd_nfiles (p_fd s))
    in if lim < n then lim else n)"
  define t where "t = sleep fuel s"
  have t: "fd_inv others k t" "keeps (p_fd s) (p_fd t)"
    using politeD [OF assms(1) Suc.prems(1)] by (simp_all add: t_def)
  have n: "n \<le> 65536"
    using assms(2) by (simp add: n_def Let_def)
  show ?case
  proof (cases "find (unused (p_fd s)) [start..<min (fd_nfiles (p_fd s)) lim]")
    case (Some i)
    then have i: "start \<le> i" "i < fd_nfiles (p_fd s)" "i < lim" "unused (p_fd s) i"
      using find_upt(1) [OF Some] by simp_all
    have "s' = s\<lparr>p_fd := reserve want i (p_fd s)\<rparr>" "r = Inr i"
      using Suc.prems(2) Some by (auto simp: Let_def start_def)
    then show ?thesis
      using reserve_spec(1-3) [OF tidy i(2,4), of want] reserve_spec(4) [OF tidy i(2,4)] i(1,3) Suc.prems(1)
      by (auto simp: start_def slots_def intro!: fd_inv_table split: if_splits)
  next
    case None
    consider "lim \<le> fd_nfiles (p_fd s)" | "fd_nfiles (p_fd s) < lim" "n \<le> fd_nfiles (p_fd t)"
      | "fd_nfiles (p_fd s) < lim" "fd_nfiles (p_fd t) < n"
      by linarith
    then show ?thesis
    proof cases
      case 1
      then show ?thesis
        using Suc.prems None by (auto simp: Let_def start_def)
    next
      case 2
      then have "fdalloc fuel sleep lim want t = Some (s', r)"
        using Suc.prems(2) None by (simp add: Let_def start_def n_def t_def split: if_splits)
      from Suc.IH [OF t(1) this] show ?thesis
        using keeps_trans [OF t(2)] keepsD(2) [OF t(2)] by fastforce
    next
      case 3
      then have res: "fdalloc fuel sleep lim want (t\<lparr>p_fd := grow_files n (p_fd t)\<rparr>) = Some (s', r)"
        using Suc.prems(2) None by (simp add: Let_def start_def n_def t_def split: if_splits)
      note ext = extend_spec [OF t(1) [unfolded fd_inv_def, THEN conjunct1] 3(2) n]
      have "fd_inv others k (t\<lparr>p_fd := grow_files n (p_fd t)\<rparr>)"
        by (rule fd_inv_table [OF t(1) ext(1)]) simp
      from Suc.IH [OF this res] show ?thesis
        using keeps_trans [OF keeps_trans [OF t(2) ext(2)]] keepsD(2) [OF keeps_trans [OF t(2) ext(2)]] by fastforce
    qed
  qed
qed simp

section \<open>Duplication and closing\<close>

text \<open>A table that is in order but for one reserved descriptor, which may lie above the high-water mark.\<close>

definition tidy_but :: "nat \<Rightarrow> filedesc \<Rightarrow> bool" where
  "tidy_but i fdp \<longleftrightarrow> fd_tidy (put_slot i None 0 fdp)"

lemma filled_tidy:
  assumes "tidy_but i fdp" and "i < fd_nfiles fdp"
  shows "fd_tidy ((put_slot i fpp flags fdp)\<lparr>fd_lastfile := max i (fd_lastfile fdp)\<rparr>)"
proof -
  note T = fd_tidyD [OF assms(1) [unfolded tidy_but_def], simplified]
  have "unused (put_slot i fpp flags fdp) j" if "j < fd_nfiles fdp" "i < j" "fd_lastfile fdp < j" for j
    using T(4) [OF that(1,3)] that(2) put_slot_unused(1) [OF assms(2) T(1)] by simp
  then show ?thesis
    using T(1,2) T(3) [OF assms(2)] assms(2) by (intro fd_tidyI) simp_all
qed

lemma fd_file_at_update [simp]: "file_at (s\<lparr>p_fd := fdp\<rparr>) = file_at s"
  by simp

lemma fref_table:
  "fref fp (s\<lparr>p_fd := fdp\<rparr>) = map_option (\<lambda>t. t\<lparr>p_fd := fdp\<rparr>) (fref fp s)"
  by (simp add: fref_def Let_def put_file_def)

lemma finishdup_inv:
  assumes "tidy_but new (p_fd s)" and "refs_ok others k s" and "new < fd_nfiles (p_fd s)"
    and "fd_ofiles (p_fd s) ! new = None" and "finishdup old new s = Some (s', r)"
  shows "fd_inv others k s'" and "fd_nfiles (p_fd s') = fd_nfiles (p_fd s)"
    and "holds (p_fd s) j fpp \<Longrightarrow> j \<noteq> new \<Longrightarrow> holds (p_fd s') j fpp"
proof -
  let ?fdp = "p_fd s"
  obtain free where free: "fdrelse new ?fdp = Some free" "fd_tidy free" "fd_ofiles free = (fd_ofiles ?fdp)[new := None]"
    "fd_ofileflags free = (fd_ofileflags ?fdp)[new := 0]"
    using fdrelse_spec [OF assms(1) [unfolded tidy_but_def] assms(3)] by blast
  have old: "old < fd_nfiles ?fdp"
    using assms(5) by (auto simp: finishdup_def Let_def split: if_splits)
  have fail: "fd_inv others k s' \<and> fd_nfiles (p_fd s') = fd_nfiles ?fdp \<and>
      (holds ?fdp j fpp \<and> j \<noteq> new \<longrightarrow> holds (p_fd s') j fpp)" if "s' = s\<lparr>p_fd := free\<rparr>"
    using that free assms(2,4) list_update_id [of "fd_ofiles ?fdp" new]
    by (simp add: fd_inv_def refs_ok_def slots_def holds_def reserved_def)
  have good: "fd_inv others k s' \<and> fd_nfiles (p_fd s') = fd_nfiles ?fdp \<and>
      (holds ?fdp j fpp \<and> j \<noteq> new \<longrightarrow> holds (p_fd s') j fpp)"
    if fp: "fd_ofiles ?fdp ! old = Some fp" "\<not> reserved ?fdp old" for fp
  proof -
    define flags where "flags = fd_ofileflags ?fdp ! old AND NOT UF_EXCLOSE"
    have "new \<le> fd_lastfile ?fdp \<or> u_short new = new"
      using assms(3) fd_tidyD(2) [OF assms(1) [unfolded tidy_but_def]] by (simp add: u_short_def)
    moreover obtain t where t: "fref fp s = Some t"
      "s' = t\<lparr>p_fd := (let fdp = put_slot new (Some fp) flags ?fdp in
        if fd_lastfile ?fdp < new then fdp\<lparr>fd_lastfile := u_short new\<rparr> else fdp)\<rparr>"
      using assms(3,5) old fp
      by (auto simp: finishdup_def Let_def fref_table flags_def bind_eq_Some_conv split: if_splits)
    ultimately have s': "s' = t\<lparr>p_fd := (put_slot new (Some fp) flags ?fdp)\<lparr>fd_lastfile := max new (fd_lastfile ?fdp)\<rparr>\<rparr>"
      by (auto simp: Let_def max_def not_less)
    have "0 < slots ?fdp fp + others fp"
      using slot_positive [OF old fp(1)] by simp
    then have r: "refs_ok (one_more fp others) k t" "p_fd t = ?fdp"
      using fref_refs(2) [OF assms(2) _ t(1)] by simp_all
    have "refs_ok others k (t\<lparr>p_fd := put_slot new (Some fp) flags ?fdp\<rparr>)"
      using refs_filled [OF r(1), of new flags] assms(3,4) r(2) by simp
    then have "refs_ok others k s'"
      by (rule refs_cong) (simp_all add: s')
    moreover have "holds (p_fd s') j fpp" if "holds ?fdp j fpp" "j \<noteq> new"
    proof -
      have "fpp \<noteq> Some fp"
        using held_alone [OF _ old, of j fp] that(1) fp by (auto simp: holds_def)
      then show ?thesis
        using holds_put [OF that assms(3), of "Some fp" flags] by (auto simp: s')
    qed
    ultimately show ?thesis
      using filled_tidy [OF assms(1,3)] by (simp add: fd_inv_def s')
  qed
  have "fd_inv others k s' \<and> fd_nfiles (p_fd s') = fd_nfiles ?fdp \<and>
      (holds ?fdp j fpp \<and> j \<noteq> new \<longrightarrow> holds (p_fd s') j fpp)"
  proof (cases "fd_ofiles ?fdp ! old = None \<or> reserved ?fdp old")
    case True
    then have "s' = s\<lparr>p_fd := free\<rparr>"
      using assms(3,5) old free(1) by (auto simp: finishdup_def Let_def split: option.splits)
    then show ?thesis
      by (rule fail)
  next
    case False
    then show ?thesis
      using good by (cases "fd_ofiles ?fdp ! old") auto
  qed
  then show "fd_inv others k s'" "fd_nfiles (p_fd s') = fd_nfiles ?fdp"
    "holds ?fdp j fpp \<Longrightarrow> j \<noteq> new \<Longrightarrow> holds (p_fd s') j fpp"
    by blast+
qed

end
