(* ===== verification/Fd_Ops.thy ===== *)
theory Fd_Ops
  imports Fd_Inv
begin

text \<open>
  The system calls on descriptors keep the invariant whatever other threads do while they sleep, as long as the
  others keep it as well.
\<close>

section \<open>Every operation keeps the invariant\<close>

lemma fd_invD: "fd_inv others k s \<Longrightarrow> fd_tidy (p_fd s)" "fd_inv others k s \<Longrightarrow> refs_ok others k s"
  by (simp_all add: fd_inv_def)

lemma tidy_tidy_but: "fd_tidy fdp \<Longrightarrow> i < fd_nfiles fdp \<Longrightarrow> tidy_but i fdp"
  unfolding tidy_but_def by (rule cleared_tidy)

lemma pendingD:
  "pending fdp i \<Longrightarrow> i < fd_nfiles fdp" "pending fdp i \<Longrightarrow> fd_ofiles fdp ! i = None" "pending fdp i \<Longrightarrow> reserved fdp i"
  by (simp_all add: pending_def)

lemma finishdup_pending:
  assumes "fd_inv others k s" and "pending (p_fd s) new" and "finishdup old new s = Some (s', r)"
    and "\<not> pending fdp new" and "keeps fdp (p_fd s)"
  shows "fd_inv others k s' \<and> keeps fdp (p_fd s')"
proof -
  note F = finishdup_inv [OF tidy_tidy_but [OF fd_invD(1) [OF assms(1)] pendingD(1) [OF assms(2)]]
      fd_invD(2) [OF assms(1)] pendingD(1,2) [OF assms(2)] assms(3)]
  have "holds (p_fd s') j fpp" if "holds fdp j fpp" for j fpp
  proof -
    have "j \<noteq> new"
      using keepsD(1) [OF assms(5) that] that assms(2,4) by (auto simp: holds_def pending_def)
    then show ?thesis
      by (rule F(3) [OF keepsD(1) [OF assms(5) that]])
  qed
  then show ?thesis
    using F(1,2) keeps_files [OF assms(5)] by (simp add: keeps_def)
qed

lemma fdalloc_finishdup_inv:
  assumes "polite sleep" and "lim \<le> 65536" and "fd_inv others k s"
    and "do {
        (s, r) \<leftarrow> fdalloc fuel sleep lim want s;
        (case r of Inl e \<Rightarrow> Some (s, Inl e) | Inr new \<Rightarrow> finishdup old new s)
      } = Some (s', r)"
  shows "fd_inv others k s' \<and> keeps (p_fd s) (p_fd s')"
proof -
  obtain t q where t: "fdalloc fuel sleep lim want s = Some (t, q)"
    "(case q of Inl e \<Rightarrow> Some (t, Inl e) | Inr new \<Rightarrow> finishdup old new t) = Some (s', r)"
    using assms(4) by (auto simp: bind_eq_Some_conv split: prod.splits)
  note A = fdalloc_inv [OF assms(1-3) t(1)]
  show ?thesis
  proof (cases q)
    case (Inr new)
    then show ?thesis
      using finishdup_pending [of others k t new old s' r "p_fd s"] A t(2) by simp
  qed (use A t(2) in auto)
qed

lemma emptied_refs:
  assumes "fd_inv others k s" and "i < fd_nfiles (p_fd s)" and "fd_ofiles (p_fd s) ! i = Some fp"
    and "fd_ofiles fdp = (fd_ofiles (p_fd s))[i := None]"
  shows "refs_ok (one_more fp others) k (s\<lparr>p_fd := fdp\<rparr>)"
proof -
  have "refs_ok (one_more fp others) k (s\<lparr>p_fd := put_slot i None 0 (p_fd s)\<rparr>)"
    by (rule refs_emptied [OF fd_invD(2) [OF assms(1)] assms(2,3)])
  then show ?thesis
    by (rule refs_cong) (simp_all add: assms(4) put_slot_def)
qed

lemma closef_emptied:
  assumes "polite sleep" and "fd_inv others k s" and "i < fd_nfiles (p_fd s)" and "fd_ofiles (p_fd s) ! i = Some fp"
    and "fd_tidy fdp" and "fd_ofiles fdp = (fd_ofiles (p_fd s))[i := None]"
  shows "\<exists>s' e. closef sleep advlock close_error (Some fp) (s\<lparr>p_fd := fdp\<rparr>) = Some (s', e) \<and>
    fd_inv others k s' \<and> keeps fdp (p_fd s') \<and> (roomy s \<and> leaves_room sleep \<longrightarrow> roomy s')"
  using closef_inv [OF assms(1), of fp others k "s\<lparr>p_fd := fdp\<rparr>" advlock close_error] emptied_refs [OF assms(2-4,6)]
    assms(5) by (simp add: fd_inv_def)

lemma not_pending_unreserved: "\<not> reserved fdp i \<Longrightarrow> \<not> pending fdp i"
  by (simp add: pending_def)

text \<open>What empties an unreserved descriptor disturbs nobody.\<close>

lemma keeps_cleared:
  assumes "fd_ofiles fdp' = (fd_ofiles fdp)[i := None]" and "\<not> reserved fdp i" and "i < fd_nfiles fdp"
    and "\<And>j. j \<noteq> i \<Longrightarrow> j < fd_nfiles fdp \<Longrightarrow> reserved fdp' j = reserved fdp j"
  shows "keeps fdp fdp'"
proof (rule keepsI)
  show "slots fdp' x \<le> slots fdp x" for x
    using slots_put [OF assms(3), of None 0 x] assms(1) by (simp add: slots_def put_slot_def)
  show "reserved fdp' j \<and> fd_ofiles fdp' ! j = fd_ofiles fdp ! j" if "j < fd_nfiles fdp" "reserved fdp j" for j
    using that assms(1,2) assms(4) [of j] by (cases "j = i") simp_all
qed (simp add: assms(1))

lemma fdgetf_Some:
  "fdgetf fdp fd = Some fp \<longleftrightarrow> fd < fd_nfiles fdp \<and> \<not> reserved fdp fd \<and> fd_ofiles fdp ! fd = Some fp"
  by (auto simp: fdgetf_def)

lemma reserved_flags [simp]: "(flags OR UF_RESERVED) AND UF_RESERVED \<noteq> 0"
proof
  assume "(flags OR UF_RESERVED) AND UF_RESERVED = 0"
  then have "bit ((flags OR UF_RESERVED) AND UF_RESERVED) 2 = bit (0 :: u8) 2"
    by simp
  then show False
    by (simp add: bit_simps)
qed

lemma dup2_closeit_inv:
  assumes "polite sleep" and "fd_inv others k s" and "dup2_closeit sleep advlock close_error old new s = Some (s', r)"
  shows "fd_inv others k s' \<and> keeps (p_fd s) (p_fd s')"
proof -
  let ?fdp = "p_fd s"
  note tidy = fd_invD(1) [OF assms(2)] and refs = fd_invD(2) [OF assms(2)]
  define flags where "flags = (fd_ofileflags ?fdp ! new AND NOT UF_MAPPED) OR UF_RESERVED"
  define put where "put = put_slot new None flags ?fdp"
  have new: "new < fd_nfiles ?fdp"
    using assms(3) by (auto simp: dup2_closeit_def Let_def split: if_splits)
  note T = fd_tidyD [OF tidy]
  have "flags AND UF_RESERVED \<noteq> 0"
    unfolding flags_def by (rule reserved_flags)
  then have put: "fd_nfiles put = fd_nfiles ?fdp" "pending put new" "fd_ofiles put = (fd_ofiles ?fdp)[new := None]"
    using put_slot_unused(2) [OF new T(1)] put_slot_at(1) [OF new T(1)] new
    by (simp_all add: put_def pending_def) (simp add: put_slot_def)
  have keeps_put: "keeps ?fdp put" if "\<not> reserved ?fdp new"
    by (rule keeps_cleared [OF put(3) that new]) (use put_slot_unused(2) [OF new T(1)] in \<open>simp add: put_def\<close>)
  show ?thesis
  proof (cases "reserved ?fdp new")
    case True
    then show ?thesis
      using assms(2,3) new by (auto simp: dup2_closeit_def Let_def)
  next
    case False
    note notp = not_pending_unreserved [OF False] and keeps_put = keeps_put [OF False]
    show ?thesis
    proof (cases "fd_ofiles ?fdp ! new")
      case None
      have fin: "finishdup old new (s\<lparr>p_fd := put\<rparr>) = Some (s', r)"
        using assms(3) False None new by (simp add: dup2_closeit_def Let_def closef_def put_def flags_def)
      have "put_slot new None 0 put = put_slot new None 0 ?fdp"
        by (simp add: put_def put_slot_def)
      then have "tidy_but new put"
        using cleared_tidy [OF tidy new] by (simp add: tidy_but_def)
      moreover have "refs_ok others k (s\<lparr>p_fd := put\<rparr>)"
        unfolding put_def by (rule refs_none [OF refs new None])
      ultimately have "fd_inv others k s'" "fd_nfiles (p_fd s') = fd_nfiles ?fdp"
        "holds put j fpp \<Longrightarrow> j \<noteq> new \<Longrightarrow> holds (p_fd s') j fpp" for j fpp
        using finishdup_inv [of new "s\<lparr>p_fd := put\<rparr>" others k old s' r] fin put(1) pendingD(1,2) [OF put(2)] by auto
      moreover have "j \<noteq> new" if "holds ?fdp j fpp" for j fpp
        using that False by (auto simp: holds_def)
      ultimately show ?thesis
        using keepsD(1) [OF keeps_put] by (simp add: keeps_def)
    next
      case (Some fp)
      have last: "new \<le> fd_lastfile ?fdp"
        using T(4) [OF new] Some by (fastforce simp: unused_def not_le)
      have "fd_tidy put"
        unfolding put_def by (rule put_slot_tidy [OF tidy new]) (use last in simp)
      then obtain t e where t: "closef sleep advlock close_error (Some fp) (s\<lparr>p_fd := put\<rparr>) = Some (t, e)"
        "fd_inv others k t" "keeps put (p_fd t)"
        using closef_emptied [OF assms(1,2) new Some _ put(3)] by blast
      then have "finishdup old new t = Some (s', r)"
        using assms(3) False Some new by (simp add: dup2_closeit_def Let_def put_def flags_def)
      then show ?thesis
        by (rule finishdup_pending [OF t(2) keepsD(2) [OF t(3) put(2)] _ notp keeps_trans [OF keeps_put t(3)]])
    qed
  qed
qed

lemma dup2_inv:
  assumes "polite sleep" and "lim \<le> 65536" and "fd_inv others k s"
    and "dup2 fuel sleep advlock close_error lim old new s = Some (s', r)"
  shows "fd_inv others k s' \<and> keeps (p_fd s) (p_fd s')"
proof -
  consider (same) "s' = s" | (closeit) "dup2_closeit sleep advlock close_error old new s = Some (s', r)"
    | (alloc) t q where "fdalloc fuel sleep lim new s = Some (t, q)" "(case q of
          Inl e \<Rightarrow> Some (t, Inl e)
        | Inr i \<Rightarrow> if new \<noteq> i then do {
              fdp \<leftarrow> fdrelse i (p_fd t);
              dup2_closeit sleep advlock close_error old new (t\<lparr>p_fd := fdp\<rparr>)
            } else finishdup old new t) = Some (s', r)"
    using assms(4) by (auto simp: dup2_def bind_eq_Some_conv split: if_splits prod.splits)
  then show ?thesis
  proof cases
    case closeit
    then show ?thesis
      by (rule dup2_closeit_inv [OF assms(1,3)])
  next
    case alloc
    note A = fdalloc_inv [OF assms(1-3) alloc(1)]
    consider e where "q = Inl e" | "q = Inr new" | i where "q = Inr i" "new \<noteq> i"
      by (cases q) auto
    then show ?thesis
    proof cases
      case 1
      then show ?thesis
        using A alloc(2) by auto
    next
      case 2
      then show ?thesis
        using A alloc(2) finishdup_pending [of others k t new old s' r "p_fd s"] by simp
    next
      case 3
      then have i: "fd_inv others k t" "keeps (p_fd s) (p_fd t)" "pending (p_fd t) i" "\<not> pending (p_fd s) i"
        using A by simp_all
      obtain free where free: "fdrelse i (p_fd t) = Some free" "fd_tidy free"
        "fd_ofiles free = (fd_ofiles (p_fd t))[i := None]" "fd_ofileflags free = (fd_ofileflags (p_fd t))[i := 0]"
        using fdrelse_spec [OF cleared_tidy [OF fd_invD(1) [OF i(1)] pendingD(1) [OF i(3)]] pendingD(1) [OF i(3)]]
        by blast
      have same: "fd_ofiles free = fd_ofiles (p_fd t)"
        using free(3) pendingD(2) [OF i(3)] list_update_id [of "fd_ofiles (p_fd t)" i] by simp
      then have inv: "fd_inv others k (t\<lparr>p_fd := free\<rparr>)"
        using fd_inv_table [OF i(1) free(2)] by (simp add: slots_def)
      have "holds free j fpp" if "holds (p_fd s) j fpp" for j fpp
      proof -
        have h: "holds (p_fd t) j fpp"
          by (rule keepsD(1) [OF i(2) that])
        then have "j \<noteq> i"
          using that i(3,4) by (auto simp: holds_def pending_def)
        then show ?thesis
          using h same free(4) by (simp add: holds_def reserved_def slots_def)
      qed
      then have "keeps (p_fd s) free"
        using keeps_files [OF i(2)] same by (simp add: keeps_def)
      moreover have "dup2_closeit sleep advlock close_error old new (t\<lparr>p_fd := free\<rparr>) = Some (s', r)"
        using alloc(2) 3 free(1) by simp
      ultimately show ?thesis
        using dup2_closeit_inv [OF assms(1) inv] keeps_trans by auto
    qed
  qed (use assms(3) in simp)
qed

lemma close_fd_inv:
  assumes "polite sleep" and "fd_inv others k s"
  shows "\<exists>s' e. close_fd sleep advlock close_error fd s = Some (s', e) \<and> fd_inv others k s' \<and> keeps (p_fd s) (p_fd s') \<and>
    (roomy s \<and> leaves_room sleep \<longrightarrow> roomy s')"
proof (cases "fdgetf (p_fd s) fd")
  case None
  then show ?thesis
    using assms by (simp add: close_fd_def)
next
  case (Some fp)
  then have fd: "fd < fd_nfiles (p_fd s)" "\<not> reserved (p_fd s) fd" "fd_ofiles (p_fd s) ! fd = Some fp"
    by (simp_all add: fdgetf_Some)
  obtain free where free: "fdrelse fd (p_fd s) = Some free" "fd_tidy free" "fd_ofiles free = (fd_ofiles (p_fd s))[fd := None]"
    "fd_ofileflags free = (fd_ofileflags (p_fd s))[fd := 0]"
    using fdrelse_spec [OF cleared_tidy [OF fd_invD(1) [OF assms(2)] fd(1)] fd(1)] by blast
  obtain s' e where C: "closef sleep advlock close_error (Some fp) (s\<lparr>p_fd := free\<rparr>) = Some (s', e)" "fd_inv others k s'"
    "keeps free (p_fd s')" "roomy s \<and> leaves_room sleep \<longrightarrow> roomy s'"
    using closef_emptied [OF assms fd(1,3) free(2,3)] by blast
  have "keeps (p_fd s) free"
    by (rule keeps_cleared [OF free(3) fd(2,1)]) (simp add: free(4) reserved_def)
  then show ?thesis
    using C Some free(1) keeps_trans by (auto simp: close_fd_def)
qed

lemma ofiles_put: "fdp\<lparr>fd_ofiles := (fd_ofiles fdp)[i := fpp]\<rparr> = put_slot i fpp (fd_ofileflags fdp ! i) fdp"
  by (simp add: put_slot_def)

lemma flags_put: "fdp\<lparr>fd_ofileflags := (fd_ofileflags fdp)[i := flags]\<rparr> = put_slot i (fd_ofiles fdp ! i) flags fdp"
  by (simp add: put_slot_def)

lemma insert_after_set: "fq \<in> set xs \<Longrightarrow> set (insert_after fq fp xs) = insert fp (set xs)"
  "distinct xs \<Longrightarrow> fp \<notin> set xs \<Longrightarrow> fq \<in> set xs \<Longrightarrow> distinct (insert_after fq fp xs)"
  "fq \<in> set xs \<Longrightarrow> length (insert_after fq fp xs) = Suc (length xs)"
proof -
  show set: "fq \<in> set xs \<Longrightarrow> set (insert_after fq fp xs) = insert fp (set xs)" for xs
    by (induction xs) auto
  show "distinct xs \<Longrightarrow> fp \<notin> set xs \<Longrightarrow> fq \<in> set xs \<Longrightarrow> distinct (insert_after fq fp xs)"
    by (induction xs) (auto simp: set)
  show "fq \<in> set xs \<Longrightarrow> length (insert_after fq fp xs) = Suc (length xs)"
    by (induction xs) auto
qed

text \<open>The address of a new file is not that of an open one.\<close>

definition fresh_files :: "(fd_state \<Rightarrow> nat) \<Rightarrow> bool" where
  "fresh_files new_file \<longleftrightarrow> (\<forall>s. new_file s \<notin> set (filehead s))"

lemma new_file_refs:
  assumes "refs_ok others (fst k + 1, snd k) s" and "fp \<notin> set (filehead s)"
    and "head = (case fd_ofiles (p_fd s) ! 0 of None \<Rightarrow> fp # filehead s | Some fq \<Rightarrow> insert_after fq fp (filehead s))"
    and "0 < fd_nfiles (p_fd s)" and "f_count f = 1"
  shows "refs_ok (one_more fp others) k (put_file fp f (s\<lparr>filehead := head\<rparr>))"
proof -
  note R = refs_okD [OF assms(1)]
  have zero: "slots (p_fd s) fp + others fp = 0"
    using R(3) assms(2) by simp
  have head: "set head = insert fp (set (filehead s)) \<and> distinct head \<and> length head = Suc (length (filehead s))"
  proof (cases "fd_ofiles (p_fd s) ! 0")
    case None
    then show ?thesis
      using assms(2,3) R(4) by simp
  next
    case (Some fq)
    then have "fq \<in> set (filehead s)"
      using R(3) [of fq] slot_positive [OF assms(4) Some] by simp
    then show ?thesis
      using insert_after_set assms(2,3) R(4) Some by simp
  qed
  have "f_count (((file_at s)(fp := f)) x) = int (slots (p_fd s) x + one_more fp others x) \<and>
      slots (p_fd s) x + one_more fp others x \<le> 32767 \<and> 
      (x \<in> set head \<longleftrightarrow> 0 < slots (p_fd s) x + one_more fp others x \<or> x \<in> snd k) \<and>
      (x \<in> snd k \<longrightarrow> slots (p_fd s) x + one_more fp others x = 0)" for x
    using R(1,2,3) [of x] R(6) [of x] R(3) [of fp] assms(2) zero head assms(5) by (cases "x = fp") (auto simp: one_more_apply)
  then show ?thesis
    using R(5) head by (simp add: refs_ok_def)
qed

lemma falloc_inv:
  assumes "polite sleep" and "lim \<le> 65536" and "fresh_files new_file" and "fd_inv others k s"
    and "falloc fuel sleep new_file lim maxfiles s = Some (s', r)"
  shows "fd_inv others k s' \<and> keeps (p_fd s) (p_fd s') \<and>
    (\<forall>fp i. r = Inr (fp, i) \<longrightarrow> holds (p_fd s') i (Some fp) \<and> others fp = 0 \<and> (\<forall>fpp. \<not> holds (p_fd s) i fpp))"
proof -
  obtain t q where t: "fdalloc fuel sleep lim 0 s = Some (t, q)"
    using assms(5) by (auto simp: falloc_def bind_eq_Some_conv)
  note A = fdalloc_inv [OF assms(1,2,4) t]
  consider e where "s' = t" "r = Inl e" | i where "q = Inr i" "nfiles t < maxfiles"
    using assms(5) t by (cases q) (auto simp: falloc_def split: if_splits)
  then show ?thesis
  proof cases
    case 2
    then have i: "pending (p_fd t) i" "\<not> pending (p_fd s) i"
      using A by simp_all
    define u where "u = sleep 0 (t\<lparr>nfiles := nfiles t + 1\<rparr>)"
    have "fd_inv others (fst k + 1, snd k) (t\<lparr>nfiles := nfiles t + 1\<rparr>)"
      using A by (simp add: fd_inv_def refs_ok_def)
    from politeD [OF assms(1) this, of 0] have u: "fd_inv others (fst k + 1, snd k) u" "keeps (p_fd t) (p_fd u)"
      by (simp_all add: u_def)
    have iu: "pending (p_fd u) i"
      by (rule keepsD(2) [OF u(2) i(1)])
    define fp where "fp = new_file u"
    define head where
      "head = (case fd_ofiles (p_fd u) ! 0 of None \<Rightarrow> fp # filehead u | Some fq \<Rightarrow> insert_after fq fp (filehead u))"
    define v where "v = put_file fp (blank_file\<lparr>f_count := 1\<rparr>) (u\<lparr>filehead := head\<rparr>)"
    have "s' = v\<lparr>p_fd := (p_fd v)\<lparr>fd_ofiles := (fd_ofiles (p_fd v))[i := Some fp]\<rparr>\<rparr> \<and> r = Inr (fp, i)"
      using assms(5) t 2 pendingD(1) [OF iu] by (auto simp: falloc_def Let_def v_def head_def fp_def simp flip: u_def cong: option.case_cong)
    then have s': "s' = v\<lparr>p_fd := put_slot i (Some fp) (fd_ofileflags (p_fd u) ! i) (p_fd u)\<rparr>" and r: "r = Inr (fp, i)"
      unfolding ofiles_put by (simp_all add: v_def)
    have "fp \<notin> set (filehead u)" "0 < fd_nfiles (p_fd u)"
      using assms(3) pendingD(1) [OF iu] by (auto simp: fresh_files_def fp_def)
    from new_file_refs [OF fd_invD(2) [OF u(1)] this(1) head_def this(2)]
    have v: "refs_ok (one_more fp others) k v" "p_fd v = p_fd u"
      by (simp_all add: v_def)
    have "refs_ok others k s'"
      using refs_filled [OF v(1), of i "fd_ofileflags (p_fd u) ! i"] v(2) pendingD(1,2) [OF iu] s' by simp
    moreover have "i \<le> fd_lastfile (p_fd u)"
      using fd_tidyD(4) [OF fd_invD(1) [OF u(1)] pendingD(1) [OF iu]] pendingD(3) [OF iu]
      unfolding unused_def by (meson not_le)
    then have "fd_tidy (p_fd s')"
      using put_slot_tidy [OF fd_invD(1) [OF u(1)] pendingD(1) [OF iu]] by (simp add: s')
    moreover have "holds (p_fd s') j fpp" if "holds (p_fd s) j fpp" for j fpp
    proof -
      have h: "holds (p_fd u) j fpp"
        using keepsD(1) [OF keeps_trans [OF _ u(2)] that] A by simp
      have "fpp \<noteq> Some fp"
        using h slot_positive [of j "p_fd u" fp] refs_okD(3) [OF fd_invD(2) [OF u(1)], of fp]
          \<open>fp \<notin> set (filehead u)\<close> by (auto simp: holds_def)
      moreover have "j \<noteq> i"
        using that i(2) h iu by (auto simp: holds_def pending_def)
      ultimately show ?thesis
        using holds_put [OF h _ pendingD(1) [OF iu]] by (auto simp: s')
    qed
    moreover have zero: "slots (p_fd u) fp + others fp = 0"
      using refs_okD(3) [OF fd_invD(2) [OF u(1)], of fp] \<open>fp \<notin> set (filehead u)\<close> by simp
    then have "slots (p_fd s') fp = 1"
      using slots_put [OF pendingD(1) [OF iu], of "Some fp" _ fp] pendingD(2) [OF iu] by (simp add: s')
    then have "holds (p_fd s') i (Some fp)"
      using iu by (simp add: s' holds_def pending_def reserved_def put_slot_def)
    moreover have "\<not> holds (p_fd s) i fpp" for fpp
    proof
      assume "holds (p_fd s) i fpp"
      moreover then have "holds (p_fd u) i fpp"
        using keepsD(1) [OF keeps_trans [OF _ u(2)]] A by blast
      ultimately show False
        using i(2) iu by (auto simp: holds_def pending_def)
    qed
    ultimately show ?thesis
      using A zero keeps_files [OF u(2)] keeps_files [of "p_fd s" "p_fd t"] by (simp add: fd_inv_def keeps_def s' r)
  qed (use A in simp)
qed

lemma mapped_reserved [simp]: "(flags AND NOT UF_MAPPED) AND UF_RESERVED = flags AND UF_RESERVED"
  by (simp add: and.assoc)

lemma exclose_unreserved:
  assumes "flags AND (UF_RESERVED OR UF_EXCLOSE) = UF_EXCLOSE"
  shows "flags AND UF_RESERVED = 0"
proof -
  have "flags AND UF_RESERVED = (flags AND (UF_RESERVED OR UF_EXCLOSE)) AND UF_RESERVED"
    by (simp add: and.assoc)
  then show ?thesis
    unfolding assms by simp
qed

text \<open>One descriptor of \<open>fdexec\<close>, that the call closes or keeps.\<close>

lemma fdexec_closed:
  assumes "fd_inv others k s" and "i < fd_nfiles (p_fd s)"
    and "fd_ofileflags (p_fd s) ! i AND (UF_RESERVED OR UF_EXCLOSE) = UF_EXCLOSE"
    and "fdp = put_slot i None 0 (p_fd s)"
    and "low = (if i = fd_lastfile fdp \<and> 0 < i then fdp\<lparr>fd_lastfile := fd_lastfile fdp - 1\<rparr> else fdp)"
  shows "fd_tidy low" and "keeps (p_fd s) low" and "fd_ofiles low = (fd_ofiles (p_fd s))[i := None]"
proof -
  note tidy = fd_invD(1) [OF assms(1)]
  note T = fd_tidyD [OF tidy] and P = put_slot_unused [OF assms(2) fd_tidyD(1) [OF tidy]]
  have fdp: "fd_tidy fdp" "fd_lastfile fdp = fd_lastfile (p_fd s)" "fd_nfiles fdp = fd_nfiles (p_fd s)"
    using put_slot_tidy [OF tidy assms(2)] by (simp_all add: assms(4))
  have "fd_tidy (fdp\<lparr>fd_lastfile := i - 1\<rparr>)" if "i = fd_lastfile fdp" "0 < i"
  proof (rule fd_tidyI)
    fix j
    assume j: "j < fd_nfiles (fdp\<lparr>fd_lastfile := i - 1\<rparr>)" "fd_lastfile (fdp\<lparr>fd_lastfile := i - 1\<rparr>) < j"
    then have "j = i \<or> fd_lastfile fdp < j"
      unfolding that(1) [symmetric] by auto
    then have "unused fdp j"
      using P(1) [of None 0 i] fd_tidyD(4) [OF fdp(1), of j] j(1) by (auto simp: assms(4))
    then show "unused (fdp\<lparr>fd_lastfile := i - 1\<rparr>) j"
      by simp
  qed (use T(1,2) assms(2) in \<open>simp_all add: assms(4)\<close>)
  then show "fd_tidy low"
    using fdp(1) by (simp add: assms(5))
  show ofiles: "fd_ofiles low = (fd_ofiles (p_fd s))[i := None]"
    by (simp add: assms(4,5) put_slot_def)
  have "\<not> reserved (p_fd s) i"
    using exclose_unreserved [OF assms(3)] by (simp add: reserved_def)
  moreover have "reserved low j \<longleftrightarrow> reserved fdp j" for j
    by (simp add: assms(5) reserved_def)
  ultimately show "keeps (p_fd s) low"
    using keeps_cleared [OF ofiles _ assms(2)] P(2) by (simp add: assms(4))
qed

lemma fdexec_unmapped:
  assumes "fd_inv others k s" and "i < fd_nfiles (p_fd s)"
    and "fdp = (p_fd s)\<lparr>fd_ofileflags := (fd_ofileflags (p_fd s))[i := fd_ofileflags (p_fd s) ! i AND NOT UF_MAPPED]\<rparr>"
  shows "fd_inv others k (s\<lparr>p_fd := fdp\<rparr>)" and "keeps (p_fd s) fdp"
proof -
  note tidy = fd_invD(1) [OF assms(1)]
  note P = put_slot_unused [OF assms(2) fd_tidyD(1) [OF tidy]]
  define flags where "flags = fd_ofileflags (p_fd s) ! i AND NOT UF_MAPPED"
  have fdp: "fdp = put_slot i (fd_ofiles (p_fd s) ! i) flags (p_fd s)"
    by (simp add: assms(3) flags_def put_slot_def)
  have "flags AND UF_RESERVED = fd_ofileflags (p_fd s) ! i AND UF_RESERVED"
    unfolding flags_def by (rule mapped_reserved)
  then have r: "reserved fdp j \<longleftrightarrow> reserved (p_fd s) j" for j
    using P(2) [of "fd_ofiles (p_fd s) ! i" flags j] by (auto simp: fdp reserved_def)
  have o: "fd_ofiles fdp = fd_ofiles (p_fd s)"
    by (simp add: assms(3))
  then have "unused fdp j \<longleftrightarrow> unused (p_fd s) j" for j
    using r by (simp add: unused_def)
  then have "fd_tidy fdp"
    using tidy o by (simp add: fd_tidy_def assms(3))
  then show "fd_inv others k (s\<lparr>p_fd := fdp\<rparr>)"
    by (rule fd_inv_table [OF assms(1)]) (simp add: slots_def o)
  show "keeps (p_fd s) fdp"
    using o r by (intro keepsI) (simp_all add: slots_def)
qed

lemma closef_opt:
  assumes "fd_inv others k s" and "i < fd_nfiles (p_fd s)" and "fd_tidy fdp"
    and "fd_ofiles fdp = (fd_ofiles (p_fd s))[i := None]"
  shows "\<exists>s' e. closef quiet advlock close_error (fd_ofiles (p_fd s) ! i) (s\<lparr>p_fd := fdp\<rparr>) = Some (s', e) \<and>
    fd_inv others k s' \<and> p_fd s' = fdp"
proof (cases "fd_ofiles (p_fd s) ! i")
  case None
  have "fd_ofiles fdp = fd_ofiles (p_fd s)"
    using assms(4) None list_update_id [of "fd_ofiles (p_fd s)" i] by simp
  then show ?thesis
    using None fd_inv_table [OF assms(1,3)] by (simp add: closef_def slots_def)
next
  case (Some fp)
  from closef_refs [OF emptied_refs [OF assms(1,2) Some assms(4)], of advlock close_error] show ?thesis
    using Some assms(3) by (auto simp: fd_inv_def)
qed

lemma fdexec_from_inv:
  "fd_inv others k s \<Longrightarrow> i \<le> fd_nfiles (p_fd s) \<Longrightarrow>
    \<exists>s'. fdexec_from i advlock close_error s = Some s' \<and> fd_inv others k s' \<and> keeps (p_fd s) (p_fd s')"
proof (induction i arbitrary: s)
  case (Suc i)
  let ?fdp = "p_fd s"
  let ?flags = "fd_ofileflags ?fdp ! i"
  have i: "i < fd_nfiles ?fdp"
    using Suc.prems(2) by simp
  show ?case
  proof (cases "?flags AND (UF_RESERVED OR UF_EXCLOSE) = UF_EXCLOSE")
    case True
    define put where "put = put_slot i None 0 ?fdp"
    define low where "low = (if i = fd_lastfile put \<and> 0 < i then put\<lparr>fd_lastfile := fd_lastfile put - 1\<rparr> else put)"
    note L = fdexec_closed [OF Suc.prems(1) i True put_def low_def]
    obtain t e where t: "closef quiet advlock close_error (fd_ofiles ?fdp ! i) (s\<lparr>p_fd := low\<rparr>) = Some (t, e)"
      "fd_inv others k t" "p_fd t = low"
      using closef_opt [OF Suc.prems(1) i L(1,3)] by blast
    have "fdexec_from (Suc i) advlock close_error s = fdexec_from i advlock close_error t"
      using i True t(1) by (simp add: Let_def flip: put_def low_def)
    then show ?thesis
      using Suc.IH [OF t(2)] keeps_trans [OF L(2)] i t(3) L(3) by auto
  next
    case False
    define fdp where "fdp = ?fdp\<lparr>fd_ofileflags := (fd_ofileflags ?fdp)[i := ?flags AND NOT UF_MAPPED]\<rparr>"
    note U = fdexec_unmapped [OF Suc.prems(1) i fdp_def]
    have "fdexec_from (Suc i) advlock close_error s = fdexec_from i advlock close_error (s\<lparr>p_fd := fdp\<rparr>)"
      using i False by (simp add: Let_def fdp_def)
    moreover have "i \<le> fd_nfiles (p_fd (s\<lparr>p_fd := fdp\<rparr>))"
      using i by (simp add: fdp_def)
    ultimately show ?thesis
      using Suc.IH [OF U(1)] keeps_trans [OF U(2)] by auto
  qed
qed simp

lemma fdexec_inv:
  assumes "fd_inv others k s" and "0 < fd_nfiles (p_fd s)"
  shows "\<exists>s'. fdexec advlock close_error s = Some s' \<and> fd_inv others k s' \<and> keeps (p_fd s) (p_fd s')"
  unfolding fdexec_def
  by (rule fdexec_from_inv [OF assms(1)])
    (use fd_tidyD(3) [OF fd_invD(1) [OF assms(1)] assms(2)] in simp)

lemma setfd_unreserved: "setfd_flags flags arg AND UF_RESERVED = 0"
  by (simp add: setfd_flags_def)

lemma put_file_inv:
  assumes "fd_inv others k s" and "f_count f = f_count (file_at s fp)"
  shows "fd_inv others k (put_file fp f s)"
  using assms by (auto simp: fd_inv_def refs_ok_def)

lemma setfd_inv:
  assumes "fd_inv others k s" and "fdgetf (p_fd s) fd = Some fp" and "flags AND UF_RESERVED = 0"
    and "fdp = (p_fd s)\<lparr>fd_ofileflags := (fd_ofileflags (p_fd s))[fd := flags]\<rparr>"
  shows "fd_inv others k (s\<lparr>p_fd := fdp\<rparr>) \<and> keeps (p_fd s) fdp"
proof -
  note tidy = fd_invD(1) [OF assms(1)]
  have fd: "fd < fd_nfiles (p_fd s)" "\<not> reserved (p_fd s) fd" "fd_ofiles (p_fd s) ! fd = Some fp"
    using assms(2) by (simp_all add: fdgetf_Some)
  note P = put_slot_unused [OF fd(1) fd_tidyD(1) [OF tidy], of "Some fp" flags]
  have fdp: "fdp = put_slot fd (Some fp) flags (p_fd s)"
    using flags_put [of "p_fd s" fd flags] assms(4) fd(3) by simp
  have o: "fd_ofiles fdp = fd_ofiles (p_fd s)"
    by (simp add: assms(4))
  have r: "reserved fdp j \<longleftrightarrow> reserved (p_fd s) j" for j
    using P(2) [of j] assms(3) fd(2) by (auto simp: fdp)
  then have "fd_tidy fdp"
    using tidy o by (simp add: fd_tidy_def unused_def assms(4))
  then have "fd_inv others k (s\<lparr>p_fd := fdp\<rparr>)"
    by (rule fd_inv_table [OF assms(1)]) (simp add: slots_def o)
  then show ?thesis
    using keepsI [of "p_fd s" fdp] o r by (simp add: slots_def)
qed

lemma fcntl_inv:
  assumes "polite sleep" and "lim \<le> 65536" and "fd_inv others k s"
    and "fcntl fuel sleep ioctl lim fd cmd s = Some (s', r)"
  shows "fd_inv others k s' \<and> keeps (p_fd s) (p_fd s')"
proof (cases "fdgetf (p_fd s) fd")
  case None
  then show ?thesis
    using assms(3,4) by (simp add: fcntl_def)
next
  case (Some fp)
  show ?thesis
  proof (cases cmd)
    case (F_DUPFD newmin)
    then consider "s' = s" | "do {
        (s, r) \<leftarrow> fdalloc fuel sleep lim newmin s;
        (case r of Inl e \<Rightarrow> Some (s, Inl e) | Inr new \<Rightarrow> finishdup fd new s)
      } = Some (s', r)"
      using assms(4) Some by (auto simp: fcntl_def split: if_splits)
    then show ?thesis
      using fdalloc_finishdup_inv [OF assms(1-3)] assms(3) by cases auto
  next
    case (F_SETFD arg)
    then show ?thesis
      using assms(4) Some setfd_inv [OF assms(3) Some setfd_unreserved refl] by (auto simp: fcntl_def Let_def)
  next
    case (F_SETFL arg)
    then obtain f where "s' = put_file fp f s" "f_count f = f_count (file_at s fp)"
      using assms(4) Some by (auto simp: fcntl_def Let_def fcntl_setfl_def split: option.splits)
    then show ?thesis
      using put_file_inv [OF assms(3)] by simp
  qed (use assms(3,4) Some in \<open>simp_all add: fcntl_def Let_def\<close>)
qed

lemma flock_inv:
  assumes "fd_inv others k s" and "flock advlock_error fd how s = (s', e)"
  shows "fd_inv others k s' \<and> keeps (p_fd s) (p_fd s')"
proof -
  have call: "fd_inv others k (fd_call c t)" if "fd_inv others k t" for c t
    using that by (simp add: fd_inv_def)
  show ?thesis
    using assms
    by (auto simp: flock_def Let_def intro!: call put_file_inv [OF assms(1)] split: option.splits if_splits)
qed

end
