(* ===== verification/Fd_Open.thy ===== *)
theory Fd_Open
  imports Fd_Ops
begin

text \<open>
  Opening a file by name: the reserved descriptor holds the new file while \<open>vn_open\<close> and the lock sleep; a failure
  gives back both, unless the descriptor device hands over another descriptor's file.
\<close>

text \<open>A reserved descriptor whose file has just been freed: the table without the pointer is in order.\<close>

definition emptied :: "nat \<Rightarrow> fd_state \<Rightarrow> fd_state" where
  "emptied i s = s\<lparr>p_fd := put_slot i None (fd_ofileflags (p_fd s) ! i) (p_fd s)\<rparr>"

lemma ffree_emptied:
  assumes "fd_inv others k s" and "holds (p_fd s) i (Some fp)" and "others fp = 0"
  shows "fd_inv others k (emptied i (ffree fp s))" and "holds (p_fd (emptied i (ffree fp s))) i None"
    and "holds (p_fd s) j fpp \<Longrightarrow> j \<noteq> i \<Longrightarrow> holds (p_fd (emptied i (ffree fp s))) j fpp"
proof -
  let ?fdp = "p_fd s"
  have i: "i < fd_nfiles ?fdp" "reserved ?fdp i" "fd_ofiles ?fdp ! i = Some fp" "slots ?fdp fp = 1"
    using assms(2) by (simp_all add: holds_def)
  note tidy = fd_invD(1) [OF assms(1)]
  define put where "put = put_slot i None (fd_ofileflags ?fdp ! i) ?fdp"
  have last: "i \<le> fd_lastfile ?fdp"
    using fd_tidyD(4) [OF tidy i(1)] i(2) by (fastforce simp: unused_def not_le)
  have "fd_tidy put"
    unfolding put_def by (rule put_slot_tidy [OF tidy i(1)]) (use last in simp)
  moreover have "refs_ok (one_more fp others) k (s\<lparr>p_fd := put\<rparr>)"
    unfolding put_def by (rule refs_emptied [OF fd_invD(2) [OF assms(1)] i(1,3)])
  then have "refs_ok others k (ffree fp (put_file fp (file_at s fp) (s\<lparr>p_fd := put\<rparr>)))"
    by (rule ffree_refs) (use slots_put [OF i(1), of None _ fp] i(3,4) assms(3) in \<open>simp add: put_def\<close>)
  moreover have e: "emptied i (ffree fp s) = ffree fp (put_file fp (file_at s fp) (s\<lparr>p_fd := put\<rparr>))"
    by (simp add: emptied_def put_def ffree_def put_file_def)
  ultimately show "fd_inv others k (emptied i (ffree fp s))"
    by (simp add: fd_inv_def)
  show "holds (p_fd (emptied i (ffree fp s))) i None"
    using i(1,2) fd_tidyD(1) [OF tidy] by (simp add: emptied_def holds_def reserved_def put_slot_at)
  show "holds (p_fd (emptied i (ffree fp s))) j fpp" if "holds ?fdp j fpp" "j \<noteq> i"
    using holds_clear [OF that i(1)] by (simp add: emptied_def)
qed

lemma give_up_inv:
  assumes "fd_inv others k (emptied i s)" and "holds (p_fd (emptied i s)) i None"
  shows "\<exists>fdp. fdrelse i (p_fd s) = Some fdp \<and> fd_inv others k (s\<lparr>p_fd := fdp\<rparr>) \<and> fd_nfiles fdp = fd_nfiles (p_fd s) \<and>
    (\<forall>j fpp. holds (p_fd (emptied i s)) j fpp \<longrightarrow> j \<noteq> i \<longrightarrow> holds fdp j fpp)"
proof -
  let ?fdp = "p_fd s" and ?e = "p_fd (emptied i s)"
  have i: "i < fd_nfiles ?fdp"
    using assms(2) by (simp add: holds_def emptied_def)
  have clear: "put_slot i None 0 ?e = put_slot i None 0 ?fdp"
    by (simp add: emptied_def put_slot_def)
  have "fd_tidy (put_slot i None 0 ?fdp)"
    using cleared_tidy [OF fd_invD(1) [OF assms(1)], of i] i unfolding clear by (simp add: emptied_def)
  then obtain fdp where fdp: "fdrelse i ?fdp = Some fdp" "fd_tidy fdp" "fd_ofiles fdp = (fd_ofiles ?fdp)[i := None]"
    "fd_ofileflags fdp = (fd_ofileflags ?fdp)[i := 0]"
    using fdrelse_spec [of i ?fdp] i by blast
  have slots: "slots fdp = slots ?e"
    by (simp add: slots_def fdp(3) emptied_def put_slot_def fun_eq_iff)
  have "refs_ok others k (s\<lparr>p_fd := fdp\<rparr>)"
    by (rule refs_cong [OF fd_invD(2) [OF assms(1)]]) (simp_all add: fdp(3) emptied_def put_slot_def)
  moreover have "holds fdp j fpp" if "holds ?e j fpp" "j \<noteq> i" for j fpp
    using that fdp(3,4) slots by (simp add: holds_def reserved_def) (simp add: emptied_def put_slot_def)
  ultimately show ?thesis
    using fdp(1-3) by (simp add: fd_inv_def)
qed

text \<open>The descriptor device: the file of another descriptor is shared, or moved.\<close>

lemma filled_emptied:
  assumes "fd_inv others k (emptied i s)" and "holds (p_fd (emptied i s)) i None" and "refs_ok (one_more w others) k (emptied i t)"
    and "p_fd t = p_fd s" and "fdgetf (p_fd s) dfd = Some w"
  shows "fd_inv others k (t\<lparr>p_fd := put_slot i (Some w) flags (p_fd s)\<rparr>)"
    and "holds (p_fd (emptied i s)) j fpp \<Longrightarrow> j \<noteq> i \<Longrightarrow> holds (put_slot i (Some w) flags (p_fd s)) j fpp"
proof -
  let ?e = "p_fd (emptied i s)"
  have put: "put_slot i (Some w) flags (p_fd s) = put_slot i (Some w) flags ?e"
    by (simp add: emptied_def put_slot_def)
  have i: "i < fd_nfiles ?e" "reserved ?e i" "fd_ofiles ?e ! i = None"
    using assms(2) by (simp_all add: holds_def)
  note tidy = fd_invD(1) [OF assms(1)]
  have "i \<le> fd_lastfile ?e"
    using fd_tidyD(4) [OF tidy i(1)] i(2) by (fastforce simp: unused_def not_le)
  then have "fd_tidy (put_slot i (Some w) flags ?e)"
    using put_slot_tidy [OF tidy i(1)] by simp
  moreover have "refs_ok others k (emptied i t\<lparr>p_fd := put_slot i (Some w) flags (p_fd (emptied i t))\<rparr>)"
    using refs_filled [OF assms(3), of i flags] i(1,3) assms(4) by (simp add: emptied_def)
  then have "refs_ok others k (t\<lparr>p_fd := put_slot i (Some w) flags ?e\<rparr>)"
    by (rule refs_cong) (simp_all add: emptied_def assms(4))
  ultimately show "fd_inv others k (t\<lparr>p_fd := put_slot i (Some w) flags (p_fd s)\<rparr>)"
    unfolding put fd_inv_def by simp
  show "holds (put_slot i (Some w) flags (p_fd s)) j fpp" if "holds ?e j fpp" "j \<noteq> i"
  proof -
    have d: "dfd < fd_nfiles ?e" "fd_ofiles ?e ! dfd = Some w" "\<not> reserved ?e dfd"
    proof -
      have "dfd \<noteq> i"
        using assms(5) i(2) fd_tidyD(1) [OF tidy] i(1) by (auto simp: fdgetf_Some emptied_def reserved_def put_slot_def)
      then show "dfd < fd_nfiles ?e" "fd_ofiles ?e ! dfd = Some w" "\<not> reserved ?e dfd"
        using assms(5) by (simp_all add: fdgetf_Some emptied_def reserved_def put_slot_def)
    qed
    have "fpp \<noteq> Some w"
      using held_alone [OF _ d(1), of j w] that(1) d(2,3) by (auto simp: holds_def)
    then show ?thesis
      unfolding put using holds_put [OF that i(1)] by simp
  qed
qed

lemma refs_tables: "fd_ofiles fdp = fd_ofiles (p_fd s) \<Longrightarrow> refs_ok others k (s\<lparr>p_fd := fdp\<rparr>) = refs_ok others k s"
  by (simp add: refs_ok_def slots_def)

lemma dupfdopen_inv:
  assumes "fd_inv others k (emptied i s)" and "holds (p_fd (emptied i s)) i None"
    and "dupfdopen i dfd mode error s = Some (s', e)"
  shows "if e = None
    then fd_inv others k s' \<and> fd_nfiles (p_fd s') = fd_nfiles (p_fd s) \<and>
      (\<forall>j fpp. holds (p_fd (emptied i s)) j fpp \<longrightarrow> j \<noteq> i \<longrightarrow> holds (p_fd s') j fpp)
    else s' = s"
proof (cases "fdgetf (p_fd s) dfd")
  case None
  then show ?thesis
    using assms(3) by (auto simp: dupfdopen_def Let_def split: if_splits)
next
  case (Some w)
  let ?fdp = "p_fd s"
  have i: "i < fd_nfiles ?fdp" "reserved (p_fd (emptied i s)) i"
    using assms(2) by (simp_all add: holds_def emptied_def)
  note tidy = fd_invD(1) [OF assms(1)]
  have "i \<le> fd_lastfile (p_fd (emptied i s))"
    using fd_tidyD(4) [OF tidy, of i] i by (fastforce simp: unused_def not_le emptied_def)
  then have last: "\<not> fd_lastfile ?fdp < i"
    by (simp add: emptied_def)
  define flags where "flags = fd_ofileflags ?fdp ! dfd"
  define moved where "moved = put_slot i (Some w) flags ?fdp"
  have d: "dfd < fd_nfiles ?fdp" "\<not> reserved ?fdp dfd" "fd_ofiles ?fdp ! dfd = Some w"
    using Some by (simp_all add: fdgetf_Some)
  have len: "length (fd_ofileflags ?fdp) = fd_nfiles ?fdp"
    using fd_tidyD(1) [OF tidy] by (simp add: emptied_def)
  have ne: "dfd \<noteq> i"
    using d(2) i len by (auto simp: emptied_def reserved_def put_slot_def)
  have pos: "0 < slots (p_fd (emptied i s)) w"
    by (rule slot_positive [of dfd]) (use d ne in \<open>simp_all add: emptied_def put_slot_def\<close>)
  consider (no) "s' = s" "e \<noteq> None" | (share) t where "fref w s = Some t" "s' = t\<lparr>p_fd := moved\<rparr>" "e = None"
    | (steal) fdp where "fdrelse dfd moved = Some fdp" "s' = s\<lparr>p_fd := fdp\<rparr>" "e = None"
  proof -
    define denied where "denied \<longleftrightarrow> (mode AND (FREAD OR FWRITE)) OR f_flag (file_at s w) \<noteq> f_flag (file_at s w)"
    have "dupfdopen i dfd mode error s =
        (if fd_ofiles ?fdp ! i = Some w then Some (s, Some EBADF)
         else (case error of
             ENODEV \<Rightarrow> if denied then Some (s, Some EACCES) else map_option (\<lambda>s. (s\<lparr>p_fd := moved\<rparr>, None)) (fref w s)
           | ENXIO \<Rightarrow> map_option (\<lambda>fdp. (s\<lparr>p_fd := fdp\<rparr>, None)) (fdrelse dfd moved)
           | e \<Rightarrow> Some (s, Some e)))"
      using Some i(1) last unfolding dupfdopen_def Let_def denied_def moved_def flags_def by simp
    then show ?thesis
      using assms(3) that by (cases error) (auto split: if_splits)
  qed
  then show ?thesis
  proof cases
    case share
    have f: "fref w (emptied i s) = Some (emptied i t)" and pt: "p_fd t = ?fdp"
      using share(1) by (auto simp: fref_def emptied_def put_file_def Let_def split: if_splits)
    then have "refs_ok (one_more w others) k (emptied i t)"
      using fref_refs(2) [OF fd_invD(2) [OF assms(1)] _ f] pos by simp
    note F = filled_emptied [OF assms(1,2) this pt Some, where flags = flags, folded moved_def]
    show ?thesis
      using F share(2,3) by (simp add: moved_def)
  next
    case steal
    let ?e = "p_fd (emptied i s)"
    have put: "moved = put_slot i (Some w) flags ?e"
      by (simp add: moved_def emptied_def put_slot_def)
    have e: "i < fd_nfiles ?e" "fd_ofiles ?e ! i = None" "fd_nfiles ?e = fd_nfiles ?fdp"
      using assms(2) by (simp_all add: holds_def) (simp add: emptied_def)
    have dm: "dfd < fd_nfiles moved" "fd_ofiles moved ! dfd = Some w" "\<not> reserved moved dfd"
      using d ne by (simp_all add: moved_def reserved_def put_slot_def)
    have "fd_tidy moved"
      unfolding put by (rule put_slot_tidy [OF tidy e(1)]) (use last in \<open>simp add: emptied_def\<close>)
    then obtain free where free: "fdrelse dfd moved = Some free" "fd_tidy free" "fd_ofiles free = (fd_ofiles moved)[dfd := None]"
      "fd_ofileflags free = (fd_ofileflags moved)[dfd := 0]"
      using fdrelse_spec [OF cleared_tidy [OF _ dm(1)] dm(1)] by blast
    have at: "slots free = slots (put_slot dfd None 0 moved)" "holds free = holds (put_slot dfd None 0 moved)"
      by (simp_all add: free(3,4) slots_def holds_def reserved_def fun_eq_iff put_slot_def)
    have "slots free x = slots ?e x" for x
      using slots_put [OF dm(1), of None 0 x] slots_put [OF e(1), of "Some w" flags x] dm(2) e(2)
      by (simp add: at(1) flip: put split: if_splits)
    then have "refs_ok others k (s\<lparr>p_fd := free\<rparr>)"
      using fd_invD(2) [OF assms(1)] by (simp add: refs_ok_def emptied_def)
    moreover have "holds free j fpp" if "holds ?e j fpp" "j \<noteq> i" for j fpp
    proof -
      have "dfd < fd_nfiles ?e" "fd_ofiles ?e ! dfd = Some w" "\<not> reserved ?e dfd"
        using d ne by (simp_all add: emptied_def reserved_def put_slot_def)
      then have h: "fpp \<noteq> Some w" "j \<noteq> dfd"
        using held_alone [of ?e j w dfd] that(1) by (auto simp: holds_def)
      then show ?thesis
        unfolding at(2) using holds_put [OF that e(1), of "Some w" flags] by (intro holds_clear [OF _ _ dm(1)]) (simp_all add: put)
    qed
    ultimately show ?thesis
      using free steal e(3) by (simp add: fd_inv_def moved_def)
  qed auto
qed

text \<open>The outcomes of \<open>open\<close>, from the descriptor that \<open>falloc\<close> has reserved.\<close>

lemma give_up_some:
  assumes "fd_inv others k (emptied i s)" and "holds (p_fd (emptied i s)) i None" and "give_up i error s = Some (s', r)"
  shows "fd_inv others k s' \<and> fd_nfiles (p_fd s') = fd_nfiles (p_fd s) \<and>
    (\<forall>j fpp. holds (p_fd (emptied i s)) j fpp \<longrightarrow> j \<noteq> i \<longrightarrow> holds (p_fd s') j fpp)"
  using give_up_inv [OF assms(1,2)] assms(3) by (auto simp: give_up_def)

lemma emptied_fields [simp]: "fd_nfiles (p_fd (emptied i s)) = fd_nfiles (p_fd s)"
  by (simp add: emptied_def)

lemma open_failed_inv:
  assumes "fd_inv others k s" and "holds (p_fd s) i (Some fp)" and "others fp = 0"
    and "open_failed fp i flags error dupfd s = Some (s', r)"
  shows "fd_inv others k s' \<and> fd_nfiles (p_fd s') = fd_nfiles (p_fd s) \<and>
    (\<forall>j fpp. holds (p_fd s) j fpp \<longrightarrow> j \<noteq> i \<longrightarrow> holds (p_fd s') j fpp)"
proof -
  define t where "t = ffree fp s"
  note E = ffree_emptied [OF assms(1-3), folded t_def]
  have "fd_inv others k s' \<and> fd_nfiles (p_fd s') = fd_nfiles (p_fd t) \<and>
    (\<forall>j fpp. holds (p_fd (emptied i t)) j fpp \<longrightarrow> j \<noteq> i \<longrightarrow> holds (p_fd s') j fpp)"
  proof -
    have "give_up i error t = Some (s', r) \<or>
        (\<exists>dfd u e. dupfdopen i dfd (ucast flags) error t = Some (u, e) \<and>
          (case e of None \<Rightarrow> Some (u, Inr i) | Some e \<Rightarrow> give_up i e u) = Some (s', r))"
      using assms(4) by (cases dupfd) (auto simp: open_failed_def Let_def bind_eq_Some_conv simp flip: t_def split: if_splits)
    then consider e where "give_up i e t = Some (s', r)"
      | dfd where "dupfdopen i dfd (ucast flags) error t = Some (s', None)"
      | dfd e u where "dupfdopen i dfd (ucast flags) error t = Some (u, Some e)" "give_up i e u = Some (s', r)"
      by (fastforce split: option.split_asm)
    then show ?thesis
    proof cases
      case 1
      then show ?thesis
        by (rule give_up_some [OF E(1,2)])
    next
      case 2
      then show ?thesis
        using dupfdopen_inv [OF E(1,2)] by fastforce
    next
      case 3
      then have "u = t"
        using dupfdopen_inv [OF E(1,2) 3(1)] by simp
      then show ?thesis
        using give_up_some [OF E(1,2)] 3(2) by simp
    qed
  qed
  then show ?thesis
    using E(3) by (simp add: t_def)
qed

lemma publish_inv:
  assumes "fd_inv others k s" and "holds (p_fd s) i (Some fp)"
  shows "fd_inv others k (publish i s) \<and> fd_nfiles (p_fd (publish i s)) = fd_nfiles (p_fd s) \<and>
    (\<forall>j fpp. holds (p_fd s) j fpp \<longrightarrow> j \<noteq> i \<longrightarrow> holds (p_fd (publish i s)) j fpp)"
proof -
  let ?fdp = "p_fd s"
  define flags where "flags = fd_ofileflags ?fdp ! i AND NOT UF_RESERVED"
  have i: "i < fd_nfiles ?fdp" "reserved ?fdp i" "fd_ofiles ?fdp ! i = Some fp"
    using assms(2) by (simp_all add: holds_def)
  have p: "p_fd (publish i s) = put_slot i (Some fp) flags ?fdp"
    using i(3) by (simp add: publish_def flags_put flags_def)
  note tidy = fd_invD(1) [OF assms(1)]
  have "i \<le> fd_lastfile ?fdp"
    using fd_tidyD(4) [OF tidy i(1)] i(2) by (fastforce simp: unused_def not_le)
  then have "fd_tidy (put_slot i (Some fp) flags ?fdp)"
    using put_slot_tidy [OF tidy i(1)] by simp
  then have "fd_inv others k (publish i s)"
    using fd_inv_table [OF assms(1), of "put_slot i (Some fp) flags ?fdp"] slots_put [OF i(1), of "Some fp" flags] i(3)
      p by (simp add: publish_def flags_put flags_def split: if_splits)
  moreover have "holds (put_slot i (Some fp) flags ?fdp) j fpp" if "holds ?fdp j fpp" "j \<noteq> i" for j fpp
    using holds_put [OF that i(1)] held_alone [of ?fdp j fp i] that i(1,3) by (cases "fpp = Some fp") auto
  ultimately show ?thesis
    using p by simp
qed

lemma file_step_inv:
  assumes "fd_inv others k s" and "f_count f = f_count (file_at s fp)"
  shows "fd_inv others k (put_file fp f s)" and "fd_inv others k (fd_call c s)"
  using put_file_inv [OF assms] assms(1) by (simp_all add: fd_inv_def)

text \<open>What \<open>open\<close> holds on to, and its sleeps.\<close>

definition in_open :: "(nat \<Rightarrow> nat) \<Rightarrow> in_flight \<Rightarrow> filedesc \<Rightarrow> nat \<Rightarrow> nat \<Rightarrow> fd_state \<Rightarrow> bool" where
  "in_open others k fdp fp i s \<longleftrightarrow> fd_inv others k s \<and> keeps fdp (p_fd s) \<and> holds (p_fd s) i (Some fp)"

lemma in_open_steps:
  assumes "in_open others k fdp fp i s"
  shows "polite sleep \<Longrightarrow> in_open others k fdp fp i (sleep n s)"
    and "f_count f = f_count (file_at s fq) \<Longrightarrow> in_open others k fdp fp i (put_file fq f s)"
    and "in_open others k fdp fp i (fd_call c s)"
proof -
  show "in_open others k fdp fp i (sleep n s)" if "polite sleep"
    using politeD [OF that, of others k s n] assms keepsD(1) keeps_trans by (auto simp: in_open_def)
  show "in_open others k fdp fp i (put_file fq f s)" if "f_count f = f_count (file_at s fq)"
    using assms file_step_inv(1) [OF _ that] by (simp add: in_open_def)
  show "in_open others k fdp fp i (fd_call c s)"
    using assms by (simp add: in_open_def fd_inv_def)
qed

lemma in_open_ends:
  assumes "in_open others k fdp fp i s" and "\<And>fpp. \<not> holds fdp i fpp"
    and "fd_inv others k s' \<and> fd_nfiles (p_fd s') = fd_nfiles (p_fd s) \<and>
      (\<forall>j fpp. holds (p_fd s) j fpp \<longrightarrow> j \<noteq> i \<longrightarrow> holds (p_fd s') j fpp)"
  shows "fd_inv others k s' \<and> keeps fdp (p_fd s')"
proof -
  have "holds (p_fd s') j fpp" if "holds fdp j fpp" for j fpp
    using assms that by (cases "j = i") (auto simp: in_open_def dest: keepsD(1))
  then show ?thesis
    using assms(1,3) keeps_files [of fdp "p_fd s"] by (simp add: in_open_def keeps_def)
qed

lemma open_done_inv:
  assumes "polite sleep" and "in_open others k fdp fp i s" and "\<And>fpp. \<not> holds fdp i fpp" and "others fp = 0"
    and "open_done sleep advlock_error fp i flags s = Some (s', r)"
  shows "fd_inv others k s' \<and> keeps fdp (p_fd s')"
proof -
  note O = in_open_steps(1) [OF _ assms(1)] in_open_steps(2,3)
  define s1 where "s1 = put_file fp ((file_at s fp)\<lparr>f_flag := ucast flags AND FMASK, f_type := DTYPE_VNODE, f_ops := True\<rparr>) s"
  define c where "c = lock_file fp (flags AND 0x20 \<noteq> 0) (flags AND 4 = 0)"
  define s2 where "s2 = sleep 2 (fd_call c s1)"
  define s3 where "s3 = sleep 3 (fd_call (vn_close fp) s2)"
  define s4 where "s4 = put_file fp ((file_at (sleep 4 s2) fp)\<lparr>f_flag := f_flag (file_at (sleep 4 s2) fp) OR FHASLOCK\<rparr>) (sleep 4 s2)"
  have s1: "in_open others k fdp fp i s1"
    unfolding s1_def by (rule O(2) [OF assms(2)]) simp
  have s2: "in_open others k fdp fp i s2"
    unfolding s2_def by (rule O(1) [OF O(3) [OF s1]])
  have s3: "in_open others k fdp fp i s3"
    unfolding s3_def by (rule O(1) [OF O(3) [OF s2]])
  have s4: "in_open others k fdp fp i s4"
    unfolding s4_def by (rule O(2) [OF O(1) [OF s2]]) simp
  have "open_done sleep advlock_error fp i flags s =
      (if flags AND 0x30 = 0 then Some (publish i s1, Inr i)
       else (case advlock_error c of
           Some error \<Rightarrow> map_option (\<lambda>fdp. (ffree fp s3\<lparr>p_fd := fdp\<rparr>, Inl error)) (fdrelse i (p_fd (ffree fp s3)))
         | None \<Rightarrow> Some (publish i s4, Inr i)))"
    unfolding open_done_def Let_def s1_def c_def s2_def s3_def s4_def by (rule refl)
  then consider "s' = publish i s1" | "s' = publish i s4"
    | free where "fdrelse i (p_fd (ffree fp s3)) = Some free" "s' = ffree fp s3\<lparr>p_fd := free\<rparr>"
    using assms(5) by (cases "advlock_error c"; cases "fdrelse i (p_fd s3)") (auto split: if_splits)
  then show ?thesis
  proof cases
    case 1
    show ?thesis
      unfolding 1 by (rule in_open_ends [OF s1 assms(3) publish_inv [where fp = fp]]) (use s1 in \<open>simp_all add: in_open_def\<close>)
  next
    case 2
    show ?thesis
      unfolding 2 by (rule in_open_ends [OF s4 assms(3) publish_inv [where fp = fp]]) (use s4 in \<open>simp_all add: in_open_def\<close>)
  next
    case 3
    have h: "fd_inv others k s3" "holds (p_fd s3) i (Some fp)"
      using s3 by (simp_all add: in_open_def)
    note E = ffree_emptied [OF h assms(4)]
    show ?thesis
      by (rule in_open_ends [OF s3 assms(3)]) (use give_up_inv [OF E(1,2)] E(3) 3 in auto)
  qed
qed

lemma open_call_inv:
  assumes "polite sleep" and "lim \<le> 65536" and "fresh_files new_file" and "fd_inv others k s"
    and "open_call fuel sleep new_file lim maxfiles advlock_error vn_open oflags s = Some (s', r)"
  shows "fd_inv others k s' \<and> keeps (p_fd s) (p_fd s')"
proof -
  consider "s' = s" | t e where "falloc fuel sleep new_file lim maxfiles s = Some (t, Inl e)" "s' = t"
    | t fp i where "falloc fuel sleep new_file lim maxfiles s = Some (t, Inr (fp, i))" "(case vn_open of
          Some (error, dupfd) \<Rightarrow> open_failed fp i (FFLAGS oflags) error dupfd (sleep 1 t)
        | None \<Rightarrow> open_done sleep advlock_error fp i (FFLAGS oflags) (sleep 1 t)) = Some (s', r)"
  proof (cases "FFLAGS oflags AND 3 = 0")
    case False
    then obtain t q where "falloc fuel sleep new_file lim maxfiles s = Some (t, q)" "(case q of
          Inl e \<Rightarrow> Some (t, Inl e)
        | Inr (fp, indx) \<Rightarrow>
            (case vn_open of
              Some (error, dupfd) \<Rightarrow> open_failed fp indx (FFLAGS oflags) error dupfd (sleep 1 t)
            | None \<Rightarrow> open_done sleep advlock_error fp indx (FFLAGS oflags) (sleep 1 t))) = Some (s', r)"
      using assms(5) by (auto simp: open_call_def Let_def bind_eq_Some_conv)
    then show ?thesis
      using that(2,3) by (cases q) auto
  qed (use assms(5) that(1) in \<open>simp add: open_call_def\<close>)
  then show ?thesis
  proof cases
    case 2
    then show ?thesis
      using falloc_inv [OF assms(1-4) 2(1)] by simp
  next
    case 3
    note A = falloc_inv [OF assms(1-4) 3(1)]
    then have t: "in_open others k (p_fd s) fp i t" "others fp = 0" "\<And>fpp. \<not> holds (p_fd s) i fpp"
      by (simp_all add: in_open_def)
    have u: "in_open others k (p_fd s) fp i (sleep 1 t)"
      by (rule in_open_steps(1) [OF t(1) assms(1)])
    show ?thesis
    proof (cases vn_open)
      case None
      then show ?thesis
        using open_done_inv [OF assms(1) u t(3,2)] 3(2) by simp
    next
      case (Some ed)
      then have "open_failed fp i (FFLAGS oflags) (fst ed) (snd ed) (sleep 1 t) = Some (s', r)"
        using 3(2) by (simp add: case_prod_unfold)
      note F = open_failed_inv [where others = others and k = k, OF _ _ t(2) this]
      show ?thesis
        by (rule in_open_ends [OF u t(3) F]) (use u in \<open>simp_all add: in_open_def\<close>)
    qed
  qed (use assms(4) in simp)
qed

end
