(* ===== verification/Fd_Total.thy ===== *)
theory Fd_Total
  imports Fd_Open
begin

text \<open>
  The calls return: with a fuel above the limit, in a table in order and as long as no file has the greatest count,
  none of them panics, leaves an array or expands the table for ever, whatever other threads do while it sleeps.
\<close>

section \<open>Descriptors\<close>

lemma fdalloc_returns:
  assumes "polite sleep" and "lim \<le> 65536" and "leaves_room sleep"
  shows "fd_inv others k s \<Longrightarrow> roomy s \<Longrightarrow> lim - fd_nfiles (p_fd s) < fuel \<Longrightarrow>
    \<exists>s' r. fdalloc fuel sleep lim want s = Some (s', r) \<and> roomy s'"
proof (induction fuel arbitrary: s)
  case (Suc fuel)
  define start where "start = (if want < fd_freefile (p_fd s) then fd_freefile (p_fd s) else want)"
  define n where "n = (let n = (if fd_nfiles (p_fd s) < NDEXTENT then NDEXTENT else 2 * fd_nfiles (p_fd s))
    in if lim < n then lim else n)"
  define t where "t = sleep fuel s"
  have t: "fd_inv others k t" "keeps (p_fd s) (p_fd t)" "roomy t"
    using politeD [OF assms(1) Suc.prems(1)] leaves_roomD [OF assms(3) Suc.prems(1,2)] by (simp_all add: t_def)
  show ?case
  proof (cases "find (unused (p_fd s)) [start..<min (fd_nfiles (p_fd s)) lim]")
    case (Some i)
    then show ?thesis
      using Suc.prems(2) by (simp add: Let_def flip: start_def)
  next
    case None
    show ?thesis
    proof (cases "lim \<le> fd_nfiles (p_fd s)")
      case True
      then show ?thesis
        using None Suc.prems(2) by (simp add: Let_def flip: start_def)
    next
      case False
      then have n: "fd_nfiles (p_fd s) < n" "n \<le> lim"
        by (auto simp: n_def Let_def NDEXTENT_def)
      have step: "fdalloc (Suc fuel) sleep lim want s =
          (if n \<le> fd_nfiles (p_fd t) then fdalloc fuel sleep lim want t
           else fdalloc fuel sleep lim want (t\<lparr>p_fd := grow_files n (p_fd t)\<rparr>))"
        using None False by (simp only: fdalloc.simps Let_def t_def n_def option.case start_def [symmetric] if_False)
      show ?thesis
      proof (cases "n \<le> fd_nfiles (p_fd t)")
        case True
        then show ?thesis
          using Suc.IH [OF t(1,3)] Suc.prems(3) n step by simp
      next
        case False_t: False
        have "fd_tidy (grow_files n (p_fd t))"
          using extend_spec(1) [OF fd_invD(1) [OF t(1)]] False_t n(2) assms(2) by simp
        then have "fd_inv others k (t\<lparr>p_fd := grow_files n (p_fd t)\<rparr>)"
          by (rule fd_inv_table [OF t(1)]) simp
        then show ?thesis
          using Suc.IH [of "t\<lparr>p_fd := grow_files n (p_fd t)\<rparr>"] Suc.prems(3) n step t(3) False_t by simp
      qed
    qed
  qed
qed simp

lemma fref_returns:
  assumes "refs_ok others k s" and "0 < slots (p_fd s) fp" and "roomy s"
  shows "\<exists>s'. fref fp s = Some s'"
proof -
  have "f_count (file_at s fp) < 32767"
    using assms(3) by (simp add: roomy_def)
  then show ?thesis
    using fref_refs(1) [OF assms(1), of fp] refs_okD(1) [OF assms(1), of fp] assms(2) by simp
qed

lemma fdrelse_returns: "fd_tidy (put_slot fd None 0 fdp) \<Longrightarrow> fd < fd_nfiles fdp \<Longrightarrow> \<exists>fdp'. fdrelse fd fdp = Some fdp'"
  using fdrelse_spec by blast

lemma finishdup_returns:
  assumes "tidy_but new (p_fd s)" and "refs_ok others k s" and "new < fd_nfiles (p_fd s)" and "old < fd_nfiles (p_fd s)"
    and "roomy s"
  shows "\<exists>s' r. finishdup old new s = Some (s', r)"
proof -
  obtain free where free: "fdrelse new (p_fd s) = Some free"
    using fdrelse_returns [OF assms(1) [unfolded tidy_but_def] assms(3)] by blast
  show ?thesis
  proof (cases "fd_ofiles (p_fd s) ! old = None \<or> reserved (p_fd s) old")
    case True
    then show ?thesis
      using assms(3,4) free by (auto simp: finishdup_def Let_def split: option.split)
  next
    case False
    then obtain fp where fp: "fd_ofiles (p_fd s) ! old = Some fp" "\<not> reserved (p_fd s) old"
      by auto
    then obtain t where "fref fp s = Some t"
      using fref_returns [OF assms(2) _ assms(5)] slot_positive [OF assms(4)] by blast
    then show ?thesis
      using assms(3,4) fp by (simp add: finishdup_def Let_def fref_table)
  qed
qed

lemma finishdup_reserved_returns:
  "fd_inv others k s \<Longrightarrow> pending (p_fd s) new \<Longrightarrow> old < fd_nfiles (p_fd s) \<Longrightarrow> roomy s \<Longrightarrow>
    \<exists>s' r. finishdup old new s = Some (s', r)"
  using finishdup_returns [of new s others k old] tidy_tidy_but [of "p_fd s" new] pendingD(1)
  by (simp add: fd_inv_def)

text \<open>Allocating a descriptor and duplicating onto it.\<close>

lemma fdalloc_finishdup_returns:
  assumes "polite sleep" and "lim \<le> 65536" and "leaves_room sleep" and "fd_inv others k s" and "roomy s" and "lim < fuel"
    and "old < fd_nfiles (p_fd s)"
  shows "\<exists>s' r. do {
      (s, r) \<leftarrow> fdalloc fuel sleep lim want s;
      (case r of Inl e \<Rightarrow> Some (s, Inl e) | Inr new \<Rightarrow> finishdup old new s)
    } = Some (s', r)"
proof -
  obtain t q where t: "fdalloc fuel sleep lim want s = Some (t, q)" "roomy t"
    using fdalloc_returns [OF assms(1-5), of fuel want] assms(6) by fastforce
  note A = fdalloc_inv [OF assms(1,2,4) t(1)]
  show ?thesis
  proof (cases q)
    case (Inr new)
    have "old < fd_nfiles (p_fd t)"
      using A keeps_files [of "p_fd s" "p_fd t"] assms(7) by simp
    then show ?thesis
      using finishdup_reserved_returns [of others k t new old] A Inr t by simp
  qed (simp add: t)
qed

lemma dup2_closeit_returns:
  assumes "polite sleep" and "leaves_room sleep" and "fd_inv others k s" and "roomy s" and "new < fd_nfiles (p_fd s)"
    and "old < fd_nfiles (p_fd s)"
  shows "\<exists>s' r. dup2_closeit sleep advlock close_error old new s = Some (s', r)"
proof (cases "reserved (p_fd s) new")
  case True
  then show ?thesis
    using assms(5) by (simp add: dup2_closeit_def)
next
  case False
  let ?fdp = "p_fd s"
  note tidy = fd_invD(1) [OF assms(3)]
  define flags where "flags = (fd_ofileflags ?fdp ! new AND NOT UF_MAPPED) OR UF_RESERVED"
  define put where "put = put_slot new None flags ?fdp"
  have "flags AND UF_RESERVED \<noteq> 0"
    unfolding flags_def by (rule reserved_flags)
  then have pending: "pending put new"
    using put_slot_unused(2) [OF assms(5) fd_tidyD(1) [OF tidy]] put_slot_at(1) [OF assms(5) fd_tidyD(1) [OF tidy]] assms(5)
    by (simp add: put_def pending_def)
  show ?thesis
  proof (cases "fd_ofiles ?fdp ! new")
    case None
    have "put_slot new None 0 put = put_slot new None 0 ?fdp"
      by (simp add: put_def put_slot_def)
    then have "tidy_but new put"
      using cleared_tidy [OF tidy assms(5)] by (simp add: tidy_but_def)
    then obtain s' r where "finishdup old new (s\<lparr>p_fd := put\<rparr>) = Some (s', r)"
      using finishdup_returns [of new "s\<lparr>p_fd := put\<rparr>" others k old] refs_none [OF fd_invD(2) [OF assms(3)] assms(5) None, of flags]
        assms(4-6) by (auto simp: put_def)
    then show ?thesis
      using False None assms(5) by (simp add: dup2_closeit_def Let_def closef_def put_def flags_def)
  next
    case (Some fp)
    have "new \<le> fd_lastfile ?fdp"
      using fd_tidyD(4) [OF tidy assms(5)] Some by (fastforce simp: unused_def not_le)
    then have "fd_tidy put"
      unfolding put_def by (intro put_slot_tidy [OF tidy assms(5)]) simp
    moreover have "fd_ofiles put = (fd_ofiles ?fdp)[new := None]"
      by (simp add: put_def put_slot_def)
    ultimately obtain t e where t: "closef sleep advlock close_error (Some fp) (s\<lparr>p_fd := put\<rparr>) = Some (t, e)"
      "fd_inv others k t" "keeps put (p_fd t)" "roomy t"
      using closef_emptied [OF assms(1,3,5) Some] assms(2,4) by blast
    have "old < fd_nfiles (p_fd t)"
      using keeps_files [OF t(3)] assms(6) by (simp add: put_def)
    then obtain s' r where "finishdup old new t = Some (s', r)"
      using finishdup_reserved_returns [OF t(2) keepsD(2) [OF t(3) pending] _ t(4)] by blast
    then show ?thesis
      using False Some assms(5) t(1) by (simp add: dup2_closeit_def Let_def put_def flags_def)
  qed
qed

lemma dup2_returns:
  assumes "polite sleep" and "lim \<le> 65536" and "leaves_room sleep" and "fd_inv others k s" and "roomy s" and "lim < fuel"
  shows "\<exists>s' r. dup2 fuel sleep advlock close_error lim old new s = Some (s', r)"
proof (cases "fdgetf (p_fd s) old = None \<or> lim \<le> new \<or> old = new")
  case True
  then show ?thesis
    by (auto simp: dup2_def)
next
  case False
  then have old: "old < fd_nfiles (p_fd s)"
    by (auto simp: fdgetf_Some)
  show ?thesis
  proof (cases "fd_nfiles (p_fd s) \<le> new")
    case inside: False
    then show ?thesis
      using dup2_closeit_returns [OF assms(1,3-5), of new old] old False by (auto simp: dup2_def)
  next
    case True
    obtain t q where t: "fdalloc fuel sleep lim new s = Some (t, q)" "roomy t"
      using fdalloc_returns [OF assms(1-5), of fuel new] assms(6) by fastforce
    note A = fdalloc_inv [OF assms(1,2,4) t(1)]
    have old': "old < fd_nfiles (p_fd t)"
      using A keeps_files [of "p_fd s" "p_fd t"] old by simp
    show ?thesis
    proof (cases q)
      case (Inl e)
      then show ?thesis
        using t(1) True False by (simp add: dup2_def)
    next
      case (Inr i)
      then have i: "fd_inv others k t" "pending (p_fd t) i" "new \<le> i"
        using A by simp_all
      show ?thesis
      proof (cases "new = i")
        case new: True
        then show ?thesis
          using finishdup_reserved_returns [OF i(1,2) old' t(2)] t(1) Inr True False by (simp add: dup2_def)
      next
        case new: False
        obtain free where free: "fdrelse i (p_fd t) = Some free" "fd_tidy free" "fd_ofiles free = (fd_ofiles (p_fd t))[i := None]"
          using fdrelse_spec [OF cleared_tidy [OF fd_invD(1) [OF i(1)] pendingD(1) [OF i(2)]] pendingD(1) [OF i(2)]] by blast
        have same: "fd_ofiles free = fd_ofiles (p_fd t)"
          using free(3) pendingD(2) [OF i(2)] list_update_id [of "fd_ofiles (p_fd t)" i] by simp
        then have "fd_inv others k (t\<lparr>p_fd := free\<rparr>)"
          using fd_inv_table [OF i(1) free(2)] by (simp add: slots_def)
        then obtain s' r where "dup2_closeit sleep advlock close_error old new (t\<lparr>p_fd := free\<rparr>) = Some (s', r)"
          using dup2_closeit_returns [OF assms(1,3), of others k "t\<lparr>p_fd := free\<rparr>" new old advlock close_error] i(3) pendingD(1) [OF i(2)] old' t(2) same
          by auto
        then show ?thesis
          using t(1) Inr new free(1) True False by (simp add: dup2_def)
      qed
    qed
  qed
qed

lemma fcntl_returns:
  assumes "polite sleep" and "lim \<le> 65536" and "leaves_room sleep" and "fd_inv others k s" and "roomy s" and "lim < fuel"
  shows "\<exists>s' r. fcntl fuel sleep ioctl lim fd cmd s = Some (s', r)"
proof (cases "fdgetf (p_fd s) fd")
  case (Some fp)
  then have "fd < fd_nfiles (p_fd s)"
    by (simp add: fdgetf_Some)
  then show ?thesis
    using fdalloc_finishdup_returns [OF assms] Some by (cases cmd) (auto simp: fcntl_def Let_def)
qed (simp add: fcntl_def)

section \<open>Opening\<close>

lemma falloc_returns:
  assumes "polite sleep" and "lim \<le> 65536" and "leaves_room sleep" and "fd_inv others k s" and "roomy s" and "lim < fuel"
  shows "\<exists>s' r. falloc fuel sleep new_file lim maxfiles s = Some (s', r) \<and> roomy s'"
proof -
  obtain t q where t: "fdalloc fuel sleep lim 0 s = Some (t, q)" "roomy t"
    using fdalloc_returns [OF assms(1-5), of fuel 0] assms(6) by fastforce
  note A = fdalloc_inv [OF assms(1,2,4) t(1)]
  show ?thesis
  proof (cases q)
    case (Inl e)
    then show ?thesis
      using t by (simp add: falloc_def)
  next
    case (Inr i)
    define u where "u = sleep 0 (t\<lparr>nfiles := nfiles t + 1\<rparr>)"
    have inv: "fd_inv others (fst k + 1, snd k) (t\<lparr>nfiles := nfiles t + 1\<rparr>)"
      using A by (simp add: fd_inv_def refs_ok_def)
    have r: "roomy (t\<lparr>nfiles := nfiles t + 1\<rparr>)"
      using t(2) by (simp add: roomy_def)
    have u: "keeps (p_fd t) (p_fd u)" "roomy u"
      using politeD [OF assms(1) inv, of 0] leaves_roomD [OF assms(3) inv r, of 0] by (simp_all add: u_def)
    have i: "i < fd_nfiles (p_fd u)"
      using A Inr pendingD(1) [of "p_fd t" i] keeps_files [OF u(1)] by simp
    define head where "head = (case fd_ofiles (p_fd u) ! 0 of
      None \<Rightarrow> new_file u # filehead u | Some fq \<Rightarrow> insert_after fq (new_file u) (filehead u))"
    define v where "v = put_file (new_file u) (blank_file\<lparr>f_count := 1\<rparr>) (u\<lparr>filehead := head\<rparr>)"
    have "roomy v"
      using u(2) by (simp add: v_def roomy_def)
    moreover have "falloc fuel sleep new_file lim maxfiles s =
        (if maxfiles \<le> nfiles t then Some (t, Inl ENFILE)
         else Some (v\<lparr>p_fd := (p_fd v)\<lparr>fd_ofiles := (fd_ofiles (p_fd v))[i := Some (new_file u)]\<rparr>\<rparr>, Inr (new_file u, i)))"
      using t(1) Inr i by (simp add: falloc_def Let_def v_def head_def flip: u_def)
    ultimately show ?thesis
      using t(2) by simp
  qed
qed

lemma dupfdopen_returns:
  assumes "fd_inv others k (emptied i s)" and "holds (p_fd (emptied i s)) i None" and "roomy s"
  shows "\<exists>s' e. dupfdopen i dfd mode error s = Some (s', e)"
proof (cases "fdgetf (p_fd s) dfd")
  case None
  then show ?thesis
    using assms(2) by (simp add: dupfdopen_def holds_def)
next
  case (Some w)
  let ?fdp = "p_fd s"
  have i: "i < fd_nfiles ?fdp" "reserved (p_fd (emptied i s)) i"
    using assms(2) by (simp_all add: holds_def)
  note tidy = fd_invD(1) [OF assms(1)]
  have last: "fd_lastfile ?fdp < fd_nfiles ?fdp" "\<not> fd_lastfile ?fdp < i"
    using fd_tidyD(3) [OF tidy, of i] fd_tidyD(4) [OF tidy, of i] i by (auto simp: unused_def emptied_def)
  have d: "dfd < fd_nfiles ?fdp" "\<not> reserved ?fdp dfd" "fd_ofiles ?fdp ! dfd = Some w"
    using Some by (simp_all add: fdgetf_Some)
  have "dfd \<noteq> i"
    using d(2) i fd_tidyD(1) [OF tidy] by (auto simp: emptied_def reserved_def put_slot_def)
  then have "0 < slots (p_fd (emptied i s)) w"
    using d by (intro slot_positive [of dfd]) (simp_all add: emptied_def put_slot_def)
  then obtain t where "fref w (emptied i s) = Some t"
    using fref_returns [OF fd_invD(2) [OF assms(1)]] assms(3) by (auto simp: emptied_def)
  then obtain u where u: "fref w s = Some u"
    by (auto simp: emptied_def fref_table)
  obtain free where free: "fdrelse dfd (put_slot i (Some w) (fd_ofileflags ?fdp ! dfd) ?fdp) = Some free"
    using d(1) last(1) by (simp add: fdrelse_def Let_def)
  show ?thesis
    using Some i(1) last(2) u free by (cases error) (auto simp: dupfdopen_def Let_def)
qed

lemma open_failed_returns:
  assumes "fd_inv others k s" and "holds (p_fd s) i (Some fp)" and "others fp = 0" and "roomy s"
  shows "\<exists>s' r. open_failed fp i flags error dupfd s = Some (s', r)"
proof -
  define t where "t = ffree fp s"
  note E = ffree_emptied(1,2) [OF assms(1-3), folded t_def]
  obtain fdp where fdp: "fdrelse i (p_fd t) = Some fdp"
    using give_up_inv [OF E] by blast
  then have give_up: "\<exists>s' r. give_up i e t = Some (s', r)" for e
    by (simp add: give_up_def)
  have rt: "roomy t"
    using assms(4) by (simp add: t_def)
  show ?thesis
  proof (cases "\<exists>dfd. dupfd = Some dfd \<and> (error = ENODEV \<or> error = ENXIO)")
    case False
    then show ?thesis
      using give_up by (cases dupfd) (auto simp: open_failed_def Let_def simp flip: t_def)
  next
    case True
    then obtain dfd where dfd: "dupfd = Some dfd" "error = ENODEV \<or> error = ENXIO"
      by blast
    obtain u e where u: "dupfdopen i dfd (ucast flags) error t = Some (u, e)"
      using dupfdopen_returns [OF E rt] by blast
    have "open_failed fp i flags error dupfd s = (case e of None \<Rightarrow> Some (u, Inr i) | Some e \<Rightarrow> give_up i e u)"
      using dfd u by (simp add: open_failed_def flip: t_def)
    then show ?thesis
      using dupfdopen_inv [OF E u] give_up by (cases e) auto
  qed
qed

lemma open_done_returns:
  assumes "polite sleep" and "in_open others k fdp fp i s" and "others fp = 0"
  shows "\<exists>s' r. open_done sleep advlock_error fp i flags s = Some (s', r)"
proof -
  note O = in_open_steps(1) [OF _ assms(1)] in_open_steps(2,3)
  define s1 where "s1 = put_file fp ((file_at s fp)\<lparr>f_flag := ucast flags AND FMASK, f_type := DTYPE_VNODE, f_ops := True\<rparr>) s"
  define c where "c = lock_file fp (flags AND 0x20 \<noteq> 0) (flags AND 4 = 0)"
  define s3 where "s3 = sleep 3 (fd_call (vn_close fp) (sleep 2 (fd_call c s1)))"
  have "in_open others k fdp fp i s1"
    unfolding s1_def by (rule O(2) [OF assms(2)]) simp
  then have "in_open others k fdp fp i s3"
    unfolding s3_def by (intro O(1) O(3))
  then have h: "fd_inv others k s3" "holds (p_fd s3) i (Some fp)"
    by (simp_all add: in_open_def)
  obtain free where "fdrelse i (p_fd (ffree fp s3)) = Some free"
    using give_up_inv [OF ffree_emptied(1,2) [OF h assms(3)]] by blast
  then show ?thesis
    by (cases "advlock_error c") (simp_all add: open_done_def Let_def s3_def s1_def c_def)
qed

lemma open_call_returns:
  assumes "polite sleep" and "lim \<le> 65536" and "leaves_room sleep" and "fd_inv others k s" and "roomy s" and "lim < fuel"
    and "fresh_files new_file"
  shows "\<exists>s' r. open_call fuel sleep new_file lim maxfiles advlock_error vn_open oflags s = Some (s', r)"
proof (cases "FFLAGS oflags AND 3 = 0")
  case True
  then show ?thesis
    by (simp add: open_call_def)
next
  case False
  obtain t q where t: "falloc fuel sleep new_file lim maxfiles s = Some (t, q)" "roomy t"
    using falloc_returns [OF assms(1-6)] by blast
  show ?thesis
  proof (cases q)
    case (Inl e)
    then show ?thesis
      using t(1) False by (simp add: open_call_def)
  next
    case (Inr fi)
    obtain fp i where fi: "fi = (fp, i)"
      by (cases fi)
    note A = falloc_inv [OF assms(1,2,7,4) t(1)]
    have o: "in_open others k (p_fd s) fp i t" and z: "others fp = 0" and inv: "fd_inv others k t"
      using A Inr fi by (simp_all add: in_open_def)
    note u = in_open_steps(1) [OF o assms(1), of 1] z leaves_roomD [OF assms(3) inv t(2), of 1]
    then show ?thesis
      using open_failed_returns [of others k "sleep 1 t" i fp] open_done_returns [OF assms(1) u(1,2)] t(1) Inr fi False
      by (cases vn_open) (auto simp: open_call_def in_open_def)
  qed
qed

end
