(* ===== verification/Fd_Steps.thy ===== *)
theory Fd_Steps
  imports Fd_Total
begin

text \<open>
  The calls of a process on its table as the steps of a system: any sequence of calls of other threads is a sleep
  on which a call may rely.
\<close>

text \<open>The system calls of a process on its table; the environment of a call is what the rest of the kernel
  answers.\<close>

datatype fd_op =
    Dup nat
  | Dup2 nat nat
  | Close nat
  | Fcntl nat fcntl_cmd
  | Falloc
  | Flock nat u8
  | Exec
  | Open u32 "(errno \<times> nat option) option"

record fd_env =
  en_fuel :: nat
  en_sleep :: "nat \<Rightarrow> fd_state \<Rightarrow> fd_state"
  en_lim :: nat
  en_maxfiles :: int
  en_advlock :: bool
  en_close :: "nat \<Rightarrow> errno option"
  en_ioctl :: "bool \<Rightarrow> u16 \<Rightarrow> errno option"
  en_lock :: "fd_call \<Rightarrow> errno option"
  en_new_file :: "fd_state \<Rightarrow> nat"

definition fd_do :: "fd_env \<Rightarrow> fd_op \<Rightarrow> fd_state \<Rightarrow> fd_state option" where
  "fd_do en op s =
     (case op of
        Dup old \<Rightarrow> map_option fst (dup (en_fuel en) (en_sleep en) (en_lim en) old s)
      | Dup2 old new \<Rightarrow>
          map_option fst (dup2 (en_fuel en) (en_sleep en) (en_advlock en) (en_close en) (en_lim en) old new s)
      | Close fd \<Rightarrow> map_option fst (close_fd (en_sleep en) (en_advlock en) (en_close en) fd s)
      | Fcntl fd cmd \<Rightarrow> map_option fst (fcntl (en_fuel en) (en_sleep en) (en_ioctl en) (en_lim en) fd cmd s)
      | Falloc \<Rightarrow>
          map_option fst (falloc (en_fuel en) (en_sleep en) (en_new_file en) (en_lim en) (en_maxfiles en) s)
      | Flock fd how \<Rightarrow> Some (fst (flock (en_lock en) fd how s))
      | Exec \<Rightarrow> if fd_nfiles (p_fd s) = 0 then None else fdexec (en_advlock en) (en_close en) s
      | Open flags vn_open \<Rightarrow>
          map_option fst (open_call (en_fuel en) (en_sleep en) (en_new_file en) (en_lim en) (en_maxfiles en) (en_lock en)
            vn_open flags s))"

text \<open>What other threads do during a sleep: calls that they start and complete, each of them disturbed in turn by politely
  behaving threads whenever it sleeps itself.\<close>

inductive fd_steps :: "fd_state \<Rightarrow> fd_state \<Rightarrow> bool" where
  refl: "fd_steps s s"
| step: "fd_steps s t \<Longrightarrow> polite (en_sleep en) \<Longrightarrow> en_lim en \<le> 65536 \<Longrightarrow> fresh_files (en_new_file en) \<Longrightarrow>
    fd_do en op t = Some u \<Longrightarrow> fd_steps s u"

lemma fd_do_inv:
  assumes "polite (en_sleep en)" and "en_lim en \<le> 65536" and "fresh_files (en_new_file en)"
    and "fd_inv others k s" and "fd_do en op s = Some s'"
  shows "fd_inv others k s' \<and> keeps (p_fd s) (p_fd s')"
proof (cases op)
  case (Dup old)
  then obtain r where "dup (en_fuel en) (en_sleep en) (en_lim en) old s = Some (s', r)"
    using assms(5) by (auto simp: fd_do_def)
  then show ?thesis
    using fdalloc_finishdup_inv [OF assms(1,2,4)] assms(4) by (auto simp: dup_def split: if_splits)
next
  case (Dup2 old new)
  then show ?thesis
    using assms(5) dup2_inv [OF assms(1,2,4)] by (auto simp: fd_do_def)
next
  case (Close fd)
  then show ?thesis
    using assms(5) close_fd_inv [OF assms(1,4), of "en_advlock en" "en_close en" fd] by (auto simp: fd_do_def)
next
  case (Fcntl fd cmd)
  then show ?thesis
    using assms(5) fcntl_inv [OF assms(1,2,4)] by (auto simp: fd_do_def)
next
  case Falloc
  then show ?thesis
    using assms(5) falloc_inv [OF assms(1-4)] by (fastforce simp: fd_do_def)
next
  case (Flock fd how)
  then show ?thesis
    using assms(5) flock_inv [OF assms(4) prod.collapse [symmetric], of "en_lock en" fd how] by (simp add: fd_do_def)
next
  case Exec
  then show ?thesis
    using assms(5) fdexec_inv [OF assms(4), of "en_advlock en" "en_close en"] by (auto simp: fd_do_def split: if_splits)
next
  case (Open flags vn_open)
  then show ?thesis
    using assms(5) open_call_inv [OF assms(1-4)] by (auto simp: fd_do_def)
qed

lemma fd_do_returns:
  assumes "polite (en_sleep en)" and "en_lim en \<le> 65536" and "fresh_files (en_new_file en)"
    and "fd_inv others k s" and "leaves_room (en_sleep en)" and "roomy s" and "en_lim en < en_fuel en" and "0 < fd_nfiles (p_fd s)"
  shows "\<exists>s'. fd_do en op s = Some s'"
proof (cases op)
  case (Dup old)
  show ?thesis
  proof (cases "fdgetf (p_fd s) old")
    case (Some fp)
    then have "old < fd_nfiles (p_fd s)"
      by (simp add: fdgetf_Some)
    from fdalloc_finishdup_returns [OF assms(1,2,5,4,6,7) this, of 0] show ?thesis
      using Dup Some by (auto simp: fd_do_def dup_def)
  qed (simp add: Dup fd_do_def dup_def)
next
  case (Dup2 old new)
  then show ?thesis
    using dup2_returns [OF assms(1,2,5,4,6,7), of "en_advlock en" "en_close en" old new] by (auto simp: fd_do_def)
next
  case (Close fd)
  then show ?thesis
    using close_fd_inv [OF assms(1,4), of "en_advlock en" "en_close en" fd] by (auto simp: fd_do_def)
next
  case (Fcntl fd cmd)
  then show ?thesis
    using fcntl_returns [OF assms(1,2,5,4,6,7), of "en_ioctl en" fd cmd] by (auto simp: fd_do_def)
next
  case Falloc
  then show ?thesis
    using falloc_returns [OF assms(1,2,5,4,6,7), of "en_new_file en" "en_maxfiles en"] by (auto simp: fd_do_def)
next
  case Exec
  then show ?thesis
    using fdexec_inv [OF assms(4,8), of "en_advlock en" "en_close en"] assms(8) by (auto simp: fd_do_def)
next
  case (Open flags vn_open)
  then show ?thesis
    using open_call_returns [OF assms(1,2,5,4,6,7,3), of "en_maxfiles en" "en_lock en" vn_open flags] by (auto simp: fd_do_def)
qed (simp add: fd_do_def)

lemma steps_keep:
  assumes "fd_steps s s'" and "fd_inv others k s"
  shows "fd_inv others k s' \<and> keeps (p_fd s) (p_fd s')"
  using assms
proof induction
  case (step s t en op u)
  then show ?case
    using fd_do_inv [of en others k t op u] keeps_trans by blast
qed simp

lemma steps_polite: "(\<And>n t. fd_steps t (sleep n t)) \<Longrightarrow> polite sleep"
  unfolding polite_def using steps_keep by blast

end
