(* ===== verification/Fd_Props.thy ===== *)
theory Fd_Props
  imports Fd_Steps
begin

text \<open>
  What the descriptor calls do: the invariant under interference, the least free descriptor, duplication onto a
  descriptor, the closing at \<open>exec\<close>, the copy at \<open>fork\<close>, and three ways in which descriptors or memory are lost.
\<close>

section \<open>A sample process\<close>

text \<open>Two open files, the first under two descriptors; descriptor 1 closes at exec, descriptor 2 is mapped.\<close>

definition sample_files :: "nat \<Rightarrow> open_file" where
  "sample_files fp =
     (if fp = 1 then \<lparr>f_flag = FREAD, f_type = DTYPE_VNODE, f_count = 2, f_ops = True\<rparr>
      else if fp = 2 then \<lparr>f_flag = FWRITE, f_type = DTYPE_SOCKET, f_count = 1, f_ops = True\<rparr>
      else blank_file)"

definition fd_sample :: fd_state where
  "fd_sample = \<lparr>p_fd = \<lparr>fd_ofiles = [Some 1, Some 2, Some 1] @ replicate 22 None,
       fd_ofileflags = [0, UF_EXCLOSE, UF_MAPPED] @ replicate 22 0, fd_cdir = 7, fd_rdir = None,
       fd_lastfile = 2, fd_freefile = 2, fd_refcnt = 1\<rparr>,
     file_at = sample_files, filehead = [1, 2], nfiles = 2, fd_calls = []\<rparr>"

lemma sample_slots:
  "fd_nfiles (p_fd fd_sample) = 25" "fd_lastfile (p_fd fd_sample) = 2" "fd_freefile (p_fd fd_sample) = 2"
  "slots (p_fd fd_sample) x = (if x = 1 then 2 else if x = 2 then 1 else 0)"
  by (auto simp: fd_sample_def slots_def count_list_0_iff)

lemma sample_unused: "i < 25 \<Longrightarrow> unused (p_fd fd_sample) i \<longleftrightarrow> 2 < i"
proof -
  have "i < 25 \<Longrightarrow> 2 < i \<Longrightarrow> \<exists>j. i = Suc (Suc (Suc j)) \<and> j < 22"
    by (intro exI [of _ "i - 3"]) auto
  moreover have "i \<le> 2 \<Longrightarrow> i = 0 \<or> i = 1 \<or> i = 2"
    by auto
  ultimately show "i < 25 \<Longrightarrow> unused (p_fd fd_sample) i \<longleftrightarrow> 2 < i"
    by (cases "2 < i") (auto simp: fd_sample_def unused_def reserved_def)
qed

lemma sample_inv: "fd_inv (\<lambda>_. 0) (0, {}) fd_sample"
proof -
  have "fd_tidy (p_fd fd_sample)"
    by (rule fd_tidyI) (simp_all add: sample_slots sample_unused, simp add: fd_sample_def)
  moreover have "refs_ok (\<lambda>_. 0) (0, {}) fd_sample"
    unfolding refs_ok_def sample_slots by (auto simp: fd_sample_def sample_files_def blank_file_def)
  ultimately show ?thesis
    by (simp add: fd_inv_def)
qed

lemma quiet_polite: "polite quiet"
  by (simp add: polite_def)

definition above_all :: "fd_state \<Rightarrow> nat" where "above_all s = foldr max (filehead s) 0 + 1"

lemma above_all_fresh: "fresh_files above_all"
proof -
  have "x \<in> set xs \<Longrightarrow> x \<le> foldr max xs 0" for x :: nat and xs
    by (induction xs) auto
  then show ?thesis
    by (fastforce simp: fresh_files_def above_all_def)
qed


section \<open>Interference\<close>






section \<open>The least descriptor\<close>

definition in_use :: "filedesc \<Rightarrow> nat \<Rightarrow> bool" where
  "in_use fdp i \<longleftrightarrow> i < fd_nfiles fdp \<and> \<not> unused fdp i"

definition file_of :: "filedesc \<Rightarrow> nat \<Rightarrow> nat option" where
  "file_of fdp i = (if i < fd_nfiles fdp then fd_ofiles fdp ! i else None)"

text \<open>Below \<open>fd_freefile\<close> everything is in use.\<close>

definition fd_dense :: "filedesc \<Rightarrow> bool" where
  "fd_dense fdp \<longleftrightarrow> fd_freefile fdp \<le> fd_nfiles fdp \<and> (\<forall>i < fd_freefile fdp. in_use fdp i)"

lemma reserve_view:
  assumes "fd_tidy fdp" and "i < fd_nfiles fdp" and "unused fdp i"
  shows "in_use (reserve want i fdp) j \<longleftrightarrow> j = i \<or> in_use fdp j" and "file_of (reserve want i fdp) = file_of fdp"
  using assms(2,3) reserve_reserved [OF fd_tidyD(1) [OF assms(1)] assms(2), of want]
  by (auto simp: in_use_def unused_def file_of_def fun_eq_iff)

lemma extend_view:
  assumes "length (fd_ofileflags fdp) = fd_nfiles fdp" and "fd_nfiles fdp \<le> n"
  shows "in_use (grow_files n fdp) j \<longleftrightarrow> in_use fdp j" and "file_of (grow_files n fdp) = file_of fdp"
  using assms extend_at(1) [OF assms(1), of j n]
  by (auto simp: in_use_def file_of_def grow_files_def nth_append fun_eq_iff)

text \<open>The outcome of \<open>fdalloc\<close> with nothing else going on.\<close>

definition least_taken :: "nat \<Rightarrow> nat \<Rightarrow> filedesc \<Rightarrow> filedesc \<Rightarrow> errno + nat \<Rightarrow> bool" where
  "least_taken lim want fdp fdp' r \<longleftrightarrow>
     file_of fdp' = file_of fdp \<and>
     (case r of
        Inl e \<Rightarrow> e = EMFILE \<and> (\<forall>i. want \<le> i \<and> i < lim \<longrightarrow> in_use fdp i) \<and> (\<forall>i. in_use fdp' i \<longleftrightarrow> in_use fdp i)
      | Inr i \<Rightarrow> want \<le> i \<and> i < lim \<and> \<not> in_use fdp i \<and> (\<forall>j. want \<le> j \<and> j < i \<longrightarrow> in_use fdp j) \<and>
          pending fdp' i \<and> (\<forall>j. in_use fdp' j \<longleftrightarrow> j = i \<or> in_use fdp j))"

definition flags_kept :: "errno + nat \<Rightarrow> filedesc \<Rightarrow> filedesc \<Rightarrow> bool" where
  "flags_kept r fdp fdp' \<longleftrightarrow> fd_nfiles fdp \<le> fd_nfiles fdp' \<and>
     (\<forall>j < fd_nfiles fdp. r \<noteq> Inr j \<longrightarrow> fd_ofileflags fdp' ! j = fd_ofileflags fdp ! j)"

lemma least_dense:
  "fd_dense fdp \<Longrightarrow> least_taken lim (max want (fd_freefile fdp)) fdp fdp' r \<Longrightarrow> least_taken lim want fdp fdp' r"
proof (cases r)
  case (Inl e)
  assume d: "fd_dense fdp" "least_taken lim (max want (fd_freefile fdp)) fdp fdp' r"
  have "in_use fdp i" if "want \<le> i" "i < lim" for i
    using that d Inl by (cases "i < fd_freefile fdp") (auto simp: least_taken_def fd_dense_def)
  then show ?thesis
    using d(2) Inl by (simp add: least_taken_def)
next
  case (Inr i)
  assume d: "fd_dense fdp" "least_taken lim (max want (fd_freefile fdp)) fdp fdp' r"
  have "in_use fdp j" if "want \<le> j" "j < i" for j
    using that d Inr by (cases "j < fd_freefile fdp") (auto simp: least_taken_def fd_dense_def)
  then show ?thesis
    using d(2) Inr by (simp add: least_taken_def)
qed

lemma fdalloc_quiet:
  assumes "lim \<le> 65536"
  shows "fd_inv others k s \<Longrightarrow> lim - fd_nfiles (p_fd s) < fuel \<Longrightarrow>
    \<exists>fdp r. fdalloc fuel quiet lim want s = Some (s\<lparr>p_fd := fdp\<rparr>, r) \<and> fd_inv others k (s\<lparr>p_fd := fdp\<rparr>) \<and>
      (fd_dense (p_fd s) \<longrightarrow> fd_dense fdp) \<and> least_taken lim (max want (fd_freefile (p_fd s))) (p_fd s) fdp r \<and>
      flags_kept r (p_fd s) fdp"
proof (induction fuel arbitrary: s)
  case (Suc fuel)
  let ?fdp = "p_fd s"
  note tidy = fd_invD(1) [OF Suc.prems(1)]
  define start where "start = (if want < fd_freefile ?fdp then fd_freefile ?fdp else want)"
  have start: "start = max want (fd_freefile ?fdp)"
    by (simp add: start_def)
  show ?case
  proof (cases "find (unused ?fdp) [start..<min (fd_nfiles ?fdp) lim]")
    case (Some i)
    then have i: "start \<le> i" "i < fd_nfiles ?fdp" "i < lim" "unused ?fdp i"
      "\<forall>j. start \<le> j \<and> j < i \<longrightarrow> \<not> unused ?fdp j"
      using find_upt(1) [OF Some] by simp_all
    define new where "new = reserve want i ?fdp"
    have res: "fdalloc (Suc fuel) quiet lim want s = Some (s\<lparr>p_fd := new\<rparr>, Inr i)"
      using Some by (simp add: Let_def new_def flip: start_def)
    note V = reserve_view [OF tidy i(2,4), of want, folded new_def]
      and R = reserve_spec(1,2) [OF tidy i(2,4), of want, folded new_def]
    have small: "u_short i = i"
      using i(2) fd_tidyD(2) [OF tidy] by (simp add: u_short_def)
    have upto: "in_use ?fdp j" if "start \<le> j" "j < i" for j
      using i(2,5) that by (auto simp: in_use_def)
    have "fd_dense new" if dense: "fd_dense ?fdp"
    proof (cases "want \<le> fd_freefile ?fdp")
      case True
      then have "in_use ?fdp j" if "j < i" for j
        using upto [of j] dense that start by (cases "j < fd_freefile ?fdp") (auto simp: fd_dense_def)
      then show ?thesis
        using True small i(2) V(1) by (auto simp: fd_dense_def new_def reserve_def)
    next
      case False
      then show ?thesis
        using dense V(1) by (auto simp: fd_dense_def new_def reserve_def)
    qed
    moreover have "fd_inv others k (s\<lparr>p_fd := new\<rparr>)"
      by (rule fd_inv_table [OF Suc.prems(1) R(1)]) (simp add: new_def slots_def)
    moreover have "least_taken lim start ?fdp new (Inr i)"
      using V R(2) upto i(1-4) by (auto simp: least_taken_def in_use_def)
    moreover have "flags_kept (Inr i) ?fdp new"
      by (simp add: flags_kept_def new_def)
    ultimately show ?thesis
      using res unfolding start by blast
  next
    case None
    have full: "in_use ?fdp j" if "start \<le> j" "j < min (fd_nfiles ?fdp) lim" for j
      using find_upt(2) [OF None, of j] that by (auto simp: in_use_def)
    show ?thesis
    proof (cases "lim \<le> fd_nfiles ?fdp")
      case True
      then have "fdalloc (Suc fuel) quiet lim want s = Some (s\<lparr>p_fd := ?fdp\<rparr>, Inl EMFILE)"
        using None by (simp add: Let_def flip: start_def)
      moreover have "least_taken lim start ?fdp ?fdp (Inl EMFILE)"
        using full True by (simp add: least_taken_def)
      ultimately show ?thesis
        using Suc.prems(1) start by (intro exI [of _ ?fdp] exI [of _ "Inl EMFILE"]) (simp add: flags_kept_def)
    next
      case False
      define n where "n = (let n = (if fd_nfiles ?fdp < NDEXTENT then NDEXTENT else 2 * fd_nfiles ?fdp)
        in if lim < n then lim else n)"
      have n: "fd_nfiles ?fdp < n" "n \<le> 65536"
        using False assms by (auto simp: n_def Let_def NDEXTENT_def)
      define t where "t = s\<lparr>p_fd := grow_files n ?fdp\<rparr>"
      have step: "fdalloc (Suc fuel) quiet lim want s = fdalloc fuel quiet lim want t"
      proof -
        have "fdalloc (Suc fuel) quiet lim want s =
            (if n \<le> fd_nfiles ?fdp then fdalloc fuel quiet lim want s else fdalloc fuel quiet lim want t)"
          using None False by (simp only: fdalloc.simps Let_def t_def n_def option.case start_def [symmetric] if_False)
        then show ?thesis
          using n(1) by simp
      qed
      note E = extend_spec(1) [OF tidy n] and V = extend_view [OF fd_tidyD(1) [OF tidy] less_imp_le [OF n(1)]]
      have "fd_inv others k t"
        unfolding t_def by (rule fd_inv_table [OF Suc.prems(1) E]) simp
      moreover have dense: "fd_dense (p_fd t)" if "fd_dense ?fdp"
        using that V(1) n(1) by (simp add: t_def fd_dense_def)
      moreover have "lim - fd_nfiles (p_fd t) < fuel"
        using Suc.prems(2) n(1) False by (simp add: t_def)
      ultimately obtain fdp r where "fdalloc fuel quiet lim want t = Some (t\<lparr>p_fd := fdp\<rparr>, r)"
        "fd_inv others k (t\<lparr>p_fd := fdp\<rparr>)" "fd_dense ?fdp \<longrightarrow> fd_dense fdp"
        "least_taken lim (max want (fd_freefile (p_fd t))) (p_fd t) fdp r" "flags_kept r (p_fd t) fdp"
        using Suc.IH by blast
      moreover have "in_use (p_fd t) = in_use ?fdp" "file_of (p_fd t) = file_of ?fdp" "fd_freefile (p_fd t) = fd_freefile ?fdp"
        using V n(1) by (simp_all add: t_def fun_eq_iff)
      then have "least_taken lim (max want (fd_freefile (p_fd t))) (p_fd t) fdp r \<longleftrightarrow>
          least_taken lim (max want (fd_freefile ?fdp)) ?fdp fdp r" for fdp r
        unfolding least_taken_def by (simp only:)
      moreover have "t\<lparr>p_fd := fdp\<rparr> = s\<lparr>p_fd := fdp\<rparr>" for fdp
        by (simp add: t_def)
      moreover have "flags_kept r ?fdp fdp" if "flags_kept r (p_fd t) fdp" for r fdp
        using that n(1) fd_tidyD(1) [OF tidy] by (auto simp: flags_kept_def t_def grow_files_def nth_append)
      ultimately show ?thesis
        unfolding step by auto
    qed
  qed
qed simp

text \<open>
  C30. With nothing else going on, \<open>fdalloc\<close> terminates, changes no file pointer, and reserves the least unused
  descriptor below the limit that is neither below \<open>want\<close> nor below \<open>fd_freefile\<close>; it reports \<open>EMFILE\<close> exactly when
  all of them are in use. In a table where everything below \<open>fd_freefile\<close> is in use, which it keeps so, that is the
  least unused descriptor from \<open>want\<close> on (closing at \<open>exec\<close> loses this).
\<close>

theorem fdalloc_least:
  assumes "fd_inv others k s" and "lim \<le> 65536" and "lim < fuel"
  shows "\<exists>fdp r. fdalloc fuel quiet lim want s = Some (s\<lparr>p_fd := fdp\<rparr>, r) \<and> fd_inv others k (s\<lparr>p_fd := fdp\<rparr>) \<and>
    least_taken lim (max want (fd_freefile (p_fd s))) (p_fd s) fdp r \<and>
    (fd_dense (p_fd s) \<longrightarrow> fd_dense fdp \<and> least_taken lim want (p_fd s) fdp r)"
proof -
  have "lim - fd_nfiles (p_fd s) < fuel"
    using assms(3) by simp
  then show ?thesis
    using fdalloc_quiet [OF assms(2,1)] least_dense by blast
qed

lemma sample_dense: "fd_dense (p_fd fd_sample)"
  by (simp add: fd_dense_def sample_slots in_use_def sample_unused)

lemma fdalloc_least_witness:
  "\<exists>fdp r. fdalloc 50 quiet 40 0 fd_sample = Some (fd_sample\<lparr>p_fd := fdp\<rparr>, r) \<and>
    fd_inv (\<lambda>_. 0) (0, {}) (fd_sample\<lparr>p_fd := fdp\<rparr>) \<and> fd_dense fdp \<and> least_taken 40 0 (p_fd fd_sample) fdp r"
  using fdalloc_least [OF sample_inv, of 40 50 0] sample_dense by auto

section \<open>Duplication onto a descriptor\<close>









section \<open>Closing at exec\<close>

definition closes :: "filedesc \<Rightarrow> nat \<Rightarrow> bool" where
  "closes fdp i \<longleftrightarrow> i < fd_nfiles fdp \<and> fd_ofileflags fdp ! i AND (UF_RESERVED OR UF_EXCLOSE) = UF_EXCLOSE"

definition exec_view :: "nat \<Rightarrow> filedesc \<Rightarrow> filedesc \<Rightarrow> bool" where
  "exec_view i fdp fdp' \<longleftrightarrow>
     (\<forall>j. file_of fdp' j = (if j < i \<and> closes fdp j then None else file_of fdp j)) \<and>
     (\<forall>j. j < i \<and> closes fdp j \<longrightarrow> unused fdp' j) \<and> (\<forall>j. i \<le> j \<longrightarrow> unused fdp' j \<longleftrightarrow> unused fdp j) \<and>
     fd_freefile fdp' = fd_freefile fdp"

lemma fdexec_from_view:
  "fd_inv others k s \<Longrightarrow> i \<le> fd_nfiles (p_fd s) \<Longrightarrow> fdexec_from i advlock close_error s = Some s' \<Longrightarrow>
    exec_view i (p_fd s) (p_fd s')"
proof (induction i arbitrary: s)
  case 0
  then show ?case
    by (simp add: exec_view_def)
next
  case (Suc i)
  let ?fdp = "p_fd s"
  let ?flags = "fd_ofileflags ?fdp ! i"
  have i: "i < fd_nfiles ?fdp"
    using Suc.prems(2) by simp
  note len = fd_tidyD(1) [OF fd_invD(1) [OF Suc.prems(1)]]
  show ?case
  proof (cases "closes ?fdp i")
    case True
    then have flags: "?flags AND (UF_RESERVED OR UF_EXCLOSE) = UF_EXCLOSE"
      by (simp add: closes_def)
    define put where "put = put_slot i None 0 ?fdp"
    define low where "low = (if i = fd_lastfile put \<and> 0 < i then put\<lparr>fd_lastfile := fd_lastfile put - 1\<rparr> else put)"
    note L = fdexec_closed [OF Suc.prems(1) i flags put_def low_def]
    obtain t e where t: "closef quiet advlock close_error (fd_ofiles ?fdp ! i) (s\<lparr>p_fd := low\<rparr>) = Some (t, e)"
      "fd_inv others k t" "p_fd t = low"
      using closef_opt [OF Suc.prems(1) i L(1,3)] by blast
    have "fdexec_from i advlock close_error t = Some s'"
      using Suc.prems(3) i flags t(1) by (simp add: Let_def flip: put_def low_def)
    from Suc.IH [OF t(2) _ this] have IH: "exec_view i low (p_fd s')"
      using i L(3) t(3) by simp
    have low: "fd_ofileflags low = (fd_ofileflags ?fdp)[i := 0]" "fd_freefile low = fd_freefile ?fdp"
      by (simp_all add: low_def put_def put_slot_def)
    have "closes low j = closes ?fdp j" "file_of low j = file_of ?fdp j" "unused low j = unused ?fdp j" if "j \<noteq> i" for j
      using that L(3) low(1) by (simp_all add: closes_def file_of_def unused_def reserved_def)
    moreover have "file_of low i = None" "unused low i"
      using i len L(3) low(1) by (simp_all add: file_of_def unused_def reserved_def)
    ultimately show ?thesis
      using IH True low(2) unfolding exec_view_def by (metis less_Suc_eq not_less_eq_eq Suc_leD less_irrefl order_refl)
  next
    case False
    then have flags: "?flags AND (UF_RESERVED OR UF_EXCLOSE) \<noteq> UF_EXCLOSE"
      using i by (simp add: closes_def)
    define fdp where "fdp = ?fdp\<lparr>fd_ofileflags := (fd_ofileflags ?fdp)[i := ?flags AND NOT UF_MAPPED]\<rparr>"
    note U = fdexec_unmapped [OF Suc.prems(1) i fdp_def]
    have "fdexec_from i advlock close_error (s\<lparr>p_fd := fdp\<rparr>) = Some s'"
      using Suc.prems(3) i flags by (simp add: Let_def fdp_def)
    from Suc.IH [OF U(1) _ this] have IH: "exec_view i fdp (p_fd s')"
      using i by (simp add: fdp_def)
    have "closes fdp j = closes ?fdp j" "file_of fdp j = file_of ?fdp j" "unused fdp j = unused ?fdp j" if "j \<noteq> i" for j
      using that by (simp_all add: fdp_def closes_def file_of_def unused_def reserved_def)
    moreover have "file_of fdp i = file_of ?fdp i" "fd_freefile fdp = fd_freefile ?fdp"
      by (simp_all add: fdp_def file_of_def)
    ultimately show ?thesis
      using IH False unfolding exec_view_def by (metis less_Suc_eq not_less_eq_eq Suc_leD less_irrefl order_refl)
  qed
qed

lemma fdexec_view:
  assumes "fd_inv others k s" and "0 < fd_nfiles (p_fd s)"
  shows "\<exists>s'. fdexec advlock close_error s = Some s' \<and> fd_inv others k s' \<and>
    exec_view (fd_lastfile (p_fd s) + 1) (p_fd s) (p_fd s')"
proof -
  obtain s' where s': "fdexec advlock close_error s = Some s'" "fd_inv others k s'"
    using fdexec_inv [OF assms] by blast
  have "fd_lastfile (p_fd s) + 1 \<le> fd_nfiles (p_fd s)"
    using fd_tidyD(3) [OF fd_invD(1) [OF assms(1)] assms(2)] by simp
  then show ?thesis
    using s' fdexec_from_view [OF assms(1)] by (auto simp: fdexec_def)
qed

lemma above_unused:
  assumes "fd_tidy fdp" and "fd_lastfile fdp < j"
  shows "file_of fdp j = None" and "j < fd_nfiles fdp \<Longrightarrow> unused fdp j"
  using fd_tidyD(4) [OF assms(1) _ assms(2)] by (auto simp: file_of_def unused_def)

text \<open>
  At \<open>exec\<close> exactly the open descriptors marked for closing are closed, and every other descriptor keeps its
  file.
\<close>

theorem fdexec_effect:
  assumes "fd_inv others k s" and "0 < fd_nfiles (p_fd s)"
  shows "\<exists>s'. fdexec advlock close_error s = Some s' \<and> fd_inv others k s' \<and>
    (\<forall>j. file_of (p_fd s') j = (if closes (p_fd s) j then None else file_of (p_fd s) j))"
proof -
  obtain s' where s': "fdexec advlock close_error s = Some s'" "fd_inv others k s'"
    "exec_view (fd_lastfile (p_fd s) + 1) (p_fd s) (p_fd s')"
    using fdexec_view [OF assms] by blast
  have "file_of (p_fd s) j = None" if "\<not> j < fd_lastfile (p_fd s) + 1" for j
    using above_unused(1) [OF fd_invD(1) [OF assms(1)], of j] that by simp
  then have "file_of (p_fd s') j = (if closes (p_fd s) j then None else file_of (p_fd s) j)" for j
    using s'(3) by (cases "j < fd_lastfile (p_fd s) + 1") (simp_all add: exec_view_def)
  then show ?thesis
    using s'(1,2) by blast
qed

lemma fdexec_effect_witness:
  "\<exists>s'. fdexec True (\<lambda>_. None) fd_sample = Some s' \<and> fd_inv (\<lambda>_. 0) (0, {}) s' \<and>
    (\<forall>j. file_of (p_fd s') j = (if closes (p_fd fd_sample) j then None else file_of (p_fd fd_sample) j))"
  by (rule fdexec_effect [OF sample_inv]) (simp add: sample_slots)

lemma fdalloc_from_freefile:
  "fdalloc fuel quiet lim want s = Some (s', Inr i) \<Longrightarrow> fd_freefile (p_fd s) \<le> i"
proof (induction fuel arbitrary: s)
  case (Suc fuel)
  define start where "start = (if want < fd_freefile (p_fd s) then fd_freefile (p_fd s) else want)"
  show ?case
  proof (cases "find (unused (p_fd s)) [start..<min (fd_nfiles (p_fd s)) lim]")
    case None
    have "fd_freefile (p_fd (s\<lparr>p_fd := grow_files n (p_fd s)\<rparr>)) = fd_freefile (p_fd s)" for n
      by (simp add: grow_files_def)
    then show ?thesis
      using Suc.prems None Suc.IH [of s] Suc.IH [of "s\<lparr>p_fd := grow_files n (p_fd s)\<rparr>" for n]
      by (auto simp: Let_def simp flip: start_def split: if_splits)
  next
    case (Some x)
    then have "start \<le> x" "i = x"
      using find_upt(1) [OF Some] Suc.prems by (auto simp: Let_def simp flip: start_def)
    then show ?thesis
      by (simp add: start_def split: if_splits)
  qed
qed simp

text \<open>
  A descriptor below \<open>fd_freefile\<close> that \<open>exec\<close> closes is free, but \<open>fdexec\<close> does not lower \<open>fd_freefile\<close>: the
  next allocation gives a larger descriptor than the least free one.
\<close>

theorem exec_loses_lowest:
  assumes "fd_inv others k s" and "closes (p_fd s) j" and "j < fd_freefile (p_fd s)" and "j \<le> fd_lastfile (p_fd s)"
  shows "\<exists>s'. fdexec advlock close_error s = Some s' \<and> \<not> in_use (p_fd s') j \<and>
    (\<forall>fuel lim s'' i. fdalloc fuel quiet lim 0 s' = Some (s'', Inr i) \<longrightarrow> j < i)"
proof -
  have "0 < fd_nfiles (p_fd s)"
    using assms(2) by (auto simp: closes_def)
  then obtain s' where s': "fdexec advlock close_error s = Some s'"
    "exec_view (fd_lastfile (p_fd s) + 1) (p_fd s) (p_fd s')"
    using fdexec_view [OF assms(1)] by blast
  then have "unused (p_fd s') j" "j < fd_freefile (p_fd s')"
    using assms(2-4) by (simp_all add: exec_view_def)
  then show ?thesis
    using s'(1) fdalloc_from_freefile by (fastforce simp: in_use_def)
qed

lemma exec_loses_lowest_witness:
  "\<exists>s'. fdexec True (\<lambda>_. None) fd_sample = Some s' \<and> \<not> in_use (p_fd s') 1 \<and>
    (\<forall>fuel lim s'' i. fdalloc fuel quiet lim 0 s' = Some (s'', Inr i) \<longrightarrow> 1 < i)"
  by (rule exec_loses_lowest [OF sample_inv]) (simp_all add: sample_slots closes_def, simp add: fd_sample_def)

section \<open>The descriptor of a failed falloc\<close>

lemma fdalloc_error: "fdalloc fuel sleep lim want s = Some (s', Inl e) \<Longrightarrow> e = EMFILE"
proof (induction fuel arbitrary: s)
  case (Suc fuel)
  then show ?case
    by (auto simp: Let_def split: option.splits if_splits)
qed simp

text \<open>
  When \<open>falloc\<close> fails for lack of open files, the descriptor that it reserved stays reserved without a file,
  and no later sequence of calls gives it back.
\<close>

theorem falloc_leaks_descriptor:
  assumes "fd_inv others k s" and "polite sleep" and "lim \<le> 65536" and "fresh_files new_file"
    and "falloc fuel sleep new_file lim maxfiles s = Some (s', Inl ENFILE)"
  shows "\<exists>i. \<not> pending (p_fd s) i \<and> (\<forall>s''. fd_steps s' s'' \<longrightarrow> pending (p_fd s'') i)"
proof -
  obtain t q where t: "fdalloc fuel sleep lim 0 s = Some (t, q)"
    using assms(5) by (auto simp: falloc_def bind_eq_Some_conv)
  note A = fdalloc_inv [OF assms(2,3,1) t]
  obtain i where i: "q = Inr i" "s' = t"
    using assms(5) t fdalloc_error [of fuel sleep lim 0 s t]
    by (cases q) (auto simp: falloc_def Let_def split: if_splits)
  have "pending (p_fd s'') i" if "fd_steps s' s''" for s''
    using steps_keep [OF that, of others k] A i keepsD [of "p_fd s'" "p_fd s''" i] by simp
  then show ?thesis
    using A i(1) by blast
qed

lemma falloc_leaks_descriptor_witness:
  "\<exists>s'. falloc 50 quiet above_all 40 2 fd_sample = Some (s', Inl ENFILE) \<and>
    (\<exists>i. \<not> pending (p_fd fd_sample) i \<and> (\<forall>s''. fd_steps s' s'' \<longrightarrow> pending (p_fd s'') i))"
proof -
  have "40 - fd_nfiles (p_fd fd_sample) < 50"
    by simp
  then obtain fdp r where fdp: "fdalloc 50 quiet 40 0 fd_sample = Some (fd_sample\<lparr>p_fd := fdp\<rparr>, r)"
    "least_taken 40 0 (p_fd fd_sample) fdp r"
    using fdalloc_quiet [of 40 _ _ fd_sample 50 0, OF _ sample_inv] least_dense [OF sample_dense] by fastforce
  have "\<not> in_use (p_fd fd_sample) 30"
    by (simp add: in_use_def sample_slots)
  then obtain i where "r = Inr i"
    using fdp(2) by (cases r) (auto simp: least_taken_def)
  then obtain s' where s': "falloc 50 quiet above_all 40 2 fd_sample = Some (s', Inl ENFILE)"
    using fdp(1) by (simp add: falloc_def fd_sample_def)
  then show ?thesis
    using falloc_leaks_descriptor [OF sample_inv quiet_polite _ above_all_fresh s'] by auto
qed

section \<open>The copy\<close>





lemma shrink_le: "shrink used i \<le> i"
proof (induction used i rule: shrink.induct)
  case (1 used i)
  then show ?case
    by (subst shrink.simps) (auto intro: order_trans)
qed

text \<open>The sizes that doubling reaches are safe.\<close>

lemma shrink_doubled: "used < NDEXTENT * 2 ^ m \<Longrightarrow> used < shrink used (NDEXTENT * 2 ^ m)"
proof (induction m)
  case 0
  then show ?case
    by (subst shrink.simps) (simp add: NDEXTENT_def)
next
  case (Suc m)
  then show ?case
    by (subst shrink.simps) simp
qed

lemma copy_size_doubled:
  "fd_lastfile fdp < fd_nfiles fdp \<Longrightarrow> fd_nfiles fdp = NDEXTENT * 2 ^ m \<Longrightarrow> fd_lastfile fdp < copy_size fdp"
  using shrink_doubled [of "fd_lastfile fdp" m] by (simp add: copy_size_def)





text \<open>Reading or writing past the end of the copied arrays.\<close>

lemma share_files_outside:
  "i \<in> set is \<Longrightarrow> fd_nfiles fdp \<le> i \<Longrightarrow> share_files is fdp s = None"
proof (induction "is" arbitrary: fdp s)
  case (Cons j js)
  show ?case
  proof (cases "j = i")
    case False
    then have "share_files js fdp s' = None" "share_files js (put_slot j None 0 fdp) s' = None" for s'
      using Cons by simp_all
    then show ?thesis
      by (auto split: option.splits simp: bind_eq_None_conv)
  qed (use Cons.prems in simp)
qed simp

text \<open>
  C33. For a table of odd size, larger than two extents (100 elements), of which just less than half is in use, the halving in
  \<open>fdcopy\<close> ends at exactly \<open>fd_lastfile\<close> elements, and the loop that takes the references goes past the end of the
  arrays.
\<close>

theorem fdcopy_overruns:
  assumes "fd_nfiles (p_fd s) = 2 * fd_lastfile (p_fd s) + 1" and "2 * NDEXTENT < fd_nfiles (p_fd s)"
  shows "copy_size (p_fd s) = fd_lastfile (p_fd s) \<and> fdcopy quiet s = None"
proof -
  define m where "m = fd_lastfile (p_fd s)"
  have m: "fd_nfiles (p_fd s) = 2 * m + 1" "NDEXTENT \<le> m"
    using assms by (simp_all add: m_def)
  have "shrink m (2 * m + 1) = m"
    using m(2) by (subst shrink.simps) (simp add: shrink.simps [of m m])
  then have size: "copy_size (p_fd s) = m"
    using m by (simp add: copy_size_def NDFILE_def NDEXTENT_def flip: m_def)
  have "m \<in> set [0..<m + 1]"
    by simp
  then have "share_files [0..<m + 1] ((p_fd s)\<lparr>fd_refcnt := 1, fd_ofiles := take m (fd_ofiles (p_fd s)),
      fd_ofileflags := take m (fd_ofileflags (p_fd s))\<rparr>) t = None" for t
    by (rule share_files_outside) (use m(1) in simp)
  then have "fdcopy quiet s = None"
    using m size by (auto simp: fdcopy_def Let_def simp flip: m_def split: option.splits)
  then show ?thesis
    using size by (simp add: m_def)
qed

text \<open>A process with a limit of 101 that has used 51 descriptors.\<close>

definition fd_odd :: fd_state where
  "fd_odd = fd_sample\<lparr>p_fd := (p_fd fd_sample)\<lparr>fd_ofiles := replicate 51 (Some 2) @ replicate 50 None,
     fd_ofileflags := replicate 101 0, fd_lastfile := 50, fd_freefile := 50\<rparr>\<rparr>"

lemma fdcopy_overruns_witness:
  "copy_size (p_fd fd_odd) = 50 \<and> fdcopy quiet fd_odd = None \<and> fd_tidy (p_fd fd_odd)"
proof -
  have "fd_tidy (p_fd fd_odd)"
    by (rule fd_tidyI) (simp_all add: fd_odd_def unused_def reserved_def nth_append)
  then show ?thesis
    using fdcopy_overruns [of fd_odd] by (simp add: fd_odd_def NDEXTENT_def)
qed

lemma setfd_mapped:
  assumes "flags AND UF_MAPPED \<noteq> 0"
  shows "setfd_flags flags arg = UF_EXCLOSE"
proof -
  have bit: "bit flags 1"
    using assms and_exp_eq_0_iff_not_bit [of flags 1] by simp
  have "bit ((ucast (flags AND NOT UF_EXCLOSE) :: u32) OR (arg AND 1)) 1"
    using bit by (simp add: bit_simps)
  then have "(ucast (flags AND NOT UF_EXCLOSE) :: u32) OR (arg AND 1) \<noteq> 0"
    by (metis bit_0_eq bot_apply bot_bool_def)
  then show ?thesis
    unfolding setfd_flags_def by (rule if_P)
qed

text \<open>
  \<open>F_SETFD\<close> with any argument, zero included, sets the flag for closing at exec on a descriptor that is marked
  as mapped, since the assignment's conditional takes the whole disjunction as its condition.
\<close>

theorem setfd_of_mapped:
  assumes "fd_inv others k s" and "fdgetf (p_fd s) fd = Some fp" and "fd_ofileflags (p_fd s) ! fd AND UF_MAPPED \<noteq> 0"
  shows "\<exists>s'. fcntl fuel sleep ioctl lim fd (F_SETFD arg) s = Some (s', Inr 0) \<and> closes (p_fd s') fd"
proof -
  have fd: "fd < fd_nfiles (p_fd s)" "fd < length (fd_ofileflags (p_fd s))"
    using assms(2) fd_tidyD(1) [OF fd_invD(1) [OF assms(1)]] by (simp_all add: fdgetf_Some)
  then show ?thesis
    using assms(2) by (simp add: fcntl_def Let_def closes_def setfd_mapped [OF assms(3)])
qed

lemma setfd_of_mapped_witness:
  "\<exists>s'. fcntl 0 quiet (\<lambda>_ _. None) 40 2 (F_SETFD 0) fd_sample = Some (s', Inr 0) \<and> closes (p_fd s') 2"
  by (rule setfd_of_mapped [OF sample_inv]) (simp_all add: fd_sample_def fdgetf_def reserved_def)

end
