(* ===== verification/Fd_Undo.thy ===== *)
theory Fd_Undo
  imports Fd_Props
begin

text \<open>
  What is taken is given back: a failed \<open>open\<close> leaves no trace, \<open>exit\<close> drops every reference of a table, and a
  child that is forked and exits leaves the counts as they were.
\<close>

section \<open>A failed open\<close>

lemma remove_inserted: "fp \<notin> set xs \<Longrightarrow> fq \<in> set xs \<Longrightarrow> remove1 fp (insert_after fq fp xs) = xs"
  by (induction xs) (auto simp: remove1_idem)

lemma falloc_quiet:
  assumes "fdalloc fuel quiet lim 0 s = Some (s\<lparr>p_fd := fdp\<rparr>, Inr i)" and "nfiles s < maxfiles" and "i < fd_nfiles fdp"
    and "fp = new_file (s\<lparr>p_fd := fdp, nfiles := nfiles s + 1\<rparr>)"
    and "head = (case fd_ofiles fdp ! 0 of None \<Rightarrow> fp # filehead s | Some fq \<Rightarrow> insert_after fq fp (filehead s))"
  shows "falloc fuel quiet new_file lim maxfiles s =
    Some (put_file fp (blank_file\<lparr>f_count := 1\<rparr>)
      (s\<lparr>p_fd := put_slot i (Some fp) (fd_ofileflags fdp ! i) fdp, filehead := head, nfiles := nfiles s + 1\<rparr>), Inr (fp, i))"
  using assms(1-3) unfolding ofiles_put [symmetric] assms(4,5)
  by (cases "fd_ofiles fdp ! 0") (simp_all add: falloc_def Let_def put_file_def)

lemma released_view:
  assumes "fd_tidy fdp" and "pending fdp i" and "\<forall>j. in_use fdp j \<longleftrightarrow> j = i \<or> P j \<and> j \<noteq> i"
    and "fdrelse i (put_slot i (Some fp) (fd_ofileflags fdp ! i) fdp) = Some free"
  shows "file_of free = file_of fdp" and "fd_dense fdp \<longrightarrow> fd_dense free" and "in_use free j \<longleftrightarrow> P j \<and> j \<noteq> i"
proof -
  note len = fd_tidyD(1) [OF assms(1)]
  have "fd_tidy (put_slot i None 0 (put_slot i (Some fp) (fd_ofileflags fdp ! i) fdp))"
    using cleared_tidy [OF assms(1), of i] pendingD(1) [OF assms(2)] by (simp add: put_slot_def)
  then have F: "fd_ofiles free = (fd_ofiles fdp)[i := None]" "fd_ofileflags free = (fd_ofileflags fdp)[i := 0]"
    "fd_freefile free = min i (fd_freefile fdp)"
    using fdrelse_spec [of i "put_slot i (Some fp) (fd_ofileflags fdp ! i) fdp"] assms(4) pendingD(1) [OF assms(2)]
    by (auto simp: put_slot_def)
  have use: "in_use free j \<longleftrightarrow> P j \<and> j \<noteq> i" for j
    using assms(2) spec [OF assms(3), of j] len F(1,2)
    by (cases "j = i") (auto simp: in_use_def unused_def reserved_def pending_def)
  then show "in_use free j \<longleftrightarrow> P j \<and> j \<noteq> i" .
  show "file_of free = file_of fdp"
    using F(1) pendingD(1,2) [OF assms(2)] by (auto simp: file_of_def fun_eq_iff nth_list_update)
  show "fd_dense fdp \<longrightarrow> fd_dense free"
    using F spec [OF assms(3)] use by (auto simp: fd_dense_def)
qed

text \<open>Nothing is left of an \<open>open\<close> that failed.\<close>

definition undone :: "(nat \<Rightarrow> nat) \<Rightarrow> in_flight \<Rightarrow> fd_state \<Rightarrow> fd_state \<Rightarrow> bool" where
  "undone others k s s' \<longleftrightarrow>
     fd_inv others k s' \<and> (fd_dense (p_fd s) \<longrightarrow> fd_dense (p_fd s')) \<and> file_of (p_fd s') = file_of (p_fd s) \<and>
     in_use (p_fd s') = in_use (p_fd s) \<and> filehead s' = filehead s \<and> nfiles s' = nfiles s \<and>
     (\<forall>x \<in> set (filehead s). file_at s' x = file_at s x)"

text \<open>From the reservation of the least unused descriptor to the release of it and of the file.\<close>

lemma failed_open_restores:
  assumes "fd_inv others k (s\<lparr>p_fd := fdp\<rparr>)" and "fd_dense (p_fd s) \<longrightarrow> fd_dense fdp"
    and "least_taken lim start (p_fd s) fdp (Inr i)"
    and "fdalloc fuel quiet lim 0 s = Some (s\<lparr>p_fd := fdp\<rparr>, Inr i)" and "fd_inv others k s" and "lim \<le> 65536"
    and "fresh_files new_file" and "nfiles s < maxfiles"
  shows "\<exists>t fp free. falloc fuel quiet new_file lim maxfiles s = Some (t, Inr (fp, i)) \<and>
    fdrelse i (p_fd (ffree fp t)) = Some free \<and> undone others k s (ffree fp t\<lparr>p_fd := free\<rparr>) \<and>
    fd_inv others k (emptied i (ffree fp t)) \<and> holds (p_fd (emptied i (ffree fp t))) i None"
proof -
  have i: "pending fdp i" "\<not> in_use (p_fd s) i" "\<And>j. in_use fdp j \<longleftrightarrow> j = i \<or> in_use (p_fd s) j" "file_of fdp = file_of (p_fd s)"
    using assms(3) by (simp_all add: least_taken_def)
  define fp where "fp = new_file (s\<lparr>p_fd := fdp, nfiles := nfiles s + 1\<rparr>)"
  define head where
    "head = (case fd_ofiles fdp ! 0 of None \<Rightarrow> fp # filehead s | Some fq \<Rightarrow> insert_after fq fp (filehead s))"
  define t where "t = put_file fp (blank_file\<lparr>f_count := 1\<rparr>)
    (s\<lparr>p_fd := put_slot i (Some fp) (fd_ofileflags fdp ! i) fdp, filehead := head, nfiles := nfiles s + 1\<rparr>)"
  have t: "falloc fuel quiet new_file lim maxfiles s = Some (t, Inr (fp, i))"
    unfolding t_def by (rule falloc_quiet [where new_file = new_file, OF assms(4,8) pendingD(1) [OF i(1)] fp_def head_def])
  have H: "fd_inv others k t" "holds (p_fd t) i (Some fp)" "others fp = 0"
    using falloc_inv [OF quiet_polite assms(6,7,5) t] by simp_all
  have fresh: "fp \<notin> set (filehead s)"
    using spec [OF assms(7) [unfolded fresh_files_def], of "s\<lparr>p_fd := fdp, nfiles := nfiles s + 1\<rparr>"] by (simp add: fp_def)
  have removed: "remove1 fp head = filehead s"
  proof (cases "fd_ofiles fdp ! 0")
    case (Some fq)
    have "fq \<in> set (filehead s)"
      using refs_okD(3) [OF fd_invD(2) [OF assms(1)], of fq] slot_positive [of 0 fdp fq] pendingD(1) [OF i(1)] Some by force
    then show ?thesis
      using remove_inserted [OF fresh] Some by (simp add: head_def)
  qed (simp add: head_def)
  define u where "u = ffree fp t"
  note E = ffree_emptied(1,2) [OF H, folded u_def]
  obtain free where free: "fdrelse i (p_fd u) = Some free" "fd_inv others k (u\<lparr>p_fd := free\<rparr>)"
    using give_up_inv [OF E] by blast
  have pu: "p_fd u = put_slot i (Some fp) (fd_ofileflags fdp ! i) fdp"
    by (simp add: u_def t_def)
  have tidy: "fd_tidy fdp"
    using fd_invD(1) [OF assms(1)] by simp
  have "\<forall>j. in_use fdp j \<longleftrightarrow> j = i \<or> in_use (p_fd s) j \<and> j \<noteq> i"
    using i(3) by auto
  note F = released_view [OF tidy i(1) this free(1) [unfolded pu]]
  have "in_use free = in_use (p_fd s)"
    using F(3) i(2) by (auto simp: fun_eq_iff)
  moreover have "filehead u = filehead s" "nfiles u = nfiles s" "\<forall>x \<in> set (filehead s). file_at u x = file_at s x"
    using removed fresh by (auto simp: u_def t_def ffree_def)
  ultimately have "undone others k s (u\<lparr>p_fd := free\<rparr>)"
    using free(2) F(1,2) i(4) assms(2) by (simp add: undone_def)
  then show ?thesis
    using t free(1) E by (auto simp: u_def)
qed

lemma open_failed_gives_up:
  assumes "fd_inv others k (emptied i (ffree fp t))" and "holds (p_fd (emptied i (ffree fp t))) i None"
    and "open_failed fp i flags error dupfd t = Some (s', Inl e)"
  shows "\<exists>error. give_up i error (ffree fp t) = Some (s', Inl e)"
proof (cases "\<exists>dfd. dupfd = Some dfd \<and> (error = ENODEV \<or> error = ENXIO)")
  case False
  then show ?thesis
    using assms(3) by (cases dupfd) (auto simp: open_failed_def Let_def)
next
  case True
  then obtain dfd u de where d: "dupfdopen i dfd (ucast flags) error (ffree fp t) = Some (u, de)"
    "(case de of None \<Rightarrow> Some (u, Inr i) | Some e \<Rightarrow> give_up i e u) = Some (s', Inl e)"
    using assms(3) by (auto simp: open_failed_def Let_def bind_eq_Some_conv)
  then show ?thesis
    using dupfdopen_inv [OF assms(1,2) d(1)] by (cases de) auto
qed

text \<open>
  C34. With nothing else going on and fewer files open than the maximum, an \<open>open\<close> whose \<open>vn_open\<close> fails and that
  returns an error has undone everything: the same descriptors are in use with the same files, the list and the
  number of open files are as before, and everything below \<open>fd_freefile\<close> is in use if it was. It does return an error
  unless the descriptor device takes over, that is, has set \<open>p_dupfd\<close> and answered \<open>ENODEV\<close> or \<open>ENXIO\<close>.
\<close>

theorem open_failure_undone:
  assumes "fd_inv others k s" and "lim \<le> 65536" and "lim < fuel" and "fresh_files new_file" and "nfiles s < maxfiles"
  shows "(\<forall>s' e. open_call fuel quiet new_file lim maxfiles advlock_error (Some (error, dupfd)) oflags s = Some (s', Inl e) \<longrightarrow>
       undone others k s s') \<and>
    (dupfd = None \<or> error \<notin> {ENODEV, ENXIO} \<longrightarrow>
       (\<exists>s' e. open_call fuel quiet new_file lim maxfiles advlock_error (Some (error, dupfd)) oflags s = Some (s', Inl e)))"
proof (cases "FFLAGS oflags AND 3 = 0")
  case True
  then show ?thesis
    using assms(1) by (simp add: open_call_def undone_def)
next
  case flags: False
  have "lim - fd_nfiles (p_fd s) < fuel"
    using assms(3) by simp
  then obtain fdp q where A: "fdalloc fuel quiet lim 0 s = Some (s\<lparr>p_fd := fdp\<rparr>, q)" "fd_inv others k (s\<lparr>p_fd := fdp\<rparr>)"
    "fd_dense (p_fd s) \<longrightarrow> fd_dense fdp" "least_taken lim (max 0 (fd_freefile (p_fd s))) (p_fd s) fdp q"
    using fdalloc_quiet [OF assms(2,1)] by blast
  show ?thesis
  proof (cases q)
    case (Inl e)
    then have "falloc fuel quiet new_file lim maxfiles s = Some (s\<lparr>p_fd := fdp\<rparr>, Inl e)"
      using A(1) by (simp add: falloc_def)
    then show ?thesis
      using flags A(2-4) Inl by (auto simp: open_call_def least_taken_def undone_def fun_eq_iff)
  next
    case (Inr i)
    obtain t fp free where R: "falloc fuel quiet new_file lim maxfiles s = Some (t, Inr (fp, i))"
      "fdrelse i (p_fd (ffree fp t)) = Some free" "undone others k s (ffree fp t\<lparr>p_fd := free\<rparr>)"
      "fd_inv others k (emptied i (ffree fp t))" "holds (p_fd (emptied i (ffree fp t))) i None"
      using failed_open_restores [OF A(2,3) A(4) [unfolded Inr] A(1) [unfolded Inr] assms(1,2,4,5)] by blast
    have call: "open_call fuel quiet new_file lim maxfiles advlock_error (Some (error, dupfd)) oflags s =
        open_failed fp i (FFLAGS oflags) error dupfd t"
      using flags R(1) by (simp add: open_call_def)
    moreover have "undone others k s s'" if "open_failed fp i (FFLAGS oflags) error dupfd t = Some (s', Inl e)" for s' e
      using open_failed_gives_up [OF R(4,5) that] R(2,3) by (auto simp: give_up_def)
    moreover have "\<exists>s' e. open_failed fp i (FFLAGS oflags) error dupfd t = Some (s', Inl e)"
      if "dupfd = None \<or> error \<notin> {ENODEV, ENXIO}"
      using that R(2) by (cases dupfd) (auto simp: open_failed_def give_up_def Let_def)
    ultimately show ?thesis
      by simp
  qed
qed

lemma open_failure_undone_witness:
  "\<exists>s' e. open_call 50 quiet above_all 40 9 (\<lambda>_. None) (Some (EACCES, Some 0)) 2 fd_sample = Some (s', Inl e) \<and>
    undone (\<lambda>_. 0) (0, {}) fd_sample s'"
proof -
  have "nfiles fd_sample < 9"
    by (simp add: fd_sample_def)
  from open_failure_undone [OF sample_inv _ _ above_all_fresh this, of 40 50 "\<lambda>_. None" EACCES "Some 0" 2] show ?thesis
    by auto
qed

section \<open>The end of a process\<close>








end
