(* ===== verification/Mbuf_Store.thy ===== *)
theory Mbuf_Store
  imports Kernel_Prelude "HOL-Library.Monad_Syntax"
begin

text \<open>
  Network buffers, the allocation in bsd/kern/uipc_mbuf.c and the macros of sys/mbuf.h, for the PowerPC sizes.  An
  mbuf has an internal buffer, or shares an external one: a cluster, or memory with a routine to free it.  Mbufs
  that share one are linked in a ring.  A cluster that is cut up gives eight mbufs.  A chain is the list of its
  mbufs' addresses, so that the successor in the list stands for \<open>m_next\<close>.  \<open>None\<close> is a panic or an access outside a
  buffer.
\<close>

section \<open>Mbufs and the store\<close>

definition MSIZE :: nat where "MSIZE = 256"
definition MCLBYTES :: nat where "MCLBYTES = 2048"

text \<open>The sizes of \<open>struct m_hdr\<close> and \<open>struct pkthdr\<close> are 20 and 32.\<close>

definition MLEN :: nat where "MLEN = MSIZE - 20"
definition MHLEN :: nat where "MHLEN = MLEN - 32"
definition NMBPCL :: nat where "NMBPCL = MCLBYTES div MSIZE"

abbreviation M_EXT :: u16 where "M_EXT \<equiv> 0x0001"
abbreviation M_PKTHDR :: u16 where "M_PKTHDR \<equiv> 0x0002"
abbreviation M_COPYFLAGS :: u16 where "M_COPYFLAGS \<equiv> 0xff06"
abbreviation MT_FREE :: u16 where "MT_FREE \<equiv> 0"

record pkthdr =
  ph_len :: int
  rcvif :: "nat option"
  ph_header :: "nat option"
  csum_flags :: u32
  csum_data :: u32
  ph_aux :: "nat option"

text \<open>\<open>ext_buf\<close> is the number of a buffer; \<open>ext_free\<close> says whether there is a routine to free it.  The links of the
  ring are addresses of mbufs.\<close>

record m_ext =
  ext_buf :: nat
  ext_free :: bool
  ext_size :: nat
  ext_forward :: nat
  ext_backward :: nat

text \<open>\<open>m_data\<close> is an offset, in the internal buffer \<open>m_dat\<close> or in the external one; with a packet header the
  internal data begins at \<open>m_pktdat\<close>, 32 bytes into \<open>m_dat\<close>.\<close>

record mbuf =
  m_len :: nat
  m_data :: nat
  m_type :: u16
  m_flags :: u16
  m_pkthdr :: pkthdr
  m_ext :: m_ext
  m_dat :: "u8 list"

definition m_pktdat :: nat where "m_pktdat = MLEN - MHLEN"

text \<open>The mbufs by address, the external buffers by number, the free lists, the reference counts of the clusters
  (\<open>short\<close> in the code), and the calls of the routines that free other memory.\<close>

record mb_state =
  mb :: "nat \<Rightarrow> mbuf"
  buf :: "nat \<Rightarrow> u8 list"
  mfree :: "nat list"
  mclfree :: "nat list"
  mclrefcnt :: "nat \<Rightarrow> int"
  m_clusters :: nat
  ext_freed :: "nat list"
  m_fails :: nat

definition has :: "u16 \<Rightarrow> mbuf \<Rightarrow> bool" where "has flag x \<longleftrightarrow> m_flags x AND flag \<noteq> 0"

definition put :: "nat \<Rightarrow> mbuf \<Rightarrow> mb_state \<Rightarrow> mb_state" where
  "put m x s = s\<lparr>mb := (mb s)(m := x)\<rparr>"

definition mtocl :: "nat \<Rightarrow> nat" where "mtocl m = m div NMBPCL"

definition mcl_add :: "nat \<Rightarrow> int \<Rightarrow> mb_state \<Rightarrow> mb_state" where
  "mcl_add c d s = s\<lparr>mclrefcnt := (mclrefcnt s)(c := mclrefcnt s c + d)\<rparr>"

text \<open>The memory that an mbuf's data lies in.\<close>

definition memory :: "mb_state \<Rightarrow> nat \<Rightarrow> u8 list" where
  "memory s m = (if has M_EXT (mb s m) then buf s (ext_buf (m_ext (mb s m))) else m_dat (mb s m))"

section \<open>Rings of references\<close>

definition set_forward :: "nat \<Rightarrow> nat \<Rightarrow> mb_state \<Rightarrow> mb_state" where
  "set_forward m n s = put m ((mb s m)\<lparr>m_ext := (m_ext (mb s m))\<lparr>ext_forward := n\<rparr>\<rparr>) s"

definition set_backward :: "nat \<Rightarrow> nat \<Rightarrow> mb_state \<Rightarrow> mb_state" where
  "set_backward m n s = put m ((mb s m)\<lparr>m_ext := (m_ext (mb s m))\<lparr>ext_backward := n\<rparr>\<rparr>) s"

abbreviation forward :: "mb_state \<Rightarrow> nat \<Rightarrow> nat" where "forward s m \<equiv> ext_forward (m_ext (mb s m))"
abbreviation backward :: "mb_state \<Rightarrow> nat \<Rightarrow> nat" where "backward s m \<equiv> ext_backward (m_ext (mb s m))"

definition insque :: "nat \<Rightarrow> nat \<Rightarrow> mb_state \<Rightarrow> mb_state" where
  "insque m pred s =
     (let s = set_forward m (forward s pred) s;
          s = set_backward m pred s;
          s = set_backward (forward s pred) m s
      in set_forward pred m s)"

definition remque :: "nat \<Rightarrow> mb_state \<Rightarrow> mb_state" where
  "remque m s =
     (let s = set_backward (forward s m) (backward s m) s
      in set_forward (backward s m) (forward s m) s)"

definition MCLHASREFERENCE :: "mb_state \<Rightarrow> nat \<Rightarrow> bool" where
  "MCLHASREFERENCE s m \<longleftrightarrow> forward s m \<noteq> m"

section \<open>The pool of clusters\<close>

abbreviation MINCL :: int where "MINCL \<equiv> 16"

text \<open>\<open>m_clfree\<close> is the length of the free list.\<close>

definition m_howmany :: "int \<Rightarrow> mb_state \<Rightarrow> int" where
  "m_howmany nmbclusters s =
     (let clusters = int (m_clusters s) in
      if clusters < MINCL then MINCL - clusters
      else if clusters < nmbclusters \<and> 0 < clusters div 2 - int (length (mclfree s))
        then clusters div 2 - int (length (mclfree s))
      else 0)"

primrec mcl_fill :: "nat list \<Rightarrow> mb_state \<Rightarrow> mb_state option" where
  "mcl_fill [] s = Some s"
| "mcl_fill (c # cs) s =
     (let s = mcl_add c 1 s in
      if mclrefcnt s c \<noteq> 0 then None else mcl_fill cs (s\<lparr>mclfree := c # mclfree s\<rparr>))"

definition mcl_map :: "nat \<Rightarrow> nat \<Rightarrow> mb_state \<Rightarrow> (mb_state \<times> nat) option" where
  "mcl_map c n s = do { s \<leftarrow> mcl_fill [c..<c + n] s; Some (s\<lparr>m_clusters := m_clusters s + n\<rparr>, n) }"

text \<open>A page has two clusters; \<open>kmem_mb_alloc\<close> gives the first of a number of new clusters, or none.\<close>

definition m_clalloc :: "int \<Rightarrow> (nat \<Rightarrow> nat option) \<Rightarrow> nat \<Rightarrow> bool \<Rightarrow> mb_state \<Rightarrow> (mb_state \<times> nat) option" where
  "m_clalloc nmbclusters kmem_mb_alloc ncl nowait s =
     (let i = m_howmany nmbclusters s;
          out = (\<lambda>ncl. Some (s, if ncl \<le> length (mclfree s) then 1 else 0))
      in if i \<le> 0 \<or> nowait then out ncl
         else
           let ncl = max ncl (nat i); size = (ncl + 1) div 2 * 2 in
           case kmem_mb_alloc size of
             Some c \<Rightarrow> mcl_map c size s
           | None \<Rightarrow>
               (case (if 1 < ncl then kmem_mb_alloc 2 else None) of
                  Some c \<Rightarrow> mcl_map c 2 s
                | None \<Rightarrow> out ncl))"

text \<open>At boot no cluster is mapped, and memory that is no mbuf yet counts as free.\<close>

definition mb_blank :: mbuf where
  "mb_blank = \<lparr>m_len = 0, m_data = 0, m_type = MT_FREE, m_flags = 0,
     m_pkthdr = \<lparr>ph_len = 0, rcvif = None, ph_header = None, csum_flags = 0, csum_data = 0, ph_aux = None\<rparr>,
     m_ext = \<lparr>ext_buf = 0, ext_free = False, ext_size = 0, ext_forward = 0, ext_backward = 0\<rparr>, m_dat = replicate MLEN 0\<rparr>"

definition mb_boot :: "(nat \<Rightarrow> u8 list) \<Rightarrow> mb_state" where
  "mb_boot bufs = \<lparr>mb = (\<lambda>_. mb_blank), buf = bufs, mfree = [], mclfree = [], mclrefcnt = (\<lambda>_. -1), m_clusters = 0,
     ext_freed = [], m_fails = 0\<rparr>"

definition mbinit :: "int \<Rightarrow> (nat \<Rightarrow> nat option) \<Rightarrow> nat \<Rightarrow> (nat \<Rightarrow> u8 list) \<Rightarrow> mb_state option" where
  "mbinit nmbclusters kmem_mb_alloc ncl bufs =
     do {
       (s, n) \<leftarrow> m_clalloc nmbclusters kmem_mb_alloc ncl False (mb_boot bufs);
       if n = 0 then None else Some s
     }"

section \<open>Allocation\<close>

text \<open>With \<open>M_DONTWAIT\<close> the pool of clusters does not grow.\<close>

definition MCLALLOC :: "mb_state \<Rightarrow> mb_state \<times> nat option" where
  "MCLALLOC s =
     (case mclfree s of
        [] \<Rightarrow> (s, None)
      | c # cs \<Rightarrow> ((mcl_add c 1 s)\<lparr>mclfree := cs\<rparr>, Some c))"

definition free_mbuf :: "mbuf \<Rightarrow> mbuf" where "free_mbuf x = x\<lparr>m_type := MT_FREE\<rparr>"

definition m_expand :: "mb_state \<Rightarrow> mb_state" where
  "m_expand s =
     (if length (mclfree s) < m_clusters s div 16 then s
      else (case MCLALLOC s of
          (s, None) \<Rightarrow> s
        | (s, Some c) \<Rightarrow>
            let ms = [c * NMBPCL..<c * NMBPCL + NMBPCL]
            in s\<lparr>mb := (\<lambda>m. if m \<in> set ms then free_mbuf (mb s m) else mb s m), mfree := rev ms @ mfree s\<rparr>))"

definition MINTGET :: "u16 \<Rightarrow> mb_state \<Rightarrow> (mb_state \<times> nat) option" where
  "MINTGET type s =
     (case mfree s of
        [] \<Rightarrow> None
      | m # ms \<Rightarrow>
          Some (put m ((mb s m)\<lparr>m_type := type, m_data := 0, m_flags := 0\<rparr>) ((mcl_add (mtocl m) 1 s)\<lparr>mfree := ms\<rparr>), m))"

text \<open>\<open>m_retry\<close> with \<open>M_DONTWAIT\<close> tries once more after \<open>m_expand\<close>.\<close>

definition MGET :: "u16 \<Rightarrow> mb_state \<Rightarrow> mb_state \<times> nat option" where
  "MGET type s =
     (case MINTGET type s of
        Some (s, m) \<Rightarrow> (s, Some m)
      | None \<Rightarrow>
          (case MINTGET type (m_expand s) of
             Some (s, m) \<Rightarrow> (s, Some m)
           | None \<Rightarrow> (m_expand s, None)))"

text \<open>\<open>m_retryhdr\<close> leaves the packet header as it finds it, \<open>MGETHDR\<close> clears it but for its length.\<close>

definition clear_pkthdr :: "pkthdr \<Rightarrow> pkthdr" where
  "clear_pkthdr h = h\<lparr>rcvif := None, ph_header := None, csum_flags := 0, csum_data := 0, ph_aux := None\<rparr>"

definition MGETHDR :: "u16 \<Rightarrow> mb_state \<Rightarrow> mb_state \<times> nat option" where
  "MGETHDR type s =
     (case MINTGET type s of
        Some (s, m) \<Rightarrow>
          (put m ((mb s m)\<lparr>m_data := m_pktdat, m_flags := M_PKTHDR, m_pkthdr := clear_pkthdr (m_pkthdr (mb s m))\<rparr>) s, Some m)
      | None \<Rightarrow>
          (case MINTGET type (m_expand s) of
             Some (s, m) \<Rightarrow> (put m ((mb s m)\<lparr>m_data := m_pktdat, m_flags := m_flags (mb s m) OR M_PKTHDR\<rparr>) s, Some m)
           | None \<Rightarrow> (m_expand s, None)))"

text \<open>A cluster for an mbuf; without one the mbuf has no \<open>M_EXT\<close>, and the null pointer that is left in \<open>ext_buf\<close> is not kept.\<close>

definition MCLGET :: "nat \<Rightarrow> mb_state \<Rightarrow> mb_state" where
  "MCLGET m s =
     (case MCLALLOC s of
        (s, None) \<Rightarrow> s
      | (s, Some c) \<Rightarrow>
          put m ((mb s m)\<lparr>m_data := 0, m_flags := m_flags (mb s m) OR M_EXT,
            m_ext := \<lparr>ext_buf = c, ext_free = False, ext_size = MCLBYTES, ext_forward = m, ext_backward = m\<rparr>\<rparr>) s)"

section \<open>Freeing\<close>

definition drop_ext :: "nat \<Rightarrow> mb_state \<Rightarrow> mb_state" where
  "drop_ext m s =
     (let e = m_ext (mb s m) in
      if MCLHASREFERENCE s m then remque m s
      else if \<not> ext_free e then
        let s = mcl_add (ext_buf e) (-1) s
        in if mclrefcnt s (ext_buf e) = 0 then s\<lparr>mclfree := ext_buf e # mclfree s\<rparr> else s
      else s\<lparr>ext_freed := ext_freed s @ [ext_buf e]\<rparr>)"

definition m_free :: "nat \<Rightarrow> mb_state \<Rightarrow> mb_state option" where
  "m_free m s =
     (if m_type (mb s m) = MT_FREE then None
      else
        let s = (if has M_EXT (mb s m) then drop_ext m s else s);
            s = mcl_add (mtocl m) (-1) s
        in Some ((put m ((mb s m)\<lparr>m_type := MT_FREE, m_flags := 0, m_len := 0\<rparr>) s)\<lparr>mfree := m # mfree s\<rparr>))"

fun m_freem :: "nat list \<Rightarrow> mb_state \<Rightarrow> mb_state option" where
  "m_freem [] s = Some s"
| "m_freem (m # ms) s = do { s \<leftarrow> m_free m s; m_freem ms s }"

end
