(* ===== verification/Mbuf_Ops.thy ===== *)
theory Mbuf_Ops
  imports Mbuf_Store
begin

text \<open>
  The utility routines of bsd/kern/uipc_mbuf.c on chains of mbufs.  The null pointer is the empty chain; an
  allocation does not wait.  The fields of the unions have their own places in the model, so that data over a packet
  header would go unnoticed; the theorems assume that data lies behind it.
\<close>

section \<open>Data\<close>

definition load_bytes :: "nat \<Rightarrow> nat \<Rightarrow> nat \<Rightarrow> mb_state \<Rightarrow> u8 list option" where
  "load_bytes m off n s =
     (if off + n \<le> length (memory s m) then Some (take n (drop off (memory s m))) else None)"

definition overwrite :: "nat \<Rightarrow> u8 list \<Rightarrow> u8 list \<Rightarrow> u8 list" where
  "overwrite off bs xs = take off xs @ bs @ drop (off + length bs) xs"

definition store_bytes :: "nat \<Rightarrow> nat \<Rightarrow> u8 list \<Rightarrow> mb_state \<Rightarrow> mb_state option" where
  "store_bytes m off bs s =
     (if off + length bs \<le> length (memory s m) then
        Some (if has M_EXT (mb s m)
          then s\<lparr>buf := (buf s)(ext_buf (m_ext (mb s m)) := overwrite off bs (memory s m))\<rparr>
          else put m ((mb s m)\<lparr>m_dat := overwrite off bs (memory s m)\<rparr>) s)
      else None)"

text \<open>\<open>bcopy\<close> from one mbuf to another.\<close>

definition bcopy :: "nat \<Rightarrow> nat \<Rightarrow> nat \<Rightarrow> nat \<Rightarrow> nat \<Rightarrow> mb_state \<Rightarrow> mb_state option" where
  "bcopy m off n to n_len s = do { bs \<leftarrow> load_bytes m off n_len s; store_bytes n to bs s }"

definition m_leadingspace :: "mb_state \<Rightarrow> nat \<Rightarrow> int" where
  "m_leadingspace s m =
     (let x = mb s m in
      if has M_EXT x then if MCLHASREFERENCE s m then 0 else int (m_data x)
      else if has M_PKTHDR x then int (m_data x) - int m_pktdat
      else int (m_data x))"

definition m_trailingspace :: "mb_state \<Rightarrow> nat \<Rightarrow> int" where
  "m_trailingspace s m =
     (let x = mb s m in
      if has M_EXT x then if MCLHASREFERENCE s m then 0 else int (ext_size (m_ext x)) - int (m_data x + m_len x)
      else int MLEN - int (m_data x + m_len x))"

section \<open>Headers\<close>

text \<open>The \<open>aux\<close> pointer moves.\<close>

definition M_COPY_PKTHDR :: "nat \<Rightarrow> nat \<Rightarrow> mb_state \<Rightarrow> mb_state" where
  "M_COPY_PKTHDR n m s =
     (let h = m_pkthdr (mb s m);
          s = put n ((mb s n)\<lparr>m_pkthdr := h\<rparr>) s;
          s = put m ((mb s m)\<lparr>m_pkthdr := (m_pkthdr (mb s m))\<lparr>ph_aux := None\<rparr>\<rparr>) s
      in put n ((mb s n)\<lparr>m_flags := m_flags (mb s m) AND M_COPYFLAGS, m_data := m_pktdat\<rparr>) s)"

definition set_len :: "nat \<Rightarrow> nat \<Rightarrow> mb_state \<Rightarrow> mb_state" where
  "set_len m n s = put m ((mb s m)\<lparr>m_len := n\<rparr>) s"

definition set_data :: "nat \<Rightarrow> nat \<Rightarrow> mb_state \<Rightarrow> mb_state" where
  "set_data m n s = put m ((mb s m)\<lparr>m_data := n\<rparr>) s"

definition set_ph_len :: "nat \<Rightarrow> int \<Rightarrow> mb_state \<Rightarrow> mb_state" where
  "set_ph_len m n s = put m ((mb s m)\<lparr>m_pkthdr := (m_pkthdr (mb s m))\<lparr>ph_len := n\<rparr>\<rparr>) s"

definition clear_flag :: "u16 \<Rightarrow> nat \<Rightarrow> mb_state \<Rightarrow> mb_state" where
  "clear_flag flag m s = put m ((mb s m)\<lparr>m_flags := m_flags (mb s m) AND NOT flag\<rparr>) s"

definition count_fail :: "mb_state \<Rightarrow> mb_state" where "count_fail s = s\<lparr>m_fails := m_fails s + 1\<rparr>"

text \<open>Alignment to a \<open>long\<close> at the end of the buffer.\<close>

definition align :: "nat \<Rightarrow> nat \<Rightarrow> nat" where "align room len = (room - len) div 4 * 4"

definition m_prepend :: "nat list \<Rightarrow> nat \<Rightarrow> mb_state \<Rightarrow> (mb_state \<times> nat list) option" where
  "m_prepend ms len s =
     (case ms of
        [] \<Rightarrow> None
      | m # _ \<Rightarrow>
          (case MGET (m_type (mb s m)) s of
             (s, None) \<Rightarrow> do { s \<leftarrow> m_freem ms s; Some (s, []) }
           | (s, Some n) \<Rightarrow>
               let s = (if has M_PKTHDR (mb s m) then clear_flag M_PKTHDR m (M_COPY_PKTHDR n m s) else s);
                   s = (if len < MHLEN then set_data n (m_data (mb s n) + align MHLEN len) s else s)
               in Some (set_len n len s, n # ms)))"

definition M_PREPEND :: "nat list \<Rightarrow> nat \<Rightarrow> mb_state \<Rightarrow> (mb_state \<times> nat list) option" where
  "M_PREPEND ms plen s =
     (case ms of
        [] \<Rightarrow> None
      | m # _ \<Rightarrow> do {
          (s, ms) \<leftarrow>
            if int plen \<le> m_leadingspace s m
            then Some (set_len m (m_len (mb s m) + plen) (set_data m (m_data (mb s m) - plen) s), ms)
            else m_prepend ms plen s;
          (case ms of
            [] \<Rightarrow> Some (s, [])
          | m # _ \<Rightarrow>
              Some (if has M_PKTHDR (mb s m) then set_ph_len m (ph_len (m_pkthdr (mb s m)) + int plen) s else s, ms))
        })"

section \<open>Copies\<close>

definition M_COPYALL :: nat where "M_COPYALL = 1000000000"

text \<open>Where an offset lies: the rest of the chain and the offset in its first mbuf.\<close>

fun m_skip :: "mb_state \<Rightarrow> nat list \<Rightarrow> nat \<Rightarrow> (nat list \<times> nat) option" where
  "m_skip s [] off = (if off = 0 then Some ([], 0) else None)"
| "m_skip s (m # ms) off =
     (if off = 0 then Some (m # ms, 0)
      else if off < m_len (mb s m) then Some (m # ms, off)
      else m_skip s ms (off - m_len (mb s m)))"

text \<open>The data of one mbuf of the copy: a share of the external buffer, or the bytes.\<close>

definition copy_data :: "nat \<Rightarrow> nat \<Rightarrow> nat \<Rightarrow> mb_state \<Rightarrow> mb_state option" where
  "copy_data m off n s =
     (if has M_EXT (mb s m) then
        let s = insque n m (put n ((mb s n)\<lparr>m_ext := m_ext (mb s m)\<rparr>) s)
        in Some (put n ((mb s n)\<lparr>m_data := m_data (mb s m) + off, m_flags := m_flags (mb s n) OR M_EXT\<rparr>) s)
      else bcopy m (m_data (mb s m) + off) n (m_data (mb s n)) (m_len (mb s n)) s)"

text \<open>One mbuf \<open>n\<close> of the copy, of \<open>m\<close> from \<open>off\<close>.  An mbuf has never as much as \<open>M_COPYALL\<close> bytes.\<close>

definition copy_mbuf :: "bool \<Rightarrow> nat \<Rightarrow> nat \<Rightarrow> nat \<Rightarrow> nat \<Rightarrow> mb_state \<Rightarrow> mb_state option" where
  "copy_mbuf copyhdr m off len n s =
     (let s = (if copyhdr
            then set_ph_len n (if len = M_COPYALL then ph_len (m_pkthdr (mb s m)) else int len) (M_COPY_PKTHDR n m s)
            else s)
      in copy_data m off n (set_len n (min len (m_len (mb s m) - off)) s))"

primrec copy_loop :: "nat list \<Rightarrow> bool \<Rightarrow> nat \<Rightarrow> nat \<Rightarrow> nat list \<Rightarrow> mb_state \<Rightarrow> (mb_state \<times> nat list) option" where
  "copy_loop [] copyhdr off len ns s = (if len = 0 \<or> len = M_COPYALL then Some (s, ns) else None)"
| "copy_loop (m # ms) copyhdr off len ns s =
     (if len = 0 then Some (s, ns)
      else (case MGET (m_type (mb s m)) s of
          (s, None) \<Rightarrow> do { s \<leftarrow> m_freem ns s; Some (s, []) }
        | (s, Some n) \<Rightarrow> do {
            s \<leftarrow> copy_mbuf copyhdr m off len n s;
            copy_loop ms False 0 (if len = M_COPYALL then len else len - m_len (mb s n)) (ns @ [n]) s
          }))"

definition m_copym :: "nat list \<Rightarrow> int \<Rightarrow> int \<Rightarrow> mb_state \<Rightarrow> (mb_state \<times> nat list) option" where
  "m_copym ms off0 len s =
     (if off0 < 0 \<or> len < 0 then None
      else (case ms of
          [] \<Rightarrow> None
        | m # _ \<Rightarrow> do {
            (ms, off) \<leftarrow> m_skip s ms (nat off0);
            (s, ns) \<leftarrow> copy_loop ms (off0 = 0 \<and> has M_PKTHDR (mb s m)) off (nat len) [] s;
            Some (if ns = [] then count_fail s else s, ns)
          }))"

fun copydata_loop :: "nat list \<Rightarrow> nat \<Rightarrow> nat \<Rightarrow> mb_state \<Rightarrow> u8 list option" where
  "copydata_loop [] off len s = (if len = 0 then Some [] else None)"
| "copydata_loop (m # ms) off len s =
     (if len = 0 then Some []
      else do {
        let count = min (m_len (mb s m) - off) len;
        bs \<leftarrow> load_bytes m (m_data (mb s m) + off) count s;
        bss \<leftarrow> copydata_loop ms 0 (len - count) s;
        Some (bs @ bss)
      })"

definition m_copydata :: "nat list \<Rightarrow> int \<Rightarrow> int \<Rightarrow> mb_state \<Rightarrow> u8 list option" where
  "m_copydata ms off len s =
     (if off < 0 \<or> len < 0 then None
      else do { (ms, off) \<leftarrow> m_skip s ms (nat off); copydata_loop ms off (nat len) s })"

section \<open>Concatenation and trimming\<close>

text \<open>The last mbuf of the first chain takes what it has room for.\<close>

fun cat_loop :: "nat \<Rightarrow> nat list \<Rightarrow> mb_state \<Rightarrow> (mb_state \<times> nat list) option" where
  "cat_loop m [] s = Some (s, [])"
| "cat_loop m (n # ns) s =
     (if has M_EXT (mb s m) \<or> MLEN \<le> m_data (mb s m) + m_len (mb s m) + m_len (mb s n) then Some (s, n # ns)
      else do {
        s \<leftarrow> bcopy n (m_data (mb s n)) m (m_data (mb s m) + m_len (mb s m)) (m_len (mb s n)) s;
        s \<leftarrow> m_free n (set_len m (m_len (mb s m) + m_len (mb s n)) s);
        cat_loop m ns s
      })"

definition m_cat :: "nat list \<Rightarrow> nat list \<Rightarrow> mb_state \<Rightarrow> (mb_state \<times> nat list) option" where
  "m_cat ms ns s = (if ms = [] then None else do { (s, ns) \<leftarrow> cat_loop (last ms) ns s; Some (s, ms @ ns) })"

text \<open>Trimming from the head gives what is left to trim.\<close>

fun adj_head :: "nat list \<Rightarrow> nat \<Rightarrow> mb_state \<Rightarrow> mb_state \<times> nat" where
  "adj_head [] len s = (s, len)"
| "adj_head (m # ms) len s =
     (if len = 0 then (s, 0)
      else if m_len (mb s m) \<le> len then adj_head ms (len - m_len (mb s m)) (set_len m 0 s)
      else (set_data m (m_data (mb s m) + len) (set_len m (m_len (mb s m) - len) s), 0))"

fun adj_keep :: "nat list \<Rightarrow> nat \<Rightarrow> mb_state \<Rightarrow> mb_state" where
  "adj_keep [] count s = s"
| "adj_keep (m # ms) count s =
     (if count \<le> m_len (mb s m) then fold (\<lambda>m. set_len m 0) ms (set_len m count s)
      else adj_keep ms (count - m_len (mb s m)) s)"

definition m_adj :: "nat list \<Rightarrow> int \<Rightarrow> mb_state \<Rightarrow> mb_state" where
  "m_adj ms req_len s =
     (case ms of
        [] \<Rightarrow> s
      | m # _ \<Rightarrow>
          let hdr = has M_PKTHDR (mb s m); ph = ph_len (m_pkthdr (mb s m)) in
          if 0 \<le> req_len then
            let (s, len) = adj_head ms (nat req_len) s
            in if hdr then set_ph_len m (ph - (req_len - int len)) s else s
          else
            let len = nat (- req_len);
                count = sum_list (map (\<lambda>m. m_len (mb s m)) ms)
            in if len \<le> m_len (mb s (last ms)) then
                 let s = set_len (last ms) (m_len (mb s (last ms)) - len) s
                 in if hdr then set_ph_len m (ph - int len) s else s
               else
                 let s = (if hdr then set_ph_len m (int (count - len)) s else s)
                 in adj_keep ms (count - len) s)"

section \<open>Pulling up\<close>

text \<open>The lengths that callers ask for are not negative, so that the unsigned \<open>min\<close> and \<open>max\<close> are those of the
  numbers.  A round takes from the first mbuf of the rest; \<open>max_protohdr\<close> is a variable of the protocols.\<close>

definition pull_round :: "nat \<Rightarrow> nat \<Rightarrow> nat \<Rightarrow> nat list \<Rightarrow> mb_state \<Rightarrow> (mb_state \<times> nat list) option" where
  "pull_round count m n rest s =
     do {
       s \<leftarrow> bcopy n (m_data (mb s n)) m (m_data (mb s m) + m_len (mb s m)) count s;
       let s = set_len n (m_len (mb s n) - count) (set_len m (m_len (mb s m) + count) s);
       if m_len (mb s n) \<noteq> 0 then Some (set_data n (m_data (mb s n) + count) s, n # rest)
       else do { s \<leftarrow> m_free n s; Some (s, rest) }
     }"

primrec pull_loop :: "nat \<Rightarrow> nat \<Rightarrow> nat \<Rightarrow> nat list \<Rightarrow> nat \<Rightarrow> nat \<Rightarrow> mb_state \<Rightarrow> (mb_state \<times> nat list \<times> nat) option" where
  "pull_loop 0 max_protohdr m ns len space s = None"
| "pull_loop (Suc fuel) max_protohdr m ns len space s =
     (case ns of
        [] \<Rightarrow> None
      | n # rest \<Rightarrow> do {
          let count = min (min (max len max_protohdr) space) (m_len (mb s n));
          (s, ns) \<leftarrow> pull_round count m n rest s;
          if count < len \<and> ns \<noteq> [] then pull_loop fuel max_protohdr m ns (len - count) (space - count) s
          else Some (s, ns, len - count)
        })"

definition pull_into :: "nat \<Rightarrow> nat \<Rightarrow> nat list \<Rightarrow> nat \<Rightarrow> mb_state \<Rightarrow> (mb_state \<times> nat list) option" where
  "pull_into max_protohdr m ns len s =
     do {
       let space = MLEN - (m_data (mb s m) + m_len (mb s m));
       (s, ns, len) \<leftarrow> pull_loop (length ns) max_protohdr m ns len space s;
       if 0 < len then do { s \<leftarrow> m_free m s; s \<leftarrow> m_freem ns s; Some (count_fail s, []) }
       else Some (s, m # ns)
     }"

definition m_pullup :: "nat \<Rightarrow> nat list \<Rightarrow> nat \<Rightarrow> mb_state \<Rightarrow> (mb_state \<times> nat list) option" where
  "m_pullup max_protohdr ms len s =
     (case ms of
        [] \<Rightarrow> None
      | n # ns \<Rightarrow>
          if \<not> has M_EXT (mb s n) \<and> m_data (mb s n) + len < MLEN \<and> ns \<noteq> [] then
            if len \<le> m_len (mb s n) then Some (s, ms)
            else pull_into max_protohdr n ns (len - m_len (mb s n)) s
          else if MHLEN < len then do { s \<leftarrow> m_freem ms s; Some (count_fail s, []) }
          else
            (case MGET (m_type (mb s n)) s of
               (s, None) \<Rightarrow> do { s \<leftarrow> m_freem ms s; Some (count_fail s, []) }
             | (s, Some m) \<Rightarrow>
                 let s = set_len m 0 s;
                     s = (if has M_PKTHDR (mb s n) then clear_flag M_PKTHDR n (M_COPY_PKTHDR m n s) else s)
                 in pull_into max_protohdr m ms len s))"

section \<open>Partition\<close>

text \<open>The mbuf in which the first \<open>len\<close> bytes end, those before and after it, and how many bytes it has of them.\<close>

fun split_at :: "mb_state \<Rightarrow> nat list \<Rightarrow> nat \<Rightarrow> (nat list \<times> nat \<times> nat list \<times> nat) option" where
  "split_at s [] len = None"
| "split_at s (m # ms) len =
     (if m_len (mb s m) < len
      then map_option (\<lambda>(before, x). (m # before, x)) (split_at s ms (len - m_len (mb s m)))
      else Some ([], m, ms, len))"

text \<open>The label \<open>extpacket\<close>: the new mbuf \<open>n\<close> takes what \<open>m\<close> has after its first \<open>len\<close> bytes.\<close>

definition split_data :: "nat \<Rightarrow> nat \<Rightarrow> nat \<Rightarrow> nat \<Rightarrow> mb_state \<Rightarrow> mb_state option" where
  "split_data m n len remain s =
     do {
       s \<leftarrow> if has M_EXT (mb s m) then
           let s = put n ((mb s n)\<lparr>m_flags := m_flags (mb s n) OR M_EXT, m_ext := m_ext (mb s m)\<rparr>) s;
               s = mcl_add (ext_buf (m_ext (mb s m))) 1 s;
               s = put m ((mb s m)\<lparr>m_ext := (m_ext (mb s m))\<lparr>ext_size := 0\<rparr>\<rparr>) s
           in Some (set_data n (m_data (mb s m) + len) s)
         else bcopy m (m_data (mb s m) + len) n (m_data (mb s n)) remain s;
       Some (set_len m len (set_len n remain s))
     }"

definition split_header :: "nat \<Rightarrow> nat \<Rightarrow> nat \<Rightarrow> mb_state \<Rightarrow> mb_state" where
  "split_header m0 n len0 s =
     (let h = m_pkthdr (mb s m0);
          s = put n ((mb s n)\<lparr>m_pkthdr := (m_pkthdr (mb s n))\<lparr>rcvif := rcvif h, ph_len := ph_len h - int len0\<rparr>\<rparr>) s
      in set_ph_len m0 (int len0) s)"

text \<open>The two chains; the second is empty when the split fails, or when nothing is left for it.  The first argument
  bounds the recursion, which is one call deep.\<close>

primrec m_split :: "nat \<Rightarrow> nat list \<Rightarrow> nat \<Rightarrow> mb_state \<Rightarrow> (mb_state \<times> nat list \<times> nat list) option" where
  "m_split 0 ms len0 s = None"
| "m_split (Suc fuel) ms len0 s =
     (case split_at s ms len0 of
        None \<Rightarrow> Some (s, ms, [])
      | Some (before, m, after, len) \<Rightarrow>
          let m0 = hd ms; remain = m_len (mb s m) - len;
              finish = (\<lambda>n s. do { s \<leftarrow> split_data m n len remain s; Some (s, before @ [m], n # after) }) in
          if has M_PKTHDR (mb s m0) then
            (case MGETHDR (m_type (mb s m0)) s of
               (s, None) \<Rightarrow> Some (s, ms, [])
             | (s, Some n) \<Rightarrow>
                 let s = split_header m0 n len0 s in
                 if has M_EXT (mb s m) then finish n s
                 else if MHLEN < remain then do {
                   let s = set_data n (m_data (mb s n) + align MHLEN 0) s;
                   (s, front, back) \<leftarrow> m_split fuel (m # after) len s;
                   if back = [] then do { s \<leftarrow> m_free n s; Some (s, ms, []) } else Some (s, before @ front, n # back)
                 }
                 else finish n (set_data n (m_data (mb s n) + align MHLEN remain) s))
          else if remain = 0 then Some (s, before @ [m], after)
          else
            (case MGET (m_type (mb s m)) s of
               (s, None) \<Rightarrow> Some (s, ms, [])
             | (s, Some n) \<Rightarrow> finish n (set_data n (m_data (mb s n) + align MLEN remain) s)))"

end
