(* ===== verification/Mbuf_Ring.thy ===== *)
theory Mbuf_Ring
  imports Mbuf_Ops
begin

text \<open>
  The invariant of the mbuf allocator: the free lists, the reference counts of the clusters and the rings of the
  mbufs that share a buffer; and that allocating, sharing and freeing keep it.
\<close>

section \<open>Rings\<close>

text \<open>From \<open>x\<close> through the given nodes to \<open>z\<close>, the links in both directions.\<close>

primrec path :: "(nat \<Rightarrow> nat) \<Rightarrow> (nat \<Rightarrow> nat) \<Rightarrow> nat \<Rightarrow> nat list \<Rightarrow> nat \<Rightarrow> bool" where
  "path f b x [] z \<longleftrightarrow> f x = z \<and> b z = x"
| "path f b x (y # ys) z \<longleftrightarrow> f x = y \<and> b y = x \<and> path f b y ys z"

definition ring :: "(nat \<Rightarrow> nat) \<Rightarrow> (nat \<Rightarrow> nat) \<Rightarrow> nat list \<Rightarrow> bool" where
  "ring f b xs \<longleftrightarrow> distinct xs \<and> (case xs of [] \<Rightarrow> False | x # ys \<Rightarrow> path f b x ys x)"

lemma path_append: "path f b x (xs @ y # ys) z \<longleftrightarrow> path f b x xs y \<and> path f b y ys z"
  by (induction xs arbitrary: x) auto

lemma path_cong:
  "\<lbrakk>\<And>y. y = x \<or> y \<in> set xs \<Longrightarrow> f' y = f y; \<And>y. y = z \<or> y \<in> set xs \<Longrightarrow> b' y = b y\<rbrakk> \<Longrightarrow>
    path f' b' x xs z \<longleftrightarrow> path f b x xs z"
  by (induction xs arbitrary: x) auto

lemma ring_cong:
  assumes "\<And>y. y \<in> set xs \<Longrightarrow> f' y = f y \<and> b' y = b y"
  shows "ring f' b' xs \<longleftrightarrow> ring f b xs"
proof (cases xs)
  case (Cons x ys)
  then show ?thesis
    using path_cong [of x ys f' f x b' b] assms by (simp add: ring_def)
qed (simp add: ring_def)

lemma ring_rotate1: "ring f b xs \<Longrightarrow> ring f b (rotate1 xs)"
  by (cases xs; cases "tl xs") (auto simp: ring_def path_append)

lemma ring_rotate: "ring f b xs \<Longrightarrow> ring f b (rotate n xs)"
  by (induction n) (simp_all add: ring_rotate1)

lemma ring_from:
  assumes "ring f b xs" and "m \<in> set xs"
  obtains ys where "ring f b (m # ys)" "set (m # ys) = set xs"
proof -
  obtain i where i: "i < length xs" "xs ! i = m"
    using assms(2) by (auto simp: in_set_conv_nth)
  then have "hd (rotate i xs) = m" "rotate i xs \<noteq> []"
    using hd_rotate_conv_nth [of xs i] by force+
  then obtain ys where "rotate i xs = m # ys"
    by (cases "rotate i xs") auto
  then show ?thesis
    using that ring_rotate [OF assms(1), of i] set_rotate [of i xs] by metis
qed

lemma ring_to:
  assumes "ring f b xs" and "m \<in> set xs" and "xs \<noteq> [m]"
  obtains x ys where "ring f b (x # m # ys)" "set (x # m # ys) = set xs"
proof -
  obtain ys where ys: "ring f b (m # ys)" "set (m # ys) = set xs"
    using ring_from [OF assms(1,2)] .
  have "ys \<noteq> []"
    using ys assms by (cases xs; cases "tl xs") (auto simp: ring_def)
  then obtain zs x where zs: "ys = zs @ [x]"
    by (cases ys rule: rev_cases) auto
  then have "ring f b (x # m # zs)"
    using ys(1) by (auto simp: ring_def path_append)
  then show ?thesis
    using that ys(2) zs by auto
qed

lemma ring_alone: "ring f b (m # ys) \<Longrightarrow> f m = m \<longleftrightarrow> ys = []"
  by (cases ys) (auto simp: ring_def)

lemma ring_link:
  assumes "ring f b (m # ys)" and "n \<notin> set (m # ys)"
  shows "ring (f(n := f m, m := n)) (b(n := m, f m := n)) (m # n # ys)"
proof (cases ys)
  case Nil
  then show ?thesis
    using assms by (simp add: ring_def)
next
  case (Cons y zs)
  have "path (f(n := f m, m := n)) (b(n := m, f m := n)) y zs m \<longleftrightarrow> path f b y zs m"
    by (rule path_cong) (use assms Cons in \<open>auto simp: ring_def\<close>)
  then show ?thesis
    using assms Cons by (auto simp: ring_def)
qed

lemma ring_unlink:
  assumes "ring f b (x # m # ys)"
  shows "ring (f(b m := f m)) (b(f m := b m)) (x # ys)"
proof (cases ys)
  case Nil
  then show ?thesis
    using assms by (simp add: ring_def)
next
  case (Cons y zs)
  have "path (f(b m := f m)) (b(f m := b m)) y zs x \<longleftrightarrow> path f b y zs x"
    by (rule path_cong) (use assms Cons in \<open>auto simp: ring_def\<close>)
  then show ?thesis
    using assms Cons by (auto simp: ring_def)
qed

section \<open>The invariant\<close>

definition live :: "mb_state \<Rightarrow> nat \<Rightarrow> bool" where "live s m \<longleftrightarrow> m_type (mb s m) \<noteq> MT_FREE"

text \<open>The mbufs that use a buffer, and the clusters that were cut into mbufs.\<close>

definition users :: "mb_state \<Rightarrow> nat \<Rightarrow> nat set" where
  "users s b = {m. live s m \<and> has M_EXT (mb s m) \<and> ext_buf (m_ext (mb s m)) = b}"

definition carved :: "mb_state \<Rightarrow> nat \<Rightarrow> bool" where
  "carved s c \<longleftrightarrow> (\<exists>m. mtocl m = c \<and> (live s m \<or> m \<in> set (mfree s)))"

definition busy :: "mb_state \<Rightarrow> nat \<Rightarrow> nat" where
  "busy s c = card {m. mtocl m = c \<and> live s m}"

definition buffer_ok :: "mb_state \<Rightarrow> nat \<Rightarrow> bool" where
  "buffer_ok s b \<longleftrightarrow>
     (\<exists>xs. ring (forward s) (backward s) xs \<and> set xs = users s b) \<and> b \<notin> set (mclfree s) \<and> \<not> carved s b \<and>
     ((\<forall>m \<in> users s b. \<not> ext_free (m_ext (mb s m))) \<and> mclrefcnt s b = 1 \<or>
      (\<forall>m \<in> users s b. ext_free (m_ext (mb s m))) \<and> mclrefcnt s b < 0)"

text \<open>A cluster that is cut counts its mbufs in use and one more; one that is a buffer counts one, however many mbufs
  share it.  A cluster that is mapped, with a count that is not negative, is free, cut or in use: none is lost.\<close>

definition mb_ok :: "mb_state \<Rightarrow> bool" where
  "mb_ok s \<longleftrightarrow>
     distinct (mfree s) \<and> (\<forall>m \<in> set (mfree s). \<not> live s m) \<and>
     distinct (mclfree s) \<and> (\<forall>c \<in> set (mclfree s). mclrefcnt s c = 0 \<and> \<not> carved s c) \<and>
     (\<forall>c. carved s c \<longrightarrow> mclrefcnt s c = 1 + int (busy s c)) \<and>
     (\<forall>b. users s b \<noteq> {} \<longrightarrow> buffer_ok s b) \<and>
     (\<forall>c. 0 \<le> mclrefcnt s c \<longrightarrow> c \<in> set (mclfree s) \<or> carved s c \<or> users s c \<noteq> {}) \<and>
     (\<forall>m. length (m_dat (mb s m)) = MLEN)"

lemma mb_okD:
  assumes "mb_ok s"
  shows "distinct (mfree s)" "m \<in> set (mfree s) \<Longrightarrow> \<not> live s m" "distinct (mclfree s)"
    "c \<in> set (mclfree s) \<Longrightarrow> mclrefcnt s c = 0" "c \<in> set (mclfree s) \<Longrightarrow> \<not> carved s c"
    "carved s c \<Longrightarrow> mclrefcnt s c = 1 + int (busy s c)" "users s b \<noteq> {} \<Longrightarrow> buffer_ok s b" "length (m_dat (mb s m)) = MLEN"
    "0 \<le> mclrefcnt s c \<Longrightarrow> c \<in> set (mclfree s) \<or> carved s c \<or> users s c \<noteq> {}"
  using assms by (auto simp: mb_ok_def)

lemma cluster_finite: "finite {m. mtocl m = c}"
proof (rule finite_subset)
  show "{m. mtocl m = c} \<subseteq> {.. c * NMBPCL + NMBPCL}"
    by (auto simp: mtocl_def NMBPCL_def MCLBYTES_def MSIZE_def)
qed simp

lemma mtocl_range: "c * NMBPCL \<le> m \<and> m < c * NMBPCL + NMBPCL \<longleftrightarrow> mtocl m = c"
  by (auto simp: mtocl_def NMBPCL_def MCLBYTES_def MSIZE_def)

text \<open>Only this much of a state matters for the invariant.\<close>

lemma mb_ok_cong:
  assumes "\<And>m. m_type (mb s' m) = m_type (mb s m) \<and> has M_EXT (mb s' m) = has M_EXT (mb s m) \<and>
      m_ext (mb s' m) = m_ext (mb s m) \<and> length (m_dat (mb s' m)) = length (m_dat (mb s m))"
    and "mfree s' = mfree s" and "mclfree s' = mclfree s" and "mclrefcnt s' = mclrefcnt s"
  shows "mb_ok s' \<longleftrightarrow> mb_ok s"
  using assms by (simp add: mb_ok_def buffer_ok_def users_def carved_def busy_def live_def)

text \<open>What a chain's owner sees of an mbuf: all but the links of its ring and the \<open>aux\<close> pointer.\<close>

definition core :: "mbuf \<Rightarrow> mbuf" where
  "core x = x\<lparr>m_ext := (m_ext x)\<lparr>ext_forward := 0, ext_backward := 0\<rparr>, m_pkthdr := (m_pkthdr x)\<lparr>ph_aux := None\<rparr>\<rparr>"

lemma core_sel [simp]:
  "m_len (core x) = m_len x"
  "m_data (core x) = m_data x"
  "m_type (core x) = m_type x"
  "m_flags (core x) = m_flags x"
  "m_dat (core x) = m_dat x"
  "has flag (core x) = has flag x"
  "ext_buf (m_ext (core x)) = ext_buf (m_ext x)"
  "ext_free (m_ext (core x)) = ext_free (m_ext x)"
  "ext_size (m_ext (core x)) = ext_size (m_ext x)"
  "ph_len (m_pkthdr (core x)) = ph_len (m_pkthdr x)"
  "rcvif (m_pkthdr (core x)) = rcvif (m_pkthdr x)"
  by (simp_all add: core_def has_def)

lemma core_update:
  "core (x\<lparr>m_len := n\<rparr>) = (core x)\<lparr>m_len := n\<rparr>" "core (x\<lparr>m_data := n\<rparr>) = (core x)\<lparr>m_data := n\<rparr>"
  "core (x\<lparr>m_flags := w\<rparr>) = (core x)\<lparr>m_flags := w\<rparr>" "core (x\<lparr>m_dat := bs\<rparr>) = (core x)\<lparr>m_dat := bs\<rparr>"
  by (simp_all add: core_def)

lemma coreD:
  assumes "core x = core y"
  shows "m_len x = m_len y"
    "m_data x = m_data y"
    "m_type x = m_type y"
    "m_flags x = m_flags y"
    "m_dat x = m_dat y"
    "has flag x = has flag y"
    "ext_buf (m_ext x) = ext_buf (m_ext y)"
    "ext_free (m_ext x) = ext_free (m_ext y)"
    "ext_size (m_ext x) = ext_size (m_ext y)"
    "ph_len (m_pkthdr x) = ph_len (m_pkthdr y)"
    "rcvif (m_pkthdr x) = rcvif (m_pkthdr y)"
  using assms by (metis core_sel)+

text \<open>The mbufs of a set keep what their owners see, and are in use.\<close>

definition kept :: "nat set \<Rightarrow> mb_state \<Rightarrow> mb_state \<Rightarrow> bool" where
  "kept M s s' \<longleftrightarrow> (\<forall>m \<in> M. core (mb s' m) = core (mb s m)) \<and> buf s' = buf s"

lemma kept_refl [simp]: "kept M s s"
  by (simp add: kept_def)

lemma kept_trans: "\<lbrakk>kept M s t; kept N t u; M \<subseteq> N\<rbrakk> \<Longrightarrow> kept M s u"
  by (auto simp: kept_def)

lemma kept_subset: "\<lbrakk>kept N s s'; M \<subseteq> N\<rbrakk> \<Longrightarrow> kept M s s'"
  by (auto simp: kept_def)

lemma keptD: "\<lbrakk>kept M s s'; m \<in> M\<rbrakk> \<Longrightarrow> core (mb s' m) = core (mb s m)"
  by (simp add: kept_def)

lemma kept_live: "\<lbrakk>kept M s s'; m \<in> M\<rbrakk> \<Longrightarrow> live s' m = live s m"
  by (simp add: live_def coreD(3) [OF keptD])

section \<open>Allocation\<close>

lemma put_sel [simp]:
  "mb (put m x s) = (mb s)(m := x)" "buf (put m x s) = buf s" "mfree (put m x s) = mfree s"
  "mclfree (put m x s) = mclfree s" "mclrefcnt (put m x s) = mclrefcnt s" "m_clusters (put m x s) = m_clusters s"
  by (simp_all add: put_def)

lemma mcl_add_sel [simp]:
  "mb (mcl_add c d s) = mb s" "buf (mcl_add c d s) = buf s" "mfree (mcl_add c d s) = mfree s"
  "mclfree (mcl_add c d s) = mclfree s" "mclrefcnt (mcl_add c d s) = (mclrefcnt s)(c := mclrefcnt s c + d)"
  by (simp_all add: mcl_add_def)

lemma buffer_ok_cong:
  assumes "buffer_ok s b" and "users s' b = users s b" and "\<And>m. m \<in> users s b \<Longrightarrow> m_ext (mb s' m) = m_ext (mb s m)"
    and "b \<in> set (mclfree s') \<Longrightarrow> b \<in> set (mclfree s)" and "carved s' b \<Longrightarrow> carved s b" and "mclrefcnt s' b = mclrefcnt s b"
  shows "buffer_ok s' b"
proof -
  obtain xs where "ring (forward s) (backward s) xs" "set xs = users s b"
    using assms(1) by (auto simp: buffer_ok_def)
  then have "ring (forward s') (backward s') xs \<and> set xs = users s' b"
    using ring_cong [of xs "forward s'" "forward s" "backward s'" "backward s"] assms(2,3) by simp
  then show ?thesis
    using assms unfolding buffer_ok_def by auto
qed

lemma busy_step:
  assumes "\<not> live s m" and "\<And>x. live s' x \<longleftrightarrow> x = m \<or> live s x"
  shows "busy s' c = (if c = mtocl m then busy s c + 1 else busy s c)"
proof -
  let ?M = "{x. mtocl x = c \<and> live s x}"
  have "finite ?M"
    by (rule finite_subset [OF _ cluster_finite [of c]]) blast
  moreover have "{x. mtocl x = c \<and> live s' x} = (if mtocl m = c then insert m ?M else ?M)"
    using assms(2) by auto
  ultimately show ?thesis
    using assms(1) by (cases "c = mtocl m") (simp_all add: busy_def)
qed

lemma MINTGET_ok:
  assumes "mb_ok s" and "MINTGET type s = Some (s', m)" and "type \<noteq> MT_FREE"
  shows "mb_ok s'" "\<not> live s m" "live s' x \<longleftrightarrow> x = m \<or> live s x" "x \<noteq> m \<Longrightarrow> mb s' x = mb s x" "buf s' = buf s"
    "mb s' m = (mb s m)\<lparr>m_type := type, m_data := 0, m_flags := 0\<rparr>" "m \<in> set (mfree s)"
proof -
  obtain ms where ms: "mfree s = m # ms" and
    s': "s' = put m ((mb s m)\<lparr>m_type := type, m_data := 0, m_flags := 0\<rparr>) ((mcl_add (mtocl m) 1 s)\<lparr>mfree := ms\<rparr>)"
    using assms(2) by (auto simp: MINTGET_def split: list.splits)
  note ok = mb_okD [OF assms(1)]
  show nl: "\<not> live s m" and "m \<in> set (mfree s)" and x: "x \<noteq> m \<Longrightarrow> mb s' x = mb s x" and "buf s' = buf s"
    and "mb s' m = (mb s m)\<lparr>m_type := type, m_data := 0, m_flags := 0\<rparr>" for x
    using ok(2) ms s' by simp_all
  show lv: "live s' x \<longleftrightarrow> x = m \<or> live s x" for x
    using assms(3) s' by (simp add: live_def)
  have users: "users s' b = users s b" for b
    using nl s' by (auto simp: users_def live_def has_def)
  have ext: "m_ext (mb s' x) = m_ext (mb s x)" for x
    using s' by simp
  have carved: "carved s' c = carved s c" for c
    using lv ms s' by (auto simp: carved_def)
  note busy = busy_step [OF nl lv]
  have m: "carved s (mtocl m)"
    using ms by (auto simp: carved_def)
  have "buffer_ok s' b" if "users s' b \<noteq> {}" for b
  proof -
    have b: "buffer_ok s b"
      using ok(7) that users by blast
    then have "b \<noteq> mtocl m"
      using m by (auto simp: buffer_ok_def)
    then show ?thesis
      using b by (intro buffer_ok_cong [OF _ users ext]) (use s' carved in auto)
  qed
  moreover have "c \<in> set (mclfree s') \<or> carved s' c \<or> users s' c \<noteq> {}" if "0 \<le> mclrefcnt s' c" for c
    using ok(9) [of c] that carved users m s' by (cases "c = mtocl m") auto
  moreover have "mclrefcnt s' c = 1 + int (busy s' c)" if "carved s' c" for c
    using ok(6) [of c] that carved busy s' by (cases "c = mtocl m") simp_all
  moreover have "mclrefcnt s' c = 0 \<and> \<not> carved s' c" if "c \<in> set (mclfree s')" for c
    using ok(4,5) [of c] that carved s' m by auto
  moreover have "length (m_dat (mb s' x)) = MLEN" for x
    using ok(8) s' by simp
  ultimately show "mb_ok s'"
    using ok(1,2,3) ms lv s' unfolding mb_ok_def by auto
qed

lemma m_expand_ok:
  assumes "mb_ok s"
  shows "mb_ok (m_expand s)" "live (m_expand s) x \<longleftrightarrow> live s x" "live s x \<Longrightarrow> mb (m_expand s) x = mb s x"
    "buf (m_expand s) = buf s"
proof -
  note ok = mb_okD [OF assms]
  have "mb_ok (m_expand s) \<and> (\<forall>x. live (m_expand s) x \<longleftrightarrow> live s x) \<and> (\<forall>x. live s x \<longrightarrow> mb (m_expand s) x = mb s x) \<and>
    buf (m_expand s) = buf s"
  proof (cases "length (mclfree s) < m_clusters s div 16 \<or> mclfree s = []")
    case True
    then show ?thesis
      using assms by (auto simp: m_expand_def MCLALLOC_def)
  next
    case False
    then obtain c cs where c: "mclfree s = c # cs"
      by (cases "mclfree s") auto
    let ?ms = "[c * NMBPCL..<c * NMBPCL + NMBPCL]"
    define s' where "s' = m_expand s"
    have s': "mb s' = (\<lambda>m. if mtocl m = c then free_mbuf (mb s m) else mb s m)" "mfree s' = rev ?ms @ mfree s"
      "mclfree s' = cs" "mclrefcnt s' = (mclrefcnt s)(c := mclrefcnt s c + 1)" "buf s' = buf s"
      using False c unfolding s'_def by (auto simp: m_expand_def MCLALLOC_def mtocl_range [symmetric])
    have nc: "\<not> carved s c" "mclrefcnt s c = 0"
      using ok(4,5) [of c] c by simp_all
    have dead: "\<not> live s m" "m \<notin> set (mfree s)" if "mtocl m = c" for m
      using nc(1) that by (auto simp: carved_def)
    have lv: "live s' m \<longleftrightarrow> live s m" for m
      using dead [of m] s'(1) by (auto simp: live_def free_mbuf_def)
    have same: "mb s' m = mb s m" if "live s m" for m
      using dead [of m] s'(1) that by auto
    have users: "users s' b = users s b" for b
      using lv same by (auto simp: users_def)
    have ext: "m_ext (mb s' m) = m_ext (mb s m)" for m
      using s'(1) by (simp add: free_mbuf_def)
    have carved: "carved s' d \<longleftrightarrow> d = c \<or> carved s d" for d
    proof -
      have "mtocl (c * NMBPCL) = c"
        by (simp add: mtocl_def NMBPCL_def MCLBYTES_def MSIZE_def)
      then show ?thesis
        using lv s'(2) by (auto simp: carved_def mtocl_range)
    qed
    have busy: "busy s' d = busy s d" for d
      using lv by (simp add: busy_def)
    have "busy s c = 0"
      using dead(1) by (simp add: busy_def conj_commute cong: conj_cong)
    then have "mclrefcnt s' d = 1 + int (busy s' d)" if "carved s' d" for d
      using ok(6) [of d] that nc carved busy s'(4) by auto
    moreover have "buffer_ok s' b" if "users s' b \<noteq> {}" for b
    proof -
      have b: "buffer_ok s b"
        using ok(7) that users by blast
      then have "b \<noteq> c"
        using c by (auto simp: buffer_ok_def)
      then show ?thesis
        using b by (intro buffer_ok_cong [OF _ users ext]) (use s' carved c in auto)
    qed
    moreover have "mclrefcnt s' d = 0 \<and> \<not> carved s' d" if "d \<in> set (mclfree s')" for d
      using ok(3) ok(4,5) [of d] that carved s'(3,4) c by auto
    moreover have "d \<in> set (mclfree s') \<or> carved s' d \<or> users s' d \<noteq> {}" if "0 \<le> mclrefcnt s' d" for d
      using ok(9) [of d] that carved users c s'(3,4) by (cases "d = c") auto
    moreover have "distinct (mfree s')"
      using ok(1) dead(2) s'(2) by (auto simp: mtocl_range [symmetric])
    moreover have "\<not> live s' m" if "m \<in> set (mfree s')" for m
      using ok(2) [of m] dead(1) [of m] lv that s'(2) by (auto simp: mtocl_range [symmetric])
    moreover have "length (m_dat (mb s' m)) = MLEN" for m
      using ok(8) [of m] s'(1) by (simp add: free_mbuf_def)
    ultimately show ?thesis
      using ok(3) c lv same s'(3,5) unfolding s'_def [symmetric] mb_ok_def by auto
  qed
  then show "mb_ok (m_expand s)" "live (m_expand s) x \<longleftrightarrow> live s x" "live s x \<Longrightarrow> mb (m_expand s) x = mb s x"
    "buf (m_expand s) = buf s"
    by blast+
qed

text \<open>An mbuf \<open>n\<close> that was not in use comes into use, and nothing else changes for the others.\<close>

definition gains :: "nat \<Rightarrow> mb_state \<Rightarrow> mb_state \<Rightarrow> bool" where
  "gains n s s' \<longleftrightarrow> mb_ok s' \<and> \<not> live s n \<and> (\<forall>x. live s' x \<longleftrightarrow> x = n \<or> live s x) \<and>
     (\<forall>x. live s x \<longrightarrow> mb s' x = mb s x) \<and> buf s' = buf s"

lemma gainsD:
  assumes "gains n s s'"
  shows "mb_ok s'" "\<not> live s n" "live s' x \<longleftrightarrow> x = n \<or> live s x" "live s x \<Longrightarrow> mb s' x = mb s x" "buf s' = buf s"
    "live s' n" "Collect (live s') = insert n (Collect (live s))"
  using assms by (auto simp: gains_def)

lemma gains_kept: "gains n s s' \<Longrightarrow> kept (Collect (live s)) s s'"
  by (auto simp: gains_def kept_def)

definition stays :: "mb_state \<Rightarrow> mb_state \<Rightarrow> bool" where
  "stays s s' \<longleftrightarrow> mb_ok s' \<and> (\<forall>x. live s' x \<longleftrightarrow> live s x) \<and> (\<forall>x. live s x \<longrightarrow> mb s' x = mb s x) \<and> buf s' = buf s"

lemma MINTGET_gains: "\<lbrakk>mb_ok s; MINTGET type s = Some (s', m); type \<noteq> MT_FREE\<rbrakk> \<Longrightarrow> gains m s s'"
  using MINTGET_ok [of s type s' m] unfolding gains_def by metis

lemma expand_gains:
  assumes "mb_ok s" and "MINTGET type (m_expand s) = Some (s', m)" and "type \<noteq> MT_FREE"
  shows "gains m s s'"
proof -
  have "gains m (m_expand s) s'"
    using MINTGET_gains assms m_expand_ok(1) by blast
  then show ?thesis
    using m_expand_ok [OF assms(1)] by (simp add: gains_def)
qed

text \<open>\<open>MGET\<close> gives an empty place for data or says that there is none.\<close>

lemma MGET_ok:
  assumes "mb_ok s" and "MGET type s = (s', r)" and "type \<noteq> MT_FREE"
  shows "case r of None \<Rightarrow> stays s s' | Some n \<Rightarrow> gains n s s' \<and> m_type (mb s' n) = type \<and> m_data (mb s' n) = 0 \<and> m_flags (mb s' n) = 0"
proof (cases "MINTGET type s")
  case (Some a)
  then show ?thesis
    using assms MINTGET_gains [OF assms(1)] MINTGET_ok(6) [OF assms(1)] by (cases a) (auto simp: MGET_def)
next
  case None
  show ?thesis
  proof (cases "MINTGET type (m_expand s)")
    case (Some a)
    then show ?thesis
      using None assms expand_gains [OF assms(1)] MINTGET_ok(6) [OF m_expand_ok(1) [OF assms(1)]] by (cases a) (auto simp: MGET_def)
  next
    case None
    then show ?thesis
      using \<open>MINTGET type s = None\<close> assms m_expand_ok [OF assms(1)] by (auto simp: MGET_def stays_def)
  qed
qed

lemma gains_put:
  assumes "gains n s t" and "\<not> has M_EXT (mb t n)" and "\<not> has M_EXT y" and "m_type y = m_type (mb t n)" and "length (m_dat y) = MLEN"
  shows "gains n s (put n y t)"
proof -
  note G = gainsD [OF assms(1)]
  have lv: "live (put n y t) x = live t x" for x
    using assms(4) by (simp add: live_def)
  have users: "users (put n y t) b = users t b" for b
    using lv assms(2,3) by (auto simp: users_def)
  have "buffer_ok (put n y t) b" if "users t b \<noteq> {}" for b
  proof -
    have "n \<notin> users t b"
      using assms(2) by (simp add: users_def)
    then show ?thesis
      by (intro buffer_ok_cong [OF mb_okD(7) [OF G(1) that] users])
        (auto simp: carved_def lv)
  qed
  then have "mb_ok (put n y t)"
    using G(1) assms(5) lv users by (auto simp: mb_ok_def carved_def busy_def)
  then show ?thesis
    using assms(1) lv by (auto simp: gains_def)
qed

lemma MGETHDR_ok:
  assumes "mb_ok s" and "MGETHDR type s = (s', r)" and "type \<noteq> MT_FREE"
  shows "case r of None \<Rightarrow> stays s s' | Some n \<Rightarrow> gains n s s' \<and> m_type (mb s' n) = type \<and> m_data (mb s' n) = m_pktdat \<and>
    m_flags (mb s' n) = M_PKTHDR"
proof (cases "MINTGET type s")
  case (Some a)
  then obtain t n where t: "MINTGET type s = Some (t, n)"
    by (cases a) auto
  note G = MINTGET_gains [OF assms(1) t assms(3)] and E = MINTGET_ok(6) [OF assms(1) t assms(3)]
  have "length (m_dat (mb t n)) = MLEN"
    using mb_okD(8) [OF gainsD(1) [OF G]] .
  then show ?thesis
    using t assms(2) E gains_put [OF G] by (auto simp: MGETHDR_def has_def)
next
  case None
  show ?thesis
  proof (cases "MINTGET type (m_expand s)")
    case (Some a)
    then obtain t n where t: "MINTGET type (m_expand s) = Some (t, n)"
      by (cases a) auto
    note G = expand_gains [OF assms(1) t assms(3)] and E = MINTGET_ok(6) [OF m_expand_ok(1) [OF assms(1)] t assms(3)]
    have "length (m_dat (mb t n)) = MLEN"
      using mb_okD(8) [OF gainsD(1) [OF G]] .
    then show ?thesis
      using t None assms(2) E gains_put [OF G] by (auto simp: MGETHDR_def has_def)
  next
    case none: None
    then show ?thesis
      using None assms m_expand_ok [OF assms(1)] by (auto simp: MGETHDR_def stays_def)
  qed
qed

section \<open>Sharing and freeing\<close>

lemma link_sel [simp]:
  "ext_forward (m_ext (mb (set_forward m n s) x)) = (if x = m then n else forward s x)"
  "ext_backward (m_ext (mb (set_forward m n s) x)) = backward s x"
  "ext_backward (m_ext (mb (set_backward m n s) x)) = (if x = m then n else backward s x)"
  "ext_forward (m_ext (mb (set_backward m n s) x)) = forward s x"
  "core (mb (set_forward m n s) x) = core (mb s x)" "core (mb (set_backward m n s) x) = core (mb s x)"
  "buf (set_forward m n s) = buf s" "buf (set_backward m n s) = buf s"
  "mfree (set_forward m n s) = mfree s" "mfree (set_backward m n s) = mfree s"
  "mclfree (set_forward m n s) = mclfree s" "mclfree (set_backward m n s) = mclfree s"
  "mclrefcnt (set_forward m n s) = mclrefcnt s" "mclrefcnt (set_backward m n s) = mclrefcnt s"
  by (simp_all add: set_forward_def set_backward_def core_def)

lemma remque_sel:
  assumes "forward s m \<noteq> m"
  shows "ext_forward (m_ext (mb (remque m s) x)) = ((forward s)(backward s m := forward s m)) x"
    "ext_backward (m_ext (mb (remque m s) x)) = ((backward s)(forward s m := backward s m)) x"
    "core (mb (remque m s) x) = core (mb s x)" "buf (remque m s) = buf s" "mfree (remque m s) = mfree s"
    "mclfree (remque m s) = mclfree s" "mclrefcnt (remque m s) = mclrefcnt s"
  using assms by (simp_all add: remque_def Let_def)

lemma insque_sel:
  assumes "n \<noteq> m"
  shows "ext_forward (m_ext (mb (insque n m s) x)) = ((forward s)(n := forward s m, m := n)) x"
    "ext_backward (m_ext (mb (insque n m s) x)) = ((backward s)(n := m, forward s m := n)) x"
    "core (mb (insque n m s) x) = core (mb s x)" "buf (insque n m s) = buf s" "mfree (insque n m s) = mfree s"
    "mclfree (insque n m s) = mclfree s" "mclrefcnt (insque n m s) = mclrefcnt s"
  using assms by (simp_all add: insque_def Let_def)

lemma core_users:
  assumes "\<And>x. core (mb t x) = core (mb s x)"
  shows "live t x = live s x" "users t b = users s b" "busy t c = busy s c" "length (m_dat (mb t x)) = length (m_dat (mb s x))"
  using coreD [OF assms] by (simp_all add: live_def users_def busy_def)

lemma buffer_okE:
  assumes "mb_ok s" and "live s m" and "has M_EXT (mb s m)"
  obtains xs where "ring (forward s) (backward s) xs" "set xs = users s (ext_buf (m_ext (mb s m)))"
    "ext_buf (m_ext (mb s m)) \<notin> set (mclfree s)" "\<not> carved s (ext_buf (m_ext (mb s m)))"
    "m \<in> users s (ext_buf (m_ext (mb s m)))"
    "(\<forall>x \<in> users s (ext_buf (m_ext (mb s m))). \<not> ext_free (m_ext (mb s x))) \<and> mclrefcnt s (ext_buf (m_ext (mb s m))) = 1 \<or>
      (\<forall>x \<in> users s (ext_buf (m_ext (mb s m))). ext_free (m_ext (mb s x))) \<and> mclrefcnt s (ext_buf (m_ext (mb s m))) < 0"
proof -
  have m: "m \<in> users s (ext_buf (m_ext (mb s m)))"
    using assms(2,3) by (simp add: users_def)
  then have "buffer_ok s (ext_buf (m_ext (mb s m)))"
    using mb_okD(7) [OF assms(1)] by blast
  then show ?thesis
    using that m unfolding buffer_ok_def by blast
qed

lemma alone_iff:
  assumes "ring (forward s) (backward s) xs" and "m \<in> set xs"
  shows "MCLHASREFERENCE s m \<longleftrightarrow> set xs \<noteq> {m}"
proof -
  obtain ys where ys: "ring (forward s) (backward s) (m # ys)" "set (m # ys) = set xs"
    using ring_from [OF assms] .
  then have "m \<notin> set ys"
    by (simp add: ring_def)
  then have "ys = [] \<longleftrightarrow> set xs = {m}"
    using ys(2) by (cases ys) auto
  then show ?thesis
    using ring_alone [OF ys(1)] by (simp add: MCLHASREFERENCE_def)
qed

text \<open>What dropping a reference leaves: the rings without \<open>m\<close>; with the last reference to a cluster the cluster is free.\<close>

lemma drop_ext_ok:
  assumes "mb_ok s" and "live s m" and "has M_EXT (mb s m)"
  defines "e \<equiv> ext_buf (m_ext (mb s m))" and "t \<equiv> drop_ext m s"
  shows "core (mb t x) = core (mb s x)" "buf t = buf s" "mfree t = mfree s"
    "users s b - {m} \<noteq> {} \<Longrightarrow> \<exists>xs. ring (forward t) (backward t) xs \<and> set xs = users s b - {m}"
    "mclfree t = mclfree s \<and> mclrefcnt t = mclrefcnt s \<and> (users s e = {m} \<longrightarrow> mclrefcnt s e < 0) \<or>
      users s e = {m} \<and> mclfree t = e # mclfree s \<and> mclrefcnt t = (mclrefcnt s)(e := 0)"
proof -
  obtain xs where xs: "ring (forward s) (backward s) xs" "set xs = users s e" "m \<in> users s e"
    "(\<forall>x \<in> users s e. \<not> ext_free (m_ext (mb s x))) \<and> mclrefcnt s e = 1 \<or>
      (\<forall>x \<in> users s e. ext_free (m_ext (mb s x))) \<and> mclrefcnt s e < 0"
    using buffer_okE [OF assms(1-3)] unfolding e_def by metis
  have other: "\<exists>ys. ring (forward s) (backward s) ys \<and> set ys = users s b - {m}" if "users s b - {m} \<noteq> {}" "b \<noteq> e" for b
  proof -
    have "m \<notin> users s b" "users s b \<noteq> {}"
      using that by (auto simp: users_def e_def)
    then show ?thesis
      using mb_okD(7) [OF assms(1), of b] by (auto simp: buffer_ok_def)
  qed
  have "(\<forall>x. core (mb t x) = core (mb s x)) \<and> buf t = buf s \<and> mfree t = mfree s \<and>
    (\<forall>b. users s b - {m} \<noteq> {} \<longrightarrow> (\<exists>xs. ring (forward t) (backward t) xs \<and> set xs = users s b - {m})) \<and>
    (mclfree t = mclfree s \<and> mclrefcnt t = mclrefcnt s \<and> (users s e = {m} \<longrightarrow> mclrefcnt s e < 0) \<or>
      users s e = {m} \<and> mclfree t = e # mclfree s \<and> mclrefcnt t = (mclrefcnt s)(e := 0))"
  proof (cases "set xs = {m}")
    case True
    then have "\<not> MCLHASREFERENCE s m"
      using alone_iff [OF xs(1)] by simp
    then have "mb t = mb s" "buf t = buf s" "mfree t = mfree s"
      "mclfree t = mclfree s \<and> mclrefcnt t = mclrefcnt s \<and> mclrefcnt s e < 0 \<or> mclfree t = e # mclfree s \<and> mclrefcnt t = (mclrefcnt s)(e := 0)"
      using xs(3,4) unfolding t_def e_def drop_ext_def Let_def by auto
    moreover have "users s e = {m}"
      using True xs(2) by simp
    ultimately show ?thesis
      using other by auto
  next
    case False
    then have ref: "MCLHASREFERENCE s m"
      using alone_iff [OF xs(1)] xs(2,3) by simp
    then have t: "t = remque m s"
      by (simp add: t_def drop_ext_def Let_def)
    have ne: "forward s m \<noteq> m"
      using ref by (simp add: MCLHASREFERENCE_def)
    note S = remque_sel [OF ne, folded t]
    have "xs \<noteq> [m]"
      using False by auto
    then obtain x ys where ys: "ring (forward s) (backward s) (x # m # ys)" "set (x # m # ys) = set xs"
      using ring_to [OF xs(1)] xs(2,3) by metis
    have "ring (forward t) (backward t) (x # ys)"
      using ring_unlink [OF ys(1)] ring_cong [of "x # ys" "forward t" _ "backward t"] S(1,2) by blast
    moreover have "set (x # ys) = users s e - {m}"
      using ys xs(2) by (auto simp: ring_def)
    moreover have "\<exists>zs. ring (forward t) (backward t) zs \<and> set zs = users s b - {m}" if b: "users s b - {m} \<noteq> {}" "b \<noteq> e" for b
    proof -
      obtain zs where zs: "ring (forward s) (backward s) zs" "set zs = users s b - {m}"
        using other [OF b] by blast
      have "forward s m \<in> set xs" "backward s m \<in> set xs"
        using ys by (cases ys; auto simp: ring_def)+
      then have "forward s m \<notin> set zs" "backward s m \<notin> set zs"
        using zs(2) xs(2) b(2) by (auto simp: users_def)
      then have "ring (forward t) (backward t) zs \<longleftrightarrow> ring (forward s) (backward s) zs"
        by (intro ring_cong) (auto simp: S(1,2))
      then have "ring (forward t) (backward t) zs"
        using zs(1) by blast
      then show ?thesis
        using zs(2) by blast
    qed
    ultimately have "\<exists>zs. ring (forward t) (backward t) zs \<and> set zs = users s b - {m}" if "users s b - {m} \<noteq> {}" for b
      using that by (cases "b = e") blast+
    moreover have "users s e \<noteq> {m}"
      using False xs(2) by simp
    ultimately show ?thesis
      using S(3-7) by simp
  qed
  then show "core (mb t x) = core (mb s x)" "buf t = buf s" "mfree t = mfree s"
    "users s b - {m} \<noteq> {} \<Longrightarrow> \<exists>xs. ring (forward t) (backward t) xs \<and> set xs = users s b - {m}"
    "mclfree t = mclfree s \<and> mclrefcnt t = mclrefcnt s \<and> (users s e = {m} \<longrightarrow> mclrefcnt s e < 0) \<or>
      users s e = {m} \<and> mclfree t = e # mclfree s \<and> mclrefcnt t = (mclrefcnt s)(e := 0)"
    by blast+
qed

text \<open>An mbuf goes out of use, and its neighbours in the ring are all that changes.\<close>

definition loses :: "nat set \<Rightarrow> mb_state \<Rightarrow> mb_state \<Rightarrow> bool" where
  "loses M s s' \<longleftrightarrow> mb_ok s' \<and> (\<forall>x. live s' x \<longleftrightarrow> x \<notin> M \<and> live s x) \<and> kept (Collect (live s) - M) s s'"

lemma m_free_ok:
  assumes "mb_ok s" and "live s m"
  shows "\<exists>s'. m_free m s = Some s' \<and> loses {m} s s'"
proof -
  define e where "e = ext_buf (m_ext (mb s m))"
  define t where "t = (if has M_EXT (mb s m) then drop_ext m s else s)"
  define s' where "s' = (put m ((mb t m)\<lparr>m_type := MT_FREE, m_flags := 0, m_len := 0\<rparr>) (mcl_add (mtocl m) (-1) t))\<lparr>mfree := m # mfree t\<rparr>"
  note ok = mb_okD [OF assms(1)]
  have "(\<forall>x. core (mb t x) = core (mb s x)) \<and> buf t = buf s \<and> mfree t = mfree s \<and>
    (\<forall>b. users s b - {m} \<noteq> {} \<longrightarrow> (\<exists>xs. ring (forward t) (backward t) xs \<and> set xs = users s b - {m})) \<and>
    (mclfree t = mclfree s \<and> mclrefcnt t = mclrefcnt s \<and> (users s e = {m} \<longrightarrow> mclrefcnt s e < 0) \<or>
      users s e = {m} \<and> mclfree t = e # mclfree s \<and> mclrefcnt t = (mclrefcnt s)(e := 0))"
  proof (cases "has M_EXT (mb s m)")
    case True
    then have "t = drop_ext m s"
      by (simp add: t_def)
    note D = drop_ext_ok [OF assms True, folded this e_def]
    show ?thesis
      by (intro conjI allI impI D) assumption
  next
    case False
    then have "m \<notin> users s b" for b
      by (simp add: users_def)
    moreover from this have "users s e \<noteq> {m}"
      by blast
    ultimately show ?thesis
      using ok(7) False by (auto simp: t_def buffer_ok_def)
  qed
  then have T: "\<And>x. core (mb t x) = core (mb s x)" "buf t = buf s" "mfree t = mfree s"
    "\<And>b. users s b - {m} \<noteq> {} \<Longrightarrow> \<exists>xs. ring (forward t) (backward t) xs \<and> set xs = users s b - {m}"
    "mclfree t = mclfree s \<and> mclrefcnt t = mclrefcnt s \<and> (users s e = {m} \<longrightarrow> mclrefcnt s e < 0) \<or>
      users s e = {m} \<and> mclfree t = e # mclfree s \<and> mclrefcnt t = (mclrefcnt s)(e := 0)"
    by blast+
  have m: "m_free m s = Some s'"
    using assms(2) by (simp add: m_free_def live_def t_def s'_def Let_def)
  have S: "mb s' = (mb t)(m := (mb t m)\<lparr>m_type := MT_FREE, m_flags := 0, m_len := 0\<rparr>)" "buf s' = buf s" "mfree s' = m # mfree s"
    "mclfree s' = mclfree t" "mclrefcnt s' = (mclrefcnt t)(mtocl m := mclrefcnt t (mtocl m) - 1)"
    using T(2,3) by (simp_all add: s'_def)
  note C = coreD [OF T(1)]
  have lv: "live s' x \<longleftrightarrow> x \<noteq> m \<and> live s x" for x
    using S(1) C(3) by (simp add: live_def)
  have users: "users s' b = users s b - {m}" for b
    using lv S(1) C(6,7) by (auto simp: users_def)
  have carved: "carved s' c = carved s c" for c
    using lv S(3) assms(2) by (auto simp: carved_def)
  have busy: "busy s c = (if c = mtocl m then busy s' c + 1 else busy s' c)" for c
  proof (rule busy_step)
    show "\<not> live s' m"
      using lv by simp
    show "live s x \<longleftrightarrow> x = m \<or> live s' x" for x
      using lv [of x] assms(2) by (cases "x = m") simp_all
  qed
  have cm: "carved s (mtocl m)"
    using assms(2) by (auto simp: carved_def)
  have e: "e \<notin> set (mclfree s)" "\<not> carved s e" if "users s e = {m}"
    using ok(7) [of e] that by (auto simp: buffer_ok_def)
  have "buffer_ok s' b" if "users s' b \<noteq> {}" for b
  proof -
    have b: "buffer_ok s b"
      using ok(7) that users by blast
    then have nb: "b \<noteq> mtocl m" "b \<notin> set (mclfree s)"
      using cm by (auto simp: buffer_ok_def)
    have "\<exists>xs. ring (forward s') (backward s') xs \<and> set xs = users s' b"
    proof -
      have "forward s' = forward t" "backward s' = backward t"
        using S(1) by auto
      then show ?thesis
        using T(4) [of b] that users by auto
    qed
    moreover have "b \<noteq> e" if "users s e = {m}"
      using that \<open>users s' b \<noteq> {}\<close> users [of e] by auto
    then have "b \<notin> set (mclfree s')" "mclrefcnt s' b = mclrefcnt s b"
      using T(5) nb S(4,5) by auto
    moreover have "ext_free (m_ext (mb s' x)) = ext_free (m_ext (mb s x))" for x
      using C(8) S(1) by simp
    ultimately show ?thesis
      using b users carved unfolding buffer_ok_def by auto
  qed
  moreover have "c \<in> set (mclfree s') \<or> carved s' c \<or> users s' c \<noteq> {}" if "0 \<le> mclrefcnt s' c" for c
  proof (cases "carved s c \<or> users s c - {m} \<noteq> {}")
    case False
    then have "c \<noteq> mtocl m" "users s c = {} \<or> users s c = {m}"
      using cm by auto
    moreover have "c = e" if "users s c = {m}"
    proof -
      have "m \<in> users s c"
        using that by simp
      then show ?thesis
        by (simp add: users_def e_def)
    qed
    ultimately show ?thesis
      using ok(9) [of c] that T(5) S(4,5) False by auto
  qed (use carved users in auto)
  moreover have "mclrefcnt s' c = 1 + int (busy s' c)" if "carved s' c" for c
    using ok(6) [of c] that carved busy [of c] S(5) T(5) e(2) by auto
  moreover have "mclrefcnt s' c = 0 \<and> \<not> carved s' c" if "c \<in> set (mclfree s')" for c
    using ok(4,5) [of c] that carved S(4,5) T(5) e(2) cm by auto
  moreover have "distinct (mclfree s')"
    using ok(3) e(1) S(4) T(5) by auto
  moreover have "length (m_dat (mb s' x)) = MLEN" for x
    using ok(8) S(1) C(5) by simp
  moreover have "distinct (mfree s')" "\<And>x. x \<in> set (mfree s') \<Longrightarrow> \<not> live s' x"
    using ok(1,2) lv S(3) assms(2) by auto
  ultimately have "mb_ok s'"
    unfolding mb_ok_def by auto
  moreover have "kept (Collect (live s) - {m}) s s'"
    using T(1) S(1,2) by (simp add: kept_def)
  ultimately show ?thesis
    using m lv by (auto simp: loses_def)
qed

lemma loses_trans:
  assumes "loses M s t" and "loses N t u"
  shows "loses (M \<union> N) s u"
proof -
  have "kept (Collect (live s) - (M \<union> N)) s u"
    using assms by (auto simp: loses_def kept_def)
  then show ?thesis
    using assms by (auto simp: loses_def)
qed

lemma m_freem_ok:
  "\<lbrakk>mb_ok s; distinct ms; \<forall>m \<in> set ms. live s m\<rbrakk> \<Longrightarrow> \<exists>s'. m_freem ms s = Some s' \<and> loses (set ms) s s'"
proof (induction ms arbitrary: s)
  case Nil
  then show ?case
    by (simp add: loses_def)
next
  case (Cons m ms)
  obtain t where t: "m_free m s = Some t" "loses {m} s t"
    using m_free_ok [of s m] Cons.prems by auto
  have "mb_ok t" "distinct ms" "\<forall>x \<in> set ms. live t x"
    using t(2) Cons.prems by (auto simp: loses_def)
  then obtain s' where "m_freem ms t = Some s'" "loses (set ms) t s'"
    using Cons.IH by blast
  then show ?case
    using t(1) loses_trans [OF t(2), of "set ms" s'] by simp
qed

text \<open>A new mbuf joins the ring of \<open>m\<close>.\<close>

lemma share_ok:
  assumes "mb_ok s" and "live s n" and "\<not> has M_EXT (mb s n)" and "live s m" and "has M_EXT (mb s m)"
    and "copy_data m off n s = Some s'"
  shows "mb_ok s'" "live s' x \<longleftrightarrow> live s x" "kept (- {n}) s s'" "has M_EXT (mb s' n)"
    "core (mb s' n) = core ((mb s n)\<lparr>m_data := m_data (mb s m) + off, m_flags := m_flags (mb s n) OR M_EXT, m_ext := m_ext (mb s m)\<rparr>)"
    "m_pkthdr (mb s' n) = m_pkthdr (mb s n)"
proof -
  define e where "e = ext_buf (m_ext (mb s m))"
  define s1 where "s1 = put n ((mb s n)\<lparr>m_ext := m_ext (mb s m)\<rparr>) s"
  define s2 where "s2 = insque n m s1"
  have nm: "n \<noteq> m"
    using assms(3,5) by auto
  have s': "s' = put n ((mb s2 n)\<lparr>m_data := m_data (mb s2 m) + off, m_flags := m_flags (mb s2 n) OR M_EXT\<rparr>) s2"
    using assms(5,6) by (simp add: copy_data_def s1_def s2_def Let_def)
  note ok = mb_okD [OF assms(1)]
  note I = insque_sel [OF nm, of s1, folded s2_def]
  have s1: "mb s1 x = (if x = n then (mb s n)\<lparr>m_ext := m_ext (mb s m)\<rparr> else mb s x)" "buf s1 = buf s" "mfree s1 = mfree s"
    "mclfree s1 = mclfree s" "mclrefcnt s1 = mclrefcnt s" for x
    by (simp_all add: s1_def)
  have f: "forward s' = (forward s)(n := forward s m, m := n)" "backward s' = (backward s)(n := m, forward s m := n)"
    using I(1,2) s1(1) nm s' by auto
  have sel: "mfree s' = mfree s" "mclfree s' = mclfree s" "mclrefcnt s' = mclrefcnt s" "buf s' = buf s"
    using s' I(4-7) s1 by simp_all
  have core: "core (mb s' x) = core (mb s x)" if "x \<noteq> n" for x
    using that s' I(3) s1(1) by simp
  have core_s2: "core (mb s2 n) = core ((mb s n)\<lparr>m_ext := m_ext (mb s m)\<rparr>)" "core (mb s2 m) = core (mb s m)"
    using I(3) s1(1) nm by simp_all
  show cn: "core (mb s' n) = core ((mb s n)\<lparr>m_data := m_data (mb s m) + off, m_flags := m_flags (mb s n) OR M_EXT, m_ext := m_ext (mb s m)\<rparr>)"
    using core_s2(1) coreD(2) [OF core_s2(2)] coreD(4) [OF core_s2(1)] s'
    by (simp add: core_update) (simp add: core_def)
  show "m_pkthdr (mb s' n) = m_pkthdr (mb s n)"
    using s' nm unfolding s2_def insque_def Let_def set_forward_def set_backward_def by (simp add: s1_def)
  note C = coreD [OF core] and Cn = coreD [OF cn]
  show lv: "live s' x \<longleftrightarrow> live s x" for x
    using C(3) [of x] Cn(3) by (cases "x = n") (simp_all add: live_def)
  show "kept (- {n}) s s'"
    using core sel(4) by (simp add: kept_def)
  show ext: "has M_EXT (mb s' n)"
    using Cn(4) by (simp add: has_def word_ao_absorbs)
  have users: "users s' b = (if b = e then insert n (users s e) else users s b)" for b
  proof -
    have "x \<in> users s' b \<longleftrightarrow> x \<in> (if b = e then insert n (users s e) else users s b)" for x
      using lv [of x] C(6,7) [of x] Cn(7) ext assms(2,3) by (cases "x = n") (auto simp: users_def e_def)
    then show ?thesis
      by blast
  qed
  have carved: "carved s' c = carved s c" and busy: "busy s' c = busy s c" for c
    using lv sel(1) by (simp_all add: carved_def busy_def)
  obtain xs where xs: "ring (forward s) (backward s) xs" "set xs = users s e" "e \<notin> set (mclfree s)" "\<not> carved s e" "m \<in> users s e"
    "(\<forall>x \<in> users s e. \<not> ext_free (m_ext (mb s x))) \<and> mclrefcnt s e = 1 \<or>
      (\<forall>x \<in> users s e. ext_free (m_ext (mb s x))) \<and> mclrefcnt s e < 0"
    using buffer_okE [OF assms(1,4,5)] unfolding e_def by metis
  obtain ys where ys: "ring (forward s) (backward s) (m # ys)" "set (m # ys) = set xs"
    using ring_from [OF xs(1)] xs(2,5) by metis
  have fm: "forward s m \<in> users s e"
    using ys xs(2) by (cases ys) (auto simp: ring_def)
  have "n \<notin> users s e"
    using assms(3) by (simp add: users_def)
  moreover from this have "n \<notin> set (m # ys)"
    using ys(2) xs(2) by simp
  ultimately have link: "n \<notin> users s e" "ring (forward s') (backward s') (m # n # ys)"
    using ring_link [OF ys(1)] unfolding f by blast+
  have free: "ext_free (m_ext (mb s' x)) = ext_free (m_ext (mb s x))" if "x \<noteq> n" for x
    using C(8) [OF that] .
  have "buffer_ok s' b" if b: "users s' b \<noteq> {}" for b
  proof (cases "b = e")
    case True
    have "set (m # n # ys) = users s' e"
      using users ys(2) xs(2) by auto
    moreover have "ext_free (m_ext (mb s' n)) = ext_free (m_ext (mb s m))"
      using Cn(8) by simp
    ultimately show ?thesis
      using True link xs(3-6) users free carved sel unfolding buffer_ok_def by (metis insert_iff)
  next
    case False
    then have b: "buffer_ok s b" "users s' b = users s b"
      using ok(7) b users by simp_all
    then obtain zs where zs: "ring (forward s) (backward s) zs" "set zs = users s b"
      by (auto simp: buffer_ok_def)
    have "forward s m \<notin> set zs" "m \<notin> set zs" "n \<notin> set zs"
      using False fm xs(5) assms(3) zs(2) by (auto simp: users_def)
    then have "ring (forward s') (backward s') zs \<longleftrightarrow> ring (forward s) (backward s) zs"
      using fun_cong [OF f(1)] fun_cong [OF f(2)] by (intro ring_cong) auto
    moreover have "x \<noteq> n" if "x \<in> users s b" for x
      using that assms(3) by (auto simp: users_def)
    ultimately show ?thesis
      using b zs carved sel free unfolding buffer_ok_def by metis
  qed
  moreover have "length (m_dat (mb s' x)) = MLEN" for x
    using ok(8) [of x] C(5) [of x] Cn(5) by (cases "x = n") simp_all
  ultimately show "mb_ok s'"
    using ok(1-6,9) lv carved busy sel users unfolding mb_ok_def by auto
qed

end
