(* ===== verification/Mbuf_Bytes.thy ===== *)
theory Mbuf_Bytes
  imports Mbuf_Ring
begin

text \<open>
  The bytes that a chain of mbufs stands for, and the operations that only read them or move their ends:
  \<open>m_copydata\<close> and \<open>m_adj\<close>.
\<close>

section \<open>The bytes of a chain\<close>

definition bytes :: "mb_state \<Rightarrow> nat \<Rightarrow> u8 list" where
  "bytes s m = take (m_len (mb s m)) (drop (m_data (mb s m)) (memory s m))"

definition chain_bytes :: "mb_state \<Rightarrow> nat list \<Rightarrow> u8 list" where
  "chain_bytes s ms = concat (map (bytes s) ms)"

text \<open>The data lies in the buffer, and behind the packet header.\<close>

definition fits :: "mb_state \<Rightarrow> nat \<Rightarrow> bool" where
  "fits s m \<longleftrightarrow> m_data (mb s m) + m_len (mb s m) \<le> length (memory s m) \<and>
     (has M_PKTHDR (mb s m) \<and> \<not> has M_EXT (mb s m) \<longrightarrow> m_pktdat \<le> m_data (mb s m))"

definition mchain_ok :: "mb_state \<Rightarrow> nat list \<Rightarrow> bool" where
  "mchain_ok s ms \<longleftrightarrow> distinct ms \<and> (\<forall>m \<in> set ms. live s m \<and> fits s m)"

lemma mchain_okD: "mchain_ok s ms \<Longrightarrow> distinct ms" "\<lbrakk>mchain_ok s ms; m \<in> set ms\<rbrakk> \<Longrightarrow> live s m" "\<lbrakk>mchain_ok s ms; m \<in> set ms\<rbrakk> \<Longrightarrow> fits s m"
  by (simp_all add: mchain_ok_def)

lemma mchain_ok_Cons: "mchain_ok s (m # ms) \<longleftrightarrow> live s m \<and> fits s m \<and> m \<notin> set ms \<and> mchain_ok s ms"
  by (auto simp: mchain_ok_def)

lemma mchain_ok_append: "mchain_ok s (ms @ ns) \<longleftrightarrow> mchain_ok s ms \<and> mchain_ok s ns \<and> set ms \<inter> set ns = {}"
  by (auto simp: mchain_ok_def)

lemma chain_bytes_simps [simp]:
  "chain_bytes s [] = []" "chain_bytes s (m # ms) = bytes s m @ chain_bytes s ms"
  "chain_bytes s (ms @ ns) = chain_bytes s ms @ chain_bytes s ns"
  by (simp_all add: chain_bytes_def)

lemma length_bytes: "fits s m \<Longrightarrow> length (bytes s m) = m_len (mb s m)"
  by (auto simp: bytes_def fits_def min_def)

lemma length_chain_bytes: "\<forall>m \<in> set ms. fits s m \<Longrightarrow> length (chain_bytes s ms) = sum_list (map (\<lambda>m. m_len (mb s m)) ms)"
  by (induction ms) (simp_all add: length_bytes)

lemma load_bytes_fits:
  "\<lbrakk>fits s m; off + n \<le> m_len (mb s m)\<rbrakk> \<Longrightarrow> load_bytes m (m_data (mb s m) + off) n s = Some (take n (drop off (bytes s m)))"
  by (auto simp: load_bytes_def bytes_def fits_def drop_take take_take min_def add.commute)

lemma core_bytes:
  assumes "core (mb s' m) = core (mb s m)" and "buf s' = buf s"
  shows "bytes s' m = bytes s m" "fits s' m = fits s m" "memory s' m = memory s m"
  using coreD [OF assms(1)] assms(2) by (simp_all add: bytes_def fits_def memory_def)

lemma kept_bytes:
  assumes "kept M s s'" and "set ms \<subseteq> M"
  shows "chain_bytes s' ms = chain_bytes s ms" "mchain_ok s' ms = mchain_ok s ms"
proof -
  have C: "core (mb s' m) = core (mb s m)" "buf s' = buf s" if "m \<in> set ms" for m
    using assms that by (auto simp: kept_def)
  show "chain_bytes s' ms = chain_bytes s ms"
    using core_bytes(1) [OF C] by (simp add: chain_bytes_def cong: map_cong)
  show "mchain_ok s' ms = mchain_ok s ms"
  proof -
    have "live s' m = live s m \<and> fits s' m = fits s m" if "m \<in> set ms" for m
      using core_bytes(2) [OF C [OF that]] kept_live [OF assms(1)] assms(2) that by auto
    then show ?thesis
      by (simp add: mchain_ok_def)
  qed
qed

section \<open>Reading\<close>

lemma m_skip_bytes:
  assumes "\<forall>m \<in> set ms. fits s m"
  shows "case m_skip s ms off of
      None \<Rightarrow> length (chain_bytes s ms) < off
    | Some (ns, k) \<Rightarrow> off \<le> length (chain_bytes s ms) \<and> drop k (chain_bytes s ns) = drop off (chain_bytes s ms) \<and>
        (\<exists>before. ms = before @ ns) \<and> (case ns of [] \<Rightarrow> k = 0 | m # _ \<Rightarrow> k \<le> m_len (mb s m)) \<and> (off = 0 \<longrightarrow> ns = ms \<and> k = 0)"
  using assms
proof (induction ms arbitrary: off)
  case (Cons m ms)
  then have l: "length (bytes s m) = m_len (mb s m)"
    by (simp add: length_bytes)
  show ?case
  proof (cases "off = 0 \<or> off < m_len (mb s m)")
    case False
    then show ?thesis
      using Cons.IH [of "off - m_len (mb s m)"] Cons.prems l
      by (auto split: option.splits intro: exI [of _ "m # _"])
  qed (auto simp: l)
qed simp

lemma copydata_loop_bytes:
  "\<lbrakk>\<forall>m \<in> set ms. fits s m; case ms of [] \<Rightarrow> off = 0 | m # _ \<Rightarrow> off \<le> m_len (mb s m)\<rbrakk> \<Longrightarrow>
    copydata_loop ms off len s =
      (if off + len \<le> length (chain_bytes s ms) then Some (take len (drop off (chain_bytes s ms))) else None)"
proof (induction ms arbitrary: off len)
  case (Cons m ms)
  then have l: "length (bytes s m) = m_len (mb s m)" "off \<le> m_len (mb s m)" "\<forall>m \<in> set ms. fits s m"
    by (simp_all add: length_bytes)
  let ?count = "min (m_len (mb s m) - off) len"
  have "load_bytes m (m_data (mb s m) + off) ?count s = Some (take ?count (drop off (bytes s m)))"
    using Cons.prems l(2) by (intro load_bytes_fits) auto
  moreover have "case ms of [] \<Rightarrow> 0 = (0::nat) | m # _ \<Rightarrow> 0 \<le> m_len (mb s m)"
    by (cases ms) simp_all
  ultimately show ?case
    using Cons.IH [OF l(3), of 0 "len - ?count"] l(1,2) by (auto simp: min_def)
qed auto

lemma m_copydata_bytes:
  assumes "\<forall>m \<in> set ms. fits s m"
  shows "m_copydata ms (int off) (int len) s =
    (if off + len \<le> length (chain_bytes s ms) then Some (take len (drop off (chain_bytes s ms))) else None)"
proof (cases "m_skip s ms off")
  case None
  then show ?thesis
    using m_skip_bytes [OF assms, of off] by (simp add: m_copydata_def)
next
  case (Some a)
  then obtain ns k where a: "m_skip s ms off = Some (ns, k)"
    by (cases a) auto
  then have S: "off \<le> length (chain_bytes s ms)" "drop k (chain_bytes s ns) = drop off (chain_bytes s ms)"
    "\<forall>m \<in> set ns. fits s m" "case ns of [] \<Rightarrow> k = 0 | m # _ \<Rightarrow> k \<le> m_len (mb s m)"
    using m_skip_bytes [OF assms, of off] assms by auto
  have "k \<le> length (chain_bytes s ns)"
    using S(3,4) by (cases ns) (simp_all add: length_bytes)
  then have "length (chain_bytes s ns) - k = length (chain_bytes s ms) - off"
    using S(2) by (metis length_drop)
  then have "k + len \<le> length (chain_bytes s ns) \<longleftrightarrow> off + len \<le> length (chain_bytes s ms)"
    using S(1) \<open>k \<le> length (chain_bytes s ns)\<close> by linarith
  then show ?thesis
    using a copydata_loop_bytes [OF S(3,4), of len] S(2) by (simp add: m_copydata_def)
qed

section \<open>Trimming\<close>

lemma set_sel [simp]:
  "mb (set_len m n s) = (mb s)(m := (mb s m)\<lparr>m_len := n\<rparr>)" "buf (set_len m n s) = buf s"
  "mb (set_data m n s) = (mb s)(m := (mb s m)\<lparr>m_data := n\<rparr>)" "buf (set_data m n s) = buf s"
  "mb (set_ph_len m k s) = (mb s)(m := (mb s m)\<lparr>m_pkthdr := (m_pkthdr (mb s m))\<lparr>ph_len := k\<rparr>\<rparr>)" "buf (set_ph_len m k s) = buf s"
  "mfree (set_len m n s) = mfree s" "mclfree (set_len m n s) = mclfree s" "mclrefcnt (set_len m n s) = mclrefcnt s"
  "mfree (set_data m n s) = mfree s" "mclfree (set_data m n s) = mclfree s" "mclrefcnt (set_data m n s) = mclrefcnt s"
  "mfree (set_ph_len m k s) = mfree s" "mclfree (set_ph_len m k s) = mclfree s" "mclrefcnt (set_ph_len m k s) = mclrefcnt s"
  by (simp_all add: set_len_def set_data_def set_ph_len_def)

lemma has_update [simp]:
  "has flag (x\<lparr>m_len := n\<rparr>) = has flag x" "has flag (x\<lparr>m_data := n\<rparr>) = has flag x" "has flag (x\<lparr>m_pkthdr := h\<rparr>) = has flag x"
  "has flag (x\<lparr>m_type := ty\<rparr>) = has flag x" "has flag (x\<lparr>m_dat := bs\<rparr>) = has flag x" "has flag (x\<lparr>m_ext := e\<rparr>) = has flag x"
  by (simp_all add: has_def)

text \<open>Moving the ends of the data leaves the allocation as it is.\<close>

definition trimmed :: "nat set \<Rightarrow> mb_state \<Rightarrow> mb_state \<Rightarrow> bool" where
  "trimmed M s s' \<longleftrightarrow>
     (\<forall>x. (mb s' x)\<lparr>m_len := 0, m_data := 0\<rparr> = (mb s x)\<lparr>m_len := 0, m_data := 0\<rparr>) \<and> (\<forall>x. x \<notin> M \<longrightarrow> mb s' x = mb s x) \<and>
     buf s' = buf s \<and> mfree s' = mfree s \<and> mclfree s' = mclfree s \<and> mclrefcnt s' = mclrefcnt s"

lemma trimmed_refl [simp]: "trimmed M s s"
  by (simp add: trimmed_def)

lemma trimmed_trans: "\<lbrakk>trimmed M s t; trimmed N t u; M \<subseteq> L; N \<subseteq> L\<rbrakk> \<Longrightarrow> trimmed L s u"
  unfolding trimmed_def by (metis subsetD)

lemma trimmed_mono: "\<lbrakk>trimmed M s s'; M \<subseteq> N\<rbrakk> \<Longrightarrow> trimmed N s s'"
  unfolding trimmed_def by blast

lemma trimmed_set [simp]: "m \<in> M \<Longrightarrow> trimmed M s (set_len m n s)" "m \<in> M \<Longrightarrow> trimmed M s (set_data m n s)"
  by (auto simp: trimmed_def)

lemma trimmed_after: "\<lbrakk>trimmed N (set_len m n s) u; m \<in> L; N \<subseteq> L\<rbrakk> \<Longrightarrow> trimmed L s u"
  using trimmed_trans [OF trimmed_set(1), of m "{m}"] by simp

lemma trimmed_sel:
  assumes "trimmed M s s'"
  shows "m_type (mb s' x) = m_type (mb s x)" "m_flags (mb s' x) = m_flags (mb s x)" "m_pkthdr (mb s' x) = m_pkthdr (mb s x)"
    "m_ext (mb s' x) = m_ext (mb s x)" "m_dat (mb s' x) = m_dat (mb s x)" "has flag (mb s' x) = has flag (mb s x)"
    "live s' x = live s x" "memory s' x = memory s x" "x \<notin> M \<Longrightarrow> mb s' x = mb s x"
proof -
  have E: "(mb s' x)\<lparr>m_len := 0, m_data := 0\<rparr> = (mb s x)\<lparr>m_len := 0, m_data := 0\<rparr>"
    using assms by (simp add: trimmed_def)
  show *: "m_type (mb s' x) = m_type (mb s x)" "m_flags (mb s' x) = m_flags (mb s x)" "m_pkthdr (mb s' x) = m_pkthdr (mb s x)"
    "m_ext (mb s' x) = m_ext (mb s x)" "m_dat (mb s' x) = m_dat (mb s x)"
    using arg_cong [OF E, of m_type] arg_cong [OF E, of m_flags] arg_cong [OF E, of m_pkthdr] arg_cong [OF E, of m_ext]
      arg_cong [OF E, of m_dat] by simp_all
  show "has flag (mb s' x) = has flag (mb s x)" "live s' x = live s x" "memory s' x = memory s x" "x \<notin> M \<Longrightarrow> mb s' x = mb s x"
    using * assms by (simp_all add: has_def live_def memory_def trimmed_def)
qed

lemma trimmed_ok: "trimmed M s s' \<Longrightarrow> mb_ok s' \<longleftrightarrow> mb_ok s"
  by (rule mb_ok_cong) (simp_all add: trimmed_sel, simp_all add: trimmed_def)

lemma trimmed_bytes:
  assumes "trimmed M s s'"
  shows "bytes s' x = take (m_len (mb s' x)) (drop (m_data (mb s' x)) (memory s x))"
    "x \<notin> M \<Longrightarrow> bytes s' x = bytes s x" "x \<notin> M \<Longrightarrow> fits s' x = fits s x"
  using trimmed_sel [OF assms, where x = x] by (simp_all add: bytes_def fits_def)

lemma trimmed_kept: "trimmed M s s' \<Longrightarrow> kept (- M) s s'"
  by (simp add: trimmed_def kept_def)

lemma trimmed_chain:
  assumes "trimmed M s s'" and "set ms \<inter> M = {}"
  shows "chain_bytes s' ms = chain_bytes s ms" "map (\<lambda>m. m_len (mb s' m)) ms = map (\<lambda>m. m_len (mb s m)) ms"
    "mchain_ok s' ms = mchain_ok s ms"
proof -
  have x: "x \<notin> M" if "x \<in> set ms" for x
    using that assms(2) by blast
  show "chain_bytes s' ms = chain_bytes s ms" "map (\<lambda>m. m_len (mb s' m)) ms = map (\<lambda>m. m_len (mb s m)) ms"
    using trimmed_bytes(2) [OF assms(1) x] trimmed_sel(9) [OF assms(1) x] by (simp_all add: chain_bytes_def cong: map_cong)
  show "mchain_ok s' ms = mchain_ok s ms"
    using trimmed_bytes(3) [OF assms(1) x] trimmed_sel(7) [OF assms(1)] by (simp add: mchain_ok_def)
qed

lemma adj_head_bytes:
  assumes "adj_head ms len s = (s', len')" and "distinct ms" and "\<forall>m \<in> set ms. fits s m"
  shows "chain_bytes s' ms = drop len (chain_bytes s ms)" "len' = len - length (chain_bytes s ms)"
    "\<forall>m \<in> set ms. fits s' m" "trimmed (set ms) s s'"
proof -
  have "chain_bytes s' ms = drop len (chain_bytes s ms) \<and> len' = len - length (chain_bytes s ms) \<and>
    (\<forall>m \<in> set ms. fits s' m) \<and> trimmed (set ms) s s'"
    using assms
  proof (induction ms len s rule: adj_head.induct)
    case (2 m ms len s)
    have l: "length (bytes s m) = m_len (mb s m)" and m: "m \<notin> set ms"
      using "2.prems" by (simp_all add: length_bytes)
    show ?case
    proof (cases "len = 0 \<or> m_len (mb s m) > len")
      case True
      show ?thesis
      proof (cases "len = 0")
        case False
        then have s': "s' = set_data m (m_data (mb s m) + len) (set_len m (m_len (mb s m) - len) s)" "len' = 0" "len < m_len (mb s m)"
          using "2.prems"(1) True by auto
        then have T: "trimmed {m} s s'"
          using trimmed_trans [of "{m}" s "set_len m (m_len (mb s m) - len) s" "{m}" s' "{m}"] by simp
        have "bytes s' m = drop len (bytes s m)"
          unfolding trimmed_bytes(1) [OF T] using s'(1,3) by (simp add: bytes_def drop_take add.commute)
        moreover have "fits s' m"
          using trimmed_sel [OF T, where x = m] s'(1,3) "2.prems"(3) by (auto simp: fits_def)
        moreover have "\<forall>x \<in> set ms. fits s' x"
          using trimmed_bytes(3) [OF T] m "2.prems"(3) by (metis list.set_intros(2) singletonD)
        moreover have "trimmed (set (m # ms)) s s'"
          using trimmed_mono [OF T] by simp
        moreover have "chain_bytes s' ms = chain_bytes s ms"
          using trimmed_chain(1) [OF T] m by simp
        ultimately show ?thesis
          using s' l by simp
      qed (use "2.prems" in auto)
    next
      case False
      let ?t = "set_len m 0 s"
      have T: "trimmed {m} s ?t"
        by simp
      have "\<forall>x \<in> set ms. fits ?t x"
        using trimmed_bytes(3) [OF T] m "2.prems"(3) by (metis list.set_intros(2) singletonD)
      then have IH: "chain_bytes s' ms = drop (len - m_len (mb s m)) (chain_bytes ?t ms)"
        "len' = len - m_len (mb s m) - length (chain_bytes ?t ms)" "\<forall>x \<in> set ms. fits s' x" "trimmed (set ms) ?t s'"
        using "2.IH" "2.prems" False by auto
      have "mb s' m = mb ?t m"
        using trimmed_sel(9) [OF IH(4) m] .
      then have "m_len (mb s' m) = 0" "m_data (mb s' m) = m_data (mb s m)"
        by simp_all
      moreover have "fits s' m"
        using \<open>mb s' m = mb ?t m\<close> trimmed_bytes(3) [OF IH(4) m] "2.prems"(3) by (auto simp: fits_def memory_def)
      moreover have "trimmed (set (m # ms)) s s'"
        using trimmed_trans [OF T IH(4)] by auto
      moreover have "chain_bytes ?t ms = chain_bytes s ms"
        using trimmed_chain(1) [OF T] m by simp
      ultimately show ?thesis
        using IH l False by (simp add: bytes_def)
    qed
  qed simp
  then show "chain_bytes s' ms = drop len (chain_bytes s ms)" "len' = len - length (chain_bytes s ms)"
    "\<forall>m \<in> set ms. fits s' m" "trimmed (set ms) s s'"
    by blast+
qed

lemma fold_zero:
  "trimmed (set ms) s (fold (\<lambda>m. set_len m 0) ms s)"
  "m \<in> set ms \<Longrightarrow> m_len (mb (fold (\<lambda>m. set_len m 0) ms s) m) = 0 \<and> m_data (mb (fold (\<lambda>m. set_len m 0) ms s) m) = m_data (mb s m)"
proof (induction ms arbitrary: s)
  case (Cons x ms)
  {
    case 1
    show ?case
      by (auto intro: trimmed_after [OF Cons.IH(1)])
  next
    case 2
    show ?case
    proof (cases "m \<in> set ms")
      case True
      then show ?thesis
        using Cons.IH(2) [of "set_len x 0 s"] by simp
    next
      case False
      then show ?thesis
        using 2 trimmed_sel(9) [OF Cons.IH(1) False, of "set_len x 0 s"] by simp
    qed
  }
qed simp_all

lemma trimmed_single:
  assumes "fits s m" and "n \<le> m_len (mb s m)"
  shows "bytes (set_len m n s) m = take n (bytes s m)" "fits (set_len m n s) m"
  using assms by (auto simp: bytes_def fits_def memory_def min_def)

lemma adj_keep_bytes:
  assumes "distinct ms" and "\<forall>m \<in> set ms. fits s m" and "count \<le> length (chain_bytes s ms)"
  shows "chain_bytes (adj_keep ms count s) ms = take count (chain_bytes s ms)"
    "\<forall>m \<in> set ms. fits (adj_keep ms count s) m" "trimmed (set ms) s (adj_keep ms count s)"
proof -
  have "chain_bytes (adj_keep ms count s) ms = take count (chain_bytes s ms) \<and>
    (\<forall>m \<in> set ms. fits (adj_keep ms count s) m) \<and> trimmed (set ms) s (adj_keep ms count s)"
    using assms
  proof (induction ms count s rule: adj_keep.induct)
    case (2 m ms count s)
    have l: "length (bytes s m) = m_len (mb s m)" and m: "m \<notin> set ms"
      using "2.prems" by (simp_all add: length_bytes)
    show ?case
    proof (cases "count \<le> m_len (mb s m)")
      case True
      let ?t = "set_len m count s"
      define u where "u = fold (\<lambda>m. set_len m 0) ms ?t"
      note Z = fold_zero [where ms = ms and s = ?t, folded u_def]
      note S = trimmed_single [OF _ True]
      have T: "trimmed (set (m # ms)) s u"
        using trimmed_after [OF Z(1)] by auto
      have "bytes u m = take count (bytes s m)" "fits u m"
        using trimmed_bytes(2,3) [OF Z(1) m] S "2.prems"(2) by simp_all
      moreover have "bytes u x = [] \<and> fits u x" if "x \<in> set ms" for x
        using Z(2) [OF that] trimmed_sel(6,8) [OF T, where x = x] "2.prems"(2) that m by (auto simp: bytes_def fits_def)
      ultimately show ?thesis
        using T True l by (auto simp: u_def chain_bytes_def)
    next
      case False
      have IH: "chain_bytes (adj_keep ms (count - m_len (mb s m)) s) ms = take (count - m_len (mb s m)) (chain_bytes s ms)"
        "\<forall>x \<in> set ms. fits (adj_keep ms (count - m_len (mb s m)) s) x"
        "trimmed (set ms) s (adj_keep ms (count - m_len (mb s m)) s)"
        using "2.IH" "2.prems" False l by auto
      then show ?thesis
        using trimmed_bytes(2,3) [OF IH(3) m] trimmed_mono [OF IH(3), of "set (m # ms)"] False l "2.prems"(2) by auto
    qed
  qed simp
  then show "chain_bytes (adj_keep ms count s) ms = take count (chain_bytes s ms)"
    "\<forall>m \<in> set ms. fits (adj_keep ms count s) m" "trimmed (set ms) s (adj_keep ms count s)"
    by blast+
qed

lemma ph_len_bytes:
  "bytes (set_ph_len m k s) x = bytes s x" "fits (set_ph_len m k s) x = fits s x" "live (set_ph_len m k s) x = live s x"
  "chain_bytes (set_ph_len m k s) ms = chain_bytes s ms"
  by (auto simp: bytes_def fits_def memory_def live_def chain_bytes_def intro!: arg_cong [where f = concat])

lemma ph_len_ok: "mb_ok (set_ph_len m k s) \<longleftrightarrow> mb_ok s"
  by (rule mb_ok_cong) simp_all

text \<open>The mbufs outside the chain stay as they are, and the packet's length remains that of the chain.\<close>

definition adjusted :: "nat list \<Rightarrow> u8 list \<Rightarrow> mb_state \<Rightarrow> mb_state \<Rightarrow> bool" where
  "adjusted ms bs s s' \<longleftrightarrow> chain_bytes s' ms = bs \<and> mchain_ok s' ms \<and> (mb_ok s' \<longleftrightarrow> mb_ok s) \<and>
     (\<forall>x. live s' x = live s x) \<and> (\<forall>x. x \<notin> set ms \<longrightarrow> mb s' x = mb s x) \<and> buf s' = buf s \<and>
     (ms \<noteq> [] \<and> has M_PKTHDR (mb s (hd ms)) \<and> ph_len (m_pkthdr (mb s (hd ms))) = int (length (chain_bytes s ms)) \<longrightarrow>
       ph_len (m_pkthdr (mb s' (hd ms))) = int (length bs))"

lemma trimmed_adjusted:
  assumes "trimmed (set ms) s t" and "mchain_ok s ms" and "\<forall>m \<in> set ms. fits t m" and "chain_bytes t ms = bs"
    and "s' = (if has M_PKTHDR (mb s (hd ms)) then set_ph_len (hd ms) k t else t)"
    and "ms \<noteq> []" and "ph_len (m_pkthdr (mb s (hd ms))) = int (length (chain_bytes s ms)) \<Longrightarrow> k = int (length bs)"
  shows "adjusted ms bs s s'"
proof -
  note T = trimmed_sel [OF assms(1)]
  have "chain_bytes s' ms = bs" "\<forall>m \<in> set ms. fits s' m" "\<And>x. live s' x = live s x" "mb_ok s' = mb_ok s"
    using assms(3-5) T(7) trimmed_ok [OF assms(1)] by (simp_all add: ph_len_bytes ph_len_ok)
  moreover have "\<forall>x. x \<notin> set ms \<longrightarrow> mb s' x = mb s x"
    using assms(5,6) T(9) by auto
  ultimately show ?thesis
    using assms T(3,6) by (auto simp: adjusted_def mchain_ok_def trimmed_def)
qed

lemma ph_len_swap: "set_len m n (set_ph_len x k s) = set_ph_len x k (set_len m n s)"
  by (rule mb_state.equality) (auto simp: set_len_def set_ph_len_def put_def intro!: ext mbuf.equality)

lemma fold_swap: "fold (\<lambda>m. set_len m 0) ms (set_ph_len x k s) = set_ph_len x k (fold (\<lambda>m. set_len m 0) ms s)"
  by (induction ms arbitrary: s) (simp_all add: ph_len_swap)

lemma adj_keep_swap: "adj_keep ms n (set_ph_len x k s) = set_ph_len x k (adj_keep ms n s)"
proof (induction ms n s rule: adj_keep.induct)
  case (2 m ms count s)
  have "m_len (mb (set_ph_len x k s) m) = m_len (mb s m)"
    by simp
  then show ?case
    using 2 unfolding adj_keep.simps by (simp add: ph_len_swap fold_swap)
qed simp

lemma m_adj_bytes:
  assumes "mchain_ok s ms"
  shows "adjusted ms
    (if 0 \<le> req then drop (nat req) (chain_bytes s ms)
     else take (length (chain_bytes s ms) - nat (- req)) (chain_bytes s ms)) s (m_adj ms req s)"
proof (cases ms)
  case Nil
  then show ?thesis
    using assms by (simp add: m_adj_def adjusted_def)
next
  case (Cons m ns)
  have F: "distinct ms" "\<forall>m \<in> set ms. fits s m"
    using assms by (auto simp: mchain_ok_def)
  note total = length_chain_bytes [OF F(2)]
  show ?thesis
  proof (cases "0 \<le> req")
    case True
    obtain t len where t: "adj_head ms (nat req) s = (t, len)"
      by fastforce
    note H = adj_head_bytes [OF t F]
    show ?thesis
      by (rule trimmed_adjusted [OF H(4) assms H(3), where k = "ph_len (m_pkthdr (mb s m)) - (req - int len)"])
        (use True Cons t H(1,2) in \<open>auto simp: m_adj_def Let_def\<close>)
  next
    case neg: False
    define len where "len = nat (- req)"
    show ?thesis
    proof (cases "len \<le> m_len (mb s (last ms))")
      case True
      let ?l = "last ms"
      let ?t = "set_len ?l (m_len (mb s ?l) - len) s"
      obtain as where as: "ms = as @ [?l]"
        using Cons by (metis append_butlast_last_id list.distinct(1))
      then have l: "?l \<in> set ms" "?l \<notin> set as"
        using F(1) by (metis in_set_conv_decomp, metis distinct_append disjoint_insert(1) list.simps(15))
      have T: "trimmed {?l} s ?t"
        by simp
      note S = trimmed_single [OF bspec [OF F(2) l(1)], of "m_len (mb s ?l) - len"]
      have "chain_bytes ?t as = chain_bytes s as"
        using trimmed_chain(1) [OF T] l(2) by auto
      then have "chain_bytes ?t ms = chain_bytes s as @ take (m_len (mb s ?l) - len) (bytes s ?l)"
        using S(1) arg_cong [OF as, of "chain_bytes ?t"] by simp
      moreover have "length (bytes s ?l) = m_len (mb s ?l)"
        using length_bytes F(2) l(1) by blast
      moreover have "chain_bytes s ms = chain_bytes s as @ bytes s ?l"
        using arg_cong [OF as, of "chain_bytes s"] by simp
      ultimately have "chain_bytes ?t ms = take (length (chain_bytes s ms) - len) (chain_bytes s ms)" "len \<le> length (chain_bytes s ms)"
        using True by simp_all
      moreover have "\<forall>x \<in> set ms. fits ?t x"
        using S(2) trimmed_bytes(3) [OF T] F(2) by (metis diff_le_self singletonD)
      ultimately show ?thesis
        by (intro trimmed_adjusted [OF trimmed_mono [OF T] assms, where k = "ph_len (m_pkthdr (mb s m)) - int len"])
          (use neg True Cons l(1) in \<open>auto simp: m_adj_def Let_def len_def\<close>)
    next
      case False
      define count where "count = length (chain_bytes s ms) - len"
      define k where "k = int count"
      note K = adj_keep_bytes [OF F, of count]
      have c: "count \<le> length (chain_bytes s ms)"
        by (simp add: count_def)
      have "adjusted ms (take count (chain_bytes s ms)) s (m_adj ms req s)"
        by (rule trimmed_adjusted [OF K(3) [OF c] assms K(2) [OF c] K(1) [OF c], where k = k])
          (use neg False Cons total c in \<open>auto simp: m_adj_def Let_def len_def count_def k_def adj_keep_swap simp del: adj_keep.simps\<close>)
      then show ?thesis
        using neg by (simp add: count_def len_def)
    qed
  qed
qed

lemma count_fail_sel [simp]:
  "mb (count_fail s) = mb s" "buf (count_fail s) = buf s" "mfree (count_fail s) = mfree s" "mclfree (count_fail s) = mclfree s"
  "mclrefcnt (count_fail s) = mclrefcnt s"
  by (simp_all add: count_fail_def)

lemma count_fail_ok:
  "mb_ok (count_fail s) = mb_ok s" "live (count_fail s) x = live s x" "mchain_ok (count_fail s) ms = mchain_ok s ms"
  "chain_bytes (count_fail s) ms = chain_bytes s ms" "loses M t (count_fail s) = loses M t s"
proof -
  show ok: "mb_ok (count_fail s) = mb_ok s"
    by (rule mb_ok_cong) simp_all
  show "live (count_fail s) x = live s x" "mchain_ok (count_fail s) ms = mchain_ok s ms" "chain_bytes (count_fail s) ms = chain_bytes s ms"
    by (auto simp: mchain_ok_def live_def fits_def memory_def chain_bytes_def bytes_def intro!: arg_cong [where f = concat])
  show "loses M t (count_fail s) = loses M t s"
    using ok by (simp add: loses_def kept_def live_def)
qed

end
