(* ===== verification/Mbuf_Copy.thy ===== *)
theory Mbuf_Copy
  imports Mbuf_Bytes
begin

text \<open>
  \<open>m_copym\<close>: the copy has the bytes that were asked for and shares the external buffers; the original and all other
  chains keep theirs.
\<close>

section \<open>One mbuf\<close>

lemma flags_copied:
  "has M_EXT (x\<lparr>m_flags := w AND M_COPYFLAGS\<rparr>) \<longleftrightarrow> False"
  "has M_PKTHDR (x\<lparr>m_flags := w AND M_COPYFLAGS\<rparr>) \<longleftrightarrow> w AND M_PKTHDR \<noteq> 0"
  by (simp_all add: has_def and.assoc)

lemma flags_ext:
  "has M_EXT (x\<lparr>m_flags := w OR M_EXT\<rparr>)" "has M_PKTHDR (x\<lparr>m_flags := w OR M_EXT\<rparr>) \<longleftrightarrow> w AND M_PKTHDR \<noteq> 0"
  by (simp_all add: has_def bit.conj_disj_distrib2 word_ao_absorbs)

lemma copy_pkthdr_sel:
  assumes "n \<noteq> m"
  shows "mb (M_COPY_PKTHDR n m s) x =
      (if x = n then (mb s n)\<lparr>m_pkthdr := m_pkthdr (mb s m), m_flags := m_flags (mb s m) AND M_COPYFLAGS, m_data := m_pktdat\<rparr>
       else if x = m then (mb s m)\<lparr>m_pkthdr := (m_pkthdr (mb s m))\<lparr>ph_aux := None\<rparr>\<rparr> else mb s x)"
    "buf (M_COPY_PKTHDR n m s) = buf s" "mfree (M_COPY_PKTHDR n m s) = mfree s" "mclfree (M_COPY_PKTHDR n m s) = mclfree s"
    "mclrefcnt (M_COPY_PKTHDR n m s) = mclrefcnt s"
  using assms by (simp_all add: M_COPY_PKTHDR_def Let_def)

text \<open>Stores into an mbuf of its own.\<close>

lemma store_bytes_ok:
  assumes "\<not> has M_EXT (mb s n)" and "off + length bs \<le> length (m_dat (mb s n))"
  shows "store_bytes n off bs s = Some (put n ((mb s n)\<lparr>m_dat := overwrite off bs (m_dat (mb s n))\<rparr>) s)"
    "length (overwrite off bs (m_dat (mb s n))) = length (m_dat (mb s n))"
    "take (length bs) (drop off (overwrite off bs (m_dat (mb s n)))) = bs"
    "take off (overwrite off bs (m_dat (mb s n))) = take off (m_dat (mb s n))"
  using assms by (auto simp: store_bytes_def memory_def overwrite_def min_def)

text \<open>The state before the data is copied: the header, if it is copied, and the length.\<close>

lemma copy_header:
  assumes "mb_ok s" and "n \<noteq> m" and "live s n" and "m_flags (mb s n) = 0" and "m_data (mb s n) = 0"
    and "copyhdr \<longrightarrow> has M_PKTHDR (mb s m)"
    and s2_def: "s2 = set_len n count (if copyhdr then set_ph_len n k (M_COPY_PKTHDR n m s) else s)"
  shows "mb_ok s2" "live s2 x = live s x" "kept (- {n}) s s2" "\<not> has M_EXT (mb s2 n)" "m_len (mb s2 n) = count"
    "m_data (mb s2 n) = (if copyhdr then m_pktdat else 0)" "has M_PKTHDR (mb s2 n) \<longleftrightarrow> copyhdr" "mfree s2 = mfree s"
    "copyhdr \<Longrightarrow> ph_len (m_pkthdr (mb s2 n)) = k"
proof -
  note P = copy_pkthdr_sel [OF assms(2), of s]
  have sel: "mb s2 n = (if copyhdr
      then (mb s n)\<lparr>m_pkthdr := (m_pkthdr (mb s m))\<lparr>ph_len := k\<rparr>, m_flags := m_flags (mb s m) AND M_COPYFLAGS, m_data := m_pktdat, m_len := count\<rparr>
      else (mb s n)\<lparr>m_len := count\<rparr>)"
    unfolding s2_def using P(1) by (auto intro: mbuf.equality)
  have other: "mb s2 x = (if copyhdr \<and> x = m then (mb s m)\<lparr>m_pkthdr := (m_pkthdr (mb s m))\<lparr>ph_aux := None\<rparr>\<rparr> else mb s x)" if "x \<noteq> n" for x
    unfolding s2_def using P(1) that by auto
  have lists: "buf s2 = buf s" "mfree s2 = mfree s" "mclfree s2 = mclfree s" "mclrefcnt s2 = mclrefcnt s"
    unfolding s2_def using P(2-5) by auto
  have n: "\<not> has M_EXT (mb s n)" "\<not> has M_PKTHDR (mb s n)"
    using assms(4) by (simp_all add: has_def)
  show ext: "\<not> has M_EXT (mb s2 n)" "m_len (mb s2 n) = count" "m_data (mb s2 n) = (if copyhdr then m_pktdat else 0)"
    "has M_PKTHDR (mb s2 n) \<longleftrightarrow> copyhdr" "copyhdr \<Longrightarrow> ph_len (m_pkthdr (mb s2 n)) = k"
    using n assms(5,6) unfolding sel by (auto simp: has_def and.assoc)
  have same: "m_type (mb s2 x) = m_type (mb s x) \<and> has M_EXT (mb s2 x) = has M_EXT (mb s x) \<and>
      m_ext (mb s2 x) = m_ext (mb s x) \<and> length (m_dat (mb s2 x)) = length (m_dat (mb s x))" for x
    using other [of x] sel ext(1) n by (cases "x = n") auto
  show "mb_ok s2"
    using mb_ok_cong [of s2 s] same lists assms(1) by simp
  show "live s2 x = live s x"
    using same by (simp add: live_def)
  show "kept (- {n}) s s2"
    using other lists(1) by (auto simp: kept_def core_def)
  show "mfree s2 = mfree s"
    by (rule lists(2))
qed

lemma share_bytes:
  assumes "core (mb s' n) = core ((mb s n)\<lparr>m_data := m_data (mb s m) + off, m_flags := m_flags (mb s n) OR M_EXT, m_ext := m_ext (mb s m)\<rparr>)"
    and "buf s' = buf s" and "has M_EXT (mb s m)" and "fits s m" and "off \<le> m_len (mb s m)"
    and "m_len (mb s n) = min len (m_len (mb s m) - off)"
  shows "bytes s' n = take len (drop off (bytes s m))" "fits s' n" "m_len (mb s' n) = m_len (mb s n)"
    "has M_PKTHDR (mb s' n) = has M_PKTHDR (mb s n)" "ph_len (m_pkthdr (mb s' n)) = ph_len (m_pkthdr (mb s n))"
proof -
  note C = coreD [OF assms(1), simplified]
  have mem: "has M_EXT (mb s' n)" "memory s' n = memory s m"
    using C(4,7) assms(2,3) by (simp_all add: has_def memory_def word_ao_absorbs)
  show "m_len (mb s' n) = m_len (mb s n)" "ph_len (m_pkthdr (mb s' n)) = ph_len (m_pkthdr (mb s n))"
    using C by simp_all
  show "has M_PKTHDR (mb s' n) = has M_PKTHDR (mb s n)"
    using C(4) by (simp add: has_def bit.conj_disj_distrib2)
  show "fits s' n"
    using C(1,2) mem assms(4-6) by (auto simp: fits_def)
  show "bytes s' n = take len (drop off (bytes s m))"
    using C(1,2) mem assms(6) by (simp add: bytes_def drop_take add.commute min.commute)
qed

lemma copy_mbuf_ok:
  assumes "mb_ok s" and "live s m" and "fits s m" and "off \<le> m_len (mb s m)"
    and "n \<noteq> m" and "live s n" and "m_flags (mb s n) = 0" and "m_data (mb s n) = 0" and "copyhdr \<longrightarrow> has M_PKTHDR (mb s m)"
  shows "\<exists>s'. copy_mbuf copyhdr m off len n s = Some s' \<and> mb_ok s' \<and> (\<forall>x. live s' x = live s x) \<and> kept (- {n}) s s' \<and>
    mfree s' = mfree s \<and> bytes s' n = take len (drop off (bytes s m)) \<and> fits s' n \<and>
    m_len (mb s' n) = min len (m_len (mb s m) - off) \<and>
    (copyhdr \<longrightarrow> has M_PKTHDR (mb s' n) \<and>
      ph_len (m_pkthdr (mb s' n)) = (if len = M_COPYALL then ph_len (m_pkthdr (mb s m)) else int len))"
proof -
  define k where "k = (if len = M_COPYALL then ph_len (m_pkthdr (mb s m)) else int len)"
  define count where "count = min len (m_len (mb s m) - off)"
  define s2 where "s2 = set_len n count (if copyhdr then set_ph_len n k (M_COPY_PKTHDR n m s) else s)"
  note H = copy_header [OF assms(1,5-9) s2_def]
  have M: "core (mb s2 m) = core (mb s m)" "buf s2 = buf s"
    using H(3) assms(5) by (auto simp: kept_def)
  note B = core_bytes [OF M] and C = coreD [OF M(1)]
  have eq: "m_len (mb (if copyhdr then set_ph_len n k (M_COPY_PKTHDR n m s) else s) m) = m_len (mb s m)"
    using copy_pkthdr_sel(1) [OF assms(5)] assms(5) by simp
  have step: "copy_mbuf copyhdr m off len n s = copy_data m off n s2"
    using copy_pkthdr_sel(1) [OF assms(5)] assms(5) by (auto simp: copy_mbuf_def s2_def k_def count_def Let_def)
  show ?thesis
  proof (cases "has M_EXT (mb s m)")
    case True
    then have m: "live s2 m" "has M_EXT (mb s2 m)"
      using H(2) C(6) assms(2) by simp_all
    have "live s2 n"
      using H(2) assms(6) by simp
    obtain s' where s': "copy_data m off n s2 = Some s'"
      using m(2) by (simp add: copy_data_def Let_def)
    note S = share_ok [OF H(1) \<open>live s2 n\<close> H(4) m s']
    have "buf s' = buf s2" "mfree s' = mfree s2"
      using S(3) s' m(2) insque_sel [OF assms(5)] by (auto simp: kept_def copy_data_def Let_def)
    moreover have "m_len (mb s2 n) = min len (m_len (mb s2 m) - off)" "off \<le> m_len (mb s2 m)"
      using H(5) C(1) assms(4) by (simp_all add: count_def)
    note R = share_bytes [OF S(5) \<open>buf s' = buf s2\<close> m(2) _ this(2,1)]
    moreover have "kept (- {n}) s s'"
      using kept_trans [OF H(3) S(3)] by simp
    ultimately show ?thesis
      using R B H(2,5,7,8,9) S(1,2) assms(3) unfolding step s' count_def [symmetric] k_def [symmetric]
      by (intro exI [of _ s'] conjI) simp_all
  next
    case False
    define off2 where "off2 = (if copyhdr then m_pktdat else 0)"
    define bs where "bs = take count (drop off (bytes s2 m))"
    have "off + count \<le> m_len (mb s m)"
      using assms(4) by (simp add: count_def)
    then have load: "load_bytes m (m_data (mb s2 m) + off) count s2 = Some bs"
      unfolding bs_def using load_bytes_fits [of s2 m off count] B(2) C(1) assms(3) by simp
    have len: "length bs = count"
      using \<open>off + count \<le> m_len (mb s m)\<close> length_bytes [of s2 m] B(2) C(1) assms(3) by (simp add: bs_def)
    have "m_data (mb s m) + m_len (mb s m) \<le> MLEN" "copyhdr \<longrightarrow> m_pktdat \<le> m_data (mb s m)"
      using assms(3,9) False mb_okD(8) [OF assms(1)] by (auto simp: fits_def memory_def)
    then have room: "off2 + count \<le> MLEN"
      using \<open>off + count \<le> m_len (mb s m)\<close> by (auto simp: off2_def)
    have dat: "length (m_dat (mb s2 n)) = MLEN"
      by (rule mb_okD(8) [OF H(1)])
    note st = store_bytes_ok [OF H(4), of off2 bs]
    define s' where "s' = put n ((mb s2 n)\<lparr>m_dat := overwrite off2 bs (m_dat (mb s2 n))\<rparr>) s2"
    have "copy_data m off n s2 = Some s'"
      using False C(6) load st(1) room len dat H(5,6) by (simp add: copy_data_def bcopy_def s'_def off2_def)
    moreover have "mb_ok s'"
      using mb_ok_cong [of s' s2] H(1) st(2) room len dat by (simp add: s'_def)
    moreover have "live s' x = live s2 x" for x
      by (simp add: s'_def live_def)
    moreover have "kept (- {n}) s s'"
      using H(3) by (auto simp: kept_def s'_def)
    moreover have "memory s' n = overwrite off2 bs (m_dat (mb s2 n))" "m_data (mb s' n) = off2" "m_len (mb s' n) = count"
      "has M_PKTHDR (mb s' n) = copyhdr" "\<not> has M_EXT (mb s' n)" "m_pkthdr (mb s' n) = m_pkthdr (mb s2 n)"
      using H(4-7) by (simp_all add: s'_def memory_def off2_def)
    moreover have "bs = take len (drop off (bytes s m))"
      using B(1) length_bytes [OF assms(3)] by (simp add: bs_def count_def min_def)
    moreover have "mfree s' = mfree s"
      using H(8) by (simp add: s'_def)
    moreover have "bytes s' n = bs" "fits s' n"
      using calculation(5-8) st(2,3) room len dat by (simp_all add: bytes_def fits_def off2_def)
    ultimately show ?thesis
      using H(2,9) unfolding step count_def [symmetric] k_def [symmetric] by (intro exI [of _ s'] conjI) simp_all
  qed
qed

section \<open>The loop\<close>

lemma MGET_cases:
  assumes "mb_ok s" and "type \<noteq> MT_FREE"
  obtains (none) t where "MGET type s = (t, None)" "stays s t" "mfree s = []"
  | (some) t n where "MGET type s = (t, Some n)" "gains n s t" "m_type (mb t n) = type" "m_flags (mb t n) = 0"
      "m_data (mb t n) = 0" "length (mfree s) \<le> length (mfree t) + 1"
proof -
  obtain t r where t: "MGET type s = (t, r)"
    by fastforce
  note G = MGET_ok [OF assms(1) t assms(2)]
  show ?thesis
  proof (cases r)
    case None
    then show ?thesis
      using that(1) t G by (auto simp: MGET_def MINTGET_def split: list.splits)
  next
    case (Some n)
    have "length (mfree s) \<le> length (mfree t) + 1"
      using t Some by (auto simp: MGET_def MINTGET_def split: list.splits option.splits)
    then show ?thesis
      using that(2) t Some G by simp
  qed
qed

text \<open>A chain of new mbufs was appended that holds the bytes.\<close>

definition extended :: "nat list \<Rightarrow> u8 list \<Rightarrow> mb_state \<Rightarrow> nat list \<Rightarrow> mb_state \<Rightarrow> bool" where
  "extended ns bs s ns' s' \<longleftrightarrow> (\<exists>new. ns' = ns @ new \<and> mb_ok s' \<and> kept (Collect (live s)) s s' \<and>
     (\<forall>x. live s' x \<longleftrightarrow> live s x \<or> x \<in> set new) \<and> (\<forall>x \<in> set new. \<not> live s x) \<and> mchain_ok s' ns' \<and>
     chain_bytes s' ns' = chain_bytes s ns @ bs)"

lemma extended_refl: "\<lbrakk>mb_ok s; mchain_ok s ns\<rbrakk> \<Longrightarrow> extended ns [] s ns s"
  by (simp add: extended_def)

lemma extended_step:
  assumes "gains n s t" and "mb_ok u" and "\<forall>x. live u x = live t x" and "kept (- {n}) t u" and "fits u n"
    and "bytes u n = cs" and "mchain_ok s ns" and "extended (ns @ [n]) bs u ns' s'"
  shows "extended ns (cs @ bs) s ns' s'"
proof -
  note G = gainsD [OF assms(1)]
  obtain new where new: "ns' = (ns @ [n]) @ new" "mb_ok s'" "kept (Collect (live u)) u s'"
    "\<And>x. live s' x \<longleftrightarrow> live u x \<or> x \<in> set new" "\<And>x. x \<in> set new \<Longrightarrow> \<not> live u x" "mchain_ok s' ns'"
    "chain_bytes s' ns' = chain_bytes u (ns @ [n]) @ bs"
    using assms(8) by (auto simp: extended_def)
  have "Collect (live s) \<subseteq> - {n}"
    using G(2) by auto
  then have ku: "kept (Collect (live s)) s u"
    using kept_trans [OF gains_kept [OF assms(1)] assms(4)] by blast
  moreover have sub: "Collect (live s) \<subseteq> Collect (live u)"
    using assms(3) G(3) by auto
  ultimately have "kept (Collect (live s)) s s'"
    using kept_trans [OF _ new(3)] by blast
  moreover have "set ns \<subseteq> Collect (live s)"
    using assms(7) by (auto simp: mchain_ok_def)
  then have "chain_bytes u ns = chain_bytes s ns"
    by (rule kept_bytes(1) [OF ku])
  ultimately show ?thesis
    unfolding extended_def using new assms(3,6) G(2,3) by (intro exI [of _ "n # new"]) auto
qed

lemma copy_loop_ok:
  assumes "mb_ok s" and "mchain_ok s ms" and "mchain_ok s ns" and "set ms \<inter> set ns = {}"
    and "case ms of [] \<Rightarrow> off = 0 | m # _ \<Rightarrow> off \<le> m_len (mb s m)" and "length (chain_bytes s ms) < M_COPYALL"
    and "off + len \<le> length (chain_bytes s ms) \<or> len = M_COPYALL" and "copyhdr \<longrightarrow> ms \<noteq> [] \<and> has M_PKTHDR (mb s (hd ms))"
  shows "\<exists>s' ns'. copy_loop ms copyhdr off len ns s = Some (s', ns') \<and>
    (extended ns (take len (drop off (chain_bytes s ms))) s ns' s' \<or> ns' = [] \<and> loses (set ns) s s' \<and> length (mfree s) < length ms)"
  using assms
proof (induction ms arbitrary: copyhdr off len ns s)
  case Nil
  then show ?case
    using extended_refl by auto
next
  case (Cons m ms)
  have m: "live s m" "fits s m" "m \<notin> set ms" "mchain_ok s ms" "off \<le> m_len (mb s m)" "m \<notin> set ns"
    using Cons.prems(2,4,5) by (auto simp: mchain_ok_Cons)
  show ?case
  proof (cases "len = 0")
    case True
    then show ?thesis
      using extended_refl Cons.prems by auto
  next
    case False
    have "m_type (mb s m) \<noteq> MT_FREE"
      using m(1) by (simp add: live_def)
    with Cons.prems(1) show ?thesis
    proof (cases rule: MGET_cases)
      case (none t)
      have ok: "mb_ok t" "distinct ns" "\<forall>x \<in> set ns. live t x"
        using none(2) Cons.prems(3) by (auto simp: stays_def mchain_ok_def)
      then obtain u where u: "m_freem ns t = Some u" "loses (set ns) t u"
        using m_freem_ok by blast
      have "loses {} s t"
        using none(2) by (auto simp: stays_def loses_def kept_def)
      then have "loses (set ns) s u"
        using loses_trans [of "{}" s t "set ns" u] u(2) by simp
      then show ?thesis
        using False none u(1) by auto
    next
      case (some t n)
      note G = gainsD [OF some(2)]
      have sm: "live t m" "mb t m = mb s m" "n \<noteq> m" "live t n"
        using G m(1) by auto
      have fm: "fits t m" "bytes t m = bytes s m"
        using core_bytes [of t m s] sm(2) G(5) m(2) by simp_all
      let ?count = "min len (m_len (mb s m) - off)" and ?cs = "take len (drop off (bytes s m))"
      obtain u where u: "copy_mbuf copyhdr m off len n t = Some u" "mb_ok u" "\<forall>x. live u x = live t x" "kept (- {n}) t u"
        "mfree u = mfree t" "bytes u n = ?cs" "fits u n" "m_len (mb u n) = ?count"
        using copy_mbuf_ok [OF G(1) sm(1) fm(1) _ sm(3,4) some(4,5), of off copyhdr len] sm(2) m(5) Cons.prems(8) fm(2) by auto
      have ku: "kept (Collect (live s)) s u"
        using kept_trans [OF gains_kept [OF some(2)] u(4)] G(2) by auto
      have in_s: "set ms \<subseteq> Collect (live s)" "set ns \<subseteq> Collect (live s)"
        using m(4) Cons.prems(3) by (auto simp: mchain_ok_def)
      note K = kept_bytes [OF ku in_s(1)] kept_bytes [OF ku in_s(2)]
      have n: "n \<notin> set ms" "n \<notin> set ns"
        using in_s G(2) by auto
      define len2 where "len2 = (if len = M_COPYALL then len else len - ?count)"
      have l: "length (bytes s m) = m_len (mb s m)"
        by (rule length_bytes [OF m(2)])
      have "mchain_ok u (ns @ [n])"
        using K(4) Cons.prems(3) u(3,7) n(2) sm(4) by (auto simp: mchain_ok_def)
      moreover have "set ms \<inter> set (ns @ [n]) = {}"
        using Cons.prems(4) n(1) by auto
      moreover have "length (chain_bytes u ms) < M_COPYALL"
        using K(1) Cons.prems(6) by simp
      moreover have "0 + len2 \<le> length (chain_bytes u ms) \<or> len2 = M_COPYALL"
        using Cons.prems(7) K(1) l m(5) by (auto simp: len2_def)
      ultimately obtain s' ns' where s': "copy_loop ms False 0 len2 (ns @ [n]) u = Some (s', ns')"
        "extended (ns @ [n]) (take len2 (chain_bytes u ms)) u ns' s' \<or> ns' = [] \<and> loses (set (ns @ [n])) u s' \<and> length (mfree u) < length ms"
        using Cons.IH [of u "ns @ [n]" 0 len2 False] u(2) K(2) m(4) by (cases ms) auto
      have loop: "copy_loop (m # ms) copyhdr off len ns s = Some (s', ns')"
        using False some(1) u(1,8) s'(1) by (cases "len = M_COPYALL") (simp_all add: len2_def)
      have rest: "take len (drop off (chain_bytes s (m # ms))) = ?cs @ take len2 (chain_bytes u ms)"
      proof (cases "len = M_COPYALL")
        case True
        then show ?thesis
          using K(1) l m(5) Cons.prems(6) by (simp add: len2_def)
      next
        case False
        then show ?thesis
          using K(1) l m(5) by (simp add: len2_def min_def)
      qed
      have "loses (set ns) s s'" if "loses (set (ns @ [n])) u s'"
      proof -
        have "live s' x \<longleftrightarrow> x \<notin> set ns \<and> live s x" for x
          using that u(3) G(2,3) by (auto simp: loses_def)
        moreover have "Collect (live s) - set ns \<subseteq> Collect (live u) - set (ns @ [n])"
          using u(3) G(2,3) by auto
        then have "kept (Collect (live s) - set ns) s s'"
          using kept_trans [OF kept_subset [OF ku]] that by (metis Diff_subset loses_def)
        ultimately show ?thesis
          using that by (simp add: loses_def)
      qed
      moreover have "length (mfree s) < length (m # ms)" if "length (mfree u) < length ms"
        using that some(6) u(5) by simp
      moreover have "extended ns (?cs @ take len2 (chain_bytes u ms)) s ns' s'"
        if "extended (ns @ [n]) (take len2 (chain_bytes u ms)) u ns' s'"
        by (rule extended_step [OF some(2) u(2-4,7,6) Cons.prems(3) that])
      ultimately show ?thesis
        using loop s'(2) unfolding rest by blast
    qed
  qed
qed

section \<open>The copy\<close>

lemma m_copym_ok:
  assumes "mb_ok s" and "mchain_ok s ms" and "ms \<noteq> []" and "length (chain_bytes s ms) < M_COPYALL"
    and "off + len \<le> length (chain_bytes s ms) \<or> len = M_COPYALL \<and> off \<le> length (chain_bytes s ms)"
  shows "\<exists>s' ns. m_copym ms (int off) (int len) s = Some (s', ns) \<and>
    (extended [] (take len (drop off (chain_bytes s ms))) s ns s' \<or> ns = [] \<and> loses {} s s' \<and> length (mfree s) < length ms)"
proof -
  have F: "\<forall>m \<in> set ms. fits s m"
    using assms(2) by (simp add: mchain_ok_def)
  obtain m rest where ms: "ms = m # rest"
    using assms(3) by (cases ms) auto
  obtain xs k where k: "m_skip s ms off = Some (xs, k)"
    using m_skip_bytes [OF F, of off] assms(5) by (auto split: option.splits)
  then obtain before where S: "drop k (chain_bytes s xs) = drop off (chain_bytes s ms)" "ms = before @ xs"
    "case xs of [] \<Rightarrow> k = 0 | m # _ \<Rightarrow> k \<le> m_len (mb s m)" "off = 0 \<longrightarrow> xs = ms \<and> k = 0"
    using m_skip_bytes [OF F, of off] by auto
  have X: "mchain_ok s xs" "length (chain_bytes s xs) < M_COPYALL"
    using assms(2,4) S(2) by (auto simp: mchain_ok_append)
  have "k \<le> length (chain_bytes s xs)"
    using S(3) X(1) by (cases xs) (auto simp: mchain_ok_Cons length_bytes)
  moreover have "length (chain_bytes s xs) - k = length (chain_bytes s ms) - off"
    using S(1) by (metis length_drop)
  ultimately have "k + len \<le> length (chain_bytes s xs) \<or> len = M_COPYALL"
    using assms(5) by linarith
  moreover have "off = 0 \<and> has M_PKTHDR (mb s m) \<longrightarrow> xs \<noteq> [] \<and> has M_PKTHDR (mb s (hd xs))"
    using S(4) ms by auto
  ultimately obtain s' ns where L: "copy_loop xs (off = 0 \<and> has M_PKTHDR (mb s m)) k len [] s = Some (s', ns)"
    "extended [] (take len (drop k (chain_bytes s xs))) s ns s' \<or> ns = [] \<and> loses {} s s' \<and> length (mfree s) < length xs"
    using copy_loop_ok [OF assms(1) X(1) _ _ S(3) X(2), of "[]" len "off = 0 \<and> has M_PKTHDR (mb s m)"] mchain_ok_def by force
  have fail: "extended [] bs s ns (count_fail u) = extended [] bs s ns u" for bs u
    by (simp add: extended_def count_fail_ok kept_def)
  have "m_copym ms (int off) (int len) s = Some (if ns = [] then count_fail s' else s', ns)"
    using L(1) k ms by (simp add: m_copym_def)
  moreover have "length xs \<le> length ms"
    using S(2) by simp
  ultimately show ?thesis
    using L(2) fail S(1) by (auto simp: count_fail_ok)
qed

end
