(* ===== verification/Mbuf_Pullup.thy ===== *)
theory Mbuf_Pullup
  imports Mbuf_Copy
begin

text \<open>
  \<open>m_pullup\<close>: the first bytes of a chain become contiguous in an mbuf of its own, the bytes of the chain stay, or
  the whole chain is freed.
\<close>

section \<open>Rebuilt chains\<close>

text \<open>The chain \<open>ns\<close> has replaced \<open>ms\<close>, with the same bytes; nothing is lost and other chains keep what they have.\<close>

definition rebuilt :: "nat list \<Rightarrow> mb_state \<Rightarrow> nat list \<Rightarrow> mb_state \<Rightarrow> bool" where
  "rebuilt ms s ns s' \<longleftrightarrow> mb_ok s' \<and> mchain_ok s' ns \<and> chain_bytes s' ns = chain_bytes s ms \<and>
     (\<forall>x. live s' x \<longleftrightarrow> x \<in> set ns \<or> live s x \<and> x \<notin> set ms) \<and> (\<forall>x \<in> set ns. x \<in> set ms \<or> \<not> live s x) \<and>
     kept (Collect (live s) - set ms) s s'"

lemma rebuilt_refl: "\<lbrakk>mb_ok s; mchain_ok s ms\<rbrakk> \<Longrightarrow> rebuilt ms s ms s"
  by (auto simp: rebuilt_def mchain_ok_def)

lemma rebuilt_trans:
  assumes "rebuilt ms s ns t" and "rebuilt ns t os u"
  shows "rebuilt ms s os u"
proof -
  have T: "\<And>x. live t x \<longleftrightarrow> x \<in> set ns \<or> live s x \<and> x \<notin> set ms" "\<And>x. x \<in> set ns \<Longrightarrow> x \<in> set ms \<or> \<not> live s x"
    and U: "\<And>x. live u x \<longleftrightarrow> x \<in> set os \<or> live t x \<and> x \<notin> set ns" "\<And>x. x \<in> set os \<Longrightarrow> x \<in> set ns \<or> \<not> live t x"
    using assms by (auto simp: rebuilt_def)
  have "Collect (live s) - set ms \<subseteq> Collect (live t) - set ns"
    using T by auto
  then have "kept (Collect (live s) - set ms) s u"
    using kept_trans assms unfolding rebuilt_def by blast
  moreover have "live u x \<longleftrightarrow> x \<in> set os \<or> live s x \<and> x \<notin> set ms" for x
    using T [of x] U(1) [of x] by blast
  moreover have "x \<in> set ms \<or> \<not> live s x" if "x \<in> set os" for x
    using T [of x] U(2) [OF that] by blast
  ultimately show ?thesis
    using assms by (simp add: rebuilt_def)
qed

lemma rebuilt_loses:
  assumes "rebuilt ms s ns t" and "loses (set ns) t u"
  shows "loses (set ms) s u"
proof -
  have T: "\<And>x. live t x \<longleftrightarrow> x \<in> set ns \<or> live s x \<and> x \<notin> set ms" "\<And>x. x \<in> set ns \<Longrightarrow> x \<in> set ms \<or> \<not> live s x"
    using assms(1) by (auto simp: rebuilt_def)
  have "Collect (live s) - set ms \<subseteq> Collect (live t) - set ns"
    using T by auto
  then have "kept (Collect (live s) - set ms) s u"
    using kept_trans assms unfolding rebuilt_def loses_def by blast
  moreover have "live u x \<longleftrightarrow> x \<notin> set ms \<and> live s x" for x
    using T [of x] assms(2) by (auto simp: loses_def)
  ultimately show ?thesis
    using assms(2) by (simp add: loses_def)
qed

lemma rebuilt_count_fail: "rebuilt ms s ns (count_fail u) = rebuilt ms s ns u"
  by (simp add: rebuilt_def count_fail_ok kept_def)

section \<open>A round\<close>

text \<open>The bytes move from the front of \<open>n\<close> to the end of \<open>m\<close>.\<close>

lemma move_bytes:
  assumes "mb_ok s" and "mchain_ok s (m # n # rest)" and "\<not> has M_EXT (mb s m)" and "count \<le> m_len (mb s n)"
    and "m_data (mb s m) + m_len (mb s m) + count \<le> MLEN"
  shows "\<exists>s'. bcopy n (m_data (mb s n)) m (m_data (mb s m) + m_len (mb s m)) count s = Some s' \<and>
    mb_ok s' \<and> kept (- {m}) s s' \<and> (\<exists>d. mb s' m = (mb s m)\<lparr>m_dat := d\<rparr> \<and>
      bytes (set_len m (m_len (mb s m) + count) s') m = bytes s m @ take count (bytes s n))"
proof -
  have C: "fits s m" "fits s n" "m \<noteq> n"
    using assms(2) by (auto simp: mchain_ok_Cons)
  define bs where "bs = take count (bytes s n)"
  define off where "off = m_data (mb s m) + m_len (mb s m)"
  have load: "load_bytes n (m_data (mb s n)) count s = Some bs"
    using load_bytes_fits [OF C(2), of 0 count] assms(4) by (simp add: bs_def)
  have len: "length bs = count"
    using assms(4) length_bytes [OF C(2)] by (simp add: bs_def)
  have dat: "length (m_dat (mb s m)) = MLEN"
    by (rule mb_okD(8) [OF assms(1)])
  note st = store_bytes_ok [OF assms(3), of off bs]
  define d where "d = overwrite off bs (m_dat (mb s m))"
  define s' where "s' = put m ((mb s m)\<lparr>m_dat := d\<rparr>) s"
  have "bcopy n (m_data (mb s n)) m off count s = Some s'"
    using load st(1) assms(5) len dat by (simp add: bcopy_def off_def s'_def d_def)
  moreover have "mb_ok s'"
    using mb_ok_cong [of s' s] assms(1,5) st(2) len dat by (simp add: s'_def off_def d_def)
  moreover have "kept (- {m}) s s'"
    by (simp add: kept_def s'_def)
  moreover have "bytes (set_len m (m_len (mb s m) + count) s') m = bytes s m @ bs"
  proof -
    have "take (m_len (mb s m) + count) (drop (m_data (mb s m)) d) =
        take (m_len (mb s m)) (drop (m_data (mb s m)) (take off d)) @ take count (drop off d)"
      unfolding take_add off_def drop_take drop_drop by (simp add: add.commute [of "m_data _"] min_def)
    also have "\<dots> = bytes s m @ bs"
      using st(3,4) assms(3,5) len dat by (simp add: d_def bytes_def memory_def off_def drop_take)
    finally show ?thesis
      using assms(3) by (simp add: bytes_def memory_def s'_def)
  qed
  ultimately show ?thesis
    unfolding off_def bs_def by (auto simp: s'_def)
qed

text \<open>When \<open>m\<close> has taken all the bytes of \<open>n\<close>, \<open>n\<close> is freed.\<close>

lemma absorb_ok:
  assumes "mchain_ok s (m # n # rest)" and "mb_ok t" and "\<And>x. live t x = live s x" and "kept (- {m, n}) s t"
    and "bytes t m = bytes s m @ bytes s n" and "fits t m"
  shows "\<exists>s'. m_free n t = Some s' \<and> rebuilt (m # n # rest) s (m # rest) s' \<and> core (mb s' m) = core (mb t m)"
proof -
  have C: "m \<noteq> n" "m \<notin> set rest" "n \<notin> set rest" "live s m" "live s n" "mchain_ok s rest"
    using assms(1) by (auto simp: mchain_ok_Cons)
  obtain s' where s': "m_free n t = Some s'" "loses {n} t s'"
    using m_free_ok [OF assms(2), of n] assms(3) C(5) by blast
  have "Collect (live t) = Collect (live s)"
    using assms(3) by auto
  then have "kept (Collect (live s) - {n}) t s'"
    using s'(2) by (simp add: loses_def)
  then have k: "kept {m} t s'" "kept (Collect (live s) - {m, n}) s s'"
    using C(1,4) assms(4) by (auto simp: kept_def)
  have rest: "chain_bytes s' rest = chain_bytes s rest" "mchain_ok s' rest"
    using kept_bytes [OF k(2), of rest] C(2,3,6) by (auto simp: mchain_ok_def)
  have m': "core (mb s' m) = core (mb t m)" "buf s' = buf t"
    using k(1) by (simp_all add: kept_def)
  have lv: "live s' x \<longleftrightarrow> x \<noteq> n \<and> live s x" for x
    using s'(2) assms(3) by (simp add: loses_def)
  have "kept (Collect (live s) - set (m # n # rest)) s s'"
    by (rule kept_subset [OF k(2)]) auto
  then have "rebuilt (m # n # rest) s (m # rest) s'"
    using rest lv core_bytes [OF m'] assms(1,5,6) C s'(2) by (auto simp: rebuilt_def mchain_ok_def loses_def)
  then show ?thesis
    using s'(1) m'(1) by blast
qed

lemma pull_round_ok:
  assumes "mb_ok s" and "mchain_ok s (m # n # rest)" and "\<not> has M_EXT (mb s m)" and "count \<le> m_len (mb s n)"
    and "m_data (mb s m) + m_len (mb s m) + count \<le> MLEN"
  defines "ns \<equiv> if count = m_len (mb s n) then rest else n # rest"
  shows "\<exists>s'. pull_round count m n rest s = Some (s', ns) \<and> rebuilt (m # n # rest) s (m # ns) s' \<and>
    \<not> has M_EXT (mb s' m) \<and> m_data (mb s' m) = m_data (mb s m) \<and> m_len (mb s' m) = m_len (mb s m) + count"
proof -
  obtain s1 d where s1: "bcopy n (m_data (mb s n)) m (m_data (mb s m) + m_len (mb s m)) count s = Some s1" "mb_ok s1"
    "kept (- {m}) s s1" "mb s1 m = (mb s m)\<lparr>m_dat := d\<rparr>"
    "bytes (set_len m (m_len (mb s m) + count) s1) m = bytes s m @ take count (bytes s n)"
    using move_bytes [OF assms(1-5)] by metis
  define s2 where "s2 = set_len n (m_len (mb s1 n) - count) (set_len m (m_len (mb s1 m) + count) s1)"
  have C: "fits s m" "fits s n" "m \<noteq> n" "m \<notin> set rest" "n \<notin> set rest" "live s m" "live s n" "mchain_ok s rest"
    using assms(2) by (auto simp: mchain_ok_Cons)
  have cn: "core (mb s1 n) = core (mb s n)" "buf s1 = buf s"
    using s1(3) C(3) by (auto simp: kept_def)
  note N = coreD [OF cn(1)] and B = core_bytes [OF cn]
  have T: "trimmed {m, n} s1 s2"
    unfolding s2_def by (rule trimmed_trans [of "{m}" s1 "set_len m (m_len (mb s1 m) + count) s1" "{n}"]) simp_all
  note T' = trimmed_sel [OF T]
  have ok2: "mb_ok s2"
    using trimmed_ok [OF T] s1(2) by simp
  have lv: "live s2 x = live s x" for x
  proof (cases "x = m")
    case True
    then show ?thesis
      using T'(7) s1(4) by (simp add: live_def)
  next
    case False
    then show ?thesis
      using T'(7) kept_live [OF s1(3), of x] by simp
  qed
  have bm: "bytes s2 m = bytes s m @ take count (bytes s n)"
    using trimmed_bytes(2) [OF trimmed_set(1) [of n "{n}"], of m] s1(4,5) C(3) by (simp add: s2_def)
  have sel: "m_len (mb s2 m) = m_len (mb s m) + count" "m_data (mb s2 m) = m_data (mb s m)" "\<not> has M_EXT (mb s2 m)"
    "has M_PKTHDR (mb s2 m) = has M_PKTHDR (mb s m)" "m_len (mb s2 n) = m_len (mb s n) - count" "m_data (mb s2 n) = m_data (mb s n)"
    "memory s2 n = memory s n" "has flag (mb s2 n) = has flag (mb s n)" for flag
    using C(3) s1(4) assms(3) N B(3) T'(8) [of n] by (simp_all add: s2_def)
  have fm: "fits s2 m"
    using sel assms(3,5) C(1) mb_okD(8) [OF ok2, of m] by (auto simp: fits_def memory_def)
  have outside: "kept (- {m, n}) s s2"
    using s1(3) T'(9) T by (auto simp: kept_def trimmed_def)
  have ms: "mb s2 n = (mb s1 n)\<lparr>m_len := m_len (mb s n) - count\<rparr>"
    using C(3) N by (simp add: s2_def)
  have step: "pull_round count m n rest s =
      (if m_len (mb s2 n) \<noteq> 0 then Some (set_data n (m_data (mb s2 n) + count) s2, n # rest)
       else do { s \<leftarrow> m_free n s2; Some (s, rest) })"
    unfolding pull_round_def s1(1) s2_def Let_def by simp
  show ?thesis
  proof (cases "count = m_len (mb s n)")
    case True
    then have "bytes s2 m = bytes s m @ bytes s n"
      using bm length_bytes [OF C(2)] by simp
    then obtain s' where s': "m_free n s2 = Some s'" "rebuilt (m # n # rest) s (m # rest) s'" "core (mb s' m) = core (mb s2 m)"
      using absorb_ok [OF assms(2) ok2 lv outside _ fm] by blast
    then have "pull_round count m n rest s = Some (s', ns)"
      using step sel(5) True by (simp add: ns_def)
    then show ?thesis
      using True s'(2) coreD [OF s'(3)] sel(1-3) by (simp add: ns_def)
  next
    case False
    define s' where "s' = set_data n (m_data (mb s2 n) + count) s2"
    have "pull_round count m n rest s = Some (s', ns)"
      using step sel(5) False assms(4) by (simp add: ns_def s'_def)
    moreover have T3: "trimmed {n} s2 s'"
      by (simp add: s'_def)
    note S3 = trimmed_sel [OF T3]
    have m': "mb s' m = mb s2 m" "bytes s' m = bytes s2 m" "fits s' m = fits s2 m"
      using S3(9) [of m] trimmed_bytes(2,3) [OF T3, of m] C(3) by simp_all
    moreover have "bytes s' n = drop count (bytes s n)"
      unfolding trimmed_bytes(1) [OF T3] using sel(5-7) by (simp add: s'_def bytes_def drop_take add.commute)
    moreover have "fits s' n"
      using S3(6,8) [where x = n] sel(5-8) C(2) assms(4) by (auto simp: fits_def s'_def)
    moreover have out: "kept (- {m, n}) s s'"
      using outside S3(9) T3 by (auto simp: kept_def trimmed_def)
    moreover have "chain_bytes s' rest = chain_bytes s rest" "mchain_ok s' rest"
      using kept_bytes [OF out, of rest] C(4,5,8) by auto
    moreover have "kept (Collect (live s) - set (m # n # rest)) s s'"
      by (rule kept_subset [OF out]) auto
    moreover have "mb_ok s'"
      using trimmed_ok [OF T3] ok2 by simp
    moreover have "live s' x = live s x" for x
      using S3(7) lv by simp
    moreover have "take count (bytes s n) @ drop count (bytes s n) = bytes s n"
      by simp
    ultimately show ?thesis
      using False sel(1-3) fm C bm by (intro exI [of _ s']) (auto simp: rebuilt_def mchain_ok_def ns_def)
  qed
qed

section \<open>The loop\<close>

text \<open>As long as the room is at least what is still wanted, a round that does not finish frees an mbuf, so that there
  are no more rounds than mbufs.\<close>

lemma pull_loop_ok:
  assumes "mb_ok s" and "mchain_ok s (m # ns)" and "ns \<noteq> []" and "\<not> has M_EXT (mb s m)" and "len \<le> space"
    and "m_data (mb s m) + m_len (mb s m) + space \<le> MLEN" and "length ns \<le> fuel"
  shows "\<exists>s' ns' len'. pull_loop fuel max_protohdr m ns len space s = Some (s', ns', len') \<and> rebuilt (m # ns) s (m # ns') s' \<and>
    \<not> has M_EXT (mb s' m) \<and>
    (if len' = 0 then m_len (mb s m) + len \<le> m_len (mb s' m) else ns' = [] \<and> length (chain_bytes s ns) < len)"
  using assms
proof (induction fuel arbitrary: s ns len space)
  case (Suc fuel)
  obtain n rest where ns: "ns = n # rest"
    using Suc.prems(3) by (cases ns) auto
  define count where "count = min (min (max len max_protohdr) space) (m_len (mb s n))"
  define ns1 where "ns1 = (if count = m_len (mb s n) then rest else n # rest)"
  have room: "count \<le> m_len (mb s n)" "m_data (mb s m) + m_len (mb s m) + count \<le> MLEN" "count \<le> space"
    using Suc.prems(6) by (auto simp: count_def)
  obtain s1 where s1: "pull_round count m n rest s = Some (s1, ns1)" "rebuilt (m # ns) s (m # ns1) s1" "\<not> has M_EXT (mb s1 m)"
    "m_data (mb s1 m) = m_data (mb s m)" "m_len (mb s1 m) = m_len (mb s m) + count"
    using pull_round_ok [OF Suc.prems(1) Suc.prems(2) [unfolded ns] Suc.prems(4) room(1,2)] unfolding ns1_def ns by metis
  have loop: "pull_loop (Suc fuel) max_protohdr m ns len space s =
      (if count < len \<and> ns1 \<noteq> [] then pull_loop fuel max_protohdr m ns1 (len - count) (space - count) s1
       else Some (s1, ns1, len - count))"
    using s1(1) by (simp add: ns count_def [symmetric])
  have ok1: "mb_ok s1" "mchain_ok s1 (m # ns1)"
    using s1(2) by (auto simp: rebuilt_def)
  have len: "length (chain_bytes s ns) = count + length (chain_bytes s1 ns1)"
  proof -
    have "fits s m" "fits s1 m"
      using Suc.prems(2) ok1(2) by (auto simp: mchain_ok_Cons)
    moreover have "bytes s1 m @ chain_bytes s1 ns1 = bytes s m @ chain_bytes s ns"
      using s1(2) by (simp add: rebuilt_def)
    then have "length (bytes s1 m) + length (chain_bytes s1 ns1) = length (bytes s m) + length (chain_bytes s ns)"
      by (metis length_append)
    ultimately show ?thesis
      using s1(5) by (simp add: length_bytes)
  qed
  show ?case
  proof (cases "count < len")
    case True
    then have full: "count = m_len (mb s n)" "ns1 = rest"
      using Suc.prems(5) by (auto simp: count_def ns1_def)
    show ?thesis
    proof (cases "ns1 = []")
      case True
      then show ?thesis
        using \<open>count < len\<close> loop s1 len by (intro exI [of _ s1]) auto
    next
      case False
      have p: "len - count \<le> space - count" "m_data (mb s1 m) + m_len (mb s1 m) + (space - count) \<le> MLEN" "length ns1 \<le> fuel"
        using Suc.prems(5-7) s1(4,5) room(3) full(2) ns by auto
      obtain s' ns' len' where L: "pull_loop fuel max_protohdr m ns1 (len - count) (space - count) s1 = Some (s', ns', len')"
        "rebuilt (m # ns1) s1 (m # ns') s'" "\<not> has M_EXT (mb s' m)"
        "if len' = 0 then m_len (mb s1 m) + (len - count) \<le> m_len (mb s' m) else ns' = [] \<and> length (chain_bytes s1 ns1) < len - count"
        using Suc.IH [OF ok1 False s1(3) p] by blast
      then show ?thesis
        using \<open>count < len\<close> False loop s1(5) len rebuilt_trans [OF s1(2) L(2)] by (auto split: if_splits)
    qed
  next
    case False
    then show ?thesis
      using loop s1 by auto
  qed
qed simp

lemma pull_into_ok:
  assumes "mb_ok s" and "mchain_ok s (m # ns)" and "ns \<noteq> []" and "\<not> has M_EXT (mb s m)"
    and "m_data (mb s m) + m_len (mb s m) + len \<le> MLEN"
  shows "\<exists>s' ms'. pull_into max_protohdr m ns len s = Some (s', ms') \<and>
    (ms' \<noteq> [] \<and> rebuilt (m # ns) s ms' s' \<and> \<not> has M_EXT (mb s' (hd ms')) \<and> m_len (mb s m) + len \<le> m_len (mb s' (hd ms')) \<or>
     ms' = [] \<and> loses (set (m # ns)) s s' \<and> length (chain_bytes s ns) < len)"
proof -
  define space where "space = MLEN - (m_data (mb s m) + m_len (mb s m))"
  have "len \<le> space" "m_data (mb s m) + m_len (mb s m) + space \<le> MLEN"
    using assms(5) by (simp_all add: space_def)
  then obtain s1 ns1 len1 where L: "pull_loop (length ns) max_protohdr m ns len space s = Some (s1, ns1, len1)"
    "rebuilt (m # ns) s (m # ns1) s1" "\<not> has M_EXT (mb s1 m)"
    "if len1 = 0 then m_len (mb s m) + len \<le> m_len (mb s1 m) else ns1 = [] \<and> length (chain_bytes s ns) < len"
    using pull_loop_ok [OF assms(1-4) _ _ order_refl] by blast
  show ?thesis
  proof (cases "len1 = 0")
    case True
    then show ?thesis
      using L by (simp add: pull_into_def space_def)
  next
    case False
    then have "ns1 = []" "mb_ok s1" "live s1 m"
      using L(2,4) by (auto simp: rebuilt_def)
    then obtain s2 where s2: "m_free m s1 = Some s2" "loses {m} s1 s2"
      using m_free_ok by blast
    then have "pull_into max_protohdr m ns len s = Some (count_fail s2, [])"
      using False L(1) \<open>ns1 = []\<close> by (simp add: pull_into_def space_def [symmetric])
    moreover have "loses (set (m # ns)) s s2"
      using rebuilt_loses [OF L(2)] s2(2) \<open>ns1 = []\<close> by simp
    ultimately show ?thesis
      using False L(4) by (simp add: count_fail_ok)
  qed
qed

section \<open>The routine\<close>

lemma clear_flag_sel [simp]:
  "mb (clear_flag flag m s) = (mb s)(m := (mb s m)\<lparr>m_flags := m_flags (mb s m) AND NOT flag\<rparr>)" "buf (clear_flag flag m s) = buf s"
  "mfree (clear_flag flag m s) = mfree s" "mclfree (clear_flag flag m s) = mclfree s" "mclrefcnt (clear_flag flag m s) = mclrefcnt s"
  by (simp_all add: clear_flag_def)

lemma clear_flag_has:
  "m_flags y = m_flags x AND NOT M_PKTHDR \<Longrightarrow> has M_EXT y = has M_EXT x \<and> \<not> has M_PKTHDR y"
  by (simp add: has_def and.assoc)

text \<open>A new empty mbuf in front, which takes the packet header.\<close>

definition fronted :: "nat \<Rightarrow> nat \<Rightarrow> mb_state \<Rightarrow> mb_state" where
  "fronted m n t =
     (if has M_PKTHDR (mb (set_len m 0 t) n) then clear_flag M_PKTHDR n (M_COPY_PKTHDR m n (set_len m 0 t)) else set_len m 0 t)"

lemma fronted_ok:
  assumes "mchain_ok s (n # ns)" and "gains m s t" and "m_flags (mb t m) = 0" and "m_data (mb t m) = 0"
  shows "rebuilt (n # ns) s (m # n # ns) (fronted m n t)" "\<not> has M_EXT (mb (fronted m n t) m)"
    "m_len (mb (fronted m n t) m) = 0" "m_data (mb (fronted m n t) m) \<le> m_pktdat"
proof -
  note G = gainsD [OF assms(2)]
  have C: "live s n" "fits s n" "n \<notin> set ns" "mchain_ok s ns"
    using assms(1) by (auto simp: mchain_ok_Cons)
  have mn: "m \<noteq> n" "mb t n = mb s n" "m \<notin> set ns"
    using G(2,4) C by (auto simp: mchain_ok_def)
  define u where "u = fronted m n t"
  note P = copy_pkthdr_sel [OF mn(1), of "set_len m 0 t"]
  have um: "m_len (mb u m) = 0" "m_type (mb u m) = m_type (mb t m)" "\<not> has M_EXT (mb u m)" "m_dat (mb u m) = m_dat (mb t m)"
    "m_ext (mb u m) = m_ext (mb t m)" "has M_PKTHDR (mb u m) \<longrightarrow> m_data (mb u m) = m_pktdat" "m_data (mb u m) \<le> m_pktdat"
    using mn(1) assms(3,4) P(1) unfolding u_def fronted_def by (auto simp: has_def and.assoc)
  have un: "m_len (mb u n) = m_len (mb s n)" "m_data (mb u n) = m_data (mb s n)" "m_type (mb u n) = m_type (mb s n)"
    "has M_EXT (mb u n) = has M_EXT (mb s n)" "m_dat (mb u n) = m_dat (mb s n)" "m_ext (mb u n) = m_ext (mb s n)"
    "has M_PKTHDR (mb u n) \<longrightarrow> has M_PKTHDR (mb s n)"
    using mn P(1) unfolding u_def fronted_def by (auto simp: has_def and.assoc)
  have other: "mb u x = mb t x" if "x \<noteq> m" "x \<noteq> n" for x
    using that P(1) unfolding u_def fronted_def by simp
  have lists: "buf u = buf t" "mfree u = mfree t" "mclfree u = mclfree t" "mclrefcnt u = mclrefcnt t"
    using P(2-5) unfolding u_def fronted_def by simp_all
  have te: "\<not> has M_EXT (mb t m)"
    using assms(3) by (simp add: has_def)
  have same: "m_type (mb u x) = m_type (mb t x) \<and> has M_EXT (mb u x) = has M_EXT (mb t x) \<and> m_ext (mb u x) = m_ext (mb t x) \<and>
      length (m_dat (mb u x)) = length (m_dat (mb t x))" for x
    using um un mn(2) te other [of x] by (cases "x = m"; cases "x = n") auto
  have ok: "mb_ok u"
    using mb_ok_cong [of u t] same lists G(1) by simp
  have lv: "live u x \<longleftrightarrow> x = m \<or> live s x" for x
    using same G(3) by (simp add: live_def)
  have n: "bytes u n = bytes s n" "fits u n"
    using un C(2) lists(1) G(5) by (auto simp: bytes_def fits_def memory_def)
  have k: "kept (Collect (live s) - set (n # ns)) s u" "kept (set ns) s u"
  proof -
    have "x \<noteq> m" if "live s x" for x
      using that G(2) by blast
    then have "core (mb u x) = core (mb s x)" if "live s x" "x \<noteq> n" for x
      using other that G(4) by simp
    then show "kept (Collect (live s) - set (n # ns)) s u" "kept (set ns) s u"
      using lists(1) G(5) C(3,4) by (auto simp: kept_def mchain_ok_def)
  qed
  have m: "bytes u m = []" "fits u m"
    using um mb_okD(8) [OF G(1), of m] by (auto simp: bytes_def fits_def memory_def m_pktdat_def MLEN_def MHLEN_def MSIZE_def)
  have "rebuilt (n # ns) s (m # n # ns) u"
    using ok lv n m k(1) kept_bytes [OF k(2), of ns] mn C G(2) by (auto simp: rebuilt_def mchain_ok_def)
  then show "rebuilt (n # ns) s (m # n # ns) (fronted m n t)" "\<not> has M_EXT (mb (fronted m n t) m)"
    "m_len (mb (fronted m n t) m) = 0" "m_data (mb (fronted m n t) m) \<le> m_pktdat"
    using um unfolding u_def by simp_all
qed

lemma m_pullup_ok:
  assumes "mb_ok s" and "mchain_ok s ms" and "ms \<noteq> []"
  shows "\<exists>s' ns. m_pullup max_protohdr ms len s = Some (s', ns) \<and>
    (ns \<noteq> [] \<and> rebuilt ms s ns s' \<and> \<not> has M_EXT (mb s' (hd ns)) \<and> len \<le> m_len (mb s' (hd ns)) \<or>
     ns = [] \<and> loses (set ms) s s' \<and> (length (chain_bytes s ms) < len \<or> MHLEN < len \<or> mfree s = []))"
proof -
  obtain n ns where ms: "ms = n # ns"
    using assms(3) by (cases ms) auto
  have n: "live s n" "fits s n" "length (bytes s n) = m_len (mb s n)"
    using assms(2) length_bytes by (auto simp: ms mchain_ok_Cons)
  have free: "\<exists>s'. m_freem ms t = Some s' \<and> loses (set ms) s (count_fail s')" if "stays s t" for t
  proof -
    have "mb_ok t" "distinct ms" "\<forall>x \<in> set ms. live t x" "loses {} s t"
      using that assms(2) by (auto simp: stays_def mchain_ok_def loses_def kept_def)
    then obtain u where "m_freem ms t = Some u" "loses (set ms) t u"
      using m_freem_ok by blast
    then show ?thesis
      using loses_trans [OF \<open>loses {} s t\<close>] by (auto simp: count_fail_ok)
  qed
  show ?thesis
  proof (cases "\<not> has M_EXT (mb s n) \<and> m_data (mb s n) + len < MLEN \<and> ns \<noteq> []")
    case True
    show ?thesis
    proof (cases "len \<le> m_len (mb s n)")
      case True
      then show ?thesis
        using \<open>_ \<and> _ \<and> ns \<noteq> []\<close> rebuilt_refl [OF assms(1,2)] by (simp add: m_pullup_def ms)
    next
      case False
      have "m_data (mb s n) + m_len (mb s n) + (len - m_len (mb s n)) \<le> MLEN"
        using True False by simp
      then obtain s' ms' where P: "pull_into max_protohdr n ns (len - m_len (mb s n)) s = Some (s', ms')"
        "ms' \<noteq> [] \<and> rebuilt ms s ms' s' \<and> \<not> has M_EXT (mb s' (hd ms')) \<and> m_len (mb s n) + (len - m_len (mb s n)) \<le> m_len (mb s' (hd ms')) \<or>
         ms' = [] \<and> loses (set ms) s s' \<and> length (chain_bytes s ns) < len - m_len (mb s n)"
        using pull_into_ok [OF assms(1) assms(2) [unfolded ms]] True unfolding ms by blast
      then show ?thesis
        using True False n(3) by (auto simp: m_pullup_def ms)
    qed
  next
    case slow: False
    show ?thesis
    proof (cases "MHLEN < len")
      case True
      have "stays s s"
        using assms(1) by (simp add: stays_def)
      then obtain u where u: "m_freem ms s = Some u" "loses (set ms) s (count_fail u)"
        using free by blast
      then have "m_pullup max_protohdr ms len s = Some (count_fail u, [])"
        using slow True unfolding m_pullup_def ms by (auto simp del: m_freem.simps)
      then show ?thesis
        using u(2) True by simp
    next
      case False
      have "m_type (mb s n) \<noteq> MT_FREE"
        using n(1) by (simp add: live_def)
      with assms(1) show ?thesis
      proof (cases rule: MGET_cases)
        case (none t)
        obtain u where u: "m_freem ms t = Some u" "loses (set ms) s (count_fail u)"
          using free [OF none(2)] by blast
        then have "m_pullup max_protohdr ms len s = Some (count_fail u, [])"
          using slow False none(1) unfolding m_pullup_def ms by (auto simp del: m_freem.simps)
        then show ?thesis
          using u(2) none(3) by simp
      next
        case (some t m)
        note F = fronted_ok [OF assms(2) [unfolded ms] some(2,4,5)]
        have F1: "mb_ok (fronted m n t)" "mchain_ok (fronted m n t) (m # ms)" "chain_bytes (fronted m n t) (m # ms) = chain_bytes s ms"
          using F(1) by (simp_all add: rebuilt_def ms)
        have "bytes (fronted m n t) m = []"
          using F(3) by (simp add: bytes_def)
        moreover have "m_data (mb (fronted m n t) m) + m_len (mb (fronted m n t) m) + len \<le> MLEN"
          using F(3,4) False by (auto simp: m_pktdat_def MLEN_def MHLEN_def MSIZE_def)
        then obtain s' ms' where P: "pull_into max_protohdr m ms len (fronted m n t) = Some (s', ms')"
          "ms' \<noteq> [] \<and> rebuilt (m # ms) (fronted m n t) ms' s' \<and> \<not> has M_EXT (mb s' (hd ms')) \<and>
             m_len (mb (fronted m n t) m) + len \<le> m_len (mb s' (hd ms')) \<or>
           ms' = [] \<and> loses (set (m # ms)) (fronted m n t) s' \<and> length (chain_bytes (fronted m n t) ms) < len"
          using pull_into_ok [OF F1(1,2) assms(3) F(2)] by blast
        have "mb (set_len m 0 t) n = mb s n"
          using gainsD(2,4) [OF some(2)] n(1) by auto
        then have "m_pullup max_protohdr ms len s = Some (s', ms')"
          using slow False some(1) P(1) unfolding fronted_def m_pullup_def ms Let_def by auto
        moreover have "rebuilt ms s ms' s'" if "rebuilt (m # ms) (fronted m n t) ms' s'"
          using rebuilt_trans [OF F(1)] that unfolding ms by blast
        moreover have "loses (set ms) s s'" if "loses (set (m # ms)) (fronted m n t) s'"
          using rebuilt_loses [OF F(1)] that unfolding ms by blast
        ultimately show ?thesis
          using P(2) F(3) F1(3) by auto
      qed
    qed
  qed
qed

end
