(* ===== verification/Mbuf_Join.thy ===== *)
theory Mbuf_Join
  imports Mbuf_Pullup
begin

text \<open>
  \<open>MCLGET\<close>, \<open>m_clalloc\<close>, \<open>m_cat\<close> and \<open>M_PREPEND\<close>: clusters, their pool, concatenation and room in front.
\<close>

section \<open>Clusters\<close>

lemma MCLGET_ok:
  assumes "mb_ok s" and "live s n" and "\<not> has M_EXT (mb s n)"
  shows "mb_ok (MCLGET n s)" "live (MCLGET n s) x = live s x" "kept (- {n}) s (MCLGET n s)"
    "MCLGET n s = s \<or> has M_EXT (mb (MCLGET n s) n) \<and> m_data (mb (MCLGET n s) n) = 0"
proof -
  have "mb_ok (MCLGET n s) \<and> (\<forall>x. live (MCLGET n s) x = live s x) \<and> kept (- {n}) s (MCLGET n s) \<and>
    (MCLGET n s = s \<or> has M_EXT (mb (MCLGET n s) n) \<and> m_data (mb (MCLGET n s) n) = 0)"
  proof (cases "mclfree s")
    case Nil
    then show ?thesis
      using assms(1) by (simp add: MCLGET_def MCLALLOC_def)
  next
    case (Cons c cs)
    note ok = mb_okD [OF assms(1)]
    define y where "y = (mb s n)\<lparr>m_data := 0, m_flags := m_flags (mb s n) OR M_EXT,
      m_ext := \<lparr>ext_buf = c, ext_free = False, ext_size = MCLBYTES, ext_forward = n, ext_backward = n\<rparr>\<rparr>"
    define s' where "s' = put n y ((mcl_add c 1 s)\<lparr>mclfree := cs\<rparr>)"
    have eq: "MCLGET n s = s'"
      using Cons by (simp add: MCLGET_def MCLALLOC_def s'_def y_def)
    have ext: "has M_EXT y" "m_type y = m_type (mb s n)" "m_ext y = \<lparr>ext_buf = c, ext_free = False, ext_size = MCLBYTES, ext_forward = n, ext_backward = n\<rparr>"
      "length (m_dat y) = MLEN" "m_data y = 0"
      using ok(8) by (simp_all add: y_def has_def word_ao_absorbs)
    have S: "mb s' = (mb s)(n := y)" "mfree s' = mfree s" "mclfree s' = cs" "mclrefcnt s' = (mclrefcnt s)(c := mclrefcnt s c + 1)" "buf s' = buf s"
      by (simp_all add: s'_def)
    have lv: "live s' x = live s x" for x
      using S(1) ext(2) by (simp add: live_def)
    have carved: "carved s' d = carved s d" and busy: "busy s' d = busy s d" for d
      using lv S(2) by (simp_all add: carved_def busy_def)
    have c: "mclrefcnt s c = 0" "\<not> carved s c" "c \<notin> set cs" "users s c = {}"
      using ok(3) ok(4,5) [of c] ok(7) [of c] Cons by (auto simp: buffer_ok_def)
    have users: "users s' b = (if b = c then {n} else users s b)" for b
      using lv S(1) ext(1,3) assms(2,3) c(4) by (auto simp: users_def)
    have "buffer_ok s' b" if "users s' b \<noteq> {}" for b
    proof (cases "b = c")
      case True
      have "ring (forward s') (backward s') [n]"
        using S(1) ext(3) by (simp add: ring_def)
      then have "\<exists>xs. ring (forward s') (backward s') xs \<and> set xs = users s' c"
        using users [of c] by (intro exI [of _ "[n]"]) simp
      then show ?thesis
        using True users [of c] c S ext(3) carved by (simp add: buffer_ok_def)
    next
      case False
      then have b: "buffer_ok s b"
        using ok(7) that users by auto
      have e: "m_ext (mb s' m) = m_ext (mb s m)" if "m \<in> users s b" for m
        using that assms(3) S(1) by (auto simp: users_def)
      show ?thesis
        by (rule buffer_ok_cong [OF b _ e]) (use False users S carved Cons in auto)
    qed
    moreover have "mclrefcnt s' d = 0 \<and> \<not> carved s' d" if "d \<in> set cs" for d
      using ok(4,5) [of d] that carved c(3) S(4) Cons by auto
    moreover have "mclrefcnt s' d = 1 + int (busy s' d)" if "carved s' d" for d
      using ok(6) [of d] that carved busy c(2) S(4) by auto
    moreover have "d \<in> set cs \<or> carved s' d \<or> users s' d \<noteq> {}" if "0 \<le> mclrefcnt s' d" for d
      using ok(9) [of d] that carved users S(4) Cons by (cases "d = c") auto
    moreover have "length (m_dat (mb s' m)) = MLEN" for m
      using ok(8) ext(4) S(1) by simp
    ultimately have "mb_ok s'"
      using ok(1,2,3) lv S(2,3) Cons unfolding mb_ok_def by auto
    moreover have "kept (- {n}) s s'"
      using S(1,5) by (simp add: kept_def)
    ultimately show ?thesis
      using lv ext(1,5) S(1) unfolding eq by simp
  qed
  then show "mb_ok (MCLGET n s)" "live (MCLGET n s) x = live s x" "kept (- {n}) s (MCLGET n s)"
    "MCLGET n s = s \<or> has M_EXT (mb (MCLGET n s) n) \<and> m_data (mb (MCLGET n s) n) = 0"
    by blast+
qed

section \<open>The pool\<close>

text \<open>A new cluster goes on the free list.\<close>

lemma map_cluster_ok:
  assumes "mb_ok s" and "mclrefcnt s c = -1" and "users s c = {}"
  shows "mb_ok ((mcl_add c 1 s)\<lparr>mclfree := c # mclfree s\<rparr>)"
proof -
  define t where "t = (mcl_add c 1 s)\<lparr>mclfree := c # mclfree s\<rparr>"
  note ok = mb_okD [OF assms(1)]
  have T: "mb t = mb s" "mfree t = mfree s" "mclfree t = c # mclfree s" "mclrefcnt t = (mclrefcnt s)(c := 0)"
    using assms(2) by (auto simp: t_def)
  have c: "c \<notin> set (mclfree s)" "\<not> carved s c"
    using ok(4,6) [of c] assms(2) by auto
  have same: "live t x = live s x" "users t b = users s b" "carved t d = carved s d" "busy t d = busy s d" for x b d
    using T by (simp_all add: live_def users_def carved_def busy_def)
  have "buffer_ok t b" if "users t b \<noteq> {}" for b
  proof (rule buffer_ok_cong)
    show "buffer_ok s b"
      using ok(7) that same(2) by simp
    show "b \<in> set (mclfree t) \<Longrightarrow> b \<in> set (mclfree s)" "mclrefcnt t b = mclrefcnt s b"
      using that assms(3) same(2) T(3,4) by auto
  qed (use same T in simp_all)
  moreover have "d \<in> set (mclfree t) \<or> carved t d \<or> users t d \<noteq> {}" if "0 \<le> mclrefcnt t d" for d
    using ok(9) [of d] that same T(3,4) by (cases "d = c") auto
  ultimately have "mb_ok t"
    using ok(1-6,8) c same T unfolding mb_ok_def by auto
  then show ?thesis
    by (simp add: t_def)
qed

lemma mcl_fill_ok:
  assumes "mb_ok s" and "distinct cs" and "\<forall>c \<in> set cs. mclrefcnt s c = -1 \<and> users s c = {}"
  shows "\<exists>s'. mcl_fill cs s = Some s' \<and> mb_ok s' \<and> mb s' = mb s \<and> buf s' = buf s"
  using assms
proof (induction cs arbitrary: s)
  case (Cons c cs)
  define t where "t = (mcl_add c 1 s)\<lparr>mclfree := c # mclfree s\<rparr>"
  have "mb_ok t"
    unfolding t_def using map_cluster_ok Cons.prems(1,3) by simp
  moreover have "\<forall>d \<in> set cs. mclrefcnt t d = -1 \<and> users t d = {}"
    using Cons.prems(2,3) by (auto simp: t_def users_def live_def)
  ultimately show ?case
    using Cons.IH [of t] Cons.prems(2,3) by (simp add: t_def)
qed simp

text \<open>The pages that \<open>kmem_mb_alloc\<close> gives were not mapped.\<close>

definition fresh_clusters :: "(nat \<Rightarrow> nat option) \<Rightarrow> mb_state \<Rightarrow> bool" where
  "fresh_clusters kmem s \<longleftrightarrow>
     (\<forall>n c. kmem n = Some c \<longrightarrow> (\<forall>d. c \<le> d \<and> d < c + n \<longrightarrow> mclrefcnt s d = -1 \<and> users s d = {}))"

lemma m_clalloc_ok:
  assumes "mb_ok s" and "fresh_clusters kmem s"
  shows "\<exists>s' r. m_clalloc nmbclusters kmem ncl nowait s = Some (s', r) \<and> mb_ok s' \<and> mb s' = mb s \<and> buf s' = buf s"
proof -
  have "\<exists>s'. mcl_map c n s = Some (s', n) \<and> mb_ok s' \<and> mb s' = mb s \<and> buf s' = buf s" if "kmem n = Some c" for n c
  proof -
    have "\<forall>d \<in> set [c..<c + n]. mclrefcnt s d = -1 \<and> users s d = {}"
      using assms(2) that by (simp add: fresh_clusters_def)
    then obtain t where t: "mcl_fill [c..<c + n] s = Some t" "mb_ok t" "mb t = mb s" "buf t = buf s"
      using mcl_fill_ok [OF assms(1) distinct_upt] by blast
    have "mb_ok (t\<lparr>m_clusters := m_clusters t + n\<rparr>) = mb_ok t"
      by (rule mb_ok_cong) simp_all
    then show ?thesis
      using t by (simp add: mcl_map_def)
  qed
  then show ?thesis
    using assms(1) by (fastforce simp: m_clalloc_def Let_def split: option.splits if_splits)
qed

lemma boot_ok: "mb_ok (mb_boot bufs)" "\<not> live (mb_boot bufs) x" "users (mb_boot bufs) b = {}" "mclrefcnt (mb_boot bufs) c = -1"
proof -
  show none: "\<not> live (mb_boot bufs) x" for x
    by (simp add: live_def mb_boot_def mb_blank_def)
  then show "users (mb_boot bufs) b = {}" for b
    by (simp add: users_def)
  then show "mb_ok (mb_boot bufs)"
    using none by (simp add: mb_ok_def carved_def) (simp add: mb_boot_def mb_blank_def)
  show "mclrefcnt (mb_boot bufs) c = -1"
    by (simp add: mb_boot_def)
qed

lemma mbinit_ok:
  assumes "mbinit nmbclusters kmem ncl bufs = Some s"
  shows "mb_ok s" "\<not> live s x"
proof -
  have "fresh_clusters kmem (mb_boot bufs)"
    using boot_ok by (simp add: fresh_clusters_def)
  then obtain s' r where "m_clalloc nmbclusters kmem ncl False (mb_boot bufs) = Some (s', r)" "mb_ok s'" "mb s' = mb (mb_boot bufs)"
    using m_clalloc_ok [OF boot_ok(1)] by blast
  then show "mb_ok s" "\<not> live s x"
    using assms boot_ok(2) [of bufs x] by (auto simp: mbinit_def live_def split: if_splits)
qed

section \<open>Concatenation\<close>

lemma rebuilt_frame:
  assumes "rebuilt ms s ns s'" and "mchain_ok s (before @ ms)"
  shows "rebuilt (before @ ms) s (before @ ns) s'"
proof -
  have R: "\<And>x. live s' x \<longleftrightarrow> x \<in> set ns \<or> live s x \<and> x \<notin> set ms" "\<And>x. x \<in> set ns \<Longrightarrow> x \<in> set ms \<or> \<not> live s x"
    "kept (Collect (live s) - set ms) s s'"
    using assms(1) by (auto simp: rebuilt_def)
  have B: "set before \<subseteq> Collect (live s) - set ms" "\<And>x. x \<in> set before \<Longrightarrow> live s x \<and> x \<notin> set ms"
    using assms(2) by (auto simp: mchain_ok_append mchain_ok_def)
  have "set before \<inter> set ns = {}"
    using B(2) R(2) by blast
  moreover have "kept (Collect (live s) - set (before @ ms)) s s'"
    by (rule kept_subset [OF R(3)]) auto
  ultimately show ?thesis
    using assms R(1,2) B(2) kept_bytes [OF R(3) B(1)] by (auto simp: rebuilt_def mchain_ok_append)
qed

lemma cat_loop_ok:
  "\<lbrakk>mb_ok s; mchain_ok s (m # ns)\<rbrakk> \<Longrightarrow> \<exists>s' ns'. cat_loop m ns s = Some (s', ns') \<and> rebuilt (m # ns) s (m # ns') s'"
proof (induction ns arbitrary: s)
  case Nil
  then show ?case
    by (simp add: rebuilt_refl)
next
  case (Cons n ns)
  show ?case
  proof (cases "has M_EXT (mb s m) \<or> MLEN \<le> m_data (mb s m) + m_len (mb s m) + m_len (mb s n)")
    case True
    then show ?thesis
      using rebuilt_refl [OF Cons.prems] by simp
  next
    case False
    then have f: "\<not> has M_EXT (mb s m)" "m_data (mb s m) + m_len (mb s m) + m_len (mb s n) \<le> MLEN"
      by simp_all
    have C: "m \<noteq> n" "fits s m" "fits s n"
      using Cons.prems(2) by (auto simp: mchain_ok_Cons)
    obtain s1 d where s1: "bcopy n (m_data (mb s n)) m (m_data (mb s m) + m_len (mb s m)) (m_len (mb s n)) s = Some s1" "mb_ok s1"
      "kept (- {m}) s s1" "mb s1 m = (mb s m)\<lparr>m_dat := d\<rparr>"
      "bytes (set_len m (m_len (mb s m) + m_len (mb s n)) s1) m = bytes s m @ take (m_len (mb s n)) (bytes s n)"
      using move_bytes [OF Cons.prems f(1) order_refl f(2)] by metis
    define t where "t = set_len m (m_len (mb s m) + m_len (mb s n)) s1"
    have T: "trimmed {m} s1 t"
      by (simp add: t_def)
    have sel: "m_len (mb s1 m) = m_len (mb s m)" "m_len (mb s1 n) = m_len (mb s n)"
      using s1(4) coreD(1) [OF keptD [OF s1(3), of n]] C(1) by simp_all
    have "mb_ok t"
      using trimmed_ok [OF T] s1(2) by simp
    moreover have "live t x = live s x" for x
    proof (cases "x = m")
      case True
      then show ?thesis
        using trimmed_sel(7) [OF T] s1(4) by (simp add: live_def)
    next
      case False
      then show ?thesis
        using trimmed_sel(7) [OF T] kept_live [OF s1(3), of x] by simp
    qed
    moreover have "kept (- {m, n}) s t"
      using s1(3) by (auto simp: kept_def t_def)
    moreover have "bytes t m = bytes s m @ bytes s n"
      using s1(5) length_bytes [OF C(3)] by (simp add: t_def)
    moreover have "fits t m"
      using s1(4) f C(2) mb_okD(8) [OF s1(2), of m] by (auto simp: fits_def memory_def t_def)
    ultimately obtain s2 where s2: "m_free n t = Some s2" "rebuilt (m # n # ns) s (m # ns) s2"
      using absorb_ok [OF Cons.prems(2)] by blast
    then obtain s' ns' where "cat_loop m ns s2 = Some (s', ns')" "rebuilt (m # ns) s2 (m # ns') s'"
      using Cons.IH [of s2] by (auto simp: rebuilt_def)
    then show ?thesis
      using False s1(1) s2 sel rebuilt_trans [OF s2(2)] by (auto simp: t_def)
  qed
qed

lemma m_cat_ok:
  assumes "mb_ok s" and "mchain_ok s (ms @ ns)" and "ms \<noteq> []"
  shows "\<exists>s' ms'. m_cat ms ns s = Some (s', ms') \<and> rebuilt (ms @ ns) s ms' s'"
proof -
  obtain as m where ms: "ms = as @ [m]"
    using assms(3) by (cases ms rule: rev_cases) auto
  have "mchain_ok s (m # ns)"
    using assms(2) by (auto simp: ms mchain_ok_append)
  then obtain s' ns' where "cat_loop m ns s = Some (s', ns')" "rebuilt (m # ns) s (m # ns') s'"
    using cat_loop_ok [OF assms(1)] by blast
  then show ?thesis
    using rebuilt_frame [of "m # ns" s "m # ns'" s' as] assms(2) by (auto simp: m_cat_def ms)
qed

section \<open>Room in front\<close>

text \<open>As \<open>rebuilt\<close>, with \<open>k\<close> bytes in front whose contents are left to the caller.\<close>

definition prepended :: "nat \<Rightarrow> nat list \<Rightarrow> mb_state \<Rightarrow> nat list \<Rightarrow> mb_state \<Rightarrow> bool" where
  "prepended k ms s ns s' \<longleftrightarrow> mb_ok s' \<and> mchain_ok s' ns \<and>
     (\<exists>junk. length junk = k \<and> chain_bytes s' ns = junk @ chain_bytes s ms) \<and>
     (\<forall>x. live s' x \<longleftrightarrow> x \<in> set ns \<or> live s x \<and> x \<notin> set ms) \<and> (\<forall>x \<in> set ns. x \<in> set ms \<or> \<not> live s x) \<and>
     kept (Collect (live s) - set ms) s s'"

lemma prepended_ph_len: "prepended k ms s ns (set_ph_len m i u) = prepended k ms s ns u" if "m \<in> set ns" "m \<notin> set ms \<longrightarrow> \<not> live s m"
proof -
  have "mchain_ok (set_ph_len m i u) ns = mchain_ok u ns"
    by (simp add: mchain_ok_def ph_len_bytes)
  moreover have "kept (Collect (live s) - set ms) s (set_ph_len m i u) = kept (Collect (live s) - set ms) s u"
    using that by (auto simp: kept_def)
  ultimately show ?thesis
    by (simp add: prepended_def ph_len_bytes ph_len_ok)
qed

lemma header_swap:
  "n \<noteq> m \<Longrightarrow> set_len n k (set_data n d (clear_flag fl m (M_COPY_PKTHDR n m (set_len n j s)))) =
     set_len n k (set_data n d (clear_flag fl m (M_COPY_PKTHDR n m s)))"
  "set_len n k (set_data n d (set_len n j s)) = set_len n k (set_data n d s)" "set_len n k (set_len n j s) = set_len n k s"
  by (rule mb_state.equality; auto simp: set_len_def set_data_def clear_flag_def M_COPY_PKTHDR_def put_def Let_def intro!: ext mbuf.equality)+

lemma m_prepend_ok:
  assumes "mb_ok s" and "mchain_ok s ms" and "ms \<noteq> []" and "len \<le> MHLEN"
  shows "\<exists>s' ns. m_prepend ms len s = Some (s', ns) \<and>
    (ns \<noteq> [] \<and> prepended len ms s ns s' \<or> ns = [] \<and> loses (set ms) s s' \<and> mfree s = [])"
proof -
  obtain m rest where ms: "ms = m # rest"
    using assms(3) by (cases ms) auto
  have m: "live s m"
    using assms(2) by (simp add: ms mchain_ok_Cons)
  then have "m_type (mb s m) \<noteq> MT_FREE"
    by (simp add: live_def)
  with assms(1) show ?thesis
  proof (cases rule: MGET_cases)
    case (none t)
    have "mb_ok t" "distinct ms" "\<forall>x \<in> set ms. live t x" "loses {} s t"
      using none(2) assms(2) by (auto simp: stays_def mchain_ok_def loses_def kept_def)
    then obtain u where "m_freem ms t = Some u" "loses (set ms) s u"
      using m_freem_ok loses_trans [of "{}" s t "set ms"] by fastforce
    then show ?thesis
      using none by (auto simp: m_prepend_def ms simp del: m_freem.simps)
  next
    case (some t n)
    note F = fronted_ok [OF assms(2) [unfolded ms] some(2,4,5), folded ms]
    have nm: "n \<noteq> m" "mb t m = mb s m"
      using gainsD(2,4) [OF some(2)] m by auto
    define h where "h = (if has M_PKTHDR (mb t m) then clear_flag M_PKTHDR m (M_COPY_PKTHDR n m t) else t)"
    define d where "d = (if len < MHLEN then m_data (mb h n) + align MHLEN len else m_data (mb h n))"
    define f where "f = fronted n m t"
    have fh: "f = (if has M_PKTHDR (mb t m) then clear_flag M_PKTHDR m (M_COPY_PKTHDR n m (set_len n 0 t)) else set_len n 0 t)"
      using nm(1) by (simp add: f_def fronted_def)
    then have "m_data (mb f n) = m_data (mb h n)"
      using nm(1) copy_pkthdr_sel(1) [OF nm(1)] by (auto simp: h_def)
    then have "d + len \<le> MLEN" "m_data (mb f n) \<le> d"
      using F(4) assms(4) by (auto simp: d_def align_def f_def m_pktdat_def MLEN_def MHLEN_def MSIZE_def)
    define u where "u = set_len n len (set_data n d h)"
    have "u = set_len n len (set_data n d f)"
      using nm(1) header_swap unfolding u_def fh h_def by auto
    then have T: "trimmed {n} f u"
      using trimmed_trans [OF trimmed_set(2) trimmed_set(1), of n "{n}" n "{n}"] by simp
    have "mb u n = (mb f n)\<lparr>m_data := d, m_len := len\<rparr>"
      unfolding \<open>u = set_len n len (set_data n d f)\<close> by simp
    have u: "m_prepend ms len s = Some (u, n # ms)"
    proof -
      have "(if len < MHLEN then set_data n (m_data (mb h n) + align MHLEN len) h else h) = set_data n d h"
        by (auto simp: d_def set_data_def put_def)
      then show ?thesis
        unfolding m_prepend_def ms list.case some(1) prod.case option.case Let_def h_def [symmetric] u_def by simp
    qed
    have R: "mb_ok f" "mchain_ok f (n # ms)" "chain_bytes f (n # ms) = chain_bytes s ms"
      "\<And>x. live f x \<longleftrightarrow> x \<in> set (n # ms) \<or> live s x \<and> x \<notin> set ms" "kept (Collect (live s) - set ms) s f" "\<not> live s n" "n \<notin> set ms"
      using F(1) gainsD(2) [OF some(2)] assms(2) by (auto simp: rebuilt_def f_def mchain_ok_Cons)
    have "bytes f n = []"
      using F(3) by (simp add: bytes_def f_def)
    note T' = trimmed_sel [OF T]
    have "fits u n"
    proof -
      have "\<not> has M_EXT (mb u n)" "length (m_dat (mb u n)) = MLEN"
        using T'(6) F(2) trimmed_ok [OF T] mb_okD(8) [OF R(1)] T'(5) by (simp_all add: f_def)
      moreover have "has M_PKTHDR (mb u n) \<longrightarrow> m_pktdat \<le> d"
        using R(2) F(2) T'(6) \<open>m_data (mb f n) \<le> d\<close> by (auto simp: mchain_ok_Cons fits_def f_def)
      ultimately show ?thesis
        using \<open>mb u n = _\<close> \<open>d + len \<le> MLEN\<close> by (simp add: fits_def memory_def)
    qed
    have "chain_bytes u ms = chain_bytes s ms"
      using trimmed_chain(1) [OF T, of ms] R(3,7) \<open>bytes f n = []\<close> by simp
    moreover have "length (bytes u n) = len"
      using length_bytes [OF \<open>fits u n\<close>] \<open>mb u n = _\<close> by simp
    moreover have "mchain_ok u ms"
      using R(2,7) trimmed_chain(3) [OF T, of ms] by (simp add: mchain_ok_Cons)
    moreover have "kept (Collect (live s) - set ms) s u"
      using kept_trans [OF R(5) trimmed_kept [OF T]] R(6) by auto
    moreover have "mb_ok u" "\<And>x. live u x \<longleftrightarrow> x \<in> set (n # ms) \<or> live s x \<and> x \<notin> set ms"
      using trimmed_ok [OF T] R(1,4) T'(7) by simp_all
    ultimately show ?thesis
      using u R(6,7) \<open>fits u n\<close> by (auto simp: prepended_def mchain_ok_Cons)
  qed
qed

lemma lead_ok:
  assumes "mb_ok s" and "mchain_ok s (m # ms)" and "int plen \<le> m_leadingspace s m"
  shows "prepended plen (m # ms) s (m # ms) (set_len m (m_len (mb s m) + plen) (set_data m (m_data (mb s m) - plen) s))"
proof -
  define u where "u = set_len m (m_len (mb s m) + plen) (set_data m (m_data (mb s m) - plen) s)"
  have T: "trimmed {m} s u"
    unfolding u_def by (rule trimmed_trans [of "{m}" s "set_data m (m_data (mb s m) - plen) s" "{m}"]) simp_all
  note T' = trimmed_sel [OF T]
  have C: "live s m" "fits s m" "m \<notin> set ms" "mchain_ok s ms"
    using assms(2) by (auto simp: mchain_ok_Cons)
  have d: "plen \<le> m_data (mb s m)" "has M_PKTHDR (mb s m) \<and> \<not> has M_EXT (mb s m) \<longrightarrow> m_pktdat \<le> m_data (mb s m) - plen"
    using assms(3) by (auto simp: m_leadingspace_def Let_def split: if_splits)
  have sel: "m_len (mb u m) = m_len (mb s m) + plen" "m_data (mb u m) = m_data (mb s m) - plen"
    by (simp_all add: u_def)
  have f: "fits u m"
    using C(2) d sel T'(6,8) by (simp add: fits_def)
  have b: "bytes u m = take plen (bytes u m) @ bytes s m"
  proof -
    have "drop plen (bytes u m) = bytes s m"
      unfolding trimmed_bytes(1) [OF T] sel using d(1) by (simp add: bytes_def drop_take)
    then show ?thesis
      by (metis append_take_drop_id)
  qed
  moreover have "length (take plen (bytes u m)) = plen"
    using length_bytes [OF f] sel(1) by simp
  moreover have "mchain_ok u ms"
    using C(3,4) trimmed_chain(3) [OF T, of ms] by simp
  moreover have "kept (Collect (live s) - set (m # ms)) s u"
    using T'(9) T by (auto simp: kept_def trimmed_def)
  ultimately have "prepended plen (m # ms) s (m # ms) u"
    using f C trimmed_ok [OF T] assms(1) T'(7) trimmed_chain(1) [OF T, of ms]
    unfolding prepended_def by (auto simp: mchain_ok_def intro!: exI [of _ "take plen (bytes u m)"])
  then show ?thesis
    by (simp add: u_def)
qed

lemma M_PREPEND_ok:
  assumes "mb_ok s" and "mchain_ok s ms" and "ms \<noteq> []" and "plen \<le> MHLEN"
  shows "\<exists>s' ns. M_PREPEND ms plen s = Some (s', ns) \<and>
    (ns \<noteq> [] \<and> prepended plen ms s ns s' \<or> ns = [] \<and> loses (set ms) s s' \<and> mfree s = [])"
proof -
  obtain m rest where ms: "ms = m # rest"
    using assms(3) by (cases ms) auto
  define r where "r = (if int plen \<le> m_leadingspace s m
    then Some (set_len m (m_len (mb s m) + plen) (set_data m (m_data (mb s m) - plen) s), ms) else m_prepend ms plen s)"
  obtain t ns where t: "r = Some (t, ns)" "ns \<noteq> [] \<and> prepended plen ms s ns t \<or> ns = [] \<and> loses (set ms) s t \<and> mfree s = []"
  proof (cases "int plen \<le> m_leadingspace s m")
    case True
    then show ?thesis
      using that [of _ ms] lead_ok [OF assms(1) assms(2) [unfolded ms] True] by (auto simp: r_def ms)
  next
    case False
    then show ?thesis
      using that m_prepend_ok [OF assms] by (auto simp: r_def)
  qed
  show ?thesis
  proof (cases ns)
    case Nil
    then show ?thesis
      using t unfolding M_PREPEND_def ms list.case r_def [unfolded ms, symmetric] by simp
  next
    case (Cons n ns')
    have "n \<notin> set ms \<longrightarrow> \<not> live s n"
      using t(2) Cons by (auto simp: prepended_def)
    then have "prepended plen ms s ns (set_ph_len n k t)" for k
      using t(2) Cons prepended_ph_len [of n ns ms s] by simp
    then show ?thesis
      using t Cons unfolding M_PREPEND_def ms list.case r_def [unfolded ms, symmetric] by auto
  qed
qed

end
