(* ===== verification/Mbuf_System.thy ===== *)
theory Mbuf_System
  imports Mbuf_Join "HOL-Library.Multiset"
begin

text \<open>
  The mbufs of the whole system: any sequence of allocations, copies, changes and releases of chains, and what it
  never loses.
\<close>

section \<open>Chains in use\<close>

text \<open>The state with the chains that somebody holds; an empty chain is a null pointer.\<close>

type_synonym mb_system = "mb_state \<times> nat list list"

definition sys_ok :: "mb_system \<Rightarrow> bool" where
  "sys_ok S \<longleftrightarrow> mb_ok (fst S) \<and> mchain_ok (fst S) (concat (snd S)) \<and> (\<forall>x. live (fst S) x \<longrightarrow> x \<in> set (concat (snd S)))"

text \<open>The calls; who allocates an mbuf says how much of it is data.\<close>

inductive mb_step :: "nat \<Rightarrow> mb_system \<Rightarrow> mb_system \<Rightarrow> bool" for max_protohdr :: nat where
  order: "mset cs' = mset cs \<Longrightarrow> mb_step max_protohdr (s, cs) (s, cs')"
| get: "\<lbrakk>MGET type s = (t, Some n); type \<noteq> MT_FREE; k \<le> MLEN\<rbrakk> \<Longrightarrow> mb_step max_protohdr (s, cs) (set_len n k t, [n] # cs)"
| get_fails: "\<lbrakk>MGET type s = (t, None); type \<noteq> MT_FREE\<rbrakk> \<Longrightarrow> mb_step max_protohdr (s, cs) (t, cs)"
| gethdr: "\<lbrakk>MGETHDR type s = (t, Some n); type \<noteq> MT_FREE; k \<le> MHLEN\<rbrakk> \<Longrightarrow>
    mb_step max_protohdr (s, cs) (set_ph_len n j (set_len n k t), [n] # cs)"
| cluster: "\<lbrakk>\<not> has M_EXT (mb s n); t = MCLGET n s; has M_EXT (mb t n); k \<le> length (memory t n)\<rbrakk> \<Longrightarrow>
    mb_step max_protohdr (s, [n] # cs) (set_len n k t, [n] # cs)"
| grow: "\<lbrakk>m_clalloc nmbclusters kmem ncl nowait s = Some (t, r); fresh_clusters kmem s\<rbrakk> \<Longrightarrow> mb_step max_protohdr (s, cs) (t, cs)"
| free: "m_freem ms s = Some t \<Longrightarrow> mb_step max_protohdr (s, ms # cs) (t, cs)"
| copy: "\<lbrakk>ms \<noteq> []; off + len \<le> length (chain_bytes s ms) \<or> len = M_COPYALL \<and> off \<le> length (chain_bytes s ms);
      length (chain_bytes s ms) < M_COPYALL; m_copym ms (int off) (int len) s = Some (t, ns)\<rbrakk> \<Longrightarrow>
    mb_step max_protohdr (s, ms # cs) (t, ns # ms # cs)"
| pullup: "\<lbrakk>ms \<noteq> []; m_pullup max_protohdr ms len s = Some (t, ns)\<rbrakk> \<Longrightarrow> mb_step max_protohdr (s, ms # cs) (t, ns # cs)"
| prepend: "\<lbrakk>ms \<noteq> []; plen \<le> MHLEN; M_PREPEND ms plen s = Some (t, ns)\<rbrakk> \<Longrightarrow> mb_step max_protohdr (s, ms # cs) (t, ns # cs)"
| cat: "\<lbrakk>ms \<noteq> []; m_cat ms ns s = Some (t, os)\<rbrakk> \<Longrightarrow> mb_step max_protohdr (s, ms # ns # cs) (t, os # cs)"
| adj: "mb_step max_protohdr (s, ms # cs) (m_adj ms req s, ms # cs)"

section \<open>One chain for another\<close>

definition replaced :: "nat list \<Rightarrow> mb_state \<Rightarrow> nat list \<Rightarrow> mb_state \<Rightarrow> bool" where
  "replaced ms s ns t \<longleftrightarrow> mb_ok t \<and> mchain_ok t ns \<and> (\<forall>x. live t x \<longleftrightarrow> x \<in> set ns \<or> live s x \<and> x \<notin> set ms) \<and>
     (\<forall>x \<in> set ns. x \<in> set ms \<or> \<not> live s x) \<and> kept (Collect (live s) - set ms) s t"

lemma replacedI:
  "rebuilt ms s ns t \<Longrightarrow> replaced ms s ns t" "prepended k ms s ns t \<Longrightarrow> replaced ms s ns t"
  "loses (set ms) s t \<Longrightarrow> replaced ms s [] t" "extended [] bs s ns t \<Longrightarrow> replaced [] s ns t"
  "stays s t \<Longrightarrow> replaced [] s [] t"
  by (auto simp: rebuilt_def prepended_def loses_def extended_def replaced_def mchain_ok_def stays_def kept_def)

lemma adjusted_replaced: "\<lbrakk>mb_ok s; mchain_ok s ms; adjusted ms bs s t\<rbrakk> \<Longrightarrow> replaced ms s ms t"
  by (auto simp: adjusted_def replaced_def kept_def mchain_ok_def)

lemma gains_replaced:
  assumes "gains n s t" and "fits (set_len n k t) n"
  shows "replaced [] s [n] (set_len n k t)"
proof -
  have T: "trimmed {n} t (set_len n k t)"
    by simp
  note G = gainsD [OF assms(1)]
  have "kept (Collect (live s)) s (set_len n k t)"
    using G(2) kept_trans [OF gains_kept [OF assms(1)] trimmed_kept [OF T]] by auto
  then show ?thesis
    using assms(2) G(1-3) trimmed_ok [OF T] trimmed_sel(7) [OF T] by (auto simp: replaced_def mchain_ok_def)
qed

lemma sys_replace:
  assumes "sys_ok (s, ms # cs)" and "replaced ms s ns t"
  shows "sys_ok (t, ns # cs)"
proof -
  have O: "mchain_ok s (concat cs)" "set ms \<inter> set (concat cs) = {}" "\<And>x. live s x \<Longrightarrow> x \<in> set ms \<or> x \<in> set (concat cs)"
    using assms(1) by (auto simp: sys_ok_def mchain_ok_append)
  have R: "mb_ok t" "mchain_ok t ns" "\<And>x. live t x \<longleftrightarrow> x \<in> set ns \<or> live s x \<and> x \<notin> set ms"
    "\<And>x. x \<in> set ns \<Longrightarrow> x \<in> set ms \<or> \<not> live s x" "kept (Collect (live s) - set ms) s t"
    using assms(2) by (simp_all add: replaced_def)
  have sub: "set (concat cs) \<subseteq> Collect (live s) - set ms"
    using O(1,2) by (auto simp: mchain_ok_def)
  then have "set ns \<inter> set (concat cs) = {}"
    using R(4) by blast
  then show ?thesis
    using R(1-3) O(1,3) kept_bytes(2) [OF R(5) sub] by (auto simp: sys_ok_def mchain_ok_append)
qed

lemma sys_null: "sys_ok (s, [] # cs) \<longleftrightarrow> sys_ok (s, cs)"
  by (simp add: sys_ok_def)

lemma sys_order:
  assumes "sys_ok (s, cs)" and "mset cs' = mset cs"
  shows "sys_ok (s, cs')"
proof -
  have "mset (concat cs') = mset (concat cs)"
    using assms(2) by (metis mset_concat mset_map sum_mset_sum_list)
  then have "set (concat cs') = set (concat cs)" "distinct (concat cs') = distinct (concat cs)"
    by (metis set_mset_mset, metis mset_eq_imp_distinct_iff)
  then show ?thesis
    using assms(1) by (simp add: sys_ok_def mchain_ok_def)
qed

lemma get_fits:
  assumes "mb_ok t" and "\<not> has M_EXT (mb t n)" and "m_data (mb t n) + k \<le> MLEN" and "has M_PKTHDR (mb t n) \<longrightarrow> m_pktdat \<le> m_data (mb t n)"
  shows "fits (set_len n k t) n"
  using assms mb_okD(8) [OF assms(1), of n] by (simp add: fits_def memory_def)

lemma replaced_ph_len:
  assumes "n \<in> set ns" and "replaced ms s ns t"
  shows "replaced ms s ns (set_ph_len n j t)"
proof -
  have "n \<in> set ms \<or> \<not> live s n"
    using assms by (simp add: replaced_def)
  moreover have "mchain_ok (set_ph_len n j t) ns = mchain_ok t ns"
    by (simp add: mchain_ok_def ph_len_bytes)
  ultimately show ?thesis
    using assms by (auto simp: replaced_def ph_len_bytes ph_len_ok kept_def)
qed

lemma cluster_replaced:
  assumes "mb_ok s" and "live s n" and "\<not> has M_EXT (mb s n)" and "has M_EXT (mb (MCLGET n s) n)"
    and "k \<le> length (memory (MCLGET n s) n)"
  shows "replaced [n] s [n] (set_len n k (MCLGET n s))"
proof -
  define t where "t = MCLGET n s"
  note M = MCLGET_ok [OF assms(1-3), folded t_def]
  have T: "trimmed {n} t (set_len n k t)"
    by simp
  have "m_data (mb t n) = 0"
    using M(4) assms(3,4) by (auto simp: t_def)
  then have "fits (set_len n k t) n"
    using assms(4,5) by (simp add: fits_def memory_def t_def)
  moreover have "kept (Collect (live s) - set [n]) s (set_len n k t)"
    by (rule kept_subset [OF kept_trans [OF M(3) trimmed_kept [OF T]]]) auto
  ultimately show ?thesis
    using M(1,2) assms(2) trimmed_ok [OF T] trimmed_sel(7) [OF T] unfolding t_def [symmetric]
    by (auto simp: replaced_def mchain_ok_def)
qed

section \<open>Calls on a chain\<close>

text \<open>What a call owes that takes a chain and gives one: it returns, and replaces the one chain by the other.\<close>

locale chain_call =
  fixes allowed :: bool
    and call :: "nat list \<Rightarrow> mb_state \<Rightarrow> (mb_state \<times> nat list) option"
  assumes law: "\<lbrakk>allowed; mb_ok s; mchain_ok s ms; ms \<noteq> []\<rbrakk> \<Longrightarrow> \<exists>t ns. call ms s = Some (t, ns) \<and> replaced ms s ns t"
begin

lemma returns:
  assumes "allowed" and "sys_ok (s, cs)" and "ms \<in> set cs" and "ms \<noteq> []"
  shows "call ms s \<noteq> None"
proof -
  from split_list [OF assms(3)] obtain as bs where "cs = as @ ms # bs"
    by blast
  then have "mb_ok s" "mchain_ok s ms"
    using assms(2) by (simp_all add: sys_ok_def mchain_ok_append)
  then show ?thesis
    using law [OF assms(1) _ _ assms(4)] by fastforce
qed

lemma keeps_sys:
  assumes "allowed" and "sys_ok (s, ms # cs)" and "ms \<noteq> []" and "call ms s = Some (t, ns)"
  shows "sys_ok (t, ns # cs)"
proof -
  have "mb_ok s" "mchain_ok s ms"
    using assms(2) by (simp_all add: sys_ok_def mchain_ok_append)
  then have "replaced ms s ns t"
    using law [OF assms(1) _ _ assms(3), of s] assms(4) by auto
  then show ?thesis
    using sys_replace [OF assms(2)] by blast
qed

lemma others_keep:
  assumes "allowed" and "sys_ok (s, ms # cs)" and "ms \<noteq> []" and "call ms s = Some (t, ns)" and "os \<in> set cs"
  shows "chain_bytes t os = chain_bytes s os"
proof -
  have S: "mb_ok s" "mchain_ok s ms" "mchain_ok s (concat cs)" "set ms \<inter> set (concat cs) = {}"
    using assms(2) by (auto simp: sys_ok_def mchain_ok_append)
  then have "replaced ms s ns t"
    using law [OF assms(1) _ _ assms(3), of s] assms(4) by auto
  moreover have "set os \<subseteq> Collect (live s) - set ms"
    using S(3,4) assms(5) by (auto simp: mchain_ok_def)
  ultimately show ?thesis
    using kept_bytes(1) by (auto simp: replaced_def)
qed

end

interpretation pullup_call: chain_call True "\<lambda>ms. m_pullup max_protohdr ms len" for max_protohdr len
proof unfold_locales
  show "\<exists>t ns. m_pullup max_protohdr ms len s = Some (t, ns) \<and> replaced ms s ns t" if "mb_ok s" "mchain_ok s ms" "ms \<noteq> []" for s ms
    using m_pullup_ok [OF that, of max_protohdr len] replacedI(1,3) by blast
qed

interpretation prepend_call: chain_call "plen \<le> MHLEN" "\<lambda>ms. M_PREPEND ms plen" for plen
proof unfold_locales
  show "\<exists>t ns. M_PREPEND ms plen s = Some (t, ns) \<and> replaced ms s ns t"
    if "plen \<le> MHLEN" "mb_ok s" "mchain_ok s ms" "ms \<noteq> []" for s ms
    using M_PREPEND_ok [OF that(2-4,1)] replacedI(2,3) by blast
qed

interpretation adj_call: chain_call True "\<lambda>ms s. Some (m_adj ms req s, ms)" for req
proof unfold_locales
  show "\<exists>t ns. Some (m_adj ms req s, ms) = Some (t, ns) \<and> replaced ms s ns t" if "mb_ok s" "mchain_ok s ms" for s ms
    using adjusted_replaced [OF that m_adj_bytes [OF that(2)]] by blast
qed

interpretation free_call: chain_call True "\<lambda>ms s. map_option (\<lambda>t. (t, [])) (m_freem ms s)"
proof unfold_locales
  show "\<exists>t ns. map_option (\<lambda>t. (t, [])) (m_freem ms s) = Some (t, ns) \<and> replaced ms s ns t"
    if "mb_ok s" "mchain_ok s ms" for s ms
    using m_freem_ok [OF that(1), of ms] that(2) replacedI(3) by (auto simp: mchain_ok_def)
qed

section \<open>Nothing is lost\<close>

lemma step_ok:
  assumes "mb_step max_protohdr S S'" and "sys_ok S"
  shows "sys_ok S'"
  using assms
proof cases
  case (order cs' cs s)
  then show ?thesis
    using sys_order assms(2) by simp
next
  case (get type s t n k cs)
  then have S: "mb_ok s" "sys_ok (s, [] # cs)"
    using assms(2) by (simp_all add: sys_ok_def)
  have "gains n s t" "m_data (mb t n) = 0" "m_flags (mb t n) = 0"
    using MGET_ok [OF S(1) get(3,4)] by simp_all
  then have "fits (set_len n k t) n"
    using get(5) gainsD(1) by (intro get_fits) (auto simp: has_def)
  then show ?thesis
    using sys_replace [OF S(2) gains_replaced] \<open>gains n s t\<close> get(2) by simp
next
  case (get_fails type s t cs)
  then have S: "mb_ok s" "sys_ok (s, [] # cs)"
    using assms(2) by (simp_all add: sys_ok_def)
  have "stays s t"
    using MGET_ok [OF S(1) get_fails(3,4)] by simp
  then show ?thesis
    using sys_replace [OF S(2) replacedI(5)] get_fails(2) sys_null by simp
next
  case (gethdr type s t n k cs j)
  then have S: "mb_ok s" "sys_ok (s, [] # cs)"
    using assms(2) by (simp_all add: sys_ok_def)
  have G: "gains n s t" "m_data (mb t n) = m_pktdat" "m_flags (mb t n) = M_PKTHDR"
    using MGETHDR_ok [OF S(1) gethdr(3,4)] by simp_all
  then have "fits (set_len n k t) n"
    using gethdr(5) gainsD(1) by (intro get_fits) (auto simp: has_def m_pktdat_def MHLEN_def MLEN_def)
  then have "replaced [] s [n] (set_ph_len n j (set_len n k t))"
    using replaced_ph_len [OF _ gains_replaced [OF G(1)]] by simp
  then show ?thesis
    using sys_replace [OF S(2)] gethdr(2) by simp
next
  case (cluster s n t k cs)
  then have S: "mb_ok s" "sys_ok (s, [n] # cs)" "live s n"
    using assms(2) by (simp_all add: sys_ok_def mchain_ok_def)
  then show ?thesis
    using sys_replace [OF S(2) cluster_replaced [OF S(1,3) cluster(3)]] cluster by simp
next
  case (grow nmbclusters kmem ncl nowait s t r cs)
  then have S: "mb_ok s" "sys_ok (s, [] # cs)"
    using assms(2) by (simp_all add: sys_ok_def)
  have "mb_ok t" "mb t = mb s" "buf t = buf s"
    using m_clalloc_ok [OF S(1) grow(4), of nmbclusters ncl nowait] grow(3) by auto
  then have "stays s t"
    by (simp add: stays_def live_def)
  then show ?thesis
    using sys_replace [OF S(2) replacedI(5)] grow(2) sys_null by simp
next
  case (free ms s t cs)
  then have S: "sys_ok (s, ms # cs)" "mb_ok s" "mchain_ok s ms"
    using assms(2) by (simp_all add: sys_ok_def mchain_ok_append)
  then have "loses (set ms) s t"
    using m_freem_ok [of s ms] free(3) by (auto simp: mchain_ok_def)
  then show ?thesis
    using sys_replace [OF S(1) replacedI(3)] free(2) sys_null by simp
next
  case (copy ms off len s t ns cs)
  then have S: "sys_ok (s, [] # ms # cs)" "mb_ok s" "mchain_ok s ms"
    using assms(2) by (simp_all add: sys_ok_def mchain_ok_append)
  have "replaced [] s ns t"
    using m_copym_ok [OF S(2,3) copy(3,5,4)] copy(6) replacedI(3) [of "[]"] replacedI(4) by auto
  then show ?thesis
    using sys_replace [OF S(1)] copy(2) by simp
next
  case (pullup ms len s t ns cs)
  then show ?thesis
    using pullup_call.keeps_sys assms(2) by simp
next
  case (prepend ms plen s t ns cs)
  then show ?thesis
    using prepend_call.keeps_sys [of plen s ms cs t ns] assms(2) by simp
next
  case (cat ms ns s t os cs)
  then have S: "sys_ok (s, (ms @ ns) # cs)" "mb_ok s" "mchain_ok s (ms @ ns)"
    using assms(2) by (auto simp: sys_ok_def mchain_ok_append)
  have "replaced (ms @ ns) s os t"
    using m_cat_ok [OF S(2,3) cat(3)] cat(4) replacedI(1) by auto
  then show ?thesis
    using sys_replace [OF S(1)] cat(2) by simp
next
  case (adj s ms cs req)
  then show ?thesis
    using adj_call.keeps_sys [where s = s and ms = ms and cs = cs] assms(2) by (cases "ms = []") (simp_all add: m_adj_def)
qed

inductive mb_steps :: "nat \<Rightarrow> mb_system \<Rightarrow> mb_system \<Rightarrow> bool" for max_protohdr :: nat where
  refl: "mb_steps max_protohdr S S"
| step: "\<lbrakk>mb_steps max_protohdr S S'; mb_step max_protohdr S' S''\<rbrakk> \<Longrightarrow> mb_steps max_protohdr S S''"

lemma steps_ok: "\<lbrakk>mb_steps max_protohdr S S'; sys_ok S\<rbrakk> \<Longrightarrow> sys_ok S'"
  by (induction rule: mb_steps.induct) (auto intro: step_ok)

end
