(* ===== verification/Mbuf_Split.thy ===== *)
theory Mbuf_Split
  imports Mbuf_System
begin

text \<open>
  \<open>m_split\<close> of an mbuf with a cluster: the data is divided, but the cluster gets a second count that nothing takes back.
\<close>

lemma split_cluster:
  assumes "mb_ok s" and "mchain_ok s [m]" and "has M_EXT (mb s m)" and "\<not> has M_PKTHDR (mb s m)"
    and "users s (ext_buf (m_ext (mb s m))) = {m}" and "\<not> ext_free (m_ext (mb s m))"
    and "len < m_len (mb s m)" and "mfree s \<noteq> []"
  defines "e \<equiv> ext_buf (m_ext (mb s m))"
  shows "\<exists>s1 n. m_split 2 [m] len s = Some (s1, [m], [n]) \<and> m \<noteq> n \<and> \<not> live s n \<and>
    chain_bytes s1 [m] = take len (chain_bytes s [m]) \<and> chain_bytes s1 [n] = drop len (chain_bytes s [m]) \<and>
    (\<forall>x. live s1 x \<longleftrightarrow> x = n \<or> live s x) \<and> (\<forall>x. x \<noteq> m \<and> x \<noteq> n \<longrightarrow> (live s x \<longrightarrow> mb s1 x = mb s x)) \<and>
    has M_EXT (mb s1 m) \<and> has M_EXT (mb s1 n) \<and> ext_buf (m_ext (mb s1 m)) = e \<and> ext_buf (m_ext (mb s1 n)) = e \<and>
    \<not> ext_free (m_ext (mb s1 m)) \<and> \<not> ext_free (m_ext (mb s1 n)) \<and>
    forward s1 m = m \<and> forward s1 n = m \<and> backward s1 n = m \<and>
    mclrefcnt s1 e = 2 \<and> e \<notin> set (mclfree s1) \<and> mtocl m \<noteq> e \<and> mtocl n \<noteq> e"
proof -
  have m: "live s m" "fits s m"
    using assms(2) by (simp_all add: mchain_ok_def)
  obtain xs where xs: "ring (forward s) (backward s) xs" "set xs = users s e" "e \<notin> set (mclfree s)" "\<not> carved s e"
    using buffer_okE [OF assms(1) m(1) assms(3)] unfolding e_def by metis
  have "xs = [m]"
    using xs(1,2) assms(5) unfolding e_def by (cases xs; cases "tl xs") (auto simp: ring_def)
  then have f: "forward s m = m" "backward s m = m"
    using xs(1) by (simp_all add: ring_def)
  have "m_type (mb s m) \<noteq> MT_FREE"
    using m(1) by (simp add: live_def)
  from assms(1) this show ?thesis
  proof (cases rule: MGET_cases)
    case (none t)
    then show ?thesis
      using assms(8) by simp
  next
    case (some t n)
    note G = gainsD [OF some(2)]
    have tm: "mb t m = mb s m" "m \<noteq> n"
      using G(2,4) m(1) by auto
    have ut: "users t e = {m}"
    proof -
      have "x \<in> users t e \<longleftrightarrow> x \<in> users s e" for x
        using G(3,4) [of x] some(4) by (cases "x = n") (auto simp: users_def has_def G(2))
      then show ?thesis
        using assms(5) e_def by blast
    qed
    have te: "mclrefcnt t e = 1" "e \<notin> set (mclfree t)" "\<not> carved t e"
      using buffer_okE [OF G(1), of m] tm(1) ut assms(3,6) G(3) [of m] m(1) unfolding e_def by metis+
    then have clusters: "mtocl m \<noteq> e" "mtocl n \<noteq> e"
      using G(3) m(1) by (auto simp: carved_def)
    define u where "u = set_data n (m_data (mb t n) + align MLEN (m_len (mb s m) - len)) t"
    define s1 where "s1 = set_len m len (set_len n (m_len (mb s m) - len) (set_data n (m_data (mb s m) + len)
      (put m ((mb s m)\<lparr>m_ext := (m_ext (mb s m))\<lparr>ext_size := 0\<rparr>\<rparr>) (mcl_add e 1
        (put n ((mb u n)\<lparr>m_flags := m_flags (mb u n) OR M_EXT, m_ext := m_ext (mb s m)\<rparr>) u)))))"
    have um: "mb u m = mb s m"
      using tm by (simp add: u_def)
    have "split_data m n len (m_len (mb s m) - len) u = Some s1"
      using assms(3) um tm(2) by (simp add: split_data_def Let_def s1_def e_def)
    then have split: "m_split 2 [m] len s = Some (s1, [m], [n])"
      using assms(4,7) some(1) by (simp add: numeral_2_eq_2 Let_def u_def)
    have sel: "mb s1 n = (mb u n)\<lparr>m_flags := m_flags (mb u n) OR M_EXT, m_ext := m_ext (mb s m), m_data := m_data (mb s m) + len,
        m_len := m_len (mb s m) - len\<rparr>"
      "mb s1 m = (mb s m)\<lparr>m_ext := (m_ext (mb s m))\<lparr>ext_size := 0\<rparr>, m_len := len\<rparr>"
      "x \<noteq> m \<Longrightarrow> x \<noteq> n \<Longrightarrow> mb s1 x = mb t x" "buf s1 = buf s" "mclfree s1 = mclfree t" "mclrefcnt s1 = (mclrefcnt t)(e := 2)" for x
      using tm(2) te(1) G(5) by (auto simp: s1_def u_def put_def intro: mbuf.equality)
    have ext: "has M_EXT (mb s1 m)" "has M_EXT (mb s1 n)" "m_type (mb s1 n) = m_type (mb s m)"
      using assms(3) some(3) by (simp_all add: sel has_def word_ao_absorbs u_def)
    have "memory s1 m = memory s m" "memory s1 n = memory s m"
      using ext assms(3) by (simp_all add: memory_def sel)
    then have "bytes s1 m = take len (bytes s m)" "bytes s1 n = drop len (bytes s m)"
      using assms(7) by (simp_all add: bytes_def sel drop_take add.commute)
    moreover have "live s1 x \<longleftrightarrow> x = n \<or> live s x" for x
      using G(3) [of x] sel(2) sel(3) [of x] ext(3) m(1) by (cases "x = m"; cases "x = n") (auto simp: live_def)
    ultimately show ?thesis
      using split tm G(2,4) ext f sel te clusters assms(6) unfolding e_def [symmetric]
      by (intro exI [of _ s1] exI [of _ n]) (auto simp: e_def)
  qed
qed

text \<open>Whichever of the two goes first: the one leaves the count at one, the other only takes itself out of a ring.\<close>

lemma free_first:
  assumes "live s m" and "has M_EXT (mb s m)" and "\<not> ext_free (m_ext (mb s m))" and "forward s m = m"
    and "mclrefcnt s (ext_buf (m_ext (mb s m))) = 2" and "mtocl m \<noteq> ext_buf (m_ext (mb s m))"
  shows "\<exists>t. m_free m s = Some t \<and> mb t m = (mb s m)\<lparr>m_type := MT_FREE, m_flags := 0, m_len := 0\<rparr> \<and>
    (\<forall>x. x \<noteq> m \<longrightarrow> mb t x = mb s x) \<and> mclfree t = mclfree s \<and> mclrefcnt t (ext_buf (m_ext (mb s m))) = 1"
  using assms by (simp add: m_free_def live_def drop_ext_def MCLHASREFERENCE_def Let_def)

lemma free_stray:
  assumes "live s n" and "has M_EXT (mb s n)" and "forward s n = m" and "backward s n = m" and "m \<noteq> n" and "mtocl n \<noteq> e"
  shows "\<exists>t. m_free n s = Some t \<and> \<not> live t n \<and> core (mb t m) = core (mb s m) \<and> forward t m = m \<and>
    (\<forall>x. x \<noteq> m \<and> x \<noteq> n \<longrightarrow> mb t x = mb s x) \<and> mclfree t = mclfree s \<and> mclrefcnt t e = mclrefcnt s e"
proof -
  define u where "u = remque n s"
  have ne: "forward s n \<noteq> n"
    using assms(3,5) by simp
  note R = remque_sel [OF ne, folded u_def]
  have out: "mb u x = mb s x" if "x \<noteq> m" for x
    using that assms(3-5) by (simp add: u_def remque_def Let_def set_forward_def set_backward_def)
  define t where "t = (put n ((mb u n)\<lparr>m_type := MT_FREE, m_flags := 0, m_len := 0\<rparr>) (mcl_add (mtocl n) (-1) u))\<lparr>mfree := n # mfree u\<rparr>"
  have "m_free n s = Some t"
    using assms(1,2) ne by (simp add: m_free_def live_def drop_ext_def MCLHASREFERENCE_def Let_def u_def t_def)
  moreover have "\<not> live t n" "core (mb t m) = core (mb u m)" "forward t m = forward u m" "mclfree t = mclfree u"
    "mclrefcnt t e = mclrefcnt u e" "\<And>x. x \<noteq> n \<Longrightarrow> mb t x = mb u x"
    using assms(5,6) by (simp_all add: t_def live_def)
  moreover have "forward u m = ((forward s)(backward s n := forward s n)) m"
    by (rule R(1))
  then have "forward u m = m"
    unfolding assms(3,4) by simp
  ultimately show ?thesis
    using R(3,6,7) out by auto
qed

lemma free_halves:
  assumes "live s m" and "live s n" and "m \<noteq> n" and "has M_EXT (mb s m)" and "has M_EXT (mb s n)"
    and "\<not> ext_free (m_ext (mb s m))" and "forward s m = m" and "forward s n = m" and "backward s n = m"
    and "mclrefcnt s (ext_buf (m_ext (mb s m))) = 2" and "mtocl m \<noteq> ext_buf (m_ext (mb s m))"
    and "mtocl n \<noteq> ext_buf (m_ext (mb s m))" and "ps = [m, n] \<or> ps = [n, m]"
  shows "\<exists>t. m_freem ps s = Some t \<and> \<not> live t m \<and> \<not> live t n \<and> (\<forall>x. x \<noteq> m \<and> x \<noteq> n \<longrightarrow> mb t x = mb s x) \<and>
    mclfree t = mclfree s \<and> mclrefcnt t (ext_buf (m_ext (mb s m))) = 1"
  using assms(13)
proof
  assume ps: "ps = [m, n]"
  obtain u where u: "m_free m s = Some u" "mb u m = (mb s m)\<lparr>m_type := MT_FREE, m_flags := 0, m_len := 0\<rparr>"
    "\<And>x. x \<noteq> m \<Longrightarrow> mb u x = mb s x" "mclfree u = mclfree s" "mclrefcnt u (ext_buf (m_ext (mb s m))) = 1"
    using free_first [OF assms(1,4,6,7,10,11)] by blast
  have "live u n" "has M_EXT (mb u n)" "forward u n = m" "backward u n = m"
    using u(3) assms(2,3,5,8,9) by (simp_all add: live_def)
  then obtain t where t: "m_free n u = Some t" "\<not> live t n" "core (mb t m) = core (mb u m)"
    "\<And>x. x \<noteq> m \<Longrightarrow> x \<noteq> n \<Longrightarrow> mb t x = mb u x" "mclfree t = mclfree u"
    "mclrefcnt t (ext_buf (m_ext (mb s m))) = mclrefcnt u (ext_buf (m_ext (mb s m)))"
    using free_stray [OF _ _ _ _ assms(3,12)] by blast
  have "\<not> live t m"
    using coreD(3) [OF t(3)] u(2) by (simp add: live_def)
  then show ?thesis
    using ps u t by simp
next
  assume ps: "ps = [n, m]"
  obtain u where u: "m_free n s = Some u" "\<not> live u n" "core (mb u m) = core (mb s m)" "forward u m = m"
    "\<And>x. x \<noteq> m \<Longrightarrow> x \<noteq> n \<Longrightarrow> mb u x = mb s x" "mclfree u = mclfree s"
    "mclrefcnt u (ext_buf (m_ext (mb s m))) = mclrefcnt s (ext_buf (m_ext (mb s m)))"
    using free_stray [OF assms(2,5,8,9,3,12)] by blast
  note C = coreD [OF u(3)]
  have "live u m" "has M_EXT (mb u m)" "\<not> ext_free (m_ext (mb u m))" "ext_buf (m_ext (mb u m)) = ext_buf (m_ext (mb s m))"
    using C(3,6,7,8) assms(1,4,6) by (simp_all add: live_def)
  then obtain t where "m_free m u = Some t" "mb t m = (mb u m)\<lparr>m_type := MT_FREE, m_flags := 0, m_len := 0\<rparr>"
    "\<And>x. x \<noteq> m \<Longrightarrow> mb t x = mb u x" "mclfree t = mclfree u" "mclrefcnt t (ext_buf (m_ext (mb s m))) = 1"
    using free_first [of u m] u(4,7) assms(10,11) by auto
  then show ?thesis
    using ps u(1,2,5,6) assms(3) by (simp add: live_def)
qed

end
