(* ===== verification/Mbuf_Props.thy ===== *)
theory Mbuf_Props
  imports Mbuf_Split
begin

text \<open>
  The properties of the mbufs: nothing is lost, copies and changes of chains have exactly the bytes they promise,
  and how \<open>m_split\<close> loses a cluster.
\<close>

section \<open>A system for the witnesses\<close>

text \<open>After the boot, a packet of seven bytes: three in a cluster under a packet header, four in an mbuf of its own.\<close>

definition sample_boot :: "(nat \<Rightarrow> u8 list) \<Rightarrow> mb_state" where
  "sample_boot bufs = the (mbinit 512 (\<lambda>_. Some 0) 2 bufs)"

definition sample_hdr :: "(nat \<Rightarrow> u8 list) \<Rightarrow> mb_state" where
  "sample_hdr bufs = set_ph_len 127 7 (set_len 127 0 (fst (MGETHDR 1 (sample_boot bufs))))"

definition sample_cluster :: "(nat \<Rightarrow> u8 list) \<Rightarrow> mb_state" where
  "sample_cluster bufs = set_len 127 3 (MCLGET 127 (sample_hdr bufs))"

definition mb_sample :: "(nat \<Rightarrow> u8 list) \<Rightarrow> mb_state" where
  "mb_sample bufs = set_len 126 4 (fst (MGET 1 (sample_cluster bufs)))"

lemma sample_some: "mbinit 512 (\<lambda>_. Some 0) 2 bufs \<noteq> None" by code_simp
lemma sample_get_hdr: "snd (MGETHDR 1 (sample_boot bufs)) = Some 127" by code_simp
lemma sample_no_ext: "\<not> has M_EXT (mb (sample_hdr bufs) 127)" by code_simp
lemma sample_ext: "has M_EXT (mb (MCLGET 127 (sample_hdr bufs)) 127)" by code_simp
lemma sample_buf: "buf (MCLGET 127 (sample_hdr bufs)) b = bufs b" by code_simp
lemma sample_mget: "snd (MGET 1 (sample_cluster bufs)) = Some 126" by code_simp
lemma sample_lens: "map (\<lambda>m. m_len (mb (mb_sample bufs) m)) [126, 127] = [4, 3]" by code_simp

lemma sample_steps:
  assumes "\<And>b. length (bufs b) = MCLBYTES"
  shows "mb_steps 40 (sample_boot bufs, []) (mb_sample bufs, [[126], [127]])"
proof -
  let ?b = "sample_boot bufs" and ?h = "sample_hdr bufs" and ?c = "sample_cluster bufs"
  have "mb_step 40 (?b, []) (?h, [[127]])"
    unfolding sample_hdr_def by (rule gethdr [where type = 1]) (simp_all add: sample_get_hdr prod_eq_iff)
  moreover have "mb_step 40 (?h, [[127]]) (?c, [[127]])"
    unfolding sample_cluster_def by (rule cluster [OF sample_no_ext HOL.refl sample_ext]) (simp add: sample_ext memory_def sample_buf assms MCLBYTES_def)
  moreover have "mb_step 40 (?c, [[127]]) (mb_sample bufs, [[126], [127]])"
    unfolding mb_sample_def by (rule get [where type = 1]) (simp_all add: sample_mget prod_eq_iff MLEN_def MSIZE_def)
  ultimately show ?thesis
    by (meson mb_steps.intros)
qed

lemma sample_boot_init: "mbinit 512 (\<lambda>_. Some 0) 2 bufs = Some (sample_boot bufs)"
  using sample_some by (simp add: sample_boot_def)

lemma boot_sys: "mbinit nmbclusters kmem ncl bufs = Some s \<Longrightarrow> sys_ok (s, [])"
  using mbinit_ok by (simp add: sys_ok_def mchain_ok_def)

text \<open>The buffers hold a byte pattern.\<close>

abbreviation sample_bufs :: "nat \<Rightarrow> u8 list" where "sample_bufs \<equiv> \<lambda>b. replicate MCLBYTES (of_nat b)"

lemma sample_sys: "sys_ok (mb_sample sample_bufs, [[126], [127]])"
  by (rule steps_ok [OF sample_steps boot_sys [OF sample_boot_init]]) simp

lemma sample_chain:
  "mb_ok (mb_sample sample_bufs)" "mchain_ok (mb_sample sample_bufs) [127, 126]" "length (chain_bytes (mb_sample sample_bufs) [127, 126]) = 7"
proof -
  show "mb_ok (mb_sample sample_bufs)" "mchain_ok (mb_sample sample_bufs) [127, 126]"
    using sample_sys by (auto simp: sys_ok_def mchain_ok_def)
  then show "length (chain_bytes (mb_sample sample_bufs) [127, 126]) = 7"
    using sample_lens [of sample_bufs] length_chain_bytes [of "[127, 126]" "mb_sample sample_bufs"] by (simp add: mchain_ok_def)
qed

section \<open>Nothing is lost\<close>

text \<open>
  C36. After any sequence of allocations, growth of the pool, copies, pullups, prepends, concatenations, trims and
  releases of chains, the mbufs in use are exactly those of the chains that somebody holds, each in one place only and
  with its data inside its buffer; every mapped cluster is free, cut into mbufs or in use by one of these chains; a
  cluster in use counts one however many mbufs share it; and whatever is held can be freed and pulled up without a panic.
\<close>

theorem mbufs_not_lost:
  assumes "mbinit nmbclusters kmem ncl bufs = Some s0" and "mb_steps max_protohdr (s0, []) (s, cs)"
  shows "distinct (concat cs) \<and> (\<forall>x. live s x \<longleftrightarrow> x \<in> set (concat cs)) \<and> (\<forall>x. x \<in> set (concat cs) \<longrightarrow> fits s x) \<and>
    (\<forall>c. 0 \<le> mclrefcnt s c \<longrightarrow> c \<in> set (mclfree s) \<or> carved s c \<or> users s c \<noteq> {}) \<and>
    (\<forall>x. x \<in> set (concat cs) \<and> has M_EXT (mb s x) \<and> \<not> ext_free (m_ext (mb s x)) \<longrightarrow> mclrefcnt s (ext_buf (m_ext (mb s x))) = 1) \<and>
    (\<forall>ms. ms \<in> set cs \<longrightarrow> m_freem ms s \<noteq> None \<and> (ms \<noteq> [] \<longrightarrow> (\<forall>len. m_pullup max_protohdr ms len s \<noteq> None)))"
proof -
  have sys: "sys_ok (s, cs)"
    using steps_ok [OF assms(2) boot_sys [OF assms(1)]] .
  then have S: "mb_ok s" "mchain_ok s (concat cs)" "\<And>x. live s x \<Longrightarrow> x \<in> set (concat cs)"
    by (simp_all add: sys_ok_def)
  have "mclrefcnt s (ext_buf (m_ext (mb s x))) = 1"
    if "x \<in> set (concat cs)" "has M_EXT (mb s x)" "\<not> ext_free (m_ext (mb s x))" for x
    using buffer_okE [OF S(1) mchain_okD(2) [OF S(2) that(1)] that(2)] that(3) by metis
  moreover have "m_freem ms s \<noteq> None \<and> (ms \<noteq> [] \<longrightarrow> (\<forall>len. m_pullup max_protohdr ms len s \<noteq> None))" if "ms \<in> set cs" for ms
    using free_call.returns [OF TrueI sys that] pullup_call.returns [OF TrueI sys that] by (cases "ms = []") simp_all
  ultimately show ?thesis
    using S mchain_okD [OF S(2)] mb_okD(9) [OF S(1)] by blast
qed

lemma mbufs_not_lost_witness: "distinct [126, 127 :: nat] \<and> (\<forall>x. live (mb_sample sample_bufs) x \<longleftrightarrow> x \<in> {126, 127})"
  using mbufs_not_lost [OF sample_boot_init sample_steps, of sample_bufs] by simp

section \<open>Copies\<close>

text \<open>
  C37. \<open>m_copym\<close> of a range inside a chain returns; the copy consists of new mbufs and holds exactly the bytes of the
  range, or is empty, when nothing was asked for or fewer mbufs were free than the chain has; the original keeps its
  bytes, and freeing the copy gives the state back in which just the original's mbufs were in use.
\<close>

theorem m_copym_exact:
  assumes "mb_ok s" and "mchain_ok s ms" and "ms \<noteq> []" and "length (chain_bytes s ms) < M_COPYALL"
    and "off + len \<le> length (chain_bytes s ms) \<or> len = M_COPYALL \<and> off \<le> length (chain_bytes s ms)"
  shows "\<exists>s' ns s''. m_copym ms (int off) (int len) s = Some (s', ns) \<and>
    (ns \<noteq> [] \<longrightarrow> chain_bytes s' ns = take len (drop off (chain_bytes s ms)) \<and> mchain_ok s' ns) \<and>
    (ns = [] \<longrightarrow> len = 0 \<or> off = length (chain_bytes s ms) \<or> length (mfree s) < length ms) \<and>
    (\<forall>x. x \<in> set ns \<longrightarrow> \<not> live s x) \<and> chain_bytes s' ms = chain_bytes s ms \<and>
    m_freem ns s' = Some s'' \<and> mb_ok s'' \<and> (\<forall>x. live s'' x = live s x) \<and> chain_bytes s'' ms = chain_bytes s ms"
proof -
  obtain s' ns where C: "m_copym ms (int off) (int len) s = Some (s', ns)"
    "extended [] (take len (drop off (chain_bytes s ms))) s ns s' \<or> ns = [] \<and> loses {} s s' \<and> length (mfree s) < length ms"
    using m_copym_ok [OF assms] by blast
  have R: "mb_ok s'" "mchain_ok s' ns" "\<And>x. live s' x \<longleftrightarrow> live s x \<or> x \<in> set ns" "\<And>x. x \<in> set ns \<Longrightarrow> \<not> live s x"
    "kept (Collect (live s)) s s'"
  proof -
    consider "extended [] (take len (drop off (chain_bytes s ms))) s ns s'" | "ns = []" "loses {} s s'"
      using C(2) by blast
    then show "mb_ok s'" "mchain_ok s' ns" "\<And>x. live s' x \<longleftrightarrow> live s x \<or> x \<in> set ns" "\<And>x. x \<in> set ns \<Longrightarrow> \<not> live s x"
      "kept (Collect (live s)) s s'"
      by (cases; simp add: extended_def loses_def mchain_ok_def)+
  qed
  obtain s'' where F: "m_freem ns s' = Some s''" "loses (set ns) s' s''"
    using m_freem_ok [OF R(1), of ns] R(2) by (auto simp: mchain_ok_def)
  have ms: "set ms \<subseteq> Collect (live s)"
    using assms(2) by (auto simp: mchain_ok_def)
  have "Collect (live s) \<subseteq> Collect (live s') - set ns"
    using R(3,4) by auto
  then have "kept (Collect (live s)) s s''"
    using kept_trans [OF R(5)] F(2) by (auto simp: loses_def)
  then have "chain_bytes s'' ms = chain_bytes s ms"
    using kept_bytes(1) ms by blast
  moreover have "live s'' x = live s x" for x
    using F(2) R(3,4) by (auto simp: loses_def)
  moreover have "len = 0 \<or> off = length (chain_bytes s ms) \<or> length (mfree s) < length ms" if "ns = []"
    using C(2) that assms(5) by (auto simp: extended_def)
  moreover have "ns \<noteq> [] \<longrightarrow> chain_bytes s' ns = take len (drop off (chain_bytes s ms))"
    using C(2) unfolding extended_def by fastforce
  moreover have "mb_ok s''"
    using F(2) by (simp add: loses_def)
  ultimately show ?thesis
    using C(1) F(1) R(2,4) kept_bytes(1) [OF R(5) ms] by blast
qed

lemma m_copym_exact_witness:
  "\<exists>s' ns s''. m_copym [127, 126] (int 2) (int 4) (mb_sample sample_bufs) = Some (s', ns) \<and>
    (ns \<noteq> [] \<longrightarrow> chain_bytes s' ns = take 4 (drop 2 (chain_bytes (mb_sample sample_bufs) [127, 126])) \<and> mchain_ok s' ns) \<and>
    (ns = [] \<longrightarrow> (4::nat) = 0 \<or> 2 = length (chain_bytes (mb_sample sample_bufs) [127, 126]) \<or>
      length (mfree (mb_sample sample_bufs)) < length [127::nat, 126]) \<and>
    (\<forall>x. x \<in> set ns \<longrightarrow> \<not> live (mb_sample sample_bufs) x) \<and>
    chain_bytes s' [127, 126] = chain_bytes (mb_sample sample_bufs) [127, 126] \<and>
    m_freem ns s' = Some s'' \<and> mb_ok s'' \<and> (\<forall>x. live s'' x = live (mb_sample sample_bufs) x) \<and>
    chain_bytes s'' [127, 126] = chain_bytes (mb_sample sample_bufs) [127, 126]"
  by (rule m_copym_exact [OF sample_chain(1,2)]) (simp_all only: sample_chain(3), simp_all add: M_COPYALL_def)

section \<open>Trimming\<close>

text \<open>
  C38. \<open>m_adj\<close> drops the first bytes of a chain, or for a negative argument the last ones, at most all of them; the
  chain stays well formed, the length in the packet header remains that of the packet, and no other mbuf changes.
\<close>

theorem m_adj_exact:
  assumes "mchain_ok s ms"
  shows "let s' = m_adj ms req s in chain_bytes s' ms =
      (if 0 \<le> req then drop (nat req) (chain_bytes s ms)
       else take (length (chain_bytes s ms) - nat (- req)) (chain_bytes s ms)) \<and>
    mchain_ok s' ms \<and> (mb_ok s' \<longleftrightarrow> mb_ok s) \<and> (\<forall>x. x \<notin> set ms \<longrightarrow> mb s' x = mb s x) \<and> buf s' = buf s \<and>
    (ms \<noteq> [] \<and> has M_PKTHDR (mb s (hd ms)) \<and> ph_len (m_pkthdr (mb s (hd ms))) = int (length (chain_bytes s ms)) \<longrightarrow>
      ph_len (m_pkthdr (mb s' (hd ms))) = int (length (chain_bytes s' ms)))"
  using m_adj_bytes [OF assms(1), of req] unfolding adjusted_def Let_def by simp

lemma m_adj_exact_witness:
  "chain_bytes (m_adj [127, 126] (-5) (mb_sample sample_bufs)) [127, 126] = take 2 (chain_bytes (mb_sample sample_bufs) [127, 126])"
  using m_adj_exact [OF sample_chain(2), of "-5"] sample_chain(3) by (simp add: Let_def del: chain_bytes_simps)

section \<open>Pulling up\<close>

text \<open>
  C39. \<open>m_pullup\<close> ends; either the result has the same bytes with the first \<open>len\<close> of them in an mbuf of its own without
  an external buffer, made from the old mbufs and new ones, with none lost; or the chain is too short, \<open>len\<close> is more
  than fits beside a packet header, or no mbuf is free, and then exactly the chain's mbufs are freed.  Other mbufs
  keep their data.
\<close>

theorem m_pullup_exact:
  assumes "mb_ok s" and "mchain_ok s ms" and "ms \<noteq> []"
  shows "\<exists>s' ns. m_pullup max_protohdr ms len s = Some (s', ns) \<and> mb_ok s' \<and>
    (if ns = [] then length (chain_bytes s ms) < len \<or> MHLEN < len \<or> mfree s = []
     else mchain_ok s' ns \<and> chain_bytes s' ns = chain_bytes s ms \<and> len \<le> m_len (mb s' (hd ns)) \<and> \<not> has M_EXT (mb s' (hd ns))) \<and>
    (\<forall>x. live s' x \<longleftrightarrow> x \<in> set ns \<or> live s x \<and> x \<notin> set ms) \<and>
    (\<forall>x. live s x \<and> x \<notin> set ms \<longrightarrow> x \<notin> set ns \<and> bytes s' x = bytes s x)"
proof -
  obtain s' ns where P: "m_pullup max_protohdr ms len s = Some (s', ns)"
    "ns \<noteq> [] \<and> rebuilt ms s ns s' \<and> \<not> has M_EXT (mb s' (hd ns)) \<and> len \<le> m_len (mb s' (hd ns)) \<or>
     ns = [] \<and> loses (set ms) s s' \<and> (length (chain_bytes s ms) < len \<or> MHLEN < len \<or> mfree s = [])"
    using m_pullup_ok [OF assms] by blast
  then have R: "replaced ms s ns s'"
    using replacedI(1,3) by blast
  then have "bytes s' x = bytes s x" if "live s x" "x \<notin> set ms" for x
    using core_bytes(1) [of s' x s] that by (simp add: replaced_def kept_def)
  then show ?thesis
    using P R by (auto simp: replaced_def rebuilt_def)
qed

lemma m_pullup_exact_witness:
  "\<exists>s' ns. m_pullup 40 [127, 126] 5 (mb_sample sample_bufs) = Some (s', ns) \<and> mb_ok s' \<and>
    (if ns = [] then length (chain_bytes (mb_sample sample_bufs) [127, 126]) < 5 \<or> MHLEN < 5 \<or> mfree (mb_sample sample_bufs) = []
     else mchain_ok s' ns \<and> chain_bytes s' ns = chain_bytes (mb_sample sample_bufs) [127, 126] \<and> 5 \<le> m_len (mb s' (hd ns)) \<and>
       \<not> has M_EXT (mb s' (hd ns))) \<and>
    (\<forall>x. live s' x \<longleftrightarrow> x \<in> set ns \<or> live (mb_sample sample_bufs) x \<and> x \<notin> set [127, 126]) \<and>
    (\<forall>x. live (mb_sample sample_bufs) x \<and> x \<notin> set [127, 126] \<longrightarrow> x \<notin> set ns \<and> bytes s' x = bytes (mb_sample sample_bufs) x)"
  by (rule m_pullup_exact [OF sample_chain(1,2)]) simp

section \<open>A lost cluster\<close>

text \<open>
  C40. \<open>m_split\<close> inside an mbuf that is alone with its cluster divides the data as it should, but the cluster is lost:
  when both halves are freed, in either order, the cluster has no user and still counts one, so that it is on no free
  list and nothing will ever free it.
\<close>

theorem m_split_loses_cluster:
  assumes "mb_ok s" and "mchain_ok s [m]" and "has M_EXT (mb s m)" and "\<not> has M_PKTHDR (mb s m)"
    and "users s (ext_buf (m_ext (mb s m))) = {m}" and "\<not> ext_free (m_ext (mb s m))"
    and "len < m_len (mb s m)" and "mfree s \<noteq> []"
  shows "\<exists>s1 n. m_split 2 [m] len s = Some (s1, [m], [n]) \<and>
    chain_bytes s1 [m] = take len (chain_bytes s [m]) \<and> chain_bytes s1 [n] = drop len (chain_bytes s [m]) \<and>
    (\<forall>ps. ps = [m, n] \<or> ps = [n, m] \<longrightarrow> (\<exists>s2. m_freem ps s1 = Some s2 \<and>
      users s2 (ext_buf (m_ext (mb s m))) = {} \<and> mclrefcnt s2 (ext_buf (m_ext (mb s m))) = 1 \<and>
      ext_buf (m_ext (mb s m)) \<notin> set (mclfree s2)))"
proof -
  let ?e = "ext_buf (m_ext (mb s m))"
  obtain s1 n where S: "m_split 2 [m] len s = Some (s1, [m], [n])" "m \<noteq> n" "\<not> live s n"
    "chain_bytes s1 [m] = take len (chain_bytes s [m])" "chain_bytes s1 [n] = drop len (chain_bytes s [m])"
    "\<And>x. live s1 x \<longleftrightarrow> x = n \<or> live s x" "\<And>x. x \<noteq> m \<Longrightarrow> x \<noteq> n \<Longrightarrow> live s x \<Longrightarrow> mb s1 x = mb s x"
    "has M_EXT (mb s1 m)" "has M_EXT (mb s1 n)" "ext_buf (m_ext (mb s1 m)) = ?e" "\<not> ext_free (m_ext (mb s1 m))"
    "forward s1 m = m" "forward s1 n = m" "backward s1 n = m" "mclrefcnt s1 ?e = 2" "?e \<notin> set (mclfree s1)"
    "mtocl m \<noteq> ?e" "mtocl n \<noteq> ?e"
    using split_cluster [OF assms] by blast
  have "live s1 m" "live s1 n"
    using S(6) mchain_okD(2) [OF assms(2)] by simp_all
  have "\<exists>s2. m_freem ps s1 = Some s2 \<and> users s2 ?e = {} \<and> mclrefcnt s2 ?e = 1 \<and> ?e \<notin> set (mclfree s2)"
    if ps: "ps = [m, n] \<or> ps = [n, m]" for ps
  proof -
    obtain s2 where F: "m_freem ps s1 = Some s2" "\<not> live s2 m" "\<not> live s2 n"
      "\<And>x. x \<noteq> m \<Longrightarrow> x \<noteq> n \<Longrightarrow> mb s2 x = mb s1 x" "mclfree s2 = mclfree s1" "mclrefcnt s2 ?e = 1"
      using free_halves [OF \<open>live s1 m\<close> \<open>live s1 n\<close> S(2,8,9,11-14) _ _ _ ps] S(10,15,17,18) by auto
    have "x \<notin> users s2 ?e" for x
    proof
      assume "x \<in> users s2 ?e"
      then have x: "x \<noteq> m" "x \<noteq> n" "live s2 x" "has M_EXT (mb s2 x)" "ext_buf (m_ext (mb s2 x)) = ?e"
        using F(2,3) by (auto simp: users_def)
      then have "live s x"
        using F(4) [OF x(1,2)] S(6) [of x] by (simp add: live_def)
      then have "x \<in> users s ?e"
        using x F(4) [OF x(1,2)] S(7) [OF x(1,2)] by (simp add: users_def)
      then show False
        using assms(5) x(1) by simp
    qed
    then have "users s2 ?e = {}"
      by blast
    then show ?thesis
      using F(1,5,6) S(16) by simp
  qed
  then show ?thesis
    using S(1,4,5) by blast
qed

text \<open>The second mbuf of the packet with a cluster of its own.\<close>

definition split_sample :: "(nat \<Rightarrow> u8 list) \<Rightarrow> mb_state" where
  "split_sample bufs = set_len 126 4 (MCLGET 126 (mb_sample bufs))"

lemma split_sample_step:
  "\<not> has M_EXT (mb (mb_sample bufs) 126)" "has M_EXT (mb (MCLGET 126 (mb_sample bufs)) 126)"
  "buf (MCLGET 126 (mb_sample bufs)) b = bufs b"
  by code_simp+

lemma split_sample_bufs: "map (\<lambda>m. ext_buf (m_ext (mb (split_sample bufs) m))) [126, 127] = [13, 14]"
  by code_simp

lemma split_sample_flags:
  "has M_EXT (mb (split_sample bufs) 126)" "\<not> has M_PKTHDR (mb (split_sample bufs) 126)"
  "\<not> ext_free (m_ext (mb (split_sample bufs) 126))"
  by code_simp+

lemma split_sample_len:
  "m_len (mb (split_sample bufs) 126) = 4" "mfree (split_sample bufs) = [125, 124, 123, 122, 121, 120]"
  by code_simp+

lemma split_sample_ok: "mb_ok (split_sample sample_bufs)" "mchain_ok (split_sample sample_bufs) [126]"
  "users (split_sample sample_bufs) 13 = {126}"
proof -
  have "mb_step 40 (mb_sample sample_bufs, [[126], [127]]) (split_sample sample_bufs, [[126], [127]])"
    unfolding split_sample_def
    by (rule cluster [OF split_sample_step(1) HOL.refl split_sample_step(2)])
      (simp add: split_sample_step(2,3) memory_def MCLBYTES_def)
  then have S: "sys_ok (split_sample sample_bufs, [[126], [127]])"
    using step_ok sample_sys by blast
  then show "mb_ok (split_sample sample_bufs)" "mchain_ok (split_sample sample_bufs) [126]"
    by (auto simp: sys_ok_def mchain_ok_def)
  have "live (split_sample sample_bufs) x \<longleftrightarrow> x = 126 \<or> x = 127" for x
    using S by (auto simp: sys_ok_def mchain_ok_def)
  then show "users (split_sample sample_bufs) 13 = {126}"
    using split_sample_bufs [of sample_bufs] split_sample_flags(1) by (auto simp: users_def)
qed

lemma m_split_loses_cluster_witness:
  "\<exists>s1 n. m_split 2 [126] 1 (split_sample sample_bufs) = Some (s1, [126], [n]) \<and>
    (\<forall>ps. ps = [126, n] \<or> ps = [n, 126] \<longrightarrow> (\<exists>s2. m_freem ps s1 = Some s2 \<and> users s2 13 = {} \<and> mclrefcnt s2 13 = 1 \<and>
      13 \<notin> set (mclfree s2)))"
proof -
  have e: "ext_buf (m_ext (mb (split_sample sample_bufs) 126)) = 13"
    using split_sample_bufs [of sample_bufs] by simp
  show ?thesis
    using m_split_loses_cluster [OF split_sample_ok(1,2) split_sample_flags(1,2) _ split_sample_flags(3), of 1]
    unfolding e split_sample_len split_sample_ok(3) by fastforce
qed

end
