(* ===== verification/Spec2Isabelle.thy ===== *)
theory Spec2Isabelle
  imports Bpf_Validate Utf_Props Ipc_Splay_Walk Lock_Props Ipc_Entry_Contract Ipc_Port_Props Ipc_Right_Copyin Ipc_Hash_Props Fd_Undo Mbuf_Props
begin

text \<open>
  A model of parts of the Mac OS X 10.0 kernel, \<^verbatim>\<open>src/xnu-123.5\<close>, and the theorems that make them
  correct.  The rest of the repository (user commands, libraries, tool chain, drivers and third-party
  packages) is not modelled, and neither are the parts of the kernel that do I/O, context switches or
  physical memory; PROJECT.json lists every part with its reason.

  \<^bold>\<open>Shared.\<close>  Kernel_Prelude: the C integer types as words, network byte order.

  \<^bold>\<open>The Berkeley packet filter\<close> (bsd/net/bpf_filter.c, bpf.h, \<open>bpf_setf\<close> of bpf.c).  Bpf_Insn: the instruction
  record, its codes and the switch.  Bpf_Packet: packets as a buffer or as an mbuf chain with the reads
  of both, and the contract \<open>packet_reader\<close> that both satisfy.  Bpf_Filter: the interpreter, one
  definition per group of cases, every read outside a packet, the scratch memory or the program a
  \<open>Fault\<close>; the loop has a step bound, and C1 shows that the program's length is enough for checked
  programs, whose only fault on a chain is an unchecked scratch index.  Bpf_Validate: the checker, what it
  guarantees (C1, C2), the two instructions whose index it never tests (C3), the wrong bounds test of the
  half-word load as an exact condition (C4),
  and the relation of the two packet representations (C5, C6, \<open>bpf_byte_ind_sign\<close>).

  \<^bold>\<open>UTF-8 file names\<close> (bsd/vfs/vfs_utfconv.c).  Utf_Conv: the three conversions over lists with the
  sizes of the buffers as arguments, the unsigned wrap-around of \<open>utf8len\<close> written out, reads past the
  given memory as faults.  Utf_Props: round trip, bounds, decomposition, and what happens to a length
  that ends inside a character (C7 to C10, \<open>utf8_decode_decomposed\<close>, \<open>utf8_decode_overlong\<close>).

  \<^bold>\<open>Spaces of port names\<close> (osfmk/ipc).  Name_Map: the contract of the structure that holds the names
  which overflow a space's table, as the locales \<open>name_map\<close> and \<open>ordered_name_map\<close>.  Ipc_Splay: the
  top-down splay tree of ipc_splay.c in its unassembled form; the two subtrees with a hole are lists
  (spines), so that writing through \<open>ist_ltreep\<close> is filling a spine.  Ipc_Splay_Map: the entries of a
  tree in order, the invariant, and the interpretation of the contracts (C11, C12,
  \<open>splay_split_join\<close>, \<open>splay_bounds_neighbours\<close>).
  Ipc_Splay_Walk: the traversal by pointer inversion with deletion (C13).  Ipc_Table: the sizes a
  table grows through.  Ipc_Entry: the spaces and the operations of ipc_entry.c.  Periods in which
  a space is unlocked are \<open>interlude\<close>s, arbitrary functions on the space that arguments supply; the
  loops take a fuel that bounds the interludes they may use.  Ipc_Entry_Inv: the bit fields, the
  invariant \<open>space_ok\<close> of a space (the free list, the names of the tree, the collision bits, the counts),
  and the map from names to rights that a space stands for, \<open>space_map\<close>.  Ipc_Entry_Props: lookup and
  allocation, Ipc_Entry_Dealloc: deallocation, Ipc_Entry_Grow: the new table, each as an effect on the
  map.  Ipc_Entry_Contract: the loops where nothing disturbs them (\<open>quiet\<close>), and the properties (C19 to
  C22); 1024 quiet periods and 512 rounds are enough because each turn takes two periods and there are
  512 sizes.

  \<^bold>\<open>Ports\<close> (osfmk/ipc/ipc_port.c, macros of ipc_port.h and ipc_object.h).  Ipc_Port: a store of ports, the
  counts of rights and references, the table of dead-name requests, chains of ports in transit and the
  destruction of a port; calls into message queues, port sets and notifications are recorded in order,
  what happens to ports while they are unlocked is an argument.  Ipc_Port_Props: the chains stay free of
  circles (C23), with a fuel above the number of ports in transit, since a chain without a circle visits
  each at most once; the request table as a map with a free list (C24).

  \<^bold>\<open>Rights\<close> (osfmk/ipc/ipc_right.c).  Ipc_Right: the operations on an entry of a space and the port it names,
  over the ports' state extended by a space; an entry is reached through an \<open>ipc_entry_ref\<close>, an element of
  the table or a name in the tree.  Ipc_Right_Base: the bit fields under addition, stores through such a
  reference, what makes an entry and its port well formed (\<open>right_ok\<close>), and the steps that the operations
  share.  Ipc_Right_Copyin: copying a right in (C25, C26).

  \<^bold>\<open>The reverse hash tables\<close> (osfmk/ipc/ipc_hash.c), from an object to the name of its send right.  Ipc_Hash: the
  open addressing inside a space's table and the chains of the global table; a loop takes as many rounds as the
  table has places, or 32 for the rounding of a 32-bit size.  Ipc_Hash_Probe: the circle of places, clumps, and
  the locale \<open>probing\<close> with what seeking, inserting and the deletion with its moving hole keep; a table whose
  indices are in range always has a free place, from which the circle is cut into an interval.  Ipc_Hash_Props:
  its interpretation on the local tables; the exact lookup in both tables (C27), insertion and deletion as
  effects on the set of entries (\<open>local_insert_adds\<close>, C28), and the size of the global table.  The operations of ipc_entry.c
  and ipc_right.c only record their calls here, in \<open>is_hash\<close>.

  \<^bold>\<open>The lock manager\<close> (bsd/kern/kern_lock.c).  Lock_Manager: \<open>lockmgr\<close> cut at the places where it sleeps,
  each request a function from the lock to a result that says whether it finished, sleeps or panics, with
  the wakeups it issued.  Lock_System: any number of threads over one lock, as a step relation with signals
  and timeouts, and its invariant.  Lock_Props: mutual exclusion, panics, three races, and what holds when a drain is
  granted, at once or after its sleep (C14 to C18).

  \<^bold>\<open>File descriptors\<close> (bsd/kern/kern_descrip.c, filedesc.h, file.h, \<open>open\<close> of bsd/vfs/vfs_syscalls.c).  Fd_Table: the table of a process as two arrays
  with two marks, the open files by address with their counts, and the calls on them; \<open>None\<close> is a panic or an
  access outside an array.
  Where an operation may sleep, the closing of a file included, an argument says what the other threads of the
  process made of the state; they are taken to start and complete their calls during a sleep, and locks on the
  table itself are not modelled.  Fd_Inv: the invariant (\<open>fd_tidy\<close> of the table, \<open>refs_ok\<close>: a count is the descriptors
  of the file and the references held elsewhere; \<open>in_flight\<close> are files counted but not yet listed, and files that
  lost their last reference and are listed until their closer wakes up), the rely condition \<open>polite\<close> on sleeps, and
  the steps shared by the calls.  Fd_Ops, Fd_Open: the calls keep the invariant and each other's reservations, so that
  any sequence of them is a polite sleep (Fd_Steps, \<open>fd_steps\<close>).  Fd_Total: they return, without a panic or an access
  outside an array, when no count is at the maximum of a \<open>short\<close> (\<open>roomy\<close>).  Fd_Props: both under interference
  (C29); the least descriptor, duplication, \<open>exec\<close> and \<open>fork\<close> (C30 to C32, \<open>fdexec_effect\<close>); an overrun and a leak
  (C33, \<open>falloc_leaks_descriptor\<close>).  Fd_Undo: a failed \<open>open\<close> and the exit of a forked child leave no trace (C34,
  C35).  The fuel of \<open>fdalloc\<close> counts the expansions of the table; above the limit it is enough, since every expansion
  enlarges the table.  \<open>exec\<close> is refused for a process with several threads, and at the exit the table is taken away
  from the process first, so the closes of \<open>fdexec\<close> and \<open>fdfree\<close> have no interference.

  \<^bold>\<open>Network buffers\<close> (bsd/kern/uipc_mbuf.c, sys/mbuf.h, \<open>insque\<close> and \<open>remque\<close> of osfmk/kern/queue.c).  Mbuf_Store: the
  mbufs by address, external buffers by number, free lists and reference counts, with allocation that does not wait.
  The fields of the union in an mbuf have their own places; a chain is the list of its addresses, so that \<open>m_next\<close> is
  the successor in the list.  Mbuf_Ops: the routines on chains; \<open>pull_loop\<close> has as many rounds as there are mbufs, which
  is enough because a round that does not finish frees one, and \<open>m_split\<close> calls itself once at most.  Mbuf_Ring: the rings
  of mbufs that share a buffer as paths from a node to itself, the invariant \<open>mb_ok\<close> of the allocator, and what
  allocating (\<open>gains\<close>), sharing and freeing (\<open>loses\<close>) do to it.  Mbuf_Bytes: the bytes of a chain, reading and trimming;
  Mbuf_Copy, Mbuf_Pullup and Mbuf_Join: copies (\<open>extended\<close>), chains made anew with the same bytes (\<open>rebuilt\<close>), room in
  front (\<open>prepended\<close>) and the pool.  Mbuf_System: any sequence of calls by the holders of chains, and the contract
  \<open>chain_call\<close> of a call that replaces one chain by another.  Mbuf_Split and Mbuf_Props: nothing is lost (C36), the
  exact effects of copying, trimming and pulling up (C37 to C39, \<open>m_copydata_bytes\<close>, \<open>m_cat_ok\<close>, \<open>M_PREPEND_ok\<close>), and the
  cluster that \<open>m_split\<close> loses (C40).

  \<^bold>\<open>Not modelled\<close>: spin locks and interlocks (each locked region is one step), the multiprocessor
  \<open>PAUSE\<close>, memory allocation (its success is an argument), \<open>ipc_right_reverse\<close>,
  the vnode commands of \<open>fcntl\<close>,
  waiting for mbufs, their statistics and the routines for network drivers.
\<close>

end
